(* ===== verification/OS_Prelude.thy ===== *)
theory OS_Prelude
  imports Main "HOL-Library.Word" "HOL-Library.Monad_Syntax"
begin

text \<open>
  Shared vocabulary of the development.

  \<^item> The machine integers of \<^verbatim>\<open>src/include/type.h\<close> as fixed-width words; byte arrays as
    lists of bytes (plain \<^verbatim>\<open>char\<close> is unsigned for the RISC-V compiler named in the Makefile).
  \<^item> A kernel routine that may fail to return (a NULL or wild dereference, a failed
    \<^verbatim>\<open>assert\<close>, which spins forever, or a loop that never ends) has an \<open>option\<close> result:
    \<open>None\<close> is "does not return".
  \<^item> Little-endian codecs, slices of byte arrays and bit lemmas that the components share.
\<close>

unbundle bit_operations_syntax

named_theorems slice_simps \<open>reading back slices of byte arrays\<close>
named_theorems link_simps \<open>pointer reads after pointer writes in linked lists\<close>
named_theorems pte_simps \<open>bit fields of page table entries\<close>

type_synonym u8 = "8 word"
type_synonym u16 = "16 word"
type_synonym u32 = "32 word"
type_synonym u64 = "64 word"
type_synonym i32 = "32 word"
type_synonym bytes = "u8 list"

section \<open>Slices of byte arrays\<close>

text \<open>\<open>bget o n\<close> reads \<open>n\<close> elements at offset \<open>o\<close>, \<open>bput o xs\<close> overwrites at offset \<open>o\<close>.\<close>

definition bget :: "nat \<Rightarrow> nat \<Rightarrow> 'a list \<Rightarrow> 'a list" where
  "bget off n bs = take n (drop off bs)"

definition bput :: "nat \<Rightarrow> 'a list \<Rightarrow> 'a list \<Rightarrow> 'a list" where
  "bput off xs bs = take off bs @ xs @ drop (off + length xs) bs"

lemma length_bget [simp]: "length (bget off n bs) = min n (length bs - off)"
  by (simp add: bget_def)

lemma length_bput [simp]:
  "off + length xs \<le> length bs \<Longrightarrow> length (bput off xs bs) = length bs"
  by (simp add: bput_def)

lemma nth_bget: "i < n \<Longrightarrow> off + i < length bs \<Longrightarrow> bget off n bs ! i = bs ! (off + i)"
  by (simp add: bget_def)

lemma nth_bput:
  assumes "off + length xs \<le> length bs" "i < length bs"
  shows "bput off xs bs ! i =
    (if off \<le> i \<and> i < off + length xs then xs ! (i - off) else bs ! i)"
  using assms by (auto simp: bput_def nth_append)

lemma bget_bput_same [slice_simps]:
  "off + length xs \<le> length bs \<Longrightarrow> n = length xs \<Longrightarrow> bget off n (bput off xs bs) = xs"
  by (simp add: bget_def bput_def)

lemma bget_bput_other [slice_simps]:
  assumes "off + length xs \<le> length bs" "off' + n \<le> off \<or> off + length xs \<le> off'"
  shows "bget off' n (bput off xs bs) = bget off' n bs"
proof (rule nth_equalityI)
  show "length (bget off' n (bput off xs bs)) = length (bget off' n bs)"
    using assms by simp
  fix i assume "i < length (bget off' n (bput off xs bs))"
  then have i: "i < n" "off' + i < length bs" using assms by auto
  have "bget off' n (bput off xs bs) ! i = bput off xs bs ! (off' + i)"
    using i assms(1) by (simp add: nth_bget)
  also have "\<dots> = bs ! (off' + i)"
    using i assms by (auto simp: nth_bput)
  also have "\<dots> = bget off' n bs ! i" using i by (simp add: nth_bget)
  finally show "bget off' n (bput off xs bs) ! i = bget off' n bs ! i" .
qed

lemma bput_bget_id [slice_simps]:
  assumes "off + n \<le> length bs"
  shows "bput off (bget off n bs) bs = bs"
  using assms by (intro nth_equalityI) (auto simp: nth_bput nth_bget)

lemma bput_bput_same [slice_simps]:
  assumes "length xs = length ys" "off + length xs \<le> length bs"
  shows "bput off xs (bput off ys bs) = bput off xs bs"
  using assms by (intro nth_equalityI) (auto simp: nth_bput)

lemma bget_0_take: "bget 0 n bs = take n bs"
  by (simp add: bget_def)

lemma bget_bget [slice_simps]:
  "off + n \<le> m \<Longrightarrow> bget off n (bget o' m bs) = bget (o' + off) n bs"
  by (simp add: bget_def drop_take min_absorb1 add.commute)

section \<open>Little-endian integers\<close>

fun le_bytes :: "nat \<Rightarrow> nat \<Rightarrow> bytes" where
  "le_bytes 0 v = []"
| "le_bytes (Suc n) v = word_of_nat (v mod 256) # le_bytes n (v div 256)"

fun le_val :: "bytes \<Rightarrow> nat" where
  "le_val [] = 0"
| "le_val (b # bs) = unat b + 256 * le_val bs"

lemma length_le_bytes [simp]: "length (le_bytes n v) = n"
  by (induction n arbitrary: v) auto

lemma unat_bounds [simp]:
  "unat (a :: u8) < 256" "unat (b :: u16) < 65536" "unat (c :: u32) < 4294967296"
  using unsigned_less [of a, where 'a = nat] unsigned_less [of b, where 'a = nat]
    unsigned_less [of c, where 'a = nat] by simp_all

lemma le_val_bound: "le_val bs < 256 ^ length bs"
proof (induction bs)
  case (Cons b bs)
  have "unat b < 256" by simp
  with Cons show ?case by (simp del: unat_bounds)
qed simp

lemma le_val_le_bytes: "le_val (le_bytes n v) = v mod 256 ^ n"
proof (induction n arbitrary: v)
  case (Suc n)
  have "unat (word_of_nat (v mod 256) :: u8) = v mod 256"
    by (simp add: unat_of_nat)
  then show ?case by (simp add: Suc mod_mult2_eq)
qed simp

lemma le_bytes_le_val: "le_bytes (length bs) (le_val bs) = bs"
proof (induction bs)
  case (Cons b bs)
  have b: "unat b < 256" by simp
  show ?case using Cons b by simp
qed simp

text \<open>Loads and stores of 16- and 32-bit little-endian fields at a byte offset.\<close>

definition get_u16 :: "nat \<Rightarrow> bytes \<Rightarrow> u16" where
  "get_u16 off bs = word_of_nat (le_val (bget off 2 bs))"

definition get_u32 :: "nat \<Rightarrow> bytes \<Rightarrow> u32" where
  "get_u32 off bs = word_of_nat (le_val (bget off 4 bs))"

definition u16_bytes :: "u16 \<Rightarrow> bytes" where
  "u16_bytes v = le_bytes 2 (unat v)"

definition u32_bytes :: "u32 \<Rightarrow> bytes" where
  "u32_bytes v = le_bytes 4 (unat v)"

definition put_u32 :: "nat \<Rightarrow> u32 \<Rightarrow> bytes \<Rightarrow> bytes" where
  "put_u32 off v bs = bput off (u32_bytes v) bs"

lemma length_u16_bytes [simp]: "length (u16_bytes v) = 2"
  by (simp add: u16_bytes_def)

lemma length_u32_bytes [simp]: "length (u32_bytes v) = 4"
  by (simp add: u32_bytes_def)

lemma val_u16_bytes [simp]: "word_of_nat (le_val (u16_bytes v)) = v"
proof -
  have "unat v < 256 ^ 2" by simp
  then show ?thesis by (simp add: u16_bytes_def le_val_le_bytes)
qed

lemma val_u32_bytes [simp]: "word_of_nat (le_val (u32_bytes v)) = v"
proof -
  have "unat v < 256 ^ 4" by simp
  then show ?thesis by (simp add: u32_bytes_def le_val_le_bytes)
qed

lemma length_put_u32 [simp]: "off + 4 \<le> length bs \<Longrightarrow> length (put_u32 off v bs) = length bs"
  by (simp add: put_u32_def)

lemma get_put_u32 [slice_simps]: "off + 4 \<le> length bs \<Longrightarrow> get_u32 off (put_u32 off v bs) = v"
  by (simp add: get_u32_def put_u32_def slice_simps)

lemma get_put_u32_other [slice_simps]:
  "off + 4 \<le> length bs \<Longrightarrow> off' + 4 \<le> off \<or> off + 4 \<le> off' \<Longrightarrow>
    get_u32 off' (put_u32 off v bs) = get_u32 off' bs"
  by (simp add: get_u32_def put_u32_def slice_simps)

section \<open>Options as results\<close>

lemma bind_eq_SomeD: "Option.bind m f = Some y \<Longrightarrow> \<exists>x. m = Some x \<and> f x = Some y"
  by (cases m) auto

lemma bind_SomeI: "m = Some x \<Longrightarrow> f x = y \<Longrightarrow> Option.bind m f = y"
  by simp

text \<open>A C assertion: the routine does not get past a false one.\<close>

definition c_assert :: "bool \<Rightarrow> unit option" where
  "c_assert b = (if b then Some () else None)"

lemma c_assert_simps [simp]: "c_assert True = Some ()" "c_assert False = None"
  by (simp_all add: c_assert_def)

section \<open>Lists searched from the left\<close>

text \<open>The idiom \<^verbatim>\<open>for (i = 0; i < n; i++) if (P(i)) return i;\<close>.\<close>

lemma find_append: "find P (xs @ ys) = (case find P xs of Some x \<Rightarrow> Some x | None \<Rightarrow> find P ys)"
  by (induction xs) auto

definition first_idx :: "(nat \<Rightarrow> bool) \<Rightarrow> nat \<Rightarrow> nat option" where
  "first_idx P n = find P [0..<n]"

lemma first_idx_Some_iff:
  "first_idx P n = Some i \<longleftrightarrow> i < n \<and> P i \<and> (\<forall>j < i. \<not> P j)"
proof -
  have "find P [0..<n] = Some i \<longleftrightarrow> (\<exists>k < n. P k \<and> i = k \<and> (\<forall>j < k. \<not> P j))"
    by (auto simp: find_Some_iff)
  then show ?thesis by (auto simp: first_idx_def)
qed

lemma first_idx_None_iff: "first_idx P n = None \<longleftrightarrow> (\<forall>i < n. \<not> P i)"
  by (auto simp: first_idx_def find_None_iff)

section \<open>Signed 32 bit integers\<close>

lemma signed_fit: "- 2147483648 \<le> k \<Longrightarrow> k < 2147483648 \<Longrightarrow> signed_take_bit 31 (k :: int) = k"
  by (rule signed_take_bit_int_eq_self) simp_all

lemma sint_pos:
  fixes w :: i32
  assumes "unat w < 2147483648"
  shows "sint w = int (unat w)"
proof -
  have "int (unat w) = uint w" by simp
  then have "signed_take_bit 31 (uint w) = uint w" using assms by (intro signed_fit) linarith+
  then show ?thesis by (simp add: sint_uint)
qed

lemma sint_neg: "sint (w :: i32) < 0 \<Longrightarrow> 2147483648 \<le> unat w"
  using sint_pos [of w] by (cases "unat w < 2147483648") simp_all

lemma sint_add_fit:
  fixes v w :: i32
  shows "- 2147483648 \<le> sint v + sint w \<Longrightarrow> sint v + sint w < 2147483648 \<Longrightarrow> sint (v + w) = sint v + sint w"
  by (simp add: sint_word_ariths signed_fit)

lemma sint_diff_fit:
  fixes v w :: i32
  shows "- 2147483648 \<le> sint v - sint w \<Longrightarrow> sint v - sint w < 2147483648 \<Longrightarrow> sint (v - w) = sint v - sint w"
  by (simp add: sint_word_ariths signed_fit)

section \<open>Rounding\<close>

text \<open>\<^verbatim>\<open>ROUND\<close> and \<^verbatim>\<open>ROUNDDOWN\<close> of src/include/os/mm.h.\<close>

definition ROUND :: "u64 \<Rightarrow> u64 \<Rightarrow> u64" where "ROUND a n = (a + n - 1) AND NOT (n - 1)"
definition ROUNDDOWN :: "u64 \<Rightarrow> u64 \<Rightarrow> u64" where "ROUNDDOWN a n = a AND NOT (n - 1)"

lemma unat_and_not_mask: "unat (x AND NOT (mask n) :: u64) = unat x div 2 ^ n * 2 ^ n"
proof -
  have x: "unat x < 2 ^ 64" using unsigned_less [of x, where 'a = nat] by simp
  have "x AND NOT (mask n) = push_bit n (drop_bit n x)"
    by (rule bit_word_eqI) (auto simp: bit_simps dest: bit_imp_le_length)
  then have "unat (x AND NOT (mask n)) = unat x mod 2 ^ 64 div 2 ^ n * 2 ^ n mod 2 ^ 64"
    by (simp only: unsigned_push_bit_eq unsigned_drop_bit_eq)
      (simp add: push_bit_eq_mult drop_bit_eq_div take_bit_eq_mod)
  moreover have "unat x div 2 ^ n * 2 ^ n < 2 ^ 64" using x by (rule le_less_trans [OF div_times_less_eq_dividend])
  ultimately show ?thesis using x by simp
qed

end
