(* ===== verification/DList.thy ===== *)
theory DList
  imports OS_Prelude
begin

text \<open>
  Circular doubly-linked lists with a sentinel head, the one container the kernel uses: the
  scheduler's queues (\<^verbatim>\<open>list_node_t\<close>, src/include/os/list.h), the page lists
  (\<^verbatim>\<open>PageNode_t\<close>, src/include/os/mm.h) and the buffer cache (\<^verbatim>\<open>buf_t\<close>, src/include/os/fs.h).
  The pointers are an explicit store \<open>links\<close> from nodes to their \<^verbatim>\<open>next\<close> and \<^verbatim>\<open>prev\<close> fields
  (\<open>None\<close> is NULL); \<open>dll lk h xs\<close> says that the list headed by \<open>h\<close> holds exactly \<open>xs\<close>, in order.
  The locale \<open>dqueue\<close> is the contract of an enqueue-at-tail and a delete-anywhere operation;
  each of the kernel's list implementations interprets it.
\<close>

section \<open>The pointer store\<close>

record 'n links =
  nxt :: "'n \<Rightarrow> 'n option"
  prv :: "'n \<Rightarrow> 'n option"

definition set_nxt :: "'n \<Rightarrow> 'n option \<Rightarrow> 'n links \<Rightarrow> 'n links" where
  "set_nxt p v lk = lk\<lparr>nxt := (nxt lk)(p := v)\<rparr>"

definition set_prv :: "'n \<Rightarrow> 'n option \<Rightarrow> 'n links \<Rightarrow> 'n links" where
  "set_prv p v lk = lk\<lparr>prv := (prv lk)(p := v)\<rparr>"

lemma links_simps [simp, link_simps]:
  "nxt (set_nxt p v lk) = (nxt lk)(p := v)"
  "prv (set_nxt p v lk) = prv lk"
  "prv (set_prv p v lk) = (prv lk)(p := v)"
  "nxt (set_prv p v lk) = nxt lk"
  by (simp_all add: set_nxt_def set_prv_def)

lemma links_eqI: "nxt lk = nxt lk' \<Longrightarrow> prv lk = prv lk' \<Longrightarrow> lk = (lk' :: 'n links)"
  by (cases lk; cases lk') simp

text \<open>The states an insertion and a deletion reach.\<close>

definition link_between :: "'n \<Rightarrow> 'n \<Rightarrow> 'n \<Rightarrow> 'n links \<Rightarrow> 'n links" where
  "link_between a p b lk =
     \<lparr>nxt = (nxt lk)(p := Some b, a := Some p), prv = (prv lk)(p := Some a, b := Some p)\<rparr>"

definition unlink_between :: "'n \<Rightarrow> 'n \<Rightarrow> 'n \<Rightarrow> 'n links \<Rightarrow> 'n links" where
  "unlink_between a p b lk =
     \<lparr>nxt = (nxt lk)(p := None, a := Some b), prv = (prv lk)(p := None, b := Some a)\<rparr>"

lemma between_simps [simp]:
  "nxt (link_between a p b lk) = (nxt lk)(p := Some b, a := Some p)"
  "prv (link_between a p b lk) = (prv lk)(p := Some a, b := Some p)"
  "nxt (unlink_between a p b lk) = (nxt lk)(p := None, a := Some b)"
  "prv (unlink_between a p b lk) = (prv lk)(p := None, b := Some a)"
  by (simp_all add: link_between_def unlink_between_def)

section \<open>List segments and circular lists\<close>

primrec seg :: "'n links \<Rightarrow> 'n \<Rightarrow> 'n list \<Rightarrow> 'n \<Rightarrow> bool" where
  "seg lk p [] q \<longleftrightarrow> nxt lk p = Some q \<and> prv lk q = Some p"
| "seg lk p (x # xs) q \<longleftrightarrow> nxt lk p = Some x \<and> prv lk x = Some p \<and> seg lk x xs q"

definition dll :: "'n links \<Rightarrow> 'n \<Rightarrow> 'n list \<Rightarrow> bool" where
  "dll lk h xs \<longleftrightarrow> distinct (h # xs) \<and> seg lk h xs h"

lemma seg_append: "seg lk p (xs @ x # ys) q \<longleftrightarrow> seg lk p xs x \<and> seg lk x ys q"
  by (induction xs arbitrary: p) auto

lemma seg_cong:
  assumes "\<And>n. n \<in> insert p (set xs) \<Longrightarrow> nxt lk' n = nxt lk n"
    and "\<And>n. n \<in> insert q (set xs) \<Longrightarrow> prv lk' n = prv lk n"
  shows "seg lk' p xs q = seg lk p xs q"
  using assms by (induction xs arbitrary: p) auto

lemma seg_first: "seg lk p xs q \<Longrightarrow> nxt lk p = Some (hd (xs @ [q]))"
  by (cases xs) auto

lemma seg_last: "seg lk p xs q \<Longrightarrow> prv lk q = Some (last (p # xs))"
  by (induction xs arbitrary: p) auto

lemma dll_first: "dll lk h xs \<Longrightarrow> nxt lk h = Some (hd (xs @ [h]))"
  unfolding dll_def by (blast dest: seg_first)

lemma dll_last: "dll lk h xs \<Longrightarrow> prv lk h = Some (last (h # xs))"
  unfolding dll_def by (blast dest: seg_last)

lemma dll_Nil_iff: "dll lk h [] \<longleftrightarrow> nxt lk h = Some h \<and> prv lk h = Some h"
  by (simp add: dll_def)

lemma dll_distinct: "dll lk h xs \<Longrightarrow> distinct xs" "dll lk h xs \<Longrightarrow> h \<notin> set xs"
  by (simp_all add: dll_def)

lemma dll_next_eq_head: "dll lk h xs \<Longrightarrow> nxt lk h = Some h \<longleftrightarrow> xs = []"
  by (cases xs) (auto simp: dll_def)

lemma seg_next:
  "seg lk p (xs @ x # ys) q \<Longrightarrow> nxt lk x = Some (hd (ys @ [q]))"
  by (simp add: seg_append seg_first)

lemma dll_next_mem: "dll lk h (xs @ x # ys) \<Longrightarrow> nxt lk x = Some (hd (ys @ [h]))"
  unfolding dll_def by (blast dest: seg_next)

lemma dll_prev_mem: "dll lk h (xs @ x # ys) \<Longrightarrow> prv lk x = Some (last (h # xs))"
  by (auto simp: dll_def seg_append seg_last)

lemma dll_mem_not_None: "dll lk h xs \<Longrightarrow> x \<in> set xs \<Longrightarrow> nxt lk x \<noteq> None"
  by (auto dest!: split_list dll_next_mem)

lemma dll_unique: "dll lk h xs \<Longrightarrow> dll lk h ys \<Longrightarrow> xs = ys"
proof -
  have "seg lk p xs h \<Longrightarrow> seg lk p ys h \<Longrightarrow> h \<notin> set xs \<Longrightarrow> h \<notin> set ys \<Longrightarrow> xs = ys" for p
  proof (induction xs arbitrary: p ys)
    case Nil
    then show ?case by (cases ys) auto
  next
    case (Cons x xs)
    then obtain ys' where "ys = x # ys'" by (cases ys) auto
    with Cons show ?case by auto
  qed
  then show "dll lk h xs \<Longrightarrow> dll lk h ys \<Longrightarrow> xs = ys" by (auto simp: dll_def)
qed

lemma dll_frame:
  assumes "\<And>n. n \<in> insert h (set xs) \<Longrightarrow> nxt lk' n = nxt lk n \<and> prv lk' n = prv lk n"
  shows "dll lk' h xs = dll lk h xs"
  using assms seg_cong [of h xs lk' lk h] by (auto simp: dll_def)

lemma dll_between_frame:
  assumes "a \<notin> insert h (set xs)" "p \<notin> insert h (set xs)" "b \<notin> insert h (set xs)"
  shows "dll (link_between a p b lk) h xs = dll lk h xs"
    "dll (unlink_between a p b lk) h xs = dll lk h xs"
  using assms by (auto intro!: dll_frame)

lemma last_in_cons: "last (h # xs) \<in> set (h # xs)"
  by (rule last_in_set) simp

lemma hd_in_snoc: "hd (ys @ [h]) \<in> set (ys @ [h])"
  by (rule hd_in_set) simp

section \<open>Insertion and deletion\<close>

lemma seg_link:
  assumes "seg lk h (xs @ ys) h'" "p \<notin> insert h (insert h' (set (xs @ ys)))"
    and "distinct (h # xs @ ys)" "distinct (xs @ ys @ [h'])"
  shows "seg (link_between (last (h # xs)) p (hd (ys @ [h'])) lk) h (xs @ p # ys) h'"
  using assms
proof (induction xs arbitrary: h)
  case Nil
  note prems = Nil.prems
  show ?case
  proof (cases ys)
    case Nil
    with prems show ?thesis by auto
  next
    case (Cons y ys')
    have "seg (link_between h p y lk) y ys' h' = seg lk y ys' h'"
      using prems Cons by (intro seg_cong) auto
    with prems Cons show ?thesis by auto
  qed
next
  case (Cons x xs)
  have "last (h # x # xs) = last (x # xs)" by simp
  moreover have "seg (link_between (last (x # xs)) p (hd (ys @ [h'])) lk) x (xs @ p # ys) h'"
    by (rule Cons.IH) (use Cons.prems in auto)
  moreover note last_in_cons [of x xs] hd_in_snoc [of ys h']
  ultimately show ?case using Cons.prems by auto
qed

lemma dll_link:
  assumes "dll lk h (xs @ ys)" "p \<notin> insert h (set (xs @ ys))"
  shows "dll (link_between (last (h # xs)) p (hd (ys @ [h])) lk) h (xs @ p # ys)"
  using assms seg_link [of lk h xs ys h p] by (auto simp: dll_def)

lemma seg_unlink:
  assumes "seg lk h (xs @ p # ys) h'" "distinct (h # xs @ p # ys)" "distinct (xs @ p # ys @ [h'])"
  shows "seg (unlink_between (last (h # xs)) p (hd (ys @ [h'])) lk) h (xs @ ys) h'"
  using assms
proof (induction xs arbitrary: h)
  case Nil
  note prems = Nil.prems
  show ?case
  proof (cases ys)
    case Nil
    with prems show ?thesis by auto
  next
    case (Cons y ys')
    have "seg (unlink_between h p y lk) y ys' h' = seg lk y ys' h'"
      using prems Cons by (intro seg_cong) auto
    with prems Cons show ?thesis by auto
  qed
next
  case (Cons x xs)
  have "seg (unlink_between (last (x # xs)) p (hd (ys @ [h'])) lk) x (xs @ ys) h'"
    by (rule Cons.IH) (use Cons.prems in auto)
  moreover note last_in_cons [of x xs] hd_in_snoc [of ys h']
  ultimately show ?case using Cons.prems by auto
qed

lemma dll_unlink:
  assumes "dll lk h (xs @ p # ys)"
  shows "dll (unlink_between (last (h # xs)) p (hd (ys @ [h])) lk) h (xs @ ys)"
  using assms seg_unlink [of lk h xs p ys h] by (auto simp: dll_def)

section \<open>Families of disjoint lists\<close>

text \<open>
  \<open>queues H Q lk\<close>: the heads in \<open>H\<close> are the heads of pairwise disjoint lists, the list of \<open>h\<close>
  holding \<open>Q h\<close>. This is the abstraction function of the kernel's queues, as a relation.
\<close>

definition queues :: "'n set \<Rightarrow> ('n \<Rightarrow> 'n list) \<Rightarrow> 'n links \<Rightarrow> bool" where
  "queues H Q lk \<longleftrightarrow> (\<forall>h \<in> H. dll lk h (Q h)) \<and> (\<forall>h \<in> H. set (Q h) \<inter> H = {}) \<and>
     (\<forall>h \<in> H. \<forall>h' \<in> H. \<forall>p. p \<in> set (Q h) \<longrightarrow> p \<in> set (Q h') \<longrightarrow> h = h')"

definition unqueued :: "'n set \<Rightarrow> ('n \<Rightarrow> 'n list) \<Rightarrow> 'n \<Rightarrow> bool" where
  "unqueued H Q p \<longleftrightarrow> p \<notin> H \<and> (\<forall>h \<in> H. p \<notin> set (Q h))"

lemma queues_dll: "queues H Q lk \<Longrightarrow> h \<in> H \<Longrightarrow> dll lk h (Q h)"
  by (simp add: queues_def)

lemma queues_disjoint:
  "queues H Q lk \<Longrightarrow> h \<in> H \<Longrightarrow> h' \<in> H \<Longrightarrow> p \<in> set (Q h) \<Longrightarrow> p \<in> set (Q h') \<Longrightarrow> h = h'"
  by (auto simp: queues_def)

lemma queues_head_notin: "queues H Q lk \<Longrightarrow> h \<in> H \<Longrightarrow> h' \<in> H \<Longrightarrow> h' \<notin> set (Q h)"
  by (auto simp: queues_def)

lemma queues_apart:
  "queues H Q lk \<Longrightarrow> h \<in> H \<Longrightarrow> g \<in> H \<Longrightarrow> g \<noteq> h \<Longrightarrow> set (g # Q g) \<inter> set (h # Q h) = {}"
  by (auto simp: queues_def)

lemma queuesI:
  assumes "\<And>h. h \<in> H \<Longrightarrow> dll lk h (Q h)" "\<And>h p. h \<in> H \<Longrightarrow> p \<in> set (Q h) \<Longrightarrow> p \<notin> H"
    and "\<And>h h' p. h \<in> H \<Longrightarrow> h' \<in> H \<Longrightarrow> p \<in> set (Q h) \<Longrightarrow> p \<in> set (Q h') \<Longrightarrow> h = h'"
  shows "queues H Q lk"
  using assms unfolding queues_def by blast

lemma queues_link:
  assumes qs: "queues H Q lk" and h: "h \<in> H" and p: "unqueued H Q p"
  shows "queues H (Q(h := Q h @ [p])) (link_between (last (h # Q h)) p h lk)"
    (is "queues H ?Q ?lk")
proof -
  have "dll ?lk h (Q h @ [p])"
  proof -
    have "p \<noteq> h" "p \<notin> set (Q h)" using p h by (auto simp: unqueued_def)
    then show ?thesis using dll_link [of lk h "Q h" "[]" p] queues_dll [OF qs h] by simp
  qed
  moreover have "dll ?lk g (Q g)" if g: "g \<in> H" "g \<noteq> h" for g
  proof -
    have "set (g # Q g) \<inter> set (h # Q h) = {}" by (rule queues_apart [OF qs h g])
    moreover note last_in_cons [of h "Q h"]
    moreover have "p \<notin> set (g # Q g)" using p g by (auto simp: unqueued_def)
    ultimately have "dll ?lk g (Q g) = dll lk g (Q g)"
      by (intro dll_between_frame(1)) (simp_all only: list.set, blast+)
    then show ?thesis using queues_dll [OF qs g(1)] by simp
  qed
  ultimately have "dll ?lk g (?Q g)" if "g \<in> H" for g using that by (cases "g = h") auto
  then show ?thesis
  proof (rule queuesI)
    fix g g' x assume g: "g \<in> H" and x: "x \<in> set (?Q g)"
    then have "x = p \<and> g = h \<or> x \<in> set (Q g)" by (auto split: if_splits)
    then show "x \<notin> H" using queues_head_notin [OF qs g] p by (auto simp: unqueued_def)
    assume g': "g' \<in> H" and x': "x \<in> set (?Q g')"
    then show "g = g'" using g x p queues_disjoint [OF qs g g']
      by (auto simp: unqueued_def split: if_splits)
  qed
qed

lemma queues_unlink:
  assumes qs: "queues H Q lk" and h: "h \<in> H" and Qh: "Q h = xs @ p # ys"
  shows "queues H (Q(h := xs @ ys)) (unlink_between (last (h # xs)) p (hd (ys @ [h])) lk)"
    (is "queues H ?Q ?lk")
    and "unqueued H (Q(h := xs @ ys)) p"
proof -
  have dh: "dll lk h (xs @ p # ys)" using queues_dll [OF qs h] Qh by simp
  have "dll ?lk h (xs @ ys)" using dh by (rule dll_unlink)
  moreover have "dll ?lk g (Q g)" if g: "g \<in> H" "g \<noteq> h" for g
  proof -
    have "set (g # Q g) \<inter> set (h # xs @ p # ys) = {}"
      using queues_apart [OF qs h g] Qh by simp
    moreover note last_in_cons [of h xs] hd_in_snoc [of ys h]
    ultimately have "dll ?lk g (Q g) = dll lk g (Q g)"
      by (intro dll_between_frame(2)) (simp_all only: list.set set_append, blast+)
    then show ?thesis using queues_dll [OF qs g(1)] by simp
  qed
  ultimately have "dll ?lk g (?Q g)" if "g \<in> H" for g using that by (cases "g = h") auto
  moreover have "set (?Q g) \<subseteq> set (Q g)" for g by (auto simp: Qh)
  ultimately show "queues H ?Q ?lk"
    using queues_head_notin [OF qs] queues_disjoint [OF qs] by (intro queuesI) blast+
  show "unqueued H ?Q p"
    using dh queues_disjoint [OF qs h, of _ p] queues_head_notin [OF qs h] Qh
    by (auto simp: unqueued_def dll_def)
qed

section \<open>The contract of a list implementation\<close>

text \<open>
  \<open>enq p h\<close> appends node \<open>p\<close> to the list headed by \<open>h\<close>; \<open>deq p\<close> takes node \<open>p\<close> out of whichever
  list it is in and clears its pointers. Both return (no NULL is dereferenced) on well-formed
  lists and reach the expected pointer store.
\<close>

locale dqueue =
  fixes enq :: "'n \<Rightarrow> 'n \<Rightarrow> 'n links \<Rightarrow> 'n links option"
    and deq :: "'n \<Rightarrow> 'n links \<Rightarrow> 'n links option"
  assumes enq_link: "dll lk h xs \<Longrightarrow> p \<notin> insert h (set xs) \<Longrightarrow>
      enq p h lk = Some (link_between (last (h # xs)) p h lk)"
    and deq_unlink: "dll lk h (xs @ p # ys) \<Longrightarrow>
      deq p lk = Some (unlink_between (last (h # xs)) p (hd (ys @ [h])) lk)"
begin

lemma queues_enq:
  assumes "queues H Q lk" "h \<in> H" "unqueued H Q p"
  obtains lk' where "enq p h lk = Some lk'" "queues H (Q(h := Q h @ [p])) lk'"
proof
  show "enq p h lk = Some (link_between (last (h # Q h)) p h lk)"
    using queues_dll [OF assms(1,2)] assms by (intro enq_link) (auto simp: unqueued_def)
  show "queues H (Q(h := Q h @ [p])) (link_between (last (h # Q h)) p h lk)"
    using assms by (rule queues_link)
qed

lemma queues_deq:
  assumes "queues H Q lk" "h \<in> H" "p \<in> set (Q h)"
  obtains lk' where "deq p lk = Some lk'" "queues H (Q(h := remove1 p (Q h))) lk'"
    "unqueued H (Q(h := remove1 p (Q h))) p" "nxt lk' p = None" "prv lk' p = None"
proof -
  obtain xs ys where Qh: "Q h = xs @ p # ys" and "p \<notin> set xs"
    using split_list_first [OF assms(3)] by blast
  then have r: "remove1 p (Q h) = xs @ ys" by (simp add: remove1_append)
  have d: "dll lk h (xs @ p # ys)" using queues_dll [OF assms(1,2)] Qh by simp
  let ?lk = "unlink_between (last (h # xs)) p (hd (ys @ [h])) lk"
  note last_in_cons [of h xs] hd_in_snoc [of ys h]
  then have "nxt ?lk p = None" "prv ?lk p = None" using d by (auto simp: dll_def)
  then show thesis
    using that [of ?lk] deq_unlink [OF d] queues_unlink [OF assms(1,2) Qh] r by simp
qed

text \<open>Nodes that are in no queue keep their pointers.\<close>

lemma deq_other:
  assumes "queues H Q lk" "h \<in> H" "p \<in> set (Q h)" "deq p lk = Some lk'" "unqueued H Q x"
  shows "nxt lk' x = nxt lk x"
proof -
  obtain xs ys where Qh: "Q h = xs @ p # ys" using split_list [OF assms(3)] by blast
  have "deq p lk = Some (unlink_between (last (h # xs)) p (hd (ys @ [h])) lk)"
    using deq_unlink queues_dll [OF assms(1,2)] Qh by simp
  moreover have "x \<noteq> p" "x \<noteq> last (h # xs)"
    using assms(2,5) Qh last_in_cons [of h xs] by (auto simp: unqueued_def)
  ultimately show ?thesis using assms(4) by auto
qed

lemma enq_other:
  assumes "queues H Q lk" "h \<in> H" "unqueued H Q p" "enq p h lk = Some lk'" "unqueued H Q x" "x \<noteq> p"
  shows "nxt lk' x = nxt lk x"
proof -
  have "enq p h lk = Some (link_between (last (h # Q h)) p h lk)"
    using queues_dll [OF assms(1,2)] assms(2,3) by (intro enq_link) (auto simp: unqueued_def)
  moreover have "x \<noteq> last (h # Q h)" using assms(2,5) last_in_cons [of h "Q h"] by (auto simp: unqueued_def)
  ultimately show ?thesis using assms(4,6) by auto
qed

text \<open>A node enqueued on one list and then deleted leaves every queue as it was.\<close>

lemma queues_enq_deq:
  assumes "queues H Q lk" "h \<in> H" "unqueued H Q p"
  shows "\<exists>lk'. Option.bind (enq p h lk) (deq p) = Some lk' \<and> queues H Q lk'"
proof -
  obtain lk1 where e: "enq p h lk = Some lk1" "queues H (Q(h := Q h @ [p])) lk1"
    using queues_enq [OF assms] .
  then obtain lk2 where "deq p lk1 = Some lk2"
    "queues H ((Q(h := Q h @ [p]))(h := remove1 p (Q h @ [p]))) lk2"
    using queues_deq [OF e(2) assms(2), of p] by auto
  moreover have "remove1 p (Q h @ [p]) = Q h"
    using assms(2,3) by (simp add: unqueued_def remove1_append)
  ultimately show ?thesis using e by simp
qed

end

end
