(* ===== verification/Bcache.thy ===== *)
theory Bcache
  imports DList
begin

text \<open>
  The sector cache of the file system, the first part of src/kernel/fs/fs.c (\<^verbatim>\<open>init_bcache\<close> to
  \<^verbatim>\<open>bflush\<close>) with its types from src/include/os/fs.h. State: the buffer array, the list that
  threads the buffers in use, the SD card and the policy. The SD card is reached through the
  BIOS, which is not part of the sources: its two calls are the parameter \<open>sd_ops\<close>, and what the
  cache relies on is \<open>sd_ok\<close> (a sector reads back what was last written to it).
  The contract of the cache for the file system above it is the locale \<open>sector_store\<close>.
\<close>

section \<open>The SD card, a parameter\<close>

definition SECTOR_SIZE :: nat where "SECTOR_SIZE = 512"
definition BLOCK_SIZE :: nat where "BLOCK_SIZE = 4096"

lemmas size_defs = SECTOR_SIZE_def BLOCK_SIZE_def

record 'd sd_ops =
  sd_rd :: "u32 \<Rightarrow> 'd \<Rightarrow> bytes"
  sd_wr :: "u32 \<Rightarrow> bytes \<Rightarrow> 'd \<Rightarrow> 'd"

definition sd_ok :: "'d sd_ops \<Rightarrow> bool" where
  "sd_ok ops \<longleftrightarrow>
     (\<forall>a d. length (sd_rd ops a d) = SECTOR_SIZE) \<and>
     (\<forall>a b x d. length x = SECTOR_SIZE \<longrightarrow>
        sd_rd ops a (sd_wr ops b x d) = (if a = b then x else sd_rd ops a d))"

section \<open>Buffers and the cache\<close>

definition NBUF :: nat where "NBUF = 0x5000"
definition BWRITE_BACK :: i32 where "BWRITE_BACK = 0"
definition BWRITE_THROUGH :: i32 where "BWRITE_THROUGH = 1"

text \<open>Addresses of \<^verbatim>\<open>buf_t\<close> objects: the sentinel \<^verbatim>\<open>bcache->head\<close> and \<^verbatim>\<open>bcache->buf[i]\<close>.\<close>

datatype bnode = BHead | Buf nat

record buf_t =
  buf_valid :: u16
  buf_dirty :: u16
  buf_sectorid :: u32
  buf_data :: bytes

record 'd bcache =
  bufs :: "nat \<Rightarrow> buf_t"
  blk :: "bnode links"
  sd :: 'd
  page_cache_policy :: i32

definition upd_buf :: "nat \<Rightarrow> (buf_t \<Rightarrow> buf_t) \<Rightarrow> 'd bcache \<Rightarrow> 'd bcache" where
  "upd_buf i f s = s\<lparr>bufs := (bufs s)(i := f (bufs s i))\<rparr>"

lemma upd_buf_simps [simp]:
  "bufs (upd_buf i f s) = (bufs s)(i := f (bufs s i))"
  "blk (upd_buf i f s) = blk s" "sd (upd_buf i f s) = sd s"
  "page_cache_policy (upd_buf i f s) = page_cache_policy s"
  by (simp_all add: upd_buf_def)

definition init_bcache :: "'d bcache \<Rightarrow> 'd bcache" where
  "init_bcache s = s\<lparr>blk := set_nxt BHead (Some BHead) (set_prv BHead (Some BHead) (blk s)),
     bufs := (\<lambda>i. if i < NBUF then (bufs s i)\<lparr>buf_valid := 0\<rparr> else bufs s i)\<rparr>"

text \<open>The pointer statements of \<^verbatim>\<open>find_free_buf\<close> (unlink) and of \<^verbatim>\<open>brefill\<close> (insert at the head).\<close>

definition buf_unlink :: "bnode \<Rightarrow> bnode links \<Rightarrow> bnode links option" where
  "buf_unlink b lk = do {
     n \<leftarrow> nxt lk b;
     let lk1 = set_prv n (prv lk b) lk;
     p \<leftarrow> prv lk1 b;
     let lk2 = set_nxt p (nxt lk1 b) lk1;
     Some (set_prv b None (set_nxt b None lk2)) }"

definition buf_insert_head :: "bnode \<Rightarrow> bnode links \<Rightarrow> bnode links option" where
  "buf_insert_head b lk = do {
     let lk1 = set_prv b (Some BHead) (set_nxt b (nxt lk BHead) lk);
     n \<leftarrow> nxt lk1 BHead;
     let lk2 = set_prv n (Some b) lk1;
     Some (set_nxt BHead (Some b) lk2) }"

text \<open>\<^verbatim>\<open>if (buf->dirty) \<dots>\<close>: the write-back of one buffer.\<close>

definition write_back :: "'d sd_ops \<Rightarrow> nat \<Rightarrow> 'd bcache \<Rightarrow> 'd bcache" where
  "write_back ops i s =
     (if buf_dirty (bufs s i) \<noteq> 0
      then upd_buf i (\<lambda>b. b\<lparr>buf_dirty := 0\<rparr>)
        (s\<lparr>sd := sd_wr ops (buf_sectorid (bufs s i)) (buf_data (bufs s i)) (sd s)\<rparr>)
      else s)"

definition find_free_buf :: "'d sd_ops \<Rightarrow> 'd bcache \<Rightarrow> (nat option \<times> 'd bcache) option" where
  "find_free_buf ops s = (case first_idx (\<lambda>i. buf_valid (bufs s i) = 0) NBUF of
      Some i \<Rightarrow> Some (Some i, s)
    | None \<Rightarrow> do {
        b \<leftarrow> prv (blk s) BHead;
        case b of BHead \<Rightarrow> Some (None, s)
        | Buf i \<Rightarrow> do {
            let s1 = write_back ops i s;
            let s2 = upd_buf i (\<lambda>b. b\<lparr>buf_valid := 0, buf_sectorid := 0\<rparr>) s1;
            lk \<leftarrow> buf_unlink b (blk s2);
            Some (Some i, s2\<lparr>blk := lk\<rparr>) } })"

partial_function (option) search_loop ::
  "(nat \<Rightarrow> buf_t) \<Rightarrow> bnode links \<Rightarrow> u32 \<Rightarrow> bnode \<Rightarrow> nat option option" where
  "search_loop bs lk a b = (case b of BHead \<Rightarrow> Some None
     | Buf i \<Rightarrow> (if buf_valid (bs i) = 1 \<and> buf_sectorid (bs i) = a then Some (Some i)
         else Option.bind (nxt lk b) (\<lambda>b'. search_loop bs lk a b')))"

definition search_buf :: "u32 \<Rightarrow> 'd bcache \<Rightarrow> nat option option" where
  "search_buf a s = Option.bind (nxt (blk s) BHead) (search_loop (bufs s) (blk s) a)"

definition brefill :: "'d sd_ops \<Rightarrow> u32 \<Rightarrow> 'd bcache \<Rightarrow> (nat option \<times> 'd bcache) option" where
  "brefill ops a s = do {
     (r, s1) \<leftarrow> find_free_buf ops s;
     case r of None \<Rightarrow> Some (None, s1)
     | Some i \<Rightarrow> do {
         let s2 = upd_buf i (\<lambda>b. b\<lparr>buf_valid := 1, buf_sectorid := a, buf_dirty := 0,
                                  buf_data := sd_rd ops a (sd s1)\<rparr>) s1;
         lk \<leftarrow> buf_insert_head (Buf i) (blk s2);
         Some (Some i, s2\<lparr>blk := lk\<rparr>) } }"

text \<open>
  The common start of the loop bodies of \<^verbatim>\<open>bwrite\<close> and \<^verbatim>\<open>bread\<close>: search, refill on a miss. A NULL
  from \<^verbatim>\<open>brefill\<close> is dereferenced by the caller, so it is a fault here.
\<close>

definition get_buf :: "'d sd_ops \<Rightarrow> u32 \<Rightarrow> 'd bcache \<Rightarrow> (nat \<times> 'd bcache) option" where
  "get_buf ops a s = do {
     r \<leftarrow> search_buf a s;
     case r of Some i \<Rightarrow> Some (i, s)
     | None \<Rightarrow> do {
         (r', s') \<leftarrow> brefill ops a s;
         i \<leftarrow> r';
         Some (i, s') } }"

definition bwrite1 :: "'d sd_ops \<Rightarrow> bytes \<Rightarrow> u32 \<Rightarrow> 'd bcache \<Rightarrow> 'd bcache option" where
  "bwrite1 ops mem a s = do {
     (i, s1) \<leftarrow> get_buf ops a s;
     let s2 = upd_buf i (\<lambda>b. b\<lparr>buf_data := take SECTOR_SIZE mem\<rparr>) s1;
     Some (if page_cache_policy s2 = BWRITE_THROUGH
       then s2\<lparr>sd := sd_wr ops a (buf_data (bufs s2 i)) (sd s2)\<rparr>
       else upd_buf i (\<lambda>b. b\<lparr>buf_dirty := 1\<rparr>) s2) }"

definition bread1 :: "'d sd_ops \<Rightarrow> u32 \<Rightarrow> 'd bcache \<Rightarrow> (bytes \<times> 'd bcache) option" where
  "bread1 ops a s = do {
     (i, s1) \<leftarrow> get_buf ops a s;
     Some (buf_data (bufs s1 i), s1) }"

text \<open>
  The loops of \<^verbatim>\<open>bwrite\<close> and \<^verbatim>\<open>bread\<close>. Note that the source does not advance \<^verbatim>\<open>mem_va\<close>: every
  iteration copies from (to) the same 512 bytes of memory.
\<close>

fun bwrite :: "'d sd_ops \<Rightarrow> bytes \<Rightarrow> nat \<Rightarrow> u32 \<Rightarrow> 'd bcache \<Rightarrow> 'd bcache option" where
  "bwrite ops mem 0 a s = Some s"
| "bwrite ops mem (Suc n) a s = do {
     s' \<leftarrow> bwrite1 ops mem a s;
     bwrite ops mem n (a + 1) s' }"

fun bread :: "'d sd_ops \<Rightarrow> bytes \<Rightarrow> nat \<Rightarrow> u32 \<Rightarrow> 'd bcache \<Rightarrow> (bytes \<times> 'd bcache) option" where
  "bread ops mem 0 a s = Some (mem, s)"
| "bread ops mem (Suc n) a s = do {
     (x, s') \<leftarrow> bread1 ops a s;
     bread ops (bput 0 x mem) n (a + 1) s' }"

partial_function (option) bflush_loop ::
  "'d sd_ops \<Rightarrow> bnode \<Rightarrow> 'd bcache \<Rightarrow> 'd bcache option" where
  "bflush_loop ops b s = (case b of BHead \<Rightarrow> Some s
     | Buf i \<Rightarrow> Option.bind (nxt (blk (write_back ops i s)) b)
         (\<lambda>b'. bflush_loop ops b' (write_back ops i s)))"

definition bflush :: "'d sd_ops \<Rightarrow> 'd bcache \<Rightarrow> 'd bcache option" where
  "bflush ops s = Option.bind (nxt (blk s) BHead) (\<lambda>b. bflush_loop ops b s)"

section \<open>Invariant and abstraction\<close>

text \<open>
  \<open>bc_inv ops s is\<close>: the buffers in use, in list order, are \<open>is\<close>; they are exactly the valid ones,
  no sector is cached twice, and a clean buffer agrees with the card.
\<close>

definition bc_inv :: "'d sd_ops \<Rightarrow> 'd bcache \<Rightarrow> nat list \<Rightarrow> bool" where
  "bc_inv ops s is \<longleftrightarrow>
     dll (blk s) BHead (map Buf is) \<and> (\<forall>i \<in> set is. i < NBUF) \<and>
     (\<forall>i < NBUF. buf_valid (bufs s i) = (if i \<in> set is then 1 else 0)) \<and>
     inj_on (\<lambda>i. buf_sectorid (bufs s i)) (set is) \<and>
     (\<forall>i \<in> set is. length (buf_data (bufs s i)) = SECTOR_SIZE \<and>
        (buf_dirty (bufs s i) = 0 \<longrightarrow>
           buf_data (bufs s i) = sd_rd ops (buf_sectorid (bufs s i)) (sd s)))"

definition bc_ok :: "'d sd_ops \<Rightarrow> 'd bcache \<Rightarrow> bool" where
  "bc_ok ops s \<longleftrightarrow> sd_ok ops \<and> (\<exists>is. bc_inv ops s is)"

text \<open>What a sector holds, as seen through the cache.\<close>

definition bc_view :: "'d sd_ops \<Rightarrow> 'd bcache \<Rightarrow> u32 \<Rightarrow> bytes" where
  "bc_view ops s a =
     (case first_idx (\<lambda>i. buf_valid (bufs s i) = 1 \<and> buf_sectorid (bufs s i) = a) NBUF of
        Some i \<Rightarrow> buf_data (bufs s i)
      | None \<Rightarrow> sd_rd ops a (sd s))"

lemma bc_view_hit:
  assumes "bc_inv ops s is" "i \<in> set is" "buf_sectorid (bufs s i) = a"
  shows "bc_view ops s a = buf_data (bufs s i)"
proof -
  let ?P = "\<lambda>i. buf_valid (bufs s i) = 1 \<and> buf_sectorid (bufs s i) = a"
  have i: "i < NBUF" "?P i" using assms by (auto simp: bc_inv_def)
  then obtain k where k: "first_idx ?P NBUF = Some k"
    by (cases "first_idx ?P NBUF") (auto simp: first_idx_None_iff)
  then have "k < NBUF" "?P k" by (auto simp: first_idx_Some_iff)
  moreover from this have "k \<in> set is" using assms(1) by (auto simp: bc_inv_def split: if_splits)
  ultimately have "k = i" using assms by (auto simp: bc_inv_def inj_on_def)
  with k show ?thesis by (simp add: bc_view_def)
qed

lemma bc_view_miss:
  assumes "bc_inv ops s is" "\<And>i. i \<in> set is \<Longrightarrow> buf_sectorid (bufs s i) \<noteq> a"
  shows "bc_view ops s a = sd_rd ops a (sd s)"
proof -
  have "first_idx (\<lambda>i. buf_valid (bufs s i) = 1 \<and> buf_sectorid (bufs s i) = a) NBUF = None"
    using assms by (auto simp: first_idx_None_iff bc_inv_def)
  then show ?thesis by (simp add: bc_view_def)
qed

lemma bc_view_length:
  assumes "bc_ok ops s"
  shows "length (bc_view ops s a) = SECTOR_SIZE"
proof -
  obtain "is" where sd: "sd_ok ops" and inv: "bc_inv ops s is" using assms by (auto simp: bc_ok_def)
  show ?thesis
  proof (cases "\<exists>i \<in> set is. buf_sectorid (bufs s i) = a")
    case True
    then obtain i where i: "i \<in> set is" "buf_sectorid (bufs s i) = a" by blast
    then show ?thesis using inv bc_view_hit [OF inv i] by (simp add: bc_inv_def)
  next
    case False
    then show ?thesis using sd bc_view_miss [OF inv, of a] by (auto simp: sd_ok_def)
  qed
qed


section \<open>The pointer statements on well-formed lists\<close>

lemma buf_unlink_dll:
  assumes "dll lk BHead (xs @ p # ys)"
  shows "buf_unlink p lk = Some (unlink_between (last (BHead # xs)) p (hd (ys @ [BHead])) lk)"
proof -
  let ?a = "last (BHead # xs)" and ?b = "hd (ys @ [BHead])"
  have p: "nxt lk p = Some ?b" "prv lk p = Some ?a"
    using assms by (auto dest: dll_next_mem dll_prev_mem)
  have "p \<notin> set (BHead # xs)" "p \<notin> set (ys @ [BHead])" using assms by (auto simp: dll_def)
  then have "p \<noteq> ?a" "p \<noteq> ?b"
    using last_in_cons [of BHead xs] hd_in_snoc [of ys BHead] by metis+
  with p show ?thesis
    by (auto simp: buf_unlink_def Let_def intro!: links_eqI)
qed

lemma buf_insert_head_dll:
  assumes "dll lk BHead xs" "p \<notin> insert BHead (set xs)"
  shows "buf_insert_head p lk = Some (link_between BHead p (hd (xs @ [BHead])) lk)"
  using assms dll_first [OF assms(1)]
  by (auto simp: buf_insert_head_def Let_def intro!: links_eqI)

lemma search_loop_dll:
  assumes "dll lk BHead (map Buf (js @ is))"
  shows "search_loop bs lk a (hd (map Buf is @ [BHead])) =
    Some (find (\<lambda>i. buf_valid (bs i) = 1 \<and> buf_sectorid (bs i) = a) is)"
  using assms
proof (induction "is" arbitrary: js)
  case Nil
  then show ?case by (simp add: search_loop.simps)
next
  case (Cons i "is")
  have "nxt lk (Buf i) = Some (hd (map Buf is @ [BHead]))"
    using Cons.prems dll_next_mem [of lk BHead "map Buf js" "Buf i" "map Buf is"] by simp
  moreover have "dll lk BHead (map Buf ((js @ [i]) @ is))" using Cons.prems by simp
  ultimately show ?case using Cons.IH [of "js @ [i]"] by (simp add: search_loop.simps)
qed

lemma search_buf_eq:
  assumes "bc_inv ops s is"
  shows "search_buf a s = Some (find (\<lambda>i. buf_sectorid (bufs s i) = a) is)"
proof -
  have d: "dll (blk s) BHead (map Buf is)" using assms by (simp add: bc_inv_def)
  have "find (\<lambda>i. buf_valid (bufs s i) = 1 \<and> buf_sectorid (bufs s i) = a) is =
      find (\<lambda>i. buf_sectorid (bufs s i) = a) is"
    using assms by (intro find_cong) (auto simp: bc_inv_def)
  then show ?thesis
    using d search_loop_dll [of "blk s" "[]" "is" "bufs s" a] dll_first [OF d]
    by (simp add: search_buf_def)
qed

section \<open>Eviction, refill and lookup keep what every sector holds\<close>

lemma bc_invD:
  assumes "bc_inv ops s is"
  shows "distinct is" "\<And>i. i \<in> set is \<Longrightarrow> i < NBUF" "dll (blk s) BHead (map Buf is)"
    "\<And>i j. i \<in> set is \<Longrightarrow> j \<in> set is \<Longrightarrow> buf_sectorid (bufs s i) = buf_sectorid (bufs s j) \<Longrightarrow> i = j"
  using assms dll_distinct [of "blk s" BHead "map Buf is"]
  by (auto simp: bc_inv_def inj_on_def distinct_map)

lemma write_back_sd:
  assumes "sd_ok ops" "bc_inv ops s is" "i \<in> set is"
  shows "sd_rd ops a (sd (write_back ops i s)) =
    (if a = buf_sectorid (bufs s i) then buf_data (bufs s i) else sd_rd ops a (sd s))"
  using assms by (auto simp: write_back_def sd_ok_def bc_inv_def)

lemma write_back_bufs [simp]:
  "buf_valid (bufs (write_back ops i s) j) = buf_valid (bufs s j)"
  "buf_sectorid (bufs (write_back ops i s) j) = buf_sectorid (bufs s j)"
  "buf_data (bufs (write_back ops i s) j) = buf_data (bufs s j)"
  "buf_dirty (bufs (write_back ops i s) j) = (if j = i then 0 else buf_dirty (bufs s j))"
  "blk (write_back ops i s) = blk s"
  "page_cache_policy (write_back ops i s) = page_cache_policy s"
  by (auto simp: write_back_def)

lemma write_back_inv:
  assumes "sd_ok ops" "bc_inv ops s is" "i \<in> set is"
  shows "bc_inv ops (write_back ops i s) is" (is ?inv)
    and "bc_view ops (write_back ops i s) = bc_view ops s"
proof -
  have "buf_data (bufs s j) = sd_rd ops (buf_sectorid (bufs s j)) (sd (write_back ops i s))"
    if "j \<in> set is" "j \<noteq> i \<longrightarrow> buf_dirty (bufs s j) = 0" for j
    using that assms(2) bc_invD(4) [OF assms(2) that(1) assms(3)]
    by (auto simp: write_back_sd [OF assms] bc_inv_def)
  then show inv: ?inv
    using assms(2) unfolding bc_inv_def write_back_bufs by simp
  show "bc_view ops (write_back ops i s) = bc_view ops s"
  proof
    fix a
    show "bc_view ops (write_back ops i s) a = bc_view ops s a"
    proof (cases "\<exists>j \<in> set is. buf_sectorid (bufs s j) = a")
      case True
      then obtain j where "j \<in> set is" "buf_sectorid (bufs s j) = a" by blast
      then show ?thesis
        using bc_view_hit [OF assms(2)] bc_view_hit [OF inv, of j a] by auto
    next
      case False
      then have "bc_view ops s a = sd_rd ops a (sd s)" by (intro bc_view_miss [OF assms(2)]) auto
      moreover have "bc_view ops (write_back ops i s) a = sd_rd ops a (sd (write_back ops i s))"
        using False by (intro bc_view_miss [OF inv]) auto
      ultimately show ?thesis using False assms(3) write_back_sd [OF assms, of a] by auto
    qed
  qed
qed

lemma bc_view_cong:
  assumes "\<And>i. i \<in> set is' \<Longrightarrow> bufs s' i = bufs s i" "set is' \<subseteq> set is"
    and "bc_inv ops s is" "bc_inv ops s' is'" "sd s' = sd s"
    and "\<And>i. i \<in> set is - set is' \<Longrightarrow> buf_dirty (bufs s i) = 0"
  shows "bc_view ops s' = bc_view ops s"
proof
  fix a
  consider (hit) i where "i \<in> set is'" "buf_sectorid (bufs s i) = a"
    | (gone) i where "i \<in> set is - set is'" "buf_sectorid (bufs s i) = a"
    | (miss) "\<forall>i \<in> set is. buf_sectorid (bufs s i) \<noteq> a"
    using assms(2) by blast
  then show "bc_view ops s' a = bc_view ops s a"
  proof cases
    case hit
    then show ?thesis
      using bc_view_hit [OF assms(3), of i a] bc_view_hit [OF assms(4), of i a] assms(1,2) by auto
  next
    case gone
    then have "buf_sectorid (bufs s' j) \<noteq> a" if "j \<in> set is'" for j
      using that assms(1,2) bc_invD(4) [OF assms(3), of j i] by auto
    then have "bc_view ops s' a = sd_rd ops a (sd s)" using bc_view_miss [OF assms(4)] assms(5) by simp
    moreover have "bc_view ops s a = buf_data (bufs s i)"
      using gone by (intro bc_view_hit [OF assms(3)]) auto
    ultimately show ?thesis using gone assms(3,6) by (auto simp: bc_inv_def)
  next
    case miss
    then show ?thesis
      using bc_view_miss [OF assms(3), of a] bc_view_miss [OF assms(4), of a] assms(1,2,5) by auto
  qed
qed


lemma bc_inv_full:
  assumes "bc_inv ops s is" "\<forall>i < NBUF. buf_valid (bufs s i) \<noteq> 0"
  shows "set is = {..<NBUF}" "length is = NBUF"
proof -
  show "set is = {..<NBUF}" using assms by (auto simp: bc_inv_def split: if_splits)
  then show "length is = NBUF" using distinct_card [OF bc_invD(1) [OF assms(1)]] by simp
qed

lemma evict_inv:
  fixes ops :: "'d sd_ops"
  assumes "sd_ok ops" "bc_inv ops s (js @ [i])"
  defines "s2 \<equiv> upd_buf i (\<lambda>b. b\<lparr>buf_valid := 0, buf_sectorid := 0\<rparr>) (write_back ops i s)"
  defines "s' \<equiv> s2\<lparr>blk := unlink_between (last (BHead # map Buf js)) (Buf i) BHead (blk s2)\<rparr>"
  shows "bc_inv ops s' js" "bc_view ops s' = bc_view ops s"
proof -
  let ?w = "write_back ops i s"
  have w: "bc_inv ops ?w (js @ [i])" "bc_view ops ?w = bc_view ops s"
    using write_back_inv [OF assms(1,2)] by simp_all
  have i: "i \<notin> set js" using bc_invD(1) [OF assms(2)] by simp
  have b: "bufs s' j = bufs ?w j" if "j \<in> set js" for j
    using that i by (auto simp: s'_def s2_def)
  have "dll (blk s') BHead (map Buf js)"
    using dll_unlink [of "blk s" BHead "map Buf js" "Buf i" "[]"] bc_invD(3) [OF assms(2)]
    by (simp add: s'_def s2_def)
  moreover have "inj_on (\<lambda>j. buf_sectorid (bufs s' j)) (set js)"
    using b bc_invD(4) [OF w(1)] by (auto simp: inj_on_def)
  moreover have "buf_valid (bufs s' j) = (if j \<in> set js then 1 else 0)" if "j < NBUF" for j
    using that w(1) i by (auto simp: bc_inv_def s'_def s2_def)
  ultimately show inv: "bc_inv ops s' js"
    using w(1) b by (auto simp: bc_inv_def s'_def s2_def)
  have "bc_view ops s' = bc_view ops ?w"
    by (rule bc_view_cong [OF b _ w(1) inv]) (auto simp: s'_def s2_def)
  then show "bc_view ops s' = bc_view ops s" using w(2) by simp
qed

text \<open>
  The victim of a full cache is the buffer at the end of the list. A hit does not move a buffer,
  so the list is in order of refill and the replacement is first-in first-out.
\<close>

lemma find_free_buf_spec:
  assumes "sd_ok ops" "bc_inv ops s is"
  obtains i s' where "find_free_buf ops s = Some (Some i, s')" "i < NBUF"
    "bc_inv ops s' (if length is = NBUF then butlast is else is)"
    "i \<notin> set (if length is = NBUF then butlast is else is)"
    "bc_view ops s' = bc_view ops s" "page_cache_policy s' = page_cache_policy s"
    "\<forall>j. j \<noteq> i \<longrightarrow> buf_sectorid (bufs s' j) = buf_sectorid (bufs s j)"
proof (cases "first_idx (\<lambda>i. buf_valid (bufs s i) = 0) NBUF")
  case (Some i)
  then have i: "i < NBUF" "buf_valid (bufs s i) = 0" by (auto simp: first_idx_Some_iff)
  then have "i \<notin> set is" using assms(2) by (auto simp: bc_inv_def)
  moreover from this have "length is \<noteq> NBUF"
    using i(1) bc_invD(1,2) [OF assms(2)]
    by (metis card_subset_eq distinct_card finite_lessThan card_lessThan lessThan_iff subsetI)
  ultimately show ?thesis
    using that [of i s] Some i assms(2) by (simp add: find_free_buf_def)
next
  case None
  then have full: "set is = {..<NBUF}" "length is = NBUF"
    using bc_inv_full [OF assms(2)] by (auto simp: first_idx_None_iff)
  have "0 < NBUF" by (simp add: NBUF_def)
  then obtain js i where ji: "is = js @ [i]" using full(2) by (cases "is" rule: rev_cases) auto
  then have inv: "bc_inv ops s (js @ [i])" using assms(2) by simp
  have d: "dll (blk s) BHead (map Buf js @ [Buf i])" using bc_invD(3) [OF inv] by simp
  have "find_free_buf ops s = Some (Some i,
      (upd_buf i (\<lambda>b. b\<lparr>buf_valid := 0, buf_sectorid := 0\<rparr>) (write_back ops i s))
        \<lparr>blk := unlink_between (last (BHead # map Buf js)) (Buf i) BHead (blk s)\<rparr>)"
    using None dll_last [OF d] buf_unlink_dll [of "blk s" "map Buf js" "Buf i" "[]"] d
    by (simp add: find_free_buf_def Let_def)
  then show ?thesis
    using that evict_inv [OF assms(1) inv] full bc_invD(1,2) [OF inv] ji by simp
qed

lemma refill_inv:
  assumes "sd_ok ops" "bc_inv ops s is" "i < NBUF" "i \<notin> set is"
    and "\<And>j. j \<in> set is \<Longrightarrow> buf_sectorid (bufs s j) \<noteq> a"
  defines "s2 \<equiv> upd_buf i (\<lambda>b. b\<lparr>buf_valid := 1, buf_sectorid := a, buf_dirty := 0,
                              buf_data := sd_rd ops a (sd s)\<rparr>) s"
  defines "s' \<equiv> s2\<lparr>blk := link_between BHead (Buf i) (hd (map Buf is @ [BHead])) (blk s2)\<rparr>"
  shows "bc_inv ops s' (i # is)" "bc_view ops s' = bc_view ops s"
proof -
  have b: "bufs s' j = bufs s j" if "j \<in> set is" for j
    using that assms(4) by (auto simp: s'_def s2_def)
  have "dll (blk s') BHead (map Buf (i # is))"
    using dll_link [of "blk s" BHead "[]" "map Buf is" "Buf i"] bc_invD(3) [OF assms(2)] assms(4)
    by (auto simp: s'_def s2_def)
  moreover have "inj_on (\<lambda>j. buf_sectorid (bufs s' j)) (set (i # is))"
    using b assms(4,5) bc_invD(4) [OF assms(2)] by (auto simp: inj_on_def s'_def s2_def)
  moreover have "buf_valid (bufs s' j) = (if j \<in> set (i # is) then 1 else 0)" if "j < NBUF" for j
    using that assms(2,4) by (auto simp: bc_inv_def s'_def s2_def)
  ultimately show inv: "bc_inv ops s' (i # is)"
    using assms(1-4) b by (auto simp: bc_inv_def s'_def s2_def sd_ok_def)
  have "bc_view ops s = bc_view ops s'"
    by (rule bc_view_cong [OF b [symmetric] _ inv assms(2)]) (auto simp: s'_def s2_def)
  then show "bc_view ops s' = bc_view ops s" by simp
qed

lemma get_buf_spec:
  assumes "sd_ok ops" "bc_inv ops s is"
  obtains i s' is' where "get_buf ops a s = Some (i, s')" "bc_inv ops s' is'" "i \<in> set is'"
    "buf_sectorid (bufs s' i) = a" "buf_data (bufs s' i) = bc_view ops s a"
    "bc_view ops s' = bc_view ops s" "page_cache_policy s' = page_cache_policy s"
proof (cases "find (\<lambda>i. buf_sectorid (bufs s i) = a) is")
  case (Some i)
  then have "i \<in> set is" "buf_sectorid (bufs s i) = a" by (auto simp: find_Some_iff)
  then show ?thesis
    using that [of i s "is"] Some search_buf_eq [OF assms(2), of a] assms(2)
      bc_view_hit [OF assms(2), of i a]
    by (simp add: get_buf_def)
next
  case None
  then have miss: "\<And>j. j \<in> set is \<Longrightarrow> buf_sectorid (bufs s j) \<noteq> a" by (auto simp: find_None_iff)
  obtain i s1 where f: "find_free_buf ops s = Some (Some i, s1)" "i < NBUF"
    and js: "bc_inv ops s1 (if length is = NBUF then butlast is else is)"
      "i \<notin> set (if length is = NBUF then butlast is else is)"
    and v: "bc_view ops s1 = bc_view ops s" "page_cache_policy s1 = page_cache_policy s"
    and keep: "\<forall>j. j \<noteq> i \<longrightarrow> buf_sectorid (bufs s1 j) = buf_sectorid (bufs s j)"
    using find_free_buf_spec [OF assms] .
  let ?js = "if length is = NBUF then butlast is else is"
  have "buf_sectorid (bufs s1 j) \<noteq> a" if "j \<in> set ?js" for j
    using that js(2) keep miss [of j]
    by (cases "j = i") (auto split: if_splits dest: in_set_butlastD)
  note r = refill_inv [OF assms(1) js(1) f(2) js(2) this]
  have "buf_insert_head (Buf i) (blk s1) =
      Some (link_between BHead (Buf i) (hd (map Buf ?js @ [BHead])) (blk s1))"
    using bc_invD(3) [OF js(1)] js(2) by (intro buf_insert_head_dll) auto
  then have g: "get_buf ops a s = Some (i, (upd_buf i (\<lambda>b. b\<lparr>buf_valid := 1, buf_sectorid := a,
        buf_dirty := 0, buf_data := sd_rd ops a (sd s1)\<rparr>) s1)
      \<lparr>blk := link_between BHead (Buf i) (hd (map Buf ?js @ [BHead])) (blk s1)\<rparr>)" (is "_ = Some (i, ?s')")
    using None f search_buf_eq [OF assms(2), of a]
    by (simp add: get_buf_def brefill_def Let_def)
  have inv: "bc_inv ops ?s' (i # ?js)" and vw: "bc_view ops ?s' = bc_view ops s"
    using r v by simp_all
  moreover have "buf_data (bufs ?s' i) = bc_view ops s a"
    using bc_view_hit [OF inv, of i a] vw by simp
  ultimately show ?thesis using that [OF g inv] v(2) by simp
qed

section \<open>The contract of the cache\<close>

text \<open>
  What a client may rely on, whatever is cached, evicted or written back: a store of sectors with
  an invariant \<open>inv\<close> and contents \<open>view\<close>; \<open>rd\<close> returns the contents of a sector and changes none,
  \<open>wr\<close> replaces those of one sector.
\<close>

locale sector_store =
  fixes rd :: "u32 \<Rightarrow> 's \<Rightarrow> (bytes \<times> 's) option"
    and wr :: "bytes \<Rightarrow> u32 \<Rightarrow> 's \<Rightarrow> 's option"
    and view :: "'s \<Rightarrow> u32 \<Rightarrow> bytes"
    and inv :: "'s \<Rightarrow> bool"
  assumes rd_view: "inv s \<Longrightarrow> \<exists>s'. rd a s = Some (view s a, s') \<and> inv s' \<and> view s' = view s"
    and wr_view: "inv s \<Longrightarrow> SECTOR_SIZE \<le> length m \<Longrightarrow>
      \<exists>s'. wr m a s = Some s' \<and> inv s' \<and> view s' = (view s)(a := take SECTOR_SIZE m)"
    and view_length: "inv s \<Longrightarrow> length (view s a) = SECTOR_SIZE"
begin

text \<open>A write followed by a read of the same sector returns what was written.\<close>

lemma rd_after_wr:
  assumes "inv s" "SECTOR_SIZE \<le> length m"
  shows "\<exists>s'. Option.bind (wr m a s) (rd b) =
    Some (if b = a then take SECTOR_SIZE m else view s b, s') \<and> inv s'"
proof -
  obtain s1 where s1: "wr m a s = Some s1" "inv s1" "view s1 = (view s)(a := take SECTOR_SIZE m)"
    using wr_view [OF assms] by blast
  then show ?thesis using rd_view [OF s1(2), of b] by auto
qed

end


section \<open>Reads and writes through the cache\<close>

lemma store_inv:
  assumes inv: "bc_inv ops s is" and i: "i \<in> set is" and x: "length x = SECTOR_SIZE"
    and s': "bufs s' = (bufs s)(i := (bufs s i)\<lparr>buf_data := x, buf_dirty := d\<rparr>)" "blk s' = blk s"
    and other: "\<And>b. b \<noteq> buf_sectorid (bufs s i) \<Longrightarrow> sd_rd ops b (sd s') = sd_rd ops b (sd s)"
    and clean: "d = 0 \<Longrightarrow> sd_rd ops (buf_sectorid (bufs s i)) (sd s') = x"
  shows "bc_inv ops s' is" "bc_view ops s' = (bc_view ops s)(buf_sectorid (bufs s i) := x)"
proof -
  have f: "buf_sectorid (bufs s' j) = buf_sectorid (bufs s j)" "buf_valid (bufs s' j) = buf_valid (bufs s j)"
    "buf_data (bufs s' j) = (if j = i then x else buf_data (bufs s j))"
    "buf_dirty (bufs s' j) = (if j = i then d else buf_dirty (bufs s j))" for j
    by (simp_all add: s')
  have "length (buf_data (bufs s' j)) = SECTOR_SIZE \<and>
      (buf_dirty (bufs s' j) = 0 \<longrightarrow>
        buf_data (bufs s' j) = sd_rd ops (buf_sectorid (bufs s' j)) (sd s'))" if j: "j \<in> set is" for j
  proof (cases "j = i")
    case True
    then show ?thesis using x clean by (simp add: f)
  next
    case False
    then have "buf_sectorid (bufs s j) \<noteq> buf_sectorid (bufs s i)" using bc_invD(4) [OF inv j i] by blast
    then show ?thesis using False inv j other by (simp add: f bc_inv_def)
  qed
  then show inv': "bc_inv ops s' is" using inv unfolding bc_inv_def f s'(2) by simp
  show "bc_view ops s' = (bc_view ops s)(buf_sectorid (bufs s i) := x)"
  proof
    fix b
    consider (hit) j where "j \<in> set is" "buf_sectorid (bufs s j) = b"
      | (miss) "\<And>j. j \<in> set is \<Longrightarrow> buf_sectorid (bufs s j) \<noteq> b" by blast
    then show "bc_view ops s' b = ((bc_view ops s)(buf_sectorid (bufs s i) := x)) b"
    proof cases
      case hit
      then show ?thesis
        using bc_view_hit [OF inv hit] bc_view_hit [OF inv', of j b] bc_invD(4) [OF inv hit(1) i]
        by (auto simp: f)
    next
      case miss
      then show ?thesis
        using bc_view_miss [OF inv, of b] bc_view_miss [OF inv', of b] i other by (auto simp: f)
    qed
  qed
qed

lemma bwrite1_spec:
  assumes ok: "bc_ok ops s" and m: "SECTOR_SIZE \<le> length mem"
  obtains s' where "bwrite1 ops mem a s = Some s'" "bc_ok ops s'"
    "bc_view ops s' = (bc_view ops s)(a := take SECTOR_SIZE mem)"
    "page_cache_policy s' = page_cache_policy s"
proof -
  obtain "is" where sd: "sd_ok ops" and inv: "bc_inv ops s is" using ok by (auto simp: bc_ok_def)
  obtain i s1 js where g: "get_buf ops a s = Some (i, s1)" and inv1: "bc_inv ops s1 js"
    and i: "i \<in> set js" "buf_sectorid (bufs s1 i) = a"
    and v: "bc_view ops s1 = bc_view ops s" "page_cache_policy s1 = page_cache_policy s"
    using get_buf_spec [OF sd inv] .
  let ?x = "take SECTOR_SIZE mem"
  let ?s2 = "upd_buf i (\<lambda>b. b\<lparr>buf_data := ?x\<rparr>) s1"
  define s' where "s' = (if page_cache_policy s1 = BWRITE_THROUGH
    then ?s2\<lparr>sd := sd_wr ops a ?x (sd s1)\<rparr> else upd_buf i (\<lambda>b. b\<lparr>buf_dirty := 1\<rparr>) ?s2)"
  have w: "bwrite1 ops mem a s = Some s'"
    using g by (auto simp: bwrite1_def Let_def s'_def)
  have x: "length ?x = SECTOR_SIZE" using m by simp
  have "bc_inv ops s' js \<and> bc_view ops s' = (bc_view ops s1)(a := ?x)"
  proof (cases "page_cache_policy s1 = BWRITE_THROUGH")
    case True
    then show ?thesis
      using store_inv [OF inv1 i(1) x, of s' "buf_dirty (bufs s1 i)"] sd x i(2)
      by (auto simp: sd_ok_def s'_def)
  next
    case False
    then show ?thesis
      using store_inv [OF inv1 i(1) x, of s' 1] i(2) by (auto simp: s'_def)
  qed
  moreover have "page_cache_policy s' = page_cache_policy s" using v by (simp add: s'_def)
  ultimately show thesis using that [OF w] sd v by (auto simp: bc_ok_def)
qed

lemma bread1_spec:
  assumes ok: "bc_ok ops s"
  obtains s' where "bread1 ops a s = Some (bc_view ops s a, s')" "bc_ok ops s'"
    "bc_view ops s' = bc_view ops s" "page_cache_policy s' = page_cache_policy s"
proof -
  obtain "is" where sd: "sd_ok ops" and inv: "bc_inv ops s is" using ok by (auto simp: bc_ok_def)
  obtain i s1 js where "get_buf ops a s = Some (i, s1)" "bc_inv ops s1 js"
    "buf_data (bufs s1 i) = bc_view ops s a"
    "bc_view ops s1 = bc_view ops s" "page_cache_policy s1 = page_cache_policy s"
    using get_buf_spec [OF sd inv] .
  then show thesis using that [of s1] sd by (auto simp: bread1_def bc_ok_def)
qed

interpretation bc: sector_store "bread1 ops" "bwrite1 ops" "bc_view ops" "bc_ok ops"
  for ops :: "'d sd_ops"
proof
  fix s :: "'d bcache" and a m
  assume ok: "bc_ok ops s"
  show "\<exists>s'. bread1 ops a s = Some (bc_view ops s a, s') \<and> bc_ok ops s' \<and> bc_view ops s' = bc_view ops s"
    using bread1_spec [OF ok] by metis
  show "SECTOR_SIZE \<le> length m \<Longrightarrow> \<exists>s'. bwrite1 ops m a s = Some s' \<and> bc_ok ops s' \<and>
      bc_view ops s' = (bc_view ops s)(a := take SECTOR_SIZE m)"
    using bwrite1_spec [OF ok] by metis
  show "length (bc_view ops s a) = SECTOR_SIZE" using ok by (rule bc_view_length)
qed

text \<open>Runs of sectors: \<open>b\<close> is one of the \<open>n\<close> sectors from \<open>a\<close> on.\<close>

definition in_run :: "u32 \<Rightarrow> nat \<Rightarrow> u32 \<Rightarrow> bool" where
  "in_run a n b \<longleftrightarrow> unat (b - a) < n"

lemma in_run_Suc:
  assumes "n < 2 ^ 32"
  shows "in_run a (Suc n) b \<longleftrightarrow> b = a \<or> in_run (a + 1) n b"
proof (cases "b = a")
  case False
  then have "unat (b - (a + 1)) = unat (b - a) - 1"
    using unat_minus_one [of "b - a"] by (simp add: algebra_simps)
  moreover have "unat (b - a) \<noteq> 0" using False by (simp add: unat_eq_0)
  ultimately show ?thesis using False by (auto simp: in_run_def)
qed (simp add: in_run_def)

lemma in_run_self: "n < 2 ^ 32 \<Longrightarrow> i < n \<Longrightarrow> in_run a n (a + word_of_nat i)"
  by (simp add: in_run_def unat_of_nat)

lemma bwrite_spec:
  assumes "bc_ok ops s" "SECTOR_SIZE \<le> length mem" "n < 2 ^ 32"
  obtains s' where "bwrite ops mem n a s = Some s'" "bc_ok ops s'"
    "bc_view ops s' = (\<lambda>b. if in_run a n b then take SECTOR_SIZE mem else bc_view ops s b)"
    "page_cache_policy s' = page_cache_policy s"
proof -
  have "\<exists>s'. bwrite ops mem n a s = Some s' \<and> bc_ok ops s' \<and>
    bc_view ops s' = (\<lambda>b. if in_run a n b then take SECTOR_SIZE mem else bc_view ops s b) \<and>
    page_cache_policy s' = page_cache_policy s"
    using assms
  proof (induction n arbitrary: a s)
    case 0
    then show ?case by (simp add: in_run_def)
  next
    case (Suc n)
    obtain s1 where s1: "bwrite1 ops mem a s = Some s1" "bc_ok ops s1"
      "bc_view ops s1 = (bc_view ops s)(a := take SECTOR_SIZE mem)"
      "page_cache_policy s1 = page_cache_policy s"
      using bwrite1_spec [OF Suc.prems(1,2)] .
    obtain s' where s': "bwrite ops mem n (a + 1) s1 = Some s'" "bc_ok ops s'"
      "bc_view ops s' = (\<lambda>b. if in_run (a + 1) n b then take SECTOR_SIZE mem else bc_view ops s1 b)"
      "page_cache_policy s' = page_cache_policy s1"
      using Suc.IH [OF s1(2)] Suc.prems by auto
    have "bc_view ops s' b = (if in_run a (Suc n) b then take SECTOR_SIZE mem else bc_view ops s b)" for b
      using s'(3) s1(3) in_run_Suc [of n a b] Suc.prems(3) by simp
    with s1 s' show ?case by auto
  qed
  then show thesis using that by blast
qed

lemma bread_spec:
  assumes "bc_ok ops s" "SECTOR_SIZE \<le> length mem" "0 < n"
  obtains s' where
    "bread ops mem n a s = Some (bput 0 (bc_view ops s (a + word_of_nat (n - 1))) mem, s')"
    "bc_ok ops s'" "bc_view ops s' = bc_view ops s" "page_cache_policy s' = page_cache_policy s"
proof -
  have "\<exists>s'. bread ops mem (Suc n) a s =
      Some (bput 0 (bc_view ops s (a + word_of_nat n)) mem, s') \<and> bc_ok ops s' \<and>
      bc_view ops s' = bc_view ops s \<and> page_cache_policy s' = page_cache_policy s" for n
    using assms(1,2)
  proof (induction n arbitrary: a s mem)
    case 0
    obtain s' where "bread1 ops a s = Some (bc_view ops s a, s')" "bc_ok ops s'"
      "bc_view ops s' = bc_view ops s" "page_cache_policy s' = page_cache_policy s"
      using bread1_spec [OF 0(1)] .
    then show ?case by simp
  next
    case (Suc n)
    obtain s1 where s1: "bread1 ops a s = Some (bc_view ops s a, s1)" "bc_ok ops s1"
      "bc_view ops s1 = bc_view ops s" "page_cache_policy s1 = page_cache_policy s"
      using bread1_spec [OF Suc.prems(1)] .
    let ?mem = "bput 0 (bc_view ops s a) mem"
    have l: "length (bc_view ops s b) = SECTOR_SIZE" for b
      using Suc.prems(1) by (rule bc_view_length)
    obtain s' where s': "bread ops ?mem (Suc n) (a + 1) s1 =
        Some (bput 0 (bc_view ops s1 (a + 1 + word_of_nat n)) ?mem, s')" "bc_ok ops s'"
      "bc_view ops s' = bc_view ops s1" "page_cache_policy s' = page_cache_policy s1"
      using Suc.IH [OF s1(2), of ?mem "a + 1"] Suc.prems(2) l by auto
    have "bput 0 (bc_view ops s (a + 1 + word_of_nat n)) ?mem =
        bput 0 (bc_view ops s (a + 1 + word_of_nat n)) mem"
      using Suc.prems(2) l by (simp add: slice_simps)
    with s' s1 show ?case by (simp add: algebra_simps)
  qed
  from this [of "n - 1"] show thesis using assms(3) that by auto
qed


section \<open>Flushing and restarting\<close>

lemma bflush_loop_spec:
  assumes "sd_ok ops" "bc_inv ops s (js @ is)" "\<forall>j \<in> set js. buf_dirty (bufs s j) = 0"
  shows "\<exists>s'. bflush_loop ops (hd (map Buf is @ [BHead])) s = Some s' \<and>
    bc_inv ops s' (js @ is) \<and> bc_view ops s' = bc_view ops s \<and>
    (\<forall>j \<in> set (js @ is). buf_dirty (bufs s' j) = 0) \<and> page_cache_policy s' = page_cache_policy s"
  using assms(2,3)
proof (induction "is" arbitrary: js s)
  case Nil
  then show ?case by (simp add: bflush_loop.simps)
next
  case (Cons i "is")
  let ?w = "write_back ops i s"
  have w: "bc_inv ops ?w ((js @ [i]) @ is)" "bc_view ops ?w = bc_view ops s"
    using write_back_inv [OF assms(1) Cons.prems(1), of i] by simp_all
  have "nxt (blk s) (Buf i) = Some (hd (map Buf is @ [BHead]))"
    using bc_invD(3) [OF Cons.prems(1)]
      dll_next_mem [of "blk s" BHead "map Buf js" "Buf i" "map Buf is"] by simp
  then have "bflush_loop ops (Buf i) s = bflush_loop ops (hd (map Buf is @ [BHead])) ?w"
    by (simp add: bflush_loop.simps [of ops "Buf i"])
  moreover have "\<forall>j \<in> set (js @ [i]). buf_dirty (bufs ?w j) = 0" using Cons.prems(2) by simp
  ultimately show ?case using Cons.IH [OF w(1)] w(2) by auto
qed

lemma bflush_spec:
  assumes "bc_ok ops s"
  obtains s' where "bflush ops s = Some s'" "bc_ok ops s'" "bc_view ops s' = bc_view ops s"
    "\<forall>a. sd_rd ops a (sd s') = bc_view ops s a" "page_cache_policy s' = page_cache_policy s"
proof -
  obtain "is" where sd: "sd_ok ops" and inv: "bc_inv ops s is" using assms by (auto simp: bc_ok_def)
  obtain s' where s': "bflush_loop ops (hd (map Buf is @ [BHead])) s = Some s'"
    and inv': "bc_inv ops s' is" and v: "bc_view ops s' = bc_view ops s"
    and clean: "\<forall>j \<in> set is. buf_dirty (bufs s' j) = 0"
    and pol: "page_cache_policy s' = page_cache_policy s"
    using bflush_loop_spec [OF sd, of s "[]" "is"] inv by auto
  have "sd_rd ops a (sd s') = bc_view ops s a" for a
  proof (cases "\<exists>i \<in> set is. buf_sectorid (bufs s' i) = a")
    case True
    then obtain i where "i \<in> set is" "buf_sectorid (bufs s' i) = a" by blast
    then show ?thesis using bc_view_hit [OF inv'] clean inv' v by (auto simp: bc_inv_def)
  next
    case False
    then show ?thesis using bc_view_miss [OF inv', of a] v by auto
  qed
  moreover have "bflush ops s = Some s'"
    using s' dll_first [OF bc_invD(3) [OF inv]] by (simp add: bflush_def)
  ultimately show thesis using that [of s'] sd inv' v pol by (auto simp: bc_ok_def)
qed

lemma init_bcache_spec:
  assumes "sd_ok ops"
  shows "bc_ok ops (init_bcache s)" "bc_view ops (init_bcache s) a = sd_rd ops a (sd s)"
proof -
  have inv: "bc_inv ops (init_bcache s) []"
    by (simp add: bc_inv_def init_bcache_def dll_Nil_iff)
  then show "bc_ok ops (init_bcache s)" using assms by (auto simp: bc_ok_def)
  show "bc_view ops (init_bcache s) a = sd_rd ops a (sd s)"
    using bc_view_miss [OF inv] by (simp add: init_bcache_def)
qed

section \<open>Properties of the cache\<close>

text \<open>
  The operations clients call, and the same operations on a plain map from sector numbers to
  contents. A multi-sector transfer uses the same 512 bytes of memory for each of its sectors:
  a write stores them in every sector, a read leaves the last sector there.
\<close>

datatype bop = BRead bytes nat u32 | BWrite bytes nat u32 | BFlush

fun bop_ok :: "bop \<Rightarrow> bool" where
  "bop_ok (BRead mem n a) \<longleftrightarrow> SECTOR_SIZE \<le> length mem \<and> 0 < n"
| "bop_ok (BWrite mem n a) \<longleftrightarrow> SECTOR_SIZE \<le> length mem \<and> n < 2 ^ 32"
| "bop_ok BFlush \<longleftrightarrow> True"

fun bop_run :: "'d sd_ops \<Rightarrow> bop list \<Rightarrow> 'd bcache \<Rightarrow> (bytes list \<times> 'd bcache) option" where
  "bop_run ops [] s = Some ([], s)"
| "bop_run ops (BRead mem n a # xs) s = do {
     (x, s') \<leftarrow> bread ops mem n a s; (rs, s'') \<leftarrow> bop_run ops xs s'; Some (x # rs, s'') }"
| "bop_run ops (BWrite mem n a # xs) s = do { s' \<leftarrow> bwrite ops mem n a s; bop_run ops xs s' }"
| "bop_run ops (BFlush # xs) s = do { s' \<leftarrow> bflush ops s; bop_run ops xs s' }"

fun store_run :: "bop list \<Rightarrow> (u32 \<Rightarrow> bytes) \<Rightarrow> bytes list \<times> (u32 \<Rightarrow> bytes)" where
  "store_run [] v = ([], v)"
| "store_run (BRead mem n a # xs) v =
     (let (rs, v') = store_run xs v in (bput 0 (v (a + word_of_nat (n - 1))) mem # rs, v'))"
| "store_run (BWrite mem n a # xs) v =
     store_run xs (\<lambda>b. if in_run a n b then take SECTOR_SIZE mem else v b)"
| "store_run (BFlush # xs) v = store_run xs v"

text \<open>
  C1: the cache is transparent. Any sequence of reads, writes and flushes through the cache
  returns (it never runs out of buffers and never follows a bad pointer) and yields the same
  results and the same final contents as on a plain array of sectors, whatever was cached,
  evicted or written back in between and under either write policy.
\<close>

theorem bcache_refines_store:
  assumes "bc_ok ops s" "list_all bop_ok xs"
  shows "\<exists>s'. bop_run ops xs s = Some (fst (store_run xs (bc_view ops s)), s') \<and>
    bc_ok ops s' \<and> bc_view ops s' = snd (store_run xs (bc_view ops s))"
  using assms
proof (induction xs arbitrary: s)
  case Nil
  then show ?case by simp
next
  case (Cons x xs)
  show ?case
  proof (cases x)
    case (BRead mem n a)
    then have pre: "SECTOR_SIZE \<le> length mem" "0 < n" using Cons.prems(2) by simp_all
    obtain s1 where "bread ops mem n a s =
        Some (bput 0 (bc_view ops s (a + word_of_nat (n - 1))) mem, s1)"
      "bc_ok ops s1" "bc_view ops s1 = bc_view ops s"
      using bread_spec [OF Cons.prems(1) pre] .
    then show ?thesis using Cons.IH [of s1] Cons.prems(2) BRead by (auto simp: case_prod_beta)
  next
    case (BWrite mem n a)
    then have pre: "SECTOR_SIZE \<le> length mem" "n < 2 ^ 32" using Cons.prems(2) by simp_all
    obtain s1 where "bwrite ops mem n a s = Some s1" "bc_ok ops s1"
      "bc_view ops s1 = (\<lambda>b. if in_run a n b then take SECTOR_SIZE mem else bc_view ops s b)"
      using bwrite_spec [OF Cons.prems(1) pre] .
    then show ?thesis using Cons.IH [of s1] Cons.prems(2) BWrite by auto
  next
    case BFlush
    obtain s1 where "bflush ops s = Some s1" "bc_ok ops s1" "bc_view ops s1 = bc_view ops s"
      using bflush_spec [OF Cons.prems(1)] .
    then show ?thesis using Cons.IH [of s1] Cons.prems(2) BFlush by auto
  qed
qed

text \<open>A concrete card and a cold cache, for the witnesses.\<close>

definition demo_sd :: "(u32 \<Rightarrow> bytes) sd_ops" where
  "demo_sd = \<lparr>sd_rd = (\<lambda>a d. take SECTOR_SIZE (d a @ replicate SECTOR_SIZE 0)), sd_wr = (\<lambda>a x d. d(a := x))\<rparr>"

definition demo_cache :: "(u32 \<Rightarrow> bytes) bcache" where
  "demo_cache = init_bcache \<lparr>bufs = (\<lambda>i. \<lparr>buf_valid = 0, buf_dirty = 0, buf_sectorid = 0, buf_data = []\<rparr>),
     blk = \<lparr>nxt = (\<lambda>_. None), prv = (\<lambda>_. None)\<rparr>, sd = (\<lambda>_. []), page_cache_policy = BWRITE_BACK\<rparr>"

lemma demo_sd_ok: "sd_ok demo_sd"
  by (auto simp: sd_ok_def demo_sd_def min_def)

lemma demo_cache_ok: "bc_ok demo_sd demo_cache"
  unfolding demo_cache_def by (rule init_bcache_spec(1) [OF demo_sd_ok])

theorem bcache_refines_store_witness:
  "bc_ok demo_sd demo_cache \<and>
   (\<exists>s'. bop_run demo_sd [BWrite (replicate 512 7) 1 9, BFlush, BRead (replicate 512 0) 1 9] demo_cache =
      Some ([replicate 512 7], s') \<and> bc_view demo_sd s' 9 = replicate 512 7)"
proof -
  let ?xs = "[BWrite (replicate 512 7) 1 9, BFlush, BRead (replicate 512 0) 1 9]"
  have ok: "list_all bop_ok ?xs" by (simp add: size_defs)
  obtain s' where "bop_run demo_sd ?xs demo_cache = Some (fst (store_run ?xs (bc_view demo_sd demo_cache)), s')"
    "bc_view demo_sd s' = snd (store_run ?xs (bc_view demo_sd demo_cache))"
    using bcache_refines_store [OF demo_cache_ok ok] by blast
  then show ?thesis
    using demo_cache_ok by (auto simp: in_run_def size_defs bput_def)
qed

text \<open>
  C27: durability. \<^verbatim>\<open>bflush\<close> returns and leaves every sector of the card equal to what the cache
  showed for it, so that a restart (\<^verbatim>\<open>init_bcache\<close>, which forgets every buffer) loses nothing.
\<close>

theorem bflush_durable:
  assumes "bc_ok ops s"
  shows "\<exists>s'. bflush ops s = Some s' \<and> (\<forall>a. sd_rd ops a (sd s') = bc_view ops s a) \<and>
    bc_ok ops (init_bcache s') \<and> bc_view ops (init_bcache s') = bc_view ops s"
proof -
  have sd: "sd_ok ops" using assms by (simp add: bc_ok_def)
  obtain s' where s': "bflush ops s = Some s'" "\<forall>a. sd_rd ops a (sd s') = bc_view ops s a"
    using bflush_spec [OF assms] .
  then have "bc_view ops (init_bcache s') = bc_view ops s"
    using init_bcache_spec(2) [OF sd, of s'] by (simp add: fun_eq_iff)
  then show ?thesis using s' init_bcache_spec(1) [OF sd] by auto
qed

theorem bflush_durable_witness:
  "\<exists>s'. bflush demo_sd demo_cache = Some s' \<and> bc_view demo_sd (init_bcache s') = bc_view demo_sd demo_cache"
  using bflush_durable [OF demo_cache_ok] by blast

text \<open>
  block transfers keep one sector only. \<^verbatim>\<open>bwrite\<close> and \<^verbatim>\<open>bread\<close> of a block of 8 sectors do not
  advance the memory address, so writing a 4096-byte buffer and reading the block back into
  another buffer restores the first 512 bytes and leaves the other 3584 as the second buffer
  had them.
\<close>

theorem block_roundtrip_first_sector:
  assumes "bc_ok ops s" "length mem = BLOCK_SIZE" "length mem' = BLOCK_SIZE"
  shows "\<exists>s'. Option.bind (bwrite ops mem (BLOCK_SIZE div SECTOR_SIZE) a s)
      (bread ops mem' (BLOCK_SIZE div SECTOR_SIZE) a) =
    Some (take SECTOR_SIZE mem @ drop SECTOR_SIZE mem', s') \<and> bc_ok ops s'"
proof -
  have n: "BLOCK_SIZE div SECTOR_SIZE = 8" by (simp add: size_defs)
  obtain s1 where s1: "bwrite ops mem 8 a s = Some s1" "bc_ok ops s1"
    "bc_view ops s1 = (\<lambda>b. if in_run a 8 b then take SECTOR_SIZE mem else bc_view ops s b)"
    using bwrite_spec [OF assms(1), of mem 8 a] assms(2) by (auto simp: size_defs)
  have "bc_view ops s1 (a + word_of_nat (8 - 1)) = take SECTOR_SIZE mem"
    using s1(3) in_run_self [of 8 7 a] by simp
  moreover obtain s2 where "bread ops mem' 8 a s1 =
      Some (bput 0 (bc_view ops s1 (a + word_of_nat (8 - 1))) mem', s2)" "bc_ok ops s2"
    using bread_spec [OF s1(2), of mem' 8 a] assms(3) by (auto simp: size_defs)
  ultimately show ?thesis using s1(1) assms n by (simp add: bput_def size_defs)
qed

theorem block_roundtrip_first_sector_witness:
  "\<exists>s'. Option.bind (bwrite demo_sd (replicate 4096 7) (BLOCK_SIZE div SECTOR_SIZE) 1000 demo_cache)
      (bread demo_sd (replicate 4096 1) (BLOCK_SIZE div SECTOR_SIZE) 1000) =
    Some (replicate 512 7 @ replicate 3584 1, s')"
  using block_roundtrip_first_sector [OF demo_cache_ok, of "replicate 4096 7" "replicate 4096 1" 1000]
  by (auto simp: size_defs)

text \<open>
  Replacement order. A hit leaves the cache unchanged, and a refill of a full cache takes
  the buffer that was refilled longest ago: the policy is first-in first-out, although the
  comment in \<^verbatim>\<open>find_free_buf\<close> says LRU.
\<close>

theorem replacement_is_fifo:
  assumes "sd_ok ops" "bc_inv ops s is" "length is = NBUF"
  shows "(\<forall>i \<in> set is. get_buf ops (buf_sectorid (bufs s i)) s = Some (i, s)) \<and>
    (\<exists>s'. find_free_buf ops s = Some (Some (last is), s') \<and> bc_inv ops s' (butlast is))"
proof
  show "\<forall>i \<in> set is. get_buf ops (buf_sectorid (bufs s i)) s = Some (i, s)"
  proof
    fix i assume i: "i \<in> set is"
    let ?a = "buf_sectorid (bufs s i)"
    obtain j where "find (\<lambda>k. buf_sectorid (bufs s k) = ?a) is = Some j"
      using i by (cases "find (\<lambda>k. buf_sectorid (bufs s k) = ?a) is") (auto simp: find_None_iff)
    moreover from this have "j = i"
      using i bc_invD(4) [OF assms(2), of j i] by (auto simp: find_Some_iff)
    ultimately show "get_buf ops ?a s = Some (i, s)"
      using search_buf_eq [OF assms(2)] by (simp add: get_buf_def)
  qed
  obtain i s' where f: "find_free_buf ops s = Some (Some i, s')" "i < NBUF"
    "bc_inv ops s' (butlast is)" "i \<notin> set (butlast is)"
    using find_free_buf_spec [OF assms(1,2)] assms(3) by metis
  have "0 < NBUF" by (simp add: NBUF_def)
  then have "is \<noteq> []" using assms(3) by auto
  moreover have "i \<in> set is"
    using f(2) assms(3) bc_invD(1,2) [OF assms(2)]
    by (metis card_subset_eq distinct_card finite_lessThan card_lessThan lessThan_iff subsetI)
  ultimately have "i = last is"
    using f(4) append_butlast_last_id [of "is"]
    by (metis Un_iff empty_iff insert_iff list.set set_append)
  then show "\<exists>s'. find_free_buf ops s = Some (Some (last is), s') \<and> bc_inv ops s' (butlast is)"
    using f by blast
qed

text \<open>A full cache for the witness: buffer \<open>i\<close> holds sector \<open>i\<close>, refilled in descending order.\<close>

definition full_cache :: "(u32 \<Rightarrow> bytes) bcache" where
  "full_cache = \<lparr>bufs = (\<lambda>i. \<lparr>buf_valid = 1, buf_dirty = 1, buf_sectorid = word_of_nat i,
       buf_data = replicate SECTOR_SIZE 0\<rparr>),
     blk = \<lparr>nxt = (\<lambda>b. case b of BHead \<Rightarrow> Some (Buf 0)
         | Buf i \<Rightarrow> Some (if Suc i < NBUF then Buf (Suc i) else BHead)),
       prv = (\<lambda>b. case b of BHead \<Rightarrow> Some (Buf (NBUF - 1))
         | Buf i \<Rightarrow> Some (if i = 0 then BHead else Buf (i - 1)))\<rparr>,
     sd = (\<lambda>_. []), page_cache_policy = BWRITE_BACK\<rparr>"

lemma full_cache_seg:
  "i < NBUF \<Longrightarrow> seg (blk full_cache) (Buf i) (map Buf [Suc i..<NBUF]) BHead"
proof (induction "NBUF - Suc i" arbitrary: i)
  case 0
  then have "Suc i = NBUF" by simp
  then show ?case by (auto simp: full_cache_def)
next
  case (Suc k)
  then have "Suc i < NBUF" by simp
  moreover from this have "seg (blk full_cache) (Buf (Suc i)) (map Buf [Suc (Suc i)..<NBUF]) BHead"
    using Suc by (intro Suc.hyps(1)) simp_all
  ultimately show ?case by (simp add: upt_conv_Cons full_cache_def)
qed

lemma full_cache_inv: "bc_inv demo_sd full_cache [0..<NBUF]"
proof -
  have N: "0 < NBUF" "NBUF < 2 ^ 32" by (simp_all add: NBUF_def)
  have "[0..<NBUF] = 0 # [Suc 0..<NBUF]" using N by (simp add: upt_conv_Cons)
  then have "seg (blk full_cache) BHead (map Buf [0..<NBUF]) BHead"
    using full_cache_seg [OF N(1)] by (simp add: full_cache_def)
  moreover have "inj_on (\<lambda>i. word_of_nat i :: u32) {0..<NBUF}"
    using N(2) by (auto intro!: inj_onI simp: word_of_nat_eq_iff take_bit_nat_eq_self)
  moreover have "inj_on Buf {0..<NBUF}" by (auto intro: inj_onI)
  ultimately show ?thesis
    by (auto simp: bc_inv_def dll_def distinct_map full_cache_def)
qed

theorem replacement_is_fifo_witness:
  "\<exists>s'. find_free_buf demo_sd full_cache = Some (Some (NBUF - 1), s')"
proof -
  have "last [0..<NBUF] = NBUF - 1" by (simp add: NBUF_def last_conv_nth)
  then show ?thesis
    using replacement_is_fifo [OF demo_sd_ok full_cache_inv] by auto
qed

end
