(* ===== verification/Sched.thy ===== *)
theory Sched
  imports DList
begin

text \<open>
  The scheduler core: src/kernel/sched/sched.c up to the process table, \<^verbatim>\<open>check_sleeping\<close> of
  src/kernel/sched/time.c and \<^verbatim>\<open>screen_move_cursor\<close> of src/drivers/screen.c, with the types of
  src/include/os/sched.h and src/include/os/list.h.

  All list nodes of the kernel's scheduling queues live in one pointer store: the \<^verbatim>\<open>list\<close> field
  of each PCB (\<open>PcbNode\<close>) and every queue head. The state record is extensible; the components
  above add their own fields to it. Kernel code runs on one hart at a time (it holds the kernel
  lock); \<open>hart\<close> is that hart and \<open>cur\<close> holds the \<^verbatim>\<open>tp\<close> register of each.
  \<^verbatim>\<open>switch_to\<close> is assembly (entry.S): here a switch is the change of \<open>cur\<close>.
\<close>

section \<open>Process control blocks and queue nodes\<close>

definition NUM_MAX_TASK :: nat where "NUM_MAX_TASK = 16"

datatype task_status_t = TASK_BLOCKED | TASK_RUNNING | TASK_READY | TASK_EXITED
datatype thread_type_t = MTHREAD | PTHREAD

text \<open>\<^verbatim>\<open>&pcb[i]\<close> and the two idle PCBs.\<close>

datatype pcbref = Pcb nat | MasterPid0 | SlavePid0

record pcb_t =
  kernel_sp :: u64
  user_sp :: u64
  kernel_stack_base :: u64
  user_stack_base :: u64
  pid :: i32
  status :: task_status_t
  cursor_x :: i32
  cursor_y :: i32
  remain_length :: i32
  wakeup_time :: u64
  entry_point :: u64
  taskname :: bytes
  current_cpu_id :: u64
  cpu_mask :: u64
  pgdir :: u64
  thread_type :: thread_type_t
  pthread_id :: i32
  brk :: u64

text \<open>Addresses of \<^verbatim>\<open>list_node_t\<close> objects.\<close>

datatype node = PcbNode pcbref | ReadyQ | SleepQ | PcbBlockQ pcbref | MutexQ nat | BarrierQ nat
  | CondQ nat | MboxEmptyQ nat | MboxFullQ nat | SendQ | RecvQ

text \<open>Output to the terminal: cursor movement and screen control sequences, single characters.\<close>

datatype tty_out = VtMove int int | VtClear | VtHide | TtyPut u8

record kst =
  pcbs :: "pcbref \<Rightarrow> pcb_t"
  qlinks :: "node links"
  cur :: "nat \<Rightarrow> pcbref"
  hart :: nat
  clk :: "nat \<Rightarrow> u64"
  clk_reads :: nat
  tty :: "tty_out list"

text \<open>Each call of \<^verbatim>\<open>get_timer\<close> reads the clock anew: the \<open>i\<close>-th reading is \<open>clk s i\<close>.\<close>

definition get_timer :: "'a kst_scheme \<Rightarrow> u64 \<times> 'a kst_scheme" where
  "get_timer s = (clk s (clk_reads s), s\<lparr>clk_reads := Suc (clk_reads s)\<rparr>)"

definition current_running :: "'a kst_scheme \<Rightarrow> pcbref" where
  "current_running s = cur s (hart s)"

definition set_current :: "pcbref \<Rightarrow> 'a kst_scheme \<Rightarrow> 'a kst_scheme" where
  "set_current p s = s\<lparr>cur := (cur s)(hart s := p)\<rparr>"

definition upd_pcb :: "pcbref \<Rightarrow> (pcb_t \<Rightarrow> pcb_t) \<Rightarrow> 'a kst_scheme \<Rightarrow> 'a kst_scheme" where
  "upd_pcb p f s = s\<lparr>pcbs := (pcbs s)(p := f (pcbs s p))\<rparr>"

text \<open>\<^verbatim>\<open>LIST_PCB\<close>: the PCB around a list node; a queue head is not inside a PCB.\<close>

fun LIST_PCB :: "node \<Rightarrow> pcbref option" where
  "LIST_PCB (PcbNode p) = Some p"
| "LIST_PCB _ = None"

section \<open>Queue operations\<close>

text \<open>The pointer statements of \<^verbatim>\<open>do_block\<close> and \<^verbatim>\<open>add_readyqueue\<close>, and of \<^verbatim>\<open>do_unblock\<close>, \<^verbatim>\<open>remove_readyqueue\<close> and \<^verbatim>\<open>remove_pcb_queue\<close>.\<close>

definition enq_tail :: "node \<Rightarrow> node \<Rightarrow> node links \<Rightarrow> node links option" where
  "enq_tail n q lk = do {
     tail \<leftarrow> prv lk q;
     let lk1 = set_nxt tail (Some n) lk;
     let lk2 = set_prv n (Some tail) lk1;
     let lk3 = set_prv q (Some n) lk2;
     Some (set_nxt n (Some q) lk3) }"

definition deq_node :: "node \<Rightarrow> node links \<Rightarrow> node links option" where
  "deq_node n lk = do {
     let next_node = nxt lk n;
     let prev_node = prv lk n;
     let lk1 = set_prv n None (set_nxt n None lk);
     nn \<leftarrow> next_node;
     let lk2 = set_prv nn prev_node lk1;
     pn \<leftarrow> prev_node;
     Some (set_nxt pn next_node lk2) }"

definition add_readyqueue :: "pcbref \<Rightarrow> 'a kst_scheme \<Rightarrow> 'a kst_scheme option" where
  "add_readyqueue p s = do {
     let s1 = upd_pcb p (\<lambda>b. b\<lparr>status := TASK_READY\<rparr>) s;
     lk \<leftarrow> enq_tail (PcbNode p) ReadyQ (qlinks s1);
     Some (s1\<lparr>qlinks := lk\<rparr>) }"

definition remove_readyqueue :: "pcbref \<Rightarrow> 'a kst_scheme \<Rightarrow> 'a kst_scheme option" where
  "remove_readyqueue p s = do {
     lk \<leftarrow> deq_node (PcbNode p) (qlinks s);
     Some (s\<lparr>qlinks := lk\<rparr>) }"

definition remove_pcb_queue :: "pcbref \<Rightarrow> 'a kst_scheme \<Rightarrow> 'a kst_scheme option" where
  "remove_pcb_queue p s =
     (if nxt (qlinks s) (PcbNode p) = None \<or> nxt (qlinks s) (PcbNode p) = None then Some s
      else do {
        lk \<leftarrow> deq_node (PcbNode p) (qlinks s);
        Some (s\<lparr>qlinks := lk\<rparr>) })"

definition do_block :: "node \<Rightarrow> node \<Rightarrow> 'a kst_scheme \<Rightarrow> 'a kst_scheme option" where
  "do_block n q s = do {
     lk \<leftarrow> enq_tail n q (qlinks s);
     p \<leftarrow> LIST_PCB n;
     Some (upd_pcb p (\<lambda>b. b\<lparr>status := TASK_BLOCKED\<rparr>) (s\<lparr>qlinks := lk\<rparr>)) }"

definition do_unblock :: "node \<Rightarrow> 'a kst_scheme \<Rightarrow> 'a kst_scheme option" where
  "do_unblock n s = do {
     lk \<leftarrow> deq_node n (qlinks s);
     p \<leftarrow> LIST_PCB n;
     add_readyqueue p (s\<lparr>qlinks := lk\<rparr>) }"

text \<open>\<^verbatim>\<open>while (q.next != &q) do_unblock(q.next)\<close>, the wake-up loop used throughout the kernel.\<close>

partial_function (option) unblock_all :: "node \<Rightarrow> 'a kst_scheme \<Rightarrow> 'a kst_scheme option" where
  "unblock_all q s = Option.bind (nxt (qlinks s) q) (\<lambda>n.
     if n = q then Some s else Option.bind (do_unblock n s) (\<lambda>s'. unblock_all q s'))"

section \<open>Scheduling\<close>

definition SCREEN_WIDTH :: int where "SCREEN_WIDTH = 80"
definition SCREEN_HEIGHT :: int where "SCREEN_HEIGHT = 50"

text \<open>\<^verbatim>\<open>if (x >= n) x = n - 1; else if (x < 0) x = 0;\<close>\<close>

definition clamp :: "int \<Rightarrow> int \<Rightarrow> int" where
  "clamp n x = (if x \<ge> n then n - 1 else if x < 0 then 0 else x)"

definition screen_move_cursor :: "i32 \<Rightarrow> i32 \<Rightarrow> 'a kst_scheme \<Rightarrow> 'a kst_scheme" where
  "screen_move_cursor x y s =
     (let x' = clamp SCREEN_WIDTH (sint x); y' = clamp SCREEN_HEIGHT (sint y);
          s1 = upd_pcb (current_running s)
                 (\<lambda>b. b\<lparr>cursor_x := word_of_int x', cursor_y := word_of_int y'\<rparr>) s
      in s1\<lparr>tty := tty s1 @ [VtMove (x' + 1) (y' + 1)]\<rparr>)"

definition mask_has :: "u64 \<Rightarrow> nat \<Rightarrow> bool" where
  "mask_has m h \<longleftrightarrow> m AND push_bit h 1 \<noteq> 0"

partial_function (option) next_loop :: "node \<Rightarrow> 'a kst_scheme \<Rightarrow> (bool \<times> 'a kst_scheme) option" where
  "next_loop n s =
     (if n = ReadyQ then Some (False, s)
      else Option.bind (LIST_PCB n) (\<lambda>p.
        if mask_has (cpu_mask (pcbs s p)) (hart s)
        then Option.bind (remove_readyqueue p (set_current p s)) (\<lambda>s1.
          Some (True, upd_pcb p (\<lambda>b. b\<lparr>status := TASK_RUNNING,
                                      current_cpu_id := word_of_nat (hart s1)\<rparr>) s1))
        else Option.bind (nxt (qlinks s) n) (\<lambda>n'. next_loop n' s)))"

definition get_next_running :: "'a kst_scheme \<Rightarrow> (bool \<times> 'a kst_scheme) option" where
  "get_next_running s = do {
     s1 \<leftarrow> (if status (pcbs s (current_running s)) = TASK_RUNNING
            then add_readyqueue (current_running s) s else Some s);
     n \<leftarrow> nxt (qlinks s1) ReadyQ;
     next_loop n s1 }"

partial_function (option) sleep_loop :: "node \<Rightarrow> 'a kst_scheme \<Rightarrow> 'a kst_scheme option" where
  "sleep_loop n s =
     (if n = SleepQ then Some s
      else Option.bind (nxt (qlinks s) n) (\<lambda>pnext.
        Option.bind (LIST_PCB n) (\<lambda>p.
          let (t, s1) = get_timer s in
          if wakeup_time (pcbs s1 p) \<le> t
          then Option.bind (do_unblock n s1) (\<lambda>s2. sleep_loop pnext s2)
          else sleep_loop pnext s1)))"

definition check_sleeping :: "'a kst_scheme \<Rightarrow> 'a kst_scheme option" where
  "check_sleeping s = Option.bind (nxt (qlinks s) SleepQ) (\<lambda>n. sleep_loop n s)"

definition do_scheduler :: "'a kst_scheme \<Rightarrow> 'a kst_scheme option" where
  "do_scheduler s = do {
     s1 \<leftarrow> check_sleeping s;
     (ok, s2) \<leftarrow> get_next_running s1;
     if ok then Some (screen_move_cursor (cursor_x (pcbs s2 (current_running s2)))
                        (cursor_y (pcbs s2 (current_running s2))) s2)
     else Some (set_current (if hart s2 = 0 then MasterPid0 else SlavePid0) s2) }"

definition do_sleep :: "u32 \<Rightarrow> 'a kst_scheme \<Rightarrow> 'a kst_scheme option" where
  "do_sleep sleep_time s = do {
     let (t, s1) = get_timer s;
     let s2 = upd_pcb (current_running s1) (\<lambda>b. b\<lparr>wakeup_time := ucast sleep_time + t\<rparr>) s1;
     s3 \<leftarrow> do_block (PcbNode (current_running s2)) SleepQ s2;
     do_scheduler s3 }"

definition set_sche_workload :: "i32 \<Rightarrow> 'a kst_scheme \<Rightarrow> 'a kst_scheme" where
  "set_sche_workload n s = upd_pcb (current_running s) (\<lambda>b. b\<lparr>remain_length := n\<rparr>) s"

section \<open>The process table\<close>

definition pid_to_pcb_id :: "i32 \<Rightarrow> 'a kst_scheme \<Rightarrow> nat option" where
  "pid_to_pcb_id k s =
     first_idx (\<lambda>i. pid (pcbs s (Pcb i)) = k \<and> status (pcbs s (Pcb i)) \<noteq> TASK_EXITED) NUM_MAX_TASK"

definition get_free_pcb :: "'a kst_scheme \<Rightarrow> nat option" where
  "get_free_pcb s = first_idx (\<lambda>i. status (pcbs s (Pcb i)) = TASK_EXITED) NUM_MAX_TASK"

definition search_pthread_pcb :: "i32 \<Rightarrow> i32 \<Rightarrow> 'a kst_scheme \<Rightarrow> nat option" where
  "search_pthread_pcb k th s = first_idx (\<lambda>i. pid (pcbs s (Pcb i)) = k \<and>
     pthread_id (pcbs s (Pcb i)) = th \<and> status (pcbs s (Pcb i)) \<noteq> TASK_EXITED) NUM_MAX_TASK"

definition init_pcb :: "'a kst_scheme \<Rightarrow> 'a kst_scheme" where
  "init_pcb s = s\<lparr>
     pcbs := (\<lambda>p. case p of Pcb i \<Rightarrow> if i < NUM_MAX_TASK then (pcbs s p)\<lparr>status := TASK_EXITED\<rparr> else pcbs s p
                          | _ \<Rightarrow> pcbs s p),
     cur := (cur s)(0 := MasterPid0, 1 := SlavePid0)\<rparr>"

section \<open>Field-wise reads after updates\<close>

lemma upd_pcb_simps [simp]:
  "pcbs (upd_pcb p f s) = (pcbs s)(p := f (pcbs s p))"
  "qlinks (upd_pcb p f s) = qlinks s" "cur (upd_pcb p f s) = cur s" "hart (upd_pcb p f s) = hart s"
  "clk (upd_pcb p f s) = clk s" "clk_reads (upd_pcb p f s) = clk_reads s" "tty (upd_pcb p f s) = tty s"
  "kst.more (upd_pcb p f s) = kst.more s"
  by (simp_all add: upd_pcb_def)

lemma set_current_simps [simp]:
  "pcbs (set_current p s) = pcbs s" "qlinks (set_current p s) = qlinks s"
  "cur (set_current p s) = (cur s)(hart s := p)" "hart (set_current p s) = hart s"
  "clk (set_current p s) = clk s" "clk_reads (set_current p s) = clk_reads s" "tty (set_current p s) = tty s"
  "kst.more (set_current p s) = kst.more s"
  by (simp_all add: set_current_def)

lemma current_running_simps [simp]:
  "current_running (upd_pcb p f s) = current_running s"
  "current_running (set_current p s) = p"
  "current_running (s\<lparr>qlinks := lk\<rparr>) = current_running s"
  "current_running (s\<lparr>clk_reads := n\<rparr>) = current_running s"
  by (simp_all add: current_running_def)

interpretation sq: dqueue enq_tail deq_node
proof unfold_locales
  fix lk :: "node links" and h p :: node and xs
  assume d: "dll lk h xs" and p: "p \<notin> insert h (set xs)"
  have "last (h # xs) \<noteq> p" using p last_in_cons [of h xs] by auto
  then show "enq_tail p h lk = Some (link_between (last (h # xs)) p h lk)"
    using p dll_last [OF d] by (auto simp: enq_tail_def Let_def intro!: links_eqI)
next
  fix lk :: "node links" and h p :: node and xs ys
  assume d: "dll lk h (xs @ p # ys)"
  let ?a = "last (h # xs)" and ?b = "hd (ys @ [h])"
  have p: "nxt lk p = Some ?b" "prv lk p = Some ?a"
    using d by (auto dest: dll_next_mem dll_prev_mem)
  have "p \<notin> set (h # xs)" "p \<notin> set (ys @ [h])" using d by (auto simp: dll_def)
  then have "p \<noteq> ?a" "p \<noteq> ?b"
    using last_in_cons [of h xs] hd_in_snoc [of ys h] by metis+
  with p show "deq_node p lk = Some (unlink_between ?a p ?b lk)"
    by (auto simp: deq_node_def Let_def intro!: links_eqI)
qed

section \<open>The invariant of the queues\<close>

text \<open>
  \<open>sched_rel H Q s\<close>: the initialised queue heads are \<open>H\<close>, queue \<open>h\<close> holds \<open>Q h\<close>, a PCB is in at
  most one queue, it is READY in the ready queue and BLOCKED in any other, and a PCB in no queue
  is RUNNING or EXITED. The idle PCBs are never RUNNING, so they are never queued.
\<close>

fun node_ok :: "(pcbref \<Rightarrow> task_status_t) \<Rightarrow> node \<Rightarrow> node \<Rightarrow> bool" where
  "node_ok st h (PcbNode (Pcb i)) \<longleftrightarrow> i < NUM_MAX_TASK \<and>
     st (Pcb i) = (if h = ReadyQ then TASK_READY else TASK_BLOCKED)"
| "node_ok st h _ \<longleftrightarrow> False"

definition st_ok :: "node set \<Rightarrow> (node \<Rightarrow> node list) \<Rightarrow> (pcbref \<Rightarrow> task_status_t) \<Rightarrow> bool" where
  "st_ok H Q st \<longleftrightarrow> ReadyQ \<in> H \<and> SleepQ \<in> H \<and> (\<forall>p. PcbNode p \<notin> H) \<and>
     (\<forall>h \<in> H. \<forall>n \<in> set (Q h). node_ok st h n) \<and>
     (\<forall>i < NUM_MAX_TASK. unqueued H Q (PcbNode (Pcb i)) \<longrightarrow>
        st (Pcb i) = TASK_RUNNING \<or> st (Pcb i) = TASK_EXITED) \<and>
     st MasterPid0 \<noteq> TASK_RUNNING \<and> st SlavePid0 \<noteq> TASK_RUNNING"

definition sched_rel :: "node set \<Rightarrow> (node \<Rightarrow> node list) \<Rightarrow> 'a kst_scheme \<Rightarrow> bool" where
  "sched_rel H Q s \<longleftrightarrow> queues H Q (qlinks s) \<and> st_ok H Q (\<lambda>p. status (pcbs s p))"

text \<open>The PCBs after the nodes \<open>ns\<close> were made READY.\<close>

definition wake :: "node list \<Rightarrow> 'a kst_scheme \<Rightarrow> 'a kst_scheme" where
  "wake ns s = s\<lparr>pcbs := (\<lambda>p. if PcbNode p \<in> set ns then (pcbs s p)\<lparr>status := TASK_READY\<rparr> else pcbs s p)\<rparr>"

lemma wake_simps [simp]:
  "wake [] s = s" "qlinks (wake ns s) = qlinks s" "cur (wake ns s) = cur s" "hart (wake ns s) = hart s"
  "clk (wake ns s) = clk s" "clk_reads (wake ns s) = clk_reads s" "tty (wake ns s) = tty s"
  "kst.more (wake ns s) = kst.more s"
  "pcbs (wake ns s) p = (if PcbNode p \<in> set ns then (pcbs s p)\<lparr>status := TASK_READY\<rparr> else pcbs s p)"
  by (simp_all add: wake_def)

lemma current_running_wake [simp]: "current_running (wake ns s) = current_running s"
  by (simp add: current_running_def)

lemma wake_wake [simp]: "wake ms (wake ns s) = wake (ns @ ms) s"
  by (auto simp: wake_def intro!: kst.equality)

lemma upd_qlinks [simp]:
  "upd_pcb p f (s\<lparr>qlinks := lk\<rparr>) = (upd_pcb p f s)\<lparr>qlinks := lk\<rparr>"
  "wake ns (s\<lparr>qlinks := lk\<rparr>) = (wake ns s)\<lparr>qlinks := lk\<rparr>"
  "wake ns (s\<lparr>clk_reads := k\<rparr>) = (wake ns s)\<lparr>clk_reads := k\<rparr>"
  by (auto simp: upd_pcb_def wake_def intro!: kst.equality)

lemma upd_pcb_ready: "upd_pcb p (\<lambda>b. b\<lparr>status := TASK_READY\<rparr>) s = wake [PcbNode p] s"
  by (auto simp: upd_pcb_def wake_def intro!: kst.equality)

lemma unqueued_append:
  "h \<in> H \<Longrightarrow> unqueued H (Q(h := Q h @ [p])) x \<longleftrightarrow> unqueued H Q x \<and> x \<noteq> p"
  by (auto simp: unqueued_def)

lemma unqueued_remove:
  assumes "queues H Q lk" "h \<in> H" "p \<in> set (Q h)"
  shows "unqueued H (Q(h := remove1 p (Q h))) x \<longleftrightarrow> unqueued H Q x \<or> x = p"
proof -
  have d: "distinct (Q h)" using queues_dll [OF assms(1,2)] by (simp add: dll_def)
  have "p \<notin> H" using queues_head_notin [OF assms(1,2)] assms(3) by auto
  moreover have "p \<notin> set (Q g)" if "g \<in> H" "g \<noteq> h" for g
    using that assms(3) queues_disjoint [OF assms(1,2) that(1)] by auto
  ultimately show ?thesis
    using d assms(2,3) unfolding unqueued_def by (auto simp: set_remove1_eq)
qed

lemma node_okD:
  assumes "node_ok st h n"
  obtains i where "n = PcbNode (Pcb i)" "i < NUM_MAX_TASK"
    "st (Pcb i) = (if h = ReadyQ then TASK_READY else TASK_BLOCKED)"
  using assms by (cases "(st, h, n)" rule: node_ok.cases) auto

lemma node_ok_cong:
  assumes "node_ok st h n" "\<And>p. n = PcbNode p \<Longrightarrow> st' p = st p"
  shows "node_ok st' h n"
  using assms by (cases "(st, h, n)" rule: node_ok.cases) auto

lemma sched_relD:
  assumes "sched_rel H Q s"
  shows "queues H Q (qlinks s)" "ReadyQ \<in> H" "SleepQ \<in> H" "PcbNode p \<notin> H"
    "h \<in> H \<Longrightarrow> n \<in> set (Q h) \<Longrightarrow> node_ok (\<lambda>p. status (pcbs s p)) h n"
    "i < NUM_MAX_TASK \<Longrightarrow> unqueued H Q (PcbNode (Pcb i)) \<Longrightarrow>
        status (pcbs s (Pcb i)) = TASK_RUNNING \<or> status (pcbs s (Pcb i)) = TASK_EXITED"
    "status (pcbs s MasterPid0) \<noteq> TASK_RUNNING" "status (pcbs s SlavePid0) \<noteq> TASK_RUNNING"
  using assms by (auto simp: sched_rel_def st_ok_def)

lemma sched_relI:
  assumes "sched_rel H Q0 s0" "queues H Q (qlinks s)"
    and "\<And>h n. h \<in> H \<Longrightarrow> n \<in> set (Q h) \<Longrightarrow> node_ok (\<lambda>p. status (pcbs s p)) h n"
    and "\<And>i. i < NUM_MAX_TASK \<Longrightarrow> unqueued H Q (PcbNode (Pcb i)) \<Longrightarrow>
        status (pcbs s (Pcb i)) = TASK_RUNNING \<or> status (pcbs s (Pcb i)) = TASK_EXITED"
    and "status (pcbs s MasterPid0) \<noteq> TASK_RUNNING" "status (pcbs s SlavePid0) \<noteq> TASK_RUNNING"
  shows "sched_rel H Q s"
  using assms by (auto simp: sched_rel_def st_ok_def)

lemma sched_rel_cong:
  assumes "sched_rel H Q s" "qlinks s' = qlinks s" "\<And>p. status (pcbs s' p) = status (pcbs s p)"
  shows "sched_rel H Q s'"
  using assms by (simp add: sched_rel_def)

text \<open>A PCB in a queue is not RUNNING, and a RUNNING PCB is in no queue.\<close>

lemma queued_status:
  assumes "sched_rel H Q s" "h \<in> H" "PcbNode p \<in> set (Q h)"
  shows "status (pcbs s p) = (if h = ReadyQ then TASK_READY else TASK_BLOCKED)"
  using sched_relD(5) [OF assms] by (elim node_okD) auto

lemma running_unqueued:
  assumes "sched_rel H Q s" "status (pcbs s p) = TASK_RUNNING"
  shows "unqueued H Q (PcbNode p)"
proof -
  have "PcbNode p \<notin> set (Q h)" if "h \<in> H" for h
    using queued_status [OF assms(1) that, of p] assms(2) by (auto split: if_splits)
  then show ?thesis using sched_relD(4) [OF assms(1)] by (auto simp: unqueued_def)
qed

section \<open>What the queue operations do\<close>

lemma do_block_spec:
  assumes rel: "sched_rel H Q s" and h: "h \<in> H" "h \<noteq> ReadyQ" and i: "i < NUM_MAX_TASK"
    and uq: "unqueued H Q (PcbNode (Pcb i))"
  obtains lk where "do_block (PcbNode (Pcb i)) h s =
      Some ((upd_pcb (Pcb i) (\<lambda>b. b\<lparr>status := TASK_BLOCKED\<rparr>) s)\<lparr>qlinks := lk\<rparr>)"
    "sched_rel H (Q(h := Q h @ [PcbNode (Pcb i)]))
      ((upd_pcb (Pcb i) (\<lambda>b. b\<lparr>status := TASK_BLOCKED\<rparr>) s)\<lparr>qlinks := lk\<rparr>)"
proof -
  let ?n = "PcbNode (Pcb i)" and ?f = "\<lambda>b. b\<lparr>status := TASK_BLOCKED\<rparr> :: pcb_t"
  obtain lk where lk: "enq_tail ?n h (qlinks s) = Some lk" "queues H (Q(h := Q h @ [?n])) lk"
    using sq.queues_enq [OF sched_relD(1) [OF rel] h(1) uq] .
  have "sched_rel H (Q(h := Q h @ [?n])) ((upd_pcb (Pcb i) ?f s)\<lparr>qlinks := lk\<rparr>)"
  proof (rule sched_relI [OF rel])
    fix g n assume g: "g \<in> H" and n: "n \<in> set ((Q(h := Q h @ [?n])) g)"
    show "node_ok (\<lambda>p. status (pcbs ((upd_pcb (Pcb i) ?f s)\<lparr>qlinks := lk\<rparr>) p)) g n"
    proof (cases "n = ?n")
      case True
      then have "g = h" using n uq g by (auto simp: unqueued_def split: if_splits)
      then show ?thesis using True i h(2) by simp
    next
      case False
      then have "n \<in> set (Q g)" using n by (auto split: if_splits)
      then show ?thesis using False by (intro node_ok_cong [OF sched_relD(5) [OF rel g]]) auto
    qed
  qed (use lk sched_relD(6-8) [OF rel] h(1) in \<open>auto simp: unqueued_append\<close>)
  then show thesis using that [of lk] lk by (simp add: do_block_def)
qed

text \<open>Taking a node out of queue \<open>h\<close> and appending it to the ready queue.\<close>

lemma unqueued_move:
  assumes "queues H Q lk" "h \<in> H" "g \<in> H" "n \<in> set (Q h)" "h \<noteq> g"
  shows "unqueued H (Q(h := remove1 n (Q h), g := Q g @ [n])) x \<longleftrightarrow> unqueued H Q x"
proof -
  let ?Q' = "Q(h := remove1 n (Q h))"
  have "unqueued H (?Q'(g := ?Q' g @ [n])) x \<longleftrightarrow> unqueued H ?Q' x \<and> x \<noteq> n"
    using assms(3) by (rule unqueued_append)
  moreover have "?Q'(g := ?Q' g @ [n]) = Q(h := remove1 n (Q h), g := Q g @ [n])"
    using assms(5) by simp
  moreover have "\<not> unqueued H Q n" using assms(2,4) by (auto simp: unqueued_def)
  ultimately show ?thesis
    using unqueued_remove [OF assms(1,2,4), of x] by auto
qed

lemma do_unblock_spec:
  assumes rel: "sched_rel H Q s" and h: "h \<in> H" "h \<noteq> ReadyQ" and n: "n \<in> set (Q h)"
  obtains lk where "do_unblock n s = Some ((wake [n] s)\<lparr>qlinks := lk\<rparr>)"
    "sched_rel H (Q(h := remove1 n (Q h), ReadyQ := Q ReadyQ @ [n])) ((wake [n] s)\<lparr>qlinks := lk\<rparr>)"
proof -
  note qs = sched_relD(1) [OF rel] and R = sched_relD(2) [OF rel]
  obtain i where i: "n = PcbNode (Pcb i)" "i < NUM_MAX_TASK"
    using node_okD [OF sched_relD(5) [OF rel h(1) n]] .
  obtain lk1 where lk1: "deq_node n (qlinks s) = Some lk1"
    "queues H (Q(h := remove1 n (Q h))) lk1" "unqueued H (Q(h := remove1 n (Q h))) n"
    using sq.queues_deq [OF qs h(1) n] .
  let ?Q' = "Q(h := remove1 n (Q h))" and ?Q'' = "Q(h := remove1 n (Q h), ReadyQ := Q ReadyQ @ [n])"
  have Q'': "?Q'(ReadyQ := ?Q' ReadyQ @ [n]) = ?Q''" using h(2) by simp
  obtain lk2 where lk2: "enq_tail n ReadyQ lk1 = Some lk2" "queues H ?Q'' lk2"
    using sq.queues_enq [OF lk1(2) R lk1(3)] Q'' by metis
  note uq = unqueued_move [OF qs h(1) R n h(2)]
  have "sched_rel H ?Q'' ((wake [n] s)\<lparr>qlinks := lk2\<rparr>)"
  proof (rule sched_relI [OF rel])
    fix g x assume g: "g \<in> H" and x: "x \<in> set (?Q'' g)"
    show "node_ok (\<lambda>p. status (pcbs ((wake [n] s)\<lparr>qlinks := lk2\<rparr>) p)) g x"
    proof (cases "x = n")
      case True
      have "g = ReadyQ"
        using x True lk1(3) g by (auto simp: unqueued_def split: if_splits)
      then show ?thesis using i True by simp
    next
      case False
      then have "x \<in> set (Q g)" using x by (auto split: if_splits dest: notin_set_remove1)
      then show ?thesis using False by (intro node_ok_cong [OF sched_relD(5) [OF rel g]]) auto
    qed
  next
    fix j assume "j < NUM_MAX_TASK" "unqueued H ?Q'' (PcbNode (Pcb j))"
    moreover from this have "PcbNode (Pcb j) \<noteq> n" using uq n h(1) by (auto simp: unqueued_def)
    ultimately show "status (pcbs ((wake [n] s)\<lparr>qlinks := lk2\<rparr>) (Pcb j)) = TASK_RUNNING \<or>
        status (pcbs ((wake [n] s)\<lparr>qlinks := lk2\<rparr>) (Pcb j)) = TASK_EXITED"
      using uq sched_relD(6) [OF rel] by simp
  qed (use lk2 i sched_relD(7,8) [OF rel] in auto)
  then show thesis
    using that [of lk2] lk1(1) lk2 i by (simp add: do_unblock_def add_readyqueue_def upd_pcb_ready)
qed

lemma unblock_all_spec:
  assumes "sched_rel H Q s" "h \<in> H" "h \<noteq> ReadyQ"
  obtains lk where "unblock_all h s = Some ((wake (Q h) s)\<lparr>qlinks := lk\<rparr>)"
    "sched_rel H (Q(h := [], ReadyQ := Q ReadyQ @ Q h)) ((wake (Q h) s)\<lparr>qlinks := lk\<rparr>)"
proof -
  have "\<exists>lk. unblock_all h s = Some ((wake ns s)\<lparr>qlinks := lk\<rparr>) \<and>
      sched_rel H (Q(h := [], ReadyQ := Q ReadyQ @ ns)) ((wake ns s)\<lparr>qlinks := lk\<rparr>)"
    if "Q h = ns" for ns
    using that assms
  proof (induction ns arbitrary: Q s)
    case Nil
    then have "nxt (qlinks s) h = Some h"
      using dll_first [OF queues_dll [OF sched_relD(1)]] by fastforce
    then have "unblock_all h s = Some ((wake [] s)\<lparr>qlinks := qlinks s\<rparr>)"
      by (simp add: unblock_all.simps)
    moreover have eq: "Q(h := [], ReadyQ := Q ReadyQ) = Q" using Nil by auto
    have "sched_rel H (Q(h := [], ReadyQ := Q ReadyQ @ [])) ((wake [] s)\<lparr>qlinks := qlinks s\<rparr>)"
      unfolding append_Nil2 eq using Nil by simp
    ultimately show ?case by blast
  next
    case (Cons n ns)
    note rel = Cons.prems(2)
    have d: "dll (qlinks s) h (n # ns)" using queues_dll [OF sched_relD(1) [OF rel] Cons.prems(3)] Cons.prems(1) by simp
    then have nx: "nxt (qlinks s) h = Some n" "n \<noteq> h" using dll_first [OF d] by (auto simp: dll_def)
    obtain lk where lk: "do_unblock n s = Some ((wake [n] s)\<lparr>qlinks := lk\<rparr>)"
      "sched_rel H (Q(h := ns, ReadyQ := Q ReadyQ @ [n])) ((wake [n] s)\<lparr>qlinks := lk\<rparr>)"
      using do_unblock_spec [OF rel Cons.prems(3,4), of n] Cons.prems(1) by auto
    let ?Q = "Q(h := ns, ReadyQ := Q ReadyQ @ [n])" and ?s = "(wake [n] s)\<lparr>qlinks := lk\<rparr>"
    obtain lk' where "unblock_all h ?s = Some ((wake ns ?s)\<lparr>qlinks := lk'\<rparr>)"
      "sched_rel H (?Q(h := [], ReadyQ := ?Q ReadyQ @ ns)) ((wake ns ?s)\<lparr>qlinks := lk'\<rparr>)"
      using Cons.IH [OF _ lk(2) Cons.prems(3,4)] Cons.prems(4) by (metis fun_upd_apply)
    moreover have "?Q(h := [], ReadyQ := ?Q ReadyQ @ ns) = Q(h := [], ReadyQ := Q ReadyQ @ n # ns)"
      using Cons.prems(4) by auto
    ultimately have "unblock_all h s = Some ((wake (n # ns) s)\<lparr>qlinks := lk'\<rparr>)"
      "sched_rel H (Q(h := [], ReadyQ := Q ReadyQ @ n # ns)) ((wake (n # ns) s)\<lparr>qlinks := lk'\<rparr>)"
      using nx lk(1) by (simp_all add: unblock_all.simps [of h s])
    then show ?case by blast
  qed
  then show thesis using that by blast
qed

section \<open>Waking sleepers\<close>

text \<open>The sleepers that stay and those that wake, when the \<open>i\<close>-th is compared with reading \<open>t + i\<close>.\<close>

fun sleepers :: "(node \<Rightarrow> u64) \<Rightarrow> (nat \<Rightarrow> u64) \<Rightarrow> nat \<Rightarrow> node list \<Rightarrow> node list \<times> node list" where
  "sleepers w c t [] = ([], [])"
| "sleepers w c t (n # ns) = (let (stay, up) = sleepers w c (Suc t) ns in
     if w n \<le> c t then (stay, n # up) else (n # stay, up))"

fun node_wakeup :: "'a kst_scheme \<Rightarrow> node \<Rightarrow> u64" where
  "node_wakeup s (PcbNode p) = wakeup_time (pcbs s p)"
| "node_wakeup s _ = 0"

lemma sleepers_subset:
  "set (fst (sleepers w c t ns)) \<subseteq> set ns" "set (snd (sleepers w c t ns)) \<subseteq> set ns"
  by (induction ns arbitrary: t) (auto simp: case_prod_beta Let_def)

lemma sleepers_part:
  assumes "distinct ns"
  shows "fst (sleepers w c t ns) = filter (\<lambda>n. n \<notin> set (snd (sleepers w c t ns))) ns \<and>
    snd (sleepers w c t ns) = filter (\<lambda>n. n \<in> set (snd (sleepers w c t ns))) ns"
  using assms
proof (induction ns arbitrary: t)
  case (Cons n ns)
  have "filter (\<lambda>m. m \<notin> insert n A) ns = filter (\<lambda>m. m \<notin> A) ns"
    "filter (\<lambda>m. m \<in> insert n A) ns = filter (\<lambda>m. m \<in> A) ns" for A
    using Cons.prems by (intro filter_cong; auto)+
  then show ?case
    using Cons.IH [of "Suc t"] Cons.prems sleepers_subset [of w c "Suc t" ns]
    by (auto simp: case_prod_beta Let_def)
qed simp

lemma sleep_loop_spec:
  assumes "sched_rel H Q s" "Q SleepQ = js @ ns"
    and "sleepers (node_wakeup s) (clk s) (clk_reads s) ns = (stay, up)"
  shows "\<exists>lk. sleep_loop (hd (ns @ [SleepQ])) s =
      Some ((wake up s)\<lparr>qlinks := lk, clk_reads := clk_reads s + length ns\<rparr>) \<and>
    sched_rel H (Q(SleepQ := js @ stay, ReadyQ := Q ReadyQ @ up))
      ((wake up s)\<lparr>qlinks := lk, clk_reads := clk_reads s + length ns\<rparr>)"
  using assms
proof (induction ns arbitrary: Q s js stay up)
  case Nil
  have eq: "Q(SleepQ := js, ReadyQ := Q ReadyQ) = Q" "stay = []" "up = []" using Nil.prems by auto
  have "sched_rel H (Q(SleepQ := js @ stay, ReadyQ := Q ReadyQ @ up)) s"
    unfolding eq append_Nil2 using Nil by simp
  moreover have "sleep_loop (hd ([] @ [SleepQ])) s = Some s" by (simp add: sleep_loop.simps)
  moreover have "(wake up s)\<lparr>qlinks := qlinks s, clk_reads := clk_reads s + length []\<rparr> = s"
    using eq(3) by simp
  ultimately show ?case by metis
next
  case (Cons n ns)
  note rel = Cons.prems(1)
  have d: "dll (qlinks s) SleepQ (js @ n # ns)"
    using queues_dll [OF sched_relD(1,3) [OF rel]] Cons.prems(2) by simp
  then have nx: "nxt (qlinks s) n = Some (hd (ns @ [SleepQ]))" "n \<noteq> SleepQ" "n \<notin> set ns" "n \<notin> set js"
    using dll_next_mem [OF d] by (auto simp: dll_def)
  have nS: "n \<in> set (Q SleepQ)" using Cons.prems(2) by simp
  obtain i where i: "n = PcbNode (Pcb i)"
    using node_okD [OF sched_relD(5) [OF rel sched_relD(3) [OF rel] nS]] .
  obtain st' up' where su: "sleepers (node_wakeup s) (clk s) (Suc (clk_reads s)) ns = (st', up')"
    by fastforce
  define s1 where "s1 = s\<lparr>clk_reads := Suc (clk_reads s)\<rparr>"
  have s1: "sched_rel H Q s1" "clk s1 = clk s" "clk_reads s1 = Suc (clk_reads s)"
    using sched_rel_cong [OF rel, of s1] by (simp_all add: s1_def)
  have step: "sleep_loop n s = (if node_wakeup s n \<le> clk s (clk_reads s)
      then Option.bind (do_unblock n s1) (sleep_loop (hd (ns @ [SleepQ])))
      else sleep_loop (hd (ns @ [SleepQ])) s1)"
    using nx i by (subst sleep_loop.simps) (simp add: get_timer_def s1_def)
  show ?case
  proof (cases "node_wakeup s n \<le> clk s (clk_reads s)")
    case True
    obtain lk where lk: "do_unblock n s1 = Some ((wake [n] s1)\<lparr>qlinks := lk\<rparr>)"
      "sched_rel H (Q(SleepQ := js @ ns, ReadyQ := Q ReadyQ @ [n])) ((wake [n] s1)\<lparr>qlinks := lk\<rparr>)"
      using do_unblock_spec [OF s1(1) sched_relD(3) [OF rel] _ nS] Cons.prems(2) nx
      by (auto simp: remove1_append)
    let ?s = "(wake [n] s1)\<lparr>qlinks := lk\<rparr>" and ?Q = "Q(SleepQ := js @ ns, ReadyQ := Q ReadyQ @ [n])"
    have "sleepers (node_wakeup ?s) (clk ?s) (clk_reads ?s) ns = (st', up')"
    proof -
      have "node_wakeup ?s x = node_wakeup s x" for x by (cases x) (auto simp: s1_def)
      then have "node_wakeup ?s = node_wakeup s" by (rule ext)
      then show ?thesis using su s1 by simp
    qed
    moreover have "?Q SleepQ = js @ ns" by simp
    ultimately obtain lk' where lk':
      "sleep_loop (hd (ns @ [SleepQ])) ?s = Some ((wake up' ?s)\<lparr>qlinks := lk', clk_reads := clk_reads ?s + length ns\<rparr>)"
      "sched_rel H (?Q(SleepQ := js @ st', ReadyQ := ?Q ReadyQ @ up'))
         ((wake up' ?s)\<lparr>qlinks := lk', clk_reads := clk_reads ?s + length ns\<rparr>)"
      using Cons.IH [OF lk(2)] by blast
    have eq: "?Q(SleepQ := js @ st', ReadyQ := ?Q ReadyQ @ up') = Q(SleepQ := js @ stay, ReadyQ := Q ReadyQ @ up)"
      "up = n # up'"
      using True su Cons.prems(3) by auto
    have e: "(wake up' ?s)\<lparr>qlinks := lk', clk_reads := clk_reads ?s + length ns\<rparr> =
        (wake up s)\<lparr>qlinks := lk', clk_reads := clk_reads s + length (n # ns)\<rparr>"
      by (simp add: s1_def eq(2))
    have "sleep_loop (hd ((n # ns) @ [SleepQ])) s = sleep_loop (hd (ns @ [SleepQ])) ?s"
      using step True lk(1) by simp
    then show ?thesis using lk' unfolding e eq(1) by metis
  next
    case False
    have "sleepers (node_wakeup s1) (clk s1) (clk_reads s1) ns = (st', up')"
    proof -
      have "node_wakeup s1 x = node_wakeup s x" for x by (cases x) (auto simp: s1_def)
      then have "node_wakeup s1 = node_wakeup s" by (rule ext)
      then show ?thesis using su s1 by simp
    qed
    moreover have "Q SleepQ = (js @ [n]) @ ns" using Cons.prems(2) by simp
    ultimately obtain lk' where lk':
      "sleep_loop (hd (ns @ [SleepQ])) s1 = Some ((wake up' s1)\<lparr>qlinks := lk', clk_reads := clk_reads s1 + length ns\<rparr>)"
      "sched_rel H (Q(SleepQ := (js @ [n]) @ st', ReadyQ := Q ReadyQ @ up'))
         ((wake up' s1)\<lparr>qlinks := lk', clk_reads := clk_reads s1 + length ns\<rparr>)"
      using Cons.IH [OF s1(1)] by blast
    have eq: "(js @ [n]) @ st' = js @ stay" "up' = up" using False su Cons.prems(3) by auto
    have e: "(wake up' s1)\<lparr>qlinks := lk', clk_reads := clk_reads s1 + length ns\<rparr> =
        (wake up s)\<lparr>qlinks := lk', clk_reads := clk_reads s + length (n # ns)\<rparr>"
      by (simp add: s1_def eq(2))
    have "sleep_loop (hd ((n # ns) @ [SleepQ])) s = sleep_loop (hd (ns @ [SleepQ])) s1"
      using step False by simp
    then show ?thesis using lk' unfolding e eq(1) unfolding eq(2) by metis
  qed
qed

lemma check_sleeping_spec:
  assumes "sched_rel H Q s" "sleepers (node_wakeup s) (clk s) (clk_reads s) (Q SleepQ) = (stay, up)"
  obtains lk k where "check_sleeping s = Some ((wake up s)\<lparr>qlinks := lk, clk_reads := k\<rparr>)"
    "sched_rel H (Q(SleepQ := stay, ReadyQ := Q ReadyQ @ up)) ((wake up s)\<lparr>qlinks := lk, clk_reads := k\<rparr>)"
proof -
  have "nxt (qlinks s) SleepQ = Some (hd (Q SleepQ @ [SleepQ]))"
    using dll_first [OF queues_dll [OF sched_relD(1,3) [OF assms(1)]]] .
  then show thesis
    using that sleep_loop_spec [OF assms(1), of "[]" "Q SleepQ"] assms(2) by (auto simp: check_sleeping_def)
qed

section \<open>Choosing the next process\<close>

fun elig :: "'a kst_scheme \<Rightarrow> node \<Rightarrow> bool" where
  "elig s (PcbNode p) \<longleftrightarrow> mask_has (cpu_mask (pcbs s p)) (hart s)"
| "elig s _ \<longleftrightarrow> False"

text \<open>The state after process \<open>p\<close> was taken from the ready queue and made current.\<close>

definition dispatch :: "pcbref \<Rightarrow> 'a kst_scheme \<Rightarrow> 'a kst_scheme" where
  "dispatch p s = upd_pcb p (\<lambda>b. b\<lparr>status := TASK_RUNNING, current_cpu_id := word_of_nat (hart s)\<rparr>)
     (set_current p s)"

lemma dispatch_simps [simp]:
  "pcbs (dispatch p s) = (pcbs s)(p := (pcbs s p)\<lparr>status := TASK_RUNNING, current_cpu_id := word_of_nat (hart s)\<rparr>)"
  "qlinks (dispatch p s) = qlinks s" "cur (dispatch p s) = (cur s)(hart s := p)" "hart (dispatch p s) = hart s"
  "clk (dispatch p s) = clk s" "clk_reads (dispatch p s) = clk_reads s" "tty (dispatch p s) = tty s"
  "kst.more (dispatch p s) = kst.more s" "current_running (dispatch p s) = p"
  by (simp_all add: dispatch_def)

lemma add_readyqueue_spec:
  assumes rel: "sched_rel H Q s" and i: "i < NUM_MAX_TASK" and uq: "unqueued H Q (PcbNode (Pcb i))"
  obtains lk where "add_readyqueue (Pcb i) s = Some ((wake [PcbNode (Pcb i)] s)\<lparr>qlinks := lk\<rparr>)"
    "sched_rel H (Q(ReadyQ := Q ReadyQ @ [PcbNode (Pcb i)])) ((wake [PcbNode (Pcb i)] s)\<lparr>qlinks := lk\<rparr>)"
proof -
  let ?n = "PcbNode (Pcb i)"
  note R = sched_relD(2) [OF rel]
  obtain lk where lk: "enq_tail ?n ReadyQ (qlinks s) = Some lk" "queues H (Q(ReadyQ := Q ReadyQ @ [?n])) lk"
    using sq.queues_enq [OF sched_relD(1,2) [OF rel] uq] .
  have "sched_rel H (Q(ReadyQ := Q ReadyQ @ [?n])) ((wake [?n] s)\<lparr>qlinks := lk\<rparr>)"
  proof (rule sched_relI [OF rel])
    fix g n assume g: "g \<in> H" and n: "n \<in> set ((Q(ReadyQ := Q ReadyQ @ [?n])) g)"
    show "node_ok (\<lambda>p. status (pcbs ((wake [?n] s)\<lparr>qlinks := lk\<rparr>) p)) g n"
    proof (cases "n = ?n")
      case True
      then have "g = ReadyQ" using n uq g by (auto simp: unqueued_def split: if_splits)
      then show ?thesis using True i by simp
    next
      case False
      then have "n \<in> set (Q g)" using n by (auto split: if_splits)
      then show ?thesis using False by (intro node_ok_cong [OF sched_relD(5) [OF rel g]]) auto
    qed
  qed (use lk sched_relD(6-8) [OF rel] R in \<open>auto simp: unqueued_append\<close>)
  then show thesis using that [of lk] lk by (simp add: add_readyqueue_def upd_pcb_ready)
qed

lemma dispatch_spec:
  assumes rel: "sched_rel H Q s" and n: "PcbNode p \<in> set (Q ReadyQ)"
  obtains lk where "remove_readyqueue p (set_current p s) = Some ((set_current p s)\<lparr>qlinks := lk\<rparr>)"
    "sched_rel H (Q(ReadyQ := remove1 (PcbNode p) (Q ReadyQ))) ((dispatch p s)\<lparr>qlinks := lk\<rparr>)"
proof -
  note qs = sched_relD(1) [OF rel] and R = sched_relD(2) [OF rel]
  let ?Q = "Q(ReadyQ := remove1 (PcbNode p) (Q ReadyQ))"
  obtain lk where lk: "deq_node (PcbNode p) (qlinks s) = Some lk" "queues H ?Q lk" "unqueued H ?Q (PcbNode p)"
    using sq.queues_deq [OF qs R n] .
  obtain i where i: "p = Pcb i" using node_okD [OF sched_relD(5) [OF rel R n]] by auto
  have "sched_rel H ?Q ((dispatch p s)\<lparr>qlinks := lk\<rparr>)"
  proof (rule sched_relI [OF rel])
    fix g x assume g: "g \<in> H" and x: "x \<in> set (?Q g)"
    then have "x \<noteq> PcbNode p" using lk(3) by (auto simp: unqueued_def)
    moreover have "x \<in> set (Q g)"
      using x set_remove1_subset [of "PcbNode p" "Q ReadyQ"] by (auto split: if_splits)
    ultimately show "node_ok (\<lambda>q. status (pcbs ((dispatch p s)\<lparr>qlinks := lk\<rparr>) q)) g x"
      by (intro node_ok_cong [OF sched_relD(5) [OF rel g]]) auto
  qed (use lk(2) i sched_relD(6-8) [OF rel] unqueued_remove [OF qs R n] in auto)
  then show thesis using that [of lk] lk(1) by (simp add: remove_readyqueue_def)
qed

lemma next_loop_spec:
  assumes rel: "sched_rel H Q s"
  shows "Q ReadyQ = js @ ns \<Longrightarrow> find (elig s) ns = None \<Longrightarrow> next_loop (hd (ns @ [ReadyQ])) s = Some (False, s)"
    and "Q ReadyQ = js @ ns \<Longrightarrow> find (elig s) ns = Some (PcbNode p) \<Longrightarrow>
      \<exists>lk. next_loop (hd (ns @ [ReadyQ])) s = Some (True, (dispatch p s)\<lparr>qlinks := lk\<rparr>) \<and>
        sched_rel H (Q(ReadyQ := remove1 (PcbNode p) (Q ReadyQ))) ((dispatch p s)\<lparr>qlinks := lk\<rparr>)"
proof (induction ns arbitrary: js)
  case Nil
  case 1
  then show ?case by (simp add: next_loop.simps)
next
  case Nil
  case 2
  then show ?case by simp
next
  case (Cons n ns)
  have nx: "nxt (qlinks s) n = Some (hd (ns @ [ReadyQ]))" "n \<noteq> ReadyQ" "\<exists>i. n = PcbNode (Pcb i)"
    if "Q ReadyQ = js @ n # ns" for js
  proof -
    have d: "dll (qlinks s) ReadyQ (js @ n # ns)"
      using queues_dll [OF sched_relD(1,2) [OF rel]] that by simp
    then show "nxt (qlinks s) n = Some (hd (ns @ [ReadyQ]))" "n \<noteq> ReadyQ"
      using dll_next_mem [OF d] by (auto simp: dll_def)
    show "\<exists>i. n = PcbNode (Pcb i)"
      using node_okD [OF sched_relD(5) [OF rel sched_relD(2) [OF rel], of n]] that by auto
  qed
  have skip: "next_loop n s = next_loop (hd (ns @ [ReadyQ])) s" if "Q ReadyQ = js @ n # ns" "\<not> elig s n" for js
    using nx [OF that(1)] that(2) by (subst next_loop.simps) auto
  {
    case 1
    then show ?case using skip Cons.IH(1) [of "js @ [n]"] by (auto split: if_splits)
  }
  case 2
  show ?case
  proof (cases "elig s n")
    case True
    then have n: "n = PcbNode p" "PcbNode p \<in> set (Q ReadyQ)" using 2 by auto
    obtain lk where lk: "remove_readyqueue p (set_current p s) = Some ((set_current p s)\<lparr>qlinks := lk\<rparr>)"
      "sched_rel H (Q(ReadyQ := remove1 (PcbNode p) (Q ReadyQ))) ((dispatch p s)\<lparr>qlinks := lk\<rparr>)"
      using dispatch_spec [OF rel n(2)] .
    then have "next_loop n s = Some (True, (dispatch p s)\<lparr>qlinks := lk\<rparr>)"
      using True nx(2) 2(1) n by (subst next_loop.simps) (simp add: dispatch_def)
    moreover have "hd ((n # ns) @ [ReadyQ]) = n" by simp
    ultimately show ?thesis using lk(2) by metis
  next
    case False
    then show ?thesis using skip 2 Cons.IH(2) [of "js @ [n]"] by simp
  qed
qed

text \<open>Every queued node is a PCB node, so a search finds a PCB node or nothing.\<close>

lemma find_ready_cases:
  assumes "\<forall>n \<in> set ns. \<exists>i < NUM_MAX_TASK. n = PcbNode (Pcb i)"
  obtains "find P ns = None"
  | i where "find P ns = Some (PcbNode (Pcb i))" "PcbNode (Pcb i) \<in> set ns" "P (PcbNode (Pcb i))"
      "i < NUM_MAX_TASK"
proof (cases "find P ns")
  case (Some n)
  then have "n \<in> set ns" "P n" by (auto simp: find_Some_iff)
  then show ?thesis using that(2) Some assms by auto
qed (use that(1) in simp)

text \<open>The ready queue the scheduler searches: the woken sleepers and then the preempted process go to its end.\<close>

definition run_list :: "(node \<Rightarrow> node list) \<Rightarrow> 'a kst_scheme \<Rightarrow> node list" where
  "run_list Q s = Q ReadyQ @ snd (sleepers (node_wakeup s) (clk s) (clk_reads s) (Q SleepQ)) @
     (if status (pcbs s (current_running s)) = TASK_RUNNING then [PcbNode (current_running s)] else [])"

definition still_asleep :: "(node \<Rightarrow> node list) \<Rightarrow> 'a kst_scheme \<Rightarrow> node list" where
  "still_asleep Q s = fst (sleepers (node_wakeup s) (clk s) (clk_reads s) (Q SleepQ))"

definition idle_pcb :: "nat \<Rightarrow> pcbref" where
  "idle_pcb h = (if h = 0 then MasterPid0 else SlavePid0)"

text \<open>What the scheduler leaves untouched: everything but the status, the core and the cursor of PCBs.\<close>

definition same_procs :: "'a kst_scheme \<Rightarrow> 'a kst_scheme \<Rightarrow> bool" where
  "same_procs s s' \<longleftrightarrow> hart s' = hart s \<and> clk s' = clk s \<and> kst.more s' = kst.more s \<and>
     (\<forall>p. (pcbs s' p)\<lparr>status := TASK_READY, current_cpu_id := 0, cursor_x := 0, cursor_y := 0\<rparr> =
          (pcbs s p)\<lparr>status := TASK_READY, current_cpu_id := 0, cursor_x := 0, cursor_y := 0\<rparr>)"

lemma same_procs_trans: "same_procs s s' \<Longrightarrow> same_procs s' s'' \<Longrightarrow> same_procs s s''"
  by (simp add: same_procs_def)

lemma same_procs_wake [simp]:
  "same_procs s ((wake ns s)\<lparr>qlinks := lk, clk_reads := k\<rparr>)" "same_procs s ((wake ns s)\<lparr>qlinks := lk\<rparr>)"
  by (simp_all add: same_procs_def)

lemma same_procs_dispatch [simp]: "same_procs s ((dispatch p s)\<lparr>qlinks := lk\<rparr>)"
  by (simp add: same_procs_def)

lemma same_procsD:
  assumes "same_procs s s'"
  shows "hart s' = hart s" "kst.more s' = kst.more s" "pid (pcbs s' p) = pid (pcbs s p)"
    "cpu_mask (pcbs s' p) = cpu_mask (pcbs s p)" "wakeup_time (pcbs s' p) = wakeup_time (pcbs s p)"
proof -
  let ?n = "\<lambda>b :: pcb_t. b\<lparr>status := TASK_READY, current_cpu_id := 0, cursor_x := 0, cursor_y := 0\<rparr>"
  have "?n (pcbs s' p) = ?n (pcbs s p)" using assms by (simp add: same_procs_def)
  then have "pid (?n (pcbs s' p)) = pid (?n (pcbs s p))" "cpu_mask (?n (pcbs s' p)) = cpu_mask (?n (pcbs s p))"
    "wakeup_time (?n (pcbs s' p)) = wakeup_time (?n (pcbs s p))" by simp_all
  then show "pid (pcbs s' p) = pid (pcbs s p)" "cpu_mask (pcbs s' p) = cpu_mask (pcbs s p)"
    "wakeup_time (pcbs s' p) = wakeup_time (pcbs s p)" by simp_all
qed (use assms in \<open>auto simp: same_procs_def\<close>)

lemma same_procs_elig: "same_procs s s' \<Longrightarrow> elig s' n = elig s n"
  by (cases n) (simp_all add: same_procsD)

lemma run_list_nodes:
  assumes "sched_rel H Q s" "\<forall>i. current_running s = Pcb i \<longrightarrow> i < NUM_MAX_TASK"
  shows "\<forall>n \<in> set (run_list Q s). \<exists>j < NUM_MAX_TASK. n = PcbNode (Pcb j)"
proof -
  have q: "\<exists>j < NUM_MAX_TASK. n = PcbNode (Pcb j)" if "h \<in> H" "n \<in> set (Q h)" for h n
    using node_okD [OF sched_relD(5) [OF assms(1) that]] by blast
  note subsetD [OF sleepers_subset(2) [of "node_wakeup s" "clk s" "clk_reads s" "Q SleepQ"]]
  then have "\<exists>j < NUM_MAX_TASK. n = PcbNode (Pcb j)"
    if "n \<in> set (snd (sleepers (node_wakeup s) (clk s) (clk_reads s) (Q SleepQ)))" for n
    using that q [OF sched_relD(3) [OF assms(1)]] by blast
  moreover have "\<exists>j < NUM_MAX_TASK. PcbNode (current_running s) = PcbNode (Pcb j)"
    if "status (pcbs s (current_running s)) = TASK_RUNNING"
    using that assms sched_relD(7,8) [OF assms(1)] by (cases "current_running s") auto
  ultimately show ?thesis
    using q [OF sched_relD(2) [OF assms(1)]] by (auto simp: run_list_def split: if_splits)
qed

text \<open>The effect of one scheduling decision, on the queues and on the current processes.\<close>

definition status_step :: "'a kst_scheme \<Rightarrow> 'a kst_scheme \<Rightarrow> bool" where
  "status_step s s' \<longleftrightarrow> (\<forall>q.
     (status (pcbs s' q) = TASK_EXITED \<longleftrightarrow> status (pcbs s q) = TASK_EXITED) \<and>
     (status (pcbs s' q) = TASK_RUNNING \<longrightarrow>
        q = current_running s' \<or> status (pcbs s q) = TASK_RUNNING \<and> q \<noteq> current_running s))"

definition pick_post ::
  "node set \<Rightarrow> (node \<Rightarrow> node list) \<Rightarrow> node list \<Rightarrow> 'a kst_scheme \<Rightarrow> bool \<Rightarrow> 'a kst_scheme \<Rightarrow> bool" where
  "pick_post H Q R s ok s' \<longleftrightarrow> same_procs s s' \<and> (case find (elig s) R of
       Some (PcbNode p) \<Rightarrow> ok \<and> cur s' = (cur s)(hart s := p) \<and> status (pcbs s' p) = TASK_RUNNING \<and>
         sched_rel H (Q(ReadyQ := remove1 (PcbNode p) R)) s' \<and> status_step s s'
     | _ \<Rightarrow> \<not> ok \<and> sched_rel H (Q(ReadyQ := R)) s' \<and>
         (\<forall>x. status_step s (set_current x s')) \<and> cur s' = cur s)"

lemma next_loop_post:
  assumes rel: "sched_rel H Q s" and cr: "\<forall>i. current_running s = Pcb i \<longrightarrow> i < NUM_MAX_TASK"
    and st: "status (pcbs s (current_running s)) \<noteq> TASK_RUNNING"
  shows "\<exists>ok s'. next_loop (hd (Q ReadyQ @ [ReadyQ])) s = Some (ok, s') \<and> pick_post H Q (Q ReadyQ) s ok s'"
proof -
  have "\<forall>n \<in> set (Q ReadyQ). \<exists>i < NUM_MAX_TASK. n = PcbNode (Pcb i)"
    using run_list_nodes [OF rel cr] by (auto simp: run_list_def)
  then show ?thesis
  proof (cases rule: find_ready_cases [where P = "elig s"])
    case 1
    have "next_loop (hd (Q ReadyQ @ [ReadyQ])) s = Some (False, s)"
      using next_loop_spec(1) [OF rel, of "[]" "Q ReadyQ"] 1 by simp
    moreover have "pick_post H Q (Q ReadyQ) s False s"
      using 1 rel st by (auto simp: pick_post_def same_procs_def status_step_def)
    ultimately show ?thesis by blast
  next
    case (2 i)
    obtain lk where lk:
      "next_loop (hd (Q ReadyQ @ [ReadyQ])) s = Some (True, (dispatch (Pcb i) s)\<lparr>qlinks := lk\<rparr>)"
      "sched_rel H (Q(ReadyQ := remove1 (PcbNode (Pcb i)) (Q ReadyQ))) ((dispatch (Pcb i) s)\<lparr>qlinks := lk\<rparr>)"
      using next_loop_spec(2) [OF rel, of "[]" "Q ReadyQ" "Pcb i"] 2(1) by auto
    have "status (pcbs s (Pcb i)) = TASK_READY"
      using queued_status [OF rel sched_relD(2) [OF rel] 2(2)] by simp
    then have "status_step s ((dispatch (Pcb i) s)\<lparr>qlinks := lk\<rparr>)"
      using st by (auto simp: status_step_def current_running_def)
    then have "pick_post H Q (Q ReadyQ) s True ((dispatch (Pcb i) s)\<lparr>qlinks := lk\<rparr>)"
      using 2(1) lk(2) by (simp add: pick_post_def)
    then show ?thesis using lk(1) by blast
  qed
qed

text \<open>A pick that follows the wake-up of live PCBs.\<close>

lemma pick_post_wake:
  assumes "pick_post H Q1 R s1 ok s'" "s1 = (wake ns s)\<lparr>qlinks := lk, clk_reads := k\<rparr>"
    and "\<And>p. PcbNode p \<in> set ns \<Longrightarrow> status (pcbs s p) \<noteq> TASK_EXITED"
    and "\<And>X. Q1(ReadyQ := X) = Q2(ReadyQ := X)"
  shows "pick_post H Q2 R s ok s'"
proof -
  have cr: "current_running s1 = current_running s" "cur s1 = cur s" "hart s1 = hart s"
    by (simp_all add: assms(2) current_running_def)
  have sp: "same_procs s s1" by (simp add: assms(2))
  have e: "elig s1 = elig s" using same_procs_elig [OF sp] by (intro ext)
  have ss: "status_step s x" if "status_step s1 x" for x
    unfolding status_step_def
  proof
    fix q
    have "status (pcbs s1 q) = TASK_EXITED \<longleftrightarrow> status (pcbs s q) = TASK_EXITED"
      "status (pcbs s1 q) = TASK_RUNNING \<longrightarrow> status (pcbs s q) = TASK_RUNNING"
      using assms(3) by (auto simp: assms(2))
    then show "(status (pcbs x q) = TASK_EXITED \<longleftrightarrow> status (pcbs s q) = TASK_EXITED) \<and>
       (status (pcbs x q) = TASK_RUNNING \<longrightarrow>
          q = current_running x \<or> status (pcbs s q) = TASK_RUNNING \<and> q \<noteq> current_running s)"
      using that cr unfolding status_step_def by auto
  qed
  have sp': "same_procs s s'" using assms(1) same_procs_trans [OF sp] by (simp add: pick_post_def)
  show ?thesis
  proof (cases "find (elig s) R")
    case None
    then show ?thesis using assms(1) sp' ss cr by (simp add: pick_post_def e assms(4))
  next
    case (Some n)
    then show ?thesis using assms(1) sp' ss cr
      by (cases n) (simp_all add: pick_post_def e assms(4))
  qed
qed

lemma get_next_running_post:
  assumes rel: "sched_rel H Q s" and cr: "\<forall>i. current_running s = Pcb i \<longrightarrow> i < NUM_MAX_TASK"
  defines "R \<equiv> Q ReadyQ @ (if status (pcbs s (current_running s)) = TASK_RUNNING
      then [PcbNode (current_running s)] else [])"
  shows "\<exists>ok s'. get_next_running s = Some (ok, s') \<and> pick_post H Q R s ok s'"
proof (cases "status (pcbs s (current_running s)) = TASK_RUNNING")
  case False
  have "nxt (qlinks s) ReadyQ = Some (hd (Q ReadyQ @ [ReadyQ]))"
    using dll_first [OF queues_dll [OF sched_relD(1,2) [OF rel]]] .
  then show ?thesis using next_loop_post [OF rel cr False] False by (simp add: get_next_running_def R_def)
next
  case True
  then obtain i where i: "current_running s = Pcb i" "i < NUM_MAX_TASK"
    using cr sched_relD(7,8) [OF rel] by (cases "current_running s") auto
  let ?n = "PcbNode (Pcb i)"
  have uq: "unqueued H Q ?n" using running_unqueued [OF rel] True i by simp
  obtain lk where lk: "add_readyqueue (Pcb i) s = Some ((wake [?n] s)\<lparr>qlinks := lk\<rparr>)"
    "sched_rel H (Q(ReadyQ := Q ReadyQ @ [?n])) ((wake [?n] s)\<lparr>qlinks := lk\<rparr>)"
    using add_readyqueue_spec [OF rel i(2) uq] .
  let ?s1 = "(wake [?n] s)\<lparr>qlinks := lk\<rparr>" and ?Q1 = "Q(ReadyQ := Q ReadyQ @ [?n])"
  have c1: "current_running ?s1 = Pcb i" using i by (simp add: current_running_def)
  have nx: "nxt (qlinks ?s1) ReadyQ = Some (hd (?Q1 ReadyQ @ [ReadyQ]))"
    using dll_first [OF queues_dll [OF sched_relD(1,2) [OF lk(2)]]] .
  obtain ok s' where s': "next_loop (hd (?Q1 ReadyQ @ [ReadyQ])) ?s1 = Some (ok, s')"
    "pick_post H ?Q1 (?Q1 ReadyQ) ?s1 ok s'"
    using next_loop_post [OF lk(2)] c1 i(2) by auto
  have "pick_post H Q (?Q1 ReadyQ) s ok s'"
    by (rule pick_post_wake [OF s'(2), where ns = "[?n]" and s = s and lk = lk and k = "clk_reads s"]) (use True i in auto)
  moreover have "get_next_running s = Some (ok, s')"
    using True i lk(1) nx s'(1) by (simp add: get_next_running_def)
  ultimately show ?thesis using True i by (auto simp: R_def)
qed

definition sched_post :: "node set \<Rightarrow> (node \<Rightarrow> node list) \<Rightarrow> 'a kst_scheme \<Rightarrow> 'a kst_scheme \<Rightarrow> bool" where
  "sched_post H Q s s' \<longleftrightarrow> same_procs s s' \<and> status_step s s' \<and> (case find (elig s) (run_list Q s) of
       Some (PcbNode p) \<Rightarrow> cur s' = (cur s)(hart s := p) \<and> status (pcbs s' p) = TASK_RUNNING \<and>
         sched_rel H (Q(SleepQ := still_asleep Q s, ReadyQ := remove1 (PcbNode p) (run_list Q s))) s'
     | _ \<Rightarrow> cur s' = (cur s)(hart s := idle_pcb (hart s)) \<and>
         sched_rel H (Q(SleepQ := still_asleep Q s, ReadyQ := run_list Q s)) s')"

lemma screen_move_cursor_simps [simp]:
  "status (pcbs (screen_move_cursor x y s) p) = status (pcbs s p)"
  "qlinks (screen_move_cursor x y s) = qlinks s" "cur (screen_move_cursor x y s) = cur s"
  "current_running (screen_move_cursor x y s) = current_running s"
  by (simp_all add: screen_move_cursor_def Let_def current_running_def)

lemma same_procs_cursor: "same_procs s s' \<Longrightarrow> same_procs s (screen_move_cursor x y s')"
  by (auto simp: same_procs_def screen_move_cursor_def Let_def)

lemma do_scheduler_spec:
  assumes rel: "sched_rel H Q s" and cr: "\<forall>i. current_running s = Pcb i \<longrightarrow> i < NUM_MAX_TASK"
  obtains s' where "do_scheduler s = Some s'" "sched_post H Q s s'"
proof -
  obtain stay up where su: "sleepers (node_wakeup s) (clk s) (clk_reads s) (Q SleepQ) = (stay, up)"
    by fastforce
  have up: "PcbNode p \<in> set up \<Longrightarrow> status (pcbs s p) = TASK_BLOCKED" for p
    using sleepers_subset(2) [of "node_wakeup s" "clk s" "clk_reads s" "Q SleepQ"] su
      queued_status [OF rel sched_relD(3) [OF rel], of p] by auto
  let ?Q1 = "Q(SleepQ := stay, ReadyQ := Q ReadyQ @ up)" and ?Q2 = "Q(SleepQ := stay)"
  obtain lk k where s1: "check_sleeping s = Some ((wake up s)\<lparr>qlinks := lk, clk_reads := k\<rparr>)"
    "sched_rel H ?Q1 ((wake up s)\<lparr>qlinks := lk, clk_reads := k\<rparr>)"
    using check_sleeping_spec [OF rel su] .
  let ?s1 = "(wake up s)\<lparr>qlinks := lk, clk_reads := k\<rparr>"
  have c1: "current_running ?s1 = current_running s" by (simp add: current_running_def)
  define R where "R = ?Q1 ReadyQ @ (if status (pcbs ?s1 (current_running ?s1)) = TASK_RUNNING
      then [PcbNode (current_running ?s1)] else [])"
  obtain ok s2 where s2: "get_next_running ?s1 = Some (ok, s2)" "pick_post H ?Q1 R ?s1 ok s2"
    using get_next_running_post [OF s1(2)] cr c1 unfolding R_def by metis
  have R: "R = run_list Q s" "stay = still_asleep Q s"
    using up [of "current_running s"] su by (auto simp: R_def run_list_def still_asleep_def c1)
  have pp: "pick_post H ?Q2 (run_list Q s) s ok s2"
    by (rule pick_post_wake [OF s2(2) [unfolded R(1)], where ns = up and s = s and lk = lk and k = k]) (use up in auto)
  define s3 where "s3 = (if ok
    then screen_move_cursor (cursor_x (pcbs s2 (current_running s2))) (cursor_y (pcbs s2 (current_running s2))) s2
    else set_current (idle_pcb (hart s2)) s2)"
  have "do_scheduler s = Some s3"
    using s1(1) s2(1) by (simp add: do_scheduler_def s3_def idle_pcb_def)
  moreover have "sched_post H Q s s3"
  proof -
    have sp: "same_procs s s2" using pp by (simp add: pick_post_def)
    then have h: "hart s2 = hart s" by (rule same_procsD)
    have "same_procs s s3" using sp by (auto simp: s3_def same_procs_cursor) (auto simp: same_procs_def)
    moreover have "\<exists>i < NUM_MAX_TASK. n = PcbNode (Pcb i)" if "find (elig s) (run_list Q s) = Some n" for n
      using that run_list_nodes [OF rel cr] by (auto simp: find_Some_iff)
    ultimately show ?thesis
      using pp h sched_rel_cong [of H _ s2 s3] unfolding R(2)
      by (cases "find (elig s) (run_list Q s)")
        (force simp: pick_post_def sched_post_def s3_def status_step_def)+
  qed
  ultimately show thesis using that by blast
qed

section \<open>The scheduler as a state machine\<close>

text \<open>
  \<open>run_ok H Q s\<close>: a process current on another hart is in no queue, no process is current on two
  harts, and a RUNNING process is current on some hart. The process of the hart that executes the
  kernel may be in a queue (it has just blocked); in \<open>rest_inv\<close> it is not.
\<close>

definition run_ok :: "node set \<Rightarrow> (node \<Rightarrow> node list) \<Rightarrow> 'a kst_scheme \<Rightarrow> bool" where
  "run_ok H Q s \<longleftrightarrow>
     (\<forall>h i. cur s h = Pcb i \<longrightarrow> i < NUM_MAX_TASK \<and> (h \<noteq> hart s \<longrightarrow> unqueued H Q (PcbNode (Pcb i)))) \<and>
     (\<forall>h h' i. cur s h = Pcb i \<longrightarrow> cur s h' = Pcb i \<longrightarrow> h = h') \<and>
     (\<forall>p. status (pcbs s p) = TASK_RUNNING \<longrightarrow> (\<exists>h. cur s h = p))"

definition rest_inv :: "node set \<Rightarrow> 'a kst_scheme \<Rightarrow> bool" where
  "rest_inv H s \<longleftrightarrow> (\<exists>Q. sched_rel H Q s \<and> run_ok H Q s \<and>
     (\<forall>i. current_running s = Pcb i \<longrightarrow> unqueued H Q (PcbNode (Pcb i))))"

text \<open>
  The moves of the kernel as far as processes are concerned: another hart enters the kernel, the
  current process yields (also the timer interrupt), sleeps, or waits in some queue, and all
  processes waiting in a queue are woken. The locks, barriers, condition variables and mailboxes
  are made of these.
\<close>

inductive sched_step :: "node set \<Rightarrow> 'a kst_scheme \<Rightarrow> 'a kst_scheme \<Rightarrow> bool" for H where
  enter: "sched_step H s (s\<lparr>hart := h\<rparr>)"
| yield: "do_scheduler s = Some s' \<Longrightarrow> sched_step H s s'"
| sleep: "current_running s = Pcb i \<Longrightarrow> do_sleep t s = Some s' \<Longrightarrow> sched_step H s s'"
| wait: "current_running s = Pcb i \<Longrightarrow> q \<in> H \<Longrightarrow> q \<noteq> ReadyQ \<Longrightarrow>
    do_block (PcbNode (Pcb i)) q s = Some s1 \<Longrightarrow> do_scheduler s1 = Some s' \<Longrightarrow> sched_step H s s'"
| wake_up: "q \<in> H \<Longrightarrow> q \<noteq> ReadyQ \<Longrightarrow> unblock_all q s = Some s' \<Longrightarrow> sched_step H s s'"

lemma run_list_mem:
  assumes "n \<in> set (run_list Q s)"
  shows "n \<in> set (Q ReadyQ) \<or> n \<in> set (Q SleepQ) \<or> n = PcbNode (current_running s)"
  using assms sleepers_subset(2) [of "node_wakeup s" "clk s" "clk_reads s" "Q SleepQ"]
  by (auto simp: run_list_def split: if_splits)

lemma still_asleep_mem: "n \<in> set (still_asleep Q s) \<Longrightarrow> n \<in> set (Q SleepQ)"
  using sleepers_subset(1) [of "node_wakeup s" "clk s" "clk_reads s" "Q SleepQ"]
  by (auto simp: still_asleep_def)

lemma sched_post_rest:
  assumes rel: "sched_rel H Q s" and run: "run_ok H Q s" and post: "sched_post H Q s s'"
  shows "rest_inv H s'"
proof -
  note R = sched_relD(2) [OF rel] and S = sched_relD(3) [OF rel]
  have hh: "hart s' = hart s" using post by (auto simp: sched_post_def dest: same_procsD(1))
  have cr: "\<forall>i. current_running s = Pcb i \<longrightarrow> i < NUM_MAX_TASK"
    using run by (auto simp: run_ok_def current_running_def)
  have other: "n \<notin> set (run_list Q s)" "n \<notin> set (still_asleep Q s)" "n \<notin> set (Q g)"
    if "cur s h = Pcb j" "h \<noteq> hart s" "n = PcbNode (Pcb j)" "g \<in> H" for h j n g
  proof -
    have uq: "unqueued H Q n" using that run by (auto simp: run_ok_def)
    have "Pcb j \<noteq> current_running s"
      using that(1,2) run unfolding run_ok_def current_running_def by metis
    with uq show "n \<notin> set (run_list Q s)" "n \<notin> set (still_asleep Q s)" "n \<notin> set (Q g)"
      using that(3,4) R S run_list_mem [of n Q s] still_asleep_mem [of n Q s] by (auto simp: unqueued_def)
  qed
  have runs: "\<exists>h. cur s' h = p" if "status (pcbs s' p) = TASK_RUNNING"
    "\<And>h. h \<noteq> hart s \<Longrightarrow> cur s' h = cur s h" for p
  proof -
    have "p = current_running s' \<or> status (pcbs s p) = TASK_RUNNING \<and> p \<noteq> current_running s"
      using post that(1) by (auto simp: sched_post_def status_step_def)
    then show ?thesis
    proof
      assume "status (pcbs s p) = TASK_RUNNING \<and> p \<noteq> current_running s"
      moreover from this obtain h where "cur s h = p" using run by (auto simp: run_ok_def)
      ultimately show ?thesis using that(2) by (metis current_running_def)
    qed (auto simp: current_running_def)
  qed
  show ?thesis
  proof (cases rule: find_ready_cases [OF run_list_nodes [OF rel cr], of "elig s"])
    case 1
    let ?Q = "Q(SleepQ := still_asleep Q s, ReadyQ := run_list Q s)"
    have post': "cur s' = (cur s)(hart s := idle_pcb (hart s))" "sched_rel H ?Q s'"
      using post 1 by (simp_all add: sched_post_def)
    have "unqueued H ?Q (PcbNode (Pcb j))" if "cur s' h = Pcb j" for h j
      using that other [of h j] sched_relD(4) [OF rel] post'(1)
      by (auto simp: unqueued_def idle_pcb_def split: if_splits)
    moreover have "run_ok H ?Q s'"
      using run runs post'(1) calculation unfolding run_ok_def
      by (auto simp: idle_pcb_def hh split: if_splits)
    ultimately show ?thesis using post'(2) by (auto simp: rest_inv_def current_running_def)
  next
    case (2 i)
    let ?Q = "Q(SleepQ := still_asleep Q s, ReadyQ := remove1 (PcbNode (Pcb i)) (run_list Q s))"
    have post': "cur s' = (cur s)(hart s := Pcb i)" "sched_rel H ?Q s'" "status (pcbs s' (Pcb i)) = TASK_RUNNING"
      using post 2(1) by (simp_all add: sched_post_def)
    have ne: "cur s h \<noteq> Pcb i" if "h \<noteq> hart s" for h
      using other(1) [of h i] that 2(2) R by auto
    have "unqueued H ?Q (PcbNode (Pcb j))" if "cur s' h = Pcb j" for h j
    proof (cases "h = hart s")
      case True
      then show ?thesis using that running_unqueued [OF post'(2,3)] post'(1) by simp
    next
      case False
      then show ?thesis
        using that other [of h j] sched_relD(4) [OF rel] post'(1)
          set_remove1_subset [of "PcbNode (Pcb i)" "run_list Q s"]
        by (auto simp: unqueued_def split: if_splits)
    qed
    moreover have "run_ok H ?Q s'"
      unfolding run_ok_def
    proof (intro conjI allI impI)
      fix h h' j assume "cur s' h = Pcb j" "cur s' h' = Pcb j"
      then show "h = h'" using run ne post'(1) by (auto simp: run_ok_def split: if_splits)
    qed (use run runs post'(1) calculation 2(4) in \<open>auto simp: run_ok_def split: if_splits\<close>)
    ultimately show ?thesis using post'(2) by (auto simp: rest_inv_def current_running_def)
  qed
qed

lemma sched_post_exists:
  assumes "sched_rel H Q s" "run_ok H Q s"
  obtains s' where "do_scheduler s = Some s'" "sched_post H Q s s'" "rest_inv H s'"
proof -
  have "\<forall>i. current_running s = Pcb i \<longrightarrow> i < NUM_MAX_TASK"
    using assms(2) by (auto simp: run_ok_def current_running_def)
  then obtain s' where "do_scheduler s = Some s'" "sched_post H Q s s'"
    using do_scheduler_spec [OF assms(1)] by metis
  then show thesis using that sched_post_rest [OF assms] by blast
qed

text \<open>Changing the status of the current process to BLOCKED while it enters a queue keeps \<open>run_ok\<close>.\<close>

lemma block_run_ok:
  assumes "run_ok H Q s" "current_running s = Pcb i" "q \<in> H"
  shows "run_ok H (Q(q := Q q @ [PcbNode (Pcb i)])) ((upd_pcb (Pcb i) (\<lambda>b. b\<lparr>status := TASK_BLOCKED\<rparr>) s)\<lparr>qlinks := lk\<rparr>)"
proof -
  have "h = hart s" if "cur s h = Pcb i" for h
    using that assms(1,2) unfolding run_ok_def current_running_def by metis
  then show ?thesis
    using assms(1,3) unfolding run_ok_def by (auto simp: unqueued_append)
qed

lemma run_ok_cong:
  assumes "run_ok H Q s" "cur s' = cur s" "hart s' = hart s" "\<And>p. status (pcbs s' p) = status (pcbs s p)"
  shows "run_ok H Q s'"
  using assms by (simp add: run_ok_def)

text \<open>Blocking the current process in a queue and scheduling, the common tail of all waits.\<close>

lemma block_schedule:
  assumes "sched_rel H Q s" "run_ok H Q s" "unqueued H Q (PcbNode (Pcb i))"
    and "current_running s = Pcb i" "q \<in> H" "q \<noteq> ReadyQ"
  obtains s1 s' where "do_block (PcbNode (Pcb i)) q s = Some s1" "do_scheduler s1 = Some s'"
    "sched_rel H (Q(q := Q q @ [PcbNode (Pcb i)])) s1" "sched_post H (Q(q := Q q @ [PcbNode (Pcb i)])) s1 s'"
    "rest_inv H s'" "same_procs s s1"
proof -
  have i: "i < NUM_MAX_TASK" using assms(2,4) by (auto simp: run_ok_def current_running_def)
  obtain lk where lk: "do_block (PcbNode (Pcb i)) q s =
      Some ((upd_pcb (Pcb i) (\<lambda>b. b\<lparr>status := TASK_BLOCKED\<rparr>) s)\<lparr>qlinks := lk\<rparr>)"
    "sched_rel H (Q(q := Q q @ [PcbNode (Pcb i)])) ((upd_pcb (Pcb i) (\<lambda>b. b\<lparr>status := TASK_BLOCKED\<rparr>) s)\<lparr>qlinks := lk\<rparr>)"
    using do_block_spec [OF assms(1,5,6) i assms(3)] .
  let ?s1 = "(upd_pcb (Pcb i) (\<lambda>b. b\<lparr>status := TASK_BLOCKED\<rparr>) s)\<lparr>qlinks := lk\<rparr>"
  have "same_procs s ?s1" by (simp add: same_procs_def)
  moreover obtain s' where "do_scheduler ?s1 = Some s'" "sched_post H (Q(q := Q q @ [PcbNode (Pcb i)])) ?s1 s'"
    "rest_inv H s'"
    using sched_post_exists [OF lk(2) block_run_ok [OF assms(2,4,5)]] .
  ultimately show thesis using that lk by blast
qed

lemma unblock_all_rest:
  assumes "rest_inv H s" "q \<in> H" "q \<noteq> ReadyQ"
  obtains s' where "unblock_all q s = Some s'" "rest_inv H s'"
proof -
  obtain Q where Q: "sched_rel H Q s" "run_ok H Q s"
    and cr: "\<forall>i. current_running s = Pcb i \<longrightarrow> unqueued H Q (PcbNode (Pcb i))"
    using assms(1) by (auto simp: rest_inv_def)
  let ?Q = "Q(q := [], ReadyQ := Q ReadyQ @ Q q)"
  obtain lk where lk: "unblock_all q s = Some ((wake (Q q) s)\<lparr>qlinks := lk\<rparr>)"
    "sched_rel H ?Q ((wake (Q q) s)\<lparr>qlinks := lk\<rparr>)"
    using unblock_all_spec [OF Q(1) assms(2,3)] .
  have uq: "unqueued H Q x \<Longrightarrow> unqueued H ?Q x" for x
    using assms(2) by (auto simp: unqueued_def)
  have "run_ok H ?Q ((wake (Q q) s)\<lparr>qlinks := lk\<rparr>)"
    using Q(2) uq unfolding run_ok_def by auto
  then have "rest_inv H ((wake (Q q) s)\<lparr>qlinks := lk\<rparr>)"
    unfolding rest_inv_def using lk(2) cr uq by (intro exI [of _ ?Q]) (simp add: current_running_def)
  then show thesis using that lk(1) by blast
qed

text \<open>\<open>do_sleep\<close> blocks the current process in the sleep queue with its wake-up time set.\<close>

lemma do_sleep_spec:
  assumes "sched_rel H Q s" "run_ok H Q s" "unqueued H Q (PcbNode (Pcb i))" "current_running s = Pcb i"
  obtains s1 s' where "do_sleep t s = Some s'" "rest_inv H s'"
    "sched_rel H (Q(SleepQ := Q SleepQ @ [PcbNode (Pcb i)])) s1"
    "wakeup_time (pcbs s1 (Pcb i)) = ucast t + clk s (clk_reads s)"
    "sched_post H (Q(SleepQ := Q SleepQ @ [PcbNode (Pcb i)])) s1 s'"
    "kst.more s1 = kst.more s" "\<And>p. pid (pcbs s1 p) = pid (pcbs s p)"
proof -
  define s0 where "s0 = upd_pcb (Pcb i) (\<lambda>b. b\<lparr>wakeup_time := ucast t + clk s (clk_reads s)\<rparr>)
    (s\<lparr>clk_reads := Suc (clk_reads s)\<rparr>)"
  have st: "status (pcbs s0 p) = status (pcbs s p)" for p by (simp add: s0_def)
  have c: "current_running s0 = Pcb i" using assms(4) by (simp add: s0_def)
  have rel: "sched_rel H Q s0" using sched_rel_cong [OF assms(1), of s0] st by (simp add: s0_def)
  have run: "run_ok H Q s0" using run_ok_cong [OF assms(2), of s0] st by (simp add: s0_def)
  obtain s1 s' where s1: "do_block (PcbNode (Pcb i)) SleepQ s0 = Some s1" "do_scheduler s1 = Some s'"
    "sched_rel H (Q(SleepQ := Q SleepQ @ [PcbNode (Pcb i)])) s1"
    "sched_post H (Q(SleepQ := Q SleepQ @ [PcbNode (Pcb i)])) s1 s'" "rest_inv H s'" "same_procs s0 s1"
    using block_schedule [OF rel run assms(3) c sched_relD(3) [OF rel]] by auto
  have "do_sleep t s = Some s'"
    using s1(1,2) assms(4) c by (simp add: do_sleep_def get_timer_def s0_def Let_def)
  moreover have "wakeup_time (pcbs s1 (Pcb i)) = ucast t + clk s (clk_reads s)"
    using same_procsD(5) [OF s1(6)] by (simp add: s0_def)
  moreover have "kst.more s1 = kst.more s" "pid (pcbs s1 p) = pid (pcbs s p)" for p
    using same_procsD(2,3) [OF s1(6)] by (simp_all add: s0_def)
  ultimately show thesis using that s1 by blast
qed

text \<open>The queues of a state are determined by its pointers.\<close>

lemma rest_inv_rel:
  assumes "rest_inv H s" "sched_rel H Q s"
  shows "run_ok H Q s" "current_running s = Pcb i \<Longrightarrow> unqueued H Q (PcbNode (Pcb i))"
proof -
  obtain Q' where Q': "sched_rel H Q' s" "run_ok H Q' s"
    "\<forall>i. current_running s = Pcb i \<longrightarrow> unqueued H Q' (PcbNode (Pcb i))"
    using assms(1) by (auto simp: rest_inv_def)
  have "Q h = Q' h" if "h \<in> H" for h
    by (rule dll_unique [OF queues_dll [OF sched_relD(1) [OF assms(2)] that]
          queues_dll [OF sched_relD(1) [OF Q'(1)] that]])
  then have "unqueued H Q x \<longleftrightarrow> unqueued H Q' x" for x by (auto simp: unqueued_def)
  then show "run_ok H Q s" "current_running s = Pcb i \<Longrightarrow> unqueued H Q (PcbNode (Pcb i))"
    using Q'(2,3) by (simp_all add: run_ok_def)
qed

lemma rest_inv_enter:
  assumes "rest_inv H s"
  shows "rest_inv H (s\<lparr>hart := h\<rparr>)"
proof -
  obtain Q where Q: "sched_rel H Q s" "run_ok H Q s"
    and cr: "\<forall>i. current_running s = Pcb i \<longrightarrow> unqueued H Q (PcbNode (Pcb i))"
    using assms by (auto simp: rest_inv_def)
  have all: "unqueued H Q (PcbNode (Pcb i))" if "cur s g = Pcb i" for g i
    using that Q(2) cr unfolding run_ok_def current_running_def by metis
  have "sched_rel H Q (s\<lparr>hart := h\<rparr>)" using sched_rel_cong [OF Q(1), of "s\<lparr>hart := h\<rparr>"] by simp
  moreover have "run_ok H Q (s\<lparr>hart := h\<rparr>)" using Q(2) all by (simp add: run_ok_def)
  ultimately show ?thesis using all unfolding rest_inv_def current_running_def by auto
qed

lemma sched_step_rest:
  assumes "sched_step H s s'" "rest_inv H s"
  shows "rest_inv H s'"
proof -
  obtain Q where Q: "sched_rel H Q s" "run_ok H Q s"
    and cr: "\<forall>i. current_running s = Pcb i \<longrightarrow> unqueued H Q (PcbNode (Pcb i))"
    using assms(2) by (auto simp: rest_inv_def)
  show ?thesis
    using assms(1)
  proof cases
    case (enter h)
    then show ?thesis using rest_inv_enter [OF assms(2)] by simp
  next
    case yield
    then show ?thesis using sched_post_exists [OF Q] by (metis option.inject)
  next
    case (sleep i t)
    then show ?thesis using do_sleep_spec [OF Q, of i t] cr by (metis option.inject)
  next
    case (wait i q s1)
    then show ?thesis using block_schedule [OF Q, of i q] cr by (metis option.inject)
  next
    case (wake_up q)
    then show ?thesis using unblock_all_rest [OF assms(2)] by (metis option.inject)
  qed
qed

lemma sched_steps_rest:
  assumes "(sched_step H)\<^sup>*\<^sup>* s s'" "rest_inv H s"
  shows "rest_inv H s'"
  using assms by (induction rule: rtranclp_induct) (auto intro: sched_step_rest)

fun schedules :: "nat \<Rightarrow> 'a kst_scheme \<Rightarrow> 'a kst_scheme option" where
  "schedules 0 s = Some s"
| "schedules (Suc n) s = Option.bind (do_scheduler s) (schedules n)"

section \<open>Properties of the scheduler\<close>

text \<open>
  C2: no process is lost, duplicated or run twice. From any state in which every PCB is in exactly
  one queue, or RUNNING on exactly one hart, or EXITED, every sequence of kernel entries, yields,
  sleeps, waits and wake-ups leads to such a state again, and the scheduler can always take its
  next step (it never follows a bad pointer and never loops).
\<close>

theorem sched_reachable_inv:
  assumes "rest_inv H s" "(sched_step H)\<^sup>*\<^sup>* s s'"
  shows "rest_inv H s' \<and> (\<exists>s''. do_scheduler s' = Some s'' \<and> rest_inv H s'')"
proof -
  have r: "rest_inv H s'" using sched_steps_rest assms by blast
  then obtain Q where "sched_rel H Q s'" "run_ok H Q s'" by (auto simp: rest_inv_def)
  then show ?thesis using sched_post_exists [of H Q s'] r by blast
qed

text \<open>
  C3: the scheduling decision. The scheduler appends the sleepers whose time has come and then the
  preempted process to the ready queue, and runs the first process of that queue whose CPU mask
  contains the hart; with none, the idle process of the hart runs and the queue keeps everybody.
\<close>

theorem do_scheduler_decision:
  assumes "sched_rel H Q s" "run_ok H Q s"
  shows "\<exists>s'. do_scheduler s = Some s' \<and>
    (case find (elig s) (run_list Q s) of
       Some (PcbNode p) \<Rightarrow> cur s' = (cur s)(hart s := p) \<and> status (pcbs s' p) = TASK_RUNNING \<and>
         sched_rel H (Q(SleepQ := still_asleep Q s, ReadyQ := remove1 (PcbNode p) (run_list Q s))) s'
     | _ \<Rightarrow> cur s' = (cur s)(hart s := idle_pcb (hart s)) \<and>
         sched_rel H (Q(SleepQ := still_asleep Q s, ReadyQ := run_list Q s)) s')"
proof -
  obtain s' where "do_scheduler s = Some s'" "sched_post H Q s s'"
    using sched_post_exists [OF assms] .
  then show ?thesis unfolding sched_post_def by blast
qed

lemma ready_runs:
  assumes "sched_rel H Q s" "run_ok H Q s" "Q ReadyQ = xs @ PcbNode p # ys" "elig s (PcbNode p)"
  shows "\<exists>n \<le> Suc (length xs). \<exists>s'. schedules n s = Some s' \<and> current_running s' = p"
  using assms
proof (induction "length xs" arbitrary: xs ys Q s rule: less_induct)
  case less
  obtain s1 where s1: "do_scheduler s = Some s1" "sched_post H Q s s1" "rest_inv H s1"
    using sched_post_exists [OF less.prems(1,2)] .
  have sp: "same_procs s s1" using s1(2) by (simp add: sched_post_def)
  obtain zs where R: "run_list Q s = xs @ PcbNode p # zs"
    using less.prems(3) by (auto simp: run_list_def)
  show ?case
  proof (cases "find (elig s) xs")
    case None
    then have "find (elig s) (run_list Q s) = Some (PcbNode p)"
      using R less.prems(4) by (simp add: find_append)
    then have "current_running s1 = p"
      using s1(2) same_procsD(1) [OF sp] by (auto simp: sched_post_def current_running_def)
    then have "schedules (Suc 0) s = Some s1 \<and> current_running s1 = p" using s1(1) by simp
    then show ?thesis by (intro exI [of _ "Suc 0"]) simp
  next
    case (Some n)
    then have n: "n \<in> set xs" by (auto simp: find_Some_iff)
    moreover have "n \<in> set (Q ReadyQ)" using n less.prems(3) by simp
    ultimately obtain q where q: "n = PcbNode q"
      using node_okD [OF sched_relD(5) [OF less.prems(1) sched_relD(2) [OF less.prems(1)]]] by metis
    let ?Q = "Q(SleepQ := still_asleep Q s, ReadyQ := remove1 (PcbNode q) (run_list Q s))"
    have rel: "sched_rel H ?Q s1"
      using s1(2) Some q R by (simp add: sched_post_def find_append)
    have "?Q ReadyQ = remove1 n xs @ PcbNode p # zs" using R q n by (simp add: remove1_append)
    moreover have len: "Suc (length (remove1 n xs)) = length xs"
      using n length_pos_if_in_set [OF n] by (simp add: length_remove1)
    then have "length (remove1 n xs) < length xs" by simp
    moreover have "elig s1 (PcbNode p)" using less.prems(4) same_procs_elig [OF sp, of "PcbNode p"] by (simp only:)
    ultimately obtain k s' where k: "k \<le> Suc (length (remove1 n xs))" "schedules k s1 = Some s'"
      "current_running s' = p"
      using less.hyps [OF _ rel rest_inv_rel(1) [OF s1(3) rel]] by blast
    then have "Suc k \<le> Suc (length xs)" using len by simp
    moreover have "schedules (Suc k) s = Some s'" using s1(1) k(2) by simp
    ultimately show ?thesis using k(3) by blast
  qed
qed

text \<open>
  C4: no starvation. A process at position \<open>k\<close> of the ready queue that may run on the hart becomes
  current after at most \<open>k + 1\<close> scheduling decisions of that hart.
\<close>

theorem ready_process_runs:
  assumes "sched_rel H Q s" "run_ok H Q s" "Q ReadyQ = xs @ PcbNode p # ys" "elig s (PcbNode p)"
  shows "\<exists>n \<le> Suc (length xs). \<exists>s'. schedules n s = Some s' \<and> current_running s' = p"
  using assms by (rule ready_runs)

text \<open>
  C28: wake-up times. With a clock that does not run backwards, one scan of the sleep queue moves
  to the ready queue, in order, every process whose time had come when the scan began and none
  whose time has not come when it ends; the others stay, in order.
\<close>

theorem check_sleeping_wakes:
  assumes "sched_rel H Q s" "\<forall>i j. i \<le> j \<longrightarrow> clk s i \<le> clk s j"
  shows "\<exists>s' up. check_sleeping s = Some s' \<and>
    sched_rel H (Q(SleepQ := filter (\<lambda>n. n \<notin> up) (Q SleepQ),
                   ReadyQ := Q ReadyQ @ filter (\<lambda>n. n \<in> up) (Q SleepQ))) s' \<and>
    (\<forall>p. PcbNode p \<in> set (Q SleepQ) \<and> wakeup_time (pcbs s p) \<le> clk s (clk_reads s) \<longrightarrow> PcbNode p \<in> up) \<and>
    (\<forall>p. PcbNode p \<in> up \<longrightarrow> wakeup_time (pcbs s p) \<le> clk s (clk_reads s + length (Q SleepQ)))"
proof -
  have due: "n \<in> set (snd (sleepers w (clk s) t ns))" if "n \<in> set ns" "w n \<le> clk s t'" "t' \<le> t" for w t t' n ns
    using that
  proof (induction ns arbitrary: t)
    case (Cons m ns)
    have "w n \<le> clk s t" using Cons.prems(2,3) assms(2) order_trans by blast
    then show ?case using Cons.prems Cons.IH [of "Suc t"] by (auto simp: case_prod_beta Let_def)
  qed simp
  have past: "w n \<le> clk s (t + length ns)" if "n \<in> set (snd (sleepers w (clk s) t ns))" for w t n ns
    using that
  proof (induction ns arbitrary: t)
    case (Cons m ns)
    have "clk s t \<le> clk s (t + length (m # ns))" using assms(2) by simp
    then show ?case using Cons.prems Cons.IH [of "Suc t"]
      by (auto simp: case_prod_beta Let_def split: if_splits)
  qed simp
  obtain stay up where su: "sleepers (node_wakeup s) (clk s) (clk_reads s) (Q SleepQ) = (stay, up)" by fastforce
  have d: "distinct (Q SleepQ)" using queues_dll [OF sched_relD(1,3) [OF assms(1)]] by (simp add: dll_def)
  obtain lk k where "check_sleeping s = Some ((wake up s)\<lparr>qlinks := lk, clk_reads := k\<rparr>)"
    "sched_rel H (Q(SleepQ := stay, ReadyQ := Q ReadyQ @ up)) ((wake up s)\<lparr>qlinks := lk, clk_reads := k\<rparr>)"
    using check_sleeping_spec [OF assms(1) su] .
  moreover have "stay = filter (\<lambda>n. n \<notin> set up) (Q SleepQ)" "up = filter (\<lambda>n. n \<in> set up) (Q SleepQ)"
    using sleepers_part [OF d, of "node_wakeup s" "clk s" "clk_reads s"] su by simp_all
  moreover have "PcbNode p \<in> set up" if "PcbNode p \<in> set (Q SleepQ)" "wakeup_time (pcbs s p) \<le> clk s (clk_reads s)" for p
    using due [of "PcbNode p" "Q SleepQ" "node_wakeup s" "clk_reads s" "clk_reads s"] that su by simp
  moreover have "wakeup_time (pcbs s p) \<le> clk s (clk_reads s + length (Q SleepQ))" if "PcbNode p \<in> set up" for p
    using past [of "PcbNode p" "node_wakeup s" "clk_reads s" "Q SleepQ"] that su by simp
  ultimately show ?thesis by metis
qed

section \<open>A concrete state\<close>

text \<open>Process 0 runs on hart 0, process 1 is ready, process 2 sleeps until time 5, hart 1 is idle.\<close>

definition demo_pcb :: "nat \<Rightarrow> task_status_t \<Rightarrow> pcb_t" where
  "demo_pcb i st = \<lparr>kernel_sp = 0, user_sp = 0, kernel_stack_base = 0, user_stack_base = 0,
     pid = word_of_nat (i + 1), status = st, cursor_x = 0, cursor_y = 0, remain_length = 0, wakeup_time = 5,
     entry_point = 0, taskname = [0], current_cpu_id = 0, cpu_mask = 3, pgdir = 0, thread_type = MTHREAD,
     pthread_id = 0, brk = 0\<rparr>"

definition demo_nxt :: "node \<Rightarrow> node option" where
  "demo_nxt n = (case n of ReadyQ \<Rightarrow> Some (PcbNode (Pcb 1)) | SleepQ \<Rightarrow> Some (PcbNode (Pcb 2))
     | PcbNode p \<Rightarrow> (if p = Pcb 1 then Some ReadyQ else if p = Pcb 2 then Some SleepQ else None)
     | _ \<Rightarrow> Some n)"

definition demo_Q :: "node \<Rightarrow> node list" where
  "demo_Q n = (case n of ReadyQ \<Rightarrow> [PcbNode (Pcb 1)] | SleepQ \<Rightarrow> [PcbNode (Pcb 2)] | _ \<Rightarrow> [])"

definition demo_heads :: "node set" where
  "demo_heads = - range PcbNode"

definition demo_pcbs :: "pcbref \<Rightarrow> pcb_t" where
  "demo_pcbs p = (case p of
       Pcb i \<Rightarrow> demo_pcb i (if i = 0 then TASK_RUNNING else if i = 1 then TASK_READY
                          else if i = 2 then TASK_BLOCKED else TASK_EXITED)
     | _ \<Rightarrow> demo_pcb 0 TASK_BLOCKED)"

definition demo_kst :: kst where
  "demo_kst = \<lparr>pcbs = demo_pcbs, qlinks = \<lparr>nxt = demo_nxt, prv = demo_nxt\<rparr>,
     cur = (\<lambda>h. if h = 0 then Pcb 0 else SlavePid0), hart = 0, clk = (\<lambda>_. 10), clk_reads = 0, tty = []\<rparr>"

lemmas demo_defs = demo_kst_def demo_pcbs_def demo_Q_def demo_nxt_def demo_pcb_def

lemma demo_queues: "queues demo_heads demo_Q (qlinks demo_kst)"
proof (rule queuesI)
  fix h assume "h \<in> demo_heads"
  then show "dll (qlinks demo_kst) h (demo_Q h)"
    by (cases h) (auto simp: demo_heads_def demo_defs dll_def)
next
  fix h p assume "h \<in> demo_heads" "p \<in> set (demo_Q h)"
  then show "p \<notin> demo_heads" by (cases h) (auto simp: demo_heads_def demo_defs)
next
  fix h h' p assume "h \<in> demo_heads" "h' \<in> demo_heads" "p \<in> set (demo_Q h)" "p \<in> set (demo_Q h')"
  then show "h = h'" by (cases h; cases h') (auto simp: demo_defs)
qed

lemma demo_status: "status (pcbs demo_kst (Pcb i)) = (if i = 0 then TASK_RUNNING else if i = 1 then TASK_READY
    else if i = 2 then TASK_BLOCKED else TASK_EXITED)"
  by (simp add: demo_defs)

lemma demo_unqueued: "unqueued demo_heads demo_Q (PcbNode (Pcb i)) \<longleftrightarrow> i \<noteq> 1 \<and> i \<noteq> 2"
proof -
  have "PcbNode (Pcb i) \<in> set (demo_Q h) \<longleftrightarrow> (h = ReadyQ \<and> i = 1 \<or> h = SleepQ \<and> i = 2)" for h
    by (cases h) (auto simp: demo_Q_def)
  then show ?thesis by (auto simp: unqueued_def demo_heads_def)
qed

lemma demo_sched: "sched_rel demo_heads demo_Q demo_kst" "run_ok demo_heads demo_Q demo_kst" "rest_inv demo_heads demo_kst"
proof -
  have heads: "ReadyQ \<in> demo_heads" "SleepQ \<in> demo_heads" "PcbNode p \<notin> demo_heads" for p
    by (auto simp: demo_heads_def)
  have "node_ok (\<lambda>p. status (pcbs demo_kst p)) h n" if "n \<in> set (demo_Q h)" for h n
    using that by (cases h) (auto simp: demo_defs NUM_MAX_TASK_def)
  moreover have "status (pcbs demo_kst MasterPid0) = TASK_BLOCKED" "status (pcbs demo_kst SlavePid0) = TASK_BLOCKED"
    by (simp_all add: demo_defs)
  ultimately show rel: "sched_rel demo_heads demo_Q demo_kst"
    using demo_queues heads by (auto simp: sched_rel_def st_ok_def demo_unqueued demo_status)
  have "status (pcbs demo_kst p) = TASK_RUNNING \<longleftrightarrow> p = Pcb 0" for p
    by (cases p) (auto simp: demo_defs)
  moreover have "cur demo_kst h = Pcb i \<longleftrightarrow> h = 0 \<and> i = 0" for h i by (simp add: demo_defs)
  moreover have "hart demo_kst = 0" by (simp add: demo_defs)
  ultimately show run: "run_ok demo_heads demo_Q demo_kst"
    by (auto simp: run_ok_def NUM_MAX_TASK_def demo_unqueued)
  have "current_running demo_kst = Pcb 0" by (simp add: demo_defs current_running_def)
  then show "rest_inv demo_heads demo_kst"
    unfolding rest_inv_def using rel run by (auto simp: demo_unqueued)
qed

theorem sched_reachable_inv_witness:
  "rest_inv demo_heads demo_kst \<and> rest_inv demo_heads (demo_kst\<lparr>hart := 1\<rparr>) \<and>
   (\<exists>s''. do_scheduler (demo_kst\<lparr>hart := 1\<rparr>) = Some s'')"
  using sched_reachable_inv [OF demo_sched(3), of "demo_kst\<lparr>hart := 1\<rparr>"] demo_sched(3)
    r_into_rtranclp [of "sched_step demo_heads", OF sched_step.enter] by blast

lemma demo_mask: "mask_has 3 0"
  by (simp add: mask_has_def)

lemma demo_run_list: "run_list demo_Q demo_kst = [PcbNode (Pcb 1), PcbNode (Pcb 2), PcbNode (Pcb 0)]"
  by (simp add: run_list_def demo_defs current_running_def)

theorem do_scheduler_decision_witness:
  "\<exists>s'. do_scheduler demo_kst = Some s' \<and> cur s' 0 = Pcb 1 \<and> status (pcbs s' (Pcb 1)) = TASK_RUNNING"
proof -
  have "elig demo_kst (PcbNode (Pcb 1))" using demo_mask by (simp add: demo_defs)
  then show ?thesis
    using do_scheduler_decision [OF demo_sched(1,2)] by (auto simp: demo_run_list) (auto simp: demo_defs)
qed

theorem ready_process_runs_witness:
  "\<exists>n \<le> Suc 0. \<exists>s'. schedules n demo_kst = Some s' \<and> current_running s' = Pcb 1"
proof -
  have "elig demo_kst (PcbNode (Pcb 1))" using demo_mask by (simp add: demo_defs)
  moreover have "demo_Q ReadyQ = [] @ PcbNode (Pcb 1) # []" by (simp add: demo_Q_def)
  ultimately show ?thesis using ready_process_runs [OF demo_sched(1,2), of "[]" "Pcb 1" "[]"] by simp
qed

theorem check_sleeping_wakes_witness:
  "\<exists>s' up. check_sleeping demo_kst = Some s' \<and> PcbNode (Pcb 2) \<in> up"
proof -
  have "\<forall>i j. i \<le> j \<longrightarrow> clk demo_kst i \<le> clk demo_kst j" by (simp add: demo_defs)
  moreover have "PcbNode (Pcb 2) \<in> set (demo_Q SleepQ)"
    "wakeup_time (pcbs demo_kst (Pcb 2)) \<le> clk demo_kst (clk_reads demo_kst)" by (simp_all add: demo_defs)
  ultimately show ?thesis using check_sleeping_wakes [OF demo_sched(1)] by blast
qed

end
