(* ===== verification/Bitmap.thy ===== *)
theory Bitmap
  imports OS_Prelude
begin

text \<open>
  Bitmaps of one bit per page, inode or block, as src/kernel/mm/mm.c (\<^verbatim>\<open>find_free_pages\<close>,
  \<^verbatim>\<open>mark_page_allocated\<close>, \<^verbatim>\<open>unmark_page_free\<close>) and src/kernel/fs/fs.c (\<^verbatim>\<open>find_free_inode\<close>,
  \<^verbatim>\<open>find_free_block\<close>) scan and update them. The locale \<open>bit_allocator\<close> is the contract of a bit
  allocator; the operations here interpret it.
\<close>

section \<open>Operations\<close>

text \<open>
  The two nested scanning loops. \<open>bits_loop stop b base ks\<close> scans the bits \<open>ks\<close> of byte \<open>b\<close>:
  \<open>None\<close> means the loop ran to its end, \<open>Some None\<close> a return of -1 (\<open>stop\<close> is the range check in
  the loop body) and \<open>Some (Some i)\<close> a return of index \<open>i\<close>.
\<close>

fun bits_loop :: "(nat \<Rightarrow> bool) \<Rightarrow> u8 \<Rightarrow> nat \<Rightarrow> nat list \<Rightarrow> nat option option" where
  "bits_loop stop b base [] = None"
| "bits_loop stop b base (k # ks) =
     (if stop (base + k) then Some None
      else if b AND push_bit k 1 = 0 then Some (Some (base + k))
      else bits_loop stop b base ks)"

fun bytes_loop :: "(nat \<Rightarrow> bool) \<Rightarrow> bytes \<Rightarrow> nat \<Rightarrow> nat option" where
  "bytes_loop stop [] base = None"
| "bytes_loop stop (b # bs) base =
     (if b \<noteq> 0xFF then (case bits_loop stop b base [0..<8] of
          Some r \<Rightarrow> r | None \<Rightarrow> bytes_loop stop bs (base + 8))
      else bytes_loop stop bs (base + 8))"

text \<open>\<^verbatim>\<open>(npages / 8) + (npages % 8 != 0)\<close>\<close>

definition NPAGES2BITMAPCH :: "nat \<Rightarrow> nat" where
  "NPAGES2BITMAPCH n = n div 8 + (if n mod 8 \<noteq> 0 then 1 else 0)"

definition find_free_pages :: "bytes \<Rightarrow> nat \<Rightarrow> nat option" where
  "find_free_pages bm n = bytes_loop (\<lambda>i. i \<ge> n) (take (NPAGES2BITMAPCH n) bm) 0"

text \<open>Setting and clearing a bit; \<open>None\<close> when the index is outside the array.\<close>

definition mark_page_allocated :: "nat \<Rightarrow> bytes \<Rightarrow> bytes option" where
  "mark_page_allocated i bm = (if i div 8 < length bm
     then Some (bm[i div 8 := bm ! (i div 8) OR push_bit (i mod 8) 1]) else None)"

definition unmark_page_free :: "nat \<Rightarrow> bytes \<Rightarrow> bytes option" where
  "unmark_page_free i bm = (if i div 8 < length bm
     then Some (bm[i div 8 := bm ! (i div 8) AND NOT (push_bit (i mod 8) 1)]) else None)"

section \<open>What they do\<close>

definition bit_at :: "bytes \<Rightarrow> nat \<Rightarrow> bool" where
  "bit_at bm i = bit (bm ! (i div 8)) (i mod 8)"

lemma and_bit_eq_0: "(b :: u8) AND push_bit k 1 = 0 \<longleftrightarrow> \<not> bit b k"
  by (simp add: push_bit_eq_mult and_exp_eq_0_iff_not_bit)

lemma full_byte: "(b :: u8) = 0xFF \<longleftrightarrow> (\<forall>k < 8. bit b k)"
proof -
  have m: "(0xFF :: u8) = mask 8" by (simp add: mask_eq_exp_minus_1)
  show ?thesis unfolding m by (auto simp: bit_eq_iff bit_mask_iff bit_imp_le_length)
qed

lemma bits_loop_eq:
  assumes "k \<le> 8" "k = 0 \<or> base + k \<le> n"
  shows "bits_loop (\<lambda>i. i \<ge> n) b base [k..<8] =
    (case find (\<lambda>i. \<not> bit b (i - base)) [base + k..<min n (base + 8)] of
       Some i \<Rightarrow> Some (Some i) | None \<Rightarrow> if n < base + 8 then Some None else None)"
  using assms
proof (induction "8 - k" arbitrary: k)
  case 0
  then show ?case by simp
next
  case (Suc m)
  then have k: "k < 8" by simp
  then have l: "[k..<8] = k # [Suc k..<8]" by (simp add: upt_conv_Cons)
  have IH: "bits_loop (\<lambda>i. i \<ge> n) b base [Suc k..<8] =
    (case find (\<lambda>i. \<not> bit b (i - base)) [base + Suc k..<min n (base + 8)] of
       Some i \<Rightarrow> Some (Some i) | None \<Rightarrow> if n < base + 8 then Some None else None)"
    if "base + k < n"
    using Suc that by (intro Suc.hyps(1)) auto
  show ?case
  proof (cases "n \<le> base + k")
    case True
    then show ?thesis using k by (simp add: l)
  next
    case False
    then have "[base + k..<min n (base + 8)] = (base + k) # [base + Suc k..<min n (base + 8)]"
      using k by (simp add: upt_conv_Cons)
    then show ?thesis using False IH by (simp add: l and_exp_eq_0_iff_not_bit)
  qed
qed

lemma bytes_loop_eq:
  assumes "n \<le> base + 8 * length bs"
  shows "bytes_loop (\<lambda>i. i \<ge> n) bs base = find (\<lambda>i. \<not> bit_at bs (i - base)) [base..<n]"
  using assms
proof (induction bs arbitrary: base)
  case Nil
  then show ?case by simp
next
  case (Cons b bs)
  let ?P = "\<lambda>i. \<not> bit_at (b # bs) (i - base)" and ?m = "min n (base + 8)"
  have split: "[base..<n] = [base..<?m] @ [base + 8..<n]"
  proof (cases "n \<le> base + 8")
    case False
    then obtain k where "n = base + 8 + k" using less_imp_add_positive [of "base + 8" n] by auto
    then show ?thesis using upt_add_eq_append [of base "base + 8" k] by (simp add: min_def)
  qed (simp add: min_def)
  have hd: "find ?P [base..<?m] = find (\<lambda>i. \<not> bit b (i - base)) [base..<?m]"
    by (rule find_cong) (auto simp: bit_at_def)
  have tl: "find ?P [base + 8..<n] = find (\<lambda>i. \<not> bit_at bs (i - (base + 8))) [base + 8..<n]"
  proof (rule find_cong)
    fix i assume "i \<in> set [base + 8..<n]"
    then obtain j where "i = base + 8 + j" by (auto simp: le_iff_add)
    moreover have "(8 + j) div 8 = Suc (j div 8)" by presburger
    ultimately show "(\<not> bit_at (b # bs) (i - base)) = (\<not> bit_at bs (i - (base + 8)))"
      by (simp add: bit_at_def)
  qed simp
  have IH: "bytes_loop (\<lambda>i. i \<ge> n) bs (base + 8) = find ?P [base + 8..<n]"
    using Cons by (simp add: tl)
  have app: "find ?P [base..<n] = (case find ?P [base..<?m] of Some i \<Rightarrow> Some i | None \<Rightarrow> find ?P [base + 8..<n])"
    unfolding split by (rule find_append)
  show ?case
  proof (cases "b = 0xFF")
    case True
    then have "find (\<lambda>i. \<not> bit b (i - base)) [base..<?m] = None"
      by (auto simp: find_None_iff full_byte)
    then show ?thesis using True IH app hd by simp
  next
    case False
    have "[base + 8..<n] = []" if "n < base + 8" using that by simp
    then show ?thesis
      using False IH app hd bits_loop_eq [of 0 base n b] by (auto split: option.splits)
  qed
qed

lemma find_free_pages_eq:
  assumes "n \<le> 8 * length bm"
  shows "find_free_pages bm n = first_idx (\<lambda>i. \<not> bit_at bm i) n"
proof -
  let ?bs = "take (NPAGES2BITMAPCH n) bm"
  have n: "n \<le> 8 * NPAGES2BITMAPCH n"
    unfolding NPAGES2BITMAPCH_def by presburger
  have "find_free_pages bm n = find (\<lambda>i. \<not> bit_at ?bs i) [0..<n]"
    using bytes_loop_eq [of n 0 ?bs] n assms by (simp add: find_free_pages_def min_def)
  also have "\<dots> = find (\<lambda>i. \<not> bit_at bm i) [0..<n]"
    using n by (intro find_cong) (auto simp: bit_at_def)
  finally show ?thesis by (simp add: first_idx_def)
qed

lemma bytes_loop_cong:
  "(\<And>i. base \<le> i \<Longrightarrow> i < base + 8 * length bs \<Longrightarrow> stop i = stop' i) \<Longrightarrow>
    bytes_loop stop bs base = bytes_loop stop' bs base"
proof (induction bs arbitrary: base)
  case (Cons b bs)
  have "bits_loop stop b base ks = bits_loop stop' b base ks" if "set ks \<subseteq> {..<8}" for ks
    using that Cons.prems by (induction ks) auto
  from this [of "[0..<8]"] have "bits_loop stop b base [0..<8] = bits_loop stop' b base [0..<8]"
    by (simp add: atLeast0LessThan)
  moreover have "bytes_loop stop bs (base + 8) = bytes_loop stop' bs (base + 8)"
    using Cons.prems by (intro Cons.IH) auto
  ultimately show ?case by (simp split: option.split)
qed simp

lemma mark_bit_at:
  assumes "mark_page_allocated i bm = Some bm'"
  shows "length bm' = length bm" "bit_at bm' j \<longleftrightarrow> j = i \<or> bit_at bm j"
proof -
  have i: "i div 8 < length bm" "bm' = bm[i div 8 := bm ! (i div 8) OR push_bit (i mod 8) 1]"
    using assms by (auto simp: mark_page_allocated_def split: if_splits)
  then show "length bm' = length bm" by simp
  have "j mod 8 = i mod 8 \<Longrightarrow> j div 8 = i div 8 \<Longrightarrow> j = i" by (metis div_mult_mod_eq)
  then show "bit_at bm' j \<longleftrightarrow> j = i \<or> bit_at bm j"
    using i by (cases "j div 8 = i div 8") (auto simp: bit_at_def bit_simps)
qed

lemma unmark_bit_at:
  assumes "unmark_page_free i bm = Some bm'"
  shows "length bm' = length bm" "bit_at bm' j \<longleftrightarrow> j \<noteq> i \<and> bit_at bm j"
proof -
  have i: "i div 8 < length bm" "bm' = bm[i div 8 := bm ! (i div 8) AND NOT (push_bit (i mod 8) 1)]"
    using assms by (auto simp: unmark_page_free_def split: if_splits)
  then show "length bm' = length bm" by simp
  have "j mod 8 = i mod 8 \<Longrightarrow> j div 8 = i div 8 \<Longrightarrow> j = i" by (metis div_mult_mod_eq)
  then show "bit_at bm' j \<longleftrightarrow> j \<noteq> i \<and> bit_at bm j"
    using i by (cases "j div 8 = i div 8") (auto simp: bit_at_def bit_simps)
qed

section \<open>The contract of a bit allocator\<close>

text \<open>Allocating \<open>k\<close> bits one after the other.\<close>

fun alloc_many :: "(bytes \<Rightarrow> nat \<Rightarrow> nat option) \<Rightarrow> (nat \<Rightarrow> bytes \<Rightarrow> bytes option) \<Rightarrow>
    nat \<Rightarrow> nat \<Rightarrow> bytes \<Rightarrow> (nat list \<times> bytes) option" where
  "alloc_many find_free mark n 0 bm = Some ([], bm)"
| "alloc_many find_free mark n (Suc k) bm = do {
     i \<leftarrow> find_free bm n;
     bm1 \<leftarrow> mark i bm;
     (is, bm2) \<leftarrow> alloc_many find_free mark n k bm1;
     Some (i # is, bm2) }"

locale bit_allocator =
  fixes find_free :: "bytes \<Rightarrow> nat \<Rightarrow> nat option"
    and mark :: "nat \<Rightarrow> bytes \<Rightarrow> bytes option"
    and unmark :: "nat \<Rightarrow> bytes \<Rightarrow> bytes option"
  assumes find_least: "n \<le> 8 * length bm \<Longrightarrow> find_free bm n = first_idx (\<lambda>i. \<not> bit_at bm i) n"
    and mark_ok: "i < 8 * length bm \<Longrightarrow>
      \<exists>bm'. mark i bm = Some bm' \<and> length bm' = length bm \<and> (\<forall>j. bit_at bm' j \<longleftrightarrow> j = i \<or> bit_at bm j)"
    and unmark_ok: "i < 8 * length bm \<Longrightarrow>
      \<exists>bm'. unmark i bm = Some bm' \<and> length bm' = length bm \<and> (\<forall>j. bit_at bm' j \<longleftrightarrow> j \<noteq> i \<and> bit_at bm j)"
begin

lemma alloc_many_sound:
  assumes "n \<le> 8 * length bm" "alloc_many find_free mark n k bm = Some (is, bm')"
  shows "length is = k \<and> distinct is \<and> (\<forall>i \<in> set is. i < n \<and> \<not> bit_at bm i) \<and>
    length bm' = length bm \<and> (\<forall>j. bit_at bm' j \<longleftrightarrow> j \<in> set is \<or> bit_at bm j)"
  using assms
proof (induction k arbitrary: bm "is" bm')
  case (Suc k)
  from Suc.prems(2) obtain i bm1 js where *: "find_free bm n = Some i" "mark i bm = Some bm1"
    "alloc_many find_free mark n k bm1 = Some (js, bm')" "is = i # js"
    by (auto simp: bind_eq_Some_conv)
  then have i: "i < n" "\<not> bit_at bm i"
    using find_least [OF Suc.prems(1)] by (auto simp: first_idx_Some_iff)
  then have bm1: "length bm1 = length bm" "\<forall>j. bit_at bm1 j \<longleftrightarrow> j = i \<or> bit_at bm j"
    using mark_ok [of i bm] *(2) Suc.prems(1) by auto
  then show ?case using Suc.IH [of bm1 js bm'] Suc.prems(1) * i by auto
qed auto

lemma alloc_many_complete:
  assumes "n \<le> 8 * length bm" "k \<le> card {i. i < n \<and> \<not> bit_at bm i}"
  shows "\<exists>is bm'. alloc_many find_free mark n k bm = Some (is, bm')"
  using assms
proof (induction k arbitrary: bm)
  case (Suc k)
  let ?F = "{i. i < n \<and> \<not> bit_at bm i}"
  have "?F \<noteq> {}" using Suc.prems(2) by (metis card.empty not_less_eq_eq zero_le)
  then obtain i where i: "find_free bm n = Some i" "i < n" "\<not> bit_at bm i"
    using find_least [OF Suc.prems(1)] first_idx_None_iff [of "\<lambda>i. \<not> bit_at bm i" n]
      first_idx_Some_iff [of "\<lambda>i. \<not> bit_at bm i" n] by (cases "find_free bm n") auto
  obtain bm1 where bm1: "mark i bm = Some bm1" "length bm1 = length bm"
    "\<forall>j. bit_at bm1 j \<longleftrightarrow> j = i \<or> bit_at bm j"
    using mark_ok [of i bm] i(2) Suc.prems(1) by auto
  have "{j. j < n \<and> \<not> bit_at bm1 j} = ?F - {i}" using bm1(3) by auto
  then have "k \<le> card {j. j < n \<and> \<not> bit_at bm1 j}" using Suc.prems(2) i by simp
  then show ?case using Suc.IH [of bm1] Suc.prems(1) bm1 i(1) by auto
qed simp

lemma free_alloc_again:
  assumes "i < n" "n \<le> 8 * length bm" "bit_at bm i" "\<forall>j < i. bit_at bm j"
  shows "\<exists>bm'. unmark i bm = Some bm' \<and> find_free bm' n = Some i"
proof -
  obtain bm' where "unmark i bm = Some bm'" "length bm' = length bm" "\<forall>j. bit_at bm' j \<longleftrightarrow> j \<noteq> i \<and> bit_at bm j"
    using unmark_ok [of i bm] assms by auto
  then show ?thesis using find_least [of n bm'] assms by (auto simp: first_idx_Some_iff)
qed

end

interpretation pages: bit_allocator find_free_pages mark_page_allocated unmark_page_free
proof unfold_locales
  fix i and bm :: bytes assume "i < 8 * length bm"
  then have "i div 8 < length bm" by auto
  then obtain bm1 bm2 where m: "mark_page_allocated i bm = Some bm1" "unmark_page_free i bm = Some bm2"
    by (simp add: mark_page_allocated_def unmark_page_free_def)
  show "\<exists>bm'. mark_page_allocated i bm = Some bm' \<and> length bm' = length bm \<and> (\<forall>j. bit_at bm' j \<longleftrightarrow> j = i \<or> bit_at bm j)"
    using m(1) mark_bit_at [OF m(1)] by auto
  show "\<exists>bm'. unmark_page_free i bm = Some bm' \<and> length bm' = length bm \<and> (\<forall>j. bit_at bm' j \<longleftrightarrow> j \<noteq> i \<and> bit_at bm j)"
    using m(2) unmark_bit_at [OF m(2)] by auto
qed (rule find_free_pages_eq)

end
