(* ===== verification/Pgtable.thy ===== *)
theory Pgtable
  imports OS_Prelude
begin

text \<open>
  Sv39 page tables: src/arch/riscv/include/pgtable.h and the two table walks of
  src/kernel/mm/mm.c (\<^verbatim>\<open>kva2pte\<close>, \<^verbatim>\<open>uva2pte\<close>). Memory is a map from the addresses of 64-bit cells
  to their contents; the address of a page table entry is its value as a pointer.
\<close>

section \<open>Entries\<close>

definition NORMAL_PAGE_SHIFT :: nat where "NORMAL_PAGE_SHIFT = 12"
definition PPN_BITS :: nat where "PPN_BITS = 9"
definition PAGE_PFN_SHIFT :: nat where "PAGE_PFN_SHIFT = 10"
definition NUM_PTE_ENTRY :: nat where "NUM_PTE_ENTRY = 512"
definition VA_MASK :: u64 where "VA_MASK = push_bit 39 1 - 1"
definition PGDIR_VA :: u64 where "PGDIR_VA = 0xffffffc051000000"

definition PAGE_PRESENT :: u64 where "PAGE_PRESENT = push_bit 0 1"
definition PAGE_READ :: u64 where "PAGE_READ = push_bit 1 1"
definition PAGE_WRITE :: u64 where "PAGE_WRITE = push_bit 2 1"
definition PAGE_EXEC :: u64 where "PAGE_EXEC = push_bit 3 1"
definition PAGE_USER :: u64 where "PAGE_USER = push_bit 4 1"
definition PAGE_ACCESSED :: u64 where "PAGE_ACCESSED = push_bit 6 1"
definition PAGE_DIRTY :: u64 where "PAGE_DIRTY = push_bit 7 1"

lemmas page_bits = PAGE_PRESENT_def PAGE_READ_def PAGE_WRITE_def PAGE_EXEC_def PAGE_USER_def
  PAGE_ACCESSED_def PAGE_DIRTY_def

lemmas shift_defs = NORMAL_PAGE_SHIFT_def PPN_BITS_def PAGE_PFN_SHIFT_def

definition kva2pa :: "u64 \<Rightarrow> u64" where "kva2pa kva = kva - 0xffffffc000000000"
definition pa2kva :: "u64 \<Rightarrow> u64" where "pa2kva pa = pa + 0xffffffc000000000"

definition pfn_mask :: u64 where "pfn_mask = push_bit 44 1 - 1"

definition get_pfn :: "u64 \<Rightarrow> u64" where
  "get_pfn e = drop_bit PAGE_PFN_SHIFT e AND pfn_mask"

definition get_pa :: "u64 \<Rightarrow> u64" where
  "get_pa e = push_bit NORMAL_PAGE_SHIFT (get_pfn e)"

definition set_pfn :: "u64 \<Rightarrow> u64 \<Rightarrow> u64" where
  "set_pfn e pfn = (e AND NOT (push_bit PAGE_PFN_SHIFT pfn_mask)) OR push_bit PAGE_PFN_SHIFT pfn"

definition get_attribute :: "u64 \<Rightarrow> u64 \<Rightarrow> u64" where "get_attribute e m = e AND m"
definition set_attribute :: "u64 \<Rightarrow> u64 \<Rightarrow> u64" where "set_attribute e bits = e OR bits"
definition clear_attribute :: "u64 \<Rightarrow> u64 \<Rightarrow> u64" where "clear_attribute e bits = e AND NOT bits"

section \<open>Tables in memory\<close>

definition pte_addr :: "u64 \<Rightarrow> u64 \<Rightarrow> u64" where
  "pte_addr base i = base + 8 * i"

text \<open>\<^verbatim>\<open>clear_pgdir\<close>: the loop over the 512 entries of a table.\<close>

fun clear_entries :: "nat \<Rightarrow> u64 \<Rightarrow> (u64 \<Rightarrow> u64) \<Rightarrow> (u64 \<Rightarrow> u64)" where
  "clear_entries 0 a m = m"
| "clear_entries (Suc n) a m = clear_entries n (a + 8) (m(a := 0))"

definition clear_pgdir :: "u64 \<Rightarrow> (u64 \<Rightarrow> u64) \<Rightarrow> (u64 \<Rightarrow> u64)" where
  "clear_pgdir a m = clear_entries NUM_PTE_ENTRY a m"

text \<open>The three indices of a virtual address, as the sources compute them after masking with \<^verbatim>\<open>VA_MASK\<close>.\<close>

definition vpn2 :: "u64 \<Rightarrow> u64" where
  "vpn2 va = drop_bit (NORMAL_PAGE_SHIFT + PPN_BITS + PPN_BITS) va"

definition vpn1 :: "u64 \<Rightarrow> u64" where
  "vpn1 va = push_bit PPN_BITS (vpn2 va) XOR drop_bit (NORMAL_PAGE_SHIFT + PPN_BITS) va"

definition vpn0 :: "u64 \<Rightarrow> u64" where
  "vpn0 va = drop_bit NORMAL_PAGE_SHIFT va XOR push_bit (2 * PPN_BITS) (vpn2 va) XOR push_bit PPN_BITS (vpn1 va)"

text \<open>The walks; \<open>None\<close> is the NULL result.\<close>

definition kva2pte :: "(u64 \<Rightarrow> u64) \<Rightarrow> u64 \<Rightarrow> u64 \<Rightarrow> u64 option" where
  "kva2pte m kva0 lv3 = (let kva = kva0 AND VA_MASK in
     if m (pte_addr lv3 (vpn2 kva)) = 0 then None
     else Some (pte_addr (pa2kva (get_pa (m (pte_addr lv3 (vpn2 kva))))) (vpn1 kva)))"

definition uva2pte :: "(u64 \<Rightarrow> u64) \<Rightarrow> u64 \<Rightarrow> u64 \<Rightarrow> u64 option" where
  "uva2pte m uva0 lv3 = (let uva = uva0 AND VA_MASK; e2 = m (pte_addr lv3 (vpn2 uva)) in
     if e2 = 0 then None
     else let lv2 = pa2kva (get_pa e2); e1 = m (pte_addr lv2 (vpn1 uva)) in
       if e1 = 0 then None
       else Some (pte_addr (pa2kva (get_pa e1)) (vpn0 uva)))"

section \<open>Bit fields\<close>

lemma mask_eqs: "VA_MASK = mask 39" "pfn_mask = mask 44"
  by (simp_all add: VA_MASK_def pfn_mask_def mask_eq_exp_minus_1)

lemma vpn_bits:
  "bit (vpn2 va) n \<longleftrightarrow> bit va (n + 30)"
  "bit (vpn1 va) n \<longleftrightarrow> n < 9 \<and> bit va (n + 21)"
  "bit (vpn0 va) n \<longleftrightarrow> n < 9 \<and> bit va (n + 12)"
proof -
  have l: "bit (x :: u64) k \<Longrightarrow> k < 64" for x k using bit_imp_le_length by fastforce
  show v2: "bit (vpn2 va) n \<longleftrightarrow> bit va (n + 30)" for n
    by (simp add: vpn2_def shift_defs bit_simps add.commute)
  show v1: "bit (vpn1 va) n \<longleftrightarrow> n < 9 \<and> bit va (n + 21)" for n
    using l [of va "n + 21"] by (auto simp: vpn1_def shift_defs bit_simps v2 add.commute)
  show "bit (vpn0 va) n \<longleftrightarrow> n < 9 \<and> bit va (n + 12)"
    using l [of va "n + 12"] by (auto simp: vpn0_def shift_defs bit_simps v1 v2 add.commute)
qed

lemma kva_pa [simp]: "pa2kva (kva2pa a) = a" "kva2pa (pa2kva a) = a"
  by (simp_all add: pa2kva_def kva2pa_def)

lemma bit64 [dest]: "bit (x :: u64) n \<Longrightarrow> n < 64"
  using bit_imp_le_length by fastforce

lemma set_pfn_bits:
  "bit (set_pfn e p) n \<longleftrightarrow> n < 64 \<and> (if n < 10 then bit e n else (54 \<le> n \<and> bit e n) \<or> bit p (n - 10))"
  by (auto simp: set_pfn_def shift_defs mask_eqs bit_simps)

lemma get_pfn_bits: "bit (get_pfn e) n \<longleftrightarrow> n < 44 \<and> bit e (n + 10)"
  by (auto simp: get_pfn_def shift_defs mask_eqs bit_simps add.commute)

lemma get_pfn_set_pfn [pte_simps]:
  assumes "take_bit 44 p = p"
  shows "get_pfn (set_pfn e p) = p"
proof (rule bit_eqI)
  fix n
  have "bit p n \<longleftrightarrow> n < 44 \<and> bit p n" using assms by (metis bit_take_bit_iff)
  then show "bit (get_pfn (set_pfn e p)) n \<longleftrightarrow> bit p n" by (auto simp: get_pfn_bits set_pfn_bits)
qed

text \<open>A physical page address: aligned, and within the 56 bits an entry can hold.\<close>

definition page_pa :: "u64 \<Rightarrow> bool" where
  "page_pa pa \<longleftrightarrow> take_bit 12 pa = 0 \<and> take_bit 56 pa = pa"

lemma page_pa_bits: "page_pa pa \<Longrightarrow> bit pa n \<Longrightarrow> 12 \<le> n \<and> n < 56"
  unfolding page_pa_def by (metis bit_take_bit_iff bit_0_eq bot_apply bot_bool_def not_le)

lemma page_paI: "unat x mod 4096 = 0 \<Longrightarrow> unat x < 2 ^ 56 \<Longrightarrow> page_pa x"
proof -
  assume x: "unat x mod 4096 = 0" "unat x < 2 ^ 56"
  have "take_bit 12 (unat x) = 0" using x(1) by (simp add: take_bit_eq_mod)
  then have "unat (take_bit 12 x) = 0" by (simp only: unsigned_take_bit_eq)
  moreover have "take_bit 56 (unat x) = unat x" using x(2) by (rule take_bit_nat_eq_self)
  then have "unat (take_bit 56 x) = unat x" by (simp only: unsigned_take_bit_eq)
  ultimately show ?thesis unfolding page_pa_def by (metis unsigned_word_eqI unsigned_0)
qed

lemma get_pa_set_pfn [pte_simps]:
  assumes "page_pa pa"
  shows "get_pa (set_pfn e (drop_bit NORMAL_PAGE_SHIFT pa)) = pa"
proof -
  have "n < 44" if "bit pa (12 + n)" for n using page_pa_bits [OF assms that] by simp
  then have t: "take_bit 44 (drop_bit NORMAL_PAGE_SHIFT pa) = drop_bit NORMAL_PAGE_SHIFT pa"
    by (auto simp: bit_eq_iff bit_simps shift_defs)
  have "push_bit NORMAL_PAGE_SHIFT (drop_bit NORMAL_PAGE_SHIFT pa) = pa"
    using page_pa_bits [OF assms] by (auto simp: bit_eq_iff bit_simps shift_defs)
  then show ?thesis by (simp add: get_pa_def get_pfn_set_pfn [OF t])
qed

lemma get_pa_attr [pte_simps]:
  assumes "take_bit 10 bits = bits"
  shows "get_pa (set_attribute e bits) = get_pa e" "get_pa (clear_attribute e bits) = get_pa e"
proof -
  have "\<not> bit bits (n + 10)" for n using assms by (metis bit_take_bit_iff not_add_less2)
  then have "get_pfn (set_attribute e bits) = get_pfn e" "get_pfn (clear_attribute e bits) = get_pfn e"
    by (auto simp: bit_eq_iff get_pfn_bits set_attribute_def clear_attribute_def bit_simps)
  then show "get_pa (set_attribute e bits) = get_pa e" "get_pa (clear_attribute e bits) = get_pa e"
    by (simp_all add: get_pa_def)
qed

lemma low_attr_set_pfn [pte_simps]:
  assumes "take_bit 10 m = m"
  shows "get_attribute (set_pfn e p) m = get_attribute e m"
proof -
  have "bit m n \<Longrightarrow> n < 10" for n using assms by (metis bit_take_bit_iff)
  then show ?thesis by (auto simp: bit_eq_iff get_attribute_def bit_simps set_pfn_bits)
qed

section \<open>Addresses of entries\<close>

lemma clear_entries_apply:
  "n < 2 ^ 60 \<Longrightarrow> clear_entries n a m b =
     (if \<exists>k < n. b = a + 8 * word_of_nat k then 0 else m b)"
proof (induction n arbitrary: a m)
  case (Suc n)
  have "(\<exists>k < Suc n. b = a + 8 * word_of_nat k) \<longleftrightarrow> b = a \<or> (\<exists>k < n. b = (a + 8) + 8 * word_of_nat k)"
    by (auto simp: less_Suc_eq_0_disj algebra_simps)
  then show ?case using Suc by auto
qed simp

lemma clear_pgdir_apply:
  "clear_pgdir a m b = (if \<exists>k < 512. b = a + 8 * word_of_nat k then 0 else m b)"
  by (simp add: clear_pgdir_def NUM_PTE_ENTRY_def clear_entries_apply)

text \<open>A page-aligned address, and the addresses of the cells of its page.\<close>

definition aligned :: "u64 \<Rightarrow> bool" where
  "aligned a \<longleftrightarrow> take_bit 12 a = 0"

lemma alignedI: "unat x mod 4096 = 0 \<Longrightarrow> aligned x"
proof -
  assume "unat x mod 4096 = 0"
  then have "take_bit 12 (unat x) = 0" by (simp add: take_bit_eq_mod)
  then have "unat (take_bit 12 x) = 0" by (simp only: unsigned_take_bit_eq)
  then show ?thesis unfolding aligned_def by (metis unsigned_word_eqI unsigned_0)
qed

definition in_page :: "u64 \<Rightarrow> u64 \<Rightarrow> bool" where
  "in_page base a \<longleftrightarrow> (\<exists>k < 512. a = base + 8 * word_of_nat k)"

lemma in_page_frame:
  assumes "aligned base" "in_page base a"
  shows "drop_bit 12 a = drop_bit 12 base"
proof -
  obtain k where k: "k < 512" "a = base + 8 * word_of_nat k" using assms(2) by (auto simp: in_page_def)
  let ?o = "8 * word_of_nat k :: u64"
  have u: "unat ?o = 8 * k" using k(1) by (simp add: unat_word_ariths unat_of_nat)
  have "take_bit 12 (8 * k) = 8 * k" using k(1) by (intro take_bit_nat_eq_self) simp
  then have "unat (take_bit 12 ?o) = unat ?o" unfolding unsigned_take_bit_eq u .
  then have "?o = take_bit 12 ?o" by (metis unsigned_word_eqI)
  then have o: "bit ?o n \<Longrightarrow> n < 12" for n by (metis bit_take_bit_iff)
  have b: "bit base n \<Longrightarrow> 12 \<le> n" for n
    using assms(1) unfolding aligned_def by (metis bit_take_bit_iff bit_0_eq bot_apply bot_bool_def not_le)
  have "a = base OR ?o" unfolding k(2) using o b by (intro disjunctive_add_eq_or) (auto simp: bit_eq_iff bit_simps, fastforce)
  then show ?thesis using o by (auto simp: bit_eq_iff bit_simps)
qed

lemma aligned_pages_disjoint:
  assumes "aligned a" "aligned b" "in_page a x" "in_page b x"
  shows "a = b"
proof -
  have "drop_bit 12 a = drop_bit 12 b" using in_page_frame assms by metis
  moreover have "push_bit 12 (drop_bit 12 c) = c" if "aligned c" for c :: u64
    using that unfolding aligned_def by (metis add.right_neutral add.commute bits_ident)
  ultimately show ?thesis using assms(1,2) by metis
qed

lemma vpn_small: "unat (vpn1 va) < 512" "unat (vpn0 va) < 512" "unat (vpn2 (va AND VA_MASK)) < 512"
proof -
  have s: "unat x < 512" if "\<And>n. bit x n \<Longrightarrow> n < 9" for x :: u64
  proof -
    have "take_bit 9 x = x" using that by (auto simp: bit_eq_iff bit_simps)
    then have "unat x = take_bit 9 (unat x)" by (metis unsigned_take_bit_eq)
    then show ?thesis using take_bit_nat_less_exp [of 9 "unat x"] by simp
  qed
  show "unat (vpn1 va) < 512" "unat (vpn0 va) < 512" by (rule s; simp add: vpn_bits)+
  have "bit (vpn2 (va AND VA_MASK)) n \<Longrightarrow> n < 9" for n by (simp add: vpn_bits mask_eqs bit_simps)
  then show "unat (vpn2 (va AND VA_MASK)) < 512" by (rule s)
qed

lemma pte_addr_in_page: "unat i < 512 \<Longrightarrow> in_page base (pte_addr base i)"
  unfolding in_page_def pte_addr_def by (intro exI [of _ "unat i"]) simp

lemma pte_addr_inj:
  assumes "unat i < 512" "unat j < 512" "pte_addr base i = pte_addr base j"
  shows "i = j"
proof -
  have "unat (8 * i) = 8 * unat i" "unat (8 * j) = 8 * unat j"
    using assms(1,2) by (simp_all add: unat_word_ariths)
  then show ?thesis using assms(3) by (simp add: pte_addr_def) (metis nat_mult_eq_cancel_disj unsigned_word_eqI zero_neq_numeral)
qed

text \<open>The indices determine a masked address up to its offset in the page.\<close>

lemma vpn_inj:
  assumes "vpn2 a = vpn2 b" "vpn1 a = vpn1 b" "vpn0 a = vpn0 b"
  shows "drop_bit 12 a = drop_bit 12 b"
proof (rule bit_eqI)
  fix n
  have "bit a (n + 12) = bit b (n + 12)"
  proof -
    consider "n < 9" | "9 \<le> n" "n < 18" | "18 \<le> n" by linarith
    then show ?thesis
    proof cases
      case 1
      then show ?thesis using assms(3) vpn_bits(3) by metis
    next
      case 2
      then have "n + 12 = (n - 9) + 21" "n - 9 < 9" by simp_all
      then show ?thesis using assms(2) vpn_bits(2) by metis
    next
      case 3
      then have "n + 12 = (n - 18) + 30" by simp
      then show ?thesis using assms(1) vpn_bits(1) by metis
    qed
  qed
  then show "bit (drop_bit 12 a) n = bit (drop_bit 12 b) n" by (simp add: bit_simps add.commute)
qed

end
