(* ===== verification/Mm.thy ===== *)
theory Mm
  imports Sched Bitmap Pgtable
begin

text \<open>
  Memory management: src/kernel/mm/mm.c and src/kernel/mm/ioremap.c with the page lists of
  src/include/os/mm.h. The state extends the scheduler's by the page table memory, the two page
  bitmaps, the page nodes with their lists, the swap area and the shared pages. The SD card is
  reached through the BIOS and is the parameter \<open>swap_ops\<close>. What needs \<^verbatim>\<open>do_exit\<close> (the page fault
  handler) is in theory \<open>Process\<close>. TLB flushes have no counterpart.
\<close>

section \<open>State\<close>

definition PAGE_SIZE :: u64 where "PAGE_SIZE = 4096"
definition INIT_KERNEL_STACK :: u64 where "INIT_KERNEL_STACK = 0xffffffc052000000"
definition FREE_KERNEL_PAGE_NUM :: nat where "FREE_KERNEL_PAGE_NUM = 0x2000"
definition USER_MEM_BASE :: u64 where "USER_MEM_BASE = 0xffffffc054000000"
definition FREE_USER_PAGE_NUM :: nat where "FREE_USER_PAGE_NUM = 0x9000"
definition USER_STACK_ADDR :: u64 where "USER_STACK_ADDR = 0xf00010000"
definition USER_STACK_END :: u64 where "USER_STACK_END = USER_STACK_ADDR - 5 * PAGE_SIZE"
definition PageNode_MAXNUM :: nat where "PageNode_MAXNUM = 0x40000"
definition SHM_PAGE_NUM :: nat where "SHM_PAGE_NUM = 16"
definition IO_ADDR_START :: u64 where "IO_ADDR_START = 0xffffffe000000000"
definition IO_ADDR_END :: u64 where "IO_ADDR_END = 0xffffffe400000000"

text \<open>Addresses of \<^verbatim>\<open>PageNode_t\<close> objects: the three list heads and \<^verbatim>\<open>pn_list[i]\<close>.\<close>

datatype pnode = KPageHead | UMemHead | USdHead | PN nat

datatype PageNode_status_t = PN_INACTIVE | PN_ACTIVE

record PageNode_t =
  pn_status :: PageNode_status_t
  pte_entry :: "u64 option"
  pn_pid :: i32
  pn_addr :: u64
  pn_uva :: u64

datatype shm_status_t = SHM_UNUSED | SHM_USING

record shm_page_t =
  shm_key :: i32
  shm_status :: shm_status_t
  shm_kva :: u64
  user_num :: i32

text \<open>The BIOS disk calls: \<open>n\<close> sectors of 64 cells from sector \<open>a\<close>.\<close>

record 'd swap_ops =
  dsk_rd :: "nat \<Rightarrow> u32 \<Rightarrow> 'd \<Rightarrow> u64 list"
  dsk_wr :: "nat \<Rightarrow> u32 \<Rightarrow> u64 list \<Rightarrow> 'd \<Rightarrow> 'd"

record 'd mmst = kst +
  mem :: "u64 \<Rightarrow> u64"
  user_bitmap :: bytes
  kernel_bitmap :: bytes
  pn :: "nat \<Rightarrow> PageNode_t"
  plinks :: "pnode links"
  sd_sector_end :: u64
  swapdev :: 'd
  shm_pages :: "nat \<Rightarrow> shm_page_t"
  userMemCurr :: u64
  io_base :: u64

section \<open>Page lists\<close>

definition init_list_head :: "pnode \<Rightarrow> pnode links \<Rightarrow> pnode links" where
  "init_list_head h lk = set_prv h (Some h) (set_nxt h (Some h) lk)"

definition delete_list_node :: "pnode \<Rightarrow> pnode links \<Rightarrow> pnode links option" where
  "delete_list_node p lk = do {
     a \<leftarrow> prv lk p;
     let lk1 = set_nxt a (nxt lk p) lk;
     b \<leftarrow> nxt lk1 p;
     let lk2 = set_prv b (prv lk1 p) lk1;
     Some (set_prv p None (set_nxt p None lk2)) }"

definition insert_list_tail :: "pnode \<Rightarrow> pnode \<Rightarrow> pnode links \<Rightarrow> pnode links option" where
  "insert_list_tail p h lk = do {
     let lk1 = set_nxt p (Some h) lk;
     let lk2 = set_prv p (prv lk1 h) lk1;
     t \<leftarrow> prv lk2 h;
     let lk3 = set_nxt t (Some p) lk2;
     Some (set_prv h (Some p) lk3) }"

definition forward_list_head :: "pnode \<Rightarrow> pnode links \<Rightarrow> pnode links option" where
  "forward_list_head h lk = do {
     n \<leftarrow> nxt lk h;
     nn \<leftarrow> nxt lk n;
     if n = h \<or> nn = h then Some lk
     else do {
       node1 \<leftarrow> prv lk h;
       let node2 = n;
       let node3 = nn;
       let lk1 = set_prv node3 (Some h) (set_nxt h (Some node3) lk);
       let lk2 = set_nxt node2 (Some h) (set_prv h (Some node2) lk1);
       Some (set_nxt node1 (Some node2) (set_prv node2 (Some node1) lk2)) } }"

definition get_free_PageNode :: "('d, 'a) mmst_scheme \<Rightarrow> nat option" where
  "get_free_PageNode s = first_idx (\<lambda>i. pn_status (pn s i) = PN_INACTIVE) PageNode_MAXNUM"

text \<open>\<open>Some None\<close> is the NULL result.\<close>

partial_function (option) list_search ::
  "(nat \<Rightarrow> PageNode_t) \<Rightarrow> pnode links \<Rightarrow> pnode \<Rightarrow> u64 \<Rightarrow> i32 \<Rightarrow> pnode \<Rightarrow> nat option option" where
  "list_search ns lk h uva k p = (if p = h then Some None else (case p of
       PN i \<Rightarrow> (if pn_uva (ns i) = uva \<and> pn_pid (ns i) = k then Some (Some i)
                else Option.bind (nxt lk p) (\<lambda>p'. list_search ns lk h uva k p'))
     | _ \<Rightarrow> None))"

definition search_list_node :: "pnode \<Rightarrow> u64 \<Rightarrow> pcbref \<Rightarrow> ('d, 'a) mmst_scheme \<Rightarrow> nat option option" where
  "search_list_node h uva p s =
     Option.bind (nxt (plinks s) h) (list_search (pn s) (plinks s) h uva (pid (pcbs s p)))"

definition upd_pn :: "nat \<Rightarrow> (PageNode_t \<Rightarrow> PageNode_t) \<Rightarrow> ('d, 'a) mmst_scheme \<Rightarrow> ('d, 'a) mmst_scheme" where
  "upd_pn i f s = s\<lparr>pn := (pn s)(i := f (pn s i))\<rparr>"

text \<open>Initialisation; \<open>image_end\<close> is the sector count the boot block stores at \<^verbatim>\<open>nsectors_image_loc\<close>.\<close>

definition init_mem_manager :: "u64 \<Rightarrow> ('d, 'a) mmst_scheme \<Rightarrow> ('d, 'a) mmst_scheme" where
  "init_mem_manager image_end s = s\<lparr>sd_sector_end := image_end,
     pn := (\<lambda>i. if i < PageNode_MAXNUM then (pn s i)\<lparr>pn_status := PN_INACTIVE\<rparr> else pn s i),
     plinks := init_list_head USdHead (init_list_head UMemHead (init_list_head KPageHead (plinks s))),
     kernel_bitmap := (kernel_bitmap s)[0 := kernel_bitmap s ! 0 OR 0x0f]\<rparr>"

section \<open>Pages of cells\<close>

definition page_cells :: "u64 \<Rightarrow> (u64 \<Rightarrow> u64) \<Rightarrow> u64 list" where
  "page_cells a m = map (\<lambda>k. m (a + 8 * word_of_nat k)) [0..<512]"

fun store_cells :: "u64 \<Rightarrow> u64 list \<Rightarrow> (u64 \<Rightarrow> u64) \<Rightarrow> (u64 \<Rightarrow> u64)" where
  "store_cells a [] m = m"
| "store_cells a (x # xs) m = store_cells (a + 8) xs (m(a := x))"

definition share_pgtable :: "u64 \<Rightarrow> u64 \<Rightarrow> ('d, 'a) mmst_scheme \<Rightarrow> ('d, 'a) mmst_scheme" where
  "share_pgtable dst src s = s\<lparr>mem := store_cells dst (page_cells src (mem s)) (mem s)\<rparr>"

section \<open>Swapping out and allocation\<close>

definition upd_pte :: "u64 \<Rightarrow> (u64 \<Rightarrow> u64) \<Rightarrow> ('d, 'a) mmst_scheme \<Rightarrow> ('d, 'a) mmst_scheme" where
  "upd_pte a f s = s\<lparr>mem := (mem s)(a := f (mem s a))\<rparr>"

definition USED_BITS :: u64 where "USED_BITS = PAGE_ACCESSED OR PAGE_DIRTY"
definition USER_BITS :: u64 where
  "USER_BITS = PAGE_PRESENT OR PAGE_READ OR PAGE_WRITE OR PAGE_EXEC OR PAGE_USER OR PAGE_DIRTY"

text \<open>The second-chance loop of \<^verbatim>\<open>swap_page_out\<close>.\<close>

partial_function (option) clock_loop :: "('d, 'a) mmst_scheme \<Rightarrow> ('d, 'a) mmst_scheme option" where
  "clock_loop s = Option.bind (nxt (plinks s) UMemHead) (\<lambda>n. case n of
       PN i \<Rightarrow> Option.bind (pte_entry (pn s i)) (\<lambda>a.
         if get_attribute (mem s a) USED_BITS \<noteq> 0
         then Option.bind (forward_list_head UMemHead (plinks s)) (\<lambda>lk.
           clock_loop ((upd_pte a (\<lambda>e. clear_attribute e USED_BITS) s)\<lparr>plinks := lk\<rparr>))
         else Some s)
     | _ \<Rightarrow> None)"

definition swap_page_out :: "'d swap_ops \<Rightarrow> ('d, 'a) mmst_scheme \<Rightarrow> (u64 \<times> ('d, 'a) mmst_scheme) option" where
  "swap_page_out ops s = do {
     c_assert (nxt (plinks s) UMemHead \<noteq> Some UMemHead);
     s1 \<leftarrow> clock_loop s;
     n \<leftarrow> nxt (plinks s1) UMemHead;
     i \<leftarrow> (case n of PN i \<Rightarrow> Some i | _ \<Rightarrow> None);
     lk \<leftarrow> delete_list_node n (plinks s1);
     a \<leftarrow> pte_entry (pn s1 i);
     let s2 = (upd_pte a (\<lambda>e. clear_attribute e PAGE_PRESENT) s1)\<lparr>plinks := lk\<rparr>;
     let kva = pn_addr (pn s2 i);
     c_assert (pn_uva (pn s2 i) \<noteq> 0);
     let s3 = s2\<lparr>swapdev := dsk_wr ops 8 (ucast (sd_sector_end s2)) (page_cells kva (mem s2)) (swapdev s2)\<rparr>;
     let s4 = upd_pn i (\<lambda>b. b\<lparr>pn_addr := sd_sector_end s3\<rparr>) s3;
     let s5 = s4\<lparr>sd_sector_end := sd_sector_end s4 + 8\<rparr>;
     lk' \<leftarrow> insert_list_tail n USdHead (plinks s5);
     Some (kva, s5\<lparr>plinks := lk'\<rparr>) }"

definition alloc_kernel_page :: "'d swap_ops \<Rightarrow> ('d, 'a) mmst_scheme \<Rightarrow> (u64 \<times> ('d, 'a) mmst_scheme) option" where
  "alloc_kernel_page ops s = (case find_free_pages (kernel_bitmap s) FREE_KERNEL_PAGE_NUM of
      None \<Rightarrow> swap_page_out ops s
    | Some i \<Rightarrow> do {
        bm \<leftarrow> mark_page_allocated i (kernel_bitmap s);
        Some (INIT_KERNEL_STACK + PAGE_SIZE * word_of_nat i, s\<lparr>kernel_bitmap := bm\<rparr>) })"

definition alloc_user_page :: "'d swap_ops \<Rightarrow> ('d, 'a) mmst_scheme \<Rightarrow> (u64 \<times> ('d, 'a) mmst_scheme) option" where
  "alloc_user_page ops s = (case find_free_pages (user_bitmap s) FREE_USER_PAGE_NUM of
      None \<Rightarrow> swap_page_out ops s
    | Some i \<Rightarrow> do {
        bm \<leftarrow> mark_page_allocated i (user_bitmap s);
        Some (USER_MEM_BASE + PAGE_SIZE * word_of_nat i, s\<lparr>user_bitmap := bm\<rparr>) })"

text \<open>
  \<^verbatim>\<open>create_PageNode\<close>. A full node array makes the source index it with -1: a fault. For a kernel page
  the walk starts from the current process's page directory, whatever \<^verbatim>\<open>pgdir\<close> was passed.
\<close>

definition create_PageNode :: "u64 \<Rightarrow> u64 \<Rightarrow> u64 \<Rightarrow> pcbref \<Rightarrow> ('d, 'a) mmst_scheme \<Rightarrow> ('d, 'a) mmst_scheme option" where
  "create_PageNode kva uva pd p s = do {
     c_assert (uva \<noteq> 0);
     i \<leftarrow> get_free_PageNode s;
     let s1 = upd_pn i (\<lambda>b. b\<lparr>pn_status := PN_ACTIVE, pn_addr := kva, pn_pid := pid (pcbs s p), pn_uva := uva\<rparr>) s;
     if uva = kva then do {
       let s2 = upd_pn i (\<lambda>b. b\<lparr>pte_entry := kva2pte (mem s1) kva (pgdir (pcbs s1 (current_running s1)))\<rparr>) s1;
       lk \<leftarrow> insert_list_tail (PN i) KPageHead (plinks s2);
       Some (s2\<lparr>plinks := lk\<rparr>) }
     else do {
       let s2 = upd_pn i (\<lambda>b. b\<lparr>pte_entry := uva2pte (mem s1) uva pd\<rparr>) s1;
       lk \<leftarrow> insert_list_tail (PN i) UMemHead (plinks s2);
       Some (s2\<lparr>plinks := lk\<rparr>) } }"

text \<open>\<^verbatim>\<open>if (table[i] == 0) \<dots>\<close>: a new lower-level table, entered in \<open>table[i]\<close> and cleared.\<close>

definition ensure_table :: "'d swap_ops \<Rightarrow> u64 \<Rightarrow> u64 \<Rightarrow> pcbref \<Rightarrow> ('d, 'a) mmst_scheme \<Rightarrow> ('d, 'a) mmst_scheme option" where
  "ensure_table ops table i p s =
     (if mem s (pte_addr table i) = 0 then do {
        (t, s1) \<leftarrow> alloc_kernel_page ops s;
        s2 \<leftarrow> create_PageNode t t PGDIR_VA p s1;
        let s3 = upd_pte (pte_addr table i) (\<lambda>e. set_pfn e (drop_bit NORMAL_PAGE_SHIFT (kva2pa t))) s2;
        let s4 = upd_pte (pte_addr table i) (\<lambda>e. set_attribute e PAGE_PRESENT) s3;
        Some (s4\<lparr>mem := clear_pgdir t (mem s4)\<rparr>) }
      else Some s)"

definition alloc_page_helper ::
  "'d swap_ops \<Rightarrow> u64 \<Rightarrow> u64 \<Rightarrow> pcbref \<Rightarrow> ('d, 'a) mmst_scheme \<Rightarrow> (u64 \<times> ('d, 'a) mmst_scheme) option" where
  "alloc_page_helper ops va0 pd p s = do {
     let va = va0 AND VA_MASK;
     s1 \<leftarrow> ensure_table ops pd (vpn2 va) p s;
     let lv2 = pa2kva (get_pa (mem s1 (pte_addr pd (vpn2 va))));
     s2 \<leftarrow> ensure_table ops lv2 (vpn1 va) p s1;
     let lv1 = pa2kva (get_pa (mem s2 (pte_addr lv2 (vpn1 va))));
     (kva, s3) \<leftarrow> alloc_user_page ops s2;
     s4 \<leftarrow> create_PageNode kva va (pgdir (pcbs s3 p)) p s3;
     let s5 = upd_pte (pte_addr lv1 (vpn0 va)) (\<lambda>e. set_pfn e (drop_bit NORMAL_PAGE_SHIFT (kva2pa kva))) s4;
     Some (kva, upd_pte (pte_addr lv1 (vpn0 va)) (\<lambda>e. set_attribute e USER_BITS) s5) }"

definition umap_page ::
  "'d swap_ops \<Rightarrow> u64 \<Rightarrow> u64 \<Rightarrow> u64 \<Rightarrow> pcbref \<Rightarrow> ('d, 'a) mmst_scheme \<Rightarrow> ('d, 'a) mmst_scheme option" where
  "umap_page ops va0 pa pd p s = do {
     let va = va0 AND VA_MASK;
     s1 \<leftarrow> ensure_table ops pd (vpn2 va) p s;
     let lv2 = pa2kva (get_pa (mem s1 (pte_addr pd (vpn2 va))));
     s2 \<leftarrow> ensure_table ops lv2 (vpn1 va) p s1;
     let lv1 = pa2kva (get_pa (mem s2 (pte_addr lv2 (vpn1 va))));
     s3 \<leftarrow> create_PageNode (pa2kva pa) va (pgdir (pcbs s2 p)) p s2;
     let s4 = upd_pte (pte_addr lv1 (vpn0 va)) (\<lambda>e. set_pfn e (drop_bit NORMAL_PAGE_SHIFT pa)) s3;
     Some (upd_pte (pte_addr lv1 (vpn0 va)) (\<lambda>e. set_attribute e USER_BITS) s4) }"

section \<open>Releasing pages\<close>

partial_function (option) recycle_loop ::
  "i32 \<Rightarrow> pnode \<Rightarrow> bool \<Rightarrow> pnode \<Rightarrow> ('d, 'a) mmst_scheme \<Rightarrow> ('d, 'a) mmst_scheme option" where
  "recycle_loop k h in_mem p s = (if p = h then Some s else (case p of
       PN i \<Rightarrow> Option.bind (nxt (plinks s) p) (\<lambda>pnext.
         if pn_pid (pn s i) = k then
           Option.bind (if \<not> in_mem then Some (upd_pn i (\<lambda>b. b\<lparr>pn_status := PN_INACTIVE\<rparr>) s)
             else if pn_uva (pn s i) \<noteq> pn_addr (pn s i)
             then Option.bind (unmark_page_free (unat ((pn_addr (pn s i) - USER_MEM_BASE) div PAGE_SIZE)) (user_bitmap s))
               (\<lambda>bm. Some ((upd_pn i (\<lambda>b. b\<lparr>pn_status := PN_INACTIVE\<rparr>) s)\<lparr>user_bitmap := bm\<rparr>))
             else Option.bind (unmark_page_free (unat ((pn_addr (pn s i) - INIT_KERNEL_STACK) div PAGE_SIZE)) (kernel_bitmap s))
               (\<lambda>bm. Some ((upd_pn i (\<lambda>b. b\<lparr>pn_status := PN_INACTIVE\<rparr>) s)\<lparr>kernel_bitmap := bm\<rparr>)))
           (\<lambda>s1. Option.bind (delete_list_node p (plinks s1))
             (\<lambda>lk. recycle_loop k h in_mem pnext (s1\<lparr>plinks := lk\<rparr>)))
         else recycle_loop k h in_mem pnext s)
     | _ \<Rightarrow> None))"

definition recycle_node_from_list ::
  "pcbref \<Rightarrow> pnode \<Rightarrow> bool \<Rightarrow> ('d, 'a) mmst_scheme \<Rightarrow> ('d, 'a) mmst_scheme option" where
  "recycle_node_from_list p h in_mem s =
     Option.bind (nxt (plinks s) h) (\<lambda>n. recycle_loop (pid (pcbs s p)) h in_mem n s)"

definition release_process_page :: "pcbref \<Rightarrow> ('d, 'a) mmst_scheme \<Rightarrow> ('d, 'a) mmst_scheme option" where
  "release_process_page p s = do {
     s1 \<leftarrow> recycle_node_from_list p KPageHead True s;
     s2 \<leftarrow> recycle_node_from_list p UMemHead True s1;
     recycle_node_from_list p USdHead False s2 }"

section \<open>Swapping in\<close>

definition swap_page_in :: "'d swap_ops \<Rightarrow> nat \<Rightarrow> ('d, 'a) mmst_scheme \<Rightarrow> ('d, 'a) mmst_scheme option" where
  "swap_page_in ops i s = do {
     c_assert (pn_uva (pn s i) \<noteq> 0);
     lk \<leftarrow> delete_list_node (PN i) (plinks s);
     (kva, s1) \<leftarrow> alloc_user_page ops (s\<lparr>plinks := lk\<rparr>);
     let s2 = s1\<lparr>mem := store_cells kva (dsk_rd ops 8 (ucast (pn_addr (pn s1 i))) (swapdev s1)) (mem s1)\<rparr>;
     let s3 = upd_pn i (\<lambda>b. b\<lparr>pn_addr := kva\<rparr>) s2;
     a \<leftarrow> pte_entry (pn s3 i);
     let s4 = upd_pte a (\<lambda>e. set_pfn e (drop_bit NORMAL_PAGE_SHIFT (kva2pa kva))) s3;
     let s5 = upd_pte a (\<lambda>e. set_attribute e USER_BITS) s4;
     lk' \<leftarrow> insert_list_tail (PN i) UMemHead (plinks s5);
     Some (s5\<lparr>plinks := lk'\<rparr>) }"

partial_function (option) check_uva_loop ::
  "'d swap_ops \<Rightarrow> u64 \<Rightarrow> u64 \<Rightarrow> pcbref \<Rightarrow> ('d, 'a) mmst_scheme \<Rightarrow> ('d, 'a) mmst_scheme option" where
  "check_uva_loop ops vpn last_va p s = (if vpn \<le> last_va
     then Option.bind (search_list_node USdHead vpn p s) (\<lambda>r.
       Option.bind (case r of None \<Rightarrow> Some s
           | Some i \<Rightarrow> if pn_uva (pn s i) = 0 then None else swap_page_in ops i s)
         (\<lambda>s1. check_uva_loop ops (vpn + PAGE_SIZE) last_va p s1))
     else Some s)"

definition check_uva_mem ::
  "'d swap_ops \<Rightarrow> u64 \<Rightarrow> u64 \<Rightarrow> pcbref \<Rightarrow> ('d, 'a) mmst_scheme \<Rightarrow> ('d, 'a) mmst_scheme option" where
  "check_uva_mem ops uva_begin len p s =
     check_uva_loop ops (uva_begin AND NOT (PAGE_SIZE - 1)) (uva_begin + len) p s"

section \<open>Shared pages\<close>

definition allocFreeUva :: "u64 \<Rightarrow> ('d, 'a) mmst_scheme \<Rightarrow> u64 \<times> ('d, 'a) mmst_scheme" where
  "allocFreeUva numPage s = (let ret = ROUND (userMemCurr s) PAGE_SIZE in
     (ret, s\<lparr>userMemCurr := ret + numPage * PAGE_SIZE\<rparr>))"

definition init_shmpage :: "('d, 'a) mmst_scheme \<Rightarrow> ('d, 'a) mmst_scheme" where
  "init_shmpage s = s\<lparr>shm_pages := (\<lambda>i. if i < SHM_PAGE_NUM
     then (shm_pages s i)\<lparr>shm_key := 0, shm_status := SHM_UNUSED, user_num := 0\<rparr> else shm_pages s i)\<rparr>"

text \<open>\<^verbatim>\<open>do { uva = allocFreeUva(1); } while (uva2pte(uva, pgdir) != NULL);\<close>\<close>

partial_function (option) fresh_uva :: "('d, 'a) mmst_scheme \<Rightarrow> (u64 \<times> ('d, 'a) mmst_scheme) option" where
  "fresh_uva s = (let (uva, s1) = allocFreeUva 1 s in
     if uva2pte (mem s1) uva (pgdir (pcbs s1 (current_running s1))) \<noteq> None
     then fresh_uva s1 else Some (uva, s1))"

definition upd_shm :: "nat \<Rightarrow> (shm_page_t \<Rightarrow> shm_page_t) \<Rightarrow> ('d, 'a) mmst_scheme \<Rightarrow> ('d, 'a) mmst_scheme" where
  "upd_shm i f s = s\<lparr>shm_pages := (shm_pages s)(i := f (shm_pages s i))\<rparr>"

definition shm_page_get :: "'d swap_ops \<Rightarrow> i32 \<Rightarrow> ('d, 'a) mmst_scheme \<Rightarrow> (u64 \<times> ('d, 'a) mmst_scheme) option" where
  "shm_page_get ops key s =
     (case first_idx (\<lambda>i. shm_status (shm_pages s i) = SHM_USING \<and> shm_key (shm_pages s i) = key) SHM_PAGE_NUM of
        Some i \<Rightarrow> do {
          (uva, s1) \<leftarrow> fresh_uva s;
          s2 \<leftarrow> umap_page ops uva (kva2pa (shm_kva (shm_pages s1 i)))
                 (pgdir (pcbs s1 (current_running s1))) (current_running s1) s1;
          Some (uva, upd_shm i (\<lambda>b. b\<lparr>user_num := user_num b + 1\<rparr>) s2) }
      | None \<Rightarrow> do {
          (uva, s1) \<leftarrow> fresh_uva s;
          (kva, s2) \<leftarrow> alloc_page_helper ops uva (pgdir (pcbs s1 (current_running s1))) (current_running s1) s1;
          i \<leftarrow> first_idx (\<lambda>i. shm_status (shm_pages s i) = SHM_UNUSED) SHM_PAGE_NUM;
          Some (uva, upd_shm i (\<lambda>b. b\<lparr>shm_kva := kva, shm_status := SHM_USING, shm_key := key,
                                     user_num := user_num b + 1\<rparr>) s2) })"

definition delete_uva_page :: "u64 \<Rightarrow> pcbref \<Rightarrow> ('d, 'a) mmst_scheme \<Rightarrow> ('d, 'a) mmst_scheme option" where
  "delete_uva_page vpn p s = do {
     r \<leftarrow> search_list_node UMemHead vpn p s;
     s1 \<leftarrow> (case r of None \<Rightarrow> Some s
       | Some i \<Rightarrow> do {
           bm \<leftarrow> unmark_page_free (unat ((pn_addr (pn s i) - USER_MEM_BASE) div PAGE_SIZE)) (user_bitmap s);
           lk \<leftarrow> delete_list_node (PN i) (plinks s);
           Some ((upd_pn i (\<lambda>b. b\<lparr>pn_status := PN_INACTIVE\<rparr>) s)\<lparr>user_bitmap := bm, plinks := lk\<rparr>) });
     r' \<leftarrow> search_list_node USdHead vpn p s1;
     (case r' of None \<Rightarrow> Some s1
       | Some i \<Rightarrow> do {
           lk \<leftarrow> delete_list_node (PN i) (plinks s1);
           Some ((upd_pn i (\<lambda>b. b\<lparr>pn_status := PN_INACTIVE\<rparr>) s1)\<lparr>plinks := lk\<rparr>) }) }"

definition shm_page_dt :: "u64 \<Rightarrow> ('d, 'a) mmst_scheme \<Rightarrow> ('d, 'a) mmst_scheme option" where
  "shm_page_dt addr s = do {
     let uva = addr AND VA_MASK;
     pte \<leftarrow> uva2pte (mem s) uva (pgdir (pcbs s (current_running s)));
     let kva = pa2kva (get_pa (mem s pte));
     case first_idx (\<lambda>i. shm_status (shm_pages s i) = SHM_USING \<and> shm_kva (shm_pages s i) = kva) SHM_PAGE_NUM of
       None \<Rightarrow> Some s
     | Some i \<Rightarrow> do {
         s1 \<leftarrow> delete_uva_page (uva AND NOT (PAGE_SIZE - 1)) (current_running s) s;
         let s2 = upd_pte pte (\<lambda>e. clear_attribute e PAGE_PRESENT) s1;
         let s3 = upd_shm i (\<lambda>b. b\<lparr>user_num := user_num b - 1\<rparr>) s2;
         Some (if user_num (shm_pages s3 i) = 0
           then upd_shm i (\<lambda>b. b\<lparr>shm_status := SHM_UNUSED, shm_key := 0, shm_kva := 0\<rparr>) s3 else s3) } }"

section \<open>Protection and program break\<close>

text \<open>\<^verbatim>\<open>PROT_NONE\<close> to \<^verbatim>\<open>PROT_EXEC\<close> are 0 to 3; any other value makes \<^verbatim>\<open>do_mprotect\<close> return -1 inside its loop.\<close>

definition RWX_BITS :: u64 where "RWX_BITS = PAGE_READ OR PAGE_WRITE OR PAGE_EXEC"

fun prot_bits :: "int \<Rightarrow> u64 option" where
  "prot_bits k = (if k = 0 then Some 0 else if k = 1 then Some PAGE_READ
     else if k = 2 then Some PAGE_WRITE else if k = 3 then Some PAGE_EXEC else None)"

definition NBYTES2PAGE :: "u64 \<Rightarrow> u64" where
  "NBYTES2PAGE n = n div PAGE_SIZE + (if n mod PAGE_SIZE \<noteq> 0 then 1 else 0)"

fun mprotect_loop :: "nat \<Rightarrow> u64 \<Rightarrow> i32 \<Rightarrow> ('d, 'a) mmst_scheme \<Rightarrow> (i32 \<times> ('d, 'a) mmst_scheme) option" where
  "mprotect_loop 0 uva prot s = Some (0, s)"
| "mprotect_loop (Suc n) uva prot s =
     (let r = uva2pte (mem s) uva (pgdir (pcbs s (current_running s))) in
      case prot_bits (sint prot) of
        None \<Rightarrow> Some (- 1, s)
      | Some bits \<Rightarrow> do {
          pte \<leftarrow> r;
          mprotect_loop n (uva + PAGE_SIZE) prot
            (upd_pte pte (\<lambda>e. set_attribute (clear_attribute e RWX_BITS) bits) s) })"

definition do_mprotect :: "u64 \<Rightarrow> u64 \<Rightarrow> i32 \<Rightarrow> ('d, 'a) mmst_scheme \<Rightarrow> (i32 \<times> ('d, 'a) mmst_scheme) option" where
  "do_mprotect addr len prot s =
     (if addr AND 0xFFF \<noteq> 0 then Some (- 1, s)
      else mprotect_loop (nat (sint (ucast (NBYTES2PAGE len) :: i32))) addr prot s)"

definition do_getbrk :: "u64 \<Rightarrow> ('d, 'a) mmst_scheme \<Rightarrow> ('d, 'a) mmst_scheme" where
  "do_getbrk bss_end s =
     upd_pcb (current_running s) (\<lambda>b. b\<lparr>brk := ROUNDDOWN (bss_end + PAGE_SIZE) PAGE_SIZE\<rparr>) s"

definition do_brk :: "u64 \<Rightarrow> ('d, 'a) mmst_scheme \<Rightarrow> i32 \<times> ('d, 'a) mmst_scheme" where
  "do_brk addr s = (let vpn = addr AND NOT (PAGE_SIZE - 1) in
     if brk (pcbs s (current_running s)) < vpn \<and> vpn < USER_STACK_END
     then (0, upd_pcb (current_running s) (\<lambda>b. b\<lparr>brk := addr\<rparr>) s) else (- 1, s))"

definition do_sbrk :: "u64 \<Rightarrow> ('d, 'a) mmst_scheme \<Rightarrow> u64 \<times> ('d, 'a) mmst_scheme" where
  "do_sbrk increment s = (let inc = ROUND increment PAGE_SIZE; old_brk = brk (pcbs s (current_running s)) in
     if old_brk + inc < USER_STACK_END
     then (old_brk, upd_pcb (current_running s) (\<lambda>b. b\<lparr>brk := brk b + inc\<rparr>) s) else (- 1, s))"

section \<open>Device mappings\<close>

text \<open>\<^verbatim>\<open>iomap_page\<close> builds tables as \<^verbatim>\<open>alloc_page_helper\<close> does, without page nodes.\<close>

definition io_table :: "'d swap_ops \<Rightarrow> u64 \<Rightarrow> u64 \<Rightarrow> ('d, 'a) mmst_scheme \<Rightarrow> ('d, 'a) mmst_scheme option" where
  "io_table ops table i s =
     (if mem s (pte_addr table i) = 0 then do {
        (t, s1) \<leftarrow> alloc_kernel_page ops s;
        let s2 = upd_pte (pte_addr table i) (\<lambda>e. set_pfn e (drop_bit NORMAL_PAGE_SHIFT (kva2pa t))) s1;
        let s3 = upd_pte (pte_addr table i) (\<lambda>e. set_attribute e PAGE_PRESENT) s2;
        Some (s3\<lparr>mem := clear_pgdir t (mem s3)\<rparr>) }
      else Some s)"

definition iomap_page :: "'d swap_ops \<Rightarrow> u64 \<Rightarrow> u64 \<Rightarrow> u64 \<Rightarrow> ('d, 'a) mmst_scheme \<Rightarrow> ('d, 'a) mmst_scheme option" where
  "iomap_page ops va0 pa pd s = do {
     let va = va0 AND VA_MASK;
     s1 \<leftarrow> io_table ops pd (vpn2 va) s;
     let lv2 = pa2kva (get_pa (mem s1 (pte_addr pd (vpn2 va))));
     s2 \<leftarrow> io_table ops lv2 (vpn1 va) s1;
     let lv1 = pa2kva (get_pa (mem s2 (pte_addr lv2 (vpn1 va))));
     let s3 = upd_pte (pte_addr lv1 (vpn0 va)) (\<lambda>e. set_pfn e (drop_bit NORMAL_PAGE_SHIFT pa)) s2;
     Some (upd_pte (pte_addr lv1 (vpn0 va)) (\<lambda>e. set_attribute e USER_BITS) s3) }"

partial_function (option) ioremap_loop ::
  "'d swap_ops \<Rightarrow> u64 \<Rightarrow> u64 \<Rightarrow> ('d, 'a) mmst_scheme \<Rightarrow> ('d, 'a) mmst_scheme option" where
  "ioremap_loop ops pa pa_end s = (if pa < pa_end
     then Option.bind (iomap_page ops (io_base s) pa PGDIR_VA s) (\<lambda>s1.
       ioremap_loop ops (pa + PAGE_SIZE) pa_end (s1\<lparr>io_base := io_base s1 + PAGE_SIZE\<rparr>))
     else Some s)"

definition ioremap :: "'d swap_ops \<Rightarrow> u64 \<Rightarrow> u64 \<Rightarrow> ('d, 'a) mmst_scheme \<Rightarrow> (u64 \<times> ('d, 'a) mmst_scheme) option" where
  "ioremap ops phys_addr size0 s = (let
       pa_start = ROUNDDOWN phys_addr PAGE_SIZE;
       pa_end = ROUND (phys_addr + size0) PAGE_SIZE;
       sz = pa_end - pa_start in
     if io_base s + sz \<le> IO_ADDR_END
     then map_option (\<lambda>s1. (io_base s, s1)) (ioremap_loop ops pa_start pa_end s)
     else Some (0, s))"

definition iounmap :: "u64 \<Rightarrow> ('d, 'a) mmst_scheme \<Rightarrow> ('d, 'a) mmst_scheme option" where
  "iounmap io_addr s = do {
     pte \<leftarrow> uva2pte (mem s) io_addr (pgdir (pcbs s (current_running s)));
     Some (upd_pte pte (\<lambda>e. clear_attribute e PAGE_PRESENT) s) }"

end
