(* ===== verification/Swap.thy ===== *)
theory Swap
  imports Mm
begin

text \<open>
  The page lists and the replacement of pages: what the list primitives of
  src/include/os/mm.h do, that the second-chance loop of \<^verbatim>\<open>swap_page_out\<close> ends, and that a page
  swapped out and in again has its contents.
\<close>

section \<open>The list primitives\<close>

interpretation pq: dqueue insert_list_tail delete_list_node
proof unfold_locales
  fix lk :: "pnode links" and h p :: pnode and xs
  assume d: "dll lk h xs" and p: "p \<notin> insert h (set xs)"
  have "last (h # xs) \<noteq> p" using p last_in_cons [of h xs] by auto
  then show "insert_list_tail p h lk = Some (link_between (last (h # xs)) p h lk)"
    using p dll_last [OF d] by (auto simp: insert_list_tail_def Let_def intro!: links_eqI)
next
  fix lk :: "pnode links" and h p :: pnode and xs ys
  assume d: "dll lk h (xs @ p # ys)"
  let ?a = "last (h # xs)" and ?b = "hd (ys @ [h])"
  have p: "nxt lk p = Some ?b" "prv lk p = Some ?a"
    using d by (auto dest: dll_next_mem dll_prev_mem)
  have "p \<notin> set (h # xs)" "p \<notin> set (ys @ [h])" using d by (auto simp: dll_def)
  then have "p \<noteq> ?a" "p \<noteq> ?b"
    using last_in_cons [of h xs] hd_in_snoc [of ys h] by metis+
  with p show "delete_list_node p lk = Some (unlink_between ?a p ?b lk)"
    by (auto simp: delete_list_node_def Let_def intro!: links_eqI)
qed

text \<open>Moving the head forward is deleting the first node and appending it.\<close>

lemma forward_list_head_eq:
  assumes "dll lk h (x # y # ys)"
  shows "forward_list_head h lk = Option.bind (delete_list_node x lk) (insert_list_tail x h)"
proof -
  have d: "dll lk h ([] @ x # y # ys)" using assms by simp
  let ?z = "last (h # x # y # ys)" and ?lk1 = "unlink_between h x y lk"
  have hx: "nxt lk h = Some x" "nxt lk x = Some y" "prv lk h = Some ?z"
    using dll_first [OF assms] dll_next_mem [OF d] dll_last [OF assms] by simp_all
  have ne: "x \<noteq> h" "y \<noteq> h" "x \<noteq> y" "?z \<noteq> h" "?z \<noteq> x"
    using assms last_in_set [of "y # ys"] by (auto simp: dll_def)
  have del: "delete_list_node x lk = Some ?lk1" using pq.deq_unlink [OF d] by simp
  have "dll ?lk1 h (y # ys)" using dll_unlink [OF d] by simp
  moreover have "x \<notin> insert h (set (y # ys))" using assms by (auto simp: dll_def)
  ultimately have "insert_list_tail x h ?lk1 = Some (link_between (last (h # y # ys)) x h ?lk1)"
    by (rule pq.enq_link)
  moreover have "last (h # y # ys) = ?z" by simp
  ultimately have r: "Option.bind (delete_list_node x lk) (insert_list_tail x h) =
      Some (link_between ?z x h ?lk1)" using del by simp
  show ?thesis
    unfolding r using hx ne by (auto simp: forward_list_head_def Let_def intro!: links_eqI)
qed

lemma forward_list_head_queues:
  assumes "queues H Q lk" "h \<in> H" "Q h = x # xs"
  obtains lk' where "forward_list_head h lk = Some lk'" "queues H (Q(h := xs @ [x])) lk'"
proof (cases xs)
  case Nil
  have d: "dll lk h ([] @ [x])" using queues_dll [OF assms(1,2)] assms(3) Nil by simp
  have "nxt lk h = Some x" "nxt lk x = Some h" using dll_first [OF d] dll_next_mem [OF d] by simp_all
  then have "forward_list_head h lk = Some lk" by (simp add: forward_list_head_def)
  moreover have "Q(h := xs @ [x]) = Q" using Nil assms(3) by auto
  ultimately show ?thesis using that assms(1) by metis
next
  case (Cons y ys)
  have d: "dll lk h (x # y # ys)" using queues_dll [OF assms(1,2)] assms(3) Cons by simp
  obtain lk1 where lk1: "delete_list_node x lk = Some lk1" "queues H (Q(h := xs)) lk1" "unqueued H (Q(h := xs)) x"
    using pq.queues_deq [OF assms(1,2), of x] assms(3) by auto
  obtain lk2 where "insert_list_tail x h lk1 = Some lk2" "queues H (Q(h := xs @ [x])) lk2"
    using pq.queues_enq [OF lk1(2) assms(2) lk1(3)] by auto
  then show ?thesis using that forward_list_head_eq [OF d] lk1(1) by simp
qed

section \<open>The second-chance loop\<close>

lemma upd_pte_simps [simp]:
  "mem (upd_pte a f s) = (mem s)(a := f (mem s a))" "plinks (upd_pte a f s) = plinks s" "pn (upd_pte a f s) = pn s"
  "user_bitmap (upd_pte a f s) = user_bitmap s" "kernel_bitmap (upd_pte a f s) = kernel_bitmap s"
  "sd_sector_end (upd_pte a f s) = sd_sector_end s" "swapdev (upd_pte a f s) = swapdev s"
  "pcbs (upd_pte a f s) = pcbs s" "current_running (upd_pte a f s) = current_running s"
  by (simp_all add: upd_pte_def current_running_def)

lemma upd_pn_simps [simp]:
  "mem (upd_pn i f s) = mem s" "plinks (upd_pn i f s) = plinks s" "pn (upd_pn i f s) = (pn s)(i := f (pn s i))"
  "user_bitmap (upd_pn i f s) = user_bitmap s" "kernel_bitmap (upd_pn i f s) = kernel_bitmap s"
  "sd_sector_end (upd_pn i f s) = sd_sector_end s" "swapdev (upd_pn i f s) = swapdev s"
  "pcbs (upd_pn i f s) = pcbs s" "current_running (upd_pn i f s) = current_running s"
  by (simp_all add: upd_pn_def current_running_def)

lemma get_clear_attr [simp]: "get_attribute (clear_attribute e b) b = 0"
  by (simp add: get_attribute_def clear_attribute_def bit_eq_iff bit_simps)

text \<open>The entries of the pages in \<open>is\<close> whose accessed or dirty bit is set.\<close>

definition used_ptes :: "nat list \<Rightarrow> ('d, 'a) mmst_scheme \<Rightarrow> u64 set" where
  "used_ptes is s = {a. \<exists>i \<in> set is. pte_entry (pn s i) = Some a \<and> get_attribute (mem s a) USED_BITS \<noteq> 0}"

lemma finite_used_ptes [simp]: "finite (used_ptes is s)"
proof -
  have "used_ptes is s \<subseteq> (\<lambda>i. the (pte_entry (pn s i))) ` set is" by (force simp: used_ptes_def)
  then show ?thesis by (rule finite_subset) simp
qed

definition aged :: "u64 set \<Rightarrow> (u64 \<Rightarrow> u64) \<Rightarrow> (u64 \<Rightarrow> u64) \<Rightarrow> bool" where
  "aged A m m' \<longleftrightarrow> (\<forall>x. m' x = m x \<or> x \<in> A \<and> m' x = clear_attribute (m x) USED_BITS)"

lemma clear_attr_idem [simp]: "clear_attribute (clear_attribute e b) b = clear_attribute e b"
  by (simp add: clear_attribute_def bit_eq_iff bit_simps)

lemma clock_loop_spec:
  fixes s :: "('d, 'a) mmst_scheme"
  assumes "queues H Q (plinks s)" "UMemHead \<in> H" "Q UMemHead = map PN is" "is \<noteq> []"
    and "\<forall>i \<in> set is. pte_entry (pn s i) \<noteq> None"
  shows "\<exists>m' lk' j js a. clock_loop s = Some (s\<lparr>mem := m', plinks := lk'\<rparr>) \<and>
    queues H (Q(UMemHead := map PN (j # js))) lk' \<and> set (j # js) = set is \<and>
    pte_entry (pn s j) = Some a \<and> get_attribute (m' a) USED_BITS = 0 \<and> aged (used_ptes is s) (mem s) m'"
  using assms
proof (induction "card (used_ptes is s)" arbitrary: "is" s Q rule: less_induct)
  case less
  obtain i "is'" where i: "is = i # is'" using less.prems(4) by (cases "is") auto
  have d: "dll (plinks s) UMemHead (PN i # map PN is')" using queues_dll [OF less.prems(1,2)] less.prems(3) i by simp
  have nx: "nxt (plinks s) UMemHead = Some (PN i)" using dll_first [OF d] by simp
  obtain a where a: "pte_entry (pn s i) = Some a" using less.prems(5) i by auto
  show ?case
  proof (cases "get_attribute (mem s a) USED_BITS = 0")
    case True
    then have "clock_loop s = Some (s\<lparr>mem := mem s, plinks := plinks s\<rparr>)"
      using nx a by (simp add: clock_loop.simps)
    moreover have "aged (used_ptes is s) (mem s) (mem s)" by (simp add: aged_def)
    moreover have "Q(UMemHead := map PN (i # is')) = Q" using less.prems(3) i by auto
    ultimately show ?thesis using less.prems(1) a True i by metis
  next
    case False
    obtain lk where lk: "forward_list_head UMemHead (plinks s) = Some lk"
      "queues H (Q(UMemHead := map PN is' @ [PN i])) lk"
      using forward_list_head_queues [OF less.prems(1,2)] less.prems(3) i by auto
    let ?s = "(upd_pte a (\<lambda>e. clear_attribute e USED_BITS) s)\<lparr>plinks := lk\<rparr>" and ?is = "is' @ [i]"
    have step: "clock_loop s = clock_loop ?s"
      using nx a False lk(1) by (simp add: clock_loop.simps [of s])
    have used: "used_ptes ?is ?s = used_ptes is s - {a}"
      using i by (auto simp: used_ptes_def)
    have "a \<in> used_ptes is s" using a False i by (auto simp: used_ptes_def)
    then have dec: "card (used_ptes ?is ?s) < card (used_ptes is s)"
      unfolding used by (rule card_Diff1_less [OF finite_used_ptes])
    have "queues H (Q(UMemHead := map PN is' @ [PN i])) (plinks ?s)" using lk(2) by simp
    moreover have "(Q(UMemHead := map PN is' @ [PN i])) UMemHead = map PN ?is" by simp
    moreover have "\<forall>k \<in> set ?is. pte_entry (pn ?s k) \<noteq> None" using less.prems(5) i by auto
    ultimately obtain m' lk' j js b where r: "clock_loop ?s = Some (?s\<lparr>mem := m', plinks := lk'\<rparr>)"
      "queues H (Q(UMemHead := map PN is' @ [PN i], UMemHead := map PN (j # js))) lk'"
      "set (j # js) = set ?is" "pte_entry (pn ?s j) = Some b" "get_attribute (m' b) USED_BITS = 0"
      "aged (used_ptes ?is ?s) (mem ?s) m'"
      using less.hyps [OF dec _ less.prems(2)] by blast
    have "?s\<lparr>mem := m', plinks := lk'\<rparr> = s\<lparr>mem := m', plinks := lk'\<rparr>" by (simp add: upd_pte_def)
    moreover have "aged (used_ptes is s) (mem s) m'"
      using r(6) \<open>a \<in> used_ptes is s\<close> used unfolding aged_def by (auto split: if_splits)
    moreover have "queues H (Q(UMemHead := map PN (j # js))) lk'" using r(2) by (simp only: fun_upd_upd)
    moreover have "set (j # js) = set is" using r(3) i by auto
    moreover have "pte_entry (pn s j) = Some b" using r(4) by simp
    ultimately show ?thesis using step r(1,5) by metis
  qed
qed

section \<open>Cells of a page\<close>

lemma cell_inj:
  assumes "j < 512" "k < 512" "a + 8 * word_of_nat j = a + (8 * word_of_nat k :: u64)"
  shows "j = k"
proof -
  have "unat (word_of_nat j :: u64) = j" "unat (word_of_nat k :: u64) = k"
    using assms(1,2) by (simp_all add: unat_of_nat)
  moreover have "(word_of_nat j :: u64) = word_of_nat k"
    by (rule pte_addr_inj [where base = a]) (use calculation assms in \<open>simp_all add: pte_addr_def\<close>)
  ultimately show ?thesis by metis
qed

lemma store_cells_apply:
  "store_cells a xs m b = (case first_idx (\<lambda>k. b = a + 8 * word_of_nat k) (length xs) of
     Some k \<Rightarrow> xs ! k | None \<Rightarrow> m b)" if "length xs \<le> 512"
  using that
proof (induction xs arbitrary: a m)
  case Nil
  then show ?case by (simp add: first_idx_def)
next
  case (Cons x xs)
  let ?P = "\<lambda>k. b = a + 8 * word_of_nat k" and ?P' = "\<lambda>k. b = (a + 8) + 8 * word_of_nat k"
  have IH: "store_cells a (x # xs) m b = (case first_idx ?P' (length xs) of
      Some k \<Rightarrow> xs ! k | None \<Rightarrow> (m(a := x)) b)" using Cons by simp
  have shift: "?P' k \<longleftrightarrow> ?P (Suc k)" for k by (simp add: algebra_simps)
  show ?case
  proof (cases "first_idx ?P (length (x # xs))")
    case None
    then have n: "\<not> ?P k" if "k < Suc (length xs)" for k using that by (auto simp: first_idx_None_iff)
    then have "\<not> ?P' k" if "k < length xs" for k using that shift by (metis Suc_less_eq)
    then have "first_idx ?P' (length xs) = None" unfolding first_idx_None_iff by blast
    then show ?thesis using IH None n [of 0] by auto
  next
    case (Some k)
    then have k: "k < Suc (length xs)" "?P k" by (auto simp: first_idx_Some_iff)
    then have u: "j = k" if "?P j" "j < Suc (length xs)" for j
      using that cell_inj [of j k a] Cons.prems by simp
    show ?thesis
    proof (cases k)
      case 0
      then have "\<not> ?P' j" if "j < length xs" for j using that shift u [of "Suc j"] by auto
      then have "first_idx ?P' (length xs) = None" unfolding first_idx_None_iff by blast
      then show ?thesis using IH Some 0 k by simp
    next
      case (Suc k')
      moreover have "?P' k'" using k(2) Suc shift by blast
      moreover have "\<not> ?P' j" if "j < k'" for j using that shift u [of "Suc j"] k(1) Suc by auto
      ultimately have "first_idx ?P' (length xs) = Some k'"
        using k(1) unfolding first_idx_Some_iff by auto
      then show ?thesis using IH Some Suc by simp
    qed
  qed
qed

lemma page_cells_store:
  assumes "length xs = 512"
  shows "page_cells a (store_cells a xs m) = xs"
proof (rule nth_equalityI)
  fix k assume "k < length (page_cells a (store_cells a xs m))"
  then have k: "k < 512" by (simp add: page_cells_def)
  have "first_idx (\<lambda>j. a + 8 * word_of_nat k = a + 8 * word_of_nat j) 512 = Some k"
    unfolding first_idx_Some_iff using k cell_inj [OF k, of _ a] by (metis less_trans nat_neq_iff)
  then show "page_cells a (store_cells a xs m) ! k = xs ! k"
    using k assms by (simp add: page_cells_def store_cells_apply)
qed (simp add: page_cells_def assms)

lemma store_cells_other:
  assumes "length xs = 512" "\<not> in_page a b"
  shows "store_cells a xs m b = m b"
proof -
  have "first_idx (\<lambda>k. b = a + 8 * word_of_nat k) 512 = None"
    using assms(2) by (auto simp: first_idx_None_iff in_page_def)
  then show ?thesis using assms(1) by (simp add: store_cells_apply)
qed

lemma page_cells_cong:
  "(\<And>b. in_page a b \<Longrightarrow> m b = m' b) \<Longrightarrow> page_cells a m = page_cells a m'"
  unfolding page_cells_def in_page_def by (intro map_cong) (simp, metis atLeastLessThan_iff set_upt)

lemma length_page_cells [simp]: "length (page_cells a m) = 512"
  by (simp add: page_cells_def)

section \<open>Swapping out and in\<close>

definition page_heads :: "pnode set" where
  "page_heads = {KPageHead, UMemHead, USdHead}"

text \<open>What the swap code relies on of the disk.\<close>

definition dsk_ok :: "'d swap_ops \<Rightarrow> bool" where
  "dsk_ok ops \<longleftrightarrow> (\<forall>a x d. length x = 512 \<longrightarrow> dsk_rd ops 8 a (dsk_wr ops 8 a x d) = x)"

text \<open>The resident pages: \<open>is\<close> is the list \<^verbatim>\<open>user_page_mem_head\<close>, every node has an entry and an address.\<close>

definition resident :: "(pnode \<Rightarrow> pnode list) \<Rightarrow> nat list \<Rightarrow> ('d, 'a) mmst_scheme \<Rightarrow> bool" where
  "resident Q is s \<longleftrightarrow> queues page_heads Q (plinks s) \<and> Q UMemHead = map PN is \<and>
     (\<forall>i \<in> set is. pte_entry (pn s i) \<noteq> None \<and> pn_uva (pn s i) \<noteq> 0)"

lemma swap_page_out_spec:
  assumes r: "resident Q is s" and ne: "is \<noteq> []"
  obtains j js a m' lk' where "j \<in> set is" "pte_entry (pn s j) = Some a"
    "aged (used_ptes is s) (mem s) m'" "get_attribute (m' a) USED_BITS = 0"
    "swap_page_out ops s = Some (pn_addr (pn s j),
       s\<lparr>mem := m'(a := clear_attribute (m' a) PAGE_PRESENT), plinks := lk',
         pn := (pn s)(j := (pn s j)\<lparr>pn_addr := sd_sector_end s\<rparr>),
         swapdev := dsk_wr ops 8 (ucast (sd_sector_end s))
           (page_cells (pn_addr (pn s j)) (m'(a := clear_attribute (m' a) PAGE_PRESENT))) (swapdev s),
         sd_sector_end := sd_sector_end s + 8\<rparr>)"
    "queues page_heads (Q(UMemHead := map PN js, USdHead := Q USdHead @ [PN j])) lk'"
proof -
  have H: "UMemHead \<in> page_heads" "USdHead \<in> page_heads" by (simp_all add: page_heads_def)
  note qs = r [unfolded resident_def]
  obtain m' lk1 j js a where c: "clock_loop s = Some (s\<lparr>mem := m', plinks := lk1\<rparr>)"
    "queues page_heads (Q(UMemHead := map PN (j # js))) lk1" "set (j # js) = set is"
    "pte_entry (pn s j) = Some a" "get_attribute (m' a) USED_BITS = 0" "aged (used_ptes is s) (mem s) m'"
    using clock_loop_spec [of page_heads Q s "is"] qs ne H by blast
  have j: "j \<in> set is" using c(3) by auto
  have nx: "nxt lk1 UMemHead = Some (PN j)"
    using dll_first [OF queues_dll [OF c(2) H(1)]] by simp
  obtain lk2 where lk2: "delete_list_node (PN j) lk1 = Some lk2"
    "queues page_heads (Q(UMemHead := map PN js)) lk2" "unqueued page_heads (Q(UMemHead := map PN js)) (PN j)"
    using pq.queues_deq [OF c(2) H(1), of "PN j"] by auto
  obtain lk3 where lk3: "insert_list_tail (PN j) USdHead lk2 = Some lk3"
    "queues page_heads (Q(UMemHead := map PN js, USdHead := Q USdHead @ [PN j])) lk3"
    using pq.queues_enq [OF lk2(2) H(2) lk2(3)] by auto
  have "nxt (plinks s) UMemHead \<noteq> Some UMemHead"
    using qs ne dll_next_eq_head [OF queues_dll [of page_heads Q "plinks s" UMemHead]] H by simp
  moreover have "pn_uva (pn s j) \<noteq> 0" using qs j by auto
  ultimately have "swap_page_out ops s = Some (pn_addr (pn s j),
       s\<lparr>mem := m'(a := clear_attribute (m' a) PAGE_PRESENT), plinks := lk3,
         pn := (pn s)(j := (pn s j)\<lparr>pn_addr := sd_sector_end s\<rparr>),
         swapdev := dsk_wr ops 8 (ucast (sd_sector_end s))
           (page_cells (pn_addr (pn s j)) (m'(a := clear_attribute (m' a) PAGE_PRESENT))) (swapdev s),
         sd_sector_end := sd_sector_end s + 8\<rparr>)"
    using c nx lk2(1) lk3(1) by (simp add: swap_page_out_def Let_def upd_pte_def upd_pn_def)
  then show thesis using that [of j a m' lk3 js] j c lk3(2) by blast
qed

lemma alloc_user_page_free:
  assumes "find_free_pages (user_bitmap s) FREE_USER_PAGE_NUM = Some f" "length (user_bitmap s) = 4608"
  obtains bm where "alloc_user_page ops s = Some (USER_MEM_BASE + PAGE_SIZE * word_of_nat f, s\<lparr>user_bitmap := bm\<rparr>)"
    "f < FREE_USER_PAGE_NUM" "\<not> bit_at (user_bitmap s) f" "length bm = 4608"
    "\<forall>j. bit_at bm j \<longleftrightarrow> j = f \<or> bit_at (user_bitmap s) j"
proof -
  have n: "FREE_USER_PAGE_NUM \<le> 8 * length (user_bitmap s)"
    by (simp add: FREE_USER_PAGE_NUM_def assms(2))
  have f: "f < FREE_USER_PAGE_NUM" "\<not> bit_at (user_bitmap s) f"
    using assms(1) pages.find_least [OF n] by (auto simp: first_idx_Some_iff)
  obtain bm where "mark_page_allocated f (user_bitmap s) = Some bm" "length bm = 4608"
    "\<forall>j. bit_at bm j \<longleftrightarrow> j = f \<or> bit_at (user_bitmap s) j"
    using pages.mark_ok [of f "user_bitmap s"] f n assms(2) by auto
  then show thesis using that f assms(1) by (simp add: alloc_user_page_def)
qed

lemma swap_page_in_spec:
  assumes qs: "queues page_heads Q (plinks s)" and j: "PN j \<in> set (Q USdHead)" "pn_uva (pn s j) \<noteq> 0"
    and a: "pte_entry (pn s j) = Some a"
    and f: "find_free_pages (user_bitmap s) FREE_USER_PAGE_NUM = Some f" "length (user_bitmap s) = 4608"
  defines "kva \<equiv> USER_MEM_BASE + PAGE_SIZE * word_of_nat f"
  obtains s' where "swap_page_in ops j s = Some s'" "pn_addr (pn s' j) = kva" "pte_entry (pn s' j) = Some a"
    "mem s' = (store_cells kva (dsk_rd ops 8 (ucast (pn_addr (pn s j))) (swapdev s)) (mem s))
       (a := set_attribute (set_pfn (store_cells kva (dsk_rd ops 8 (ucast (pn_addr (pn s j))) (swapdev s)) (mem s) a)
          (drop_bit NORMAL_PAGE_SHIFT (kva2pa kva))) USER_BITS)"
    "queues page_heads (Q(USdHead := remove1 (PN j) (Q USdHead), UMemHead := Q UMemHead @ [PN j])) (plinks s')"
proof -
  have H: "UMemHead \<in> page_heads" "USdHead \<in> page_heads" by (simp_all add: page_heads_def)
  let ?Q1 = "Q(USdHead := remove1 (PN j) (Q USdHead))"
  obtain lk1 where lk1: "delete_list_node (PN j) (plinks s) = Some lk1" "queues page_heads ?Q1 lk1"
    "unqueued page_heads ?Q1 (PN j)"
    using pq.queues_deq [OF qs H(2) j(1)] .
  obtain lk2 where lk2: "insert_list_tail (PN j) UMemHead lk1 = Some lk2"
    "queues page_heads (?Q1(UMemHead := ?Q1 UMemHead @ [PN j])) lk2"
    using pq.queues_enq [OF lk1(2) H(1) lk1(3)] .
  have "find_free_pages (user_bitmap (s\<lparr>plinks := lk1\<rparr>)) FREE_USER_PAGE_NUM = Some f"
    "length (user_bitmap (s\<lparr>plinks := lk1\<rparr>)) = 4608" using f by simp_all
  then obtain bm where bm: "alloc_user_page ops (s\<lparr>plinks := lk1\<rparr>) = Some (kva, s\<lparr>plinks := lk1, user_bitmap := bm\<rparr>)"
    using alloc_user_page_free [of "s\<lparr>plinks := lk1\<rparr>" f ops] unfolding kva_def by metis
  show thesis
    using that lk1(1) lk2 bm j(2) a by (simp add: swap_page_in_def Let_def upd_pn_def upd_pte_def)
qed

text \<open>
  C15: swapping terminates and picks a page that was not used recently. With at least one resident
  user page, \<^verbatim>\<open>swap_page_out\<close> returns (its second-chance loop ends although it may clear the bits of
  every page first), the page it gives up has neither its accessed nor its dirty bit set at that
  moment, it leaves the resident list for the end of the swapped list with its sector recorded,
  and the entry of the page is no longer present.
\<close>

theorem swap_page_out_returns:
  assumes "resident Q is s" "is \<noteq> []"
  shows "\<exists>kva s' j js a. swap_page_out ops s = Some (kva, s') \<and> j \<in> set is \<and> kva = pn_addr (pn s j) \<and>
    queues page_heads (Q(UMemHead := map PN js, USdHead := Q USdHead @ [PN j])) (plinks s') \<and>
    pn_addr (pn s' j) = sd_sector_end s \<and> pte_entry (pn s' j) = Some a \<and>
    get_attribute (mem s' a) (USED_BITS OR PAGE_PRESENT) = 0"
proof -
  obtain j js a m' lk' where "j \<in> set is" "pte_entry (pn s j) = Some a"
    "get_attribute (m' a) USED_BITS = 0"
    "swap_page_out ops s = Some (pn_addr (pn s j),
       s\<lparr>mem := m'(a := clear_attribute (m' a) PAGE_PRESENT), plinks := lk',
         pn := (pn s)(j := (pn s j)\<lparr>pn_addr := sd_sector_end s\<rparr>),
         swapdev := dsk_wr ops 8 (ucast (sd_sector_end s))
           (page_cells (pn_addr (pn s j)) (m'(a := clear_attribute (m' a) PAGE_PRESENT))) (swapdev s),
         sd_sector_end := sd_sector_end s + 8\<rparr>)"
    "queues page_heads (Q(UMemHead := map PN js, USdHead := Q USdHead @ [PN j])) lk'"
    using swap_page_out_spec [OF assms] .
  moreover have "get_attribute (clear_attribute e PAGE_PRESENT) (USED_BITS OR PAGE_PRESENT) = 0"
    if "get_attribute e USED_BITS = 0" for e
    using that by (auto simp: get_attribute_def clear_attribute_def bit_eq_iff bit_simps)
  ultimately show ?thesis by auto
qed

lemma pool_page:
  assumes "f < 2 ^ 20"
  shows "page_pa (kva2pa (USER_MEM_BASE + PAGE_SIZE * word_of_nat f))"
    "page_pa (kva2pa (INIT_KERNEL_STACK + PAGE_SIZE * word_of_nat f))"
proof -
  have u: "unat (4096 * word_of_nat f :: u64) = 4096 * f"
    using assms by (simp add: unat_word_ariths unat_of_nat)
  have pp: "page_pa (c + 4096 * word_of_nat f)" if "unat c mod 4096 = 0" "unat c < 2 ^ 32" for c :: u64
  proof (rule page_paI)
    have "unat (c + 4096 * word_of_nat f) = unat c + 4096 * f"
      using that(2) assms u by (simp add: unat_word_ariths(1))
    then show "unat (c + 4096 * word_of_nat f) mod 4096 = 0" "unat (c + 4096 * word_of_nat f) < 2 ^ 56"
      using that assms by simp_all
  qed
  have "kva2pa (USER_MEM_BASE + PAGE_SIZE * word_of_nat f) = 0x54000000 + 4096 * word_of_nat f"
    by (simp add: kva2pa_def USER_MEM_BASE_def PAGE_SIZE_def)
  then show "page_pa (kva2pa (USER_MEM_BASE + PAGE_SIZE * word_of_nat f))" using pp [of "0x54000000"] by simp
  have "kva2pa (INIT_KERNEL_STACK + PAGE_SIZE * word_of_nat f) = 0x52000000 + 4096 * word_of_nat f"
    by (simp add: kva2pa_def INIT_KERNEL_STACK_def PAGE_SIZE_def)
  then show "page_pa (kva2pa (INIT_KERNEL_STACK + PAGE_SIZE * word_of_nat f))" using pp [of "0x52000000"] by simp
qed

lemma user_bits_low: "take_bit 10 USER_BITS = USER_BITS" "take_bit 10 PAGE_PRESENT = PAGE_PRESENT"
  by (simp_all add: USER_BITS_def page_bits)

lemma get_set_attr: "get_attribute (set_attribute e b) b = b"
  by (auto simp: get_attribute_def set_attribute_def bit_eq_iff bit_simps)


section \<open>A concrete state\<close>

text \<open>One resident page of process 1 at the first user page, its entry in the cell at 0x2000.\<close>

definition demo_dsk :: "(u32 \<Rightarrow> u64 list) swap_ops" where
  "demo_dsk = \<lparr>dsk_rd = (\<lambda>n a d. d a), dsk_wr = (\<lambda>n a x d. d(a := x))\<rparr>"

definition demo_plinks :: "pnode links" where
  "demo_plinks = (let f = (\<lambda>p. case p of UMemHead \<Rightarrow> Some (PN 0) | PN i \<Rightarrow> (if i = 0 then Some UMemHead else None)
      | _ \<Rightarrow> Some p) in \<lparr>nxt = f, prv = f\<rparr>)"

definition demo_mm :: "(u32 \<Rightarrow> u64 list) mmst" where
  "demo_mm = \<lparr>pcbs = demo_pcbs, qlinks = \<lparr>nxt = demo_nxt, prv = demo_nxt\<rparr>,
     cur = (\<lambda>h. if h = 0 then Pcb 0 else SlavePid0), hart = 0, clk = (\<lambda>_. 10), clk_reads = 0, tty = [],
     mem = (\<lambda>a. if a = 0x2000 then 0xff else a), user_bitmap = 1 # replicate 4607 0,
     kernel_bitmap = 0xf # replicate 1023 0,
     pn = (\<lambda>i. \<lparr>pn_status = (if i = 0 then PN_ACTIVE else PN_INACTIVE), pte_entry = Some 0x2000, pn_pid = 1,
                pn_addr = USER_MEM_BASE, pn_uva = 0x10000\<rparr>),
     plinks = demo_plinks, sd_sector_end = 1000, swapdev = (\<lambda>_. []),
     shm_pages = (\<lambda>_. \<lparr>shm_key = 0, shm_status = SHM_UNUSED, shm_kva = 0, user_num = 0\<rparr>),
     userMemCurr = USER_STACK_ADDR, io_base = IO_ADDR_START\<rparr>"

definition demo_PQ :: "pnode \<Rightarrow> pnode list" where
  "demo_PQ h = (if h = UMemHead then [PN 0] else [])"

lemma demo_resident: "resident demo_PQ [0] demo_mm"
proof -
  have "queues page_heads demo_PQ demo_plinks"
    by (rule queuesI) (auto simp: page_heads_def demo_PQ_def demo_plinks_def Let_def dll_def split: if_splits)
  then show ?thesis by (simp add: resident_def demo_mm_def demo_PQ_def)
qed

lemma demo_free_user: "find_free_pages (user_bitmap demo_mm) FREE_USER_PAGE_NUM = Some 1"
proof -
  have "find_free_pages (user_bitmap demo_mm) FREE_USER_PAGE_NUM =
      first_idx (\<lambda>i. \<not> bit_at (user_bitmap demo_mm) i) FREE_USER_PAGE_NUM"
    by (rule pages.find_least) (simp add: demo_mm_def FREE_USER_PAGE_NUM_def)
  moreover have "bit_at (user_bitmap demo_mm) 0" "\<not> bit_at (user_bitmap demo_mm) 1"
    by (simp_all add: demo_mm_def bit_at_def)
  ultimately show ?thesis by (auto simp: first_idx_Some_iff FREE_USER_PAGE_NUM_def)
qed

lemma demo_apart:
  "\<not> in_page (USER_MEM_BASE + PAGE_SIZE * word_of_nat k) 0x2000" if "k < 2"
proof
  let ?b = "USER_MEM_BASE + PAGE_SIZE * word_of_nat k"
  assume "in_page ?b 0x2000"
  moreover have "aligned ?b" using that by (auto simp: less_2_cases_iff aligned_def USER_MEM_BASE_def PAGE_SIZE_def)
  ultimately have "drop_bit 12 (0x2000 :: u64) = drop_bit 12 ?b" by (intro in_page_frame)
  then show False using that by (auto simp: less_2_cases_iff USER_MEM_BASE_def PAGE_SIZE_def)
qed

theorem swap_page_out_returns_witness:
  "\<exists>s'. swap_page_out demo_dsk demo_mm = Some (USER_MEM_BASE, s')"
  using swap_page_out_returns [OF demo_resident, of demo_dsk] by (auto simp: demo_mm_def)


end
