(* ===== verification/Paging.thy ===== *)
theory Paging
  imports Swap
begin

text \<open>
  Building page tables: \<^verbatim>\<open>alloc_page_helper\<close> (src/kernel/mm/mm.c) maps the page it was asked for and
  keeps every other mapping of the address space. The user half of an address space is a tree of
  table pages (\<open>pt_tree\<close>) none of which is in the pool of free kernel pages.
\<close>

section \<open>Tables as partial maps\<close>

text \<open>The table that entry \<open>i\<close> of the table at \<open>t\<close> points to.\<close>

definition sub :: "(u64 \<Rightarrow> u64) \<Rightarrow> u64 \<Rightarrow> u64 \<Rightarrow> u64 option" where
  "sub m t i = (if m (pte_addr t i) = 0 then None else Some (pa2kva (get_pa (m (pte_addr t i)))))"

lemma uva2pte_sub:
  "uva2pte m va pd = Option.bind (sub m pd (vpn2 (va AND VA_MASK)))
     (\<lambda>t2. Option.bind (sub m t2 (vpn1 (va AND VA_MASK))) (\<lambda>t1. Some (pte_addr t1 (vpn0 (va AND VA_MASK)))))"
  by (simp add: uva2pte_def sub_def Let_def)

definition table_entry :: "u64 \<Rightarrow> u64" where
  "table_entry t = set_attribute (set_pfn 0 (drop_bit NORMAL_PAGE_SHIFT (kva2pa t))) PAGE_PRESENT"

lemma table_entry_props:
  assumes "page_pa (kva2pa t)"
  shows "table_entry t \<noteq> 0" "pa2kva (get_pa (table_entry t)) = t"
proof -
  have "get_attribute (table_entry t) PAGE_PRESENT = PAGE_PRESENT" by (simp add: table_entry_def get_set_attr)
  then show "table_entry t \<noteq> 0" by (auto simp: get_attribute_def page_bits)
  show "pa2kva (get_pa (table_entry t)) = t"
    using assms by (simp add: table_entry_def get_pa_attr(1) [OF user_bits_low(2)] get_pa_set_pfn)
qed

text \<open>Entering a cleared new table \<open>t\<close> as entry \<open>i\<close> of table \<open>T\<close>.\<close>

definition add_table :: "u64 \<Rightarrow> u64 \<Rightarrow> u64 \<Rightarrow> (u64 \<Rightarrow> u64) \<Rightarrow> (u64 \<Rightarrow> u64)" where
  "add_table t T i m = clear_pgdir t (m(pte_addr T i := table_entry t))"

lemma add_table_read:
  assumes "aligned t" "aligned T" "aligned b" "T \<noteq> t" "unat i < 512" "unat k < 512"
  shows "add_table t T i m (pte_addr b k) =
    (if b = t then 0 else if b = T \<and> k = i then table_entry t else m (pte_addr b k))"
proof -
  have in_b: "in_page b (pte_addr b k)" using assms(6) by (rule pte_addr_in_page)
  have clr: "(\<exists>j < 512. pte_addr b k = t + 8 * word_of_nat j) \<longleftrightarrow> b = t"
    using aligned_pages_disjoint [OF assms(3,1) in_b] in_b unfolding in_page_def by metis
  have "pte_addr b k = pte_addr T i \<longleftrightarrow> b = T \<and> k = i"
    using aligned_pages_disjoint [OF assms(3,2) in_b] pte_addr_in_page [OF assms(5), of T]
      pte_addr_inj [OF assms(6,5)] by metis
  then show ?thesis by (simp add: add_table_def clear_pgdir_apply clr)
qed

lemma sub_add_table:
  assumes "aligned t" "aligned T" "aligned b" "T \<noteq> t" "unat i < 512" "unat k < 512" "page_pa (kva2pa t)"
  shows "sub (add_table t T i m) b k =
    (if b = t then None else if b = T \<and> k = i then Some t else sub m b k)"
  using assms table_entry_props [OF assms(7)] by (simp add: sub_def add_table_read)

section \<open>The tree of an address space\<close>

text \<open>
  \<open>pt_tree m pd F\<close>: the tables reached from the user half of the directory \<open>pd\<close> are pairwise
  different aligned pages, and none is in \<open>F\<close>.
\<close>

definition pt_tree :: "(u64 \<Rightarrow> u64) \<Rightarrow> u64 \<Rightarrow> u64 set \<Rightarrow> bool" where
  "pt_tree m pd F \<longleftrightarrow> aligned pd \<and> pd \<notin> F \<and>
     (\<forall>i t. unat i < 256 \<and> sub m pd i = Some t \<longrightarrow> aligned t \<and> t \<notin> F \<and> t \<noteq> pd) \<and>
     (\<forall>i i' t. unat i < 256 \<and> unat i' < 256 \<and> sub m pd i = Some t \<and> sub m pd i' = Some t \<longrightarrow> i = i') \<and>
     (\<forall>i j t u. unat i < 256 \<and> unat j < 512 \<and> sub m pd i = Some t \<and> sub m t j = Some u \<longrightarrow>
        aligned u \<and> u \<notin> F \<and> u \<noteq> pd \<and> (\<forall>i'. unat i' < 256 \<longrightarrow> sub m pd i' \<noteq> Some u)) \<and>
     (\<forall>i j t i' j' t' u. unat i < 256 \<and> unat j < 512 \<and> sub m pd i = Some t \<and> sub m t j = Some u \<and>
        unat i' < 256 \<and> unat j' < 512 \<and> sub m pd i' = Some t' \<and> sub m t' j' = Some u \<longrightarrow> i = i' \<and> j = j')"

lemma pt_treeD:
  assumes "pt_tree m pd F"
  shows "aligned pd" "pd \<notin> F"
    "unat i < 256 \<Longrightarrow> sub m pd i = Some t \<Longrightarrow> aligned t \<and> t \<notin> F \<and> t \<noteq> pd"
    "unat i < 256 \<Longrightarrow> unat i' < 256 \<Longrightarrow> sub m pd i = Some t \<Longrightarrow> sub m pd i' = Some t \<Longrightarrow> i = i'"
    "unat i < 256 \<Longrightarrow> unat j < 512 \<Longrightarrow> sub m pd i = Some t \<Longrightarrow> sub m t j = Some u \<Longrightarrow>
        aligned u \<and> u \<notin> F \<and> u \<noteq> pd \<and> (\<forall>i'. unat i' < 256 \<longrightarrow> sub m pd i' \<noteq> Some u)"
    "unat i < 256 \<Longrightarrow> unat j < 512 \<Longrightarrow> sub m pd i = Some t \<Longrightarrow> sub m t j = Some u \<Longrightarrow>
     unat i' < 256 \<Longrightarrow> unat j' < 512 \<Longrightarrow> sub m pd i' = Some t' \<Longrightarrow> sub m t' j' = Some u \<Longrightarrow> i = i' \<and> j = j'"
  using assms unfolding pt_tree_def by blast+

text \<open>A table for the directory.\<close>

lemma pt_tree_add2:
  assumes T: "pt_tree m pd F" and t: "t \<in> F" "aligned t" "page_pa (kva2pa t)"
    and i: "unat i < 256" "sub m pd i = None"
  defines "m' \<equiv> add_table t pd i m"
  shows "pt_tree m' pd (F - {t})" "sub m' pd i = Some t"
    "\<And>k. unat k < 256 \<Longrightarrow> sub m' pd k = (if k = i then Some t else sub m pd k)"
    "\<And>k u j. unat k < 256 \<Longrightarrow> sub m pd k = Some u \<Longrightarrow> unat j < 512 \<Longrightarrow> sub m' u j = sub m u j"
proof -
  have pd: "aligned pd" "pd \<noteq> t" using pt_treeD(1,2) [OF T] t(1) by auto
  have i': "unat i < 512" using i(1) by simp
  have s1: "sub m' pd k = (if k = i then Some t else sub m pd k)" if "unat k < 256" for k
    using that sub_add_table [OF t(2) pd(1) pd(1) pd(2) i', of k m] t(3) pd(2) by (simp add: m'_def)
  show "sub m' pd i = Some t" using s1 [OF i(1)] by simp
  have s2: "sub m' u j = sub m u j" if "unat k < 256" "sub m pd k = Some u" "unat j < 512" for k u j
    using pt_treeD(3) [OF T that(1,2)] t(1) sub_add_table [OF t(2) pd(1) _ pd(2) i' that(3) t(3), of u m]
    by (auto simp: m'_def)
  have s3: "sub m' t j = None" if "unat j < 512" for j
    using sub_add_table [OF t(2) pd(1) t(2) pd(2) i' that t(3)] by (simp add: m'_def)
  show "\<And>k. unat k < 256 \<Longrightarrow> sub m' pd k = (if k = i then Some t else sub m pd k)" by (rule s1)
  show "\<And>k u j. unat k < 256 \<Longrightarrow> sub m pd k = Some u \<Longrightarrow> unat j < 512 \<Longrightarrow> sub m' u j = sub m u j" by (rule s2)
  have old: "k \<noteq> i \<and> sub m pd k = Some u \<and> sub m u j = Some v"
    if "unat k < 256" "sub m' pd k = Some u" "unat j < 512" "sub m' u j = Some v" for k u j v
  proof (cases "k = i")
    case True
    then show ?thesis using that s1 [of k] s3 by simp
  next
    case False
    then show ?thesis using that s1 [of k] s2 [of k u j] by simp
  qed
  show "pt_tree m' pd (F - {t})"
    unfolding pt_tree_def
  proof (intro conjI allI impI; (elim conjE)?)
    fix k u assume "unat k < 256" "sub m' pd k = Some u"
    then have "k = i \<and> u = t \<or> sub m pd k = Some u" using s1 by (auto split: if_splits)
    then show "aligned u" "u \<notin> F - {t}" "u \<noteq> pd" using pt_treeD(3) [OF T \<open>unat k < 256\<close>] t pd by auto
  next
    fix k k' u assume "unat k < 256" "unat k' < 256" "sub m' pd k = Some u" "sub m' pd k' = Some u"
    then show "k = k'"
      using s1 pt_treeD(3,4) [OF T] t(1) by (auto split: if_splits)
  next
    fix k j u v and k' :: u64
    assume a: "unat k < 256" "unat j < 512" "sub m' pd k = Some u" "sub m' u j = Some v"
    have o: "sub m pd k = Some u" "sub m u j = Some v" using old [OF a(1,3,2,4)] by auto
    note p = pt_treeD(5) [OF T a(1,2) o]
    then show "aligned v" "v \<notin> F - {t}" "v \<noteq> pd" by auto
    assume "unat k' < 256"
    then show "sub m' pd k' \<noteq> Some v" using s1 [of k'] p t(1) by auto
  next
    fix k j u k' j' u' v
    assume a: "unat k < 256" "unat j < 512" "sub m' pd k = Some u" "sub m' u j = Some v"
      and b: "unat k' < 256" "unat j' < 512" "sub m' pd k' = Some u'" "sub m' u' j' = Some v"
    then show "k = k'" "j = j'"
      using pt_treeD(6) [OF T a(1,2) _ _ b(1,2)] old [OF a(1,3,2,4)] old [OF b(1,3,2,4)] by blast+
  qed (use pt_treeD(1,2) [OF T] in auto)
qed

text \<open>A table for a table of the directory.\<close>

lemma pt_tree_add1:
  assumes T: "pt_tree m pd F" and t: "t \<in> F" "aligned t" "page_pa (kva2pa t)"
    and i: "unat i < 256" "sub m pd i = Some t2" "unat j < 512" "sub m t2 j = None"
  defines "m' \<equiv> add_table t t2 j m"
  shows "pt_tree m' pd (F - {t})" "sub m' t2 j = Some t"
    "\<And>k. unat k < 256 \<Longrightarrow> sub m' pd k = sub m pd k"
    "\<And>k u l. unat k < 256 \<Longrightarrow> sub m pd k = Some u \<Longrightarrow> unat l < 512 \<Longrightarrow>
      sub m' u l = (if u = t2 \<and> l = j then Some t else sub m u l)"
proof -
  note t2 = pt_treeD(3) [OF T i(1,2)]
  have pd: "aligned pd" "pd \<noteq> t" "t2 \<noteq> t" using pt_treeD(1,2) [OF T] t(1) t2 by auto
  have s1: "sub m' pd k = sub m pd k" if "unat k < 256" for k
    using that sub_add_table [OF t(2) _ pd(1) pd(3) i(3), of k m] t(3) t2 pd(2) by (auto simp: m'_def)
  show "\<And>k. unat k < 256 \<Longrightarrow> sub m' pd k = sub m pd k" by (rule s1)
  have s2: "sub m' u l = (if u = t2 \<and> l = j then Some t else sub m u l)"
    if "unat k < 256" "sub m pd k = Some u" "unat l < 512" for k u l
    using pt_treeD(3) [OF T that(1,2)] t(1) t2 sub_add_table [OF t(2) _ _ pd(3) i(3) that(3) t(3), of u m]
    by (auto simp: m'_def)
  then show "\<And>k u l. unat k < 256 \<Longrightarrow> sub m pd k = Some u \<Longrightarrow> unat l < 512 \<Longrightarrow>
      sub m' u l = (if u = t2 \<and> l = j then Some t else sub m u l)" by blast
  show "sub m' t2 j = Some t" using s2 [OF i(1,2,3)] by simp
  have old: "v = t \<and> k = i \<and> l = j \<or> v \<noteq> t \<and> sub m u l = Some v"
    if "unat k < 256" "sub m pd k = Some u" "unat l < 512" "sub m' u l = Some v" for k u l v
    using that s2 [OF that(1,2,3)] pt_treeD(4) [OF T that(1) i(1) that(2)] i(2)
      pt_treeD(5) [OF T that(1,3,2), of v] t(1) by (auto split: if_splits)
  show "pt_tree m' pd (F - {t})"
    unfolding pt_tree_def
  proof (intro conjI allI impI; (elim conjE)?)
    fix k u assume "unat k < 256" "sub m' pd k = Some u"
    then show "aligned u" "u \<notin> F - {t}" "u \<noteq> pd" using pt_treeD(3) [OF T] s1 by auto
  next
    fix k k' u assume "unat k < 256" "unat k' < 256" "sub m' pd k = Some u" "sub m' pd k' = Some u"
    then show "k = k'" using s1 pt_treeD(4) [OF T] by auto
  next
    fix k l u v and k' :: u64
    assume a: "unat k < 256" "unat l < 512" "sub m' pd k = Some u" "sub m' u l = Some v"
    have u: "sub m pd k = Some u" using a(1,3) s1 by simp
    note o = old [OF a(1) u a(2,4)]
    then show "aligned v" "v \<notin> F - {t}" "v \<noteq> pd" using pt_treeD(5) [OF T a(1,2) u, of v] t(2) pd(2) by auto
    assume "unat k' < 256"
    then show "sub m' pd k' \<noteq> Some v"
      using s1 [of k'] o pt_treeD(5) [OF T a(1,2) u, of v] pt_treeD(3) [OF T, of k' t] t(1) by auto
  next
    fix k l u k' l' u' v
    assume a: "unat k < 256" "unat l < 512" "sub m' pd k = Some u" "sub m' u l = Some v"
      and b: "unat k' < 256" "unat l' < 512" "sub m' pd k' = Some u'" "sub m' u' l' = Some v"
    have u: "sub m pd k = Some u" "sub m pd k' = Some u'" using a b s1 by simp_all
    note old [OF a(1) u(1) a(2,4)] old [OF b(1) u(2) b(2,4)]
    then show "k = k'" "l = l'" using pt_treeD(6) [OF T a(1,2) u(1) _ b(1,2) u(2)] by blast+
  qed (use pt_treeD(1,2) [OF T] in auto)
qed

text \<open>Writing a leaf entry changes no table.\<close>

lemma pt_tree_leaf:
  assumes T: "pt_tree m pd F" and i: "unat i < 256" "sub m pd i = Some t2" "unat j < 512" "sub m t2 j = Some t1" "unat k < 512"
    and m'_def: "m' = m(pte_addr t1 k := e)"
  shows "pt_tree m' pd F"
    "\<And>l. unat l < 256 \<Longrightarrow> sub m' pd l = sub m pd l"
    "\<And>l u n. unat l < 256 \<Longrightarrow> sub m pd l = Some u \<Longrightarrow> unat n < 512 \<Longrightarrow> sub m' u n = sub m u n"
proof -
  note t1 = pt_treeD(5) [OF T i(1,3,2,4)]
  have same: "sub m' b n = sub m b n" if "aligned b" "b \<noteq> t1" "unat n < 512" for b n
  proof -
    have "pte_addr b n \<noteq> pte_addr t1 k"
      using aligned_pages_disjoint [OF that(1) conjunct1 [OF t1] pte_addr_in_page [OF that(3)]]
        pte_addr_in_page [OF i(5), of t1] that(2) by metis
    then show ?thesis by (simp add: sub_def m'_def)
  qed
  show s1: "sub m' pd l = sub m pd l" if "unat l < 256" for l
    using that same [of pd l] pt_treeD(1) [OF T] t1 by auto
  show s2: "sub m' u n = sub m u n" if "unat l < 256" "sub m pd l = Some u" "unat n < 512" for l u n
    using same [of u n] that pt_treeD(3) [OF T that(1,2)] t1 by metis
  have old: "sub m pd l = Some u \<and> sub m u n = Some v"
    if "unat l < 256" "sub m' pd l = Some u" "unat n < 512" "sub m' u n = Some v" for l u n v
    using that s1 [of l] s2 [of l u n] by simp
  show "pt_tree m' pd F"
    unfolding pt_tree_def
  proof (intro conjI allI impI; (elim conjE)?)
    fix l u assume "unat l < 256" "sub m' pd l = Some u"
    then show "aligned u" "u \<notin> F" "u \<noteq> pd" using pt_treeD(3) [OF T] s1 by auto
  next
    fix l l' u assume "unat l < 256" "unat l' < 256" "sub m' pd l = Some u" "sub m' pd l' = Some u"
    then show "l = l'" using s1 pt_treeD(4) [OF T] by auto
  next
    fix l n u v and l' :: u64
    assume a: "unat l < 256" "unat n < 512" "sub m' pd l = Some u" "sub m' u n = Some v"
    note p = pt_treeD(5) [OF T a(1,2) conjunct1 [OF old [OF a(1,3,2,4)]] conjunct2 [OF old [OF a(1,3,2,4)]]]
    then show "aligned v" "v \<notin> F" "v \<noteq> pd" by auto
    assume "unat l' < 256"
    then show "sub m' pd l' \<noteq> Some v" using s1 [of l'] p by auto
  next
    fix l n u l' n' u' v
    assume a: "unat l < 256" "unat n < 512" "sub m' pd l = Some u" "sub m' u n = Some v"
      and b: "unat l' < 256" "unat n' < 512" "sub m' pd l' = Some u'" "sub m' u' n' = Some v"
    then show "l = l'" "n = n'"
      using pt_treeD(6) [OF T a(1,2) _ _ b(1,2)] old [OF a(1,3,2,4)] old [OF b(1,3,2,4)] by blast+
  qed (use pt_treeD(1,2) [OF T] in auto)
qed

section \<open>Resources\<close>

definition kpage :: "nat \<Rightarrow> u64" where
  "kpage f = INIT_KERNEL_STACK + PAGE_SIZE * word_of_nat f"

definition free_kpages :: "('d, 'a) mmst_scheme \<Rightarrow> nat set" where
  "free_kpages s = {i. i < FREE_KERNEL_PAGE_NUM \<and> \<not> bit_at (kernel_bitmap s) i}"

definition free_upages :: "('d, 'a) mmst_scheme \<Rightarrow> nat set" where
  "free_upages s = {i. i < FREE_USER_PAGE_NUM \<and> \<not> bit_at (user_bitmap s) i}"

definition free_nodes :: "('d, 'a) mmst_scheme \<Rightarrow> nat set" where
  "free_nodes s = {i. i < PageNode_MAXNUM \<and> pn_status (pn s i) = PN_INACTIVE}"

text \<open>
  \<open>mm_ready k u n s\<close>: bitmaps and page lists are well formed, and at least \<open>k\<close> kernel pages, \<open>u\<close> user
  pages and \<open>n\<close> page nodes are free.
\<close>

definition mm_ready :: "nat \<Rightarrow> nat \<Rightarrow> nat \<Rightarrow> ('d, 'a) mmst_scheme \<Rightarrow> bool" where
  "mm_ready k u n s \<longleftrightarrow> length (kernel_bitmap s) = 1024 \<and> length (user_bitmap s) = 4608 \<and>
     (\<exists>Q. queues page_heads Q (plinks s) \<and> (\<forall>i \<in> free_nodes s. unqueued page_heads Q (PN i))) \<and>
     k \<le> card (free_kpages s) \<and> u \<le> card (free_upages s) \<and> n \<le> card (free_nodes s)"

lemma finite_free [simp]: "finite (free_kpages s)" "finite (free_upages s)" "finite (free_nodes s)"
  by (simp_all add: free_kpages_def free_upages_def free_nodes_def)

lemma unat_kpage: "f < FREE_KERNEL_PAGE_NUM \<Longrightarrow> unat (kpage f) = 0xffffffc052000000 + 4096 * f"
proof -
  assume f: "f < FREE_KERNEL_PAGE_NUM"
  then have "unat (4096 * word_of_nat f :: u64) = 4096 * f"
    by (simp add: unat_word_ariths unat_of_nat FREE_KERNEL_PAGE_NUM_def)
  then show ?thesis
    using f by (simp add: kpage_def INIT_KERNEL_STACK_def PAGE_SIZE_def unat_word_ariths(1) FREE_KERNEL_PAGE_NUM_def)
qed

lemma kpage_props:
  assumes "f < FREE_KERNEL_PAGE_NUM"
  shows "page_pa (kva2pa (kpage f))" "aligned (kpage f)"
proof -
  have f: "f < 2 ^ 20" using assms by (simp add: FREE_KERNEL_PAGE_NUM_def)
  then show "page_pa (kva2pa (kpage f))" using pool_page(2) by (simp add: kpage_def)
  show "aligned (kpage f)" using unat_kpage [OF assms] by (intro alignedI) simp
qed

lemma kpage_inj:
  assumes "f < FREE_KERNEL_PAGE_NUM" "g < FREE_KERNEL_PAGE_NUM" "kpage f = kpage g"
  shows "f = g"
proof -
  have "unat (kpage f) = unat (kpage g)" by (simp only: assms(3))
  then show ?thesis unfolding unat_kpage [OF assms(1)] unat_kpage [OF assms(2)] by simp
qed

lemma create_PageNode_spec:
  assumes "mm_ready k u (Suc n) s" "uva \<noteq> 0"
  obtains nd lk i where "create_PageNode kva uva pd p s = Some (s\<lparr>pn := (pn s)(i := nd), plinks := lk\<rparr>)"
    "mm_ready k u n (s\<lparr>pn := (pn s)(i := nd), plinks := lk\<rparr>)"
    "i \<in> free_nodes s" "pn_addr nd = kva" "pn_uva nd = uva" "pn_pid nd = pid (pcbs s p)"
    "nxt (plinks s) USdHead = Some USdHead \<longrightarrow> nxt lk USdHead = Some USdHead"
proof -
  obtain Q where Q: "queues page_heads Q (plinks s)" "\<forall>i \<in> free_nodes s. unqueued page_heads Q (PN i)"
    using assms(1) by (auto simp: mm_ready_def)
  have "free_nodes s \<noteq> {}" using assms(1) by (auto simp: mm_ready_def)
  then obtain i where i: "get_free_PageNode s = Some i" "i \<in> free_nodes s"
    using first_idx_None_iff [of "\<lambda>i. pn_status (pn s i) = PN_INACTIVE" PageNode_MAXNUM]
      first_idx_Some_iff [of "\<lambda>i. pn_status (pn s i) = PN_INACTIVE" PageNode_MAXNUM]
    by (cases "get_free_PageNode s") (auto simp: get_free_PageNode_def free_nodes_def)
  define h where "h = (if uva = kva then KPageHead else UMemHead)"
  have h: "h \<in> page_heads" by (simp add: h_def page_heads_def)
  obtain lk where lk: "insert_list_tail (PN i) h (plinks s) = Some lk"
    "queues page_heads (Q(h := Q h @ [PN i])) lk"
    using pq.queues_enq [OF Q(1) h bspec [OF Q(2) i(2)]] .
  define nd where "nd = (pn s i)\<lparr>pn_status := PN_ACTIVE, pn_addr := kva, pn_pid := pid (pcbs s p), pn_uva := uva,
      pte_entry := (if uva = kva then kva2pte (mem s) kva (pgdir (pcbs s (current_running s))) else uva2pte (mem s) uva pd)\<rparr>"
  let ?s = "s\<lparr>pn := (pn s)(i := nd), plinks := lk\<rparr>"
  have "create_PageNode kva uva pd p s = Some ?s"
    using assms(2) i(1) lk(1)
    by (cases "uva = kva") (simp_all add: create_PageNode_def h_def nd_def Let_def upd_pn_def current_running_def)
  moreover have fn: "free_nodes ?s = free_nodes s - {i}" by (auto simp: free_nodes_def nd_def)
  have "\<forall>j \<in> free_nodes ?s. unqueued page_heads (Q(h := Q h @ [PN i])) (PN j)"
    using Q(2) h by (auto simp: fn unqueued_append)
  then have "mm_ready k u n ?s"
    using assms(1) lk(2) i(2) fn by (auto simp: mm_ready_def free_kpages_def free_upages_def)
  moreover have "pn_addr nd = kva" "pn_uva nd = uva" "pn_pid nd = pid (pcbs s p)" by (simp_all add: nd_def)
  moreover have "nxt (plinks s) USdHead = Some USdHead \<longrightarrow> nxt lk USdHead = Some USdHead"
  proof
    have d: "dll (plinks s) USdHead (Q USdHead)" "dll lk USdHead ((Q(h := Q h @ [PN i])) USdHead)"
      using queues_dll [OF Q(1), of USdHead] queues_dll [OF lk(2), of USdHead] by (simp_all add: page_heads_def)
    assume "nxt (plinks s) USdHead = Some USdHead"
    then have "Q USdHead = []" using dll_next_eq_head [OF d(1)] by simp
    moreover have "USdHead \<noteq> h" by (simp add: h_def)
    ultimately show "nxt lk USdHead = Some USdHead" using d(2) by (simp add: dll_Nil_iff)
  qed
  ultimately show thesis using that i(2) by blast
qed

text \<open>Taking a kernel page when one is free.\<close>

lemma alloc_kernel_page_free:
  assumes "mm_ready (Suc k) u n s"
  obtains f bm where "alloc_kernel_page ops s = Some (kpage f, s\<lparr>kernel_bitmap := bm\<rparr>)" "f \<in> free_kpages s"
    "free_kpages (s\<lparr>kernel_bitmap := bm\<rparr>) = free_kpages s - {f}" "mm_ready k u n (s\<lparr>kernel_bitmap := bm\<rparr>)"
proof -
  have len: "length (kernel_bitmap s) = 1024" "FREE_KERNEL_PAGE_NUM \<le> 8 * length (kernel_bitmap s)"
    using assms by (simp_all add: mm_ready_def FREE_KERNEL_PAGE_NUM_def)
  have "free_kpages s \<noteq> {}" using assms by (auto simp: mm_ready_def)
  then obtain f where f: "find_free_pages (kernel_bitmap s) FREE_KERNEL_PAGE_NUM = Some f" "f \<in> free_kpages s"
    using pages.find_least [OF len(2)] first_idx_None_iff [of "\<lambda>i. \<not> bit_at (kernel_bitmap s) i" FREE_KERNEL_PAGE_NUM]
      first_idx_Some_iff [of "\<lambda>i. \<not> bit_at (kernel_bitmap s) i" FREE_KERNEL_PAGE_NUM]
    by (cases "find_free_pages (kernel_bitmap s) FREE_KERNEL_PAGE_NUM") (auto simp: free_kpages_def)
  obtain bm where bm: "mark_page_allocated f (kernel_bitmap s) = Some bm" "length bm = 1024"
    "\<forall>j. bit_at bm j \<longleftrightarrow> j = f \<or> bit_at (kernel_bitmap s) j"
    using pages.mark_ok [of f "kernel_bitmap s"] f(2) len by (auto simp: free_kpages_def)
  have fk: "free_kpages (s\<lparr>kernel_bitmap := bm\<rparr>) = free_kpages s - {f}"
    using bm(3) by (auto simp: free_kpages_def)
  moreover have "mm_ready k u n (s\<lparr>kernel_bitmap := bm\<rparr>)"
    using assms bm(2) f(2) fk by (auto simp: mm_ready_def free_upages_def free_nodes_def)
  ultimately show thesis using that f bm(1) by (simp add: alloc_kernel_page_def kpage_def)
qed

lemma alloc_user_page_ready:
  assumes "mm_ready k (Suc u) n s"
  obtains f bm where "alloc_user_page ops s = Some (USER_MEM_BASE + PAGE_SIZE * word_of_nat f, s\<lparr>user_bitmap := bm\<rparr>)"
    "f \<in> free_upages s" "free_upages (s\<lparr>user_bitmap := bm\<rparr>) = free_upages s - {f}" "mm_ready k u n (s\<lparr>user_bitmap := bm\<rparr>)"
proof -
  have len: "length (user_bitmap s) = 4608" "FREE_USER_PAGE_NUM \<le> 8 * length (user_bitmap s)"
    using assms by (simp_all add: mm_ready_def FREE_USER_PAGE_NUM_def)
  have "free_upages s \<noteq> {}" using assms by (auto simp: mm_ready_def)
  then obtain f where f: "find_free_pages (user_bitmap s) FREE_USER_PAGE_NUM = Some f" "f \<in> free_upages s"
    using pages.find_least [OF len(2)] first_idx_None_iff [of "\<lambda>i. \<not> bit_at (user_bitmap s) i" FREE_USER_PAGE_NUM]
      first_idx_Some_iff [of "\<lambda>i. \<not> bit_at (user_bitmap s) i" FREE_USER_PAGE_NUM]
    by (cases "find_free_pages (user_bitmap s) FREE_USER_PAGE_NUM") (auto simp: free_upages_def)
  obtain bm where bm: "alloc_user_page ops s = Some (USER_MEM_BASE + PAGE_SIZE * word_of_nat f, s\<lparr>user_bitmap := bm\<rparr>)"
    "length bm = 4608" "\<forall>j. bit_at bm j \<longleftrightarrow> j = f \<or> bit_at (user_bitmap s) j"
    using alloc_user_page_free [OF f(1) len(1)] .
  have fu: "free_upages (s\<lparr>user_bitmap := bm\<rparr>) = free_upages s - {f}" using bm(3) by (auto simp: free_upages_def)
  moreover have "mm_ready k u n (s\<lparr>user_bitmap := bm\<rparr>)"
    using assms bm(2) f(2) fu by (auto simp: mm_ready_def free_kpages_def free_nodes_def)
  ultimately show thesis using that f(2) bm(1) by blast
qed

section \<open>Building the mapping\<close>

lemma kpage_nonzero: "f < FREE_KERNEL_PAGE_NUM \<Longrightarrow> kpage f \<noteq> 0"
  using unat_kpage [of f] by auto

lemma mm_ready_mem [simp]: "mm_ready k u n (s\<lparr>mem := m\<rparr>) = mm_ready k u n s"
  by (simp add: mm_ready_def free_kpages_def free_upages_def free_nodes_def)

lemma free_cong [simp]:
  "free_kpages (s\<lparr>mem := m\<rparr>) = free_kpages s" "free_upages (s\<lparr>mem := m\<rparr>) = free_upages s"
  "free_kpages (s\<lparr>pn := x, plinks := lk\<rparr>) = free_kpages s" "free_upages (s\<lparr>pn := x, plinks := lk\<rparr>) = free_upages s"
  "free_upages (s\<lparr>kernel_bitmap := bm\<rparr>) = free_upages s" "free_kpages (s\<lparr>user_bitmap := bm\<rparr>) = free_kpages s"
  by (simp_all add: free_kpages_def free_upages_def)

text \<open>
  What the construction leaves alone: the process table, the swap device, an empty list of swapped pages, and the pages of a
  set \<open>U\<close> that holds no table.
\<close>

definition quiet :: "u64 set \<Rightarrow> ('d, 'a) mmst_scheme \<Rightarrow> ('d, 'a) mmst_scheme \<Rightarrow> bool" where
  "quiet U s s' \<longleftrightarrow> pcbs s' = pcbs s \<and> swapdev s' = swapdev s \<and>
     (nxt (plinks s) USdHead = Some USdHead \<longrightarrow> nxt (plinks s') USdHead = Some USdHead) \<and>
     (\<forall>x \<in> U. \<forall>b. aligned x \<longrightarrow> in_page x b \<longrightarrow> mem s' b = mem s b)"

lemma quiet_refl [simp]: "quiet U s s"
  by (simp add: quiet_def)

lemma quiet_trans: "quiet U s s' \<Longrightarrow> quiet U s' s'' \<Longrightarrow> quiet U s s''"
  by (simp add: quiet_def)

definition no_kpage :: "u64 set \<Rightarrow> bool" where
  "no_kpage U \<longleftrightarrow> (\<forall>f < FREE_KERNEL_PAGE_NUM. kpage f \<notin> U)"

lemma add_table_other:
  assumes "aligned t" "aligned T" "aligned x" "x \<noteq> t" "x \<noteq> T" "unat i < 512" "in_page x b"
  shows "add_table t T i m b = m b"
proof -
  have "\<not> in_page t b" "b \<noteq> pte_addr T i"
    using aligned_pages_disjoint [OF assms(3) _ assms(7)] assms pte_addr_in_page [OF assms(6), of T] by blast+
  then show ?thesis by (auto simp: add_table_def clear_pgdir_apply in_page_def)
qed

lemma ensure_table_old: "sub (mem s) T i = Some t \<Longrightarrow> ensure_table ops T i p s = Some s"
  by (auto simp: ensure_table_def sub_def split: if_splits)

lemma ensure_table_new:
  assumes "mm_ready (Suc k) u (Suc n) s" "sub (mem s) T i = None"
  obtains f s' where "ensure_table ops T i p s = Some s'" "f \<in> free_kpages s"
    "mem s' = add_table (kpage f) T i (mem s)" "free_kpages s' = free_kpages s - {f}"
    "free_upages s' = free_upages s" "mm_ready k u n s'"
    "\<forall>U. no_kpage U \<and> aligned T \<and> T \<notin> U \<and> unat i < 512 \<longrightarrow> quiet U s s'"
proof -
  obtain f bm where f: "alloc_kernel_page ops s = Some (kpage f, s\<lparr>kernel_bitmap := bm\<rparr>)" "f \<in> free_kpages s"
    "free_kpages (s\<lparr>kernel_bitmap := bm\<rparr>) = free_kpages s - {f}" "mm_ready k u (Suc n) (s\<lparr>kernel_bitmap := bm\<rparr>)"
    using alloc_kernel_page_free [OF assms(1)] .
  have nz: "kpage f \<noteq> 0" using f(2) kpage_nonzero by (simp add: free_kpages_def)
  let ?s1 = "s\<lparr>kernel_bitmap := bm\<rparr>"
  obtain nd lk j where c: "create_PageNode (kpage f) (kpage f) PGDIR_VA p ?s1 = Some (?s1\<lparr>pn := (pn ?s1)(j := nd), plinks := lk\<rparr>)"
    "mm_ready k u n (?s1\<lparr>pn := (pn ?s1)(j := nd), plinks := lk\<rparr>)"
    "nxt (plinks ?s1) USdHead = Some USdHead \<longrightarrow> nxt lk USdHead = Some USdHead"
    using create_PageNode_spec [OF f(4) nz] .
  let ?s2 = "?s1\<lparr>pn := (pn ?s1)(j := nd), plinks := lk\<rparr>"
  let ?s3 = "?s2\<lparr>mem := add_table (kpage f) T i (mem s)\<rparr>"
  have z: "mem s (pte_addr T i) = 0" using assms(2) by (auto simp: sub_def split: if_splits)
  have "ensure_table ops T i p s = Some ?s3"
    using z f(1) c(1) by (simp add: ensure_table_def upd_pte_def add_table_def table_entry_def)
  moreover have "free_kpages ?s3 = free_kpages s - {f}" using f(3) by (simp only: free_cong)
  moreover have "free_upages ?s3 = free_upages s" by (simp only: free_cong)
  moreover have "mm_ready k u n ?s3" using c(2) by (simp only: mm_ready_mem)
  moreover have "quiet U s ?s3" if U: "no_kpage U" "aligned T" "T \<notin> U" "unat i < 512" for U
  proof -
    have "f < FREE_KERNEL_PAGE_NUM" using f(2) by (simp add: free_kpages_def)
    then have "x \<noteq> kpage f" "x \<noteq> T" "aligned (kpage f)" if "x \<in> U" for x using that U kpage_props by (auto simp: no_kpage_def)
    then show ?thesis using c(3) add_table_other U(2,4) by (auto simp: quiet_def)
  qed
  ultimately show thesis using that [of ?s3 f] f(2) by simp
qed

text \<open>Addresses of the user half.\<close>

definition user_va :: "u64 \<Rightarrow> bool" where
  "user_va va \<longleftrightarrow> unat (vpn2 (va AND VA_MASK)) < 256"

text \<open>Mappings kept between two memories, for the addresses of the user half outside the page of \<open>va\<close>.\<close>

definition keeps_maps :: "u64 \<Rightarrow> (u64 \<Rightarrow> u64) \<Rightarrow> (u64 \<Rightarrow> u64) \<Rightarrow> bool" where
  "keeps_maps pd m m' \<longleftrightarrow> (\<forall>va a. user_va va \<and> uva2pte m va pd = Some a \<longrightarrow>
     uva2pte m' va pd = Some a \<and> m' a = m a)"

lemma uva2pte_Some:
  "uva2pte m va pd = Some a \<longleftrightarrow> (\<exists>t2 t1. sub m pd (vpn2 (va AND VA_MASK)) = Some t2 \<and>
     sub m t2 (vpn1 (va AND VA_MASK)) = Some t1 \<and> a = pte_addr t1 (vpn0 (va AND VA_MASK)))"
  by (auto simp: uva2pte_sub bind_eq_Some_conv)

lemma keeps_maps_add:
  assumes T: "pt_tree m pd F" and t: "t \<in> F" "aligned t" and X: "aligned X" "X \<noteq> t" "unat i < 512"
    and notleaf: "\<And>k j t2. unat k < 256 \<Longrightarrow> unat j < 512 \<Longrightarrow> sub m pd k = Some t2 \<Longrightarrow> sub m t2 j \<noteq> Some X"
    and subs: "\<And>k t2. unat k < 256 \<Longrightarrow> sub m pd k = Some t2 \<Longrightarrow> sub (add_table t X i m) pd k = Some t2"
      "\<And>k j t2 t1. unat k < 256 \<Longrightarrow> unat j < 512 \<Longrightarrow> sub m pd k = Some t2 \<Longrightarrow> sub m t2 j = Some t1 \<Longrightarrow>
         sub (add_table t X i m) t2 j = Some t1"
  shows "keeps_maps pd m (add_table t X i m)"
  unfolding keeps_maps_def
proof (intro allI impI, elim conjE)
  fix va a assume u: "user_va va" and a: "uva2pte m va pd = Some a"
  let ?va = "va AND VA_MASK"
  obtain t2 t1 where s: "sub m pd (vpn2 ?va) = Some t2" "sub m t2 (vpn1 ?va) = Some t1" "a = pte_addr t1 (vpn0 ?va)"
    using a by (auto simp: uva2pte_Some)
  have b: "unat (vpn2 ?va) < 256" "unat (vpn1 ?va) < 512" "unat (vpn0 ?va) < 512"
    using u vpn_small by (simp_all add: user_va_def)
  note t1 = pt_treeD(5) [OF T b(1,2) s(1,2)]
  have "t1 \<noteq> t" "t1 \<noteq> X" using t1 t(1) notleaf [OF b(1,2) s(1)] s(2) by auto
  then have "add_table t X i m a = m a"
    using add_table_read [OF t(2) X(1) _ X(2,3) b(3), of t1 m] t1 s(3) by simp
  moreover have "uva2pte (add_table t X i m) va pd = Some a"
    unfolding uva2pte_Some using subs(1) [OF b(1) s(1)] subs(2) [OF b(1,2) s(1,2)] s(3) by blast
  ultimately show "uva2pte (add_table t X i m) va pd = Some a \<and> add_table t X i m a = m a" by simp
qed

lemma keeps_maps_trans: "keeps_maps pd m m' \<Longrightarrow> keeps_maps pd m' m'' \<Longrightarrow> keeps_maps pd m m''"
  unfolding keeps_maps_def by metis

lemma kpage_image_diff:
  assumes "f \<in> free_kpages s"
  shows "kpage ` free_kpages s - {kpage f} = kpage ` (free_kpages s - {f})"
  using assms kpage_inj by (auto simp: free_kpages_def)

lemma kpage_union_diff:
  assumes "no_kpage U" "f \<in> free_kpages s"
  shows "(kpage ` free_kpages s \<union> U) - {kpage f} = kpage ` (free_kpages s - {f}) \<union> U"
  using kpage_image_diff [OF assms(2)] assms by (auto simp: no_kpage_def free_kpages_def)

lemma mm_ready_mono: "mm_ready (Suc k) u (Suc n) s \<Longrightarrow> mm_ready k u n s"
  by (simp add: mm_ready_def)

lemma ensure_dir:
  assumes U: "no_kpage U" and rdy: "mm_ready (Suc k) u (Suc n) s" and T: "pt_tree (mem s) pd (kpage ` free_kpages s \<union> U)" and i: "unat i < 256"
  obtains s' t2 where "ensure_table ops pd i p s = Some s'" "sub (mem s') pd i = Some t2"
    "pt_tree (mem s') pd (kpage ` free_kpages s' \<union> U)" "keeps_maps pd (mem s) (mem s')" "mm_ready k u n s'"
    "free_upages s' = free_upages s" "quiet U s s'"
proof (cases "sub (mem s) pd i")
  case (Some t2)
  have "keeps_maps pd (mem s) (mem s)" by (simp add: keeps_maps_def)
  then show ?thesis using that ensure_table_old [OF Some] Some T mm_ready_mono [OF rdy] quiet_refl by blast
next
  case None
  obtain f s' where s': "ensure_table ops pd i p s = Some s'" "f \<in> free_kpages s"
    "mem s' = add_table (kpage f) pd i (mem s)" "free_kpages s' = free_kpages s - {f}"
    "free_upages s' = free_upages s" "mm_ready k u n s'"
    "\<forall>U. no_kpage U \<and> aligned pd \<and> pd \<notin> U \<and> unat i < 512 \<longrightarrow> quiet U s s'"
    using ensure_table_new [OF rdy None] .
  have f: "kpage f \<in> kpage ` free_kpages s \<union> U" "aligned (kpage f)" "page_pa (kva2pa (kpage f))"
    using s'(2) kpage_props by (auto simp: free_kpages_def)
  note add = pt_tree_add2 [OF T f i None]
  have pd: "aligned pd" "pd \<noteq> kpage f" using pt_treeD(1,2) [OF T] f(1) by auto
  have i': "unat i < 512" using i by simp
  have "keeps_maps pd (mem s) (mem s')"
    unfolding s'(3)
  proof (rule keeps_maps_add [OF T f(1,2) pd i'])
    fix k j t2 t1 :: u64 assume k: "unat k < 256" "sub (mem s) pd k = Some t2"
    then have "k \<noteq> i" using None by auto
    then show "sub (add_table (kpage f) pd i (mem s)) pd k = Some t2" using add(3) [OF k(1)] k(2) by simp
    assume j: "unat j < 512"
    show "sub (mem s) t2 j \<noteq> Some pd" using pt_treeD(5) [OF T k(1) j k(2)] by blast
    assume "sub (mem s) t2 j = Some t1"
    then show "sub (add_table (kpage f) pd i (mem s)) t2 j = Some t1" using add(4) [OF k j] by simp
  qed
  moreover have "pt_tree (mem s') pd (kpage ` free_kpages s' \<union> U)"
    using add(1) kpage_union_diff [OF U s'(2)] by (simp add: s'(3,4))
  moreover have "sub (mem s') pd i = Some (kpage f)" using add(2) by (simp add: s'(3))
  moreover have "quiet U s s'" using s'(7) U pd(1) i' pt_treeD(2) [OF T] by blast
  ultimately show ?thesis using that s' by blast
qed

lemma ensure_mid:
  assumes U: "no_kpage U" and rdy: "mm_ready (Suc k) u (Suc n) s" and T: "pt_tree (mem s) pd (kpage ` free_kpages s \<union> U)"
    and i: "unat i < 256" "sub (mem s) pd i = Some t2" "unat j < 512"
  obtains s' t1 where "ensure_table ops t2 j p s = Some s'" "sub (mem s') pd i = Some t2" "sub (mem s') t2 j = Some t1"
    "pt_tree (mem s') pd (kpage ` free_kpages s' \<union> U)" "keeps_maps pd (mem s) (mem s')" "mm_ready k u n s'"
    "free_upages s' = free_upages s" "quiet U s s'"
proof (cases "sub (mem s) t2 j")
  case (Some t1)
  have "keeps_maps pd (mem s) (mem s)" by (simp add: keeps_maps_def)
  then show ?thesis using that ensure_table_old [OF Some] Some T i mm_ready_mono [OF rdy] quiet_refl by blast
next
  case None
  obtain f s' where s': "ensure_table ops t2 j p s = Some s'" "f \<in> free_kpages s"
    "mem s' = add_table (kpage f) t2 j (mem s)" "free_kpages s' = free_kpages s - {f}"
    "free_upages s' = free_upages s" "mm_ready k u n s'"
    "\<forall>U. no_kpage U \<and> aligned t2 \<and> t2 \<notin> U \<and> unat j < 512 \<longrightarrow> quiet U s s'"
    using ensure_table_new [OF rdy None] .
  have f: "kpage f \<in> kpage ` free_kpages s \<union> U" "aligned (kpage f)" "page_pa (kva2pa (kpage f))"
    using s'(2) kpage_props by (auto simp: free_kpages_def)
  note add = pt_tree_add1 [OF T f i None]
  have t2: "aligned t2" "t2 \<noteq> kpage f" using pt_treeD(3) [OF T i(1,2)] f(1) by auto
  have "keeps_maps pd (mem s) (mem s')"
    unfolding s'(3)
  proof (rule keeps_maps_add [OF T f(1,2) t2 i(3)])
    fix k l u v :: u64 assume k: "unat k < 256" "sub (mem s) pd k = Some u"
    then show "sub (add_table (kpage f) t2 j (mem s)) pd k = Some u" using add(3) [OF k(1)] by simp
    assume l: "unat l < 512"
    show "sub (mem s) u l \<noteq> Some t2" using pt_treeD(5) [OF T k(1) l k(2)] i(1,2) by blast
    assume "sub (mem s) u l = Some v"
    then show "sub (add_table (kpage f) t2 j (mem s)) u l = Some v" using add(4) [OF k l] None by auto
  qed
  moreover have "pt_tree (mem s') pd (kpage ` free_kpages s' \<union> U)"
    using add(1) kpage_union_diff [OF U s'(2)] by (simp add: s'(3,4))
  moreover have "sub (mem s') t2 j = Some (kpage f)" "sub (mem s') pd i = Some t2"
    using add(2) add(3) [OF i(1)] i(2) by (simp_all add: s'(3))
  moreover have "quiet U s s'" using s'(7) U t2(1) i(3) pt_treeD(3) [OF T i(1,2)] by blast
  ultimately show ?thesis using that s' by blast
qed

lemma mm_ready_cong:
  assumes "mm_ready k u n s" "kernel_bitmap s' = kernel_bitmap s" "user_bitmap s' = user_bitmap s" "pn s' = pn s" "plinks s' = plinks s"
  shows "mm_ready k u n s'" "free_kpages s' = free_kpages s"
proof -
  have f: "free_kpages s' = free_kpages s" "free_upages s' = free_upages s" "free_nodes s' = free_nodes s"
    using assms(2-4) by (simp_all add: free_kpages_def free_upages_def free_nodes_def)
  show "mm_ready k u n s'" using assms f by (simp add: mm_ready_def)
  show "free_kpages s' = free_kpages s" by (rule f)
qed

lemma alloc_maps_in:
  assumes "mm_ready (Suc (Suc k)) (Suc u) (Suc (Suc (Suc n))) s" "pt_tree (mem s) pd (kpage ` free_kpages s \<union> U)" "user_va va" "va AND VA_MASK \<noteq> 0"
    and U: "no_kpage U"
  shows "\<exists>f s' a. alloc_page_helper ops va pd p s = Some (USER_MEM_BASE + PAGE_SIZE * word_of_nat f, s') \<and>
    f \<in> free_upages s \<and> free_upages s' = free_upages s - {f} \<and>
    uva2pte (mem s') va pd = Some a \<and>
    get_pa (mem s' a) = kva2pa (USER_MEM_BASE + PAGE_SIZE * word_of_nat f) \<and>
    get_attribute (mem s' a) USER_BITS = USER_BITS \<and>
    (\<forall>va' b. user_va va' \<and> uva2pte (mem s) va' pd = Some b \<longrightarrow>
       uva2pte (mem s') va' pd = Some b \<and> (b \<noteq> a \<longrightarrow> mem s' b = mem s b)) \<and>
    pt_tree (mem s') pd (kpage ` free_kpages s' \<union> U) \<and> quiet U s s' \<and> mm_ready k u n s'"
proof -
  let ?va = "va AND VA_MASK"
  have b: "unat (vpn2 ?va) < 256" "unat (vpn1 ?va) < 512" "unat (vpn0 ?va) < 512"
    using assms(3) vpn_small by (simp_all add: user_va_def)
  obtain s1 t2 where s1: "ensure_table ops pd (vpn2 ?va) p s = Some s1" "sub (mem s1) pd (vpn2 ?va) = Some t2"
    "pt_tree (mem s1) pd (kpage ` free_kpages s1 \<union> U)" "keeps_maps pd (mem s) (mem s1)" "mm_ready (Suc k) (Suc u) (Suc (Suc n)) s1"
    "free_upages s1 = free_upages s" "quiet U s s1"
    using ensure_dir [OF U assms(1,2) b(1)] .
  obtain s2 t1 where s2: "ensure_table ops t2 (vpn1 ?va) p s1 = Some s2" "sub (mem s2) pd (vpn2 ?va) = Some t2"
    "sub (mem s2) t2 (vpn1 ?va) = Some t1" "pt_tree (mem s2) pd (kpage ` free_kpages s2 \<union> U)"
    "keeps_maps pd (mem s1) (mem s2)" "mm_ready k (Suc u) (Suc n) s2" "free_upages s2 = free_upages s1" "quiet U s1 s2"
    using ensure_mid [OF U s1(5,3) b(1) s1(2) b(2)] .
  obtain f bm where f: "alloc_user_page ops s2 = Some (USER_MEM_BASE + PAGE_SIZE * word_of_nat f, s2\<lparr>user_bitmap := bm\<rparr>)"
    "f \<in> free_upages s2" "free_upages (s2\<lparr>user_bitmap := bm\<rparr>) = free_upages s2 - {f}"
    "mm_ready k u (Suc n) (s2\<lparr>user_bitmap := bm\<rparr>)"
    using alloc_user_page_ready [OF s2(6)] .
  let ?kva = "USER_MEM_BASE + PAGE_SIZE * word_of_nat f" and ?s3 = "s2\<lparr>user_bitmap := bm\<rparr>"
  obtain nd lk j where c: "create_PageNode ?kva ?va (pgdir (pcbs ?s3 p)) p ?s3 = Some (?s3\<lparr>pn := (pn ?s3)(j := nd), plinks := lk\<rparr>)"
    "mm_ready k u n (?s3\<lparr>pn := (pn ?s3)(j := nd), plinks := lk\<rparr>)"
    "nxt (plinks ?s3) USdHead = Some USdHead \<longrightarrow> nxt lk USdHead = Some USdHead"
    using create_PageNode_spec [OF f(4) assms(4)] .
  let ?s4 = "?s3\<lparr>pn := (pn ?s3)(j := nd), plinks := lk\<rparr>" and ?a = "pte_addr t1 (vpn0 ?va)"
  let ?e = "set_attribute (set_pfn (mem s2 ?a) (drop_bit NORMAL_PAGE_SHIFT (kva2pa ?kva))) USER_BITS"
  define s5 where "s5 = ?s4\<lparr>mem := (mem s2)(?a := ?e)\<rparr>"
  have t2: "pa2kva (get_pa (mem s1 (pte_addr pd (vpn2 ?va)))) = t2"
    and t1: "pa2kva (get_pa (mem s2 (pte_addr t2 (vpn1 ?va)))) = t1"
    using s1(2) s2(3) by (auto simp: sub_def split: if_splits)
  have run: "alloc_page_helper ops va pd p s = Some (?kva, s5)"
    using s1(1) s2(1) f(1) c(1) by (simp add: alloc_page_helper_def Let_def t2 t1 s5_def upd_pte_def)
  note leaf = pt_tree_leaf [OF s2(4) b(1) s2(2) b(2) s2(3) b(3), of "mem s5" ?e]
  have m5: "mem s5 = (mem s2)(?a := ?e)" by (simp add: s5_def)
  have walk: "uva2pte (mem s5) va pd = Some ?a"
    unfolding uva2pte_Some using leaf(2) [OF m5 b(1)] leaf(3) [OF m5 b(1) s2(2) b(2)] s2(2,3) by auto
  have "f < 2 ^ 20" using f(2) by (simp add: free_upages_def FREE_USER_PAGE_NUM_def)
  then have pa: "get_pa (mem s5 ?a) = kva2pa ?kva"
    by (simp add: m5 get_pa_attr(1) [OF user_bits_low(1)] get_pa_set_pfn pool_page)
  have keep: "uva2pte (mem s5) va' pd = Some x \<and> (x \<noteq> ?a \<longrightarrow> mem s5 x = mem s x)"
    if "user_va va'" "uva2pte (mem s) va' pd = Some x" for va' x
  proof -
    have k: "uva2pte (mem s2) va' pd = Some x" "mem s2 x = mem s x"
      using keeps_maps_trans [OF s1(4) s2(5)] that unfolding keeps_maps_def by blast+
    have "unat (vpn2 (va' AND VA_MASK)) < 256" using that(1) by (simp add: user_va_def)
    then have "uva2pte (mem s5) va' pd = Some x"
      using k(1) leaf(2,3) [OF m5] vpn_small(1) unfolding uva2pte_Some by metis
    then show ?thesis using k(2) by (simp add: m5)
  qed
  have fk: "free_kpages s5 = free_kpages s2" "free_upages s5 = free_upages s2 - {f}"
    using f(3) by (simp_all only: s5_def free_cong)
  have "get_attribute (mem s5 ?a) USER_BITS = USER_BITS" by (simp add: m5 get_set_attr)
  moreover have "f \<in> free_upages s" "free_upages s5 = free_upages s - {f}" using f(2) fk(2) s1(6) s2(7) by simp_all
  moreover have "pt_tree (mem s5) pd (kpage ` free_kpages s5 \<union> U)" using leaf(1) [OF m5] fk(1) by simp
  moreover have "mm_ready k u n s5" using c(2) by (simp add: s5_def)
  moreover have "quiet U s s5"
  proof -
    have t1: "aligned t1" "t1 \<notin> U" using pt_treeD(5) [OF s2(4) b(1,2) s2(2,3)] by blast+
    have "x = t1" if "aligned x" "in_page x ?a" for x
      using aligned_pages_disjoint [OF that(1) t1(1) that(2) pte_addr_in_page [OF b(3)]] .
    then have "quiet U s2 s5" using t1(2) c(3) by (auto simp: quiet_def s5_def)
    then show ?thesis using quiet_trans s1(7) s2(8) by metis
  qed
  ultimately show ?thesis using run walk pa keep by blast
qed

lemma alloc_maps:
  assumes "mm_ready 2 1 3 s" "pt_tree (mem s) pd (kpage ` free_kpages s)" "user_va va" "va AND VA_MASK \<noteq> 0"
  shows "\<exists>f s' a. alloc_page_helper ops va pd p s = Some (USER_MEM_BASE + PAGE_SIZE * word_of_nat f, s') \<and>
    f \<in> free_upages s \<and> f \<notin> free_upages s' \<and>
    uva2pte (mem s') va pd = Some a \<and>
    get_pa (mem s' a) = kva2pa (USER_MEM_BASE + PAGE_SIZE * word_of_nat f) \<and>
    get_attribute (mem s' a) USER_BITS = USER_BITS \<and>
    (\<forall>va' b. user_va va' \<and> uva2pte (mem s) va' pd = Some b \<and> b \<noteq> a \<longrightarrow>
       uva2pte (mem s') va' pd = Some b \<and> mem s' b = mem s b) \<and>
    pt_tree (mem s') pd (kpage ` free_kpages s') \<and> pcbs s' = pcbs s"
proof -
  have r: "mm_ready (Suc (Suc 0)) (Suc 0) (Suc (Suc (Suc 0))) s" using assms(1) by (simp add: numeral_eq_Suc)
  have T: "pt_tree (mem s) pd (kpage ` free_kpages s \<union> {})" using assms(2) by simp
  have U: "no_kpage {}" by (simp add: no_kpage_def)
  obtain f s' a where A: "alloc_page_helper ops va pd p s = Some (USER_MEM_BASE + PAGE_SIZE * word_of_nat f, s')" "f \<in> free_upages s"
    "free_upages s' = free_upages s - {f}" "uva2pte (mem s') va pd = Some a" "get_pa (mem s' a) = kva2pa (USER_MEM_BASE + PAGE_SIZE * word_of_nat f)"
    "get_attribute (mem s' a) USER_BITS = USER_BITS" "\<forall>va' b. user_va va' \<and> uva2pte (mem s) va' pd = Some b \<longrightarrow>
       uva2pte (mem s') va' pd = Some b \<and> (b \<noteq> a \<longrightarrow> mem s' b = mem s b)" "pt_tree (mem s') pd (kpage ` free_kpages s')" "pcbs s' = pcbs s"
    using alloc_maps_in [OF r T assms(3,4) U, of ops p] unfolding quiet_def Un_empty_right by blast
  have "f \<notin> free_upages s'" using A(3) by simp
  then show ?thesis using A by blast
qed

text \<open>
  C9: \<^verbatim>\<open>alloc_page_helper\<close> maps the page. With enough free pages and nodes it returns a page that was
  free, after it the walk of the address ends in an entry that holds the physical address of that
  page with the user access bits, every other page of the address space that had an entry has the
  same entry with the same contents, and the tables are still a tree.
\<close>

theorem alloc_page_helper_maps:
  assumes "mm_ready 2 1 3 s" "pt_tree (mem s) pd (kpage ` free_kpages s)" "user_va va" "va AND VA_MASK \<noteq> 0"
  shows "\<exists>f s' a. alloc_page_helper ops va pd p s = Some (USER_MEM_BASE + PAGE_SIZE * word_of_nat f, s') \<and>
    f \<in> free_upages s \<and> f \<notin> free_upages s' \<and>
    uva2pte (mem s') va pd = Some a \<and>
    get_pa (mem s' a) = kva2pa (USER_MEM_BASE + PAGE_SIZE * word_of_nat f) \<and>
    get_attribute (mem s' a) USER_BITS = USER_BITS \<and>
    (\<forall>va' b. user_va va' \<and> uva2pte (mem s) va' pd = Some b \<and> b \<noteq> a \<longrightarrow>
       uva2pte (mem s') va' pd = Some b \<and> mem s' b = mem s b) \<and>
    pt_tree (mem s') pd (kpage ` free_kpages s')"
  using alloc_maps [OF assms, of ops p] by blast

text \<open>An empty directory at the kernel's directory address.\<close>

definition demo_empty :: "(u32 \<Rightarrow> u64 list) mmst" where
  "demo_empty = demo_mm\<lparr>mem := (\<lambda>_. 0)\<rparr>"

lemma demo_empty_ready: "mm_ready 2 1 3 demo_empty"
proof -
  have "{4, 5} \<subseteq> free_kpages demo_empty"
    by (auto simp: demo_empty_def demo_mm_def free_kpages_def bit_at_def FREE_KERNEL_PAGE_NUM_def)
  then have "card {4, 5 :: nat} \<le> card (free_kpages demo_empty)" by (intro card_mono) simp_all
  then have k: "2 \<le> card (free_kpages demo_empty)" by simp
  have "{1} \<subseteq> free_upages demo_empty"
    by (auto simp: demo_empty_def demo_mm_def free_upages_def bit_at_def FREE_USER_PAGE_NUM_def)
  then have "card {1 :: nat} \<le> card (free_upages demo_empty)" by (intro card_mono) simp_all
  then have u: "1 \<le> card (free_upages demo_empty)" by simp
  have nodes: "free_nodes demo_empty = {1..<PageNode_MAXNUM}"
    by (auto simp: free_nodes_def demo_empty_def demo_mm_def)
  have "\<forall>i \<in> free_nodes demo_empty. unqueued page_heads demo_PQ (PN i)"
    by (auto simp: nodes unqueued_def page_heads_def demo_PQ_def)
  moreover have "queues page_heads demo_PQ (plinks demo_empty)"
    using demo_resident by (simp add: resident_def demo_empty_def)
  moreover have "3 \<le> card (free_nodes demo_empty)" by (simp add: nodes PageNode_MAXNUM_def)
  ultimately show ?thesis using k u by (auto simp: mm_ready_def demo_empty_def demo_mm_def)
qed

lemma demo_empty_tree: "pt_tree (mem demo_empty) PGDIR_VA (kpage ` free_kpages demo_empty)"
proof -
  have "sub (mem demo_empty) t i = None" for t i by (simp add: sub_def demo_empty_def)
  moreover have "aligned PGDIR_VA" by (simp add: aligned_def PGDIR_VA_def)
  moreover have "PGDIR_VA \<noteq> kpage f" if "f < FREE_KERNEL_PAGE_NUM" for f
    using unat_kpage [OF that] by (auto simp: PGDIR_VA_def)
  ultimately show ?thesis by (auto simp: pt_tree_def free_kpages_def)
qed

theorem alloc_page_helper_maps_witness:
  "\<exists>f s' a. alloc_page_helper demo_dsk 0x10000 PGDIR_VA (Pcb 0) demo_empty =
      Some (USER_MEM_BASE + PAGE_SIZE * word_of_nat f, s') \<and> uva2pte (mem s') 0x10000 PGDIR_VA = Some a \<and>
    get_pa (mem s' a) = kva2pa (USER_MEM_BASE + PAGE_SIZE * word_of_nat f)"
proof -
  have "user_va 0x10000" "(0x10000 :: u64) AND VA_MASK \<noteq> 0"
    by (simp_all add: user_va_def vpn2_def shift_defs VA_MASK_def)
  then show ?thesis
    using alloc_page_helper_maps [OF demo_empty_ready demo_empty_tree, of "0x10000" demo_dsk "Pcb 0"] by blast
qed

end
