(* ===== verification/CString.thy ===== *)
theory CString
  imports OS_Prelude
begin

text \<open>
  The string routines of src/libs/string.c (src/tiny_libc/string.c holds the same functions and
  \<^verbatim>\<open>strrev\<close>). A pointer is the list of the bytes from its target to the end of the array it
  points into; running off the end of the array is the result \<open>None\<close>. A NUL-terminated string
  inside such a list is its \<open>cstr\<close>.
\<close>

section \<open>The routines\<close>

text \<open>\<open>memcpy dest src len\<close>, two distinct arrays.\<close>

fun memcpy :: "bytes \<Rightarrow> bytes \<Rightarrow> nat \<Rightarrow> bytes option" where
  "memcpy ds ss 0 = Some ds"
| "memcpy (d # ds) (s # ss) (Suc n) = map_option ((#) s) (memcpy ds ss n)"
| "memcpy _ _ (Suc n) = None"

text \<open>\<open>memcpy\<close> inside one array, from offset \<open>s\<close> to offset \<open>d\<close>: byte by byte, in ascending order.\<close>

fun memcpy_in :: "bytes \<Rightarrow> nat \<Rightarrow> nat \<Rightarrow> nat \<Rightarrow> bytes option" where
  "memcpy_in m d s 0 = Some m"
| "memcpy_in m d s (Suc n) =
     (if d < length m \<and> s < length m then memcpy_in (m[d := m ! s]) (Suc d) (Suc s) n else None)"

fun memset :: "bytes \<Rightarrow> u8 \<Rightarrow> nat \<Rightarrow> bytes option" where
  "memset ds v 0 = Some ds"
| "memset (d # ds) v (Suc n) = map_option ((#) v) (memset ds v n)"
| "memset [] v (Suc n) = None"

definition bzero :: "bytes \<Rightarrow> nat \<Rightarrow> bytes option" where
  "bzero ds n = memset ds 0 n"

fun strlen :: "bytes \<Rightarrow> nat option" where
  "strlen [] = None"
| "strlen (c # cs) = (if c \<noteq> 0 then map_option Suc (strlen cs) else Some 0)"

fun strcmp :: "bytes \<Rightarrow> bytes \<Rightarrow> int option" where
  "strcmp (a # as) (b # bs) =
     (if a \<noteq> 0 \<and> b \<noteq> 0 \<and> a = b then strcmp as bs else Some (uint a - uint b))"
| "strcmp _ _ = None"

fun strncmp :: "bytes \<Rightarrow> bytes \<Rightarrow> nat \<Rightarrow> int option" where
  "strncmp _ _ 0 = Some 0"
| "strncmp (a # as) (b # bs) (Suc n) =
     (if a = 0 \<or> a \<noteq> b then Some (uint a - uint b) else strncmp as bs n)"
| "strncmp _ _ (Suc n) = None"

fun strcpy :: "bytes \<Rightarrow> bytes \<Rightarrow> bytes option" where
  "strcpy (d # ds) (s # ss) = (if s \<noteq> 0 then map_option ((#) s) (strcpy ds ss) else Some (0 # ds))"
| "strcpy _ _ = None"

fun strncpy :: "bytes \<Rightarrow> bytes \<Rightarrow> nat \<Rightarrow> bytes option" where
  "strncpy ds ss 0 = Some ds"
| "strncpy (d # ds) (s # ss) (Suc n) =
     (if s \<noteq> 0 then map_option ((#) s) (strncpy ds ss n) else memset (d # ds) 0 (Suc n))"
| "strncpy _ _ (Suc n) = None"

fun strcat :: "bytes \<Rightarrow> bytes \<Rightarrow> bytes option" where
  "strcat [] ss = None"
| "strcat (d # ds) ss = (if d \<noteq> 0 then map_option ((#) d) (strcat ds ss) else strcpy (d # ds) ss)"

function strrev_loop :: "bytes \<Rightarrow> nat \<Rightarrow> nat \<Rightarrow> bytes" where
  "strrev_loop xs i j = (if i < j then strrev_loop (xs[i := xs ! j, j := xs ! i]) (Suc i) (j - 1) else xs)"
  by pat_completeness auto

termination strrev_loop
  by (relation "measure (\<lambda>(_, i, j). j - i)") auto

definition strrev :: "bytes \<Rightarrow> bytes option" where
  "strrev xs = do { n \<leftarrow> strlen xs; Some (if n = 0 then xs else strrev_loop xs 0 (n - 1)) }"

section \<open>NUL-terminated strings\<close>

definition cstr :: "bytes \<Rightarrow> bytes option" where
  "cstr bs = (if 0 \<in> set bs then Some (takeWhile (\<lambda>c. c \<noteq> 0) bs) else None)"

lemma cstr_simps [simp]:
  "cstr [] = None"
  "cstr (0 # bs) = Some []"
  "c \<noteq> 0 \<Longrightarrow> cstr (c # bs) = map_option ((#) c) (cstr bs)"
  by (auto simp: cstr_def)

lemma cstr_Cons: "cstr (c # bs) = (if c = 0 then Some [] else map_option ((#) c) (cstr bs))"
  by simp

lemma cstr_decomp: "cstr bs = Some x \<Longrightarrow> \<exists>ys. bs = x @ 0 # ys \<and> 0 \<notin> set x"
proof (induction bs arbitrary: x)
  case (Cons b bs)
  show ?case
  proof (cases "b = 0")
    case False
    then obtain y where y: "cstr bs = Some y" "x = b # y" using Cons.prems by auto
    then obtain ys where "bs = y @ 0 # ys" "0 \<notin> set y" using Cons.IH by blast
    then show ?thesis using y False by auto
  qed (use Cons.prems in auto)
qed simp

lemma cstr_append [simp]: "0 \<notin> set x \<Longrightarrow> cstr (x @ 0 # ys) = Some x"
  by (induction x) auto

lemma strlen_cstr: "strlen bs = map_option length (cstr bs)"
  by (induction bs) (auto simp: cstr_Cons option.map_comp comp_def)

lemma memcpy_eq:
  "n \<le> length ds \<Longrightarrow> n \<le> length ss \<Longrightarrow> memcpy ds ss n = Some (take n ss @ drop n ds)"
  by (induction ds ss n rule: memcpy.induct) auto

lemma memset_eq: "n \<le> length ds \<Longrightarrow> memset ds v n = Some (replicate n v @ drop n ds)"
  by (induction ds v n rule: memset.induct) auto

lemma bzero_eq: "n \<le> length ds \<Longrightarrow> bzero ds n = Some (replicate n 0 @ drop n ds)"
  by (simp add: bzero_def memset_eq)

lemma memcpy_in_down:
  assumes "d \<le> s" "s + n \<le> length m"
  shows "memcpy_in m d s n = Some (bput d (bget s n m) m)"
  using assms
proof (induction n arbitrary: m d s)
  case 0
  then show ?case by (simp add: bput_def bget_def)
next
  case (Suc n)
  have "memcpy_in m d s (Suc n) = Some (bput (Suc d) (bget (Suc s) n (m[d := m ! s])) (m[d := m ! s]))"
    using Suc by simp
  also have "bput (Suc d) (bget (Suc s) n (m[d := m ! s])) (m[d := m ! s]) = bput d (bget s (Suc n) m) m"
    (is "?l = ?r")
  proof (rule nth_equalityI)
    show "length ?l = length ?r" using Suc.prems by simp
    fix i assume "i < length ?l"
    then have i: "i < length m" using Suc.prems by simp
    let ?m = "m[d := m ! s]"
    have l: "?l ! i = (if Suc d \<le> i \<and> i < Suc d + n then bget (Suc s) n ?m ! (i - Suc d) else ?m ! i)"
      using Suc.prems i by (subst nth_bput) simp_all
    have r: "?r ! i = (if d \<le> i \<and> i < d + Suc n then bget s (Suc n) m ! (i - d) else m ! i)"
      using Suc.prems i by (subst nth_bput) simp_all
    consider "i < d \<or> d + n < i" | "i = d" | "d < i" "i \<le> d + n" by linarith
    then show "?l ! i = ?r ! i"
    proof cases
      case 3
      then obtain k where k: "i = Suc d + k" "k < n" by (metis Suc_leI add_less_cancel_left le_Suc_ex
            add_Suc_right add_Suc le_imp_less_Suc)
      then have "bget (Suc s) n ?m ! k = m ! (Suc s + k)" "bget s (Suc n) m ! Suc k = m ! (Suc s + k)"
        using Suc.prems by (simp_all add: nth_bget)
      then show ?thesis using l r k by simp
    qed (use l r Suc.prems i in \<open>auto simp: nth_bget\<close>)
  qed
  finally show ?case .
qed

lemma strcpy_eq:
  "cstr ss = Some x \<Longrightarrow> length x < length ds \<Longrightarrow> strcpy ds ss = Some (x @ 0 # drop (Suc (length x)) ds)"
proof (induction ds ss arbitrary: x rule: strcpy.induct)
  case (1 d ds s ss)
  show ?case
  proof (cases "s = 0")
    case False
    then obtain y where "cstr ss = Some y" "x = s # y" using 1 by auto
    then show ?thesis using 1 False by simp
  qed (use 1 in simp)
qed auto

lemma strcpy_overflow: "cstr ss = Some x \<Longrightarrow> length ds \<le> length x \<Longrightarrow> strcpy ds ss = None"
proof (induction ds ss arbitrary: x rule: strcpy.induct)
  case (1 d ds s ss)
  show ?case
  proof (cases "s = 0")
    case False
    then obtain y where "cstr ss = Some y" "x = s # y" using 1 by auto
    then show ?thesis using 1 False by simp
  qed (use 1 in simp)
qed auto

lemma length_strcpy: "strcpy ds ss = Some r \<Longrightarrow> length r = length ds"
  by (induction ds ss arbitrary: r rule: strcpy.induct) (auto split: if_splits)

text \<open>\<open>strcmp\<close> is the three-way lexicographic comparison of the two strings.\<close>

fun lex3 :: "bytes \<Rightarrow> bytes \<Rightarrow> int" where
  "lex3 [] [] = 0"
| "lex3 [] (b # bs) = - uint b"
| "lex3 (a # as) [] = uint a"
| "lex3 (a # as) (b # bs) = (if a = b then lex3 as bs else uint a - uint b)"

lemma strcmp_lex3: "cstr as = Some x \<Longrightarrow> cstr bs = Some y \<Longrightarrow> strcmp as bs = Some (lex3 x y)"
proof (induction as bs arbitrary: x y rule: strcmp.induct)
  case (1 a as b bs)
  show ?case
  proof (cases "a \<noteq> 0 \<and> b \<noteq> 0")
    case True
    then obtain x' y' where "cstr as = Some x'" "x = a # x'" "cstr bs = Some y'" "y = b # y'"
      using 1 by auto
    then show ?thesis using 1 True by simp
  next
    case False
    then consider "a = 0" "b = 0" | "a = 0" "b \<noteq> 0" | "a \<noteq> 0" "b = 0" by blast
    then show ?thesis using 1 by cases auto
  qed
qed auto

lemma lex3_eq_0: "0 \<notin> set x \<Longrightarrow> 0 \<notin> set y \<Longrightarrow> lex3 x y = 0 \<longleftrightarrow> x = y"
  by (induction x y rule: lex3.induct) (auto simp: uint_0_iff dest: unsigned_word_eqI)

lemma strcmp_eq_0:
  assumes "cstr as = Some x" "cstr bs = Some y"
  shows "strcmp as bs = Some 0 \<longleftrightarrow> x = y"
proof -
  have "0 \<notin> set x" "0 \<notin> set y"
    using cstr_decomp [OF assms(1)] cstr_decomp [OF assms(2)] by auto
  then show ?thesis using strcmp_lex3 [OF assms] lex3_eq_0 by simp
qed

end
