(* ===== verification/Lock.thy ===== *)
theory Lock
  imports Swap CString
begin

text \<open>
  Synchronisation: src/kernel/locking/lock.c with the types of src/include/os/lock.h. The state
  extends the memory manager's (mailboxes swap in the user pages they copy from and to).

  A primitive that waits inside a loop (\<^verbatim>\<open>do_mutex_lock_acquire\<close>, \<^verbatim>\<open>do_mbox_send\<close>, \<^verbatim>\<open>do_mbox_recv\<close>) gives
  up the processor in the middle: its model is one pass through the loop, with outcome \<open>Done\<close> when
  the call returns and \<open>Again\<close> when the process was blocked and rescheduled, to start the next
  pass when it runs again. Array indices outside the arrays are faults (\<open>None\<close>).
\<close>

section \<open>State\<close>

definition LOCK_NUM :: nat where "LOCK_NUM = 16"
definition BARRIER_NUM :: nat where "BARRIER_NUM = 16"
definition CONDITION_NUM :: nat where "CONDITION_NUM = 16"
definition MBOX_NUM :: nat where "MBOX_NUM = 16"
definition MAX_MBOX_LENGTH :: nat where "MAX_MBOX_LENGTH = 64"

datatype lock_status_t = UNLOCKED | LOCKED
datatype barrier_status_t = BAR_ACTIVE | BAR_INACTIVE
datatype condition_status_t = COND_ACTIVE | COND_INACTIVE
datatype mailbox_status_t = MBOX_ACTIVE | MBOX_INACTIVE
datatype mailbox_open_t = MBOX_OPEN | MBOX_CLOSE

record mutex_lock_t =
  ml_lock :: lock_status_t
  ml_pid :: i32
  ml_key :: i32

record barrier_t =
  bar_key :: i32
  bar_goal :: i32
  bar_counter :: i32
  bar_status :: barrier_status_t

record condition_t =
  cond_key :: i32
  cond_status :: condition_status_t

record mailbox_t =
  mb_status :: mailbox_status_t
  mb_open :: mailbox_open_t
  mb_name :: bytes
  mb_buffer :: bytes
  buffer_idx :: i32
  cite_num :: i32

record 'd lkst = "'d mmst" +
  mlocks :: "nat \<Rightarrow> mutex_lock_t"
  last_lockid :: nat
  barrier :: "nat \<Rightarrow> barrier_t"
  condition :: "nat \<Rightarrow> condition_t"
  mailbox :: "nat \<Rightarrow> mailbox_t"

datatype 'r outcome = Done 'r | Again

definition upd_mlock :: "nat \<Rightarrow> (mutex_lock_t \<Rightarrow> mutex_lock_t) \<Rightarrow> ('d, 'a) lkst_scheme \<Rightarrow> ('d, 'a) lkst_scheme" where
  "upd_mlock i f s = s\<lparr>mlocks := (mlocks s)(i := f (mlocks s i))\<rparr>"

definition upd_bar :: "nat \<Rightarrow> (barrier_t \<Rightarrow> barrier_t) \<Rightarrow> ('d, 'a) lkst_scheme \<Rightarrow> ('d, 'a) lkst_scheme" where
  "upd_bar i f s = s\<lparr>barrier := (barrier s)(i := f (barrier s i))\<rparr>"

definition upd_cond :: "nat \<Rightarrow> (condition_t \<Rightarrow> condition_t) \<Rightarrow> ('d, 'a) lkst_scheme \<Rightarrow> ('d, 'a) lkst_scheme" where
  "upd_cond i f s = s\<lparr>condition := (condition s)(i := f (condition s i))\<rparr>"

definition upd_mbox :: "nat \<Rightarrow> (mailbox_t \<Rightarrow> mailbox_t) \<Rightarrow> ('d, 'a) lkst_scheme \<Rightarrow> ('d, 'a) lkst_scheme" where
  "upd_mbox i f s = s\<lparr>mailbox := (mailbox s)(i := f (mailbox s i))\<rparr>"

text \<open>\<^verbatim>\<open>q.next = &q; q.prev = &q;\<close>\<close>

definition init_queue :: "node \<Rightarrow> node links \<Rightarrow> node links" where
  "init_queue q lk = set_prv q (Some q) (set_nxt q (Some q) lk)"

fun init_queues :: "node list \<Rightarrow> node links \<Rightarrow> node links" where
  "init_queues [] lk = lk"
| "init_queues (q # qs) lk = init_queues qs (init_queue q lk)"

section \<open>Mutex locks\<close>

definition init_locks :: "('d, 'a) lkst_scheme \<Rightarrow> ('d, 'a) lkst_scheme" where
  "init_locks s = s\<lparr>qlinks := init_queues (map MutexQ [0..<LOCK_NUM]) (qlinks s),
     mlocks := (\<lambda>i. if i < LOCK_NUM then (mlocks s i)\<lparr>ml_pid := 0, ml_lock := UNLOCKED\<rparr> else mlocks s i)\<rparr>"

definition do_mutex_lock_init :: "i32 \<Rightarrow> ('d, 'a) lkst_scheme \<Rightarrow> int \<times> ('d, 'a) lkst_scheme" where
  "do_mutex_lock_init key s =
     (case first_idx (\<lambda>i. ml_key (mlocks s i) = key) (last_lockid s) of
        Some i \<Rightarrow> (int i, s)
      | None \<Rightarrow> (let i = last_lockid s in
          if i \<ge> LOCK_NUM then (- 1, s)
          else (int i, (upd_mlock i (\<lambda>b. b\<lparr>ml_key := key\<rparr>) s)\<lparr>last_lockid := Suc i\<rparr>)))"

definition do_getpid :: "'a kst_scheme \<Rightarrow> i32" where
  "do_getpid s = pid (pcbs s (current_running s))"

definition do_mutex_lock_acquire :: "nat \<Rightarrow> ('d, 'a) lkst_scheme \<Rightarrow> (unit outcome \<times> ('d, 'a) lkst_scheme) option" where
  "do_mutex_lock_acquire l s = (if l \<ge> LOCK_NUM then None
     else if ml_lock (mlocks s l) = UNLOCKED
     then Some (Done (), upd_mlock l (\<lambda>b. b\<lparr>ml_lock := LOCKED, ml_pid := do_getpid s\<rparr>) s)
     else do {
       s1 \<leftarrow> do_block (PcbNode (current_running s)) (MutexQ l) s;
       s2 \<leftarrow> do_scheduler s1;
       Some (Again, s2) })"

definition do_mutex_lock_release :: "nat \<Rightarrow> ('d, 'a) lkst_scheme \<Rightarrow> ('d, 'a) lkst_scheme option" where
  "do_mutex_lock_release l s = (if l \<ge> LOCK_NUM then None
     else unblock_all (MutexQ l) (upd_mlock l (\<lambda>b. b\<lparr>ml_lock := UNLOCKED, ml_pid := 0\<rparr>) s))"

fun release_loop :: "i32 \<Rightarrow> nat list \<Rightarrow> ('d, 'a) lkst_scheme \<Rightarrow> ('d, 'a) lkst_scheme option" where
  "release_loop k [] s = Some s"
| "release_loop k (i # is) s = do {
     s1 \<leftarrow> (if ml_lock (mlocks s i) = LOCKED \<and> ml_pid (mlocks s i) = k
       then unblock_all (MutexQ i) (upd_mlock i (\<lambda>b. b\<lparr>ml_lock := UNLOCKED, ml_pid := 0\<rparr>) s)
       else Some s);
     release_loop k is s1 }"

definition release_process_mutex :: "i32 \<Rightarrow> ('d, 'a) lkst_scheme \<Rightarrow> ('d, 'a) lkst_scheme option" where
  "release_process_mutex k s = release_loop k [0..<last_lockid s] s"

section \<open>Barriers\<close>

definition init_barriers :: "('d, 'a) lkst_scheme \<Rightarrow> ('d, 'a) lkst_scheme" where
  "init_barriers s = s\<lparr>qlinks := init_queues (map BarrierQ [0..<BARRIER_NUM]) (qlinks s),
     barrier := (\<lambda>i. if i < BARRIER_NUM then (barrier s i)\<lparr>bar_status := BAR_INACTIVE\<rparr> else barrier s i)\<rparr>"

definition do_barrier_init :: "i32 \<Rightarrow> i32 \<Rightarrow> ('d, 'a) lkst_scheme \<Rightarrow> int \<times> ('d, 'a) lkst_scheme" where
  "do_barrier_init key goal s =
     (case first_idx (\<lambda>i. bar_status (barrier s i) = BAR_INACTIVE) BARRIER_NUM of
        None \<Rightarrow> (- 1, s)
      | Some b \<Rightarrow> (int b, (upd_bar b (\<lambda>x. x\<lparr>bar_status := BAR_ACTIVE, bar_goal := goal, bar_key := key,
            bar_counter := 0\<rparr>) s)\<lparr>qlinks := init_queue (BarrierQ b) (qlinks s)\<rparr>))"

definition do_barrier_wait :: "nat \<Rightarrow> ('d, 'a) lkst_scheme \<Rightarrow> ('d, 'a) lkst_scheme option" where
  "do_barrier_wait b s = (if b \<ge> BARRIER_NUM then None else
     let s1 = upd_bar b (\<lambda>x. x\<lparr>bar_counter := bar_counter x + 1\<rparr>) s in
     if sint (bar_counter (barrier s1 b)) \<ge> sint (bar_goal (barrier s1 b))
     then do {
       s2 \<leftarrow> unblock_all (BarrierQ b) s1;
       Some (upd_bar b (\<lambda>x. x\<lparr>bar_counter := 0\<rparr>) s2) }
     else do {
       s2 \<leftarrow> do_block (PcbNode (current_running s1)) (BarrierQ b) s1;
       do_scheduler s2 })"

definition do_barrier_destroy :: "nat \<Rightarrow> ('d, 'a) lkst_scheme \<Rightarrow> ('d, 'a) lkst_scheme option" where
  "do_barrier_destroy b s = (if b \<ge> BARRIER_NUM then None else do {
     s1 \<leftarrow> unblock_all (BarrierQ b) s;
     Some (upd_bar b (\<lambda>x. x\<lparr>bar_status := BAR_INACTIVE\<rparr>) s1) })"

section \<open>Condition variables\<close>

definition init_conditions :: "('d, 'a) lkst_scheme \<Rightarrow> ('d, 'a) lkst_scheme" where
  "init_conditions s = s\<lparr>qlinks := init_queues (map CondQ [0..<CONDITION_NUM]) (qlinks s),
     condition := (\<lambda>i. if i < CONDITION_NUM then (condition s i)\<lparr>cond_status := COND_INACTIVE\<rparr> else condition s i)\<rparr>"

definition do_condition_init :: "i32 \<Rightarrow> ('d, 'a) lkst_scheme \<Rightarrow> int \<times> ('d, 'a) lkst_scheme" where
  "do_condition_init key s =
     (case first_idx (\<lambda>i. cond_status (condition s i) = COND_INACTIVE) CONDITION_NUM of
        None \<Rightarrow> (- 1, s)
      | Some c \<Rightarrow> (int c, (upd_cond c (\<lambda>x. x\<lparr>cond_key := key, cond_status := COND_ACTIVE\<rparr>) s)
            \<lparr>qlinks := init_queue (CondQ c) (qlinks s)\<rparr>))"

text \<open>\<^verbatim>\<open>do_condition_wait\<close> up to the switch; it ends with the passes of \<^verbatim>\<open>do_mutex_lock_acquire\<close> after the wake-up.\<close>

definition do_condition_wait :: "nat \<Rightarrow> nat \<Rightarrow> ('d, 'a) lkst_scheme \<Rightarrow> ('d, 'a) lkst_scheme option" where
  "do_condition_wait c l s = (if c \<ge> CONDITION_NUM then None else do {
     s1 \<leftarrow> do_block (PcbNode (current_running s)) (CondQ c) s;
     s2 \<leftarrow> do_mutex_lock_release l s1;
     do_scheduler s2 })"

definition do_condition_signal :: "nat \<Rightarrow> ('d, 'a) lkst_scheme \<Rightarrow> ('d, 'a) lkst_scheme option" where
  "do_condition_signal c s = (if c \<ge> CONDITION_NUM then None else do {
     n \<leftarrow> nxt (qlinks s) (CondQ c);
     if n \<noteq> CondQ c then do_unblock n s else Some s })"

definition do_condition_broadcast :: "nat \<Rightarrow> ('d, 'a) lkst_scheme \<Rightarrow> ('d, 'a) lkst_scheme option" where
  "do_condition_broadcast c s = (if c \<ge> CONDITION_NUM then None else unblock_all (CondQ c) s)"

definition do_condition_destroy :: "nat \<Rightarrow> ('d, 'a) lkst_scheme \<Rightarrow> ('d, 'a) lkst_scheme option" where
  "do_condition_destroy c s = do {
     s1 \<leftarrow> do_condition_broadcast c s;
     Some (upd_cond c (\<lambda>x. x\<lparr>cond_status := COND_INACTIVE\<rparr>) s1) }"

section \<open>Mailboxes\<close>

definition mbox_queues :: "nat \<Rightarrow> node links \<Rightarrow> node links" where
  "mbox_queues i lk = init_queue (MboxFullQ i) (init_queue (MboxEmptyQ i) lk)"

fun init_mbox_queues :: "nat list \<Rightarrow> node links \<Rightarrow> node links" where
  "init_mbox_queues [] lk = lk"
| "init_mbox_queues (i # is) lk = init_mbox_queues is (mbox_queues i lk)"

definition init_mbox :: "('d, 'a) lkst_scheme \<Rightarrow> ('d, 'a) lkst_scheme" where
  "init_mbox s = s\<lparr>qlinks := init_mbox_queues [0..<MBOX_NUM] (qlinks s),
     mailbox := (\<lambda>i. if i < MBOX_NUM
       then (mailbox s i)\<lparr>mb_status := MBOX_INACTIVE, mb_open := MBOX_CLOSE, cite_num := 0\<rparr> else mailbox s i)\<rparr>"

text \<open>The search for an active mailbox of the given name; a name that runs off its array is a fault.\<close>

fun mbox_search :: "bytes \<Rightarrow> (nat \<Rightarrow> mailbox_t) \<Rightarrow> nat list \<Rightarrow> nat option option" where
  "mbox_search name mb [] = Some None"
| "mbox_search name mb (i # is) =
     (if mb_status (mb i) = MBOX_ACTIVE then do {
        r \<leftarrow> strcmp (mb_name (mb i)) name;
        if r = 0 then Some (Some i) else mbox_search name mb is }
      else mbox_search name mb is)"

text \<open>\<open>uva\<close> is the address of the name in user memory, \<open>name\<close> the bytes found there.\<close>

definition do_mbox_open :: "'d swap_ops \<Rightarrow> u64 \<Rightarrow> bytes \<Rightarrow> ('d, 'a) lkst_scheme \<Rightarrow> (int \<times> ('d, 'a) lkst_scheme) option" where
  "do_mbox_open ops uva name s0 = do {
     s \<leftarrow> check_uva_mem ops uva 32 (current_running s0) s0;
     r \<leftarrow> mbox_search name (mailbox s) [0..<MBOX_NUM];
     case r of
       Some i \<Rightarrow> Some (int i, upd_mbox i (\<lambda>b. b\<lparr>cite_num := cite_num b + 1, mb_open := MBOX_OPEN\<rparr>) s)
     | None \<Rightarrow> (case first_idx (\<lambda>i. mb_status (mailbox s i) = MBOX_INACTIVE) MBOX_NUM of
           None \<Rightarrow> Some (- 1, s)
         | Some i \<Rightarrow> do {
             nm \<leftarrow> strcpy (mb_name (mailbox s i)) name;
             let s1 = (upd_mbox i (\<lambda>b. b\<lparr>mb_name := nm, mb_status := MBOX_ACTIVE, buffer_idx := 0, cite_num := 0\<rparr>) s)
               \<lparr>qlinks := mbox_queues i (qlinks s)\<rparr>;
             Some (int i, upd_mbox i (\<lambda>b. b\<lparr>cite_num := cite_num b + 1, mb_open := MBOX_OPEN\<rparr>) s1) }) }"

definition do_mbox_close :: "nat \<Rightarrow> ('d, 'a) lkst_scheme \<Rightarrow> ('d, 'a) lkst_scheme option" where
  "do_mbox_close i s = (if i \<ge> MBOX_NUM then None else
     let s1 = upd_mbox i (\<lambda>b. b\<lparr>cite_num := cite_num b - 1, mb_open := MBOX_CLOSE\<rparr>) s in
     Some (if sint (cite_num (mailbox s1 i)) \<le> 0
       then upd_mbox i (\<lambda>b. b\<lparr>mb_status := MBOX_INACTIVE\<rparr>) s1 else s1))"

text \<open>
  One pass of \<^verbatim>\<open>do_mbox_send\<close>; \<open>msg\<close> are the bytes at the user address \<open>uva\<close>. The length is converted
  to unsigned for \<^verbatim>\<open>memcpy\<close>, so a negative one copies far beyond the buffer: a fault.
\<close>

definition do_mbox_send ::
  "'d swap_ops \<Rightarrow> nat \<Rightarrow> u64 \<Rightarrow> bytes \<Rightarrow> i32 \<Rightarrow> ('d, 'a) lkst_scheme \<Rightarrow> (unit outcome \<times> ('d, 'a) lkst_scheme) option" where
  "do_mbox_send ops i uva msg len s = (if i \<ge> MBOX_NUM then None
     else if sint (buffer_idx (mailbox s i) + len) \<le> int MAX_MBOX_LENGTH
     then do {
       let start = sint (buffer_idx (mailbox s i));
       s1 \<leftarrow> check_uva_mem ops uva (scast len) (current_running s) s;
       c_assert (0 \<le> start);
       let buf = mb_buffer (mailbox s1 i);
       tl \<leftarrow> memcpy (drop (nat start) buf) msg (unat len);
       let s2 = upd_mbox i (\<lambda>b. b\<lparr>mb_buffer := take (nat start) buf @ tl, buffer_idx := buffer_idx b + len\<rparr>) s1;
       s3 \<leftarrow> unblock_all (MboxEmptyQ i) s2;
       Some (Done (), s3) }
     else do {
       s1 \<leftarrow> do_block (PcbNode (current_running s)) (MboxFullQ i) s;
       s2 \<leftarrow> do_scheduler s1;
       Some (Again, s2) })"

text \<open>One pass of \<^verbatim>\<open>do_mbox_recv\<close>; a finished receive yields the bytes stored at the user address.\<close>

definition do_mbox_recv ::
  "'d swap_ops \<Rightarrow> nat \<Rightarrow> u64 \<Rightarrow> i32 \<Rightarrow> ('d, 'a) lkst_scheme \<Rightarrow> (bytes outcome \<times> ('d, 'a) lkst_scheme) option" where
  "do_mbox_recv ops i uva len s = (if i \<ge> MBOX_NUM then None
     else if sint (buffer_idx (mailbox s i) - len) \<ge> 0
     then do {
       s1 \<leftarrow> check_uva_mem ops uva (scast len) (current_running s) s;
       let buf = mb_buffer (mailbox s1 i);
       c_assert (unat len \<le> length buf);
       let msg = take (unat len) buf;
       let remain = buffer_idx (mailbox s1 i) - len;
       buf' \<leftarrow> memcpy_in buf 0 (unat len) (unat remain);
       let s2 = upd_mbox i (\<lambda>b. b\<lparr>mb_buffer := buf', buffer_idx := remain\<rparr>) s1;
       s3 \<leftarrow> unblock_all (MboxFullQ i) s2;
       Some (Done msg, s3) }
     else do {
       s1 \<leftarrow> do_block (PcbNode (current_running s)) (MboxEmptyQ i) s;
       s2 \<leftarrow> do_scheduler s1;
       Some (Again, s2) })"

end
