(* ===== verification/Sync.thy ===== *)
theory Sync
  imports Lock
begin

text \<open>
  Properties of the synchronisation primitives of \<open>Lock\<close>: mutual exclusion and wake-up of mutex
  locks as an invariant of a step relation, barriers and condition variables on the queue level,
  and mailboxes as bounded byte queues.
\<close>

section \<open>Frames\<close>

text \<open>What scheduling leaves alone as far as the locks are concerned.\<close>

definition lk_frame :: "'a kst_scheme \<Rightarrow> 'a kst_scheme \<Rightarrow> bool" where
  "lk_frame s s' \<longleftrightarrow> kst.more s' = kst.more s \<and> (\<forall>p. pid (pcbs s' p) = pid (pcbs s p))"

lemma lk_frame_trans: "lk_frame s s' \<Longrightarrow> lk_frame s' s'' \<Longrightarrow> lk_frame s s''"
  by (simp add: lk_frame_def)

lemma lk_frame_same_procs: "same_procs s s' \<Longrightarrow> lk_frame s s'"
  by (simp add: lk_frame_def same_procsD)

lemma more_fields:
  fixes s s' :: "('d, 'a) lkst_scheme"
  assumes "kst.more s' = kst.more s"
  shows "mlocks s' = mlocks s" "last_lockid s' = last_lockid s" "barrier s' = barrier s"
    "condition s' = condition s" "mailbox s' = mailbox s"
  using assms by (cases s, cases s', simp)+

lemmas frame_fields = more_fields [OF conjunct1 [OF iffD1 [OF lk_frame_def]]]

lemma upd_lk_simps [simp]:
  "pcbs (upd_mlock i f s) = pcbs s" "qlinks (upd_mlock i f s) = qlinks s" "cur (upd_mlock i f s) = cur s"
  "hart (upd_mlock i f s) = hart s" "mlocks (upd_mlock i f s) = (mlocks s)(i := f (mlocks s i))"
  "pcbs (upd_bar i g s) = pcbs s" "qlinks (upd_bar i g s) = qlinks s" "cur (upd_bar i g s) = cur s"
  "hart (upd_bar i g s) = hart s" "barrier (upd_bar i g s) = (barrier s)(i := g (barrier s i))"
  "pcbs (upd_mbox i k s) = pcbs s" "qlinks (upd_mbox i k s) = qlinks s" "cur (upd_mbox i k s) = cur s"
  "hart (upd_mbox i k s) = hart s" "mailbox (upd_mbox i k s) = (mailbox s)(i := k (mailbox s i))"
  "current_running (upd_mlock i f s) = current_running s" "current_running (upd_bar i g s) = current_running s"
  "current_running (upd_mbox i k s) = current_running s"
  by (simp_all add: upd_mlock_def upd_bar_def upd_mbox_def current_running_def)

text \<open>The queues and processes of a state, with the current process in no queue.\<close>

definition at_rest :: "node set \<Rightarrow> (node \<Rightarrow> node list) \<Rightarrow> 'a kst_scheme \<Rightarrow> bool" where
  "at_rest H Q s \<longleftrightarrow> sched_rel H Q s \<and> run_ok H Q s \<and>
     (\<forall>i. current_running s = Pcb i \<longrightarrow> unqueued H Q (PcbNode (Pcb i)))"

lemma at_rest_inv: "at_rest H Q s \<Longrightarrow> rest_inv H s"
  by (auto simp: at_rest_def rest_inv_def)

lemma at_restI: "rest_inv H s \<Longrightarrow> sched_rel H Q s \<Longrightarrow> at_rest H Q s"
  using rest_inv_rel by (auto simp: at_rest_def)

lemma at_rest_cong:
  assumes "at_rest H Q s" "qlinks s' = qlinks s" "cur s' = cur s" "hart s' = hart s" "pcbs s' = pcbs s"
  shows "at_rest H Q s'"
  using assms sched_rel_cong [of H Q s s'] run_ok_cong [of H Q s s']
  by (simp add: at_rest_def current_running_def)

text \<open>The scheduler moves nodes only between the ready and the sleep queue.\<close>

definition other_queues :: "(node \<Rightarrow> node list) \<Rightarrow> (node \<Rightarrow> node list) \<Rightarrow> bool" where
  "other_queues Q Q' \<longleftrightarrow> (\<forall>q. q \<noteq> ReadyQ \<longrightarrow> q \<noteq> SleepQ \<longrightarrow> Q' q = Q q)"

lemma sched_post_queues:
  assumes "sched_post H Q s s'" "rest_inv H s'"
  obtains Q' where "at_rest H Q' s'" "other_queues Q Q'" "same_procs s s'"
proof -
  have sp: "same_procs s s'" using assms(1) by (simp add: sched_post_def)
  have "\<exists>a b. sched_rel H (Q(SleepQ := a, ReadyQ := b)) s'"
    using assms(1) by (auto simp: sched_post_def split: option.splits node.splits)
  then obtain a b where "sched_rel H (Q(SleepQ := a, ReadyQ := b)) s'" by blast
  then show thesis
    using that [OF at_restI [OF assms(2)] _ sp] by (auto simp: other_queues_def)
qed

text \<open>Waiting in a queue and giving up the processor.\<close>

lemma wait_queues:
  assumes "at_rest H Q s" "current_running s = Pcb i" "q \<in> H" "q \<noteq> ReadyQ"
  obtains s1 s' Q' where "do_block (PcbNode (Pcb i)) q s = Some s1" "do_scheduler s1 = Some s'"
    "at_rest H Q' s'" "other_queues (Q(q := Q q @ [PcbNode (Pcb i)])) Q'" "lk_frame s s'"
proof -
  have r: "sched_rel H Q s" "run_ok H Q s" "unqueued H Q (PcbNode (Pcb i))"
    using assms(1,2) by (auto simp: at_rest_def)
  obtain s1 s' where s': "do_block (PcbNode (Pcb i)) q s = Some s1" "do_scheduler s1 = Some s'"
    "sched_post H (Q(q := Q q @ [PcbNode (Pcb i)])) s1 s'" "rest_inv H s'" "same_procs s s1"
    using block_schedule [OF r assms(2-4)] by metis
  obtain Q' where "at_rest H Q' s'" "other_queues (Q(q := Q q @ [PcbNode (Pcb i)])) Q'" "same_procs s1 s'"
    using sched_post_queues [OF s'(3,4)] .
  then show thesis
    using that s' lk_frame_trans lk_frame_same_procs by blast
qed

text \<open>Waking all processes of a queue; the current process may itself be waiting.\<close>

lemma wake_run:
  assumes "sched_rel H Q s" "run_ok H Q s" "q \<in> H" "q \<noteq> ReadyQ"
  obtains s' where "unblock_all q s = Some s'" "sched_rel H (Q(q := [], ReadyQ := Q ReadyQ @ Q q)) s'"
    "run_ok H (Q(q := [], ReadyQ := Q ReadyQ @ Q q)) s'" "lk_frame s s'" "cur s' = cur s" "hart s' = hart s"
proof -
  let ?Q = "Q(q := [], ReadyQ := Q ReadyQ @ Q q)"
  obtain lk where lk: "unblock_all q s = Some ((wake (Q q) s)\<lparr>qlinks := lk\<rparr>)"
    "sched_rel H ?Q ((wake (Q q) s)\<lparr>qlinks := lk\<rparr>)"
    using unblock_all_spec [OF assms(1,3,4)] .
  have "unqueued H Q x \<Longrightarrow> unqueued H ?Q x" for x using assms(3) by (auto simp: unqueued_def)
  then have "run_ok H ?Q ((wake (Q q) s)\<lparr>qlinks := lk\<rparr>)"
    using assms(2) unfolding run_ok_def by auto
  then show thesis by (intro that [OF lk]) (simp_all add: lk_frame_def)
qed

lemma wake_queues:
  assumes "at_rest H Q s" "q \<in> H" "q \<noteq> ReadyQ"
  obtains s' where "unblock_all q s = Some s'" "at_rest H (Q(q := [], ReadyQ := Q ReadyQ @ Q q)) s'"
    "lk_frame s s'" "cur s' = cur s" "hart s' = hart s"
proof -
  obtain s' where s': "unblock_all q s = Some s'" "sched_rel H (Q(q := [], ReadyQ := Q ReadyQ @ Q q)) s'"
    "lk_frame s s'" "cur s' = cur s" "hart s' = hart s"
    using wake_run [of H Q s q] assms by (auto simp: at_rest_def)
  moreover have "rest_inv H s'"
    using unblock_all_rest [OF at_rest_inv [OF assms(1)] assms(2,3)] s'(1) by (metis option.inject)
  ultimately show thesis using that at_restI by blast
qed

section \<open>Mutual exclusion\<close>

text \<open>
  The steps of the system as far as mutex locks are concerned, together with the processes that are
  between a finished acquire and the release of a lock (\<open>crit l\<close>): one pass of an acquire, a
  release and a condition wait by the current process, and every scheduler step that does not use
  the lock queues (yield, sleep, waits and wake-ups of the other primitives, entry of another hart).
  Only a holder releases.
\<close>

inductive lock_step ::
  "node set \<Rightarrow> ('d, 'a) lkst_scheme \<times> (nat \<Rightarrow> pcbref set) \<Rightarrow> ('d, 'a) lkst_scheme \<times> (nat \<Rightarrow> pcbref set) \<Rightarrow> bool"
  for H where
  acquired: "current_running s = Pcb i \<Longrightarrow> do_mutex_lock_acquire l s = Some (Done (), s') \<Longrightarrow>
    lock_step H (s, crit) (s', crit(l := insert (Pcb i) (crit l)))"
| blocked: "current_running s = Pcb i \<Longrightarrow> do_mutex_lock_acquire l s = Some (Again, s') \<Longrightarrow>
    lock_step H (s, crit) (s', crit)"
| released: "current_running s = Pcb i \<Longrightarrow> Pcb i \<in> crit l \<Longrightarrow> do_mutex_lock_release l s = Some s' \<Longrightarrow>
    lock_step H (s, crit) (s', crit(l := crit l - {Pcb i}))"
| cond_wait: "current_running s = Pcb i \<Longrightarrow> Pcb i \<in> crit l \<Longrightarrow> CondQ c \<in> H \<Longrightarrow>
    do_condition_wait c l s = Some s' \<Longrightarrow> lock_step H (s, crit) (s', crit(l := crit l - {Pcb i}))"
| scheduled: "sched_step (H - range MutexQ) s s' \<Longrightarrow> lock_step H (s, crit) (s', crit)"

text \<open>
  A lock is free, with nobody waiting and nobody inside, or it is taken by exactly one process,
  whose process id it records.
\<close>

definition lock_ok :: "(node \<Rightarrow> node list) \<Rightarrow> nat \<Rightarrow> ('d, 'a) lkst_scheme \<Rightarrow> pcbref set \<Rightarrow> bool" where
  "lock_ok Q l s c \<longleftrightarrow> (case ml_lock (mlocks s l) of
       UNLOCKED \<Rightarrow> c = {} \<and> Q (MutexQ l) = []
     | LOCKED \<Rightarrow> \<exists>p. c = {p} \<and> ml_pid (mlocks s l) = pid (pcbs s p))"

definition mutex_inv :: "node set \<Rightarrow> ('d, 'a) lkst_scheme \<times> (nat \<Rightarrow> pcbref set) \<Rightarrow> bool" where
  "mutex_inv H sc \<longleftrightarrow> (\<exists>Q. at_rest H Q (fst sc) \<and> (\<forall>l < LOCK_NUM. MutexQ l \<in> H \<and> lock_ok Q l (fst sc) (snd sc l)))"

lemma lock_ok_frame:
  assumes "lock_ok Q l s c" "lk_frame s s'" "Q' (MutexQ l) = Q (MutexQ l) \<or> ml_lock (mlocks s l) = LOCKED"
  shows "lock_ok Q' l s' c"
  using assms frame_fields(1) [OF assms(2)]
  by (auto simp: lock_ok_def lk_frame_def split: lock_status_t.splits)

lemma lock_ok_cong:
  assumes "lock_ok Q l s c" "mlocks s' l = mlocks s l" "\<And>p. pid (pcbs s' p) = pid (pcbs s p)"
    "Q' (MutexQ l) = Q (MutexQ l)"
  shows "lock_ok Q' l s' c"
  using assms by (simp add: lock_ok_def split: lock_status_t.splits)

text \<open>The scheduler steps that leave the lock queues alone.\<close>

lemma sched_step_queues:
  assumes step: "sched_step G s s'" and r: "at_rest H Q s" and G: "G \<subseteq> H"
  obtains Q' where "at_rest H Q' s'" "lk_frame s s'" "\<And>q. q \<in> H - G \<Longrightarrow> q \<noteq> ReadyQ \<Longrightarrow> q \<noteq> SleepQ \<Longrightarrow> Q' q = Q q"
proof -
  note Q = r [unfolded at_rest_def]
  have "\<exists>Q'. at_rest H Q' s' \<and> lk_frame s s' \<and> (\<forall>q \<in> H - G. q \<noteq> ReadyQ \<longrightarrow> q \<noteq> SleepQ \<longrightarrow> Q' q = Q q)"
    using step
  proof cases
    case (enter h)
    then have "sched_rel H Q s'" using sched_rel_cong [of H Q s s'] Q by simp
    moreover have "rest_inv H s'" using enter rest_inv_enter at_rest_inv [OF r] by blast
    ultimately show ?thesis using at_restI [of H s' Q] enter by (auto simp: lk_frame_def)
  next
    case yield
    obtain s1 where "do_scheduler s = Some s1" "sched_post H Q s s1" "rest_inv H s1"
      using sched_post_exists [of H Q s] Q by blast
    with yield have "sched_post H Q s s'" "rest_inv H s'" by simp_all
    from sched_post_queues [OF this] show ?thesis using lk_frame_same_procs by (metis other_queues_def)
  next
    case (sleep i t)
    obtain s1 s2 where s1: "do_sleep t s = Some s2" "rest_inv H s2"
      "sched_post H (Q(SleepQ := Q SleepQ @ [PcbNode (Pcb i)])) s1 s2" "kst.more s1 = kst.more s"
      "\<And>p. pid (pcbs s1 p) = pid (pcbs s p)"
      using do_sleep_spec [of H Q s i t] Q sleep(1) by metis
    with sleep have "s2 = s'" by simp
    from sched_post_queues [OF s1(3,2)] obtain Q' where
      "at_rest H Q' s'" "other_queues (Q(SleepQ := Q SleepQ @ [PcbNode (Pcb i)])) Q'" "same_procs s1 s'"
      using \<open>s2 = s'\<close> by metis
    moreover have "lk_frame s s1" using s1(4,5) by (simp add: lk_frame_def)
    ultimately have "at_rest H Q' s'" "lk_frame s s'" "\<forall>q. q \<noteq> ReadyQ \<longrightarrow> q \<noteq> SleepQ \<longrightarrow> Q' q = Q q"
      using lk_frame_trans [OF _ lk_frame_same_procs] by (auto simp: other_queues_def)
    then show ?thesis by blast
  next
    case (wait i q s1)
    then have "q \<in> H" using G by blast
    from wait_queues [OF r wait(1) this wait(3)] obtain s1' s2 Q' where
      "do_block (PcbNode (Pcb i)) q s = Some s1'" "do_scheduler s1' = Some s2"
      "at_rest H Q' s2" "other_queues (Q(q := Q q @ [PcbNode (Pcb i)])) Q'" "lk_frame s s2" .
    with wait show ?thesis by (auto simp: other_queues_def)
  next
    case (wake_up q)
    then have "q \<in> H" using G by blast
    from wake_queues [OF r this wake_up(2)] obtain s1 where
      "unblock_all q s = Some s1" "at_rest H (Q(q := [], ReadyQ := Q ReadyQ @ Q q)) s1" "lk_frame s s1" .
    with wake_up show ?thesis by fastforce
  qed
  then show thesis using that by blast
qed

text \<open>One pass of an acquire, on a free and on a taken lock.\<close>

lemma acquire_free:
  assumes "at_rest H Q s" "l < LOCK_NUM" "ml_lock (mlocks s l) = UNLOCKED"
  obtains s' where "do_mutex_lock_acquire l s = Some (Done (), s')" "at_rest H Q s'" "pcbs s' = pcbs s"
    "mlocks s' = (mlocks s)(l := (mlocks s l)\<lparr>ml_lock := LOCKED, ml_pid := pid (pcbs s (current_running s))\<rparr>)"
  using that [of "upd_mlock l (\<lambda>b. b\<lparr>ml_lock := LOCKED, ml_pid := do_getpid s\<rparr>) s"] assms(2,3)
    at_rest_cong [OF assms(1), of "upd_mlock l (\<lambda>b. b\<lparr>ml_lock := LOCKED, ml_pid := do_getpid s\<rparr>) s"]
  by (simp add: do_mutex_lock_acquire_def do_getpid_def)

lemma acquire_taken:
  assumes "at_rest H Q s" "current_running s = Pcb i" "l < LOCK_NUM" "ml_lock (mlocks s l) = LOCKED" "MutexQ l \<in> H"
  obtains s' Q' where "do_mutex_lock_acquire l s = Some (Again, s')" "at_rest H Q' s'" "lk_frame s s'"
    "other_queues (Q(MutexQ l := Q (MutexQ l) @ [PcbNode (Pcb i)])) Q'"
proof -
  obtain s1 s' Q' where "do_block (PcbNode (Pcb i)) (MutexQ l) s = Some s1" "do_scheduler s1 = Some s'"
    "at_rest H Q' s'" "other_queues (Q(MutexQ l := Q (MutexQ l) @ [PcbNode (Pcb i)])) Q'" "lk_frame s s'"
    using wait_queues [OF assms(1,2,5)] by blast
  then show thesis using that assms(2-4) by (simp add: do_mutex_lock_acquire_def)
qed

lemma release_run:
  assumes "sched_rel H Q s" "run_ok H Q s" "l < LOCK_NUM" "MutexQ l \<in> H"
  obtains s' where "do_mutex_lock_release l s = Some s'"
    "sched_rel H (Q(MutexQ l := [], ReadyQ := Q ReadyQ @ Q (MutexQ l))) s'"
    "run_ok H (Q(MutexQ l := [], ReadyQ := Q ReadyQ @ Q (MutexQ l))) s'"
    "mlocks s' = (mlocks s)(l := (mlocks s l)\<lparr>ml_lock := UNLOCKED, ml_pid := 0\<rparr>)"
    "\<forall>p. pid (pcbs s' p) = pid (pcbs s p)"
proof -
  let ?s = "upd_mlock l (\<lambda>b. b\<lparr>ml_lock := UNLOCKED, ml_pid := 0\<rparr>) s"
  have "sched_rel H Q ?s" "run_ok H Q ?s"
    using sched_rel_cong [OF assms(1), of ?s] run_ok_cong [OF assms(2), of ?s] by simp_all
  from wake_run [OF this assms(4)] obtain s' where s': "unblock_all (MutexQ l) ?s = Some s'"
    "sched_rel H (Q(MutexQ l := [], ReadyQ := Q ReadyQ @ Q (MutexQ l))) s'"
    "run_ok H (Q(MutexQ l := [], ReadyQ := Q ReadyQ @ Q (MutexQ l))) s'" "lk_frame ?s s'"
    "cur s' = cur ?s" "hart s' = hart ?s" by blast
  show thesis
    using that [of s'] s' frame_fields(1) [OF s'(4)] assms(3)
    by (simp add: do_mutex_lock_release_def lk_frame_def)
qed

text \<open>A condition wait: the process is in the queue of the condition before the lock is free.\<close>

lemma cond_wait_queues:
  assumes "at_rest H Q s" "current_running s = Pcb i" "c < CONDITION_NUM" "l < LOCK_NUM" "CondQ c \<in> H" "MutexQ l \<in> H"
  obtains s' Q' where "do_condition_wait c l s = Some s'" "at_rest H Q' s'"
    "mlocks s' = (mlocks s)(l := (mlocks s l)\<lparr>ml_lock := UNLOCKED, ml_pid := 0\<rparr>)"
    "\<forall>p. pid (pcbs s' p) = pid (pcbs s p)"
    "other_queues (Q(CondQ c := Q (CondQ c) @ [PcbNode (Pcb i)], MutexQ l := [])) Q'"
proof -
  note r = assms(1) [unfolded at_rest_def]
  have i: "i < NUM_MAX_TASK" using r assms(2) by (auto simp: run_ok_def current_running_def)
  let ?s1 = "\<lambda>lk. (upd_pcb (Pcb i) (\<lambda>b. b\<lparr>status := TASK_BLOCKED\<rparr>) s)\<lparr>qlinks := lk\<rparr>"
  let ?Q1 = "Q(CondQ c := Q (CondQ c) @ [PcbNode (Pcb i)])"
  let ?Q2 = "?Q1(MutexQ l := [], ReadyQ := ?Q1 ReadyQ @ ?Q1 (MutexQ l))"
  obtain lk where s1: "do_block (PcbNode (Pcb i)) (CondQ c) s = Some (?s1 lk)" "sched_rel H ?Q1 (?s1 lk)"
    using do_block_spec [of H Q s "CondQ c" i] r assms(2,5) i by blast
  have run: "run_ok H ?Q1 (?s1 lk)" using block_run_ok [of H Q s i] r assms(2,5) by blast
  obtain s2 where s2: "do_mutex_lock_release l (?s1 lk) = Some s2" "sched_rel H ?Q2 s2" "run_ok H ?Q2 s2"
    "mlocks s2 = (mlocks (?s1 lk))(l := (mlocks (?s1 lk) l)\<lparr>ml_lock := UNLOCKED, ml_pid := 0\<rparr>)"
    "\<forall>p. pid (pcbs s2 p) = pid (pcbs (?s1 lk) p)"
    using release_run [OF s1(2) run assms(4,6)] .
  have s1_eq: "mlocks (?s1 lk) = mlocks s" "pid (pcbs (?s1 lk) p) = pid (pcbs s p)" for p
    by (simp_all add: upd_pcb_def)
  obtain s' where s': "do_scheduler s2 = Some s'" "sched_post H ?Q2 s2 s'" "rest_inv H s'"
    using sched_post_exists [OF s2(2,3)] .
  obtain Q' where Q': "at_rest H Q' s'" "other_queues ?Q2 Q'" "same_procs s2 s'"
    using sched_post_queues [OF s'(2,3)] .
  have fr: "mlocks s' = mlocks s2" "\<forall>p. pid (pcbs s' p) = pid (pcbs s2 p)"
    using more_fields(1) [OF same_procsD(2) [OF Q'(3)]] same_procsD(3) [OF Q'(3)] by simp_all
  have "do_condition_wait c l s = Some s'"
    using s1(1) s2(1) s'(1) assms(2,3) by (simp add: do_condition_wait_def)
  then show thesis
    using that [of s' Q'] Q'(1,2) s2(4,5) s1_eq fr by (simp add: other_queues_def)
qed

lemma release_queues:
  assumes "at_rest H Q s" "l < LOCK_NUM" "MutexQ l \<in> H"
  obtains s' where "do_mutex_lock_release l s = Some s'"
    "at_rest H (Q(MutexQ l := [], ReadyQ := Q ReadyQ @ Q (MutexQ l))) s'"
    "mlocks s' = (mlocks s)(l := (mlocks s l)\<lparr>ml_lock := UNLOCKED, ml_pid := 0\<rparr>)"
    "lk_frame (upd_mlock l (\<lambda>b. b\<lparr>ml_lock := UNLOCKED, ml_pid := 0\<rparr>) s) s'"
proof -
  let ?s = "upd_mlock l (\<lambda>b. b\<lparr>ml_lock := UNLOCKED, ml_pid := 0\<rparr>) s"
  have "at_rest H Q ?s" by (rule at_rest_cong [OF assms(1)]) simp_all
  from wake_queues [OF this assms(3)] obtain s' where s': "unblock_all (MutexQ l) ?s = Some s'"
    "at_rest H (Q(MutexQ l := [], ReadyQ := Q ReadyQ @ Q (MutexQ l))) s'" "lk_frame ?s s'" by blast
  show thesis
    using that [of s'] s' frame_fields(1) [OF s'(3)] assms(2) by (simp add: do_mutex_lock_release_def)
qed

text \<open>A step that changes one lock keeps the invariant of the others.\<close>

lemma mutex_inv_upd:
  assumes "at_rest H Q' s'" "\<And>k. k < LOCK_NUM \<Longrightarrow> MutexQ k \<in> H" "\<And>k. k < LOCK_NUM \<Longrightarrow> lock_ok Q k s (crit k)"
    and "\<And>k. k \<noteq> l \<Longrightarrow> mlocks s' k = mlocks s k" "\<And>p. pid (pcbs s' p) = pid (pcbs s p)"
    and "\<And>k. k \<noteq> l \<Longrightarrow> Q' (MutexQ k) = Q (MutexQ k)" "lock_ok Q' l s' c"
  shows "mutex_inv H (s', crit(l := c))"
proof -
  have "lock_ok Q' k s' ((crit(l := c)) k)" if "k < LOCK_NUM" for k
    using assms(7) lock_ok_cong [OF assms(3) [OF that], of s' Q'] assms(4-6) by (cases "k = l") simp_all
  then show ?thesis unfolding mutex_inv_def using assms(1,2) by (intro exI [of _ Q']) simp
qed

lemma lock_step_inv:
  assumes "lock_step H (s, crit) (s', crit')" "mutex_inv H (s, crit)"
  shows "mutex_inv H (s', crit')"
proof -
  obtain Q where Q: "at_rest H Q s" and H: "\<And>l. l < LOCK_NUM \<Longrightarrow> MutexQ l \<in> H"
    and ok: "\<And>l. l < LOCK_NUM \<Longrightarrow> lock_ok Q l s (crit l)"
    using assms(2) by (auto simp: mutex_inv_def)
  note upd = mutex_inv_upd [OF _ H ok]
  have bound: "l < LOCK_NUM" if "do_mutex_lock_acquire l s = Some x" for l x
    using that by (auto simp: do_mutex_lock_acquire_def split: if_splits)
  have one: "crit l = {Pcb i}" if "l < LOCK_NUM" "Pcb i \<in> crit l" for l i
    using ok [OF that(1)] that(2) by (auto simp: lock_ok_def split: lock_status_t.splits)
  show ?thesis
    using assms(1)
  proof cases
    case (acquired i l)
    note l = bound [OF acquired(3)]
    have free: "ml_lock (mlocks s l) = UNLOCKED"
      using acquired(3) by (auto simp: do_mutex_lock_acquire_def split: if_splits bind_splits)
    obtain s1 where "do_mutex_lock_acquire l s = Some (Done (), s1)" "at_rest H Q s1" "pcbs s1 = pcbs s"
      "mlocks s1 = (mlocks s)(l := (mlocks s l)\<lparr>ml_lock := LOCKED, ml_pid := pid (pcbs s (current_running s))\<rparr>)"
      using acquire_free [OF Q l free] .
    then show ?thesis
      unfolding acquired(1) using acquired(2,3) ok [OF l] free by (intro upd) (auto simp: lock_ok_def)
  next
    case (blocked i l)
    note l = bound [OF blocked(3)]
    have taken: "ml_lock (mlocks s l) = LOCKED"
      using blocked(3) by (cases "ml_lock (mlocks s l)") (auto simp: do_mutex_lock_acquire_def split: if_splits)
    obtain s1 Q' where "do_mutex_lock_acquire l s = Some (Again, s1)" "at_rest H Q' s1" "lk_frame s s1"
      "other_queues (Q(MutexQ l := Q (MutexQ l) @ [PcbNode (Pcb i)])) Q'"
      using acquire_taken [OF Q blocked(2) l taken H [OF l]] .
    then have s': "at_rest H Q' s'" "lk_frame s s'"
      "\<And>k. Q' (MutexQ k) = (Q(MutexQ l := Q (MutexQ l) @ [PcbNode (Pcb i)])) (MutexQ k)"
      using blocked(3) by (simp_all add: other_queues_def)
    have "lock_ok Q' k s' (crit k)" if "k < LOCK_NUM" for k
      using taken by (auto intro!: lock_ok_frame [OF ok [OF that] s'(2)] simp: s'(3))
    then show ?thesis using s'(1) H blocked(1) by (auto simp: mutex_inv_def)
  next
    case (released i l)
    then have l: "l < LOCK_NUM" by (auto simp: do_mutex_lock_release_def split: if_splits)
    let ?Q = "Q(MutexQ l := [], ReadyQ := Q ReadyQ @ Q (MutexQ l))"
    obtain s1 where s1: "do_mutex_lock_release l s = Some s1" "at_rest H ?Q s1"
      "mlocks s1 = (mlocks s)(l := (mlocks s l)\<lparr>ml_lock := UNLOCKED, ml_pid := 0\<rparr>)"
      "lk_frame (upd_mlock l (\<lambda>b. b\<lparr>ml_lock := UNLOCKED, ml_pid := 0\<rparr>) s) s1"
      using release_queues [OF Q l H [OF l]] .
    then have "at_rest H ?Q s'" using released(4) by simp
    from upd [OF this] show ?thesis
      unfolding released(1) using released(4) s1 one [OF l released(3)] by (auto simp: lock_ok_def lk_frame_def)
  next
    case (cond_wait i l c)
    then have "do_condition_wait c l s \<noteq> None" by simp
    then have c: "c < CONDITION_NUM" "l < LOCK_NUM"
      by (auto simp: do_condition_wait_def do_mutex_lock_release_def split: if_splits bind_splits)
    obtain s1 Q' where s1: "do_condition_wait c l s = Some s1" "at_rest H Q' s1"
      "mlocks s1 = (mlocks s)(l := (mlocks s l)\<lparr>ml_lock := UNLOCKED, ml_pid := 0\<rparr>)"
      "\<forall>p. pid (pcbs s1 p) = pid (pcbs s p)"
      "other_queues (Q(CondQ c := Q (CondQ c) @ [PcbNode (Pcb i)], MutexQ l := [])) Q'"
      using cond_wait_queues [OF Q cond_wait(2) c cond_wait(4) H [OF c(2)]] .
    then have "at_rest H Q' s'" using cond_wait(5) by simp
    from upd [OF this] show ?thesis
      unfolding cond_wait(1) using cond_wait(5) s1 one [OF c(2) cond_wait(3)]
      by (auto simp: lock_ok_def other_queues_def)
  next
    case scheduled
    obtain Q' where "at_rest H Q' s'" "lk_frame s s'"
      "\<And>q. q \<in> H - (H - range MutexQ) \<Longrightarrow> q \<noteq> ReadyQ \<Longrightarrow> q \<noteq> SleepQ \<Longrightarrow> Q' q = Q q"
      using sched_step_queues [OF scheduled(2) Q] by blast
    with H have "lock_ok Q' k s' (crit k)" if "k < LOCK_NUM" for k
      using that by (intro lock_ok_frame [OF ok]) auto
    then show ?thesis using \<open>at_rest H Q' s'\<close> H scheduled(1) by (auto simp: mutex_inv_def)
  qed
qed

lemma lock_steps_inv:
  assumes "(lock_step H)\<^sup>*\<^sup>* sc sc'" "mutex_inv H sc"
  shows "mutex_inv H sc'"
  using assms by (induction rule: rtranclp_induct) (auto intro: lock_step_inv)

text \<open>A waiter is one that the pointers of the lock's queue show.\<close>

definition has_waiters :: "node \<Rightarrow> 'a kst_scheme \<Rightarrow> bool" where
  "has_waiters q s \<longleftrightarrow> nxt (qlinks s) q \<noteq> Some q"

lemma has_waiters_iff: "sched_rel H Q s \<Longrightarrow> q \<in> H \<Longrightarrow> has_waiters q s \<longleftrightarrow> Q q \<noteq> []"
  using dll_next_eq_head [OF queues_dll [OF sched_relD(1)]] by (auto simp: has_waiters_def)

text \<open>
  C16: mutual exclusion and no lost wake-up. From a state in which the locks are free and nobody
  waits for them, after any interleaving of acquires, releases, condition waits and scheduler
  steps, at most one process is in the critical section of a lock, the lock is LOCKED exactly
  while one is, it records that process, and processes wait for it only while it is taken.
\<close>

theorem mutex_exclusion:
  assumes "at_rest H Q s"
    and "\<forall>l < LOCK_NUM. MutexQ l \<in> H \<and> ml_lock (mlocks s l) = UNLOCKED \<and> Q (MutexQ l) = []"
    and "(lock_step H)\<^sup>*\<^sup>* (s, \<lambda>_. {}) (s', crit)" and "l < LOCK_NUM"
  shows "(\<forall>p \<in> crit l. \<forall>p' \<in> crit l. p = p') \<and> (ml_lock (mlocks s' l) = LOCKED \<longleftrightarrow> crit l \<noteq> {}) \<and>
    (\<forall>p \<in> crit l. ml_pid (mlocks s' l) = pid (pcbs s' p)) \<and> (has_waiters (MutexQ l) s' \<longrightarrow> crit l \<noteq> {})"
proof -
  have "mutex_inv H (s, \<lambda>_. {})"
    using assms(1,2) by (auto simp: mutex_inv_def lock_ok_def)
  then have "mutex_inv H (s', crit)" using lock_steps_inv assms(3) by blast
  then obtain Q' where Q': "at_rest H Q' s'" "MutexQ l \<in> H" "lock_ok Q' l s' (crit l)"
    using assms(4) by (auto simp: mutex_inv_def)
  then have "has_waiters (MutexQ l) s' \<longleftrightarrow> Q' (MutexQ l) \<noteq> []"
    using has_waiters_iff [of H Q' s'] by (simp add: at_rest_def)
  with Q'(3) show ?thesis by (auto simp: lock_ok_def split: lock_status_t.splits)
qed

text \<open>
  A release wakes everybody. It returns, frees the lock and moves all its waiters, in the order
  in which they came, to the end of the ready queue, so that the waiter at position \<open>k\<close> gets to
  retry after at most \<open>k + 1\<close> scheduling decisions more than the ready queue is long.
\<close>

theorem mutex_release_wakes:
  assumes "at_rest H Q s" "l < LOCK_NUM" "MutexQ l \<in> H"
  shows "\<exists>s'. do_mutex_lock_release l s = Some s' \<and> ml_lock (mlocks s' l) = UNLOCKED \<and>
    at_rest H (Q(MutexQ l := [], ReadyQ := Q ReadyQ @ Q (MutexQ l))) s' \<and>
    (\<forall>xs p ys. Q (MutexQ l) = xs @ PcbNode p # ys \<longrightarrow> elig s' (PcbNode p) \<longrightarrow>
       (\<exists>n \<le> Suc (length (Q ReadyQ) + length xs). \<exists>s''. schedules n s' = Some s'' \<and> current_running s'' = p))"
proof -
  let ?Q = "Q(MutexQ l := [], ReadyQ := Q ReadyQ @ Q (MutexQ l))"
  obtain s' where s': "do_mutex_lock_release l s = Some s'" "at_rest H ?Q s'"
    "mlocks s' = (mlocks s)(l := (mlocks s l)\<lparr>ml_lock := UNLOCKED, ml_pid := 0\<rparr>)"
    "lk_frame (upd_mlock l (\<lambda>b. b\<lparr>ml_lock := UNLOCKED, ml_pid := 0\<rparr>) s) s'"
    using release_queues [OF assms] .
  have r: "sched_rel H ?Q s'" "run_ok H ?Q s'" using s'(2) by (simp_all add: at_rest_def)
  have "\<exists>n \<le> Suc (length (Q ReadyQ) + length xs). \<exists>s''. schedules n s' = Some s'' \<and> current_running s'' = p"
    if "Q (MutexQ l) = xs @ PcbNode p # ys" "elig s' (PcbNode p)" for xs p ys
    using ready_runs [OF r, of "Q ReadyQ @ xs" p ys] that by simp
  moreover have "ml_lock (mlocks s' l) = UNLOCKED" using s'(3) by simp
  ultimately show ?thesis using s'(1,2) by blast
qed

section \<open>Lock handles\<close>

text \<open>The handles in use have different keys.\<close>

definition keys_ok :: "('d, 'a) lkst_scheme \<Rightarrow> bool" where
  "keys_ok s \<longleftrightarrow> last_lockid s \<le> LOCK_NUM \<and> inj_on (\<lambda>i. ml_key (mlocks s i)) {..<last_lockid s}"

lemma lock_init_cases:
  assumes "keys_ok s"
  obtains (old) i where "i < last_lockid s" "ml_key (mlocks s i) = k" "do_mutex_lock_init k s = (int i, s)"
  | (full) "last_lockid s = LOCK_NUM" "k \<notin> (\<lambda>i. ml_key (mlocks s i)) ` {..<last_lockid s}" "do_mutex_lock_init k s = (- 1, s)"
  | (new) "last_lockid s < LOCK_NUM" "k \<notin> (\<lambda>i. ml_key (mlocks s i)) ` {..<last_lockid s}"
      "do_mutex_lock_init k s =
        (int (last_lockid s), (upd_mlock (last_lockid s) (\<lambda>b. b\<lparr>ml_key := k\<rparr>) s)\<lparr>last_lockid := Suc (last_lockid s)\<rparr>)"
proof (cases "first_idx (\<lambda>i. ml_key (mlocks s i) = k) (last_lockid s)")
  case None
  then have "k \<notin> (\<lambda>i. ml_key (mlocks s i)) ` {..<last_lockid s}" by (auto simp: first_idx_None_iff)
  then show thesis
    using None full new assms by (cases "last_lockid s \<ge> LOCK_NUM") (auto simp: do_mutex_lock_init_def keys_ok_def Let_def)
next
  case (Some i)
  then have "do_mutex_lock_init k s = (int i, s)" by (simp add: do_mutex_lock_init_def)
  then show thesis using Some by (intro old [of i]) (simp_all add: first_idx_Some_iff)
qed

fun lock_inits :: "i32 list \<Rightarrow> ('d, 'a) lkst_scheme \<Rightarrow> int list \<times> ('d, 'a) lkst_scheme" where
  "lock_inits [] s = ([], s)"
| "lock_inits (k # ks) s = (let (r, s1) = do_mutex_lock_init k s; (rs, s2) = lock_inits ks s1 in (r # rs, s2))"

lemma lock_init_step:
  assumes "keys_ok s" "do_mutex_lock_init k s = (r, s1)"
  shows "keys_ok s1" "last_lockid s \<le> last_lockid s1" "\<And>i. i < last_lockid s \<Longrightarrow> ml_key (mlocks s1 i) = ml_key (mlocks s i)"
    "0 \<le> r \<Longrightarrow> nat r < last_lockid s1 \<and> ml_key (mlocks s1 (nat r)) = k"
proof -
  have "keys_ok s1 \<and> last_lockid s \<le> last_lockid s1 \<and>
      (\<forall>i < last_lockid s. ml_key (mlocks s1 i) = ml_key (mlocks s i)) \<and>
      (0 \<le> r \<longrightarrow> nat r < last_lockid s1 \<and> ml_key (mlocks s1 (nat r)) = k)"
  proof (cases rule: lock_init_cases [OF assms(1), of k])
    case 3
    note new = 3
    then have s1: "r = int (last_lockid s)" "last_lockid s1 = Suc (last_lockid s)"
      "mlocks s1 = (mlocks s)(last_lockid s := (mlocks s (last_lockid s))\<lparr>ml_key := k\<rparr>)"
      using assms(2) by (auto simp: upd_mlock_def)
    have "inj_on (\<lambda>i. ml_key (mlocks s1 i)) (insert (last_lockid s) {..<last_lockid s})"
      using assms(1) new(2) by (auto simp: s1(3) keys_ok_def inj_on_def)
    then show ?thesis using new(1) s1 by (simp add: keys_ok_def lessThan_Suc)
  qed (use assms in auto)
  then show "keys_ok s1" "last_lockid s \<le> last_lockid s1"
    "\<And>i. i < last_lockid s \<Longrightarrow> ml_key (mlocks s1 i) = ml_key (mlocks s i)"
    "0 \<le> r \<Longrightarrow> nat r < last_lockid s1 \<and> ml_key (mlocks s1 (nat r)) = k" by auto
qed

lemma lock_inits_step:
  assumes "keys_ok s" "lock_inits ks s = (rs, s')"
  shows "keys_ok s' \<and> length rs = length ks \<and> last_lockid s \<le> last_lockid s' \<and>
    (\<forall>i < last_lockid s. ml_key (mlocks s' i) = ml_key (mlocks s i)) \<and>
    (\<forall>j < length ks. 0 \<le> rs ! j \<longrightarrow> nat (rs ! j) < last_lockid s' \<and> ml_key (mlocks s' (nat (rs ! j))) = ks ! j)"
  using assms
proof (induction ks arbitrary: s rs)
  case (Cons k ks)
  obtain r s1 where s1: "do_mutex_lock_init k s = (r, s1)" by fastforce
  obtain rs' where rs': "lock_inits ks s1 = (rs', s')" "rs = r # rs'"
    using Cons.prems(2) s1 by (auto simp: Let_def split: prod.splits)
  note st = lock_init_step [OF Cons.prems(1) s1] and IH = Cons.IH [OF st(1) rs'(1)]
  have "nat ((r # rs') ! j) < last_lockid s' \<and> ml_key (mlocks s' (nat ((r # rs') ! j))) = (k # ks) ! j"
    if "j < Suc (length ks)" "0 \<le> (r # rs') ! j" for j
    using that IH st(4) by (cases j) (auto simp: less_le_trans)
  then show ?case using IH st(2,3) rs'(2) by auto
qed auto

text \<open>
  Lock handles. In any series of \<^verbatim>\<open>do_mutex_lock_init\<close> calls, two calls that succeed return the same
  handle exactly when they were given the same key.
\<close>

theorem lock_handles:
  assumes "keys_ok s" "lock_inits ks s = (rs, s')" "i < length ks" "j < length ks" "0 \<le> rs ! i" "0 \<le> rs ! j"
  shows "rs ! i = rs ! j \<longleftrightarrow> ks ! i = ks ! j"
proof -
  note st = lock_inits_step [OF assms(1,2)]
  then have k: "nat (rs ! i) < last_lockid s'" "nat (rs ! j) < last_lockid s'"
    "ml_key (mlocks s' (nat (rs ! i))) = ks ! i" "ml_key (mlocks s' (nat (rs ! j))) = ks ! j"
    using assms(3-6) by auto
  have "inj_on (\<lambda>i. ml_key (mlocks s' i)) {..<last_lockid s'}" using st by (simp add: keys_ok_def)
  then have "nat (rs ! i) = nat (rs ! j) \<longleftrightarrow> ks ! i = ks ! j"
    using k by (metis inj_on_def lessThan_iff)
  then show ?thesis using assms(5,6) by (metis int_nat_eq)
qed

section \<open>Barriers\<close>

text \<open>
  Between two calls the counter of a barrier is the number of processes waiting at it, fewer than
  the goal.
\<close>

definition bar_ok :: "(node \<Rightarrow> node list) \<Rightarrow> nat \<Rightarrow> ('d, 'a) lkst_scheme \<Rightarrow> bool" where
  "bar_ok Q b s \<longleftrightarrow> sint (bar_counter (barrier s b)) = int (length (Q (BarrierQ b))) \<and>
     int (length (Q (BarrierQ b))) < sint (bar_goal (barrier s b))"

lemma sint_Suc: "sint w < 2 ^ 31 - 1 \<Longrightarrow> sint (w + 1 :: i32) = sint w + 1"
  using sint_ge [of w] by (simp add: sint_word_ariths signed_fit)

text \<open>
  C17: the barrier. A process that arrives returns from the kernel call with the barrier in order
  again. Unless it completes the goal it waits behind the earlier arrivals; the process that
  completes it keeps running, all earlier arrivals become ready in the order of their arrival, and
  the next round starts with nobody waiting.
\<close>

theorem barrier_round:
  assumes "at_rest H Q s" "current_running s = Pcb i" "b < BARRIER_NUM" "BarrierQ b \<in> H" "bar_ok Q b s"
  shows "\<exists>s' Q'. do_barrier_wait b s = Some s' \<and> at_rest H Q' s' \<and> bar_ok Q' b s' \<and>
    bar_goal (barrier s' b) = bar_goal (barrier s b) \<and>
    (if int (Suc (length (Q (BarrierQ b)))) < sint (bar_goal (barrier s b))
     then Q' (BarrierQ b) = Q (BarrierQ b) @ [PcbNode (Pcb i)]
     else Q' (BarrierQ b) = [] \<and> Q' ReadyQ = Q ReadyQ @ Q (BarrierQ b) \<and> current_running s' = Pcb i)"
proof -
  let ?n = "length (Q (BarrierQ b))" and ?w = "bar_counter (barrier s b)"
  define s1 where "s1 = upd_bar b (\<lambda>x. x\<lparr>bar_counter := bar_counter x + 1\<rparr>) s"
  have goal: "sint (bar_goal (barrier s b)) < 2 ^ 31" using sint_lt [of "bar_goal (barrier s b)"] by simp
  then have cnt: "sint (?w + 1) = int (Suc ?n)" using assms(5) sint_Suc [of ?w] by (simp add: bar_ok_def)
  have s1: "at_rest H Q s1" "current_running s1 = Pcb i" "bar_goal (barrier s1 b) = bar_goal (barrier s b)"
    "bar_counter (barrier s1 b) = ?w + 1"
    using at_rest_cong [OF assms(1), of s1] assms(2) by (simp_all add: s1_def)
  show ?thesis
  proof (cases "int (Suc ?n) < sint (bar_goal (barrier s b))")
    case True
    obtain s2 s' Q' where s': "do_block (PcbNode (Pcb i)) (BarrierQ b) s1 = Some s2" "do_scheduler s2 = Some s'"
      "at_rest H Q' s'" "other_queues (Q(BarrierQ b := Q (BarrierQ b) @ [PcbNode (Pcb i)])) Q'" "lk_frame s1 s'"
      using wait_queues [OF s1(1,2) assms(4)] by blast
    have "do_barrier_wait b s = Some s'"
      using True assms(3) s1 s'(1,2) cnt by (simp add: do_barrier_wait_def s1_def [symmetric])
    then show ?thesis
      using s' True cnt s1 frame_fields(3) [OF s'(5)]
      by (intro exI [of _ s'] exI [of _ Q']) (simp add: bar_ok_def other_queues_def)
  next
    case False
    obtain s2 where s2: "unblock_all (BarrierQ b) s1 = Some s2"
      "at_rest H (Q(BarrierQ b := [], ReadyQ := Q ReadyQ @ Q (BarrierQ b))) s2" "lk_frame s1 s2"
      "cur s2 = cur s1" "hart s2 = hart s1"
      using wake_queues [OF s1(1) assms(4)] by blast
    let ?s' = "upd_bar b (\<lambda>x. x\<lparr>bar_counter := 0\<rparr>) s2"
    have "do_barrier_wait b s = Some ?s'"
      using False assms(3) s1 s2(1) cnt by (simp add: do_barrier_wait_def s1_def [symmetric])
    moreover have "at_rest H (Q(BarrierQ b := [], ReadyQ := Q ReadyQ @ Q (BarrierQ b))) ?s'"
      by (rule at_rest_cong [OF s2(2)]) simp_all
    moreover have "current_running ?s' = Pcb i" using s2(4,5) s1(2) by (simp add: current_running_def)
    ultimately show ?thesis
      using False s1(3) assms(5) frame_fields(3) [OF s2(3)]
      by (intro exI [of _ ?s'] exI [of _ "Q(BarrierQ b := [], ReadyQ := Q ReadyQ @ Q (BarrierQ b))"])
        (simp add: bar_ok_def)
  qed
qed

section \<open>Condition variables\<close>

text \<open>
  no wake-up is lost between a condition wait and a later signal. The wait returns to the
  scheduler with the process at the end of the condition's queue, the lock free and the lock's
  waiters ready; from there a signal makes exactly the longest waiting process ready, and a
  broadcast makes all of them ready in order.
\<close>

theorem condition_wait_signal:
  assumes "at_rest H Q s" "current_running s = Pcb i" "c < CONDITION_NUM" "l < LOCK_NUM" "CondQ c \<in> H" "MutexQ l \<in> H"
  shows "\<exists>s' Q'. do_condition_wait c l s = Some s' \<and> at_rest H Q' s' \<and>
    Q' (CondQ c) = Q (CondQ c) @ [PcbNode (Pcb i)] \<and> Q' (MutexQ l) = [] \<and> ml_lock (mlocks s' l) = UNLOCKED \<and>
    (\<exists>s''. do_condition_signal c s' = Some s'' \<and>
       sched_rel H (Q'(CondQ c := tl (Q' (CondQ c)), ReadyQ := Q' ReadyQ @ [hd (Q' (CondQ c))])) s'') \<and>
    (\<exists>s''. do_condition_broadcast c s' = Some s'' \<and>
       at_rest H (Q'(CondQ c := [], ReadyQ := Q' ReadyQ @ Q' (CondQ c))) s'')"
proof -
  obtain s' Q' where s': "do_condition_wait c l s = Some s'" "at_rest H Q' s'"
    "mlocks s' = (mlocks s)(l := (mlocks s l)\<lparr>ml_lock := UNLOCKED, ml_pid := 0\<rparr>)"
    "\<forall>p. pid (pcbs s' p) = pid (pcbs s p)"
    "other_queues (Q(CondQ c := Q (CondQ c) @ [PcbNode (Pcb i)], MutexQ l := [])) Q'"
    using cond_wait_queues [OF assms] .
  have rel: "sched_rel H Q' s'" using s'(2) by (simp add: at_rest_def)
  have q: "Q' (CondQ c) = Q (CondQ c) @ [PcbNode (Pcb i)]" "Q' (MutexQ l) = []"
    using s'(5) by (simp_all add: other_queues_def)
  then obtain n ns where ns: "Q' (CondQ c) = n # ns" by (metis Nil_is_append_conv list.exhaust not_Cons_self2)
  have d: "dll (qlinks s') (CondQ c) (n # ns)" using queues_dll [OF sched_relD(1) [OF rel] assms(5)] ns by simp
  have nx: "nxt (qlinks s') (CondQ c) = Some n" "n \<noteq> CondQ c"
    using dll_first [OF d] dll_distinct(2) [OF d] by auto
  obtain lk where "do_unblock n s' = Some ((wake [n] s')\<lparr>qlinks := lk\<rparr>)"
    "sched_rel H (Q'(CondQ c := remove1 n (Q' (CondQ c)), ReadyQ := Q' ReadyQ @ [n])) ((wake [n] s')\<lparr>qlinks := lk\<rparr>)"
    using do_unblock_spec [OF rel assms(5), of n] ns by auto
  then have "\<exists>s''. do_condition_signal c s' = Some s'' \<and>
      sched_rel H (Q'(CondQ c := tl (Q' (CondQ c)), ReadyQ := Q' ReadyQ @ [hd (Q' (CondQ c))])) s''"
    using ns nx assms(3) by (simp add: do_condition_signal_def)
  moreover have "\<exists>s''. do_condition_broadcast c s' = Some s'' \<and>
      at_rest H (Q'(CondQ c := [], ReadyQ := Q' ReadyQ @ Q' (CondQ c))) s''"
    using wake_queues [OF s'(2) assms(5)] assms(3) by (auto simp: do_condition_broadcast_def)
  moreover have "ml_lock (mlocks s' l) = UNLOCKED" using s'(3) by simp
  ultimately show ?thesis using s'(1,2) q by blast
qed

section \<open>A concrete state\<close>

text \<open>All locks free, nobody waiting, barriers with goal 2, empty mailboxes; the processes are those of \<open>Sched\<close>.\<close>

definition demo_lk :: "(u32 \<Rightarrow> u64 list) lkst" where
  "demo_lk = \<lparr>pcbs = demo_pcbs, qlinks = \<lparr>nxt = demo_nxt, prv = demo_nxt\<rparr>,
     cur = (\<lambda>h. if h = 0 then Pcb 0 else SlavePid0), hart = 0, clk = (\<lambda>_. 10), clk_reads = 0, tty = [],
     mem = mem demo_mm, user_bitmap = user_bitmap demo_mm, kernel_bitmap = kernel_bitmap demo_mm, pn = pn demo_mm,
     plinks = plinks demo_mm, sd_sector_end = 1000, swapdev = (\<lambda>_. []), shm_pages = shm_pages demo_mm,
     userMemCurr = USER_STACK_ADDR, io_base = IO_ADDR_START,
     mlocks = (\<lambda>_. \<lparr>ml_lock = UNLOCKED, ml_pid = 0, ml_key = 0\<rparr>), last_lockid = 0,
     barrier = (\<lambda>_. \<lparr>bar_key = 0, bar_goal = 2, bar_counter = 0, bar_status = BAR_ACTIVE\<rparr>),
     condition = (\<lambda>_. \<lparr>cond_key = 0, cond_status = COND_ACTIVE\<rparr>),
     mailbox = (\<lambda>_. \<lparr>mb_status = MBOX_ACTIVE, mb_open = MBOX_OPEN, mb_name = replicate 32 0,
       mb_buffer = replicate 64 0, buffer_idx = 0, cite_num = 1\<rparr>)\<rparr>"

lemma demo_lk_rest: "at_rest demo_heads demo_Q demo_lk" "current_running demo_lk = Pcb 0"
proof -
  show "current_running demo_lk = Pcb 0" by (simp add: demo_lk_def current_running_def)
  moreover have "qlinks demo_lk = qlinks demo_kst" "pcbs demo_lk = pcbs demo_kst" "cur demo_lk = cur demo_kst"
    "hart demo_lk = hart demo_kst" by (simp_all add: demo_lk_def demo_kst_def)
  ultimately show "at_rest demo_heads demo_Q demo_lk"
    using demo_sched(1,2) demo_unqueued [of 0] by (simp add: at_rest_def sched_rel_def run_ok_def)
qed

lemma demo_lk_locks: "MutexQ l \<in> demo_heads" "ml_lock (mlocks demo_lk l) = UNLOCKED" "demo_Q (MutexQ l) = []"
  by (auto simp: demo_heads_def demo_lk_def demo_Q_def)

theorem mutex_exclusion_witness:
  "\<exists>s'. (lock_step demo_heads)\<^sup>*\<^sup>* (demo_lk, \<lambda>_. {}) (s', (\<lambda>_. {})(0 := {Pcb 0})) \<and>
    ml_lock (mlocks s' 0) = LOCKED \<and> ml_pid (mlocks s' 0) = 1"
proof -
  obtain s' where s': "do_mutex_lock_acquire 0 demo_lk = Some (Done (), s')" "pcbs s' = pcbs demo_lk"
    using acquire_free [OF demo_lk_rest(1) _ demo_lk_locks(2), of 0] by (auto simp: LOCK_NUM_def)
  then have steps: "(lock_step demo_heads)\<^sup>*\<^sup>* (demo_lk, \<lambda>_. {}) (s', (\<lambda>_. {})(0 := {Pcb 0}))"
    using acquired [OF demo_lk_rest(2) s'(1), of demo_heads "\<lambda>_. {}"] by auto
  from mutex_exclusion [OF demo_lk_rest(1) _ this, of 0] demo_lk_locks s'(2)
  have "ml_lock (mlocks s' 0) = LOCKED \<and> ml_pid (mlocks s' 0) = 1"
    by (simp add: LOCK_NUM_def demo_lk_def demo_pcbs_def demo_pcb_def)
  then show ?thesis using steps by blast
qed

theorem mutex_release_wakes_witness:
  "\<exists>s'. do_mutex_lock_release 0 demo_lk = Some s' \<and> ml_lock (mlocks s' 0) = UNLOCKED"
  using mutex_release_wakes [OF demo_lk_rest(1) _ demo_lk_locks(1), of 0] by (auto simp: LOCK_NUM_def)

theorem lock_handles_witness:
  "\<exists>rs s'. lock_inits [7, 8, 7] demo_lk = (rs, s') \<and> rs ! 0 = rs ! 2 \<and> rs ! 0 \<noteq> rs ! 1"
proof -
  have ok: "keys_ok demo_lk" by (simp add: keys_ok_def demo_lk_def)
  have "\<exists>s'. lock_inits [7, 8, 7] demo_lk = ([0, 1, 0], s')"
    by (simp add: do_mutex_lock_init_def first_idx_def demo_lk_def upd_mlock_def LOCK_NUM_def Let_def)
  then obtain s' where rs: "lock_inits [7, 8, 7] demo_lk = ([0, 1, 0], s')" by blast
  show ?thesis using lock_handles [OF ok rs, of 0 2] lock_handles [OF ok rs, of 0 1] rs by simp
qed

theorem barrier_round_witness:
  "\<exists>s' Q'. do_barrier_wait 0 demo_lk = Some s' \<and> at_rest demo_heads Q' s' \<and> Q' (BarrierQ 0) = [PcbNode (Pcb 0)]"
proof -
  have "bar_ok demo_Q 0 demo_lk" "BarrierQ 0 \<in> demo_heads" "demo_Q (BarrierQ 0) = []"
    "bar_goal (barrier demo_lk 0) = 2"
    by (auto simp: bar_ok_def demo_Q_def demo_lk_def demo_heads_def)
  with barrier_round [OF demo_lk_rest, of 0] show ?thesis by (auto simp: BARRIER_NUM_def)
qed

theorem condition_wait_signal_witness:
  "\<exists>s' Q'. do_condition_wait 0 0 demo_lk = Some s' \<and> at_rest demo_heads Q' s' \<and> Q' (CondQ 0) = [PcbNode (Pcb 0)]"
proof -
  have "CondQ 0 \<in> demo_heads" "demo_Q (CondQ 0) = []" by (auto simp: demo_heads_def demo_Q_def)
  with condition_wait_signal [OF demo_lk_rest, of 0 0] demo_lk_locks(1) [of 0] show ?thesis
    by (auto simp: CONDITION_NUM_def LOCK_NUM_def)
qed

end
