(* ===== verification/Mailbox.thy ===== *)
theory Mailbox
  imports Sync
begin

text \<open>
  Mailboxes as bounded byte queues: whatever else the kernel does in between, the bytes received
  from a mailbox are the bytes sent to it, in order, and at most 64 are under way. The first part
  shows what paging and scheduling leave alone, for every state.
\<close>

section \<open>What paging leaves alone\<close>

text \<open>The state without the memory manager's fields that swapping changes.\<close>

definition unpaged :: "('d, 'a) mmst_scheme \<Rightarrow> ('d, 'a) mmst_scheme" where
  "unpaged s = s\<lparr>mem := (\<lambda>_. 0), user_bitmap := [], pn := undefined, plinks := undefined, sd_sector_end := 0,
     swapdev := undefined\<rparr>"

lemma unpaged_upd [simp]:
  "unpaged (s\<lparr>mem := m\<rparr>) = unpaged s" "unpaged (s\<lparr>user_bitmap := b\<rparr>) = unpaged s" "unpaged (s\<lparr>pn := q\<rparr>) = unpaged s"
  "unpaged (s\<lparr>plinks := lk\<rparr>) = unpaged s" "unpaged (s\<lparr>sd_sector_end := e\<rparr>) = unpaged s" "unpaged (s\<lparr>swapdev := d\<rparr>) = unpaged s"
  "unpaged (upd_pte a f s) = unpaged s" "unpaged (upd_pn i g s) = unpaged s"
  by (simp_all add: unpaged_def upd_pte_def upd_pn_def)

lemma clock_loop_unpaged:
  assumes "clock_loop s = Some s'"
  shows "unpaged s' = unpaged s"
proof (rule clock_loop.raw_induct [where P = "\<lambda>s s'. unpaged s' = unpaged s", OF _ assms], goal_cases)
  case (1 f s s')
  from 1(2) show ?case
    by (auto split: bind_splits pnode.splits if_splits dest!: 1(1))
qed

lemma swap_page_out_unpaged: "swap_page_out ops s = Some (kva, s') \<Longrightarrow> unpaged s' = unpaged s"
  by (auto simp: swap_page_out_def Let_def c_assert_def split: bind_splits pnode.splits if_splits dest!: clock_loop_unpaged)

lemma alloc_user_page_unpaged: "alloc_user_page ops s = Some (kva, s') \<Longrightarrow> unpaged s' = unpaged s"
  by (auto simp: alloc_user_page_def split: bind_splits option.splits dest!: swap_page_out_unpaged)

lemma swap_page_in_unpaged: "swap_page_in ops i s = Some s' \<Longrightarrow> unpaged s' = unpaged s"
  by (auto simp: swap_page_in_def Let_def c_assert_def split: bind_splits if_splits dest!: alloc_user_page_unpaged)

lemma check_uva_loop_unpaged:
  assumes "check_uva_loop ops vpn e p s = Some s'"
  shows "unpaged s' = unpaged s"
proof (rule check_uva_loop.raw_induct [where P = "\<lambda>_ _ _ _ s s'. unpaged s' = unpaged s", OF _ assms], goal_cases)
  case (1 f ops vpn e p s s')
  from 1(2) show ?case
    by (auto split: bind_splits option.splits if_splits dest!: 1(1) swap_page_in_unpaged)
qed

lemma unpaged_kst:
  assumes "unpaged s' = unpaged s"
  shows "pcbs s' = pcbs s" "qlinks s' = qlinks s" "cur s' = cur s" "hart s' = hart s"
proof -
  have "pcbs (unpaged s') = pcbs (unpaged s)" "qlinks (unpaged s') = qlinks (unpaged s)"
    "cur (unpaged s') = cur (unpaged s)" "hart (unpaged s') = hart (unpaged s)" using assms by simp_all
  then show "pcbs s' = pcbs s" "qlinks s' = qlinks s" "cur s' = cur s" "hart s' = hart s"
    by (simp_all add: unpaged_def)
qed

lemma check_uva_mailbox:
  fixes s :: "('d, 'a) lkst_scheme"
  assumes "check_uva_mem ops uva n p s = Some s'"
  shows "mailbox s' = mailbox s" "at_rest H Q s \<Longrightarrow> at_rest H Q s'" "current_running s' = current_running s"
proof -
  have u: "unpaged s' = unpaged s" using assms check_uva_loop_unpaged by (auto simp: check_uva_mem_def)
  then have "mailbox (unpaged s') = mailbox (unpaged s)" by simp
  then show "mailbox s' = mailbox s" by (simp add: unpaged_def)
  show "at_rest H Q s \<Longrightarrow> at_rest H Q s'" using at_rest_cong unpaged_kst [OF u] by blast
  show "current_running s' = current_running s" using unpaged_kst [OF u] by (simp add: current_running_def)
qed

section \<open>What scheduling leaves alone\<close>

lemma enq_more:
  "add_readyqueue p s = Some s' \<Longrightarrow> kst.more s' = kst.more s"
  "remove_readyqueue p s = Some s' \<Longrightarrow> kst.more s' = kst.more s"
  "do_block n q s = Some s' \<Longrightarrow> kst.more s' = kst.more s"
  by (auto simp: add_readyqueue_def remove_readyqueue_def do_block_def Let_def split: bind_splits)

lemma do_unblock_more: "do_unblock n s = Some s' \<Longrightarrow> kst.more s' = kst.more s"
  by (auto simp: do_unblock_def split: bind_splits dest!: enq_more(1))

lemma unblock_all_more:
  assumes "unblock_all q s = Some s'"
  shows "kst.more s' = kst.more s"
proof (rule unblock_all.raw_induct [where P = "\<lambda>_ s s'. kst.more s' = kst.more s", OF _ assms], goal_cases)
  case (1 f q s s')
  from 1(2) show ?case by (auto split: bind_splits if_splits dest!: 1(1) do_unblock_more)
qed

lemma sleep_loop_more:
  assumes "sleep_loop n s = Some s'"
  shows "kst.more s' = kst.more s"
proof (rule sleep_loop.raw_induct [where P = "\<lambda>_ s s'. kst.more s' = kst.more s", OF _ assms], goal_cases)
  case (1 f n s s')
  from 1(2) show ?case
    by (auto simp: get_timer_def split: bind_splits if_splits dest!: 1(1) do_unblock_more)
qed

lemma next_loop_more:
  assumes "next_loop n s = Some r"
  shows "kst.more (snd r) = kst.more s"
proof (rule next_loop.raw_induct [where P = "\<lambda>_ s r. kst.more (snd r) = kst.more s", OF _ assms], goal_cases)
  case (1 f n s r)
  from 1(2) show ?case
    by (auto split: bind_splits if_splits dest!: 1(1) enq_more)
qed

lemma do_scheduler_more: "do_scheduler s = Some s' \<Longrightarrow> kst.more s' = kst.more s"
  by (auto simp: do_scheduler_def check_sleeping_def get_next_running_def screen_move_cursor_def Let_def
      split: bind_splits if_splits dest!: sleep_loop_more next_loop_more enq_more(1))

section \<open>A mailbox is a queue of bytes\<close>

definition mbox_ok :: "mailbox_t \<Rightarrow> bool" where
  "mbox_ok b \<longleftrightarrow> length (mb_buffer b) = MAX_MBOX_LENGTH \<and> unat (buffer_idx b) \<le> MAX_MBOX_LENGTH"

definition mbox_data :: "mailbox_t \<Rightarrow> bytes" where
  "mbox_data b = take (unat (buffer_idx b)) (mb_buffer b)"

lemma memcpy_Some:
  "memcpy ds ss n = Some r \<Longrightarrow> n \<le> length ds \<and> n \<le> length ss \<and> r = take n ss @ drop n ds"
  by (induction ds ss n arbitrary: r rule: memcpy.induct) auto

lemma sint_small: "unat (w :: i32) \<le> 64 \<Longrightarrow> sint w = int (unat w)"
  by (rule sint_pos) simp

lemma sint_diff_small:
  fixes v w :: i32
  assumes "unat v \<le> 64" "unat w \<le> 64"
  shows "sint (v - w) = int (unat v) - int (unat w)"
  using assms sint_small [OF assms(1)] sint_small [OF assms(2)] sint_diff_fit [of v w] by linarith

lemma send_done:
  assumes send: "do_mbox_send ops i uva msg len s = Some (Done (), s')" and ok: "mbox_ok (mailbox s i)"
  shows "unat len \<le> length msg" "mbox_ok (mailbox s' i)"
    "mbox_data (mailbox s' i) = mbox_data (mailbox s i) @ take (unat len) msg"
proof -
  let ?b = "mailbox s i"
  have idx: "unat (buffer_idx ?b) \<le> 64" "length (mb_buffer ?b) = 64"
    using ok by (simp_all add: mbox_ok_def MAX_MBOX_LENGTH_def)
  note start = sint_small [OF idx(1)]
  obtain s1 tl where s1: "check_uva_mem ops uva (scast len) (current_running s) s = Some s1"
    and cp: "memcpy (drop (unat (buffer_idx ?b)) (mb_buffer (mailbox s1 i))) msg (unat len) = Some tl"
    and un: "unblock_all (MboxEmptyQ i) (upd_mbox i (\<lambda>b. b\<lparr>mb_buffer :=
        take (unat (buffer_idx ?b)) (mb_buffer (mailbox s1 i)) @ tl, buffer_idx := buffer_idx b + len\<rparr>) s1) = Some s'"
    using send start by (auto simp: do_mbox_send_def Let_def split: if_splits bind_splits)
  have m: "mailbox s1 = mailbox s" by (rule check_uva_mailbox [OF s1])
  have cp: "unat len \<le> 64 - unat (buffer_idx ?b)" "unat len \<le> length msg"
    "tl = take (unat len) msg @ drop (unat len + unat (buffer_idx ?b)) (mb_buffer ?b)"
    using memcpy_Some [OF cp] idx by (simp_all add: m)
  have s': "mailbox s' i = ?b\<lparr>mb_buffer := take (unat (buffer_idx ?b)) (mb_buffer ?b) @ tl, buffer_idx := buffer_idx ?b + len\<rparr>"
    using more_fields(5) [OF unblock_all_more [OF un]] by (simp add: m)
  have "unat (buffer_idx ?b + len) = unat (buffer_idx ?b) + unat len"
    using cp(1) idx(1) by (simp add: unat_word_ariths)
  then show "unat len \<le> length msg" "mbox_ok (mailbox s' i)"
    "mbox_data (mailbox s' i) = mbox_data ?b @ take (unat len) msg"
    using cp idx by (simp_all add: s' mbox_ok_def mbox_data_def MAX_MBOX_LENGTH_def)
qed

lemma recv_done:
  assumes recv: "do_mbox_recv ops i uva len s = Some (Done msg, s')" and ok: "mbox_ok (mailbox s i)"
  shows "length msg = unat len" "mbox_ok (mailbox s' i)" "mbox_data (mailbox s i) = msg @ mbox_data (mailbox s' i)"
proof -
  let ?b = "mailbox s i"
  have idx: "unat (buffer_idx ?b) \<le> 64" "length (mb_buffer ?b) = 64"
    using ok by (simp_all add: mbox_ok_def MAX_MBOX_LENGTH_def)
  obtain s1 buf where s1: "check_uva_mem ops uva (scast len) (current_running s) s = Some s1"
    and ge: "0 \<le> sint (buffer_idx ?b - len)" and len: "unat len \<le> length (mb_buffer (mailbox s1 i))"
    and msg: "msg = take (unat len) (mb_buffer (mailbox s1 i))"
    and cp: "memcpy_in (mb_buffer (mailbox s1 i)) 0 (unat len) (unat (buffer_idx (mailbox s1 i) - len)) = Some buf"
    and un: "unblock_all (MboxFullQ i) (upd_mbox i (\<lambda>b. b\<lparr>mb_buffer := buf,
        buffer_idx := buffer_idx (mailbox s1 i) - len\<rparr>) s1) = Some s'"
    using recv by (auto simp: do_mbox_recv_def Let_def c_assert_def split: if_splits bind_splits)
  have m: "mailbox s1 = mailbox s" by (rule check_uva_mailbox [OF s1])
  have len: "unat len \<le> 64" using len idx by (simp add: m)
  have le: "unat len \<le> unat (buffer_idx ?b)"
  proof (rule ccontr)
    assume "\<not> unat len \<le> unat (buffer_idx ?b)"
    then show False using ge sint_diff_small [OF idx(1) len] by linarith
  qed
  then have rem: "unat (buffer_idx ?b - len) = unat (buffer_idx ?b) - unat len"
    by (simp add: unat_sub word_le_nat_alt)
  have buf: "buf = bput 0 (bget (unat len) (unat (buffer_idx ?b - len)) (mb_buffer ?b)) (mb_buffer ?b)"
    using cp le idx memcpy_in_down [of 0 "unat len" "unat (buffer_idx ?b - len)" "mb_buffer ?b"] by (simp add: m rem)
  have s': "mailbox s' i = ?b\<lparr>mb_buffer := buf, buffer_idx := buffer_idx ?b - len\<rparr>"
    using more_fields(5) [OF unblock_all_more [OF un]] by (simp add: m)
  have "take (unat (buffer_idx ?b)) (mb_buffer ?b) =
      take (unat len) (mb_buffer ?b) @ take (unat (buffer_idx ?b) - unat len) (drop (unat len) (mb_buffer ?b))"
    using le by (metis le_add_diff_inverse take_add)
  then show "length msg = unat len" "mbox_ok (mailbox s' i)" "mbox_data ?b = msg @ mbox_data (mailbox s' i)"
    using le idx len by (simp_all add: s' msg m mbox_ok_def mbox_data_def MAX_MBOX_LENGTH_def buf rem bput_def bget_def)
qed

text \<open>A pass that blocks leaves the mailboxes alone.\<close>

lemma send_again: "do_mbox_send ops i uva msg len s = Some (Again, s') \<Longrightarrow> mailbox s' = mailbox s"
  by (auto simp: do_mbox_send_def Let_def split: if_splits bind_splits
      dest!: enq_more(3) do_scheduler_more intro!: more_fields(5))

lemma recv_again: "do_mbox_recv ops i uva len s = Some (Again, s') \<Longrightarrow> mailbox s' = mailbox s"
  by (auto simp: do_mbox_recv_def Let_def split: if_splits bind_splits
      dest!: enq_more(3) do_scheduler_more intro!: more_fields(5))

text \<open>
  The history of mailbox \<open>i\<close>: passes of sends and receives by any processes, finished or blocked,
  and any other steps that leave this mailbox alone, with the bytes sent and received so far.
\<close>

inductive mbox_history ::
  "'d swap_ops \<Rightarrow> nat \<Rightarrow> ('d, 'a) lkst_scheme \<Rightarrow> bytes \<Rightarrow> bytes \<Rightarrow> ('d, 'a) lkst_scheme \<Rightarrow> bool" for ops i s where
  start: "mbox_history ops i s [] [] s"
| sent: "mbox_history ops i s out inp t \<Longrightarrow> do_mbox_send ops i uva msg len t = Some (Done (), t') \<Longrightarrow>
    mbox_history ops i s (out @ take (unat len) msg) inp t'"
| received: "mbox_history ops i s out inp t \<Longrightarrow> do_mbox_recv ops i uva len t = Some (Done msg, t') \<Longrightarrow>
    mbox_history ops i s out (inp @ msg) t'"
| send_blocked: "mbox_history ops i s out inp t \<Longrightarrow> do_mbox_send ops i uva msg len t = Some (Again, t') \<Longrightarrow>
    mbox_history ops i s out inp t'"
| recv_blocked: "mbox_history ops i s out inp t \<Longrightarrow> do_mbox_recv ops i uva len t = Some (Again, t') \<Longrightarrow>
    mbox_history ops i s out inp t'"
| other: "mbox_history ops i s out inp t \<Longrightarrow> mailbox t' i = mailbox t i \<Longrightarrow> mbox_history ops i s out inp t'"

text \<open>
  C18: mailboxes deliver in order. Starting from an empty mailbox, after any history of blocking
  and finished sends and receives the bytes sent are the bytes received followed by the at most
  64 bytes in the buffer: nothing is lost, duplicated, reordered or overwritten.
\<close>

theorem mailbox_fifo:
  assumes "mbox_history ops i s out inp t" "mbox_ok (mailbox s i)" "mbox_data (mailbox s i) = []"
  shows "mbox_ok (mailbox t i) \<and> out = inp @ mbox_data (mailbox t i) \<and> length (mbox_data (mailbox t i)) \<le> MAX_MBOX_LENGTH"
proof -
  have "mbox_ok (mailbox t i) \<and> out = inp @ mbox_data (mailbox t i)"
    using assms
  proof (induction rule: mbox_history.induct)
    case (sent out inp t uva msg len t')
    then show ?case using send_done [OF sent(2)] by simp
  next
    case (received out inp t uva len msg t')
    then show ?case using recv_done [OF received(2)] by simp
  qed (auto dest: send_again recv_again)
  then show ?thesis by (simp add: mbox_ok_def mbox_data_def)
qed

text \<open>A send that fits.\<close>

lemma send_sum:
  assumes "mbox_ok b" "unat len \<le> MAX_MBOX_LENGTH"
  shows "sint (buffer_idx b + len) = int (length (mbox_data b) + unat len)"
proof -
  have idx: "unat (buffer_idx b) \<le> 64" "length (mb_buffer b) = 64" "unat len \<le> 64"
    using assms by (simp_all add: mbox_ok_def MAX_MBOX_LENGTH_def)
  have "unat (buffer_idx b + len) = unat (buffer_idx b) + unat len" using idx by (simp add: unat_word_ariths)
  then show ?thesis using idx sint_pos [of "buffer_idx b + len"] by (simp add: mbox_data_def del: of_nat_unat)
qed

lemma send_fits:
  assumes "at_rest H Q s" "current_running s = Pcb p" "i < MBOX_NUM" "MboxEmptyQ i \<in> H"
    and "mbox_ok (mailbox s i)" "length (mbox_data (mailbox s i)) + unat len \<le> MAX_MBOX_LENGTH" "length msg = unat len"
    and "check_uva_mem ops uva (scast len) (Pcb p) s = Some s1"
  obtains s' where "do_mbox_send ops i uva msg len s = Some (Done (), s')"
    "at_rest H (Q(MboxEmptyQ i := [], ReadyQ := Q ReadyQ @ Q (MboxEmptyQ i))) s'"
proof -
  let ?b = "mailbox s i"
  have idx: "unat (buffer_idx ?b) \<le> 64" "length (mb_buffer ?b) = 64" "unat (buffer_idx ?b) + unat len \<le> 64"
    using assms(5,6) by (simp_all add: mbox_ok_def mbox_data_def MAX_MBOX_LENGTH_def)
  note start = sint_small [OF idx(1)]
  have m: "mailbox s1 = mailbox s" and r: "at_rest H Q s1"
    using check_uva_mailbox [OF assms(8)] assms(1) by blast+
  let ?tl = "msg @ drop (unat len + unat (buffer_idx ?b)) (mb_buffer ?b)"
  let ?s2 = "upd_mbox i (\<lambda>b. b\<lparr>mb_buffer := take (unat (buffer_idx ?b)) (mb_buffer ?b) @ ?tl,
    buffer_idx := buffer_idx b + len\<rparr>) s1"
  have cp: "memcpy (drop (unat (buffer_idx ?b)) (mb_buffer ?b)) msg (unat len) = Some ?tl"
    using idx assms(7) by (subst memcpy_eq) simp_all
  have "at_rest H Q ?s2" by (rule at_rest_cong [OF r]) simp_all
  then obtain s' where s': "unblock_all (MboxEmptyQ i) ?s2 = Some s'"
    "at_rest H (Q(MboxEmptyQ i := [], ReadyQ := Q ReadyQ @ Q (MboxEmptyQ i))) s'"
    using wake_queues [OF _ assms(4)] by blast
  have "unat len \<le> MAX_MBOX_LENGTH" using idx by (simp add: MAX_MBOX_LENGTH_def)
  then have "sint (buffer_idx ?b + len) \<le> 64"
    using send_sum [OF assms(5)] assms(6) by (simp add: MAX_MBOX_LENGTH_def del: of_nat_unat)
  then have "do_mbox_send ops i uva msg len s = Some (Done (), s')"
    using start cp s'(1) m assms(2,3,8) by (simp add: do_mbox_send_def MAX_MBOX_LENGTH_def Let_def c_assert_def)
  then show thesis using that s'(2) by blast
qed

text \<open>
  C19: a finished send wakes the receivers. With the message's pages at hand, a send that fits
  returns with the message appended and every waiting receiver ready, in order; one that does not
  fit puts the sender at the end of the queue of the full mailbox.
\<close>

theorem mbox_send_progress:
  assumes "at_rest H Q s" "current_running s = Pcb p" "i < MBOX_NUM" "MboxEmptyQ i \<in> H" "MboxFullQ i \<in> H"
    and "mbox_ok (mailbox s i)" "unat len \<le> MAX_MBOX_LENGTH" "length msg = unat len"
    and "check_uva_mem ops uva (scast len) (Pcb p) s = Some s1"
  shows "if length (mbox_data (mailbox s i)) + unat len \<le> MAX_MBOX_LENGTH
    then \<exists>s'. do_mbox_send ops i uva msg len s = Some (Done (), s') \<and>
      mbox_data (mailbox s' i) = mbox_data (mailbox s i) @ msg \<and>
      at_rest H (Q(MboxEmptyQ i := [], ReadyQ := Q ReadyQ @ Q (MboxEmptyQ i))) s'
    else \<exists>s' Q'. do_mbox_send ops i uva msg len s = Some (Again, s') \<and> at_rest H Q' s' \<and>
      Q' (MboxFullQ i) = Q (MboxFullQ i) @ [PcbNode (Pcb p)] \<and> mailbox s' = mailbox s"
proof (cases "length (mbox_data (mailbox s i)) + unat len \<le> MAX_MBOX_LENGTH")
  case True
  obtain s' where "do_mbox_send ops i uva msg len s = Some (Done (), s')"
    "at_rest H (Q(MboxEmptyQ i := [], ReadyQ := Q ReadyQ @ Q (MboxEmptyQ i))) s'"
    using send_fits [OF assms(1-4,6) True assms(8,9)] .
  then show ?thesis using True send_done(3) [OF _ assms(6)] assms(8) by auto
next
  case False
  obtain s2 s' Q' where s': "do_block (PcbNode (Pcb p)) (MboxFullQ i) s = Some s2" "do_scheduler s2 = Some s'"
    "at_rest H Q' s'" "other_queues (Q(MboxFullQ i := Q (MboxFullQ i) @ [PcbNode (Pcb p)])) Q'" "lk_frame s s'"
    using wait_queues [OF assms(1,2,5)] by blast
  moreover have "\<not> sint (buffer_idx (mailbox s i) + len) \<le> int MAX_MBOX_LENGTH"
    using False send_sum [OF assms(6,7)] by (simp del: of_nat_unat)
  ultimately have "do_mbox_send ops i uva msg len s = Some (Again, s')"
    using assms(2,3) by (simp add: do_mbox_send_def)
  then show ?thesis
    using False s'(3,4) frame_fields(5) [OF s'(5)] by (auto simp: other_queues_def)
qed

text \<open>
  A negative length is not rejected. The length test passes, and the copy, whose length is
  converted to unsigned, runs over the end of the 64 byte buffer.
\<close>

theorem mbox_send_negative_overruns:
  assumes "mbox_ok (mailbox s i)" "sint len < 0"
  shows "do_mbox_send ops i uva msg len s = None \<and> sint (buffer_idx (mailbox s i) + len) \<le> int MAX_MBOX_LENGTH"
proof -
  have idx: "unat (buffer_idx (mailbox s i)) \<le> 64" using assms(1) by (simp add: mbox_ok_def MAX_MBOX_LENGTH_def)
  have "- 2147483648 \<le> sint len" using sint_ge [of len] by simp
  then have "sint (buffer_idx (mailbox s i) + len) = sint (buffer_idx (mailbox s i)) + sint len"
    using assms(2) sint_small [OF idx] idx by (intro sint_add_fit) linarith+
  then have le: "sint (buffer_idx (mailbox s i) + len) \<le> int MAX_MBOX_LENGTH"
    using assms(2) sint_small [OF idx] idx unfolding MAX_MBOX_LENGTH_def by linarith
  have "2147483648 \<le> unat len" using sint_neg [OF assms(2)] .
  then have "\<not> unat len \<le> 64" by simp
  moreover have "unat len \<le> 64" if "do_mbox_send ops i uva msg len s = Some (r, s')" for r s'
  proof (cases r)
    case (Done u)
    then have sent: "do_mbox_send ops i uva msg len s = Some (Done (), s')" using that by simp
    have "length (mbox_data (mailbox s' i)) \<le> 64"
      using send_done(2) [OF sent assms(1)] by (simp add: mbox_ok_def mbox_data_def MAX_MBOX_LENGTH_def)
    then show ?thesis using send_done(1,3) [OF sent assms(1)] by simp
  next
    case Again
    then show ?thesis using that le by (auto simp: do_mbox_send_def Let_def split: if_splits bind_splits)
  qed
  ultimately show ?thesis using le by (cases "do_mbox_send ops i uva msg len s") auto
qed

section \<open>A concrete mailbox\<close>

lemma demo_uva: "check_uva_mem demo_dsk 0x10000 3 p demo_lk = Some demo_lk"
proof -
  have "search_list_node USdHead a p demo_lk = Some None" for a
    by (simp add: search_list_node_def demo_lk_def demo_mm_def demo_plinks_def Let_def list_search.simps)
  then show ?thesis by (simp add: check_uva_mem_def check_uva_loop.simps PAGE_SIZE_def)
qed

lemma demo_mbox: "mbox_ok (mailbox demo_lk 0)" "mbox_data (mailbox demo_lk 0) = []"
  by (simp_all add: demo_lk_def mbox_ok_def mbox_data_def MAX_MBOX_LENGTH_def)

lemma demo_mboxq: "MboxEmptyQ i \<in> demo_heads" "MboxFullQ i \<in> demo_heads"
  by (auto simp: demo_heads_def)

lemma scast_3: "scast (3 :: i32) = (3 :: u64)"
  by (simp add: scast_eq)

theorem mailbox_fifo_witness:
  "\<exists>t. mbox_history demo_dsk 0 demo_lk [1, 2, 3] [] t \<and> mbox_data (mailbox t 0) = [1, 2, 3]"
proof -
  obtain t where "do_mbox_send demo_dsk 0 0x10000 [1, 2, 3] 3 demo_lk = Some (Done (), t)"
    using send_fits [OF demo_lk_rest(1,2) _ demo_mboxq(1) demo_mbox(1), where len = 3 and msg = "[1, 2, 3]" and uva = "0x10000"
        and ops = demo_dsk and ?s1.0 = demo_lk]
      demo_uva demo_mbox(2) by (auto simp: MBOX_NUM_def MAX_MBOX_LENGTH_def scast_3)
  from sent [OF start this] have h: "mbox_history demo_dsk 0 demo_lk [1, 2, 3] [] t" by simp
  with mailbox_fifo [OF this demo_mbox] show ?thesis by auto
qed

theorem mbox_send_progress_witness:
  "\<exists>s'. do_mbox_send demo_dsk 0 0x10000 [1, 2, 3] 3 demo_lk = Some (Done (), s') \<and>
    mbox_data (mailbox s' 0) = [1, 2, 3]"
  using mbox_send_progress [OF demo_lk_rest(1,2) _ demo_mboxq demo_mbox(1), where len = 3 and msg = "[1, 2, 3]" and uva = "0x10000"
      and ops = demo_dsk and ?s1.0 = demo_lk]
    demo_uva demo_mbox(2) by (auto simp: MBOX_NUM_def MAX_MBOX_LENGTH_def scast_3)

theorem mbox_send_negative_overruns_witness:
  "do_mbox_send demo_dsk 0 0x10000 [1, 2, 3] (- 1) demo_lk = None"
  using mbox_send_negative_overruns [OF demo_mbox(1), where len = "- 1" and msg = "[1, 2, 3]"] by simp

end
