(* ===== verification/FsBase.thy ===== *)
theory FsBase
  imports Bcache CString Bitmap
begin

text \<open>
  The file system of src/kernel/fs/fs.c, lower half: the on-disk layout of src/include/os/fs.h, the
  static buffers the routines work in, the inode and block bitmaps and the mapping from file
  blocks to disk sectors (direct, single, double and triple indirect).

  The buffers are byte arrays. A load through \<^verbatim>\<open>bread\<close> changes only their first 512 bytes (see
  \<open>Bcache\<close>), so what lies beyond is whatever an earlier routine left there; the model keeps it.
  Diagnostics printed with \<^verbatim>\<open>printk\<close> and \<^verbatim>\<open>printl\<close> are left out, the output of \<^verbatim>\<open>ls\<close>, \<^verbatim>\<open>cat\<close>, \<^verbatim>\<open>pwd\<close> and
  \<^verbatim>\<open>statfs\<close> is kept.
\<close>

section \<open>Layout\<close>

definition SUPERBLOCK_MAGIC :: u32 where "SUPERBLOCK_MAGIC = 0xDF4C4459"
definition NUM_FDESCS :: nat where "NUM_FDESCS = 16"
definition FS_NUM_SECTORS :: u32 where "FS_NUM_SECTORS = push_bit 20 1"
definition FS_START_SECTOR :: u32 where "FS_START_SECTOR = 0x100"
definition BLOCK_MAP_SIZE :: u32 where "BLOCK_MAP_SIZE = 32"
definition INODE_MAP_SIZE :: u32 where "INODE_MAP_SIZE = 1"
definition INODE_SIZE :: u32 where "INODE_SIZE = 512"
definition BLOCK_MAP_OFFSET :: u32 where "BLOCK_MAP_OFFSET = 1"
definition INODE_MAP_OFFSET :: u32 where "INODE_MAP_OFFSET = BLOCK_MAP_OFFSET + BLOCK_MAP_SIZE"
definition INODE_OFFSET :: u32 where "INODE_OFFSET = INODE_MAP_OFFSET + INODE_MAP_SIZE"
definition DATA_OFFSET :: u32 where "DATA_OFFSET = INODE_OFFSET + INODE_SIZE"
definition DATA_SIZE :: u32 where "DATA_SIZE = FS_NUM_SECTORS - DATA_OFFSET"
definition SECTOR2BLOCK :: "u32 \<Rightarrow> u32" where "SECTOR2BLOCK s = s div 8"
definition BLOCK2SECTOR :: "u32 \<Rightarrow> u32" where "BLOCK2SECTOR b = b * 8"
definition IT_DIR :: u8 where "IT_DIR = 1"
definition IT_FILE :: u8 where "IT_FILE = 2"
definition MAX_PATHNAME_LEN :: nat where "MAX_PATHNAME_LEN = 27"
definition DIRECT_BLOCK_NUM :: nat where "DIRECT_BLOCK_NUM = 7"
definition NBLOCK_LV1 :: nat where "NBLOCK_LV1 = 1024"
definition NBLOCK_LV2 :: nat where "NBLOCK_LV2 = NBLOCK_LV1 * NBLOCK_LV1"
definition NBLOCK_LV3 :: nat where "NBLOCK_LV3 = NBLOCK_LV2 * NBLOCK_LV1"
definition O_RDONLY :: i32 where "O_RDONLY = 1"
definition O_WRONLY :: i32 where "O_WRONLY = 2"
definition O_RDWR :: i32 where "O_RDWR = 3"
definition SEEK_SET :: i32 where "SEEK_SET = 0"
definition SEEK_CUR :: i32 where "SEEK_CUR = 1"
definition SEEK_END :: i32 where "SEEK_END = 2"

text \<open>\<^verbatim>\<open>BLOCK_SIZE / SECTOR_SIZE\<close> and \<^verbatim>\<open>BLOCK_SIZE / sizeof(dentry_t)\<close>.\<close>

definition BLOCK_SECTORS :: nat where "BLOCK_SECTORS = BLOCK_SIZE div SECTOR_SIZE"
definition DENTRIES :: nat where "DENTRIES = BLOCK_SIZE div 32"

record inode_t =
  i_mode :: u8
  i_type :: u8
  i_nlink :: u16
  i_ino :: u32
  i_size :: u32
  i_atime :: u32
  i_mtime :: u32
  i_ctime :: u32
  i_blocks :: "u32 list"

record fdesc_t =
  fd_mode :: u8
  fd_valid :: u8
  fd_ino :: u32
  read_pos :: u32
  write_pos :: u32

text \<open>An \<^verbatim>\<open>inode_t\<close> in memory and on disk: 64 bytes without padding, little endian.\<close>

definition inode_bytes :: "inode_t \<Rightarrow> bytes" where
  "inode_bytes i = [i_mode i, i_type i] @ u16_bytes (i_nlink i) @ u32_bytes (i_ino i) @ u32_bytes (i_size i) @
     u32_bytes (i_atime i) @ u32_bytes (i_mtime i) @ u32_bytes (i_ctime i) @ concat (map u32_bytes (i_blocks i))"

definition inode_at :: "nat \<Rightarrow> bytes \<Rightarrow> inode_t" where
  "inode_at k b = (let o' = 64 * k in \<lparr>i_mode = b ! o', i_type = b ! (o' + 1), i_nlink = get_u16 (o' + 2) b,
     i_ino = get_u32 (o' + 4) b, i_size = get_u32 (o' + 8) b, i_atime = get_u32 (o' + 12) b,
     i_mtime = get_u32 (o' + 16) b, i_ctime = get_u32 (o' + 20) b,
     i_blocks = map (\<lambda>j. get_u32 (o' + 24 + 4 * j) b) [0..<10]\<rparr>)"

text \<open>\<^verbatim>\<open>buffer[k] = i\<close>\<close>

definition set_inode :: "nat \<Rightarrow> inode_t \<Rightarrow> bytes \<Rightarrow> bytes" where
  "set_inode k i b = bput (64 * k) (inode_bytes i) b"

text \<open>A \<^verbatim>\<open>dentry_t\<close> is 32 bytes: 27 bytes of name, the type, the inode number.\<close>

definition dentry_name :: "nat \<Rightarrow> bytes \<Rightarrow> bytes" where "dentry_name j b = drop (32 * j) b"
definition dentry_type :: "nat \<Rightarrow> bytes \<Rightarrow> u8" where "dentry_type j b = b ! (32 * j + 27)"
definition dentry_ino :: "nat \<Rightarrow> bytes \<Rightarrow> u32" where "dentry_ino j b = get_u32 (32 * j + 28) b"

text \<open>\<^verbatim>\<open>strcpy(b[j].name, name); b[j].ino = ino; b[j].type = type;\<close>\<close>

definition set_dentry :: "nat \<Rightarrow> bytes \<Rightarrow> u32 \<Rightarrow> u8 \<Rightarrow> bytes \<Rightarrow> bytes option" where
  "set_dentry j name ino ty b = do {
     nm \<leftarrow> strcpy (dentry_name j b) name;
     let b1 = take (32 * j) b @ nm;
     let b2 = put_u32 (32 * j + 28) ino b1;
     Some (b2[32 * j + 27 := ty]) }"

text \<open>\<^verbatim>\<open>b[j].name[0] = 0; b[j].ino = 0; b[j].type = 0;\<close>\<close>

definition clear_dentry :: "nat \<Rightarrow> bytes \<Rightarrow> bytes" where
  "clear_dentry j b = (put_u32 (32 * j + 28) 0 (b[32 * j := 0]))[32 * j + 27 := 0]"

section \<open>State\<close>

datatype fs_out = OutText bytes | OutStat inode_t bytes | OutStatfs bytes nat nat

record 'd fsst =
  bc :: "'d bcache"
  fdesc_array :: "nat \<Rightarrow> fdesc_t"
  superblock_buffer :: bytes
  inode_map :: bytes
  block_map :: bytes
  inode_buffer :: bytes
  dentry_buffer :: bytes
  rdata_buffer :: bytes
  wdata_buffer :: bytes
  wd_inode :: inode_t
  root_ino :: u32
  write_back_freq :: i32
  fs_clk :: "nat \<Rightarrow> u64"
  fs_clk_reads :: nat
  fs_con :: "fs_out list"

text \<open>\<^verbatim>\<open>get_timer()\<close> stored in a 32 bit field; each call reads the clock anew.\<close>

definition fs_timer :: "'d fsst \<Rightarrow> u32 \<times> 'd fsst" where
  "fs_timer s = (ucast (fs_clk s (fs_clk_reads s)), s\<lparr>fs_clk_reads := Suc (fs_clk_reads s)\<rparr>)"

section \<open>Buffers and sectors\<close>

text \<open>\<^verbatim>\<open>bread(buffer, n, sector)\<close> and \<^verbatim>\<open>bwrite(buffer, n, sector)\<close> for each static buffer.\<close>

definition rd_inode :: "'d sd_ops \<Rightarrow> u32 \<Rightarrow> 'd fsst \<Rightarrow> 'd fsst option" where
  "rd_inode ops a s = do { (b, c) \<leftarrow> bread ops (inode_buffer s) 1 a (bc s); Some (s\<lparr>inode_buffer := b, bc := c\<rparr>) }"

definition wr_inode :: "'d sd_ops \<Rightarrow> nat \<Rightarrow> u32 \<Rightarrow> 'd fsst \<Rightarrow> 'd fsst option" where
  "wr_inode ops n a s = do { c \<leftarrow> bwrite ops (inode_buffer s) n a (bc s); Some (s\<lparr>bc := c\<rparr>) }"

definition rd_dentry :: "'d sd_ops \<Rightarrow> u32 \<Rightarrow> 'd fsst \<Rightarrow> 'd fsst option" where
  "rd_dentry ops a s = do {
     (b, c) \<leftarrow> bread ops (dentry_buffer s) BLOCK_SECTORS a (bc s); Some (s\<lparr>dentry_buffer := b, bc := c\<rparr>) }"

definition wr_dentry :: "'d sd_ops \<Rightarrow> u32 \<Rightarrow> 'd fsst \<Rightarrow> 'd fsst option" where
  "wr_dentry ops a s = do { c \<leftarrow> bwrite ops (dentry_buffer s) BLOCK_SECTORS a (bc s); Some (s\<lparr>bc := c\<rparr>) }"

definition rd_rdata :: "'d sd_ops \<Rightarrow> nat \<Rightarrow> u32 \<Rightarrow> 'd fsst \<Rightarrow> 'd fsst option" where
  "rd_rdata ops n a s = do { (b, c) \<leftarrow> bread ops (rdata_buffer s) n a (bc s); Some (s\<lparr>rdata_buffer := b, bc := c\<rparr>) }"

definition wr_rdata :: "'d sd_ops \<Rightarrow> u32 \<Rightarrow> 'd fsst \<Rightarrow> 'd fsst option" where
  "wr_rdata ops a s = do { c \<leftarrow> bwrite ops (rdata_buffer s) BLOCK_SECTORS a (bc s); Some (s\<lparr>bc := c\<rparr>) }"

definition rd_wdata :: "'d sd_ops \<Rightarrow> u32 \<Rightarrow> 'd fsst \<Rightarrow> 'd fsst option" where
  "rd_wdata ops a s = do {
     (b, c) \<leftarrow> bread ops (wdata_buffer s) BLOCK_SECTORS a (bc s); Some (s\<lparr>wdata_buffer := b, bc := c\<rparr>) }"

definition wr_wdata :: "'d sd_ops \<Rightarrow> u32 \<Rightarrow> 'd fsst \<Rightarrow> 'd fsst option" where
  "wr_wdata ops a s = do { c \<leftarrow> bwrite ops (wdata_buffer s) BLOCK_SECTORS a (bc s); Some (s\<lparr>bc := c\<rparr>) }"

definition rd_imap :: "'d sd_ops \<Rightarrow> 'd fsst \<Rightarrow> 'd fsst option" where
  "rd_imap ops s = do {
     (b, c) \<leftarrow> bread ops (inode_map s) (unat INODE_MAP_SIZE) (INODE_MAP_OFFSET + FS_START_SECTOR) (bc s);
     Some (s\<lparr>inode_map := b, bc := c\<rparr>) }"

definition wr_imap :: "'d sd_ops \<Rightarrow> 'd fsst \<Rightarrow> 'd fsst option" where
  "wr_imap ops s = do {
     c \<leftarrow> bwrite ops (inode_map s) (unat INODE_MAP_SIZE) (INODE_MAP_OFFSET + FS_START_SECTOR) (bc s); Some (s\<lparr>bc := c\<rparr>) }"

definition rd_bmap :: "'d sd_ops \<Rightarrow> 'd fsst \<Rightarrow> 'd fsst option" where
  "rd_bmap ops s = do {
     (b, c) \<leftarrow> bread ops (block_map s) (unat BLOCK_MAP_SIZE) (BLOCK_MAP_OFFSET + FS_START_SECTOR) (bc s);
     Some (s\<lparr>block_map := b, bc := c\<rparr>) }"

definition wr_bmap :: "'d sd_ops \<Rightarrow> 'd fsst \<Rightarrow> 'd fsst option" where
  "wr_bmap ops s = do {
     c \<leftarrow> bwrite ops (block_map s) (unat BLOCK_MAP_SIZE) (BLOCK_MAP_OFFSET + FS_START_SECTOR) (bc s); Some (s\<lparr>bc := c\<rparr>) }"

section \<open>Inode numbers and bitmaps\<close>

definition inodeidx2sector :: "u32 \<Rightarrow> u32" where
  "inodeidx2sector i = ucast (ucast FS_START_SECTOR + ucast INODE_OFFSET + ROUNDDOWN (ucast i * 64) 512 div 512 :: u64)"

definition inodeidx2offset :: "u32 \<Rightarrow> nat" where
  "inodeidx2offset i = unat i mod (SECTOR_SIZE div 64)"

definition find_free_inode :: "'d sd_ops \<Rightarrow> 'd fsst \<Rightarrow> (u32 \<times> 'd fsst) option" where
  "find_free_inode ops s = do {
     s1 \<leftarrow> rd_imap ops s;
     case bytes_loop (\<lambda>_. False) (inode_map s1) 0 of
       None \<Rightarrow> Some (- 1, s1)
     | Some i \<Rightarrow> do {
         bm \<leftarrow> mark_page_allocated i (inode_map s1);
         s2 \<leftarrow> wr_imap ops (s1\<lparr>inode_map := bm\<rparr>);
         Some (word_of_nat i, s2) } }"

definition find_free_block :: "'d sd_ops \<Rightarrow> 'd fsst \<Rightarrow> (u32 \<times> 'd fsst) option" where
  "find_free_block ops s = do {
     s1 \<leftarrow> rd_bmap ops s;
     let data_block_num = SECTOR2BLOCK DATA_SIZE;
     case bytes_loop (\<lambda>i. i \<ge> unat data_block_num) (block_map s1) 0 of
       None \<Rightarrow> Some (- 1, s1)
     | Some i \<Rightarrow> do {
         bm \<leftarrow> mark_page_allocated i (block_map s1);
         s2 \<leftarrow> wr_bmap ops (s1\<lparr>block_map := bm\<rparr>);
         let block_sector = BLOCK2SECTOR (word_of_nat i) + DATA_OFFSET + FS_START_SECTOR;
         z \<leftarrow> bzero (rdata_buffer s2) BLOCK_SIZE;
         s3 \<leftarrow> wr_rdata ops block_sector (s2\<lparr>rdata_buffer := z\<rparr>);
         Some (block_sector, s3) } }"

definition free_block :: "'d sd_ops \<Rightarrow> u32 \<Rightarrow> 'd fsst \<Rightarrow> 'd fsst option" where
  "free_block ops block_sector s = do {
     c_assert (block_sector \<ge> DATA_OFFSET + FS_START_SECTOR);
     s1 \<leftarrow> rd_bmap ops s;
     let block_idx = SECTOR2BLOCK (block_sector - DATA_OFFSET - FS_START_SECTOR);
     bm \<leftarrow> unmark_page_free (unat block_idx) (block_map s1);
     wr_bmap ops (s1\<lparr>block_map := bm\<rparr>) }"

section \<open>File blocks\<close>

text \<open>\<^verbatim>\<open>((uint32_t *) rdata_buffer)[k]\<close>\<close>

definition rdata32 :: "nat \<Rightarrow> 'd fsst \<Rightarrow> u32" where
  "rdata32 k s = get_u32 (4 * k) (rdata_buffer s)"

definition set_rdata32 :: "nat \<Rightarrow> u32 \<Rightarrow> 'd fsst \<Rightarrow> 'd fsst" where
  "set_rdata32 k v s = s\<lparr>rdata_buffer := put_u32 (4 * k) v (rdata_buffer s)\<rparr>"

definition free_nonzero :: "'d sd_ops \<Rightarrow> u32 \<Rightarrow> 'd fsst \<Rightarrow> 'd fsst option" where
  "free_nonzero ops sec s = (if sec \<noteq> 0 then free_block ops sec s else Some s)"

definition free_if :: "'d sd_ops \<Rightarrow> bool \<Rightarrow> u32 \<Rightarrow> 'd fsst \<Rightarrow> 'd fsst option" where
  "free_if ops b sec s = (if b then free_block ops sec s else Some s)"

text \<open>
  The body of the loop of \<^verbatim>\<open>free_inode\<close> for file block \<open>i\<close> of the inode \<open>inode\<close>; the result is \<^verbatim>\<open>i\<close>
  after the body (empty indirect blocks are skipped as a whole), before the loop's decrement.
\<close>

definition free_step :: "'d sd_ops \<Rightarrow> inode_t \<Rightarrow> nat \<Rightarrow> 'd fsst \<Rightarrow> (nat \<times> 'd fsst) option" where
  "free_step ops inode i s =
    (if i < DIRECT_BLOCK_NUM then do {
       s1 \<leftarrow> free_nonzero ops (i_blocks inode ! i) s;
       Some (i, s1) }
     else if i < DIRECT_BLOCK_NUM + NBLOCK_LV1 then do {
       let index = i - DIRECT_BLOCK_NUM;
       let lv1 = i_blocks inode ! DIRECT_BLOCK_NUM;
       if lv1 = 0 then Some (i - index, s) else do {
         s1 \<leftarrow> rd_rdata ops BLOCK_SECTORS lv1 s;
         s2 \<leftarrow> free_nonzero ops (rdata32 index s1) s1;
         s3 \<leftarrow> free_if ops (index mod NBLOCK_LV1 = 0) lv1 s2;
         Some (i, s3) } }
     else if i < DIRECT_BLOCK_NUM + NBLOCK_LV1 + NBLOCK_LV2 then do {
       let index = i - DIRECT_BLOCK_NUM - NBLOCK_LV1;
       let lv2 = i_blocks inode ! (DIRECT_BLOCK_NUM + 1);
       if lv2 = 0 then Some (i - index, s) else do {
         s1 \<leftarrow> rd_rdata ops BLOCK_SECTORS lv2 s;
         let lv1 = rdata32 (index div NBLOCK_LV1) s1;
         (i', s4) \<leftarrow> (if lv1 = 0 then Some (i - index mod NBLOCK_LV1, s1) else do {
           s2 \<leftarrow> rd_rdata ops BLOCK_SECTORS lv1 s1;
           s3 \<leftarrow> free_nonzero ops (rdata32 (index mod NBLOCK_LV1) s2) s2;
           s4 \<leftarrow> free_if ops (index mod NBLOCK_LV1 = 0) lv1 s3;
           Some (i, s4) });
         s5 \<leftarrow> free_if ops ((i' - DIRECT_BLOCK_NUM - NBLOCK_LV1) mod NBLOCK_LV2 = 0) lv2 s4;
         Some (i', s5) } }
     else if i < DIRECT_BLOCK_NUM + NBLOCK_LV1 + NBLOCK_LV2 + NBLOCK_LV3 then do {
       let index = i - DIRECT_BLOCK_NUM - NBLOCK_LV1 - NBLOCK_LV2;
       let lv3 = i_blocks inode ! (DIRECT_BLOCK_NUM + 2);
       if lv3 = 0 then Some (i - index, s) else do {
         s1 \<leftarrow> rd_rdata ops BLOCK_SECTORS lv3 s;
         let idx3 = index div NBLOCK_LV2;
         let idx2 = (index - idx3 * NBLOCK_LV1 * NBLOCK_LV1) div NBLOCK_LV1;
         let lv2 = rdata32 idx3 s1;
         (i2, s6) \<leftarrow> (if lv2 = 0 then Some (i - index mod NBLOCK_LV2, s1) else do {
           s2 \<leftarrow> rd_rdata ops BLOCK_SECTORS lv2 s1;
           let lv1 = rdata32 idx2 s2;
           (i1, s5) \<leftarrow> (if lv1 = 0 then Some (i - index mod NBLOCK_LV1, s2) else do {
             s3 \<leftarrow> rd_rdata ops BLOCK_SECTORS lv1 s2;
             s4 \<leftarrow> free_nonzero ops (rdata32 (index mod NBLOCK_LV1) s3) s3;
             s5 \<leftarrow> free_if ops (index mod NBLOCK_LV1 = 0) lv1 s4;
             Some (i, s5) });
           s6 \<leftarrow> free_if ops ((i1 - DIRECT_BLOCK_NUM - NBLOCK_LV1 - NBLOCK_LV2) mod NBLOCK_LV2 = 0) lv2 s5;
           Some (i1, s6) });
         s7 \<leftarrow> free_if ops ((i2 - DIRECT_BLOCK_NUM - NBLOCK_LV1 - NBLOCK_LV2) mod NBLOCK_LV3 = 0) lv3 s6;
         Some (i2, s7) } }
     else Some (i, s))"

text \<open>The loop: \<open>free_blocks n\<close> handles the file blocks below \<open>n\<close>, from the last one down.\<close>

lemma free_step_le: "free_step ops inode i s = Some (i', s') \<Longrightarrow> i' \<le> i"
  by (auto simp: free_step_def Let_def split: if_splits bind_splits)

function free_blocks :: "'d sd_ops \<Rightarrow> inode_t \<Rightarrow> nat \<Rightarrow> 'd fsst \<Rightarrow> 'd fsst option" where
  "free_blocks ops inode 0 s = Some s"
| "free_blocks ops inode (Suc i) s = (case free_step ops inode i s of
       None \<Rightarrow> None | Some (i', s') \<Rightarrow> free_blocks ops inode i' s')"
  by pat_completeness auto

termination free_blocks
  by (relation "measure (\<lambda>(_, _, n, _). n)") (auto dest: free_step_le)

definition free_inode :: "'d sd_ops \<Rightarrow> u32 \<Rightarrow> 'd fsst \<Rightarrow> 'd fsst option" where
  "free_inode ops inode_idx s = do {
     let inode_sector = inodeidx2sector inode_idx;
     let inode_offset = inodeidx2offset inode_idx;
     s1 \<leftarrow> rd_inode ops inode_sector s;
     let inode = inode_at inode_offset (inode_buffer s1);
     let nblocks = ROUND (ucast (i_size inode)) (word_of_nat BLOCK_SIZE) div word_of_nat BLOCK_SIZE;
     s2 \<leftarrow> free_blocks ops inode (unat nblocks) s1;
     z \<leftarrow> bzero (drop (64 * inode_offset) (inode_buffer s2)) 64;
     s3 \<leftarrow> wr_inode ops 1 inode_sector (s2\<lparr>inode_buffer := take (64 * inode_offset) (inode_buffer s2) @ z\<rparr>);
     s4 \<leftarrow> rd_imap ops s3;
     bm \<leftarrow> unmark_page_free (unat inode_idx) (inode_map s4);
     wr_imap ops (s4\<lparr>inode_map := bm\<rparr>) }"

definition blockid2sector :: "'d sd_ops \<Rightarrow> nat \<Rightarrow> inode_t \<Rightarrow> 'd fsst \<Rightarrow> (u32 \<times> 'd fsst) option" where
  "blockid2sector ops block_id inode s =
    (if block_id < DIRECT_BLOCK_NUM then Some (i_blocks inode ! block_id, s)
     else if block_id < DIRECT_BLOCK_NUM + NBLOCK_LV1 then
       (if i_blocks inode ! DIRECT_BLOCK_NUM = 0 then Some (0, s) else do {
          s1 \<leftarrow> rd_rdata ops BLOCK_SECTORS (i_blocks inode ! DIRECT_BLOCK_NUM) s;
          Some (rdata32 (block_id - DIRECT_BLOCK_NUM) s1, s1) })
     else if block_id < DIRECT_BLOCK_NUM + NBLOCK_LV1 + NBLOCK_LV2 then do {
       let index = block_id - DIRECT_BLOCK_NUM - NBLOCK_LV1;
       if i_blocks inode ! (DIRECT_BLOCK_NUM + 1) = 0 then Some (0, s) else do {
         s1 \<leftarrow> rd_rdata ops BLOCK_SECTORS (i_blocks inode ! (DIRECT_BLOCK_NUM + 1)) s;
         let lv1 = rdata32 (index div NBLOCK_LV1) s1;
         if lv1 = 0 then Some (0, s1) else do {
           s2 \<leftarrow> rd_rdata ops BLOCK_SECTORS lv1 s1;
           Some (rdata32 (index mod NBLOCK_LV1) s2, s2) } } }
     else if block_id < DIRECT_BLOCK_NUM + NBLOCK_LV1 + NBLOCK_LV2 + NBLOCK_LV3 then do {
       let index = block_id - DIRECT_BLOCK_NUM - NBLOCK_LV1 - NBLOCK_LV2;
       if i_blocks inode ! (DIRECT_BLOCK_NUM + 2) = 0 then Some (0, s) else do {
         s1 \<leftarrow> rd_rdata ops BLOCK_SECTORS (i_blocks inode ! (DIRECT_BLOCK_NUM + 2)) s;
         let lv3_idx = index div NBLOCK_LV2;
         let lv2 = rdata32 lv3_idx s1;
         if lv2 = 0 then Some (0, s1) else do {
           s2 \<leftarrow> rd_rdata ops BLOCK_SECTORS lv2 s1;
           let lv1 = rdata32 ((index - lv3_idx * NBLOCK_LV2) div NBLOCK_LV1) s2;
           if lv1 = 0 then Some (0, s2) else do {
             s3 \<leftarrow> rd_rdata ops BLOCK_SECTORS lv1 s2;
             Some (rdata32 (index mod NBLOCK_LV1) s3, s3) } } } }
     else Some (- 1, s))"

text \<open>\<^verbatim>\<open>inode->blocks[j] = v\<close> for the inode at \<open>inode_buffer[k]\<close>.\<close>

definition set_block :: "nat \<Rightarrow> nat \<Rightarrow> u32 \<Rightarrow> 'd fsst \<Rightarrow> 'd fsst" where
  "set_block k j v s = s\<lparr>inode_buffer := put_u32 (64 * k + 24 + 4 * j) v (inode_buffer s)\<rparr>"

definition ino_block :: "nat \<Rightarrow> nat \<Rightarrow> 'd fsst \<Rightarrow> u32" where
  "ino_block k j s = get_u32 (64 * k + 24 + 4 * j) (inode_buffer s)"

text \<open>\<^verbatim>\<open>if (inode->blocks[j] == 0) inode->blocks[j] = find_free_block();\<close>\<close>

definition ensure_root :: "'d sd_ops \<Rightarrow> nat \<Rightarrow> nat \<Rightarrow> 'd fsst \<Rightarrow> 'd fsst option" where
  "ensure_root ops k j s = (if ino_block k j s = 0 then do {
       (b, s1) \<leftarrow> find_free_block ops s; Some (set_block k j b s1) } else Some s)"

text \<open>
  Entry \<open>idx\<close> of the indirect block in sector \<open>sec\<close>, which is in the buffer: when it is empty, a new
  block is entered there; the result is the entry.
\<close>

definition ensure_entry :: "'d sd_ops \<Rightarrow> u32 \<Rightarrow> nat \<Rightarrow> 'd fsst \<Rightarrow> (u32 \<times> 'd fsst) option" where
  "ensure_entry ops sec idx s = do {
     s3 \<leftarrow> (if rdata32 idx s = 0 then do {
         (nb, s1) \<leftarrow> find_free_block ops s;
         s2 \<leftarrow> rd_rdata ops BLOCK_SECTORS sec s1;
         wr_rdata ops sec (set_rdata32 idx nb s2) } else Some s);
     Some (rdata32 idx s3, s3) }"

text \<open>A new data block as entry \<open>idx\<close> of the indirect block in sector \<open>sec\<close>.\<close>

definition add_entry :: "'d sd_ops \<Rightarrow> u32 \<Rightarrow> nat \<Rightarrow> 'd fsst \<Rightarrow> 'd fsst option" where
  "add_entry ops sec idx s = do {
     (nb, s1) \<leftarrow> find_free_block ops s;
     s2 \<leftarrow> rd_rdata ops BLOCK_SECTORS sec s1;
     wr_rdata ops sec (set_rdata32 idx nb s2) }"

definition alloc_inode_block :: "'d sd_ops \<Rightarrow> nat \<Rightarrow> nat \<Rightarrow> 'd fsst \<Rightarrow> (int \<times> 'd fsst) option" where
  "alloc_inode_block ops block_idx k s =
    (if block_idx < DIRECT_BLOCK_NUM then do {
       (b, s1) \<leftarrow> find_free_block ops s;
       Some (0, set_block k block_idx b s1) }
     else if block_idx < DIRECT_BLOCK_NUM + NBLOCK_LV1 then do {
       s1 \<leftarrow> ensure_root ops k DIRECT_BLOCK_NUM s;
       s2 \<leftarrow> add_entry ops (ino_block k DIRECT_BLOCK_NUM s1) (block_idx - DIRECT_BLOCK_NUM) s1;
       Some (0, s2) }
     else if block_idx < DIRECT_BLOCK_NUM + NBLOCK_LV1 + NBLOCK_LV2 then do {
       let index = block_idx - DIRECT_BLOCK_NUM - NBLOCK_LV1;
       s1 \<leftarrow> ensure_root ops k (DIRECT_BLOCK_NUM + 1) s;
       s2 \<leftarrow> rd_rdata ops BLOCK_SECTORS (ino_block k (DIRECT_BLOCK_NUM + 1) s1) s1;
       (lv1, s3) \<leftarrow> ensure_entry ops (ino_block k (DIRECT_BLOCK_NUM + 1) s2) (index div NBLOCK_LV1) s2;
       s4 \<leftarrow> add_entry ops lv1 (index mod NBLOCK_LV1) s3;
       Some (0, s4) }
     else if block_idx < DIRECT_BLOCK_NUM + NBLOCK_LV1 + NBLOCK_LV2 + NBLOCK_LV3 then do {
       let index = block_idx - DIRECT_BLOCK_NUM - NBLOCK_LV1 - NBLOCK_LV2;
       let idx3 = index div NBLOCK_LV2;
       s1 \<leftarrow> ensure_root ops k (DIRECT_BLOCK_NUM + 2) s;
       s2 \<leftarrow> rd_rdata ops BLOCK_SECTORS (ino_block k (DIRECT_BLOCK_NUM + 2) s1) s1;
       (lv2, s3) \<leftarrow> ensure_entry ops (ino_block k (DIRECT_BLOCK_NUM + 2) s2) idx3 s2;
       s4 \<leftarrow> rd_rdata ops BLOCK_SECTORS lv2 s3;
       (lv1, s5) \<leftarrow> ensure_entry ops lv2 ((index - idx3 * NBLOCK_LV2) div NBLOCK_LV1) s4;
       s6 \<leftarrow> add_entry ops lv1 (index mod NBLOCK_LV1) s5;
       Some (0, s6) }
     else Some (- 1, s))"

end
