(* ===== verification/FsOps.thy ===== *)
theory FsOps
  imports FsBase
begin

text \<open>
  The file system of src/kernel/fs/fs.c, upper half: path lookup, directories, files and file
  descriptors, and the start of the file system. A call yields its return value and the new
  state; \<open>None\<close> is a fault (an assertion, an access outside an array, a string that is not
  terminated inside its array). Strings are byte lists; a literal is written with its terminating
  NUL.
\<close>

section \<open>Paths\<close>

text \<open>
  \<^verbatim>\<open>while (!stop(src[i])) { d[i] = src[i]; i++; } d[i] = 0;\<close> with the unread rest of the source; a path
  component stops at a slash or at the end.
\<close>

fun copy_until :: "(u8 \<Rightarrow> bool) \<Rightarrow> bytes \<Rightarrow> bytes \<Rightarrow> nat \<Rightarrow> (bytes \<times> bytes) option" where
  "copy_until stop [] d i = None"
| "copy_until stop (c # cs) d i = (if i < length d
     then (if \<not> stop c then copy_until stop cs (d[i := c]) (Suc i) else Some (d[i := 0], c # cs))
     else None)"

definition copy_comp :: "bytes \<Rightarrow> bytes \<Rightarrow> (bytes \<times> bytes) option" where
  "copy_comp path d = copy_until (\<lambda>c. c = 47 \<or> c = 0) path d 0"

definition parse_path :: "bytes \<Rightarrow> bytes \<Rightarrow> bytes \<Rightarrow> bytes \<Rightarrow> (bytes \<times> bytes \<times> bytes) option" where
  "parse_path path dir1 dir2 dir3 = do {
     (d1, r1) \<leftarrow> copy_comp path dir1;
     if hd r1 \<noteq> 0 then do {
       (d2, r2) \<leftarrow> copy_comp (tl r1) dir2;
       if hd r2 \<noteq> 0 then do {
         (d3, r3) \<leftarrow> copy_comp (tl r2) dir3;
         Some (d1, d2, d3) }
       else Some (d1, d2, dir3[0 := 0]) }
     else Some (d1, dir2[0 := 0], dir3[0 := 0]) }"

text \<open>\<^verbatim>\<open>for (j \<dots>) if (strcmp(dentry_buffer[j].name, name) == 0)\<close>: the first entry of that name.\<close>

fun dir_find :: "bytes \<Rightarrow> bytes \<Rightarrow> nat list \<Rightarrow> nat option option" where
  "dir_find b name [] = Some None"
| "dir_find b name (j # js) = do {
     r \<leftarrow> strcmp (dentry_name j b) name;
     if r = 0 then Some (Some j) else dir_find b name js }"

text \<open>
  \<^verbatim>\<open>find_inode\<close> returns a pointer: to the inode it was given, or into the inode buffer. It is
  dereferenced by the caller, in the state of that moment.
\<close>

datatype iptr = Parent | InBuf nat

definition deref :: "iptr \<Rightarrow> inode_t \<Rightarrow> 'd fsst \<Rightarrow> inode_t" where
  "deref p parent s = (case p of Parent \<Rightarrow> parent | InBuf k \<Rightarrow> inode_at k (inode_buffer s))"

text \<open>One level of the search: the inode number of \<open>name\<close> in the directory, with its inode loaded.\<close>

definition find_level :: "'d sd_ops \<Rightarrow> bytes \<Rightarrow> inode_t \<Rightarrow> 'd fsst \<Rightarrow> (nat option \<times> 'd fsst) option" where
  "find_level ops name dir s = do {
     s1 \<leftarrow> rd_dentry ops (i_blocks dir ! 0) s;
     r \<leftarrow> dir_find (dentry_buffer s1) name [0..<DENTRIES];
     case r of None \<Rightarrow> Some (None, s1)
     | Some j \<Rightarrow> do {
         let inode_idx = dentry_ino j (dentry_buffer s1);
         s2 \<leftarrow> rd_inode ops (inodeidx2sector inode_idx) s1;
         Some (Some (inodeidx2offset inode_idx), s2) } }"

definition NAME0 :: bytes where "NAME0 = replicate MAX_PATHNAME_LEN 0"

definition find_inode :: "'d sd_ops \<Rightarrow> bytes \<Rightarrow> inode_t \<Rightarrow> 'd fsst \<Rightarrow> (iptr option \<times> 'd fsst) option" where
  "find_inode ops path parent s = (case path of [] \<Rightarrow> None | c # _ \<Rightarrow>
     if c = 0 then Some (Some Parent, s) else do {
       (d1, d2, d3) \<leftarrow> parse_path path NAME0 NAME0 NAME0;
       (r1, s1) \<leftarrow> find_level ops d1 parent s;
       case r1 of None \<Rightarrow> Some (None, s1) | Some k1 \<Rightarrow>
       if d2 ! 0 = 0 then Some (Some (InBuf k1), s1) else do {
         (r2, s2) \<leftarrow> find_level ops d2 (inode_at k1 (inode_buffer s1)) s1;
         case r2 of None \<Rightarrow> Some (None, s2) | Some k2 \<Rightarrow>
         if d3 ! 0 = 0 then Some (Some (InBuf k2), s2) else do {
           (r3, s3) \<leftarrow> find_level ops d3 (inode_at k2 (inode_buffer s2)) s2;
           Some (map_option InBuf r3, s3) } } })"

section \<open>Directories\<close>

definition do_cd :: "'d sd_ops \<Rightarrow> bytes \<Rightarrow> 'd fsst \<Rightarrow> (int \<times> 'd fsst) option" where
  "do_cd ops path s = do {
     (r, s1) \<leftarrow> find_inode ops path (wd_inode s) s;
     case r of None \<Rightarrow> Some (- 1, s1) | Some p \<Rightarrow>
       let inode = deref p (wd_inode s1) s1 in
       if i_type inode \<noteq> IT_DIR then Some (- 1, s1) else Some (0, s1\<lparr>wd_inode := inode\<rparr>) }"

text \<open>\<^verbatim>\<open>bread; inode_buffer[offset] = inode; bwrite\<close>: the inode goes to its place on the disk.\<close>

definition store_inode :: "'d sd_ops \<Rightarrow> u32 \<Rightarrow> inode_t \<Rightarrow> 'd fsst \<Rightarrow> 'd fsst option" where
  "store_inode ops ino inode s = do {
     s1 \<leftarrow> rd_inode ops (inodeidx2sector ino) s;
     wr_inode ops 1 (inodeidx2sector ino)
       (s1\<lparr>inode_buffer := set_inode (inodeidx2offset ino) inode (inode_buffer s1)\<rparr>) }"

text \<open>A fresh inode, zeroed and then filled in.\<close>

definition new_inode :: "u32 \<Rightarrow> u8 \<Rightarrow> u32 \<Rightarrow> u32 \<Rightarrow> u32 \<Rightarrow> inode_t" where
  "new_inode ino ty sz t block0 = \<lparr>i_mode = ucast O_RDWR, i_type = ty, i_nlink = 1, i_ino = ino, i_size = sz,
     i_atime = t, i_mtime = t, i_ctime = t, i_blocks = block0 # replicate 9 0\<rparr>"

text \<open>The entries \<^verbatim>\<open>.\<close> and \<^verbatim>\<open>..\<close> in a cleared buffer.\<close>

definition dot_entries :: "u32 \<Rightarrow> u32 \<Rightarrow> bytes \<Rightarrow> bytes option" where
  "dot_entries self up b = do {
     z \<leftarrow> bzero b BLOCK_SIZE;
     b1 \<leftarrow> set_dentry 0 [46, 0] self IT_DIR z;
     set_dentry 1 [46, 46, 0] up IT_DIR b1 }"

definition do_mkdir :: "'d sd_ops \<Rightarrow> bytes \<Rightarrow> 'd fsst \<Rightarrow> (int \<times> 'd fsst) option" where
  "do_mkdir ops path s = do {
     n \<leftarrow> strlen path;
     if n \<ge> 27 then Some (- 1, s) else do {
     s1 \<leftarrow> rd_dentry ops (i_blocks (wd_inode s) ! 0) s;
     r \<leftarrow> dir_find (dentry_buffer s1) path [0..<DENTRIES];
     if r \<noteq> None then Some (- 1, s1) else do {
     (inode_idx, s2) \<leftarrow> find_free_inode ops s1;
     if inode_idx = - 1 then Some (- 1, s2) else do {
     (new_block, s3) \<leftarrow> find_free_block ops s2;
     if new_block = - 1 then Some (- 1, s3) else do {
     s4 \<leftarrow> rd_inode ops (inodeidx2sector inode_idx) s3;
     let (t, s5) = fs_timer s4;
     s6 \<leftarrow> wr_inode ops 1 (inodeidx2sector inode_idx) (s5\<lparr>inode_buffer :=
       set_inode (inodeidx2offset inode_idx) (new_inode inode_idx IT_DIR 64 t new_block) (inode_buffer s5)\<rparr>);
     s7 \<leftarrow> rd_dentry ops (i_blocks (wd_inode s6) ! 0) s6;
     case first_idx (\<lambda>j. hd (dentry_name j (dentry_buffer s7)) = 0) DENTRIES of None \<Rightarrow> Some (- 1, s7)
     | Some j \<Rightarrow> do {
       b \<leftarrow> set_dentry j path inode_idx IT_DIR (dentry_buffer s7);
       s8 \<leftarrow> wr_dentry ops (i_blocks (wd_inode s7) ! 0) (s7\<lparr>dentry_buffer := b\<rparr>);
       let (t2, s9) = fs_timer s8;
       let wd = (wd_inode s9)\<lparr>i_size := i_size (wd_inode s9) + 32, i_mtime := t2, i_nlink := i_nlink (wd_inode s9) + 1\<rparr>;
       s10 \<leftarrow> store_inode ops (i_ino wd) wd (s9\<lparr>wd_inode := wd\<rparr>);
       b' \<leftarrow> dot_entries inode_idx (i_ino wd) (dentry_buffer s10);
       s11 \<leftarrow> wr_dentry ops new_block (s10\<lparr>dentry_buffer := b'\<rparr>);
       Some (0, s11) } } } } } }"

text \<open>
  \<^verbatim>\<open>nest_rmdir\<close> from entry \<open>j\<close> on. The recursion follows the directory tree found on the disk, which
  need not be a tree: not returning is \<open>None\<close>.
\<close>

partial_function (option) nest_rmdir :: "'d sd_ops \<Rightarrow> inode_t \<Rightarrow> nat \<Rightarrow> 'd fsst \<Rightarrow> 'd fsst option" where
  "nest_rmdir ops dir_inode j s = (if j \<ge> DENTRIES then Some s else
     Option.bind (rd_dentry ops (i_blocks dir_inode ! 0) s) (\<lambda>s1.
     if hd (dentry_name j (dentry_buffer s1)) = 0 then nest_rmdir ops dir_inode (Suc j) s1 else
     let inode_index = dentry_ino j (dentry_buffer s1) in
     Option.bind (rd_inode ops (inodeidx2sector inode_index) s1) (\<lambda>s2.
     let child = inode_at (inodeidx2offset inode_index) (inode_buffer s2) in
     if i_type child = IT_DIR then
       Option.bind (nest_rmdir ops child 2 s2) (\<lambda>s3.
       Option.bind (free_inode ops (i_ino child) s3) (\<lambda>s4. nest_rmdir ops dir_inode (Suc j) s4))
     else let child' = child\<lparr>i_nlink := i_nlink child - 1\<rparr> in
       Option.bind (if i_nlink child' = 0 then free_inode ops (i_ino child') s2
           else store_inode ops (i_ino child') child' s2)
         (\<lambda>s3. nest_rmdir ops dir_inode (Suc j) s3))))"

definition do_rmdir :: "'d sd_ops \<Rightarrow> bytes \<Rightarrow> 'd fsst \<Rightarrow> (int \<times> 'd fsst) option" where
  "do_rmdir ops path s = do {
     (r, s1) \<leftarrow> find_inode ops path (wd_inode s) s;
     c1 \<leftarrow> strcmp path [46, 0];
     dots \<leftarrow> (if c1 = 0 then Some True else do { c2 \<leftarrow> strcmp path [46, 46, 0]; Some (c2 = 0) });
     if dots then Some (- 1, s1) else
     case r of None \<Rightarrow> Some (- 1, s1) | Some p \<Rightarrow>
       if i_type (deref p (wd_inode s1) s1) \<noteq> IT_DIR then Some (- 1, s1)
       else if i_nlink (deref p (wd_inode s1) s1) \<noteq> 1 then Some (- 1, s1)
       else do {
         s2 \<leftarrow> nest_rmdir ops (deref p (wd_inode s1) s1) 2 s1;
         let (t, s3) = fs_timer s2;
         let wd = (wd_inode s3)\<lparr>i_mtime := t, i_nlink := i_nlink (wd_inode s3) - 1\<rparr>;
         s4 \<leftarrow> store_inode ops (i_ino wd) wd (s3\<lparr>wd_inode := wd\<rparr>);
         s5 \<leftarrow> rd_dentry ops (i_blocks (wd_inode s4) ! 0) s4;
         s6 \<leftarrow> (case first_idx (\<lambda>j. dentry_ino j (dentry_buffer s5) = i_ino (deref p (wd_inode s5) s5)) DENTRIES of
             None \<Rightarrow> Some s5
           | Some j \<Rightarrow> wr_dentry ops (i_blocks (wd_inode s5) ! 0)
               (s5\<lparr>dentry_buffer := clear_dentry j (dentry_buffer s5)\<rparr>));
         let (t2, s7) = fs_timer s6;
         let wd2 = (wd_inode s7)\<lparr>i_size := i_size (wd_inode s7) - 32, i_mtime := t2, i_nlink := i_nlink (wd_inode s7) - 1\<rparr>;
         s8 \<leftarrow> store_inode ops (i_ino wd2) wd2 (s7\<lparr>wd_inode := wd2\<rparr>);
         s9 \<leftarrow> free_inode ops (i_ino (deref p (wd_inode s8) s8)) s8;
         Some (0, s9) } }"

definition out :: "fs_out \<Rightarrow> 'd fsst \<Rightarrow> 'd fsst" where
  "out x s = s\<lparr>fs_con := fs_con s @ [x]\<rparr>"

text \<open>\<^verbatim>\<open>printk("%s", str)\<close>\<close>

definition c_text :: "bytes \<Rightarrow> bytes option" where
  "c_text b = do { n \<leftarrow> strlen b; Some (take n b) }"

fun ls_names :: "nat list \<Rightarrow> 'd fsst \<Rightarrow> 'd fsst option" where
  "ls_names [] s = Some s"
| "ls_names (j # js) s = (if hd (dentry_name j (dentry_buffer s)) \<noteq> 0
     then do { t \<leftarrow> c_text (dentry_name j (dentry_buffer s)); ls_names js (out (OutText (t @ [10])) s) }
     else ls_names js s)"

fun ls_stats :: "'d sd_ops \<Rightarrow> inode_t \<Rightarrow> nat list \<Rightarrow> 'd fsst \<Rightarrow> 'd fsst option" where
  "ls_stats ops d [] s = Some s"
| "ls_stats ops d (j # js) s = (if hd (dentry_name j (dentry_buffer s)) \<noteq> 0
     then do {
       (r, s1) \<leftarrow> find_inode ops (dentry_name j (dentry_buffer s)) d s;
       p \<leftarrow> r;
       t \<leftarrow> c_text (dentry_name j (dentry_buffer s1));
       ls_stats ops d js (out (OutStat (deref p d s1) t) s1) }
     else ls_stats ops d js s)"

definition do_ls :: "'d sd_ops \<Rightarrow> bytes \<Rightarrow> i32 \<Rightarrow> 'd fsst \<Rightarrow> (int \<times> 'd fsst) option" where
  "do_ls ops path opt s = do {
     (r, s1) \<leftarrow> find_inode ops path (wd_inode s) s;
     case r of None \<Rightarrow> Some (- 1, s1) | Some p \<Rightarrow>
       if i_type (deref p (wd_inode s1) s1) \<noteq> IT_DIR then Some (- 1, s1) else do {
         let d = deref p (wd_inode s1) s1;
         s2 \<leftarrow> rd_dentry ops (i_blocks d ! 0) s1;
         s3 \<leftarrow> (if opt = 0 then ls_names [0..<DENTRIES] s2 else ls_stats ops d [0..<DENTRIES] s2);
         Some (0, s3) } }"

partial_function (option) nest_pwd :: "'d sd_ops \<Rightarrow> inode_t \<Rightarrow> 'd fsst \<Rightarrow> 'd fsst option" where
  "nest_pwd ops dir_inode s = (if i_ino dir_inode = 0 then Some (out (OutText [47]) s) else
     Option.bind (rd_dentry ops (i_blocks dir_inode ! 0) s) (\<lambda>s1.
     let parent_idx = dentry_ino 1 (dentry_buffer s1) in
     Option.bind (rd_inode ops (inodeidx2sector parent_idx) s1) (\<lambda>s2.
     let parent = inode_at (inodeidx2offset parent_idx) (inode_buffer s2) in
     Option.bind (nest_pwd ops parent s2) (\<lambda>s3.
     Option.bind (rd_dentry ops (i_blocks parent ! 0) s3) (\<lambda>s4.
     case first_idx (\<lambda>j. dentry_ino j (dentry_buffer s4) = i_ino dir_inode) DENTRIES of
       None \<Rightarrow> Some s4
     | Some j \<Rightarrow> Option.bind (c_text (dentry_name j (dentry_buffer s4))) (\<lambda>t. Some (out (OutText (t @ [47])) s4)))))))"

definition do_pwd :: "'d sd_ops \<Rightarrow> 'd fsst \<Rightarrow> (int \<times> 'd fsst) option" where
  "do_pwd ops s = do { s1 \<leftarrow> nest_pwd ops (wd_inode s) s; Some (0, out (OutText [10]) s1) }"

section \<open>Files\<close>

definition upd_fd :: "nat \<Rightarrow> (fdesc_t \<Rightarrow> fdesc_t) \<Rightarrow> 'd fsst \<Rightarrow> 'd fsst" where
  "upd_fd fd f s = s\<lparr>fdesc_array := (fdesc_array s)(fd := f (fdesc_array s fd))\<rparr>"

definition do_open :: "'d sd_ops \<Rightarrow> bytes \<Rightarrow> i32 \<Rightarrow> 'd fsst \<Rightarrow> (int \<times> 'd fsst) option" where
  "do_open ops path mode s = do {
     (r, s1) \<leftarrow> find_inode ops path (wd_inode s) s;
     case r of None \<Rightarrow> Some (- 1, s1) | Some p \<Rightarrow>
       if i_type (deref p (wd_inode s1) s1) = IT_DIR then Some (- 1, s1) else
       (case first_idx (\<lambda>i. fd_valid (fdesc_array s1 i) = 0) NUM_FDESCS of
          None \<Rightarrow> Some (- 1, s1)
        | Some fd \<Rightarrow> Some (int fd, upd_fd fd (\<lambda>f. f\<lparr>fd_valid := 1, fd_mode := ucast mode, write_pos := 0,
            read_pos := 0, fd_ino := i_ino (deref p (wd_inode s1) s1)\<rparr>) s1)) }"

text \<open>\<^verbatim>\<open>fd < 0 || fd >= NUM_FDESCS || fdesc_array[fd].valid == 0\<close>\<close>

definition bad_fd :: "i32 \<Rightarrow> 'd fsst \<Rightarrow> bool" where
  "bad_fd fd s \<longleftrightarrow> sint fd < 0 \<or> sint fd \<ge> int NUM_FDESCS \<or> fd_valid (fdesc_array s (nat (sint fd))) = 0"

fun read_loop :: "'d sd_ops \<Rightarrow> nat \<Rightarrow> inode_t \<Rightarrow> nat \<Rightarrow> 'd fsst \<Rightarrow> (bytes \<times> 'd fsst) option" where
  "read_loop ops fd inode 0 s = Some ([], s)"
| "read_loop ops fd inode (Suc n) s = do {
     s2 \<leftarrow> (if unat (read_pos (fdesc_array s fd)) mod BLOCK_SIZE = 0 then do {
         (sec, s1) \<leftarrow> blockid2sector ops (unat (read_pos (fdesc_array s fd)) div BLOCK_SIZE) inode s;
         rd_rdata ops BLOCK_SECTORS sec s1 } else Some s);
     let c = rdata_buffer s2 ! (unat (read_pos (fdesc_array s2 fd)) mod BLOCK_SIZE);
     (cs, s3) \<leftarrow> read_loop ops fd inode n (upd_fd fd (\<lambda>f. f\<lparr>read_pos := read_pos f + 1\<rparr>) s2);
     Some (c # cs, s3) }"

text \<open>\<^verbatim>\<open>do_read\<close>; the result also has the bytes stored in the caller's buffer.\<close>

definition do_read :: "'d sd_ops \<Rightarrow> i32 \<Rightarrow> i32 \<Rightarrow> 'd fsst \<Rightarrow> (int \<times> bytes \<times> 'd fsst) option" where
  "do_read ops fd len s = (if bad_fd fd s then Some (- 1, [], s)
     else let d = nat (sint fd) in
     if fd_mode (fdesc_array s d) = ucast O_WRONLY then Some (- 1, [], s)
     else do {
       let inode_idx = fd_ino (fdesc_array s d);
       s1 \<leftarrow> rd_inode ops (inodeidx2sector inode_idx) s;
       let inode = inode_at (inodeidx2offset inode_idx) (inode_buffer s1);
       (sec, s2) \<leftarrow> blockid2sector ops (unat (read_pos (fdesc_array s1 d)) div BLOCK_SIZE) inode s1;
       s3 \<leftarrow> rd_rdata ops 1 sec s2;
       (cs, s4) \<leftarrow> read_loop ops d inode (nat (sint len)) s3;
       let (t, s5) = fs_timer s4;
       s6 \<leftarrow> wr_inode ops 1 (inodeidx2sector inode_idx) (s5\<lparr>inode_buffer :=
         set_inode (inodeidx2offset inode_idx) (inode\<lparr>i_atime := t\<rparr>) (inode_buffer s5)\<rparr>);
       Some (sint len, cs, s6) })"

text \<open>The sector of a file block, allocated when the file has none there yet.\<close>

definition block_for_write :: "'d sd_ops \<Rightarrow> nat \<Rightarrow> nat \<Rightarrow> 'd fsst \<Rightarrow> (u32 \<times> 'd fsst) option" where
  "block_for_write ops block_id k s = do {
     (sec, s1) \<leftarrow> blockid2sector ops block_id (inode_at k (inode_buffer s)) s;
     if sec = 0 then do {
       (_, s2) \<leftarrow> alloc_inode_block ops block_id k s1;
       blockid2sector ops block_id (inode_at k (inode_buffer s2)) s2 }
     else Some (sec, s1) }"

fun write_loop :: "'d sd_ops \<Rightarrow> nat \<Rightarrow> nat \<Rightarrow> bytes \<Rightarrow> 'd fsst \<Rightarrow> 'd fsst option" where
  "write_loop ops fd k [] s = Some s"
| "write_loop ops fd k (c # cs) s = do {
     s2 \<leftarrow> (if unat (write_pos (fdesc_array s fd)) mod BLOCK_SIZE = 0 then do {
         (sec, s1) \<leftarrow> block_for_write ops (unat (write_pos (fdesc_array s fd)) div BLOCK_SIZE) k s;
         rd_wdata ops sec s1 } else Some s);
     let off = unat (write_pos (fdesc_array s2 fd)) mod BLOCK_SIZE;
     let s3 = s2\<lparr>wdata_buffer := (wdata_buffer s2)[off := c]\<rparr>;
     s4 \<leftarrow> (if off = BLOCK_SIZE - 1 then do {
         (sec, s') \<leftarrow> blockid2sector ops (unat (write_pos (fdesc_array s3 fd)) div BLOCK_SIZE) (inode_at k (inode_buffer s3)) s3;
         wr_wdata ops sec s' } else Some s3);
     write_loop ops fd k cs (upd_fd fd (\<lambda>f. f\<lparr>write_pos := write_pos f + 1\<rparr>) s4) }"

text \<open>
  \<^verbatim>\<open>do_write\<close>; \<open>buff\<close> are the \<^verbatim>\<open>length\<close> bytes at the caller's address. The descriptor is not checked: one
  outside the array is a fault. At the end the inode buffer is written over \<open>BLOCK_SECTORS\<close> sectors.
\<close>

definition do_write :: "'d sd_ops \<Rightarrow> i32 \<Rightarrow> bytes \<Rightarrow> i32 \<Rightarrow> 'd fsst \<Rightarrow> (int \<times> 'd fsst) option" where
  "do_write ops fd buff len s = do {
     c_assert (0 \<le> sint fd \<and> sint fd < int NUM_FDESCS);
     c_assert (length buff = nat (sint len));
     let d = nat (sint fd);
     let inode_idx = fd_ino (fdesc_array s d);
     let k = inodeidx2offset inode_idx;
     s1 \<leftarrow> rd_inode ops (inodeidx2sector inode_idx) s;
     (sec, s2) \<leftarrow> block_for_write ops (unat (write_pos (fdesc_array s1 d)) div BLOCK_SIZE) k s1;
     s3 \<leftarrow> rd_wdata ops sec s2;
     s4 \<leftarrow> write_loop ops d k buff s3;
     s5 \<leftarrow> (if unat (write_pos (fdesc_array s4 d)) mod BLOCK_SIZE \<noteq> 0 then do {
         (sec', s') \<leftarrow> blockid2sector ops (unat (write_pos (fdesc_array s4 d)) div BLOCK_SIZE) (inode_at k (inode_buffer s4)) s4;
         wr_wdata ops sec' s' } else Some s4);
     let inode = inode_at k (inode_buffer s5);
     let inode1 = (if write_pos (fdesc_array s5 d) > i_size inode then inode\<lparr>i_size := write_pos (fdesc_array s5 d)\<rparr> else inode);
     let (t, s6) = fs_timer s5;
     s7 \<leftarrow> wr_inode ops BLOCK_SECTORS (inodeidx2sector inode_idx)
       (s6\<lparr>inode_buffer := set_inode k (inode1\<lparr>i_mtime := t, i_atime := t\<rparr>) (inode_buffer s6)\<rparr>);
     Some (sint len, s7) }"

definition do_close :: "i32 \<Rightarrow> 'd fsst \<Rightarrow> (int \<times> 'd fsst) option" where
  "do_close fd s = do {
     c_assert (0 \<le> sint fd \<and> sint fd < int NUM_FDESCS);
     Some (0, upd_fd (nat (sint fd)) (\<lambda>f. f\<lparr>fd_valid := 0\<rparr>) s) }"

text \<open>
  The common tail of \<^verbatim>\<open>add_file_dentry\<close>: the first free entry of the directory becomes the file's.
  A full directory is reported, and left as it is.
\<close>

definition put_file_dentry :: "'d sd_ops \<Rightarrow> bytes \<Rightarrow> u32 \<Rightarrow> inode_t \<Rightarrow> 'd fsst \<Rightarrow> 'd fsst option" where
  "put_file_dentry ops name ino dir s = do {
     s1 \<leftarrow> rd_dentry ops (i_blocks dir ! 0) s;
     case first_idx (\<lambda>j. dentry_ino j (dentry_buffer s1) = 0 \<and> hd (dentry_name j (dentry_buffer s1)) = 0) DENTRIES of
       None \<Rightarrow> Some s1
     | Some j \<Rightarrow> do {
         b \<leftarrow> set_dentry j name ino IT_FILE (dentry_buffer s1);
         wr_dentry ops (i_blocks dir ! 0) (s1\<lparr>dentry_buffer := b\<rparr>) } }"

text \<open>One step down: the entry must be a directory; \<open>None\<close> as result is the error return.\<close>

definition down_dir :: "'d sd_ops \<Rightarrow> bytes \<Rightarrow> inode_t \<Rightarrow> 'd fsst \<Rightarrow> (inode_t option \<times> 'd fsst) option" where
  "down_dir ops name dir s = do {
     s1 \<leftarrow> rd_dentry ops (i_blocks dir ! 0) s;
     r \<leftarrow> dir_find (dentry_buffer s1) name [0..<DENTRIES];
     case r of None \<Rightarrow> Some (None, s1)
     | Some j \<Rightarrow> if dentry_type j (dentry_buffer s1) \<noteq> IT_DIR then Some (None, s1) else do {
         let idx = dentry_ino j (dentry_buffer s1);
         s2 \<leftarrow> rd_inode ops (inodeidx2sector idx) s1;
         Some (Some (inode_at (inodeidx2offset idx) (inode_buffer s2)), s2) } }"

text \<open>The three name arrays are not initialised in the source; what \<^verbatim>\<open>parse_path\<close> does not set is not read.\<close>

definition add_file_dentry :: "'d sd_ops \<Rightarrow> inode_t \<Rightarrow> bytes \<Rightarrow> u32 \<Rightarrow> 'd fsst \<Rightarrow> 'd fsst option" where
  "add_file_dentry ops parent path ino s = do {
     (d1, d2, d3) \<leftarrow> parse_path path NAME0 NAME0 NAME0;
     if d2 ! 0 = 0 then put_file_dentry ops d1 ino parent s else do {
       (r1, s1) \<leftarrow> down_dir ops d1 parent s;
       case r1 of None \<Rightarrow> Some s1 | Some dir1 \<Rightarrow>
       if d3 ! 0 = 0 then put_file_dentry ops d2 ino dir1 s1 else do {
         (r2, s2) \<leftarrow> down_dir ops d2 dir1 s1;
         case r2 of None \<Rightarrow> Some s2 | Some dir2 \<Rightarrow> put_file_dentry ops d3 ino dir2 s2 } } }"

definition do_ln :: "'d sd_ops \<Rightarrow> bytes \<Rightarrow> bytes \<Rightarrow> 'd fsst \<Rightarrow> (int \<times> 'd fsst) option" where
  "do_ln ops src dst s = do {
     (r, s1) \<leftarrow> find_inode ops src (wd_inode s) s;
     case r of None \<Rightarrow> Some (- 1, s1) | Some p \<Rightarrow>
       if i_type (deref p (wd_inode s1) s1) = IT_DIR then Some (- 1, s1) else do {
         let src_inode = deref p (wd_inode s1) s1;
         s2 \<leftarrow> add_file_dentry ops (wd_inode s1) dst (i_ino src_inode) s1;
         s3 \<leftarrow> rd_inode ops (inodeidx2sector (i_ino src_inode)) s2;
         let k = inodeidx2offset (i_ino src_inode);
         let inode = inode_at k (inode_buffer s3);
         s4 \<leftarrow> wr_inode ops 1 (inodeidx2sector (i_ino src_inode))
           (s3\<lparr>inode_buffer := set_inode k (inode\<lparr>i_nlink := i_nlink inode + 1\<rparr>) (inode_buffer s3)\<rparr>);
         Some (0, s4) } }"

definition do_rm :: "'d sd_ops \<Rightarrow> bytes \<Rightarrow> 'd fsst \<Rightarrow> (int \<times> 'd fsst) option" where
  "do_rm ops path s = do {
     (r, s1) \<leftarrow> find_inode ops path (wd_inode s) s;
     case r of None \<Rightarrow> Some (- 1, s1) | Some p \<Rightarrow>
       if i_type (deref p (wd_inode s1) s1) = IT_DIR then Some (- 1, s1) else do {
         let inode = deref p (wd_inode s1) s1;
         s2 \<leftarrow> rd_dentry ops (i_blocks (wd_inode s1) ! 0) s1;
         s3 \<leftarrow> (case first_idx (\<lambda>j. dentry_ino j (dentry_buffer s2) = i_ino inode) DENTRIES of
             None \<Rightarrow> Some s2
           | Some j \<Rightarrow> wr_dentry ops (i_blocks (wd_inode s2) ! 0)
               (s2\<lparr>dentry_buffer := clear_dentry j (dentry_buffer s2)\<rparr>));
         let (t, s4) = fs_timer s3;
         let wd = (wd_inode s4)\<lparr>i_size := i_size (wd_inode s4) - 32, i_mtime := t, i_nlink := i_nlink (wd_inode s4) - 1\<rparr>;
         s5 \<leftarrow> store_inode ops (i_ino wd) wd (s4\<lparr>wd_inode := wd\<rparr>);
         let inode' = inode\<lparr>i_nlink := i_nlink inode - 1\<rparr>;
         s6 \<leftarrow> (if i_nlink inode' = 0 then free_inode ops (i_ino inode') s5 else store_inode ops (i_ino inode') inode' s5);
         Some (0, s6) } }"

definition do_lseek :: "'d sd_ops \<Rightarrow> i32 \<Rightarrow> i32 \<Rightarrow> i32 \<Rightarrow> 'd fsst \<Rightarrow> (int \<times> 'd fsst) option" where
  "do_lseek ops fd offset whence s = (if bad_fd fd s then Some (- 1, s) else do {
     let d = nat (sint fd);
     let inode_idx = fd_ino (fdesc_array s d);
     s1 \<leftarrow> rd_inode ops (inodeidx2sector inode_idx) s;
     let inode = inode_at (inodeidx2offset inode_idx) (inode_buffer s1);
     if whence = SEEK_SET then Some (0, upd_fd d (\<lambda>f. f\<lparr>write_pos := offset, read_pos := offset\<rparr>) s1)
     else if whence = SEEK_CUR
     then Some (0, upd_fd d (\<lambda>f. f\<lparr>read_pos := read_pos f + offset, write_pos := write_pos f + offset\<rparr>) s1)
     else if whence = SEEK_END
     then Some (0, upd_fd d (\<lambda>f. f\<lparr>write_pos := i_size inode + offset, read_pos := i_size inode + offset\<rparr>) s1)
     else Some (- 1, s1) })"

definition do_touch :: "'d sd_ops \<Rightarrow> bytes \<Rightarrow> 'd fsst \<Rightarrow> (int \<times> 'd fsst) option" where
  "do_touch ops path s = do {
     n \<leftarrow> strlen path;
     if n \<ge> 27 then Some (- 1, s) else do {
     s1 \<leftarrow> rd_dentry ops (i_blocks (wd_inode s) ! 0) s;
     r \<leftarrow> dir_find (dentry_buffer s1) path [0..<DENTRIES];
     if r \<noteq> None then Some (- 1, s1) else do {
     (inode_idx, s2) \<leftarrow> find_free_inode ops s1;
     if inode_idx = - 1 then Some (- 1, s2) else do {
     s3 \<leftarrow> rd_inode ops (inodeidx2sector inode_idx) s2;
     let (t, s4) = fs_timer s3;
     s5 \<leftarrow> wr_inode ops 1 (inodeidx2sector inode_idx) (s4\<lparr>inode_buffer :=
       set_inode (inodeidx2offset inode_idx) (new_inode inode_idx IT_FILE 0 t 0) (inode_buffer s4)\<rparr>);
     case first_idx (\<lambda>j. dentry_ino j (dentry_buffer s5) = 0 \<and> hd (dentry_name j (dentry_buffer s5)) = 0) DENTRIES of
       None \<Rightarrow> Some (- 1, s5)
     | Some j \<Rightarrow> do {
       b \<leftarrow> set_dentry j path inode_idx IT_FILE (dentry_buffer s5);
       s6 \<leftarrow> wr_dentry ops (i_blocks (wd_inode s5) ! 0) (s5\<lparr>dentry_buffer := b\<rparr>);
       let (t2, s7) = fs_timer s6;
       let wd = (wd_inode s7)\<lparr>i_size := i_size (wd_inode s7) + 32, i_mtime := t2, i_nlink := i_nlink (wd_inode s7) + 1\<rparr>;
       s8 \<leftarrow> store_inode ops (i_ino wd) wd (s7\<lparr>wd_inode := wd\<rparr>);
       Some (0, s8) } } } } }"

fun cat_loop :: "'d sd_ops \<Rightarrow> iptr \<Rightarrow> nat list \<Rightarrow> 'd fsst \<Rightarrow> 'd fsst option" where
  "cat_loop ops p [] s = Some s"
| "cat_loop ops p (i # is) s = do {
     s2 \<leftarrow> (if i mod BLOCK_SIZE = 0 then do {
         (sec, s1) \<leftarrow> blockid2sector ops (i div BLOCK_SIZE) (deref p (wd_inode s) s) s;
         rd_rdata ops BLOCK_SECTORS sec s1 } else Some s);
     cat_loop ops p is (out (OutText [rdata_buffer s2 ! (i mod BLOCK_SIZE)]) s2) }"

definition do_cat :: "'d sd_ops \<Rightarrow> bytes \<Rightarrow> 'd fsst \<Rightarrow> (int \<times> 'd fsst) option" where
  "do_cat ops path s = do {
     (r, s1) \<leftarrow> find_inode ops path (wd_inode s) s;
     case r of None \<Rightarrow> Some (- 1, s1) | Some p \<Rightarrow>
       if i_type (deref p (wd_inode s1) s1) = IT_DIR then Some (- 1, s1) else do {
         let sz = i_size (deref p (wd_inode s1) s1);
         let max_len = (if sz > 200 then 200 else sz);
         s2 \<leftarrow> cat_loop ops p [0..<unat max_len] s1;
         Some (0, s2) } }"

end
