(* ===== verification/FsInit.thy ===== *)
theory FsInit
  imports FsOps
begin

text \<open>
  The file system of src/kernel/fs/fs.c: making, mounting and inspecting it, and the cache policy
  kept in the file \<^verbatim>\<open>/proc/sys/vm\<close>.
\<close>

section \<open>Literals\<close>

definition c_lit :: "string \<Rightarrow> bytes" where
  "c_lit cs = map (\<lambda>c. word_of_nat (of_char c)) cs @ [0]"

section \<open>The cache policy\<close>

fun parse_freq :: "bytes \<Rightarrow> i32 \<Rightarrow> i32 option" where
  "parse_freq [] v = None"
| "parse_freq (c # cs) v = (if c = 0 then Some v else parse_freq cs (v * 10 + ucast c - 48))"

text \<open>
  The two lines of the policy file; the results are the new policy and frequency. \<open>Inl\<close> is the error
  return, with the policy that was set before the second line turned out to be invalid.
\<close>

definition parse_vm :: "bytes \<Rightarrow> ((i32 option + i32 \<times> i32)) option" where
  "parse_vm line = do {
     (line1, r) \<leftarrow> copy_until (\<lambda>c. c = 10) line (replicate 64 0) 0;
     (line2, _) \<leftarrow> copy_until (\<lambda>c. c = 10 \<or> c = 0) (tl r) (replicate 64 0) 0;
     wb \<leftarrow> strcmp line1 (c_lit ''page_cache_policy = write back'');
     wt \<leftarrow> strcmp line1 (c_lit ''page_cache_policy = write through'');
     if wb \<noteq> 0 \<and> wt \<noteq> 0 then Some (Inl None) else do {
       let pol = (if wb = 0 then BWRITE_BACK else BWRITE_THROUGH);
       f \<leftarrow> strncmp line2 (c_lit ''write_back_freq = '') 18;
       if f = 0 then do { v \<leftarrow> parse_freq (drop 18 line2) 0; Some (Inr (pol, v)) }
       else Some (Inl (Some pol)) } }"

definition set_policy :: "i32 \<Rightarrow> 'd fsst \<Rightarrow> 'd fsst" where
  "set_policy p s = s\<lparr>bc := (bc s)\<lparr>page_cache_policy := p\<rparr>\<rparr>"

definition do_vmflush :: "'d sd_ops \<Rightarrow> 'd fsst \<Rightarrow> (int \<times> 'd fsst) option" where
  "do_vmflush ops s = do {
     c \<leftarrow> bflush ops (bc s);
     s1 \<leftarrow> rd_inode ops (inodeidx2sector (root_ino s)) (s\<lparr>bc := c\<rparr>);
     let root_inode = inode_at (inodeidx2offset (root_ino s1)) (inode_buffer s1);
     (r, s2) \<leftarrow> find_inode ops (c_lit ''proc/sys/vm'') root_inode s1;
     case r of None \<Rightarrow> Some (- 1, s2) | Some p \<Rightarrow> do {
       s3 \<leftarrow> rd_rdata ops BLOCK_SECTORS (i_blocks (deref p root_inode s2) ! 0) s2;
       v \<leftarrow> parse_vm (rdata_buffer s3);
       case v of
         Inl None \<Rightarrow> Some (- 1, s3)
       | Inl (Some pol) \<Rightarrow> Some (- 1, set_policy pol s3)
       | Inr (pol, f) \<Rightarrow> Some (0, (set_policy pol s3)\<lparr>write_back_freq := f\<rparr>) } }"

text \<open>Results of the calls are not checked by \<^verbatim>\<open>init_bcache_policy\<close>; the descriptor is used as returned.\<close>

definition init_bcache_policy :: "'d sd_ops \<Rightarrow> 'd fsst \<Rightarrow> 'd fsst option" where
  "init_bcache_policy ops s = do {
     (_, s1) \<leftarrow> do_mkdir ops (c_lit ''proc'') s;
     (_, s2) \<leftarrow> do_cd ops (c_lit ''proc'') s1;
     (_, s3) \<leftarrow> do_mkdir ops (c_lit ''sys'') s2;
     (_, s4) \<leftarrow> do_cd ops (c_lit ''sys'') s3;
     (_, s5) \<leftarrow> do_touch ops (c_lit ''vm'') s4;
     (fd, s6) \<leftarrow> do_open ops (c_lit ''vm'') O_RDWR s5;
     (_, s7) \<leftarrow> do_write ops (word_of_int fd) (butlast (c_lit ''page_cache_policy = write back'') @ [10]) 31 s6;
     (_, s8) \<leftarrow> do_write ops (word_of_int fd) (butlast (c_lit ''write_back_freq = 30'') @ [10, 0]) 22 s7;
     (_, s9) \<leftarrow> do_close (word_of_int fd) s8;
     (_, s10) \<leftarrow> do_cd ops (c_lit ''../..'') s9;
     Some ((set_policy BWRITE_BACK s10)\<lparr>write_back_freq := 30\<rparr>) }"

section \<open>Making and mounting\<close>

text \<open>The 13 words of the super block, at the start of its buffer.\<close>

definition superblock_words :: "u32 list" where
  "superblock_words = [SUPERBLOCK_MAGIC, FS_START_SECTOR, BLOCK_MAP_OFFSET, INODE_MAP_OFFSET, INODE_OFFSET, DATA_OFFSET,
     FS_NUM_SECTORS, BLOCK_MAP_SIZE, INODE_MAP_SIZE, INODE_SIZE, DATA_SIZE, 64, 32]"

definition do_mkfs :: "'d sd_ops \<Rightarrow> 'd fsst \<Rightarrow> (int \<times> 'd fsst) option" where
  "do_mkfs ops s = do {
     let s1 = s\<lparr>bc := init_bcache (bc s),
                superblock_buffer := bput 0 (concat (map u32_bytes superblock_words)) (superblock_buffer s)\<rparr>;
     c \<leftarrow> bwrite ops (superblock_buffer s1) 1 FS_START_SECTOR (bc s1);
     bz \<leftarrow> bzero (block_map s1) (unat BLOCK_MAP_SIZE * SECTOR_SIZE);
     s2 \<leftarrow> wr_bmap ops (s1\<lparr>bc := c, block_map := bz\<rparr>);
     iz \<leftarrow> bzero (inode_map s2) (unat INODE_MAP_SIZE * SECTOR_SIZE);
     s3 \<leftarrow> wr_imap ops (s2\<lparr>inode_map := iz\<rparr>);
     (root, s4) \<leftarrow> find_free_inode ops s3;
     ib \<leftarrow> bzero (inode_buffer s4) SECTOR_SIZE;
     let (t, s5) = fs_timer (s4\<lparr>root_ino := root, inode_buffer := ib\<rparr>);
     (b0, s6) \<leftarrow> find_free_block ops s5;
     let root_inode = new_inode root IT_DIR 64 t b0;
     s7 \<leftarrow> wr_inode ops 1 (inodeidx2sector root)
       (s6\<lparr>inode_buffer := set_inode (inodeidx2offset root) root_inode (inode_buffer s6)\<rparr>);
     db \<leftarrow> dot_entries root root (dentry_buffer s7);
     s8 \<leftarrow> wr_dentry ops b0 (s7\<lparr>wd_inode := root_inode, dentry_buffer := db\<rparr>);
     s9 \<leftarrow> init_bcache_policy ops s8;
     Some (0, s9) }"

definition init_fs :: "'d sd_ops \<Rightarrow> 'd fsst \<Rightarrow> 'd fsst option" where
  "init_fs ops s = do {
     let s1 = s\<lparr>bc := init_bcache (bc s)\<rparr>;
     (b, c) \<leftarrow> bread ops (superblock_buffer s1) 1 FS_START_SECTOR (bc s1);
     let s2 = s1\<lparr>superblock_buffer := b, bc := c\<rparr>;
     s3 \<leftarrow> (if get_u32 0 (superblock_buffer s2) \<noteq> SUPERBLOCK_MAGIC
       then do { (_, s') \<leftarrow> do_mkfs ops s2; Some s' } else Some s2);
     s4 \<leftarrow> rd_inode ops (inodeidx2sector 0) s3;
     (_, s5) \<leftarrow> do_vmflush ops (s4\<lparr>wd_inode := inode_at 0 (inode_buffer s4)\<rparr>);
     Some s5 }"

section \<open>Statistics\<close>

text \<open>The counting loops: the set bits of a byte, up to the bound; zero bytes are skipped.\<close>

fun count_byte :: "nat \<Rightarrow> u8 \<Rightarrow> nat \<Rightarrow> nat list \<Rightarrow> nat" where
  "count_byte n b base [] = 0"
| "count_byte n b base (k # ks) =
     (if base + k \<ge> n then 0 else (if b AND push_bit k 1 \<noteq> 0 then 1 else 0) + count_byte n b base ks)"

fun count_bytes :: "nat \<Rightarrow> bytes \<Rightarrow> nat \<Rightarrow> nat" where
  "count_bytes n [] base = 0"
| "count_bytes n (b # bs) base = (if b \<noteq> 0 then count_byte n b base [0..<8] else 0) + count_bytes n bs (base + 8)"

definition do_statfs :: "'d sd_ops \<Rightarrow> 'd fsst \<Rightarrow> (int \<times> 'd fsst) option" where
  "do_statfs ops s = do {
     (b, c) \<leftarrow> bread ops (superblock_buffer s) 1 FS_START_SECTOR (bc s);
     let s1 = s\<lparr>superblock_buffer := b, bc := c\<rparr>;
     if get_u32 0 (superblock_buffer s1) \<noteq> SUPERBLOCK_MAGIC then Some (- 1, s1) else do {
       s2 \<leftarrow> rd_bmap ops s1;
       let used_blocks = count_bytes (unat (SECTOR2BLOCK DATA_SIZE)) (block_map s2) 0;
       s3 \<leftarrow> rd_imap ops s2;
       let used_inodes = count_bytes (8 * length (inode_map s3)) (inode_map s3) 0;
       Some (0, out (OutStatfs (take 52 (superblock_buffer s3)) used_inodes used_blocks) s3) } }"

end
