(* ===== verification/FsSpec.thy ===== *)
theory FsSpec
  imports FsInit
begin

text \<open>
  What the file system's buffer and bitmap routines do, on the disk as seen through the cache.
  The cache is transparent (theory \<open>Bcache\<close>), so every transfer is a function of the view of the disk;
  the laws proved there are used here in the form of equations, with the cache after a transfer as
  an opaque term.
\<close>

named_theorems fs_eval \<open>equations that evaluate file system routines\<close>

section \<open>Transfers as equations\<close>

definition bread_bc :: "'d sd_ops \<Rightarrow> nat \<Rightarrow> u32 \<Rightarrow> 'd bcache \<Rightarrow> 'd bcache" where
  "bread_bc ops n a c = snd (the (bread ops (replicate SECTOR_SIZE 0) n a c))"

definition bwrite_bc :: "'d sd_ops \<Rightarrow> bytes \<Rightarrow> nat \<Rightarrow> u32 \<Rightarrow> 'd bcache \<Rightarrow> 'd bcache" where
  "bwrite_bc ops m n a c = the (bwrite ops m n a c)"

lemma bread_cache_indep: "map_option snd (bread ops m n a c) = map_option snd (bread ops m' n a c)"
  by (induction n arbitrary: m m' a c) (auto split: bind_split)

lemma bread_eq:
  assumes "bc_ok ops c" "SECTOR_SIZE \<le> length m" "0 < n"
  shows "bread ops m n a c = Some (bput 0 (bc_view ops c (a + word_of_nat (n - 1))) m, bread_bc ops n a c)"
    "bc_ok ops (bread_bc ops n a c)" "bc_view ops (bread_bc ops n a c) = bc_view ops c"
    "page_cache_policy (bread_bc ops n a c) = page_cache_policy c"
proof -
  obtain c' where c': "bread ops m n a c = Some (bput 0 (bc_view ops c (a + word_of_nat (n - 1))) m, c')"
    "bc_ok ops c'" "bc_view ops c' = bc_view ops c" "page_cache_policy c' = page_cache_policy c"
    using bread_spec [OF assms] .
  moreover have "map_option snd (bread ops (replicate SECTOR_SIZE 0) n a c) = Some c'"
    using bread_cache_indep [of ops m n a c "replicate SECTOR_SIZE 0"] c'(1) by simp
  then have "bread_bc ops n a c = c'" by (auto simp: bread_bc_def)
  ultimately show "bread ops m n a c = Some (bput 0 (bc_view ops c (a + word_of_nat (n - 1))) m, bread_bc ops n a c)"
    "bc_ok ops (bread_bc ops n a c)" "bc_view ops (bread_bc ops n a c) = bc_view ops c"
    "page_cache_policy (bread_bc ops n a c) = page_cache_policy c" by simp_all
qed

lemma bwrite_eq:
  assumes "bc_ok ops c" "SECTOR_SIZE \<le> length m" "n < 2 ^ 32"
  shows "bwrite ops m n a c = Some (bwrite_bc ops m n a c)" "bc_ok ops (bwrite_bc ops m n a c)"
    "bc_view ops (bwrite_bc ops m n a c) = (\<lambda>b. if in_run a n b then take SECTOR_SIZE m else bc_view ops c b)"
    "page_cache_policy (bwrite_bc ops m n a c) = page_cache_policy c"
proof -
  obtain c' where "bwrite ops m n a c = Some c'" "bc_ok ops c'"
    "bc_view ops c' = (\<lambda>b. if in_run a n b then take SECTOR_SIZE m else bc_view ops c b)"
    "page_cache_policy c' = page_cache_policy c" using bwrite_spec [OF assms] .
  then show "bwrite ops m n a c = Some (bwrite_bc ops m n a c)" "bc_ok ops (bwrite_bc ops m n a c)"
    "bc_view ops (bwrite_bc ops m n a c) = (\<lambda>b. if in_run a n b then take SECTOR_SIZE m else bc_view ops c b)"
    "page_cache_policy (bwrite_bc ops m n a c) = page_cache_policy c" by (simp_all add: bwrite_bc_def)
qed

section \<open>Well-formed states\<close>

definition fs_ok :: "'d sd_ops \<Rightarrow> 'd fsst \<Rightarrow> bool" where
  "fs_ok ops s \<longleftrightarrow> bc_ok ops (bc s) \<and> length (superblock_buffer s) = 512 \<and> length (inode_map s) = 512 \<and>
     length (block_map s) = 16384 \<and> length (inode_buffer s) = 512 \<and> length (dentry_buffer s) = 4096 \<and>
     length (rdata_buffer s) = 4096 \<and> length (wdata_buffer s) = 4096 \<and> length (i_blocks (wd_inode s)) = 10"

text \<open>The disk as the file system sees it.\<close>

definition dv :: "'d sd_ops \<Rightarrow> 'd fsst \<Rightarrow> u32 \<Rightarrow> bytes" where
  "dv ops s = bc_view ops (bc s)"

lemma fs_okD:
  assumes "fs_ok ops s"
  shows "bc_ok ops (bc s)" "length (superblock_buffer s) = 512" "length (inode_map s) = 512"
    "length (block_map s) = 16384" "length (inode_buffer s) = 512" "length (dentry_buffer s) = 4096"
    "length (rdata_buffer s) = 4096" "length (wdata_buffer s) = 4096" "length (i_blocks (wd_inode s)) = 10"
  using assms by (simp_all add: fs_ok_def)

lemma dv_length: "fs_ok ops s \<Longrightarrow> length (dv ops s a) = 512"
  using bc_view_length [of ops "bc s" a] by (simp add: fs_ok_def dv_def SECTOR_SIZE_def)

lemma fs_ok_upd [simp]:
  "fs_ok ops (s\<lparr>fs_clk_reads := k\<rparr>) = fs_ok ops s" "fs_ok ops (s\<lparr>fdesc_array := f\<rparr>) = fs_ok ops s"
  "fs_ok ops (s\<lparr>root_ino := r\<rparr>) = fs_ok ops s" "fs_ok ops (s\<lparr>write_back_freq := w\<rparr>) = fs_ok ops s"
  "fs_ok ops (s\<lparr>fs_con := x\<rparr>) = fs_ok ops s"
  "dv ops (s\<lparr>fs_clk_reads := k\<rparr>) = dv ops s" "dv ops (s\<lparr>fdesc_array := f\<rparr>) = dv ops s"
  "dv ops (s\<lparr>root_ino := r\<rparr>) = dv ops s" "dv ops (s\<lparr>write_back_freq := w\<rparr>) = dv ops s"
  "dv ops (s\<lparr>fs_con := x\<rparr>) = dv ops s" "dv ops (s\<lparr>inode_map := b\<rparr>) = dv ops s" "dv ops (s\<lparr>block_map := b\<rparr>) = dv ops s"
  "dv ops (s\<lparr>inode_buffer := b\<rparr>) = dv ops s" "dv ops (s\<lparr>dentry_buffer := b\<rparr>) = dv ops s"
  "dv ops (s\<lparr>rdata_buffer := b\<rparr>) = dv ops s" "dv ops (s\<lparr>wdata_buffer := b\<rparr>) = dv ops s"
  "dv ops (s\<lparr>superblock_buffer := b\<rparr>) = dv ops s" "dv ops (s\<lparr>wd_inode := i\<rparr>) = dv ops s"
  by (simp_all add: fs_ok_def dv_def)

lemma fs_ok_bufs [simp]:
  assumes "fs_ok ops s"
  shows "fs_ok ops (s\<lparr>inode_map := b\<rparr>) \<longleftrightarrow> length b = 512" "fs_ok ops (s\<lparr>block_map := b\<rparr>) \<longleftrightarrow> length b = 16384"
    "fs_ok ops (s\<lparr>inode_buffer := b\<rparr>) \<longleftrightarrow> length b = 512" "fs_ok ops (s\<lparr>dentry_buffer := b\<rparr>) \<longleftrightarrow> length b = 4096"
    "fs_ok ops (s\<lparr>rdata_buffer := b\<rparr>) \<longleftrightarrow> length b = 4096" "fs_ok ops (s\<lparr>wdata_buffer := b\<rparr>) \<longleftrightarrow> length b = 4096"
    "fs_ok ops (s\<lparr>superblock_buffer := b\<rparr>) \<longleftrightarrow> length b = 512"
    "fs_ok ops (s\<lparr>wd_inode := i\<rparr>) \<longleftrightarrow> length (i_blocks i) = 10"
  using assms by (auto simp: fs_ok_def)

text \<open>The state after a read and after a write of \<open>n\<close> sectors at \<open>a\<close>.\<close>

definition rd_st :: "'d sd_ops \<Rightarrow> nat \<Rightarrow> u32 \<Rightarrow> 'd fsst \<Rightarrow> 'd fsst" where
  "rd_st ops n a s = s\<lparr>bc := bread_bc ops n a (bc s)\<rparr>"

definition wr_st :: "'d sd_ops \<Rightarrow> bytes \<Rightarrow> nat \<Rightarrow> u32 \<Rightarrow> 'd fsst \<Rightarrow> 'd fsst" where
  "wr_st ops m n a s = s\<lparr>bc := bwrite_bc ops m n a (bc s)\<rparr>"

lemma rd_st_simps [simp]:
  "fdesc_array (rd_st ops n a s) = fdesc_array s" "superblock_buffer (rd_st ops n a s) = superblock_buffer s"
  "inode_map (rd_st ops n a s) = inode_map s" "block_map (rd_st ops n a s) = block_map s"
  "inode_buffer (rd_st ops n a s) = inode_buffer s" "dentry_buffer (rd_st ops n a s) = dentry_buffer s"
  "rdata_buffer (rd_st ops n a s) = rdata_buffer s" "wdata_buffer (rd_st ops n a s) = wdata_buffer s"
  "wd_inode (rd_st ops n a s) = wd_inode s" "root_ino (rd_st ops n a s) = root_ino s"
  "fs_clk (rd_st ops n a s) = fs_clk s" "fs_clk_reads (rd_st ops n a s) = fs_clk_reads s"
  "fs_con (rd_st ops n a s) = fs_con s"
  by (simp_all add: rd_st_def)

lemma wr_st_simps [simp]:
  "fdesc_array (wr_st ops m n a s) = fdesc_array s" "superblock_buffer (wr_st ops m n a s) = superblock_buffer s"
  "inode_map (wr_st ops m n a s) = inode_map s" "block_map (wr_st ops m n a s) = block_map s"
  "inode_buffer (wr_st ops m n a s) = inode_buffer s" "dentry_buffer (wr_st ops m n a s) = dentry_buffer s"
  "rdata_buffer (wr_st ops m n a s) = rdata_buffer s" "wdata_buffer (wr_st ops m n a s) = wdata_buffer s"
  "wd_inode (wr_st ops m n a s) = wd_inode s" "root_ino (wr_st ops m n a s) = root_ino s"
  "fs_clk (wr_st ops m n a s) = fs_clk s" "fs_clk_reads (wr_st ops m n a s) = fs_clk_reads s"
  "fs_con (wr_st ops m n a s) = fs_con s"
  by (simp_all add: wr_st_def)

lemma rd_st_ok [simp]: "fs_ok ops s \<Longrightarrow> 0 < n \<Longrightarrow> fs_ok ops (rd_st ops n a s)"
  and rd_st_dv [simp]: "fs_ok ops s \<Longrightarrow> 0 < n \<Longrightarrow> dv ops (rd_st ops n a s) = dv ops s"
  using bread_eq(2,3) [of ops "bc s" "replicate SECTOR_SIZE 0" n a] by (simp_all add: fs_ok_def rd_st_def dv_def)

lemma wr_st_ok [simp]: "fs_ok ops s \<Longrightarrow> 512 \<le> length m \<Longrightarrow> n < 2 ^ 32 \<Longrightarrow> fs_ok ops (wr_st ops m n a s)"
  using bwrite_eq(2) [of ops "bc s" m n a] by (simp add: fs_ok_def wr_st_def SECTOR_SIZE_def)

lemma wr_st_dv [simp]: "fs_ok ops s \<Longrightarrow> 512 \<le> length m \<Longrightarrow> n < 2 ^ 32 \<Longrightarrow>
    dv ops (wr_st ops m n a s) b = (if in_run a n b then take 512 m else dv ops s b)"
  using bwrite_eq(3) [of ops "bc s" m n a] fs_okD(1) [of ops s] unfolding wr_st_def dv_def SECTOR_SIZE_def by simp

lemma BLOCK_SECTORS_8 [simp]: "BLOCK_SECTORS = 8"
  by (simp add: BLOCK_SECTORS_def BLOCK_SIZE_def SECTOR_SIZE_def)

lemma bput_0_full: "length x = length m \<Longrightarrow> bput 0 x m = x"
  by (simp add: bput_def)

text \<open>A block read leaves its last sector in the first 512 bytes of the buffer.\<close>

lemma rd_eqs [fs_eval]:
  assumes "fs_ok ops s"
  shows "rd_inode ops a s = Some ((rd_st ops 1 a s)\<lparr>inode_buffer := dv ops s a\<rparr>)"
    "rd_dentry ops a s = Some ((rd_st ops 8 a s)\<lparr>dentry_buffer := bput 0 (dv ops s (a + 7)) (dentry_buffer s)\<rparr>)"
    "0 < n \<Longrightarrow> rd_rdata ops n a s =
      Some ((rd_st ops n a s)\<lparr>rdata_buffer := bput 0 (dv ops s (a + word_of_nat (n - 1))) (rdata_buffer s)\<rparr>)"
    "rd_wdata ops a s = Some ((rd_st ops 8 a s)\<lparr>wdata_buffer := bput 0 (dv ops s (a + 7)) (wdata_buffer s)\<rparr>)"
    "rd_imap ops s = Some ((rd_st ops 1 289 s)\<lparr>inode_map := dv ops s 289\<rparr>)"
    "rd_bmap ops s = Some ((rd_st ops 32 257 s)\<lparr>block_map := bput 0 (dv ops s 288) (block_map s)\<rparr>)"
  using fs_okD [OF assms] dv_length [OF assms]
  by (simp_all del: bread.simps One_nat_def add: rd_inode_def rd_dentry_def rd_rdata_def rd_wdata_def rd_imap_def rd_bmap_def bread_eq(1) rd_st_def
      dv_def SECTOR_SIZE_def bput_0_full INODE_MAP_SIZE_def INODE_MAP_OFFSET_def BLOCK_MAP_SIZE_def BLOCK_MAP_OFFSET_def
      FS_START_SECTOR_def)

lemma wr_eqs [fs_eval]:
  assumes "fs_ok ops s"
  shows "n < 2 ^ 32 \<Longrightarrow> wr_inode ops n a s = Some (wr_st ops (inode_buffer s) n a s)"
    "wr_dentry ops a s = Some (wr_st ops (dentry_buffer s) 8 a s)"
    "wr_rdata ops a s = Some (wr_st ops (rdata_buffer s) 8 a s)"
    "wr_wdata ops a s = Some (wr_st ops (wdata_buffer s) 8 a s)"
    "wr_imap ops s = Some (wr_st ops (inode_map s) 1 289 s)"
    "wr_bmap ops s = Some (wr_st ops (block_map s) 32 257 s)"
  using fs_okD [OF assms]
  by (simp_all del: bwrite.simps One_nat_def add: wr_inode_def wr_dentry_def wr_rdata_def wr_wdata_def wr_imap_def wr_bmap_def bwrite_eq(1) wr_st_def
      SECTOR_SIZE_def INODE_MAP_SIZE_def INODE_MAP_OFFSET_def BLOCK_MAP_SIZE_def BLOCK_MAP_OFFSET_def FS_START_SECTOR_def)

section \<open>Inodes in buffers\<close>

lemma get_u32_bget: "off + 4 \<le> n \<Longrightarrow> get_u32 off (bget o' n b) = get_u32 (o' + off) b"
  by (simp add: get_u32_def bget_bget)

lemma get_u16_bget: "off + 2 \<le> n \<Longrightarrow> get_u16 off (bget o' n b) = get_u16 (o' + off) b"
  by (simp add: get_u16_def bget_bget)

lemma length_concat_u32 [simp]: "length (concat (map u32_bytes xs)) = 4 * length xs"
  by (induction xs) simp_all

lemma length_inode_bytes [simp]: "length (i_blocks i) = 10 \<Longrightarrow> length (inode_bytes i) = 64"
  by (simp add: inode_bytes_def)

text \<open>An inode is read from the 64 bytes of its slot alone.\<close>

lemma inode_at_slot:
  assumes "64 * k + 64 \<le> length b"
  shows "inode_at k b = inode_at 0 (bget (64 * k) 64 b)"
proof -
  have "map (\<lambda>j. get_u32 (64 * k + 24 + 4 * j) b) [0..<10] = map (\<lambda>j. get_u32 (24 + 4 * j) (bget (64 * k) 64 b)) [0..<10]"
    by (rule map_cong) (auto simp: get_u32_bget ac_simps)
  then show ?thesis using assms by (simp add: inode_at_def Let_def get_u32_bget get_u16_bget nth_bget)
qed

lemma get_u32_app: "get_u32 off (u @ v) = get_u32 (off - length u) v" if "length u \<le> off"
  using that by (simp add: get_u32_def bget_def)

lemma get_u32_Cons: "0 < off \<Longrightarrow> get_u32 off (x # v) = get_u32 (off - 1) v"
  using get_u32_app [of "[x]" off v] by simp

lemma get_u32_here: "get_u32 0 (u32_bytes w @ v) = w"
  by (simp add: get_u32_def bget_def)

lemma get_u16_here: "get_u16 0 (u16_bytes w @ v) = w"
  by (simp add: get_u16_def bget_def)

lemma get_u16_app: "get_u16 off (u @ v) = get_u16 (off - length u) v" if "length u \<le> off"
  using that by (simp add: get_u16_def bget_def)

lemma get_u32_concat: "j < length xs \<Longrightarrow> get_u32 (4 * j) (concat (map u32_bytes xs)) = xs ! j"
proof (induction xs arbitrary: j)
  case (Cons x xs)
  then show ?case by (cases j) (auto simp: get_u32_here get_u32_app)
qed simp

lemma inode_at_bytes: "length (i_blocks i) = 10 \<Longrightarrow> inode_at 0 (inode_bytes i) = i"
proof -
  assume l: "length (i_blocks i) = 10"
  let ?h = "[i_mode i, i_type i] @ u16_bytes (i_nlink i) @ u32_bytes (i_ino i) @ u32_bytes (i_size i) @
     u32_bytes (i_atime i) @ u32_bytes (i_mtime i) @ u32_bytes (i_ctime i)"
  have "get_u32 (24 + 4 * j) (inode_bytes i) = i_blocks i ! j" if "j < 10" for j
    using get_u32_app [of ?h "24 + 4 * j" "concat (map u32_bytes (i_blocks i))"] get_u32_concat [of j "i_blocks i"] that l
    by (simp add: inode_bytes_def)
  then have "map (\<lambda>j. get_u32 (24 + 4 * j) (inode_bytes i)) [0..<10] = i_blocks i"
    using l by (intro nth_equalityI) simp_all
  moreover have "inode_bytes i ! 0 = i_mode i" "inode_bytes i ! 1 = i_type i" "get_u16 2 (inode_bytes i) = i_nlink i"
    "get_u32 4 (inode_bytes i) = i_ino i" "get_u32 8 (inode_bytes i) = i_size i" "get_u32 12 (inode_bytes i) = i_atime i"
    "get_u32 16 (inode_bytes i) = i_mtime i" "get_u32 20 (inode_bytes i) = i_ctime i"
    using get_u16_app [of "[i_mode i, i_type i]"]
    by (simp_all add: inode_bytes_def get_u16_here get_u32_here get_u32_Cons get_u32_app)
  ultimately show ?thesis by (simp add: inode_at_def numeral_2_eq_2)
qed

lemma set_inode_length [simp]:
  "64 * k + 64 \<le> length b \<Longrightarrow> length (i_blocks i) = 10 \<Longrightarrow> length (set_inode k i b) = length b"
  by (simp add: set_inode_def)

lemma inode_at_set [fs_eval]:
  assumes "64 * k + 64 \<le> length b" "length (i_blocks i) = 10"
  shows "inode_at k (set_inode k i b) = i"
  using assms inode_at_slot [of k "set_inode k i b"] by (simp add: inode_at_bytes set_inode_def slice_simps)

lemma inode_at_set_other [fs_eval]:
  assumes "64 * k + 64 \<le> length b" "64 * k' + 64 \<le> length b" "length (i_blocks i) = 10" "k' \<noteq> k"
  shows "inode_at k' (set_inode k i b) = inode_at k' b"
proof -
  have "bget (64 * k') 64 (bput (64 * k) (inode_bytes i) b) = bget (64 * k') 64 b"
    using assms by (intro bget_bput_other) auto
  then show ?thesis using assms inode_at_slot [of k' "set_inode k i b"] inode_at_slot [of k' b] by (simp add: set_inode_def)
qed

lemma inode_at_blocks [simp]: "length (i_blocks (inode_at k b)) = 10"
  by (simp add: inode_at_def Let_def)

section \<open>Directory entries in buffers\<close>

text \<open>The name in entry \<open>j\<close> of a directory buffer, when it is terminated within its 27 bytes.\<close>

definition dname :: "nat \<Rightarrow> bytes \<Rightarrow> bytes option" where
  "dname j b = cstr (bget (32 * j) 27 b)"

definition dir_ok :: "bytes \<Rightarrow> bool" where
  "dir_ok b \<longleftrightarrow> length b = 4096 \<and> (\<forall>j < 128. dname j b \<noteq> None)"

lemma cstr_take: "cstr (take n bs) = Some x \<longleftrightarrow> cstr bs = Some x \<and> length x < n"
proof (induction bs arbitrary: n x)
  case (Cons b bs)
  show ?case
  proof (cases n)
    case (Suc m)
    show ?thesis
    proof (cases "b = 0")
      case False
      then show ?thesis using Suc Cons.IH [of m] by auto
    qed (auto simp: Suc)
  qed simp
qed simp

lemma dname_name: "dname j b = Some x \<Longrightarrow> cstr (dentry_name j b) = Some x"
  by (simp add: dname_def dentry_name_def bget_def cstr_take)

lemma dname_empty:
  assumes "dname j b = Some x"
  shows "hd (dentry_name j b) = 0 \<longleftrightarrow> x = []"
proof -
  obtain ys where "dentry_name j b = x @ 0 # ys" "0 \<notin> set x" using cstr_decomp [OF dname_name [OF assms]] by auto
  then show ?thesis by (cases x) auto
qed

lemma DENTRIES_128 [simp]: "DENTRIES = 128"
  by (simp add: DENTRIES_def BLOCK_SIZE_def)

text \<open>The search of \<^verbatim>\<open>find_inode\<close> finds the first entry of that name.\<close>

lemma dir_find_eq:
  assumes "cstr name = Some x" "\<forall>j \<in> set js. dname j b \<noteq> None"
  shows "dir_find b name js = Some (find (\<lambda>j. dname j b = Some x) js)"
  using assms(2)
proof (induction js)
  case (Cons j js)
  then obtain y where y: "dname j b = Some y" by auto
  have "strcmp (dentry_name j b) name = Some 0 \<longleftrightarrow> y = x"
    using strcmp_eq_0 [OF dname_name [OF y] assms(1)] .
  moreover obtain r where "strcmp (dentry_name j b) name = Some r"
    using strcmp_lex3 [OF dname_name [OF y] assms(1)] by simp
  ultimately show ?case using Cons y by auto
qed simp

lemma dir_find_dir [fs_eval]:
  "dir_ok b \<Longrightarrow> cstr name = Some x \<Longrightarrow> dir_find b name [0..<DENTRIES] = Some (first_idx (\<lambda>j. dname j b = Some x) 128)"
  by (subst dir_find_eq) (auto simp: dir_ok_def first_idx_def)

lemma list_update_bput: "k < length b \<Longrightarrow> b[k := v] = bput k [v] b"
  by (simp add: bput_def upd_conv_take_nth_drop)

text \<open>Filling an entry changes that entry alone.\<close>

lemma set_dentry_eq:
  assumes "j < 128" "length b = 4096" "cstr name = Some x" "length x < 27"
  shows "set_dentry j name ino ty b =
    Some (bput (32 * j + 27) [ty] (bput (32 * j + 28) (u32_bytes ino) (bput (32 * j) (x @ [0]) b)))"
proof -
  have "take (32 * j) b @ x @ 0 # drop (Suc (length x) + 32 * j) b = bput (32 * j) (x @ [0]) b"
    using assms by (simp add: bput_def ac_simps)
  moreover have "strcpy (dentry_name j b) name = Some (x @ 0 # drop (Suc (length x)) (dentry_name j b))"
    using assms by (intro strcpy_eq) (simp_all add: dentry_name_def)
  ultimately show ?thesis
    using assms by (simp add: set_dentry_def dentry_name_def put_u32_def list_update_bput)
qed

lemma slot_disjoint:
  "i \<noteq> j \<Longrightarrow> a + n \<le> 32 \<Longrightarrow> b + m \<le> 32 \<Longrightarrow> 32 * i + a + n \<le> 32 * j + b \<or> 32 * j + b + m \<le> 32 * i + (a :: nat)"
  by (cases "i < j") auto

lemma field_disjoint: "a + n \<le> b \<or> b + m \<le> a \<Longrightarrow> a + n \<le> 32 \<Longrightarrow> b + m \<le> 32 \<Longrightarrow>
    32 * i + a + n \<le> 32 * j + b \<or> 32 * j + b + m \<le> 32 * i + (a :: nat)"
  using slot_disjoint [of i j a n b m] by (cases "i = j") auto

lemma set_dentry_spec:
  assumes "j < 128" "dir_ok b" "cstr name = Some x" "length x < 27"
  obtains b' where "set_dentry j name ino ty b = Some b'" "dir_ok b'"
    "\<forall>i < 128. dname i b' = (if i = j then Some x else dname i b)"
    "\<forall>i < 128. dentry_ino i b' = (if i = j then ino else dentry_ino i b)"
    "\<forall>i < 128. dentry_type i b' = (if i = j then ty else dentry_type i b)"
    "j < 16 \<longrightarrow> drop 512 b' = drop 512 b" "16 \<le> j \<longrightarrow> take 512 b' = take 512 b"
proof
  let ?b1 = "bput (32 * j) (x @ [0]) b"
  let ?b2 = "bput (32 * j + 28) (u32_bytes ino) ?b1"
  let ?b' = "bput (32 * j + 27) [ty] ?b2"
  have l: "length b = 4096" using assms by (simp add: dir_ok_def)
  then have l1: "length ?b1 = 4096" "length ?b2 = 4096" "length ?b' = 4096" using assms by simp_all
  show "set_dentry j name ino ty b = Some ?b'" by (rule set_dentry_eq [OF assms(1) l assms(3,4)])
  have nm: "bget (32 * i) 27 ?b' = bget (32 * i) 27 ?b1" if "i < 128" for i
  proof -
    have "bget (32 * i) 27 ?b' = bget (32 * i) 27 ?b2"
      using l1 assms(1) field_disjoint [of 0 27 27 1 i j] by (intro bget_bput_other) simp_all
    also have "\<dots> = bget (32 * i) 27 ?b1"
      using l1 assms(1) field_disjoint [of 0 27 28 4 i j] by (intro bget_bput_other) simp_all
    finally show ?thesis .
  qed
  have oth: "bget (32 * i) 27 ?b1 = bget (32 * i) 27 b" if "i < 128" "i \<noteq> j" for i
    using that l assms slot_disjoint [of i j 0 27 0 "length (x @ [0])"] by (intro bget_bput_other) simp_all
  have "0 \<notin> set x" using cstr_decomp [OF assms(3)] by auto
  moreover have "bget (32 * j) 27 ?b1 = x @ 0 # take (26 - length x) (drop (Suc (32 * j + length x)) b)"
    using l assms by (simp add: bget_def bput_def ac_simps take_Cons')
  ultimately have same: "cstr (bget (32 * j) 27 ?b1) = Some x" by simp
  show dn: "\<forall>i < 128. dname i ?b' = (if i = j then Some x else dname i b)"
    using nm oth same by (simp add: dname_def)
  show "dir_ok ?b'" using dn l1 assms(2) by (simp add: dir_ok_def)
  show "\<forall>i < 128. dentry_ino i ?b' = (if i = j then ino else dentry_ino i b)"
  proof (intro allI impI)
    fix i :: nat assume i: "i < 128"
    have "bget (32 * i + 28) 4 ?b' = bget (32 * i + 28) 4 ?b2"
      using l1 assms(1) field_disjoint [of 28 4 27 1 i j] by (intro bget_bput_other) simp_all
    moreover have "bget (32 * j + 28) 4 ?b2 = u32_bytes ino" using l1 assms(1) by (intro bget_bput_same) simp_all
    moreover have "bget (32 * i + 28) 4 ?b2 = bget (32 * i + 28) 4 b" if "i \<noteq> j"
    proof -
      have "bget (32 * i + 28) 4 ?b2 = bget (32 * i + 28) 4 ?b1" 
        using l1 assms(1) that slot_disjoint [of i j 28 4 28 4] by (intro bget_bput_other) simp_all
      also have "\<dots> = bget (32 * i + 28) 4 b" 
        using l assms that slot_disjoint [of i j 28 4 0 "length (x @ [0])"] by (intro bget_bput_other) simp_all
      finally show ?thesis .
    qed
    ultimately show "dentry_ino i ?b' = (if i = j then ino else dentry_ino i b)" by (simp add: dentry_ino_def get_u32_def)
  qed
  show "\<forall>i < 128. dentry_type i ?b' = (if i = j then ty else dentry_type i b)"
    using l l1 assms by (auto simp: dentry_type_def nth_bput)
  show "j < 16 \<longrightarrow> drop 512 ?b' = drop 512 b" "16 \<le> j \<longrightarrow> take 512 ?b' = take 512 b"
    using l l1 assms by (auto intro!: nth_equalityI simp: nth_bput)
qed

section \<open>The layout of the disk\<close>

lemma rounddown_div: "ROUNDDOWN a 512 div 512 = a div 512"
proof -
  have m: "(511 :: u64) = mask 9" by (simp add: mask_eq_exp_minus_1)
  have d: "x div 512 = drop_bit 9 x" for x :: u64 by (simp add: drop_bit_eq_div)
  have "drop_bit 9 (a AND NOT (mask 9)) = drop_bit 9 a" by (rule bit_word_eqI) (auto simp: bit_simps dest: bit_imp_le_length)
  then show ?thesis by (simp add: ROUNDDOWN_def m d)
qed

lemma inodeidx2sector_unat:
  assumes "unat i < 4096"
  shows "inodeidx2sector i = word_of_nat (290 + unat i div 8)"
proof -
  have u: "unat (ucast i * 64 :: u64) = unat i * 64"
    using assms unat_bounds(3) [of i]
    by (simp add: unat_word_ariths unsigned_ucast_eq take_bit_nat_eq_self del: unat_bounds)
  have "unat ((ucast i * 64 :: u64) div 512) = unat i div 8"
    by (simp add: unat_div u)
  then have "word_of_nat (unat ((ucast i * 64 :: u64) div 512)) = (word_of_nat (unat i div 8) :: u64)" by (rule arg_cong)
  then have "(ucast i * 64 :: u64) div 512 = word_of_nat (unat i div 8)" by simp
  moreover have "ucast (290 + word_of_nat (unat i div 8) :: u64) = (290 + word_of_nat (unat i div 8) :: u32)"
    using assms by (intro word_unat_eq_iff [THEN iffD2]) (simp add: unsigned_ucast_eq unat_word_ariths unat_of_nat take_bit_eq_mod)
  ultimately show ?thesis
    by (simp add: inodeidx2sector_def rounddown_div FS_START_SECTOR_def INODE_OFFSET_def INODE_MAP_OFFSET_def
        BLOCK_MAP_OFFSET_def BLOCK_MAP_SIZE_def INODE_MAP_SIZE_def)
qed

lemma inodeidx2offset_eq: "inodeidx2offset i = unat i mod 8"
  by (simp add: inodeidx2offset_def SECTOR_SIZE_def)

lemma layout_simps [simp]:
  "INODE_MAP_OFFSET + FS_START_SECTOR = 289" "BLOCK_MAP_OFFSET + FS_START_SECTOR = 257"
  "DATA_OFFSET + FS_START_SECTOR = 802" "unat (SECTOR2BLOCK DATA_SIZE) = 131003"
  by (simp_all add: INODE_MAP_OFFSET_def BLOCK_MAP_OFFSET_def FS_START_SECTOR_def BLOCK_MAP_SIZE_def DATA_OFFSET_def
      INODE_OFFSET_def INODE_SIZE_def INODE_MAP_SIZE_def SECTOR2BLOCK_def DATA_SIZE_def FS_NUM_SECTORS_def unat_div)

section \<open>Free inodes and blocks\<close>

lemma in_run_unat: "unat a + n \<le> 2 ^ 32 \<Longrightarrow> in_run a n b \<longleftrightarrow> unat a \<le> unat b \<and> unat b < unat a + n"
  using unat_bounds(3) [of b] by (auto simp: in_run_def unat_sub_if_size word_size simp del: unat_bounds)

lemma in_run_1 [simp]: "in_run a (Suc 0) b \<longleftrightarrow> b = a"
  by (simp add: in_run_def unsigned_eq_0_iff)

lemma bytes_loop_all: "bytes_loop (\<lambda>_. False) bm 0 = first_idx (\<lambda>i. \<not> bit_at bm i) (8 * length bm)"
proof -
  have "bytes_loop (\<lambda>_. False) bm 0 = bytes_loop (\<lambda>i. i \<ge> 8 * length bm) bm 0"
    by (rule bytes_loop_cong) simp
  then show ?thesis using bytes_loop_eq [of "8 * length bm" 0 bm] by (simp add: first_idx_def)
qed

lemma bytes_loop_upto: "n \<le> 8 * length bm \<Longrightarrow> bytes_loop (\<lambda>i. i \<ge> n) bm 0 = first_idx (\<lambda>i. \<not> bit_at bm i) n"
  using bytes_loop_eq [of n 0 bm] by (simp add: first_idx_def)

text \<open>The least free inode number is marked in the bitmap on the disk; nothing else on the disk changes.\<close>

lemma find_free_inode_spec:
  assumes "fs_ok ops s" "first_idx (\<lambda>i. \<not> bit_at (dv ops s 289) i) 4096 = Some i"
  obtains c m where "find_free_inode ops s = Some (word_of_nat i, s\<lparr>bc := c, inode_map := m\<rparr>)" "bc_ok ops c"
    "length m = 512" "\<forall>j. bit_at m j \<longleftrightarrow> j = i \<or> bit_at (dv ops s 289) j"
    "bc_view ops c = (dv ops s)(289 := m)"
proof -
  let ?s1 = "(rd_st ops 1 289 s)\<lparr>inode_map := dv ops s 289\<rparr>"
  have l: "length (dv ops s 289) = 512" by (rule dv_length [OF assms(1)])
  have i: "i < 4096" using assms(2) by (simp add: first_idx_Some_iff)
  then obtain m where m: "mark_page_allocated i (dv ops s 289) = Some m" using pages.mark_ok [of i "dv ops s 289"] l by auto
  note mb = mark_bit_at [OF m]
  have ok: "fs_ok ops (?s1\<lparr>inode_map := m\<rparr>)" using assms(1) mb l by simp
  have "find_free_inode ops s = Some (word_of_nat i, wr_st ops m 1 289 (?s1\<lparr>inode_map := m\<rparr>))"
    using assms l m ok by (simp add: find_free_inode_def rd_eqs wr_eqs bytes_loop_all)
  moreover have "wr_st ops m 1 289 (?s1\<lparr>inode_map := m\<rparr>) = s\<lparr>bc := bwrite_bc ops m 1 289 (bread_bc ops 1 289 (bc s)), inode_map := m\<rparr>"
    by (simp add: wr_st_def rd_st_def)
  moreover have "bc_ok ops (bwrite_bc ops m 1 289 (bread_bc ops 1 289 (bc s)))"
    using wr_st_ok [OF ok, of m 1 289] mb l by (simp add: fs_ok_def wr_st_def rd_st_def)
  moreover have "dv ops (wr_st ops m 1 289 (?s1\<lparr>inode_map := m\<rparr>)) = (dv ops s)(289 := m)"
    using ok mb l assms(1) by (auto simp: fun_eq_iff)
  then have "bc_view ops (bwrite_bc ops m 1 289 (bread_bc ops 1 289 (bc s))) = (dv ops s)(289 := m)"
    by (simp add: dv_def wr_st_def rd_st_def)
  ultimately show ?thesis using that mb l by simp
qed

lemma find_free_inode_full:
  assumes "fs_ok ops s" "first_idx (\<lambda>i. \<not> bit_at (dv ops s 289) i) 4096 = None"
  shows "find_free_inode ops s = Some (- 1, (rd_st ops 1 289 s)\<lparr>inode_map := dv ops s 289\<rparr>)"
  using assms dv_length [OF assms(1)] by (simp add: find_free_inode_def rd_eqs bytes_loop_all)

text \<open>
  The block bitmap as \<^verbatim>\<open>find_free_block\<close> scans it: the 512 bytes that reach the disk, then what the
  static array holds. The sector of block \<open>i\<close> is \<open>data_sec i\<close>.
\<close>

definition bmap_view :: "'d sd_ops \<Rightarrow> 'd fsst \<Rightarrow> bytes" where
  "bmap_view ops s = bput 0 (dv ops s 288) (block_map s)"

definition data_sec :: "nat \<Rightarrow> u32" where
  "data_sec i = word_of_nat (8 * i + 802)"

lemma bmap_view_length [simp]: "fs_ok ops s \<Longrightarrow> length (bmap_view ops s) = 16384"
  using dv_length [of ops s] by (simp add: bmap_view_def fs_ok_def)

lemma unat_data_sec: "i < 131003 \<Longrightarrow> unat (data_sec i) = 8 * i + 802"
  unfolding data_sec_def by (subst unat_of_nat) simp

lemma data_sec_run: "i < 131003 \<Longrightarrow> in_run (data_sec i) 8 b \<longleftrightarrow> 8 * i + 802 \<le> unat b \<and> unat b < 8 * i + 810"
  using in_run_unat [of "data_sec i" 8 b] by (simp add: unat_data_sec add.commute)

lemma find_free_block_spec:
  assumes ok: "fs_ok ops s" and i: "first_idx (\<lambda>i. \<not> bit_at (bmap_view ops s) i) 131003 = Some i"
  obtains c m where
    "find_free_block ops s = Some (data_sec i, s\<lparr>bc := c, block_map := m, rdata_buffer := replicate 4096 0\<rparr>)" "bc_ok ops c"
    "length m = 16384" "\<forall>j. bit_at m j \<longleftrightarrow> j = i \<or> bit_at (bmap_view ops s) j"
    "\<forall>b. bc_view ops c b = (if in_run (data_sec i) 8 b then replicate 512 0 else if in_run 257 32 b then take 512 m else dv ops s b)"
proof -
  let ?B = "bmap_view ops s" and ?Z = "replicate 4096 0"
  let ?s1 = "(rd_st ops 32 257 s)\<lparr>block_map := ?B\<rparr>"
  have "i < 131003" using i by (simp add: first_idx_Some_iff)
  then obtain m where m: "mark_page_allocated i ?B = Some m" using pages.mark_ok [of i ?B] ok by auto
  have lm: "length m = 16384" using mark_bit_at(1) [OF m] ok by simp
  let ?s2 = "wr_st ops m 32 257 (?s1\<lparr>block_map := m\<rparr>)"
  let ?s3 = "wr_st ops ?Z 8 (data_sec i) (?s2\<lparr>rdata_buffer := ?Z\<rparr>)"
  have ok1: "fs_ok ops (?s1\<lparr>block_map := m\<rparr>)" using ok lm by simp
  then have ok2: "fs_ok ops ?s2" "fs_ok ops (?s2\<lparr>rdata_buffer := ?Z\<rparr>)" using lm by simp_all
  have bs: "BLOCK2SECTOR (word_of_nat i) + DATA_OFFSET + FS_START_SECTOR = data_sec i"
    using layout_simps(3) by (simp add: data_sec_def BLOCK2SECTOR_def add.assoc mult.commute del: layout_simps)
  have rd: "rd_bmap ops s = Some ?s1" using rd_eqs(6) [OF ok] by (simp add: bmap_view_def)
  have wr: "wr_bmap ops (?s1\<lparr>block_map := m\<rparr>) = Some ?s2" using wr_eqs(6) [OF ok1] by simp
  have z: "bzero (rdata_buffer ?s2) BLOCK_SIZE = Some ?Z" using fs_okD(7) [OF ok] by (simp add: bzero_eq BLOCK_SIZE_def)
  have wr2: "wr_rdata ops (data_sec i) (?s2\<lparr>rdata_buffer := ?Z\<rparr>) = Some ?s3" using wr_eqs(3) [OF ok2(2)] by simp
  have "find_free_block ops s = Some (data_sec i, ?s3)"
    using i rd wr z wr2 m ok bs by (simp add: find_free_block_def bytes_loop_upto Let_def)
  moreover have "?s3 = s\<lparr>bc := bc ?s3, block_map := m, rdata_buffer := ?Z\<rparr>" by (simp add: wr_st_def rd_st_def)
  moreover have "bc_ok ops (bc ?s3)" using wr_st_ok [OF ok2(2), of ?Z 8 "data_sec i"] fs_okD(1) by simp
  moreover have "dv ops ?s3 b = (if in_run (data_sec i) 8 b then replicate 512 0 else if in_run 257 32 b then take 512 m else dv ops s b)" for b
    using ok ok1 ok2 lm by simp
  ultimately show ?thesis using that [of m "bc ?s3"] lm mark_bit_at(2) [OF m] by (simp add: dv_def)
qed

lemma inode_sector_unat: "unat n < 4096 \<Longrightarrow> unat (inodeidx2sector n) = 290 + unat n div 8"
  by (simp add: inodeidx2sector_unat unat_word_ariths unat_of_nat)

text \<open>The bitmap, the inodes and the data blocks do not overlap.\<close>

lemma sectors_disjoint:
  assumes "unat n < 4096"
  shows "inodeidx2sector n \<noteq> 289" "i < 131003 \<Longrightarrow> \<not> in_run (data_sec i) 8 (inodeidx2sector n)"
    "\<not> in_run 257 32 (inodeidx2sector n)" "i < 131003 \<Longrightarrow> \<not> in_run (data_sec i) 8 289"
proof -
  note u = inode_sector_unat [OF assms]
  show "inodeidx2sector n \<noteq> 289" using u by auto
  show "\<not> in_run (data_sec i) 8 (inodeidx2sector n)" if "i < 131003" using u data_sec_run [OF that] assms by auto
  show "\<not> in_run 257 32 (inodeidx2sector n)" using u in_run_unat [of 257 32 "inodeidx2sector n"] by simp
  show "\<not> in_run (data_sec i) 8 289" if "i < 131003" using data_sec_run [OF that, of 289] by simp
qed

section \<open>Routine steps\<close>

text \<open>Disks after storing an inode and after writing one sector's contents over a run of sectors.\<close>

type_synonym disk = "u32 \<Rightarrow> bytes"

definition put_inode :: "u32 \<Rightarrow> inode_t \<Rightarrow> disk \<Rightarrow> disk" where
  "put_inode n i d = d(inodeidx2sector n := set_inode (inodeidx2offset n) i (d (inodeidx2sector n)))"

definition put_run :: "u32 \<Rightarrow> nat \<Rightarrow> bytes \<Rightarrow> disk \<Rightarrow> disk" where
  "put_run a n x d = (\<lambda>b. if in_run a n b then x else d b)"

definition inode_of :: "disk \<Rightarrow> u32 \<Rightarrow> inode_t" where
  "inode_of d n = inode_at (inodeidx2offset n) (d (inodeidx2sector n))"

lemma fs_ok_bc [simp]: "fs_ok ops s \<Longrightarrow> bc_ok ops c \<Longrightarrow> fs_ok ops (s\<lparr>bc := c\<rparr>)"
  by (simp add: fs_ok_def)

lemma dv_bc [simp]: "dv ops (s\<lparr>bc := c\<rparr>) = bc_view ops c"
  by (simp add: dv_def)

lemma rd_dentry_spec:
  assumes "fs_ok ops s"
  obtains c where "rd_dentry ops a s = Some (s\<lparr>bc := c, dentry_buffer := dv ops s (a + 7) @ drop 512 (dentry_buffer s)\<rparr>)"
    "bc_ok ops c" "bc_view ops c = dv ops s"
proof -
  have "bput 0 (dv ops s (a + 7)) (dentry_buffer s) = dv ops s (a + 7) @ drop 512 (dentry_buffer s)"
    using dv_length [OF assms] by (simp add: bput_def)
  then show ?thesis
    using that [of "bread_bc ops 8 a (bc s)"] rd_eqs(2) [OF assms, of a] rd_st_ok [OF assms, of 8 a] rd_st_dv [OF assms, of 8 a]
    by (simp add: rd_st_def fs_ok_def)
qed

lemma wr_dentry_spec:
  assumes "fs_ok ops s"
  obtains c where "wr_dentry ops a s = Some (s\<lparr>bc := c\<rparr>)" "bc_ok ops c"
    "bc_view ops c = put_run a 8 (take 512 (dentry_buffer s)) (dv ops s)"
  using that [of "bwrite_bc ops (dentry_buffer s) 8 a (bc s)"] wr_eqs(2) [OF assms, of a]
    wr_st_ok [OF assms, of "dentry_buffer s" 8 a] wr_st_dv [OF assms, of "dentry_buffer s" 8 a] fs_okD(6) [OF assms]
  by (simp add: wr_st_def fs_ok_def put_run_def fun_eq_iff)

lemma offset_less [simp]: "inodeidx2offset n < 8"
  by (simp add: inodeidx2offset_eq)

lemma offset_le [simp]: "inodeidx2offset n \<le> 7"
  using offset_less [of n] by linarith

text \<open>Reading the sector of an inode, replacing the inode and writing the sector back.\<close>

lemma modify_inode_spec:
  assumes ok: "fs_ok ops s" and i: "length (i_blocks i) = 10"
  obtains c where "rd_inode ops (inodeidx2sector n) s = Some ((rd_st ops 1 (inodeidx2sector n) s)\<lparr>inode_buffer := dv ops s (inodeidx2sector n)\<rparr>)"
    "wr_inode ops 1 (inodeidx2sector n) ((rd_st ops 1 (inodeidx2sector n) s)\<lparr>fs_clk_reads := r, inode_buffer :=
       set_inode (inodeidx2offset n) i (dv ops s (inodeidx2sector n))\<rparr>) =
       Some (s\<lparr>bc := c, inode_buffer := set_inode (inodeidx2offset n) i (dv ops s (inodeidx2sector n)), fs_clk_reads := r\<rparr>)"
    "bc_ok ops c" "bc_view ops c = put_inode n i (dv ops s)"
proof -
  let ?a = "inodeidx2sector n"
  let ?I = "set_inode (inodeidx2offset n) i (dv ops s ?a)"
  let ?s1 = "(rd_st ops 1 ?a s)\<lparr>fs_clk_reads := r, inode_buffer := ?I\<rparr>"
  have l: "length (dv ops s ?a) = 512" by (rule dv_length [OF ok])
  moreover have "64 * inodeidx2offset n + 64 \<le> 512" using offset_less [of n] by linarith
  ultimately have lI: "length ?I = 512" using i by simp
  have rd: "rd_inode ops ?a s = Some ((rd_st ops 1 ?a s)\<lparr>inode_buffer := dv ops s ?a\<rparr>)" by (rule rd_eqs(1) [OF ok])
  have ok1: "fs_ok ops ?s1" using ok lI by simp
  have wr: "wr_inode ops 1 ?a ?s1 = Some (wr_st ops ?I 1 ?a ?s1)" using wr_eqs(1) [OF ok1, of 1 ?a] by simp
  have "dv ops (wr_st ops ?I 1 ?a ?s1) = (dv ops s)(?a := ?I)" using ok ok1 lI by (simp add: fun_eq_iff)
  moreover have "fs_ok ops (wr_st ops ?I 1 ?a ?s1)" using ok1 lI by simp
  moreover have "wr_st ops ?I 1 ?a ?s1 = s\<lparr>bc := bc (wr_st ops ?I 1 ?a ?s1), inode_buffer := ?I, fs_clk_reads := r\<rparr>"
    by (simp add: wr_st_def rd_st_def)
  ultimately show ?thesis using that [OF rd, of "bc (wr_st ops ?I 1 ?a ?s1)"] wr by (simp add: dv_def fs_ok_def put_inode_def)
qed

lemma store_inode_spec:
  assumes ok: "fs_ok ops s" and i: "length (i_blocks i) = 10"
  obtains c where
    "store_inode ops n i s = Some (s\<lparr>bc := c, inode_buffer := set_inode (inodeidx2offset n) i (dv ops s (inodeidx2sector n))\<rparr>)"
    "bc_ok ops c" "bc_view ops c = put_inode n i (dv ops s)"
proof -
  let ?a = "inodeidx2sector n"
  let ?I = "set_inode (inodeidx2offset n) i (dv ops s ?a)"
  obtain c where c: "rd_inode ops ?a s = Some ((rd_st ops 1 ?a s)\<lparr>inode_buffer := dv ops s ?a\<rparr>)"
    "wr_inode ops 1 ?a ((rd_st ops 1 ?a s)\<lparr>fs_clk_reads := fs_clk_reads s, inode_buffer := ?I\<rparr>) =
       Some (s\<lparr>bc := c, inode_buffer := ?I, fs_clk_reads := fs_clk_reads s\<rparr>)"
    "bc_ok ops c" "bc_view ops c = put_inode n i (dv ops s)"
    using modify_inode_spec [OF ok i] .
  have e: "(rd_st ops 1 ?a s)\<lparr>fs_clk_reads := fs_clk_reads s, inode_buffer := ?I\<rparr> = (rd_st ops 1 ?a s)\<lparr>inode_buffer := ?I\<rparr>"
    by (simp add: rd_st_def)
  show ?thesis using that [of c] c unfolding e by (simp add: store_inode_def)
qed

lemma put_run_simps: "in_run a n b \<Longrightarrow> put_run a n x d b = x" "\<not> in_run a n b \<Longrightarrow> put_run a n x d b = d b"
  by (simp_all add: put_run_def)

lemma put_inode_other: "b \<noteq> inodeidx2sector n \<Longrightarrow> put_inode n i d b = d b"
  by (simp add: put_inode_def)

lemma put_inode_length: "length (i_blocks i) = 10 \<Longrightarrow> \<forall>a. length (d a) = 512 \<Longrightarrow> length (put_inode n i d a) = 512"
  by (simp add: put_inode_def)

lemma inode_of_put:
  assumes "length (i_blocks i) = 10" "\<forall>a. length (d a) = 512"
  shows "inode_of (put_inode n i d) n = i"
  using assms by (simp add: inode_of_def put_inode_def inode_at_set)

lemma inode_of_put_other:
  assumes "length (i_blocks i) = 10" "\<forall>a. length (d a) = 512" "unat n < 4096" "unat n' < 4096" "n \<noteq> n'"
  shows "inode_of (put_inode n i d) n' = inode_of d n'"
proof (cases "inodeidx2sector n' = inodeidx2sector n")
  case True
  then have "unat n' div 8 = unat n div 8" using inode_sector_unat assms(3,4) by (metis add_left_cancel)
  moreover have "unat n' \<noteq> unat n" using assms(5) by (simp add: word_unat_eq_iff)
  ultimately have "unat n' mod 8 \<noteq> unat n mod 8" by (metis div_mult_mod_eq)
  then show ?thesis using True assms by (simp add: inode_of_def put_inode_def inode_at_set_other inodeidx2offset_eq)
qed (simp add: inode_of_def put_inode_def)

lemma inode_of_run:
  "k < 131003 \<Longrightarrow> unat n < 4096 \<Longrightarrow> inode_of (put_run (data_sec k) 8 x d) n = inode_of d n"
  using sectors_disjoint(2) [of n k] by (simp add: inode_of_def put_run_simps)

lemma inode_of_imap: "unat n < 4096 \<Longrightarrow> inode_of (d(289 := m)) n = inode_of d n"
  using sectors_disjoint(1) [of n] by (simp add: inode_of_def)

lemma data_put_inode: "k < 131003 \<Longrightarrow> unat n < 4096 \<Longrightarrow> in_run (data_sec k) 8 b \<Longrightarrow> put_inode n i d b = d b"
  using sectors_disjoint(2) [of n k] by (auto simp: put_inode_def)

lemma imap_put_inode: "unat n < 4096 \<Longrightarrow> put_inode n i d 289 = d 289"
  using sectors_disjoint(1) [of n] by (auto simp: put_inode_def)

lemma in_data_run [simp]: "in_run a 8 (a + 7)"
  by (simp add: in_run_def)

end
