(* ===== verification/FsDir.thy ===== *)
theory FsDir
  imports FsSpec
begin

text \<open>
  Directories of src/kernel/fs/fs.c: path lookup is a walk over the directories on the disk, and the
  routines that create files and directories make them visible to that walk.
\<close>

section \<open>Splitting paths\<close>

text \<open>The components of a path, and the three of them that \<^verbatim>\<open>parse_path\<close> looks at.\<close>

fun split_path :: "bytes \<Rightarrow> bytes list" where
  "split_path [] = [[]]"
| "split_path (c # cs) = (if c = 47 then [] # split_path cs
     else (case split_path cs of [] \<Rightarrow> [[c]] | x # xs \<Rightarrow> (c # x) # xs))"

definition path_comps :: "bytes \<Rightarrow> bytes list" where
  "path_comps p = take 3 (split_path p)"

lemma copy_until_eq:
  assumes "\<forall>y \<in> set x. \<not> stop y" "stop c" "i + length x < length d"
  shows "copy_until stop (x @ c # r) d i = Some (take i d @ x @ 0 # drop (Suc (i + length x)) d, c # r)"
  using assms
proof (induction x arbitrary: i d)
  case Nil
  then show ?case by (simp add: upd_conv_take_nth_drop)
next
  case (Cons y x)
  then have "copy_until stop (x @ c # r) (d[i := y]) (Suc i) =
      Some (take (Suc i) (d[i := y]) @ x @ 0 # drop (Suc (Suc i + length x)) (d[i := y]), c # r)"
    by (intro Cons.IH) auto
  moreover have "take (Suc i) (d[i := y]) = take i d @ [y]" using Cons.prems by (simp add: take_Suc_conv_app_nth)
  ultimately show ?case using Cons.prems by simp
qed

lemma copy_until_overflow:
  "\<forall>y \<in> set x. \<not> stop y \<Longrightarrow> length d \<le> i + length x \<Longrightarrow> copy_until stop (x @ c # r) d i = None"
proof (induction x arbitrary: i d)
  case (Cons y x)
  then have "copy_until stop (x @ c # r) (d[i := y]) (Suc i) = None" by (intro Cons.IH) auto
  then show ?case using Cons.prems by simp
qed simp

text \<open>A name array after a component was copied to its start.\<close>

definition name_arr :: "bytes \<Rightarrow> bytes \<Rightarrow> bytes" where
  "name_arr x d = x @ 0 # drop (Suc (length x)) d"

lemma name_arr_cstr: "0 \<notin> set x \<Longrightarrow> cstr (name_arr x d) = Some x"
  by (simp add: name_arr_def)

lemma name_arr_hd: "0 \<notin> set x \<Longrightarrow> name_arr x d ! 0 = 0 \<longleftrightarrow> x = []"
  by (cases x) (auto simp: name_arr_def)

lemma copy_comp_eq:
  assumes "47 \<notin> set x" "0 \<notin> set x" "c = 47 \<or> c = 0"
  shows "copy_comp (x @ c # r) d = (if length x < length d then Some (name_arr x d, c # r) else None)"
proof -
  have "\<forall>y \<in> set x. \<not> (y = 47 \<or> y = 0)" using assms by auto
  then show ?thesis
    using assms(3) copy_until_eq [of x "\<lambda>c. c = 47 \<or> c = 0" c 0 d r] copy_until_overflow [of x "\<lambda>c. c = 47 \<or> c = 0" d 0 c r]
    by (simp add: copy_comp_def name_arr_def)
qed

lemma split_path_Nil [simp]: "split_path p \<noteq> []"
  by (cases p) (auto split: list.splits)

lemma split_path_plain: "47 \<notin> set x \<Longrightarrow> split_path x = [x]"
  by (induction x) auto

lemma split_path_slash: "47 \<notin> set x \<Longrightarrow> split_path (x @ 47 # r) = x # split_path r"
  by (induction x) auto

lemma path_cases:
  obtains "47 \<notin> set p" | x r where "p = x @ 47 # r" "47 \<notin> set x"
  using split_list_first [of 47 p] by blast

definition pcomp :: "nat \<Rightarrow> bytes \<Rightarrow> bytes" where
  "pcomp k p = (if k < length (path_comps p) then path_comps p ! k else [])"

text \<open>
  \<^verbatim>\<open>parse_path\<close> is the reference split: three name arrays with the first three components, empty where
  there are fewer; and it leaves the bounds of an array exactly when one of them is too long.
\<close>

lemma parse_path_eq:
  assumes p: "0 \<notin> set p" and d: "length d1 = 27" "length d2 = 27" "length d3 = 27"
  shows "parse_path (p @ 0 # t) d1 d2 d3 = (if \<forall>x \<in> set (path_comps p). length x < 27
    then Some (name_arr (pcomp 0 p) d1, name_arr (pcomp 1 p) d2, name_arr (pcomp 2 p) d3) else None)"
proof (cases rule: path_cases [of p])
  case 1
  then have "path_comps p = [p]" by (simp add: path_comps_def split_path_plain)
  then show ?thesis
    using 1 p d copy_comp_eq [of p 0 t d1] by (auto simp: parse_path_def pcomp_def name_arr_def upd_conv_take_nth_drop)
next
  case (2 x q)
  then have q: "0 \<notin> set q" "0 \<notin> set x" using p by auto
  have c1: "copy_comp (p @ 0 # t) d1 = (if length x < 27 then Some (name_arr x d1, 47 # q @ 0 # t) else None)"
    using 2 q d copy_comp_eq [of x 47 "q @ 0 # t" d1] by simp
  show ?thesis
  proof (cases rule: path_cases [of q])
    case 1
    then have "path_comps p = [x, q]" using 2 by (simp add: path_comps_def split_path_slash split_path_plain)
    then show ?thesis
      using 1 q d c1 copy_comp_eq [of q 0 t d2] by (auto simp: parse_path_def pcomp_def name_arr_def upd_conv_take_nth_drop)
  next
    case (2 y r)
    then have r: "0 \<notin> set r" "0 \<notin> set y" using q by auto
    have c2: "copy_comp (q @ 0 # t) d2 = (if length y < 27 then Some (name_arr y d2, 47 # r @ 0 # t) else None)"
      using 2 r d copy_comp_eq [of y 47 "r @ 0 # t" d2] by simp
    obtain z u where z: "47 \<notin> set z" "0 \<notin> set z" "split_path r = z # (case u of [] \<Rightarrow> [] | c # v \<Rightarrow> split_path v)"
      "r = z @ u" "u = [] \<or> hd u = 47"
      using r by (cases rule: path_cases [of r]) (fastforce simp: split_path_plain split_path_slash)+
    have "path_comps p = [x, y, z]" using 2 \<open>p = x @ 47 # q\<close> \<open>47 \<notin> set x\<close> z
      by (simp add: path_comps_def split_path_slash)
    moreover have "copy_comp (r @ 0 # t) d3 = (if length z < 27 then Some (name_arr z d3, u @ 0 # t) else None)"
      using z d copy_comp_eq [of z "hd (u @ [0])" "tl (u @ [0]) @ t" d3] by (cases u) auto
    ultimately show ?thesis using c1 c2 q r by (auto simp: parse_path_def pcomp_def)
  qed
qed

section \<open>Lookup\<close>

text \<open>
  The contents of a directory as the routines see them: the sector read from the disk in entries 0 to
  15, and in the entries from 16 on what an earlier routine left in the buffer (\<open>tail\<close>).
\<close>

definition dir_view :: "'d sd_ops \<Rightarrow> 'd fsst \<Rightarrow> bytes \<Rightarrow> inode_t \<Rightarrow> bytes" where
  "dir_view ops s tail i = dv ops s (i_blocks i ! 0 + 7) @ tail"

definition disk_inode :: "'d sd_ops \<Rightarrow> 'd fsst \<Rightarrow> u32 \<Rightarrow> inode_t" where
  "disk_inode ops s n = inode_of (dv ops s) n"

definition dir_lookup :: "bytes \<Rightarrow> bytes \<Rightarrow> u32 option" where
  "dir_lookup x D = map_option (\<lambda>j. dentry_ino j D) (first_idx (\<lambda>j. dname j D = Some x) 128)"

text \<open>The walk: \<open>None\<close> when it meets a directory with an unterminated name, \<open>Some None\<close> when a name is missing.\<close>

fun walk :: "(inode_t \<Rightarrow> bytes) \<Rightarrow> (u32 \<Rightarrow> inode_t) \<Rightarrow> bytes list \<Rightarrow> u32 option \<Rightarrow> inode_t \<Rightarrow> u32 option option" where
  "walk dir ino [] n i = Some n"
| "walk dir ino (x # xs) n i =
     (if x = [] \<and> n \<noteq> None then Some n
      else if \<not> dir_ok (dir i) then None
      else (case dir_lookup x (dir i) of None \<Rightarrow> Some None | Some m \<Rightarrow> walk dir ino xs (Some m) (ino m)))"

definition tail_of :: "'d fsst \<Rightarrow> bytes" where
  "tail_of s = drop 512 (dentry_buffer s)"

definition resolve :: "'d sd_ops \<Rightarrow> 'd fsst \<Rightarrow> bytes \<Rightarrow> inode_t \<Rightarrow> u32 option option" where
  "resolve ops s p i = walk (dir_view ops s (tail_of s)) (disk_inode ops s) (path_comps p) None i"

text \<open>One level. Only buffers change; the directory seen is \<open>dir_view\<close>.\<close>

lemma find_level_spec:
  assumes ok: "fs_ok ops s" and D: "D = dir_view ops s (tail_of s) i" "dir_ok D" and x: "cstr name = Some x"
  obtains c where "find_level ops name i s = Some (map_option inodeidx2offset (dir_lookup x D),
      s\<lparr>bc := c, dentry_buffer := D, inode_buffer :=
        (case dir_lookup x D of None \<Rightarrow> inode_buffer s | Some n \<Rightarrow> dv ops s (inodeidx2sector n))\<rparr>)"
    "bc_ok ops c" "bc_view ops c = dv ops s"
proof -
  let ?s1 = "(rd_st ops 8 (i_blocks i ! 0) s)\<lparr>dentry_buffer := D\<rparr>"
  have D': "bput 0 (dv ops s (i_blocks i ! 0 + 7)) (dentry_buffer s) = D"
    using D dv_length [OF ok] by (simp add: bput_def dir_view_def tail_of_def)
  have rd: "rd_dentry ops (i_blocks i ! 0) s = Some ?s1" using rd_eqs(2) [OF ok] D' by simp
  have ok1: "fs_ok ops ?s1" using ok D(2) by (simp add: dir_ok_def)
  have df: "dir_find D name [0..<DENTRIES] = Some (first_idx (\<lambda>j. dname j D = Some x) 128)"
    by (rule dir_find_dir [OF D(2) x])
  show ?thesis
  proof (cases "first_idx (\<lambda>j. dname j D = Some x) 128")
    case None
    then have "find_level ops name i s = Some (None, ?s1)"
      using rd df by (simp add: find_level_def)
    moreover have "?s1 = s\<lparr>bc := bc ?s1, dentry_buffer := D, inode_buffer := inode_buffer s\<rparr>" by (simp add: rd_st_def)
    ultimately show ?thesis
      using that [of "bc ?s1"] None ok1 ok fs_okD(1) [OF ok1] rd_st_dv [OF ok, of 8 "i_blocks i ! 0"]
      by (simp add: dir_lookup_def dv_def rd_st_def)
  next
    case (Some j)
    let ?n = "dentry_ino j D"
    let ?s2 = "(rd_st ops 1 (inodeidx2sector ?n) ?s1)\<lparr>inode_buffer := dv ops s (inodeidx2sector ?n)\<rparr>"
    have rd2: "rd_inode ops (inodeidx2sector ?n) ?s1 = Some ?s2" using rd_eqs(1) [OF ok1] ok by simp
    have "find_level ops name i s = Some (Some (inodeidx2offset ?n), ?s2)"
      using rd rd2 df Some by (simp add: find_level_def Let_def)
    moreover have "?s2 = s\<lparr>bc := bc ?s2, dentry_buffer := D, inode_buffer := dv ops s (inodeidx2sector ?n)\<rparr>"
      by (simp add: rd_st_def)
    moreover have "bc_ok ops (bc ?s2)" using fs_okD(1) [of ops ?s2] ok1 dv_length [OF ok] by simp
    moreover have "dv ops ?s2 = dv ops s" using ok ok1 by simp
    ultimately show ?thesis using that [of "bc ?s2"] Some by (simp add: dir_lookup_def dv_def)
  qed
qed

text \<open>A lookup changes the cache and two buffers, and neither the disk nor the tail of the directory buffer.\<close>

definition looked_up :: "'d sd_ops \<Rightarrow> 'd fsst \<Rightarrow> 'd fsst \<Rightarrow> bool" where
  "looked_up ops s s' \<longleftrightarrow> (\<exists>c D ib. s' = s\<lparr>bc := c, dentry_buffer := D, inode_buffer := ib\<rparr>) \<and>
     fs_ok ops s' \<and> dv ops s' = dv ops s \<and> tail_of s' = tail_of s"

lemma looked_upD:
  assumes "looked_up ops s s'"
  shows "fs_ok ops s'" "dv ops s' = dv ops s" "tail_of s' = tail_of s" "dir_view ops s' = dir_view ops s"
    "disk_inode ops s' = disk_inode ops s" "wd_inode s' = wd_inode s" "fdesc_array s' = fdesc_array s"
    "block_map s' = block_map s" "inode_map s' = inode_map s" "root_ino s' = root_ino s" "fs_clk s' = fs_clk s"
    "fs_clk_reads s' = fs_clk_reads s" "rdata_buffer s' = rdata_buffer s" "wdata_buffer s' = wdata_buffer s"
    "fs_con s' = fs_con s" "superblock_buffer s' = superblock_buffer s" "write_back_freq s' = write_back_freq s"
  using assms by (auto simp: looked_up_def dir_view_def disk_inode_def inode_of_def fun_eq_iff)

lemma looked_up_trans: "looked_up ops s s' \<Longrightarrow> looked_up ops s' s'' \<Longrightarrow> looked_up ops s s''"
  by (auto simp: looked_up_def) metis

lemma level_step:
  assumes ok: "fs_ok ops s" and D: "dir_ok (dir_view ops s (tail_of s) i)" and x: "cstr name = Some x"
  obtains s' where
    "find_level ops name i s = Some (map_option inodeidx2offset (dir_lookup x (dir_view ops s (tail_of s) i)), s')"
    "looked_up ops s s'"
    "\<forall>n. dir_lookup x (dir_view ops s (tail_of s) i) = Some n \<longrightarrow> inode_at (inodeidx2offset n) (inode_buffer s') = disk_inode ops s n"
proof -
  let ?D = "dir_view ops s (tail_of s) i"
  let ?ib = "case dir_lookup x ?D of None \<Rightarrow> inode_buffer s | Some n \<Rightarrow> dv ops s (inodeidx2sector n)"
  obtain c where c: "find_level ops name i s = Some (map_option inodeidx2offset (dir_lookup x ?D),
      s\<lparr>bc := c, dentry_buffer := ?D, inode_buffer := ?ib\<rparr>)" "bc_ok ops c" "bc_view ops c = dv ops s"
    using find_level_spec [OF ok refl D x] .
  have "length ?ib = 512" using fs_okD(5) [OF ok] dv_length [OF ok] by (simp split: option.split)
  then have "fs_ok ops (s\<lparr>bc := c, dentry_buffer := ?D, inode_buffer := ?ib\<rparr>)"
    using ok c(2) D by (simp add: fs_ok_def dir_ok_def)
  moreover have "drop 512 ?D = tail_of s" using dv_length [OF ok] by (simp add: dir_view_def)
  ultimately have "looked_up ops s (s\<lparr>bc := c, dentry_buffer := ?D, inode_buffer := ?ib\<rparr>)"
    using c(3) by (auto simp: looked_up_def tail_of_def dv_def)
  then show ?thesis using that [OF c(1)] by (simp add: disk_inode_def inode_of_def)
qed

lemma split_path_chars: "x \<in> set (split_path p) \<Longrightarrow> set x \<subseteq> set p"
proof (induction p arbitrary: x)
  case (Cons c p)
  obtain y ys where y: "split_path p = y # ys" using split_path_Nil [of p] by (cases "split_path p") auto
  then have "x \<in> {[], c # y} \<union> set (split_path p)" using Cons.prems by (auto split: if_splits)
  moreover have "set y \<subseteq> set p" using Cons.IH [of y] y by simp
  ultimately show ?case using Cons.IH [of x] by auto
qed simp

lemma comps_cases:
  obtains x where "path_comps p = [x]" | x y where "path_comps p = [x, y]" | x y z where "path_comps p = [x, y, z]"
proof -
  obtain x xs where "split_path p = x # xs" using split_path_Nil [of p] by (cases "split_path p") auto
  then have "path_comps p = x # take 2 xs" by (simp add: path_comps_def numeral_3_eq_3 numeral_2_eq_2)
  then show ?thesis using that by (cases xs; cases "tl xs") (auto simp: numeral_2_eq_2)
qed

lemma pcomp_no_nul: "0 \<notin> set p \<Longrightarrow> 0 \<notin> set (pcomp k p)"
  using split_path_chars [of _ p] in_set_takeD [of _ 3 "split_path p"] nth_mem [of k "path_comps p"]
  by (auto simp: pcomp_def path_comps_def)

text \<open>The search of \<^verbatim>\<open>find_inode\<close> is the walk.\<close>

lemma find_inode_spec:
  assumes ok: "fs_ok ops s" and p: "p \<noteq> []" "0 \<notin> set p" "\<forall>x \<in> set (path_comps p). length x < 27"
    and r: "resolve ops s p i = Some r"
  obtains s' where "find_inode ops (p @ 0 # t) i s = Some (map_option (\<lambda>n. InBuf (inodeidx2offset n)) r, s')"
    "looked_up ops s s'" "\<forall>n. r = Some n \<longrightarrow> inode_at (inodeidx2offset n) (inode_buffer s') = disk_inode ops s n"
proof -
  let ?D = "dir_view ops s (tail_of s)" and ?c = "\<lambda>k. pcomp k p" and ?a = "\<lambda>k. name_arr (pcomp k p) NAME0"
  have z: "0 \<notin> set (pcomp k p)" for k using pcomp_no_nul [OF p(2)] .
  have cs: "cstr (?a k) = Some (?c k)" "?a k ! 0 = 0 \<longleftrightarrow> ?c k = []" for k
    using z [of k] by (simp_all add: name_arr_cstr name_arr_hd)
  have pp: "parse_path (p @ 0 # t) NAME0 NAME0 NAME0 = Some (?a 0, ?a 1, ?a 2)"
    using parse_path_eq [of p NAME0 NAME0 NAME0 t] p by (simp add: NAME0_def MAX_PATHNAME_LEN_def)
  obtain a q where aq: "p @ 0 # t = a # q" "a \<noteq> 0" using p(1,2) by (cases p) auto
  have fi: "find_inode ops (p @ 0 # t) i s = do {
       (r1, s1) \<leftarrow> find_level ops (?a 0) i s;
       case r1 of None \<Rightarrow> Some (None, s1) | Some k1 \<Rightarrow>
       if ?a 1 ! 0 = 0 then Some (Some (InBuf k1), s1) else do {
         (r2, s2) \<leftarrow> find_level ops (?a 1) (inode_at k1 (inode_buffer s1)) s1;
         case r2 of None \<Rightarrow> Some (None, s2) | Some k2 \<Rightarrow>
         if ?a 2 ! 0 = 0 then Some (Some (InBuf k2), s2) else do {
           (r3, s3) \<leftarrow> find_level ops (?a 2) (inode_at k2 (inode_buffer s2)) s2;
           Some (map_option InBuf r3, s3) } } }"
    using pp aq by (simp add: find_inode_def del: One_nat_def)
  have w: "walk ?D (disk_inode ops s) [?c 0, ?c 1, ?c 2] None i = Some r"
    using r by (cases rule: comps_cases [of p]) (auto simp: resolve_def pcomp_def split: option.splits if_splits)
  have D0: "dir_ok (?D i)" using w by (simp split: if_splits)
  obtain s1 where s1: "find_level ops (?a 0) i s = Some (map_option inodeidx2offset (dir_lookup (?c 0) (?D i)), s1)" "looked_up ops s s1"
    "\<forall>n. dir_lookup (?c 0) (?D i) = Some n \<longrightarrow> inode_at (inodeidx2offset n) (inode_buffer s1) = disk_inode ops s n"
    using level_step [OF ok D0 cs(1)] .
  note l1 = looked_upD [OF s1(2)]
  show ?thesis
  proof (cases "dir_lookup (?c 0) (?D i)")
    case None
    then have "r = None" using w D0 by simp
    then show ?thesis using that [of s1] fi s1 None by simp
  next
    case n1: (Some n1)
    let ?i1 = "disk_inode ops s n1"
    show ?thesis
    proof (cases "?c 1 = []")
      case True
      then have "r = Some n1" using w D0 n1 by simp
      then show ?thesis using that [of s1] fi s1 n1 True cs(2) [of 1] by simp
    next
      case c1: False
      have D1: "dir_ok (?D ?i1)" using w n1 D0 c1 by (simp split: if_splits)
      obtain s2 where s2: "find_level ops (?a 1) ?i1 s1 = Some (map_option inodeidx2offset (dir_lookup (?c 1) (?D ?i1)), s2)"
        "looked_up ops s1 s2"
        "\<forall>n. dir_lookup (?c 1) (?D ?i1) = Some n \<longrightarrow> inode_at (inodeidx2offset n) (inode_buffer s2) = disk_inode ops s n"
        using level_step [of ops s1 ?i1 "?a 1" "?c 1"] l1 D1 cs(1) by metis
      note l2 = looked_up_trans [OF s1(2) s2(2)]
      have f2: "find_inode ops (p @ 0 # t) i s = (case map_option inodeidx2offset (dir_lookup (?c 1) (?D ?i1)) of
         None \<Rightarrow> Some (None, s2) | Some k2 \<Rightarrow> if ?a 2 ! 0 = 0 then Some (Some (InBuf k2), s2) else do {
           (r3, s3) \<leftarrow> find_level ops (?a 2) (inode_at k2 (inode_buffer s2)) s2;
           Some (map_option InBuf r3, s3) })"
        using fi s1 s2(1) n1 c1 cs(2) [of 1] by simp
      show ?thesis
      proof (cases "dir_lookup (?c 1) (?D ?i1)")
        case None
        then have "r = None" using w D0 D1 n1 c1 by simp
        then show ?thesis using that [of s2] f2 l2 None by simp
      next
        case n2: (Some n2)
        let ?i2 = "disk_inode ops s n2"
        show ?thesis
        proof (cases "?c 2 = []")
          case True
          then have "r = Some n2" using w D0 D1 n1 n2 c1 by simp
          then show ?thesis using that [of s2] f2 s2 l2 n2 True cs(2) [of 2] by simp
        next
          case c2: False
          have D2: "dir_ok (?D ?i2)" using w n1 n2 D0 D1 c1 c2 by (simp split: if_splits)
          obtain s3 where s3: "find_level ops (?a 2) ?i2 s2 = Some (map_option inodeidx2offset (dir_lookup (?c 2) (?D ?i2)), s3)"
            "looked_up ops s2 s3"
            "\<forall>n. dir_lookup (?c 2) (?D ?i2) = Some n \<longrightarrow> inode_at (inodeidx2offset n) (inode_buffer s3) = disk_inode ops s n"
            using level_step [of ops s2 ?i2 "?a 2" "?c 2"] looked_upD [OF l2] D2 cs(1) by metis
          have r: "r = dir_lookup (?c 2) (?D ?i2)" using w n1 n2 D0 D1 D2 c1 c2 by (simp split: option.splits)
          then show ?thesis
            using that [of s3] f2 s2 s3 n2 c2 looked_up_trans [OF l2 s3(2)] cs(2) [of 2] by (simp add: option.map_comp comp_def)
        qed
      qed
    qed
  qed
qed

section \<open>Creating a file\<close>

text \<open>The working directory is in use, its block is a data block and its names are terminated.\<close>

definition wd_ok :: "'d sd_ops \<Rightarrow> 'd fsst \<Rightarrow> bool" where
  "wd_ok ops s \<longleftrightarrow> unat (i_ino (wd_inode s)) < 4096 \<and> bit_at (dv ops s 289) (unat (i_ino (wd_inode s))) \<and>
     (\<exists>k < 131003. i_blocks (wd_inode s) ! 0 = data_sec k) \<and> dir_ok (dir_view ops s (tail_of s) (wd_inode s))"

abbreviation wd_view :: "'d sd_ops \<Rightarrow> 'd fsst \<Rightarrow> bytes" where
  "wd_view ops s \<equiv> dir_view ops s (tail_of s) (wd_inode s)"

definition free_inode_no :: "'d sd_ops \<Rightarrow> 'd fsst \<Rightarrow> nat option" where
  "free_inode_no ops s = first_idx (\<lambda>i. \<not> bit_at (dv ops s 289) i) 4096"

text \<open>The working directory's inode after one more entry.\<close>

definition grown :: "inode_t \<Rightarrow> u32 \<Rightarrow> inode_t" where
  "grown i t = i\<lparr>i_size := i_size i + 32, i_mtime := t, i_nlink := i_nlink i + 1\<rparr>"

definition tick :: "'d fsst \<Rightarrow> nat \<Rightarrow> u32" where
  "tick s k = ucast (fs_clk s (fs_clk_reads s + k))"

lemma new_inode_blocks [simp]: "length (i_blocks (new_inode a b c d e)) = 10"
  by (simp add: new_inode_def)

lemma grown_simps [simp]: "i_blocks (grown i t) = i_blocks i" "i_ino (grown i t) = i_ino i" "i_type (grown i t) = i_type i"
  by (simp_all add: grown_def)

lemma inode_no_not_m1: "i < 4096 \<Longrightarrow> word_of_nat i \<noteq> (- 1 :: u32)"
proof
  assume i: "i < 4096" and e: "word_of_nat i = (- 1 :: u32)"
  have "unat (- 1 :: u32) = 4294967295" by (simp add: unsigned_minus_1_eq_mask mask_eq_exp_minus_1)
  moreover have "unat (word_of_nat i :: u32) = i" using i by (simp add: unat_of_nat)
  ultimately show False using e i by simp
qed

lemma do_touch_exec:
  assumes ok: "fs_ok ops s" and wd: "wd_ok ops s" and x: "cstr path = Some x" "length x < 27"
    and new: "dir_lookup x (wd_view ops s) = None"
    and i: "free_inode_no ops s = Some i"
    and j: "first_idx (\<lambda>j. dentry_ino j (wd_view ops s) = 0 \<and> hd (dentry_name j (wd_view ops s)) = 0) 128 = Some j"
    and B: "set_dentry j path (word_of_nat i) IT_FILE (wd_view ops s) = Some B" "length B = 4096"
  obtains s' m where "do_touch ops path s = Some (0, s')" "fs_ok ops s'" "dentry_buffer s' = B"
    "wd_inode s' = grown (wd_inode s) (tick s 1)" "length m = 512"
    "\<forall>k. bit_at m k \<longleftrightarrow> k = i \<or> bit_at (dv ops s 289) k"
    "dv ops s' = put_inode (i_ino (wd_inode s)) (grown (wd_inode s) (tick s 1))
       (put_run (i_blocks (wd_inode s) ! 0) 8 (take 512 B)
         (put_inode (word_of_nat i) (new_inode (word_of_nat i) IT_FILE 0 (tick s 0) 0) ((dv ops s)(289 := m))))"
    "fdesc_array s' = fdesc_array s" "block_map s' = block_map s"
proof -
  let ?D = "wd_view ops s" and ?a = "i_blocks (wd_inode s) ! 0" and ?n = "word_of_nat i :: u32"
  have i4: "i < 4096" using i by (simp add: free_inode_no_def first_idx_Some_iff)
  then have un: "unat ?n = i" by (simp add: unat_of_nat)
  have n1: "?n \<noteq> - 1" by (rule inode_no_not_m1 [OF i4])
  have bl: "length (i_blocks (wd_inode s)) = 10" using fs_okD(9) [OF ok] .
  obtain c1 where c1: "rd_dentry ops ?a s = Some (s\<lparr>bc := c1, dentry_buffer := ?D\<rparr>)" "bc_ok ops c1" "bc_view ops c1 = dv ops s"
    using rd_dentry_spec [OF ok, of ?a] unfolding dir_view_def tail_of_def .
  let ?s1 = "s\<lparr>bc := c1, dentry_buffer := ?D\<rparr>"
  have D: "dir_ok ?D" "length ?D = 4096" using wd by (auto simp: wd_ok_def dir_ok_def)
  have ok1: "fs_ok ops ?s1" using ok c1(2) D by simp
  have dv1: "dv ops ?s1 = dv ops s" using c1(3) by simp
  have df: "dir_find ?D path [0..<DENTRIES] = Some None"
    using dir_find_dir [OF D(1) x(1)] new by (simp add: dir_lookup_def)
  obtain c2 m where c2: "find_free_inode ops ?s1 = Some (?n, ?s1\<lparr>bc := c2, inode_map := m\<rparr>)" "bc_ok ops c2"
    "length m = 512" "\<forall>j. bit_at m j \<longleftrightarrow> j = i \<or> bit_at (dv ops ?s1 289) j" "bc_view ops c2 = (dv ops ?s1)(289 := m)"
    using find_free_inode_spec [OF ok1] i unfolding free_inode_no_def dv1 .
  let ?s2 = "?s1\<lparr>bc := c2, inode_map := m\<rparr>"
  have ok2: "fs_ok ops ?s2" using ok1 c2 by (simp add: fs_ok_def)
  have dv2: "dv ops ?s2 = (dv ops s)(289 := m)" using c2(5) dv1 by simp
  let ?sec = "inodeidx2sector ?n"
  let ?I = "set_inode (inodeidx2offset ?n) (new_inode ?n IT_FILE 0 (tick s 0) 0) (dv ops ?s2 ?sec)"
  obtain c3 where c3: "rd_inode ops ?sec ?s2 = Some ((rd_st ops 1 ?sec ?s2)\<lparr>inode_buffer := dv ops ?s2 ?sec\<rparr>)"
    "wr_inode ops 1 ?sec ((rd_st ops 1 ?sec ?s2)\<lparr>fs_clk_reads := Suc (fs_clk_reads s), inode_buffer := ?I\<rparr>) =
       Some (?s2\<lparr>bc := c3, inode_buffer := ?I, fs_clk_reads := Suc (fs_clk_reads s)\<rparr>)"
    "bc_ok ops c3" "bc_view ops c3 = put_inode ?n (new_inode ?n IT_FILE 0 (tick s 0) 0) (dv ops ?s2)"
    using modify_inode_spec [OF ok2 new_inode_blocks] .
  let ?s5 = "?s2\<lparr>bc := c3, inode_buffer := ?I, fs_clk_reads := Suc (fs_clk_reads s)\<rparr>"
  have lI: "length ?I = 512" using dv_length [OF ok2] offset_less [of ?n] by (subst set_inode_length) simp_all
  have ok5: "fs_ok ops (?s5\<lparr>dentry_buffer := B\<rparr>)" using ok2 c3(3) lI B(2) by (simp add: fs_ok_def)
  obtain c4 where c4: "wr_dentry ops ?a (?s5\<lparr>dentry_buffer := B\<rparr>) = Some (?s5\<lparr>dentry_buffer := B, bc := c4\<rparr>)" "bc_ok ops c4"
    "bc_view ops c4 = put_run ?a 8 (take 512 (dentry_buffer (?s5\<lparr>dentry_buffer := B\<rparr>))) (dv ops (?s5\<lparr>dentry_buffer := B\<rparr>))"
    using wr_dentry_spec [OF ok5] .
  let ?wd = "grown (wd_inode s) (tick s 1)"
  let ?s7 = "?s5\<lparr>dentry_buffer := B, bc := c4, fs_clk_reads := Suc (Suc (fs_clk_reads s)), wd_inode := ?wd\<rparr>"
  have ok7: "fs_ok ops ?s7" using ok5 c4(2) by (simp add: fs_ok_def)
  obtain c5 where c5: "store_inode ops (i_ino ?wd) ?wd ?s7 =
      Some (?s7\<lparr>bc := c5, inode_buffer := set_inode (inodeidx2offset (i_ino ?wd)) ?wd (dv ops ?s7 (inodeidx2sector (i_ino ?wd)))\<rparr>)"
    "bc_ok ops c5" "bc_view ops c5 = put_inode (i_ino ?wd) ?wd (dv ops ?s7)"
    using store_inode_spec [OF ok7, of ?wd "i_ino ?wd"] bl unfolding grown_simps .
  let ?s8 = "?s7\<lparr>bc := c5, inode_buffer := set_inode (inodeidx2offset (i_ino ?wd)) ?wd (dv ops ?s7 (inodeidx2sector (i_ino ?wd)))\<rparr>"
  have "do_touch ops path s = Some (0, ?s8)"
    using x c1(1) df c2(1) n1 c3(1,2) j B(1) c4(1) c5(1)
    by (simp add: do_touch_def strlen_cstr fs_timer_def tick_def Let_def) (simp add: grown_def)
  moreover have ok8: "fs_ok ops ?s8" using ok7 c5(2) dv_length [OF ok7] bl by (simp add: fs_ok_def)
  moreover have "dv ops ?s8 = put_inode (i_ino (wd_inode s)) ?wd (put_run ?a 8 (take 512 B)
      (put_inode ?n (new_inode ?n IT_FILE 0 (tick s 0) 0) ((dv ops s)(289 := m))))"
    using c5(3) c4(3) c3(4) dv2 by simp
  ultimately show ?thesis using c2(3,4) dv1 by (intro that [of ?s8 m]) simp_all
qed

text \<open>Looking for names after an entry was filled in.\<close>

lemma first_idx_cong: "(\<And>k. k < n \<Longrightarrow> P k = Q k) \<Longrightarrow> first_idx P n = first_idx Q n"
  unfolding first_idx_def by (rule find_cong) auto

lemma dir_lookup_filled:
  assumes B: "\<forall>k < 128. dname k B = (if k = j then Some x else dname k D)"
    "\<forall>k < 128. dentry_ino k B = (if k = j then n else dentry_ino k D)" and j: "j < 128" "dname j D = Some []"
  shows "dir_lookup x D = None \<Longrightarrow> dir_lookup x B = Some n"
    "y \<noteq> x \<Longrightarrow> y \<noteq> [] \<Longrightarrow> dir_lookup y B = dir_lookup y D"
proof -
  assume "dir_lookup x D = None"
  then have "first_idx (\<lambda>k. dname k B = Some x) 128 = Some j"
    using B(1) j by (auto simp: dir_lookup_def first_idx_None_iff first_idx_Some_iff)
  then show "dir_lookup x B = Some n" using B(2) j by (simp add: dir_lookup_def)
next
  assume "y \<noteq> x" "y \<noteq> []"
  then have e: "first_idx (\<lambda>k. dname k B = Some y) 128 = first_idx (\<lambda>k. dname k D = Some y) 128"
    using B(1) j by (intro first_idx_cong) auto
  show "dir_lookup y B = dir_lookup y D"
  proof (cases "first_idx (\<lambda>k. dname k D = Some y) 128")
    case (Some k)
    then have "k < 128" "k \<noteq> j" using j \<open>y \<noteq> []\<close> by (auto simp: first_idx_Some_iff)
    then show ?thesis using e Some B(2) by (simp add: dir_lookup_def)
  qed (simp add: dir_lookup_def e)
qed

text \<open>The first sixteen entries depend on the sector alone.\<close>

lemma bget_prefix: "off + n \<le> m \<Longrightarrow> m \<le> length b \<Longrightarrow> bget off n (take m b @ t) = bget off n b"
  by (simp add: bget_def drop_take min_absorb1)

lemma dname_prefix: "k < 16 \<Longrightarrow> length b = 4096 \<Longrightarrow> dname k (take 512 b @ t) = dname k b"
  by (simp add: dname_def bget_prefix)

lemma dentry_ino_prefix: "k < 16 \<Longrightarrow> length b = 4096 \<Longrightarrow> dentry_ino k (take 512 b @ t) = dentry_ino k b"
  by (simp add: dentry_ino_def get_u32_def bget_prefix)

lemma dir_lookup_prefix:
  assumes "length b = 4096" "first_idx (\<lambda>k. dname k b = Some x) 128 = Some j" "j < 16"
  shows "dir_lookup x (take 512 b @ t) = Some (dentry_ino j b)"
proof -
  have "first_idx (\<lambda>k. dname k (take 512 b @ t) = Some x) 128 = Some j"
    using assms dname_prefix [OF _ assms(1), of _ t] by (auto simp: first_idx_Some_iff)
  then show ?thesis using assms by (simp add: dir_lookup_def dentry_ino_prefix)
qed

text \<open>The entry \<^verbatim>\<open>do_touch\<close> takes: the first with no name and inode number 0.\<close>

definition free_entry :: "bytes \<Rightarrow> nat option" where
  "free_entry D = first_idx (\<lambda>j. dentry_ino j D = 0 \<and> dname j D = Some []) 128"

lemma free_entry_code:
  assumes "dir_ok D"
  shows "first_idx (\<lambda>j. dentry_ino j D = 0 \<and> hd (dentry_name j D) = 0) 128 = free_entry D"
  unfolding free_entry_def using assms dname_empty by (intro first_idx_cong) (fastforce simp: dir_ok_def)

lemma plain_path:
  assumes "47 \<notin> set x" "dir_ok (dir_view ops s (tail_of s) i)"
  shows "resolve ops s x i = Some (dir_lookup x (dir_view ops s (tail_of s) i))"
  using assms by (simp add: resolve_def path_comps_def split_path_plain split: option.split)

lemma touch_disk:
  assumes ok: "fs_ok ops s" and wd: "wd_ok ops s" and x: "cstr path = Some x" "length x < 27"
    and new: "dir_lookup x (wd_view ops s) = None"
    and i: "free_inode_no ops s = Some i" and j: "free_entry (wd_view ops s) = Some j"
  obtains s' B where "do_touch ops path s = Some (0, s')" "fs_ok ops s'" "wd_ok ops s'" "wd_view ops s' = B"
    "wd_inode s' = grown (wd_inode s) (tick s 1)" "dir_ok B"
    "dv ops s' (i_blocks (wd_inode s) ! 0 + 7) = take 512 B"
    "\<forall>k < 128. dname k B = (if k = j then Some x else dname k (wd_view ops s))"
    "\<forall>k < 128. dentry_ino k B = (if k = j then word_of_nat i else dentry_ino k (wd_view ops s))"
    "16 \<le> j \<longrightarrow> take 512 B = take 512 (wd_view ops s)"
    "\<forall>k. bit_at (dv ops s' 289) k \<longleftrightarrow> k = i \<or> bit_at (dv ops s 289) k"
    "\<forall>n. unat n < 4096 \<longrightarrow> disk_inode ops s' n = (if n = i_ino (wd_inode s) then grown (wd_inode s) (tick s 1)
       else if n = word_of_nat i then new_inode n IT_FILE 0 (tick s 0) 0 else disk_inode ops s n)"
    "fdesc_array s' = fdesc_array s" "bmap_view ops s' = bmap_view ops s"
proof -
  let ?D = "wd_view ops s" and ?w = "i_ino (wd_inode s)" and ?n = "word_of_nat i :: u32"
  have D: "dir_ok ?D" using wd by (simp add: wd_ok_def)
  have j': "j < 128" "dname j ?D = Some []" using j by (auto simp: free_entry_def first_idx_Some_iff)
  obtain k where k: "k < 131003" "i_blocks (wd_inode s) ! 0 = data_sec k" and w: "unat ?w < 4096" "bit_at (dv ops s 289) (unat ?w)"
    using wd by (auto simp: wd_ok_def)
  have i4: "i < 4096" "\<not> bit_at (dv ops s 289) i" using i by (auto simp: free_inode_no_def first_idx_Some_iff)
  then have un: "unat ?n = i" by (simp add: unat_of_nat)
  then have nw: "?n \<noteq> ?w" using i4 w by auto
  obtain B where B: "set_dentry j path ?n IT_FILE ?D = Some B" "dir_ok B"
    "\<forall>k < 128. dname k B = (if k = j then Some x else dname k ?D)"
    "\<forall>k < 128. dentry_ino k B = (if k = j then ?n else dentry_ino k ?D)"
    "\<forall>k < 128. dentry_type k B = (if k = j then IT_FILE else dentry_type k ?D)"
    "j < 16 \<longrightarrow> drop 512 B = drop 512 ?D" "16 \<le> j \<longrightarrow> take 512 B = take 512 ?D"
    using set_dentry_spec [OF j'(1) D x] .
  have lB: "length B = 4096" using B(2) by (simp add: dir_ok_def)
  obtain s' m where s': "do_touch ops path s = Some (0, s')" "fs_ok ops s'" "dentry_buffer s' = B"
    "wd_inode s' = grown (wd_inode s) (tick s 1)" "length m = 512"
    "\<forall>k. bit_at m k \<longleftrightarrow> k = i \<or> bit_at (dv ops s 289) k"
    "dv ops s' = put_inode ?w (grown (wd_inode s) (tick s 1)) (put_run (i_blocks (wd_inode s) ! 0) 8 (take 512 B)
         (put_inode ?n (new_inode ?n IT_FILE 0 (tick s 0) 0) ((dv ops s)(289 := m))))"
    "fdesc_array s' = fdesc_array s" "block_map s' = block_map s"
    using do_touch_exec [OF ok wd x new i j [folded free_entry_code [OF D]] B(1) lB] .
  define d1 where "d1 = (dv ops s)(289 := m)"
  note s7 = s'(7) [folded d1_def]
  have bl: "length (i_blocks (wd_inode s)) = 10" using fs_okD(9) [OF ok] .
  have dir: "dv ops s' (i_blocks (wd_inode s) ! 0 + 7) = take 512 B"
    using k w(1) by (simp add: s7 data_put_inode [OF k(1)] put_run_simps)
  have view: "wd_view ops s' = B" using dir s'(3,4) by (simp add: dir_view_def tail_of_def)
  have map: "dv ops s' 289 = m"
    using k un i4 w(1) sectors_disjoint(4) [OF _ k(1), of ?n] by (simp add: s7 imap_put_inode put_run_simps d1_def)
  have "dv ops s' 288 = dv ops s 288"
    using k un i4(1) w(1) inode_sector_unat [OF w(1)] inode_sector_unat [of ?n] data_sec_run [OF k(1), of 288]
    by (auto simp: s7 put_inode_def put_run_def d1_def)
  then have bm: "bmap_view ops s' = bmap_view ops s" using s'(9) by (simp add: bmap_view_def)
  have lens: "\<forall>a. length (d1 a) = 512" using dv_length [OF ok] s'(5) by (simp add: d1_def)
  let ?d2 = "put_run (i_blocks (wd_inode s) ! 0) 8 (take 512 B) (put_inode ?n (new_inode ?n IT_FILE 0 (tick s 0) 0) d1)"
  have lens2: "\<forall>a. length (?d2 a) = 512"
    using lB lens by (auto simp: put_run_def intro!: put_inode_length)
  have "disk_inode ops s' n = (if n = ?w then grown (wd_inode s) (tick s 1)
       else if n = ?n then new_inode n IT_FILE 0 (tick s 0) 0 else disk_inode ops s n)" if n: "unat n < 4096" for n
  proof (cases "n = ?w")
    case True
    then show ?thesis using inode_of_put [OF _ lens2] bl by (simp add: disk_inode_def s7)
  next
    case False
    then have "disk_inode ops s' n = inode_of (put_inode ?n (new_inode ?n IT_FILE 0 (tick s 0) 0) d1) n"
      using inode_of_put_other [OF _ lens2 w(1) n] bl inode_of_run [OF k(1) n] k(2) by (simp add: disk_inode_def s7)
    then show ?thesis
      using inode_of_put [OF new_inode_blocks lens] inode_of_put_other [OF new_inode_blocks lens _ n] un i4 False
        inode_of_imap [OF n, of "dv ops s" m, folded d1_def]
      by (auto simp: disk_inode_def)
  qed
  moreover have "wd_ok ops s'" using w k view B(2) map s'(4,6) by (auto simp: wd_ok_def)
  ultimately show ?thesis using that [OF s'(1,2) _ view s'(4) B(2) dir B(3,4,7) _ _ s'(8) bm] s'(6) map by blast
qed

section \<open>A small file system\<close>

text \<open>
  A freshly made file system for the witnesses: inode 0 is the root directory in data block 0, with
  the entries \<^verbatim>\<open>.\<close> and \<^verbatim>\<open>..\<close>, and nothing else is in use.
\<close>

definition demo_dir :: bytes where
  "demo_dir = the (dot_entries 0 0 (replicate 4096 0))"

definition demo_root :: inode_t where
  "demo_root = new_inode 0 IT_DIR 64 0 (data_sec 0)"

definition demo_disk :: "bytes \<Rightarrow> u32 \<Rightarrow> bytes" where
  "demo_disk D a = (if a = 289 \<or> in_run 257 32 a then [1] else if a = 290 then inode_bytes demo_root
     else if in_run (data_sec 0) 8 a then take 512 D
     else if a = FS_START_SECTOR then concat (map u32_bytes superblock_words) else [])"

definition demo_fs_dir :: "bytes \<Rightarrow> (u32 \<Rightarrow> bytes) fsst" where
  "demo_fs_dir D = \<lparr>bc = init_bcache (demo_cache\<lparr>sd := demo_disk D\<rparr>),
     fdesc_array = (\<lambda>_. \<lparr>fd_mode = 0, fd_valid = 0, fd_ino = 0, read_pos = 0, write_pos = 0\<rparr>),
     superblock_buffer = replicate 512 0, inode_map = replicate 512 0, block_map = replicate 16384 0,
     inode_buffer = replicate 512 0, dentry_buffer = replicate 4096 0, rdata_buffer = replicate 4096 0,
     wdata_buffer = replicate 4096 0, wd_inode = demo_root, root_ino = 0, write_back_freq = 30,
     fs_clk = (\<lambda>n. word_of_nat n), fs_clk_reads = 0, fs_con = []\<rparr>"

abbreviation demo_fs :: "(u32 \<Rightarrow> bytes) fsst" where
  "demo_fs \<equiv> demo_fs_dir demo_dir"

lemma zero_dir:
  "dir_ok (replicate 4096 0)" "k < 128 \<Longrightarrow> dname k (replicate 4096 0) = Some []" "k < 128 \<Longrightarrow> dentry_ino k (replicate 4096 0) = 0"
proof -
  have z: "bget (32 * k) 27 (replicate 4096 0) = replicate 27 (0 :: u8)" if "k < 128" for k :: nat
    using that by (simp add: bget_def min_def)
  show n: "dname k (replicate 4096 0) = Some []" if "k < 128" for k
  proof -
    have "replicate 27 (0 :: u8) = 0 # replicate 26 0" by (simp add: numeral_eq_Suc)
    then show ?thesis using z [OF that] by (simp add: dname_def)
  qed
  then show "dir_ok (replicate 4096 0)" by (simp add: dir_ok_def)
  show "dentry_ino k (replicate 4096 0) = 0" if "k < 128"
  proof -
    have "bget (32 * k + 28) 4 (replicate 4096 0) = replicate 4 (0 :: u8)"
      using that by (simp add: bget_def min_def)
    moreover have "replicate 4 (0 :: u8) = [0, 0, 0, 0]" by (simp add: numeral_eq_Suc)
    ultimately show ?thesis by (simp add: dentry_ino_def get_u32_def)
  qed
qed

lemma demo_dir_props:
  "dir_ok demo_dir" "\<forall>k < 128. dname k demo_dir = Some (if k = 0 then [46] else if k = 1 then [46, 46] else [])"
  "\<forall>k < 128. dentry_ino k demo_dir = 0" "drop 512 demo_dir = replicate 3584 0"
proof -
  have c: "cstr [46, 0] = Some [46]" "cstr [46, 46, 0] = Some [46, 46]"
    "0 < (128 :: nat)" "1 < (128 :: nat)" "length [46 :: u8] < 27" "length [46 :: u8, 46] < 27" by simp_all
  obtain b1 where b1: "set_dentry 0 [46, 0] 0 IT_DIR (replicate 4096 0) = Some b1" "dir_ok b1"
    "\<forall>i < 128. dname i b1 = (if i = 0 then Some [46] else dname i (replicate 4096 0))"
    "\<forall>i < 128. dentry_ino i b1 = (if i = 0 then 0 else dentry_ino i (replicate 4096 0))"
    "\<forall>i < 128. dentry_type i b1 = (if i = 0 then IT_DIR else dentry_type i (replicate 4096 0))"
    "0 < (16 :: nat) \<longrightarrow> drop 512 b1 = drop 512 (replicate 4096 0)" "16 \<le> (0 :: nat) \<longrightarrow> take 512 b1 = take 512 (replicate 4096 0)"
    using set_dentry_spec [OF c(3) zero_dir(1) c(1,5)] .
  obtain b2 where b2: "set_dentry 1 [46, 46, 0] 0 IT_DIR b1 = Some b2" "dir_ok b2"
    "\<forall>i < 128. dname i b2 = (if i = 1 then Some [46, 46] else dname i b1)"
    "\<forall>i < 128. dentry_ino i b2 = (if i = 1 then 0 else dentry_ino i b1)"
    "\<forall>i < 128. dentry_type i b2 = (if i = 1 then IT_DIR else dentry_type i b1)"
    "1 < (16 :: nat) \<longrightarrow> drop 512 b2 = drop 512 b1" "16 \<le> (1 :: nat) \<longrightarrow> take 512 b2 = take 512 b1"
    using set_dentry_spec [OF c(4) b1(2) c(2,6)] .
  have "bzero (replicate 4096 0) BLOCK_SIZE = Some (replicate 4096 0)" by (simp add: bzero_eq BLOCK_SIZE_def)
  then have "demo_dir = b2" using b1(1) b2(1) by (simp add: demo_dir_def dot_entries_def)
  then show "dir_ok demo_dir" "\<forall>k < 128. dname k demo_dir = Some (if k = 0 then [46] else if k = 1 then [46, 46] else [])"
    "\<forall>k < 128. dentry_ino k demo_dir = 0" "drop 512 demo_dir = replicate 3584 0"
    using b1 b2 zero_dir(2,3) by simp_all
qed

lemma demo_dv: "dv demo_sd (demo_fs_dir D) a = take 512 (demo_disk D a @ replicate 512 0)"
proof -
  have "dv demo_sd (demo_fs_dir D) a = sd_rd demo_sd a (demo_disk D)"
    by (simp add: dv_def demo_fs_dir_def init_bcache_spec(2) [OF demo_sd_ok])
  then show ?thesis by (simp add: demo_sd_def SECTOR_SIZE_def)
qed

lemma demo_fs_ok: "fs_ok demo_sd (demo_fs_dir D)"
  by (simp add: fs_ok_def demo_fs_dir_def init_bcache_spec(1) [OF demo_sd_ok] demo_root_def)

lemma demo_wd: "wd_inode (demo_fs_dir D) = demo_root" "i_blocks demo_root ! 0 = data_sec 0" "i_ino demo_root = 0" "i_type demo_root = IT_DIR"
  by (simp_all add: demo_fs_dir_def demo_root_def new_inode_def)

lemma demo_wd_view_dir:
  assumes "length D = 4096" "drop 512 D = replicate 3584 0"
  shows "wd_view demo_sd (demo_fs_dir D) = D"
proof -
  have "in_run (data_sec 0) 8 (data_sec 0 + 7)" by simp
  moreover have "data_sec 0 + 7 = 809" by (simp add: data_sec_def)
  moreover have "\<not> in_run 257 32 (809 :: u32)" using in_run_unat [of 257 32 809] by simp
  ultimately have "dv demo_sd (demo_fs_dir D) (data_sec 0 + 7) = take 512 D" using assms(1) by (simp add: demo_dv demo_disk_def)
  moreover have "tail_of (demo_fs_dir D) = drop 512 D" using assms(2) by (simp add: tail_of_def demo_fs_dir_def)
  ultimately show ?thesis by (simp add: dir_view_def demo_wd)
qed

lemma demo_wd_view: "wd_view demo_sd demo_fs = demo_dir"
  using demo_wd_view_dir demo_dir_props(1,4) by (simp add: dir_ok_def)

lemma demo_bits: "bit_at (1 # replicate k 0) i \<longleftrightarrow> i = 0" if "i < 8 * Suc k"
proof (cases "i div 8")
  case 0
  then have "i < 8" by simp
  then show ?thesis using 0 by (auto simp: bit_at_def bit_1_iff)
next
  case (Suc j)
  then have "j < k" using that less_mult_imp_div_less [of i "Suc k" 8] by (simp add: mult.commute)
  moreover have "i \<noteq> 0" using Suc by auto
  ultimately show ?thesis using Suc by (simp add: bit_at_def)
qed

lemma demo_imap: "dv demo_sd (demo_fs_dir D) 289 = 1 # replicate 511 0"
  by (simp add: demo_dv demo_disk_def numeral_eq_Suc)

lemma demo_free_inode: "free_inode_no demo_sd (demo_fs_dir D) = Some 1"
proof -
  have b: "bit_at (1 # replicate 511 0) i \<longleftrightarrow> i = 0" if "i < 4096" for i using demo_bits [of i 511] that by simp
  show ?thesis using b [of 0] b [of 1] by (simp add: free_inode_no_def demo_imap first_idx_Some_iff)
qed

lemma demo_wd_ok_dir:
  assumes "dir_ok D" "drop 512 D = replicate 3584 0"
  shows "wd_ok demo_sd (demo_fs_dir D)"
proof -
  have "dir_ok (wd_view demo_sd (demo_fs_dir D))" using assms demo_wd_view_dir by (simp add: dir_ok_def)
  moreover have "bit_at (dv demo_sd (demo_fs_dir D) 289) 0" using demo_bits [of 0 511] by (simp add: demo_imap)
  ultimately show ?thesis unfolding wd_ok_def demo_wd by (auto intro: exI [of _ 0])
qed

lemmas demo_wd_ok = demo_wd_ok_dir [OF demo_dir_props(1,4)]

lemma demo_free_entry: "free_entry demo_dir = Some 2"
  using demo_dir_props(2,3) by (auto simp: free_entry_def first_idx_Some_iff less_2_cases_iff)

lemma demo_lookup: "x \<noteq> [46] \<Longrightarrow> x \<noteq> [46, 46] \<Longrightarrow> x \<noteq> [] \<Longrightarrow> dir_lookup x demo_dir = None" "dir_lookup [46, 46] demo_dir = Some 0"
proof -
  show "dir_lookup x demo_dir = None" if "x \<noteq> [46]" "x \<noteq> [46, 46]" "x \<noteq> []"
    using that demo_dir_props(2) by (simp add: dir_lookup_def first_idx_None_iff)
  have "first_idx (\<lambda>j. dname j demo_dir = Some [46, 46]) 128 = Some 1"
    using demo_dir_props(2) by (simp add: first_idx_Some_iff)
  then show "dir_lookup [46, 46] demo_dir = Some 0" using demo_dir_props(3) by (simp add: dir_lookup_def)
qed

section \<open>What the routines promise\<close>

text \<open>
  C34: \<^verbatim>\<open>parse_path\<close> agrees with splitting the path at its slashes: it returns the first three components
  (empty ones where the path has fewer) when each fits its 27 byte array, and otherwise leaves the
  bounds of an array.
\<close>

theorem parse_path_splits:
  assumes "0 \<notin> set p" "length d1 = MAX_PATHNAME_LEN" "length d2 = MAX_PATHNAME_LEN" "length d3 = MAX_PATHNAME_LEN"
  shows "case parse_path (p @ 0 # t) d1 d2 d3 of
      None \<Rightarrow> \<exists>x \<in> set (path_comps p). MAX_PATHNAME_LEN \<le> length x
    | Some (a, b, c) \<Rightarrow> (\<forall>x \<in> set (path_comps p). length x < MAX_PATHNAME_LEN) \<and>
        cstr a = Some (pcomp 0 p) \<and> cstr b = Some (pcomp 1 p) \<and> cstr c = Some (pcomp 2 p)"
  using assms parse_path_eq [of p d1 d2 d3 t] name_arr_cstr [OF pcomp_no_nul [OF assms(1)]]
  by (auto simp: MAX_PATHNAME_LEN_def not_less)

theorem parse_path_splits_witness:
  "\<exists>a b c. parse_path ([97, 47, 98] @ 0 # []) NAME0 NAME0 NAME0 = Some (a, b, c) \<and>
     cstr a = Some [97] \<and> cstr b = Some [98] \<and> cstr c = Some []"
proof -
  have "length NAME0 = MAX_PATHNAME_LEN" by (simp add: NAME0_def)
  moreover have "path_comps [97, 47, 98] = [[97], [98]]" by (simp add: path_comps_def)
  ultimately show ?thesis
    using parse_path_splits [of "[97, 47, 98]" NAME0 NAME0 NAME0 "[]"]
    by (auto simp: MAX_PATHNAME_LEN_def pcomp_def split: option.splits)
qed



text \<open>
  C26: \<^verbatim>\<open>do_touch\<close> creates the file. For a new name, with an inode free and a free entry among those
  of the directory's sector, it returns 0; afterwards the name leads to the least free inode number,
  also for a reader that has only the disk (any contents of the buffer beyond the sector), its
  inode there is that of an empty file, every other name in the directory and every other inode is
  as before, and the state is again one in which the routine works.
\<close>

theorem touch_creates_file:
  assumes "fs_ok ops s" "wd_ok ops s" "0 \<notin> set x" "47 \<notin> set x" "x \<noteq> []" "length x < 27"
    "dir_lookup x (wd_view ops s) = None" "free_inode_no ops s = Some i" "free_entry (wd_view ops s) = Some j" "j < 16"
  shows "\<exists>s'. do_touch ops (x @ 0 # t) s = Some (0, s') \<and> fs_ok ops s' \<and> wd_ok ops s' \<and>
    resolve ops s' x (wd_inode s') = Some (Some (word_of_nat i)) \<and>
    (\<forall>b. dir_lookup x (dv ops s' (i_blocks (wd_inode s) ! 0 + 7) @ b) = Some (word_of_nat i)) \<and>
    disk_inode ops s' (word_of_nat i) = new_inode (word_of_nat i) IT_FILE 0 (tick s 0) 0 \<and>
    (\<forall>y. y \<noteq> x \<and> y \<noteq> [] \<longrightarrow> dir_lookup y (wd_view ops s') = dir_lookup y (wd_view ops s)) \<and>
    (\<forall>n. unat n < 4096 \<and> n \<noteq> i_ino (wd_inode s) \<and> n \<noteq> word_of_nat i \<longrightarrow> disk_inode ops s' n = disk_inode ops s n)"
proof -
  let ?D = "wd_view ops s"
  have c: "cstr (x @ 0 # t) = Some x" using assms(3) by simp
  obtain s' B where s': "do_touch ops (x @ 0 # t) s = Some (0, s')" "fs_ok ops s'" "wd_ok ops s'" "wd_view ops s' = B"
    "wd_inode s' = grown (wd_inode s) (tick s 1)" "dir_ok B" "dv ops s' (i_blocks (wd_inode s) ! 0 + 7) = take 512 B"
    "\<forall>k < 128. dname k B = (if k = j then Some x else dname k ?D)"
    "\<forall>k < 128. dentry_ino k B = (if k = j then word_of_nat i else dentry_ino k ?D)"
    "16 \<le> j \<longrightarrow> take 512 B = take 512 ?D"
    "\<forall>k. bit_at (dv ops s' 289) k \<longleftrightarrow> k = i \<or> bit_at (dv ops s 289) k"
    "\<forall>n. unat n < 4096 \<longrightarrow> disk_inode ops s' n = (if n = i_ino (wd_inode s) then grown (wd_inode s) (tick s 1)
       else if n = word_of_nat i then new_inode n IT_FILE 0 (tick s 0) 0 else disk_inode ops s n)"
    "fdesc_array s' = fdesc_array s" "bmap_view ops s' = bmap_view ops s"
    using touch_disk [OF assms(1,2) c assms(6-9)] .
  have j: "j < 128" "dname j ?D = Some []" using assms(9) by (auto simp: free_entry_def first_idx_Some_iff)
  note look = dir_lookup_filled [OF s'(8,9) j]
  have i: "i < 4096" "\<not> bit_at (dv ops s 289) i" using assms(8) by (auto simp: free_inode_no_def first_idx_Some_iff)
  then have un: "unat (word_of_nat i :: u32) = i" by (simp add: unat_of_nat)
  have nw: "word_of_nat i \<noteq> i_ino (wd_inode s)" using assms(2) i un by (auto simp: wd_ok_def)
  have "resolve ops s' x (wd_inode s') = Some (Some (word_of_nat i))"
    using plain_path [OF assms(4), of ops s' "wd_inode s'"] s'(4,6) look(1) [OF assms(7)] by simp
  moreover have "dir_lookup x (dv ops s' (i_blocks (wd_inode s) ! 0 + 7) @ b) = Some (word_of_nat i)" for b
  proof -
    have "first_idx (\<lambda>k. dname k B = Some x) 128 = Some j"
      using s'(8) j assms(7) by (auto simp: dir_lookup_def first_idx_None_iff first_idx_Some_iff)
    then show ?thesis using dir_lookup_prefix [of B x j b] s'(6,7,9) assms(10) by (simp add: dir_ok_def)
  qed
  ultimately show ?thesis using s'(1-4,12) look(2) un i nw by (intro exI [of _ s']) simp
qed

theorem touch_creates_file_witness:
  "\<exists>s'. do_touch demo_sd ([97] @ 0 # []) demo_fs = Some (0, s') \<and> resolve demo_sd s' [97] (wd_inode s') = Some (Some 1)"
proof -
  have "\<exists>s'. do_touch demo_sd ([97] @ 0 # []) demo_fs = Some (0, s') \<and>
      resolve demo_sd s' [97] (wd_inode s') = Some (Some (word_of_nat 1))"
    using touch_creates_file [OF demo_fs_ok demo_wd_ok, of "[97]" 1 2 "[]"] demo_lookup(1) [of "[97]"]
      demo_free_inode demo_free_entry unfolding demo_wd_view by (simp del: of_nat_1 One_nat_def) blast
  then show ?thesis by simp
qed

text \<open>
  a directory keeps sixteen entries. When the free entry that \<^verbatim>\<open>do_touch\<close> takes lies beyond the
  first sector of the directory's block, it still returns 0, but the sector read back from the disk
  is the old one: a reader with a cleared buffer does not find the name.
\<close>

theorem touch_entry_not_stored:
  assumes "fs_ok ops s" "wd_ok ops s" "0 \<notin> set x" "x \<noteq> []" "length x < 27"
    "dir_lookup x (wd_view ops s) = None" "free_inode_no ops s = Some i" "free_entry (wd_view ops s) = Some j" "16 \<le> j"
  shows "\<exists>s'. do_touch ops (x @ 0 # t) s = Some (0, s') \<and>
    dv ops s' (i_blocks (wd_inode s) ! 0 + 7) = dv ops s (i_blocks (wd_inode s) ! 0 + 7) \<and>
    dir_lookup x (dv ops s' (i_blocks (wd_inode s) ! 0 + 7) @ replicate 3584 0) = None"
proof -
  let ?D = "wd_view ops s" and ?a = "i_blocks (wd_inode s) ! 0 + 7"
  have c: "cstr (x @ 0 # t) = Some x" using assms(3) by simp
  obtain s' B where s': "do_touch ops (x @ 0 # t) s = Some (0, s')" "dv ops s' ?a = take 512 B"
    "16 \<le> j \<longrightarrow> take 512 B = take 512 ?D"
    using touch_disk [OF assms(1,2) c assms(5-8)] by metis
  have eq: "dv ops s' ?a = dv ops s ?a" using s'(2,3) assms(9) dv_length [OF assms(1)] by (simp add: dir_view_def)
  have l: "length ?D = 4096" using assms(2) by (simp add: wd_ok_def dir_ok_def)
  have "dname k (take 512 ?D @ replicate 3584 0) \<noteq> Some x" if k: "k < 128" for k
  proof (cases "k < 16")
    case True
    then show ?thesis using assms(6) k dname_prefix [OF True l] by (auto simp: dir_lookup_def first_idx_None_iff)
  next
    case False
    have "take 512 ?D @ replicate 3584 0 = bput 0 (take 512 ?D) (replicate 4096 0)" using l by (simp add: bput_def)
    then have "bget (32 * k) 27 (take 512 ?D @ replicate 3584 0) = bget (32 * k) 27 (replicate 4096 0)"
      using False l bget_bput_other [of 0 "take 512 ?D" "replicate 4096 0" "32 * k" 27] by simp
    then show ?thesis using zero_dir(2) [OF k] assms(4) by (simp add: dname_def)
  qed
  moreover have "take 512 ?D = dv ops s ?a" using dv_length [OF assms(1)] by (simp add: dir_view_def)
  ultimately have "dir_lookup x (dv ops s' ?a @ replicate 3584 0) = None" by (simp add: eq dir_lookup_def first_idx_None_iff)
  then show ?thesis using s'(1) eq by auto
qed

text \<open>A directory whose first sector is full: the name \<^verbatim>\<open>f\<close> in all of its sixteen entries.\<close>

fun fill_dir :: "nat \<Rightarrow> bytes" where
  "fill_dir 0 = replicate 4096 0"
| "fill_dir (Suc k) = the (set_dentry k [102, 0] 5 IT_FILE (fill_dir k))"

lemma fill_dir_props:
  "k \<le> 16 \<Longrightarrow> dir_ok (fill_dir k) \<and> drop 512 (fill_dir k) = replicate 3584 0 \<and>
    (\<forall>i < 128. dname i (fill_dir k) = Some (if i < k then [102] else [])) \<and>
    (\<forall>i < 128. dentry_ino i (fill_dir k) = (if i < k then 5 else 0))"
proof (induction k)
  case 0
  then show ?case using zero_dir by simp
next
  case (Suc k)
  have c: "cstr [102, 0] = Some [102 :: u8]" "length [102 :: u8] < 27" "k < 128" using Suc by simp_all
  have IH: "dir_ok (fill_dir k)" "drop 512 (fill_dir k) = replicate 3584 0"
    "\<forall>i < 128. dname i (fill_dir k) = Some (if i < k then [102] else [])"
    "\<forall>i < 128. dentry_ino i (fill_dir k) = (if i < k then 5 else 0)" using Suc by simp_all
  obtain b where "set_dentry k [102, 0] 5 IT_FILE (fill_dir k) = Some b" "dir_ok b"
    "\<forall>i < 128. dname i b = (if i = k then Some [102] else dname i (fill_dir k))"
    "\<forall>i < 128. dentry_ino i b = (if i = k then 5 else dentry_ino i (fill_dir k))"
    "\<forall>i < 128. dentry_type i b = (if i = k then IT_FILE else dentry_type i (fill_dir k))"
    "k < 16 \<longrightarrow> drop 512 b = drop 512 (fill_dir k)" "16 \<le> k \<longrightarrow> take 512 b = take 512 (fill_dir k)"
    using set_dentry_spec [OF c(3) IH(1) c(1,2)] .
  then show ?case using IH Suc.prems by (auto simp: less_Suc_eq)
qed

theorem touch_entry_not_stored_witness:
  "\<exists>s'. do_touch demo_sd ([97] @ 0 # []) (demo_fs_dir (fill_dir 16)) = Some (0, s') \<and>
     dv demo_sd s' (data_sec 0 + 7) = dv demo_sd (demo_fs_dir (fill_dir 16)) (data_sec 0 + 7)"
proof -
  let ?D = "fill_dir 16" and ?s = "demo_fs_dir (fill_dir 16)"
  have D: "dir_ok ?D" "drop 512 ?D = replicate 3584 0" "\<forall>i < 128. dname i ?D = Some (if i < 16 then [102] else [])"
    "\<forall>i < 128. dentry_ino i ?D = (if i < 16 then 5 else 0)" using fill_dir_props [of 16] by simp_all
  have v: "dir_view demo_sd ?s (tail_of ?s) demo_root = ?D" using demo_wd_view_dir [of ?D] D(1,2) by (simp add: dir_ok_def demo_wd)
  have "dir_lookup [97] ?D = None" using D(3) by (simp add: dir_lookup_def first_idx_None_iff)
  moreover have "free_entry ?D = Some 16" using D(3,4) by (auto simp: free_entry_def first_idx_Some_iff)
  ultimately show ?thesis
    using touch_entry_not_stored [OF demo_fs_ok demo_wd_ok_dir [OF D(1,2)], of "[97]" 1 16 "[]"] demo_free_inode [of ?D]
    unfolding demo_wd v by auto
qed

end
