(* ===== verification/FsFile.thy ===== *)
theory FsFile
  imports FsDir
begin

text \<open>
  Files of src/kernel/fs/fs.c: blocks of a file, reading, writing and file descriptors.
\<close>

section \<open>Buffers\<close>

lemma rd_wdata_spec:
  assumes "fs_ok ops s"
  obtains c where "rd_wdata ops a s = Some (s\<lparr>bc := c, wdata_buffer := dv ops s (a + 7) @ drop 512 (wdata_buffer s)\<rparr>)"
    "bc_ok ops c" "bc_view ops c = dv ops s"
proof -
  have "bput 0 (dv ops s (a + 7)) (wdata_buffer s) = dv ops s (a + 7) @ drop 512 (wdata_buffer s)"
    using dv_length [OF assms] by (simp add: bput_def)
  then show ?thesis
    using that [of "bread_bc ops 8 a (bc s)"] rd_eqs(4) [OF assms, of a] rd_st_ok [OF assms, of 8 a] rd_st_dv [OF assms, of 8 a]
    by (simp add: rd_st_def fs_ok_def)
qed

lemma rd_rdata_spec:
  assumes "fs_ok ops s" "0 < n"
  obtains c where "rd_rdata ops n a s =
      Some (s\<lparr>bc := c, rdata_buffer := dv ops s (a + word_of_nat (n - 1)) @ drop 512 (rdata_buffer s)\<rparr>)"
    "bc_ok ops c" "bc_view ops c = dv ops s"
proof -
  have "bput 0 (dv ops s (a + word_of_nat (n - 1))) (rdata_buffer s) = dv ops s (a + word_of_nat (n - 1)) @ drop 512 (rdata_buffer s)"
    using dv_length [OF assms(1)] by (simp add: bput_def)
  then show ?thesis
    using that [of "bread_bc ops n a (bc s)"] rd_eqs(3) [OF assms, of a] rd_st_ok [OF assms, of a] rd_st_dv [OF assms, of a]
    by (simp add: rd_st_def fs_ok_def)
qed

lemma wr_wdata_spec:
  assumes "fs_ok ops s"
  obtains c where "wr_wdata ops a s = Some (s\<lparr>bc := c\<rparr>)" "bc_ok ops c"
    "bc_view ops c = put_run a 8 (take 512 (wdata_buffer s)) (dv ops s)"
  using that [of "bwrite_bc ops (wdata_buffer s) 8 a (bc s)"] wr_eqs(4) [OF assms, of a]
    wr_st_ok [OF assms, of "wdata_buffer s" 8 a] wr_st_dv [OF assms, of "wdata_buffer s" 8 a] fs_okD(8) [OF assms]
  by (simp add: wr_st_def fs_ok_def put_run_def fun_eq_iff)

lemma wr_rdata_spec:
  assumes "fs_ok ops s"
  obtains c where "wr_rdata ops a s = Some (s\<lparr>bc := c\<rparr>)" "bc_ok ops c"
    "bc_view ops c = put_run a 8 (take 512 (rdata_buffer s)) (dv ops s)"
  using that [of "bwrite_bc ops (rdata_buffer s) 8 a (bc s)"] wr_eqs(3) [OF assms, of a]
    wr_st_ok [OF assms, of "rdata_buffer s" 8 a] wr_st_dv [OF assms, of "rdata_buffer s" 8 a] fs_okD(7) [OF assms]
  by (simp add: wr_st_def fs_ok_def put_run_def fun_eq_iff)

lemma wr_inode_spec:
  assumes "fs_ok ops s" "n < 2 ^ 32"
  obtains c where "wr_inode ops n a s = Some (s\<lparr>bc := c\<rparr>)" "bc_ok ops c"
    "bc_view ops c = put_run a n (inode_buffer s) (dv ops s)"
  using that [of "bwrite_bc ops (inode_buffer s) n a (bc s)"] wr_eqs(1) [OF assms, of a]
    wr_st_ok [OF assms(1), of "inode_buffer s" n a] wr_st_dv [OF assms(1), of "inode_buffer s" n a] fs_okD(5) [OF assms(1)] assms(2)
  by (simp add: wr_st_def fs_ok_def put_run_def fun_eq_iff)

lemma rd_inode_spec:
  assumes "fs_ok ops s"
  obtains c where "rd_inode ops a s = Some (s\<lparr>bc := c, inode_buffer := dv ops s a\<rparr>)" "bc_ok ops c" "bc_view ops c = dv ops s"
  using that [of "bread_bc ops 1 a (bc s)"] rd_eqs(1) [OF assms, of a] rd_st_ok [OF assms, of 1 a] rd_st_dv [OF assms, of 1 a]
  by (simp add: rd_st_def fs_ok_def)

section \<open>The first block of a file\<close>

text \<open>Setting one block number in the inode buffer.\<close>

lemma inode_at_set_block:
  assumes "64 * k + 64 \<le> length b" "j < 10"
  shows "inode_at k (put_u32 (64 * k + 24 + 4 * j) v b) = (inode_at k b)\<lparr>i_blocks := (i_blocks (inode_at k b))[j := v]\<rparr>"
proof -
  let ?b = "put_u32 (64 * k + 24 + 4 * j) v b"
  have o: "64 * k + 24 + 4 * j + 4 \<le> length b" using assms by simp
  have g: "get_u32 (64 * k + x) ?b = get_u32 (64 * k + x) b" if "x + 4 \<le> 24" for x
    using o that by (intro get_put_u32_other) simp_all
  have g': "get_u32 (64 * k + 24 + 4 * i) ?b = (if i = j then v else get_u32 (64 * k + 24 + 4 * i) b)" for i
    using o get_put_u32_other [OF o, of "64 * k + 24 + 4 * i"] by (cases i j rule: linorder_cases) (auto simp: get_put_u32)
  have h: "get_u16 (64 * k + 2) ?b = get_u16 (64 * k + 2) b"
    using o by (simp add: get_u16_def put_u32_def bget_bput_other)
  have n: "?b ! (64 * k) = b ! (64 * k)" "?b ! Suc (64 * k) = b ! Suc (64 * k)"
    using o assms by (simp_all add: put_u32_def nth_bput)
  have "map (\<lambda>i. get_u32 (64 * k + 24 + 4 * i) ?b) [0..<10] = (map (\<lambda>i. get_u32 (64 * k + 24 + 4 * i) b) [0..<10])[j := v]"
    using assms(2) by (intro nth_equalityI) (auto simp: g' nth_list_update)
  then show ?thesis using g [of 4] g [of 8] g [of 12] g [of 16] g [of 20] h n by (simp add: inode_at_def Let_def)
qed

lemma ino_block_eq: "j < 10 \<Longrightarrow> ino_block k j s = i_blocks (inode_at k (inode_buffer s)) ! j"
  by (simp add: ino_block_def inode_at_def Let_def)

lemma data_sec_nonzero: "i < 131003 \<Longrightarrow> data_sec i \<noteq> 0"
proof
  assume "i < 131003" "data_sec i = 0"
  then show False using unat_data_sec [of i] by simp
qed

lemma block_direct [simp]: "blockid2sector ops 0 inode s = Some (i_blocks inode ! 0, s)"
  by (simp add: blockid2sector_def DIRECT_BLOCK_NUM_def)

text \<open>The file has its first block, or there is one free for it.\<close>

definition first_block_ok :: "'d sd_ops \<Rightarrow> inode_t \<Rightarrow> 'd fsst \<Rightarrow> bool" where
  "first_block_ok ops i s \<longleftrightarrow> (\<exists>q < 131003. i_blocks i ! 0 = data_sec q) \<or>
     (i_blocks i ! 0 = 0 \<and> (\<exists>q < 131003. \<not> bit_at (bmap_view ops s) q))"

lemma first_idx_ex: "(\<exists>i < n. P i) \<Longrightarrow> \<exists>i. first_idx P n = Some i"
  by (cases "first_idx P n") (auto simp: first_idx_None_iff)

lemma block_for_write_spec:
  assumes ok: "fs_ok ops s" and k: "k < 8" and b: "first_block_ok ops (inode_at k (inode_buffer s)) s"
  obtains q c m rb ib where
    "block_for_write ops 0 k s = Some (data_sec q, s\<lparr>bc := c, block_map := m, rdata_buffer := rb, inode_buffer := ib\<rparr>)"
    "q < 131003" "bc_ok ops c" "length m = 16384" "length rb = 4096" "length ib = 512"
    "inode_at k ib = (inode_at k (inode_buffer s))\<lparr>i_blocks := (i_blocks (inode_at k (inode_buffer s)))[0 := data_sec q]\<rparr>"
    "\<forall>a. \<not> in_run (data_sec q) 8 a \<and> \<not> in_run 257 32 a \<longrightarrow> bc_view ops c a = dv ops s a"
    "\<forall>j < 8. j \<noteq> k \<longrightarrow> inode_at j ib = inode_at j (inode_buffer s)"
proof (cases "i_blocks (inode_at k (inode_buffer s)) ! 0 = 0")
  case False
  then obtain q where q: "q < 131003" "i_blocks (inode_at k (inode_buffer s)) ! 0 = data_sec q"
    using b by (auto simp: first_block_ok_def)
  then have "block_for_write ops 0 k s = Some (data_sec q, s)" using False by (simp add: block_for_write_def)
  moreover have "s = s\<lparr>bc := bc s, block_map := block_map s, rdata_buffer := rdata_buffer s, inode_buffer := inode_buffer s\<rparr>" by simp
  moreover have "inode_at k (inode_buffer s) = (inode_at k (inode_buffer s))\<lparr>i_blocks := (i_blocks (inode_at k (inode_buffer s)))[0 := data_sec q]\<rparr>"
    by (metis q(2) list_update_id inode_t.surjective inode_t.update_convs(9))
  ultimately show ?thesis using that q(1) fs_okD [OF ok] by (metis dv_def)
next
  case True
  have "data_sec q \<noteq> 0" if "q < 131003" for q by (rule data_sec_nonzero [OF that])
  then obtain i where i: "first_idx (\<lambda>i. \<not> bit_at (bmap_view ops s) i) 131003 = Some i"
    using True b first_idx_ex [of 131003 "\<lambda>i. \<not> bit_at (bmap_view ops s) i"] by (auto simp: first_block_ok_def)
  have iq: "i < 131003" using i by (simp add: first_idx_Some_iff)
  obtain c m where c: "find_free_block ops s = Some (data_sec i, s\<lparr>bc := c, block_map := m, rdata_buffer := replicate 4096 0\<rparr>)" "bc_ok ops c"
    "length m = 16384" "\<forall>j. bit_at m j \<longleftrightarrow> j = i \<or> bit_at (bmap_view ops s) j"
    "\<forall>b. bc_view ops c b = (if in_run (data_sec i) 8 b then replicate 512 0 else if in_run 257 32 b then take 512 m else dv ops s b)"
    using find_free_block_spec [OF ok i] .
  let ?ib = "put_u32 (64 * k + 24 + 4 * 0) (data_sec i) (inode_buffer s)"
  have l: "length (inode_buffer s) = 512" using fs_okD(5) [OF ok] .
  have ia: "inode_at k ?ib = (inode_at k (inode_buffer s))\<lparr>i_blocks := (i_blocks (inode_at k (inode_buffer s)))[0 := data_sec i]\<rparr>"
    using inode_at_set_block [of k "inode_buffer s" 0] k l by simp
  have oth: "inode_at j ?ib = inode_at j (inode_buffer s)" if "j < 8" "j \<noteq> k" for j
  proof -
    have "64 * j + 64 \<le> 64 * k + 24 \<or> 64 * k + 24 + 4 \<le> 64 * j" using that(2) by (cases "j < k") auto
    then have "bget (64 * j) 64 ?ib = bget (64 * j) 64 (inode_buffer s)"
      using k l that unfolding put_u32_def by (intro bget_bput_other) simp_all
    then show ?thesis using inode_at_slot [of j ?ib] inode_at_slot [of j "inode_buffer s"] that k l by simp
  qed
  have "block_for_write ops 0 k s = Some (data_sec i,
      s\<lparr>bc := c, block_map := m, rdata_buffer := replicate 4096 0, inode_buffer := ?ib\<rparr>)"
    using True c(1) ia by (simp add: block_for_write_def alloc_inode_block_def DIRECT_BLOCK_NUM_def set_block_def)
  then show ?thesis using that [of i ?ib] c iq k l ia oth by simp
qed

section \<open>The copying loops inside a block\<close>

abbreviation wpos :: "'d fsst \<Rightarrow> nat \<Rightarrow> nat" where "wpos s fd \<equiv> unat (write_pos (fdesc_array s fd))"
abbreviation rpos :: "'d fsst \<Rightarrow> nat \<Rightarrow> nat" where "rpos s fd \<equiv> unat (read_pos (fdesc_array s fd))"

definition advance_w :: "nat \<Rightarrow> nat \<Rightarrow> 'd fsst \<Rightarrow> 'd fsst" where
  "advance_w fd n s = upd_fd fd (\<lambda>f. f\<lparr>write_pos := write_pos f + word_of_nat n\<rparr>) s"

definition advance_r :: "nat \<Rightarrow> nat \<Rightarrow> 'd fsst \<Rightarrow> 'd fsst" where
  "advance_r fd n s = upd_fd fd (\<lambda>f. f\<lparr>read_pos := read_pos f + word_of_nat n\<rparr>) s"

lemma unat_plus_1: "unat (w :: u32) + 1 < 2 ^ 32 \<Longrightarrow> unat (w + 1) = unat w + 1"
  by (simp add: unat_word_ariths)

lemma unat_plus: "unat (w :: u32) + n < 2 ^ 32 \<Longrightarrow> unat (w + word_of_nat n) = unat w + n"
  by (simp add: unat_word_ariths unat_of_nat)

lemma bput_Cons: "p + Suc (length cs) \<le> length b \<Longrightarrow> bput (Suc p) cs (b[p := c]) = bput p (c # cs) b"
  by (simp add: bput_def take_Suc_conv_app_nth)

lemma bget_Cons: "p + Suc n \<le> length b \<Longrightarrow> bget p (Suc n) b = b ! p # bget (Suc p) n b"
  by (simp add: bget_def Cons_nth_drop_Suc [symmetric])

lemma write_loop_inner:
  assumes "wpos s fd = p" "0 < p" "p + length cs < 4096" "length (wdata_buffer s) = 4096"
  shows "write_loop ops fd k cs s = Some ((advance_w fd (length cs) s)\<lparr>wdata_buffer := bput p cs (wdata_buffer s)\<rparr>)"
  using assms
proof (induction cs arbitrary: s p)
  case Nil
  then show ?case by (simp add: advance_w_def upd_fd_def bput_def)
next
  case (Cons c cs)
  let ?s = "upd_fd fd (\<lambda>f. f\<lparr>write_pos := write_pos f + 1\<rparr>) (s\<lparr>wdata_buffer := (wdata_buffer s)[p := c]\<rparr>)"
  have "write_loop ops fd k cs ?s = Some ((advance_w fd (length cs) ?s)\<lparr>wdata_buffer := bput (Suc p) cs (wdata_buffer ?s)\<rparr>)"
    using Cons.prems by (intro Cons.IH) (simp_all add: upd_fd_def unat_plus_1)
  moreover have "write_loop ops fd k (c # cs) s = write_loop ops fd k cs ?s"
    using Cons.prems by (simp add: BLOCK_SIZE_def upd_fd_def)
  ultimately show ?case
    using Cons.prems by (simp add: advance_w_def upd_fd_def bput_Cons add.assoc)
qed

lemma read_loop_inner:
  assumes "rpos s fd = p" "0 < p" "p + n \<le> 4096" "length (rdata_buffer s) = 4096"
  shows "read_loop ops fd i n s = Some (bget p n (rdata_buffer s), advance_r fd n s)"
  using assms
proof (induction n arbitrary: s p)
  case 0
  then show ?case by (simp add: advance_r_def upd_fd_def bget_def)
next
  case (Suc n)
  let ?s = "upd_fd fd (\<lambda>f. f\<lparr>read_pos := read_pos f + 1\<rparr>) s"
  have "read_loop ops fd i n ?s = Some (bget (Suc p) n (rdata_buffer ?s), advance_r fd n ?s)"
    using Suc.prems by (intro Suc.IH) (simp_all add: upd_fd_def unat_plus_1)
  then show ?case
    using Suc.prems by (simp add: BLOCK_SIZE_def advance_r_def upd_fd_def bget_Cons add.assoc Let_def)
qed

section \<open>Writing and reading\<close>

text \<open>
  The loop of \<^verbatim>\<open>do_write\<close> from the state in which the first block is in the buffer. At position 0 the
  block is loaded once more, which changes nothing.
\<close>

lemma write_loop_first:
  assumes ok: "fs_ok ops s" and p: "wpos s fd = p" "0 < length cs" "p + length cs < 4096"
    and sec: "i_blocks (inode_at k (inode_buffer s)) ! 0 = sec" "sec \<noteq> 0"
    and W: "wdata_buffer s = dv ops s (sec + 7) @ w"
  obtains c where "write_loop ops fd k cs s = Some ((advance_w fd (length cs) s)\<lparr>bc := c, wdata_buffer := bput p cs (wdata_buffer s)\<rparr>)"
    "bc_ok ops c" "bc_view ops c = dv ops s"
proof (cases "p = 0")
  case False
  then have "write_loop ops fd k cs s = Some ((advance_w fd (length cs) s)\<lparr>wdata_buffer := bput p cs (wdata_buffer s)\<rparr>)"
    using write_loop_inner [OF p(1) _ p(3)] fs_okD(8) [OF ok] by simp
  moreover have "(advance_w fd (length cs) s)\<lparr>wdata_buffer := bput p cs (wdata_buffer s)\<rparr> =
    (advance_w fd (length cs) s)\<lparr>bc := bc s, wdata_buffer := bput p cs (wdata_buffer s)\<rparr>" by (simp add: advance_w_def upd_fd_def)
  ultimately show ?thesis using that [of "bc s"] fs_okD(1) [OF ok] by (simp add: dv_def)
next
  case True
  obtain x xs where cs: "cs = x # xs" using p(2) by (cases cs) auto
  have l: "length (dv ops s (sec + 7)) = 512" by (rule dv_length [OF ok])
  have b: "block_for_write ops 0 k s = Some (sec, s)" using sec by (simp add: block_for_write_def)
  obtain c where c: "rd_wdata ops sec s = Some (s\<lparr>bc := c, wdata_buffer := dv ops s (sec + 7) @ drop 512 (wdata_buffer s)\<rparr>)"
    "bc_ok ops c" "bc_view ops c = dv ops s" using rd_wdata_spec [OF ok] .
  have r: "rd_wdata ops sec s = Some (s\<lparr>bc := c\<rparr>)" using c(1) W l by simp
  let ?s = "upd_fd fd (\<lambda>f. f\<lparr>write_pos := write_pos f + 1\<rparr>) (s\<lparr>bc := c, wdata_buffer := (wdata_buffer s)[0 := x]\<rparr>)"
  have "write_loop ops fd k cs s = write_loop ops fd k xs ?s"
    using p True b r by (simp add: cs BLOCK_SIZE_def upd_fd_def)
  also have "\<dots> = Some ((advance_w fd (length xs) ?s)\<lparr>wdata_buffer := bput 1 xs (wdata_buffer ?s)\<rparr>)"
    using p True cs fs_okD(8) [OF ok] by (intro write_loop_inner) (simp_all add: upd_fd_def unat_plus_1)
  finally have "write_loop ops fd k cs s = Some ((advance_w fd (length cs) s)\<lparr>bc := c, wdata_buffer := bput p cs (wdata_buffer s)\<rparr>)"
    using p True cs fs_okD(8) [OF ok] bput_Cons [of 0 xs "wdata_buffer s" x]
    by (simp add: advance_w_def upd_fd_def add.assoc)
  then show ?thesis using that c(2,3) by blast
qed

lemma read_loop_first:
  assumes ok: "fs_ok ops s" and p: "rpos s fd = p" "0 < n" "p + n \<le> 512"
    and sec: "i_blocks i ! 0 = sec" and R: "take 512 (rdata_buffer s) = dv ops s (sec + 7)"
  obtains c rb where "read_loop ops fd i n s = Some (bget p n (dv ops s (sec + 7)), (advance_r fd n s)\<lparr>bc := c, rdata_buffer := rb\<rparr>)"
    "bc_ok ops c" "bc_view ops c = dv ops s" "length rb = 4096"
proof (cases "p = 0")
  case False
  then have "read_loop ops fd i n s = Some (bget p n (rdata_buffer s), advance_r fd n s)"
    using read_loop_inner [OF p(1)] p(3) fs_okD(7) [OF ok] by simp
  moreover have "bget p n (take 512 (rdata_buffer s)) = bget p n (rdata_buffer s)"
    using p(3) by (simp add: bget_def drop_take min_absorb1)
  then have "bget p n (rdata_buffer s) = bget p n (dv ops s (sec + 7))" unfolding R by (rule sym)
  moreover have "(advance_r fd n s)\<lparr>bc := bc s, rdata_buffer := rdata_buffer s\<rparr> = advance_r fd n s" by (simp add: advance_r_def upd_fd_def)
  ultimately have e: "read_loop ops fd i n s =
      Some (bget p n (dv ops s (sec + 7)), (advance_r fd n s)\<lparr>bc := bc s, rdata_buffer := rdata_buffer s\<rparr>)" by simp
  show ?thesis by (rule that [OF e fs_okD(1) [OF ok] dv_def [symmetric] fs_okD(7) [OF ok]])
next
  case True
  obtain m where n: "n = Suc m" using p(2) by (cases n) auto
  let ?rb = "dv ops s (sec + 7) @ drop 512 (rdata_buffer s)"
  have l: "length (dv ops s (sec + 7)) = 512" by (rule dv_length [OF ok])
  obtain c where c: "rd_rdata ops 8 sec s = Some (s\<lparr>bc := c, rdata_buffer := dv ops s (sec + word_of_nat (8 - 1)) @ drop 512 (rdata_buffer s)\<rparr>)"
    "bc_ok ops c" "bc_view ops c = dv ops s" using rd_rdata_spec [OF ok, of 8 sec] by auto
  let ?s = "upd_fd fd (\<lambda>f. f\<lparr>read_pos := read_pos f + 1\<rparr>) (s\<lparr>bc := c, rdata_buffer := ?rb\<rparr>)"
  have "read_loop ops fd i m ?s = Some (bget 1 m (rdata_buffer ?s), advance_r fd m ?s)"
    using p True n l fs_okD(7) [OF ok] by (intro read_loop_inner) (simp_all add: upd_fd_def unat_plus_1)
  moreover have "bget 1 m ?rb = bget 1 m (dv ops s (sec + 7))" using p n l by (simp add: bget_def)
  ultimately have "read_loop ops fd i n s = Some (bget p n (dv ops s (sec + 7)), (advance_r fd n s)\<lparr>bc := c, rdata_buffer := ?rb\<rparr>)"
    using p True c(1) n sec l bget_Cons [of 0 m "dv ops s (sec + 7)"]
    by (simp add: BLOCK_SIZE_def advance_r_def upd_fd_def add.assoc Let_def nth_append)
  then show ?thesis using that c(2,3) l fs_okD(7) [OF ok] by simp
qed

text \<open>The inode after a write that ended at position \<open>e\<close>, in block \<open>b\<close>, at time \<open>t\<close>.\<close>

definition written :: "inode_t \<Rightarrow> u32 \<Rightarrow> u32 \<Rightarrow> u32 \<Rightarrow> inode_t" where
  "written i b e t = i\<lparr>i_blocks := (i_blocks i)[0 := b], i_size := (if e > i_size i then e else i_size i), i_mtime := t, i_atime := t\<rparr>"

lemma written_blocks [simp]: "length (i_blocks (written i b e t)) = length (i_blocks i)"
  by (simp add: written_def)

lemma do_write_spec:
  assumes ok: "fs_ok ops s" and d: "sint fd = int d" "d < NUM_FDESCS" and n: "n = fd_ino (fdesc_array s d)"
    and p: "wpos s d = p" "0 < length buff" "p + length buff \<le> 512" "sint len = int (length buff)"
    and b: "first_block_ok ops (disk_inode ops s n) s"
  obtains s' q x d2 where "do_write ops fd buff len s = Some (sint len, s')" "fs_ok ops s'" "q < 131003"
    "fdesc_array s' = (fdesc_array s)(d := (fdesc_array s d)\<lparr>write_pos := write_pos (fdesc_array s d) + word_of_nat (length buff)\<rparr>)"
    "inode_at (inodeidx2offset n) (inode_buffer s') =
       written (disk_inode ops s n) (data_sec q) (write_pos (fdesc_array s d) + word_of_nat (length buff)) (tick s 0)"
    "length x = 512" "dv ops s' = put_run (inodeidx2sector n) 8 (inode_buffer s') (put_run (data_sec q) 8 (bput p buff x) d2)"
    "\<forall>a. \<not> in_run (data_sec q) 8 a \<and> \<not> in_run 257 32 a \<longrightarrow> d2 a = dv ops s a"
proof -
  let ?k = "inodeidx2offset n" and ?a = "inodeidx2sector n" and ?len = "length buff"
  obtain c1 where c1: "rd_inode ops ?a s = Some (s\<lparr>bc := c1, inode_buffer := dv ops s ?a\<rparr>)" "bc_ok ops c1" "bc_view ops c1 = dv ops s"
    using rd_inode_spec [OF ok] .
  let ?s1 = "s\<lparr>bc := c1, inode_buffer := dv ops s ?a\<rparr>"
  have ok1: "fs_ok ops ?s1" using ok c1(2) dv_length [OF ok] by (simp add: fs_ok_def)
  have di: "disk_inode ops s n = inode_at ?k (dv ops s ?a)" by (simp add: disk_inode_def inode_of_def)
  have b1: "first_block_ok ops (inode_at ?k (inode_buffer ?s1)) ?s1"
    using b c1(3) by (simp add: first_block_ok_def di bmap_view_def)
  obtain q c2 m rb ib where c2:
    "block_for_write ops 0 ?k ?s1 = Some (data_sec q, ?s1\<lparr>bc := c2, block_map := m, rdata_buffer := rb, inode_buffer := ib\<rparr>)"
    "q < 131003" "bc_ok ops c2" "length m = 16384" "length rb = 4096" "length ib = 512"
    "inode_at ?k ib = (inode_at ?k (inode_buffer ?s1))\<lparr>i_blocks := (i_blocks (inode_at ?k (inode_buffer ?s1)))[0 := data_sec q]\<rparr>"
    "\<forall>a. \<not> in_run (data_sec q) 8 a \<and> \<not> in_run 257 32 a \<longrightarrow> bc_view ops c2 a = dv ops ?s1 a"
    "\<forall>j < 8. j \<noteq> ?k \<longrightarrow> inode_at j ib = inode_at j (inode_buffer ?s1)"
    using block_for_write_spec [OF ok1 offset_less b1] .
  let ?s2 = "?s1\<lparr>bc := c2, block_map := m, rdata_buffer := rb, inode_buffer := ib\<rparr>"
  have ok2: "fs_ok ops ?s2" using ok1 c2 by (simp add: fs_ok_def)
  obtain c3 where c3: "rd_wdata ops (data_sec q) ?s2 =
      Some (?s2\<lparr>bc := c3, wdata_buffer := dv ops ?s2 (data_sec q + 7) @ drop 512 (wdata_buffer ?s2)\<rparr>)"
    "bc_ok ops c3" "bc_view ops c3 = dv ops ?s2" using rd_wdata_spec [OF ok2] .
  define x where "x = dv ops ?s2 (data_sec q + 7)"
  define W where "W = x @ drop 512 (wdata_buffer s)"
  have lx: "length x = 512" unfolding x_def by (rule dv_length [OF ok2])
  have lW: "length W = 4096" using lx fs_okD(8) [OF ok] by (simp add: W_def)
  let ?s3 = "?s2\<lparr>bc := c3, wdata_buffer := W\<rparr>"
  have r3: "rd_wdata ops (data_sec q) ?s2 = Some ?s3" using c3(1) by (simp add: W_def x_def)
  have ok3: "fs_ok ops ?s3" using ok2 c3(2) lW by (simp add: fs_ok_def)
  have l4: "p + ?len < 4096" using p by simp
  have sec: "i_blocks (inode_at ?k (inode_buffer ?s3)) ! 0 = data_sec q" using c2(7) by simp
  have W3: "wdata_buffer ?s3 = dv ops ?s3 (data_sec q + 7) @ drop 512 (wdata_buffer s)" using c3(3) by (simp add: W_def x_def)
  have p3: "wpos ?s3 d = p" using p(1) by simp
  obtain c4 where c4: "write_loop ops d ?k buff ?s3 =
      Some ((advance_w d ?len ?s3)\<lparr>bc := c4, wdata_buffer := bput p buff (wdata_buffer ?s3)\<rparr>)"
    "bc_ok ops c4" "bc_view ops c4 = dv ops ?s3"
    using write_loop_first [OF ok3 p3 p(2) l4 sec data_sec_nonzero [OF c2(2)] W3] .
  let ?s4 = "(advance_w d ?len ?s3)\<lparr>bc := c4, wdata_buffer := bput p buff (wdata_buffer ?s3)\<rparr>"
  have ok4: "fs_ok ops ?s4" using ok3 c4(2) lW l4 by (simp add: fs_ok_def advance_w_def upd_fd_def)
  have w4: "wpos ?s4 d = p + ?len" using p unat_plus [of "write_pos (fdesc_array s d)" ?len] by (simp add: advance_w_def upd_fd_def)
  obtain c5 where c5: "wr_wdata ops (data_sec q) ?s4 = Some (?s4\<lparr>bc := c5\<rparr>)" "bc_ok ops c5"
    "bc_view ops c5 = put_run (data_sec q) 8 (take 512 (wdata_buffer ?s4)) (dv ops ?s4)" using wr_wdata_spec [OF ok4] .
  have tk: "take 512 (bput p buff W) = bput p buff x" using p lx by (simp add: bput_def W_def)
  define I where "I = written (disk_inode ops s n) (data_sec q) (write_pos (fdesc_array s d) + word_of_nat ?len) (tick s 0)"
  let ?s6 = "?s4\<lparr>bc := c5, fs_clk_reads := Suc (fs_clk_reads s), inode_buffer := set_inode ?k I ib\<rparr>"
  have lI: "length (i_blocks I) = 10" by (simp add: I_def di)
  have ok6: "fs_ok ops ?s6" using ok4 c5(2) c2(6) lI by (simp add: fs_ok_def)
  have eight: "(8 :: nat) < 2 ^ 32" by simp
  obtain c6 where c6: "wr_inode ops 8 ?a ?s6 = Some (?s6\<lparr>bc := c6\<rparr>)" "bc_ok ops c6"
    "bc_view ops c6 = put_run ?a 8 (inode_buffer ?s6) (dv ops ?s6)" using wr_inode_spec [OF ok6 eight] .
  have bs: "p div 4096 = 0" "(p + ?len) div 4096 = 0" "(p + ?len) mod 4096 \<noteq> 0" using p(2) l4 by auto
  have f4: "fdesc_array ?s4 = (fdesc_array s)(d := (fdesc_array s d)\<lparr>write_pos := write_pos (fdesc_array s d) + word_of_nat ?len\<rparr>)"
    by (simp add: advance_w_def upd_fd_def)
  have tail: "(let inode = inode_at ?k ib; inode1 = (if write_pos (fdesc_array ?s4 d) > i_size inode then inode\<lparr>i_size := write_pos (fdesc_array ?s4 d)\<rparr> else inode)
      in inode1\<lparr>i_mtime := tick s 0, i_atime := tick s 0\<rparr>) = I"
    using c2(7) unfolding f4 by (simp add: I_def written_def di Let_def)
  have "do_write ops fd buff len s = do {
     s5 \<leftarrow> wr_wdata ops (data_sec q) ?s4;
     let inode = inode_at ?k (inode_buffer s5);
     let inode1 = (if write_pos (fdesc_array s5 d) > i_size inode then inode\<lparr>i_size := write_pos (fdesc_array s5 d)\<rparr> else inode);
     let (t, s6) = fs_timer s5;
     s7 \<leftarrow> wr_inode ops 8 ?a (s6\<lparr>inode_buffer := set_inode ?k (inode1\<lparr>i_mtime := t, i_atime := t\<rparr>) (inode_buffer s6)\<rparr>);
     Some (sint len, s7) }"
  proof -
    have ib: "inode_buffer ?s4 = ib" by (simp add: advance_w_def upd_fd_def)
    have nd: "nat (sint fd) = d" using d by simp
    have "c_assert (0 \<le> sint fd \<and> sint fd < int NUM_FDESCS) = Some ()" "c_assert (length buff = nat (sint len)) = Some ()"
      using d p(4) by simp_all
    then show ?thesis
      unfolding do_write_def Let_def nd n [symmetric] BLOCK_SIZE_def
      using c1(1) c2(1) r3 c4(1) p(1) bs w4 ib sec by simp
  qed
  moreover have "inode_buffer ?s4 = ib" "fs_timer (?s4\<lparr>bc := c5\<rparr>) = (tick s 0, ?s4\<lparr>bc := c5, fs_clk_reads := Suc (fs_clk_reads s)\<rparr>)"
    by (simp_all add: advance_w_def upd_fd_def fs_timer_def tick_def)
  moreover have "wr_inode ops 8 ?a (?s4\<lparr>bc := c5, fs_clk_reads := Suc (fs_clk_reads s), inode_buffer := set_inode ?k I ib\<rparr>) = Some (?s6\<lparr>bc := c6\<rparr>)"
    using c6(1) by simp
  ultimately have "do_write ops fd buff len s = Some (sint len, ?s6\<lparr>bc := c6\<rparr>)"
    using c5(1) tail unfolding Let_def by (simp cong: if_cong)
  moreover have "dv ops (?s6\<lparr>bc := c6\<rparr>) = put_run ?a 8 (inode_buffer ?s6) (put_run (data_sec q) 8 (bput p buff x) (bc_view ops c2))"
    using c6(3) c5(3) c4(3) c3(3) tk by simp
  moreover have "fs_ok ops (?s6\<lparr>bc := c6\<rparr>)" using ok6 c6(2) by (simp add: fs_ok_def)
  ultimately show ?thesis
    using that [of "?s6\<lparr>bc := c6\<rparr>" q x "bc_view ops c2"] c2(2,6,8) c1(3) lx lI
    by (simp add: advance_w_def upd_fd_def inode_at_set I_def)
qed

lemma in_run_first [simp]: "0 < n \<Longrightarrow> in_run a n a"
  by (simp add: in_run_def)

text \<open>The eight sectors written with an inode end below the data area for all but the last inodes.\<close>

lemma inode_run_low:
  assumes "unat n < 4040" "q < 131003" "in_run (data_sec q) 8 b"
  shows "\<not> in_run (inodeidx2sector n) 8 b"
proof -
  have "unat n div 8 \<le> 504" using assms(1) by simp
  moreover have "8 * q + 802 \<le> unat b" using data_sec_run [OF assms(2)] assms(3) by simp
  ultimately show ?thesis using in_run_unat [of "inodeidx2sector n" 8 b] inode_sector_unat [of n] assms(1) by simp
qed

lemma do_read_spec:
  assumes ok: "fs_ok ops s" and d: "sint fd = int d" "d < NUM_FDESCS" "fd_valid (fdesc_array s d) \<noteq> 0"
    "fd_mode (fdesc_array s d) \<noteq> ucast O_WRONLY" and n: "n = fd_ino (fdesc_array s d)"
    and p: "rpos s d = p" "0 < len'" "p + len' \<le> 512" "sint len = int len'"
    and b: "i_blocks (disk_inode ops s n) ! 0 = b" "dv ops s b = dv ops s (b + 7)"
  obtains s' where "do_read ops fd len s = Some (sint len, bget p len' (dv ops s b), s')" "fs_ok ops s'"
    "dv ops s' = put_inode n ((disk_inode ops s n)\<lparr>i_atime := tick s 0\<rparr>) (dv ops s)"
    "rpos s' d = p + len'"
proof -
  let ?k = "inodeidx2offset n" and ?a = "inodeidx2sector n" and ?i = "disk_inode ops s n"
  obtain c1 where c1: "rd_inode ops ?a s = Some (s\<lparr>bc := c1, inode_buffer := dv ops s ?a\<rparr>)" "bc_ok ops c1" "bc_view ops c1 = dv ops s"
    using rd_inode_spec [OF ok] .
  let ?s1 = "s\<lparr>bc := c1, inode_buffer := dv ops s ?a\<rparr>"
  have di: "inode_at ?k (dv ops s ?a) = ?i" by (simp add: disk_inode_def inode_of_def)
  have ok1: "fs_ok ops ?s1" using ok c1(2) dv_length [OF ok] by (simp add: fs_ok_def)
  have one: "(0 :: nat) < 1" by simp
  obtain c2 where c2: "rd_rdata ops 1 b ?s1 =
      Some (?s1\<lparr>bc := c2, rdata_buffer := dv ops ?s1 (b + word_of_nat (1 - 1)) @ drop 512 (rdata_buffer ?s1)\<rparr>)"
    "bc_ok ops c2" "bc_view ops c2 = dv ops ?s1" using rd_rdata_spec [OF ok1 one] .
  let ?rb = "dv ops s b @ drop 512 (rdata_buffer s)"
  let ?s2 = "?s1\<lparr>bc := c2, rdata_buffer := ?rb\<rparr>"
  have r2: "rd_rdata ops 1 b ?s1 = Some ?s2" using c2(1) c1(3) by simp
  have lb: "length (dv ops s b) = 512" by (rule dv_length [OF ok])
  have ok2: "fs_ok ops ?s2" using ok1 c2(2) lb by (simp add: fs_ok_def)
  have dv2: "dv ops ?s2 = dv ops s" using c2(3) c1(3) by simp
  have R: "take 512 (rdata_buffer ?s2) = dv ops ?s2 (b + 7)" using lb b(2) unfolding dv2 by simp
  have p2: "rpos ?s2 d = p" using p(1) by simp
  obtain c3 rb where c3: "read_loop ops d ?i len' ?s2 =
      Some (bget p len' (dv ops ?s2 (b + 7)), (advance_r d len' ?s2)\<lparr>bc := c3, rdata_buffer := rb\<rparr>)"
    "bc_ok ops c3" "bc_view ops c3 = dv ops ?s2" "length rb = 4096"
    using read_loop_first [OF ok2 p2 p(2,3) b(1) R] .
  let ?s4 = "(advance_r d len' ?s2)\<lparr>bc := c3, rdata_buffer := rb\<rparr>"
  let ?I = "set_inode ?k (?i\<lparr>i_atime := tick s 0\<rparr>) (dv ops s ?a)"
  let ?s5 = "?s4\<lparr>fs_clk_reads := Suc (fs_clk_reads s), inode_buffer := ?I\<rparr>"
  have lI: "length ?I = 512" using dv_length [OF ok] by (simp add: di [symmetric])
  have ok5: "fs_ok ops ?s5" using ok2 c3(2,4) lI by (simp add: fs_ok_def advance_r_def upd_fd_def)
  have one': "(1 :: nat) < 2 ^ 32" by simp
  obtain c4 where c4: "wr_inode ops 1 ?a ?s5 = Some (?s5\<lparr>bc := c4\<rparr>)" "bc_ok ops c4"
    "bc_view ops c4 = put_run ?a 1 (inode_buffer ?s5) (dv ops ?s5)" using wr_inode_spec [OF ok5 one'] .
  have nd: "nat (sint fd) = d" "nat (sint len) = len'" using d p(4) by simp_all
  have "bad_fd fd s = False" using d by (simp add: bad_fd_def)
  moreover have "fs_timer ?s4 = (tick s 0, ?s4\<lparr>fs_clk_reads := Suc (fs_clk_reads s)\<rparr>)" "inode_buffer ?s4 = dv ops s ?a"
    by (simp_all add: advance_r_def upd_fd_def fs_timer_def tick_def)
  ultimately have "do_read ops fd len s = Some (sint len, bget p len' (dv ops s b), ?s5\<lparr>bc := c4\<rparr>)"
    unfolding do_read_def Let_def nd n [symmetric] BLOCK_SIZE_def
    using d(4) c1(1) di r2 c3(1) p(1,3) b(1) b(2) dv2 c4(1) by simp
  moreover have "dv ops (?s5\<lparr>bc := c4\<rparr>) = put_inode n (?i\<lparr>i_atime := tick s 0\<rparr>) (dv ops s)"
    using c4(3) c3(3) dv2 by (auto simp: put_inode_def put_run_def fun_eq_iff)
  moreover have "fs_ok ops (?s5\<lparr>bc := c4\<rparr>)" using ok5 c4(2) by (simp add: fs_ok_def)
  moreover have "rpos (?s5\<lparr>bc := c4\<rparr>) d = p + len'" using p unat_plus [of "read_pos (fdesc_array s d)" len'] by (simp add: advance_r_def upd_fd_def)
  ultimately show ?thesis using that by blast
qed

lemma disk_inode_blocks [simp]: "length (i_blocks (disk_inode ops s n)) = 10"
  by (simp add: disk_inode_def inode_of_def)

text \<open>What \<^verbatim>\<open>do_write\<close> leaves on the disk for a reader of the same file.\<close>

lemma do_write_disk:
  assumes ok: "fs_ok ops s" and d: "sint fd = int d" "d < NUM_FDESCS" and n: "n = fd_ino (fdesc_array s d)" "unat n < 4040"
    and p: "wpos s d = p" "0 < length buff" "p + length buff \<le> 512" "sint len = int (length buff)"
    and b: "first_block_ok ops (disk_inode ops s n) s"
  obtains s' q x where "do_write ops fd buff len s = Some (sint len, s')" "fs_ok ops s'" "q < 131003"
    "fdesc_array s' = (fdesc_array s)(d := (fdesc_array s d)\<lparr>write_pos := write_pos (fdesc_array s d) + word_of_nat (length buff)\<rparr>)"
    "disk_inode ops s' n = written (disk_inode ops s n) (data_sec q) (write_pos (fdesc_array s d) + word_of_nat (length buff)) (tick s 0)"
    "length x = 512" "dv ops s' (data_sec q) = bput p buff x" "dv ops s' (data_sec q + 7) = bput p buff x"
    "\<forall>a. in_run (inodeidx2sector n) 8 a \<longrightarrow> dv ops s' a = dv ops s' (inodeidx2sector n)"
proof -
  obtain s' q x d2 where s': "do_write ops fd buff len s = Some (sint len, s')" "fs_ok ops s'" "q < 131003"
    "fdesc_array s' = (fdesc_array s)(d := (fdesc_array s d)\<lparr>write_pos := write_pos (fdesc_array s d) + word_of_nat (length buff)\<rparr>)"
    "inode_at (inodeidx2offset n) (inode_buffer s') =
       written (disk_inode ops s n) (data_sec q) (write_pos (fdesc_array s d) + word_of_nat (length buff)) (tick s 0)"
    "length x = 512" "dv ops s' = put_run (inodeidx2sector n) 8 (inode_buffer s') (put_run (data_sec q) 8 (bput p buff x) d2)"
    "\<forall>a. \<not> in_run (data_sec q) 8 a \<and> \<not> in_run 257 32 a \<longrightarrow> d2 a = dv ops s a"
    using do_write_spec [OF ok d n(1) p b] .
  have "dv ops s' a = bput p buff x" if "in_run (data_sec q) 8 a" for a
    using inode_run_low [OF n(2) s'(3) that] that by (simp add: s'(7) put_run_simps)
  then have "dv ops s' (data_sec q) = bput p buff x" "dv ops s' (data_sec q + 7) = bput p buff x" by simp_all
  moreover have ib: "dv ops s' a = inode_buffer s'" if "in_run (inodeidx2sector n) 8 a" for a using that by (simp add: s'(7) put_run_simps)
  moreover have "disk_inode ops s' n = inode_at (inodeidx2offset n) (inode_buffer s')" by (simp add: disk_inode_def inode_of_def ib)
  ultimately show ?thesis using that s' by simp
qed

lemma write_read_back:
  assumes "fs_ok ops s" "sint fd = int d" "d < NUM_FDESCS" "fd_valid (fdesc_array s d) \<noteq> 0"
    "fd_mode (fdesc_array s d) \<noteq> ucast O_WRONLY" "unat (fd_ino (fdesc_array s d)) < 4040"
    "read_pos (fdesc_array s d) = write_pos (fdesc_array s d)"
    "0 < length buff" "wpos s d + length buff \<le> 512" "sint len = int (length buff)"
    "first_block_ok ops (disk_inode ops s (fd_ino (fdesc_array s d))) s"
  shows "\<exists>s1 s2. do_write ops fd buff len s = Some (sint len, s1) \<and> do_read ops fd len s1 = Some (sint len, buff, s2) \<and>
    fs_ok ops s2 \<and> rpos s2 d = wpos s d + length buff"
proof -
  let ?n = "fd_ino (fdesc_array s d)" and ?p = "wpos s d"
  obtain s' q x where s': "do_write ops fd buff len s = Some (sint len, s')" "fs_ok ops s'" "q < 131003"
    "fdesc_array s' = (fdesc_array s)(d := (fdesc_array s d)\<lparr>write_pos := write_pos (fdesc_array s d) + word_of_nat (length buff)\<rparr>)"
    "disk_inode ops s' ?n = written (disk_inode ops s ?n) (data_sec q) (write_pos (fdesc_array s d) + word_of_nat (length buff)) (tick s 0)"
    "length x = 512" "dv ops s' (data_sec q) = bput ?p buff x" "dv ops s' (data_sec q + 7) = bput ?p buff x"
    "\<forall>a. in_run (inodeidx2sector ?n) 8 a \<longrightarrow> dv ops s' a = dv ops s' (inodeidx2sector ?n)"
    using do_write_disk [OF assms(1-3) refl assms(6) refl assms(8-11)] .
  have f: "fd_valid (fdesc_array s' d) \<noteq> 0" "fd_mode (fdesc_array s' d) \<noteq> ucast O_WRONLY" "?n = fd_ino (fdesc_array s' d)"
    "rpos s' d = ?p" using assms(4,5,7) s'(4) by simp_all
  have "length (i_blocks (disk_inode ops s ?n)) = 10" by simp
  then have b: "i_blocks (disk_inode ops s' ?n) ! 0 = data_sec q" "dv ops s' (data_sec q) = dv ops s' (data_sec q + 7)"
    using s'(5,7,8) by (simp_all add: written_def)
  obtain s2 where "do_read ops fd len s' = Some (sint len, bget ?p (length buff) (dv ops s' (data_sec q)), s2)" "fs_ok ops s2"
    "dv ops s2 = put_inode ?n ((disk_inode ops s' ?n)\<lparr>i_atime := tick s' 0\<rparr>) (dv ops s')" "rpos s2 d = ?p + length buff"
    using do_read_spec [OF s'(2) assms(2,3) f assms(8-10) b] .
  moreover have "bget ?p (length buff) (dv ops s' (data_sec q)) = buff" using s'(6,7) assms(9) by (simp add: bget_bput_same)
  ultimately show ?thesis using s'(1) by auto
qed

text \<open>
  what is written to a file is read back. A write of up to 512 bytes in the first sector of the
  file's first block (which the write allocates when the file has none) returns its length, and a
  read of that length from the same position returns the same bytes.
\<close>

theorem file_write_read:
  assumes "fs_ok ops s" "sint fd = int d" "d < NUM_FDESCS" "fd_valid (fdesc_array s d) \<noteq> 0"
    "fd_mode (fdesc_array s d) \<noteq> ucast O_WRONLY" "unat (fd_ino (fdesc_array s d)) < 4040"
    "read_pos (fdesc_array s d) = write_pos (fdesc_array s d)"
    "0 < length buff" "wpos s d + length buff \<le> 512" "sint len = int (length buff)"
    "first_block_ok ops (disk_inode ops s (fd_ino (fdesc_array s d))) s"
  shows "\<exists>s1 s2. do_write ops fd buff len s = Some (sint len, s1) \<and> do_read ops fd len s1 = Some (sint len, buff, s2) \<and>
    fs_ok ops s2 \<and> rpos s2 d = wpos s d + length buff"
  using write_read_back [OF assms] .

text \<open>
  C35: a write destroys other inodes. \<^verbatim>\<open>do_write\<close> stores the sector of the file's inode over eight
  consecutive sectors, so each inode at a distance of 8, 16, ..., 56 becomes a copy of the file's.
\<close>

theorem write_destroys_inodes:
  assumes "fs_ok ops s" "sint fd = int d" "d < NUM_FDESCS" "n = fd_ino (fdesc_array s d)" "unat n < 4040" "0 < m" "m < 8"
    "0 < length buff" "wpos s d + length buff \<le> 512" "sint len = int (length buff)"
    "first_block_ok ops (disk_inode ops s n) s"
  shows "\<exists>s'. do_write ops fd buff len s = Some (sint len, s') \<and>
    disk_inode ops s' (n + word_of_nat (8 * m)) = disk_inode ops s' n \<and> i_ino (disk_inode ops s' n) = i_ino (disk_inode ops s n)"
proof -
  let ?n = "n + word_of_nat (8 * m)"
  obtain s' q x where s': "do_write ops fd buff len s = Some (sint len, s')"
    "disk_inode ops s' n = written (disk_inode ops s n) (data_sec q) (write_pos (fdesc_array s d) + word_of_nat (length buff)) (tick s 0)"
    "\<forall>a. in_run (inodeidx2sector n) 8 a \<longrightarrow> dv ops s' a = dv ops s' (inodeidx2sector n)"
    using do_write_disk [OF assms(1-5) refl assms(8-11)] by metis
  have u: "unat ?n = unat n + 8 * m" using assms(5,7) unat_plus [of n "8 * m"] by simp
  then have u4: "unat ?n < 4096" "unat ?n div 8 = unat n div 8 + m" "unat ?n mod 8 = unat n mod 8" using assms(5,7) by simp_all
  have le: "unat n div 8 < 512" using assms(5) by simp
  have sec: "unat (inodeidx2sector ?n) = 290 + (unat n div 8 + m)" "unat (inodeidx2sector n) = 290 + unat n div 8"
    using inode_sector_unat [OF u4(1)] inode_sector_unat [of n] u4(2) assms(5) by simp_all
  have "unat (inodeidx2sector n) + 8 \<le> 2 ^ 32" using le unfolding sec by simp
  from in_run_unat [OF this, of "inodeidx2sector ?n"] have "in_run (inodeidx2sector n) 8 (inodeidx2sector ?n)"
    using assms(7) unfolding sec by simp
  then have "dv ops s' (inodeidx2sector ?n) = dv ops s' (inodeidx2sector n)" using s'(3) by blast
  moreover have "inodeidx2offset ?n = inodeidx2offset n" unfolding inodeidx2offset_eq by (rule u4(3))
  ultimately have "disk_inode ops s' ?n = disk_inode ops s' n" unfolding disk_inode_def inode_of_def by (simp only:)
  then show ?thesis using s'(1,2) by (auto simp: written_def)
qed

text \<open>The state with an open descriptor, for the witnesses.\<close>

definition demo_file :: "(u32 \<Rightarrow> bytes) fsst" where
  "demo_file = upd_fd 3 (\<lambda>f. f\<lparr>fd_valid := 1, fd_mode := ucast O_RDWR, fd_ino := 1\<rparr>) demo_fs"

lemma demo_file_ok: "fs_ok demo_sd demo_file" "dv demo_sd demo_file = dv demo_sd demo_fs" "block_map demo_file = block_map demo_fs"
  "fdesc_array demo_file 3 = \<lparr>fd_mode = 3, fd_valid = 1, fd_ino = 1, read_pos = 0, write_pos = 0\<rparr>"
  using demo_fs_ok [of demo_dir]
  by (simp_all add: demo_file_def upd_fd_def) (simp add: demo_fs_dir_def O_RDWR_def)

lemma demo_zero_inode: "i_blocks (disk_inode demo_sd demo_file 1) ! 0 = 0"
proof -
  let ?b = "inode_bytes demo_root @ replicate 448 0"
  have l: "length (inode_bytes demo_root) = 64" by (simp add: demo_root_def)
  have s: "inodeidx2sector 1 = 290" by (simp add: inodeidx2sector_unat)
  have "\<not> in_run 257 32 (290 :: u32)" using in_run_unat [of 257 32 290] by simp
  then have "dv demo_sd demo_file 290 = ?b" using l by (simp add: demo_file_ok demo_dv demo_disk_def)
  moreover have "get_u32 (64 * 1 + 24) ?b = 0"
    using l by (simp add: get_u32_def bget_def numeral_eq_Suc)
  ultimately show ?thesis using s by (simp add: disk_inode_def inode_of_def inodeidx2offset_eq inode_at_def Let_def)
qed

lemma demo_bmap: "bmap_view demo_sd demo_file = 1 # replicate 16383 0"
proof -
  have "in_run 257 32 (288 :: u32)" using in_run_unat [of 257 32 288] by simp
  then have "dv demo_sd demo_fs 288 = 1 # replicate 511 0" by (simp add: demo_dv demo_disk_def numeral_eq_Suc)
  then show ?thesis
    by (simp add: bmap_view_def bput_def demo_file_ok demo_fs_dir_def replicate_add [symmetric])
qed

lemma demo_first_block: "first_block_ok demo_sd (disk_inode demo_sd demo_file 1) demo_file"
proof -
  have "\<not> bit_at (bmap_view demo_sd demo_file) 1" using demo_bits [of 1 16383] by (simp add: demo_bmap)
  then show ?thesis using demo_zero_inode by (auto simp: first_block_ok_def)
qed

theorem file_write_read_witness:
  "\<exists>s1 s2. do_write demo_sd 3 [7, 8, 9] 3 demo_file = Some (3, s1) \<and> do_read demo_sd 3 3 s1 = Some (3, [7, 8, 9], s2)"
  using file_write_read [OF demo_file_ok(1), of 3 3 "[7, 8, 9]" 3] demo_first_block
  by (auto simp: demo_file_ok(4) NUM_FDESCS_def O_WRONLY_def)

theorem write_destroys_inodes_witness:
  "\<exists>s'. do_write demo_sd 3 [7, 8, 9] 3 demo_file = Some (3, s') \<and> disk_inode demo_sd s' 9 = disk_inode demo_sd s' 1"
  using write_destroys_inodes [OF demo_file_ok(1), of 3 3 1 1 "[7, 8, 9]" 3] demo_first_block
  by (auto simp: demo_file_ok(4) NUM_FDESCS_def)

section \<open>Descriptors\<close>

definition free_fd :: "'d fsst \<Rightarrow> nat option" where
  "free_fd s = first_idx (\<lambda>i. fd_valid (fdesc_array s i) = 0) NUM_FDESCS"

lemma do_open_spec:
  assumes ok: "fs_ok ops s" and p: "p \<noteq> []" "0 \<notin> set p" "\<forall>x \<in> set (path_comps p). length x < 27"
    and r: "resolve ops s p (wd_inode s) = Some r"
  obtains s1 where "looked_up ops s s1" "do_open ops (p @ 0 # t) mode s = Some (case r of None \<Rightarrow> (- 1, s1) | Some n \<Rightarrow>
      if i_type (disk_inode ops s n) = IT_DIR then (- 1, s1) else
      (case free_fd s of None \<Rightarrow> (- 1, s1) | Some fd \<Rightarrow> (int fd, upd_fd fd (\<lambda>f. \<lparr>fd_mode = ucast mode, fd_valid = 1,
         fd_ino = i_ino (disk_inode ops s n), read_pos = 0, write_pos = 0\<rparr>) s1)))"
proof -
  obtain s1 where s1: "find_inode ops (p @ 0 # t) (wd_inode s) s = Some (map_option (\<lambda>n. InBuf (inodeidx2offset n)) r, s1)"
    "looked_up ops s s1" "\<forall>n. r = Some n \<longrightarrow> inode_at (inodeidx2offset n) (inode_buffer s1) = disk_inode ops s n"
    using find_inode_spec [OF ok p r] .
  have f: "fdesc_array s1 = fdesc_array s" using looked_upD(7) [OF s1(2)] .
  have upd: "upd_fd fd (\<lambda>f. f\<lparr>fd_valid := 1, fd_mode := m, write_pos := 0, read_pos := 0, fd_ino := n\<rparr>) s1 =
    upd_fd fd (\<lambda>f. \<lparr>fd_mode = m, fd_valid = 1, fd_ino = n, read_pos = 0, write_pos = 0\<rparr>) s1" for fd m n
    by (cases "fdesc_array s1 fd") (simp add: upd_fd_def)
  show ?thesis
  proof (cases r)
    case None
    then show ?thesis using that s1 by (simp add: do_open_def)
  next
    case (Some n)
    then have "inode_at (inodeidx2offset n) (inode_buffer s1) = disk_inode ops s n" using s1(3) by simp
    then show ?thesis using that s1(1,2) Some f upd by (simp add: do_open_def deref_def free_fd_def split: option.split)
  qed
qed

text \<open>
  descriptors. Opening an existing file gives the lowest free descriptor, at position 0 of
  that file, and touches no other descriptor and nothing on the disk; a directory, a missing name and
  a full table are refused with -1. Closing the descriptor makes it the lowest free one again.
\<close>

theorem open_close:
  assumes "fs_ok ops s" "p \<noteq> []" "0 \<notin> set p" "\<forall>x \<in> set (path_comps p). length x < 27"
    "resolve ops s p (wd_inode s) = Some r"
  shows "\<exists>x s'. do_open ops (p @ 0 # t) mode s = Some (x, s') \<and> dv ops s' = dv ops s \<and>
    (case r of Some n \<Rightarrow> (case free_fd s of Some fd \<Rightarrow>
        if i_type (disk_inode ops s n) = IT_DIR then x = - 1 \<and> fdesc_array s' = fdesc_array s
        else x = int fd \<and> fdesc_array s' = (fdesc_array s)(fd := \<lparr>fd_mode = ucast mode, fd_valid = 1,
               fd_ino = i_ino (disk_inode ops s n), read_pos = 0, write_pos = 0\<rparr>) \<and>
             (\<exists>s''. do_close (word_of_nat fd) s' = Some (0, s'') \<and> free_fd s'' = Some fd)
      | None \<Rightarrow> x = - 1 \<and> fdesc_array s' = fdesc_array s)
    | None \<Rightarrow> x = - 1 \<and> fdesc_array s' = fdesc_array s)"
proof -
  let ?f = "\<lambda>n. \<lparr>fd_mode = ucast mode, fd_valid = 1, fd_ino = i_ino (disk_inode ops s n), read_pos = 0, write_pos = 0\<rparr>"
  obtain s1 where s1: "looked_up ops s s1" "do_open ops (p @ 0 # t) mode s = Some (case r of None \<Rightarrow> (- 1, s1) | Some n \<Rightarrow>
      if i_type (disk_inode ops s n) = IT_DIR then (- 1, s1) else
      (case free_fd s of None \<Rightarrow> (- 1, s1) | Some fd \<Rightarrow> (int fd, upd_fd fd (\<lambda>f. ?f n) s1)))"
    using do_open_spec [OF assms] .
  note l = looked_upD [OF s1(1)]
  have close: "\<exists>s''. do_close (word_of_nat fd) (upd_fd fd (\<lambda>f. ?f n) s1) = Some (0, s'') \<and> free_fd s'' = Some fd"
    if fd: "free_fd s = Some fd" for fd n
  proof -
    have 16: "fd < 16" using fd by (simp add: free_fd_def first_idx_Some_iff NUM_FDESCS_def)
    then have "unat (word_of_nat fd :: i32) = fd" by (simp add: unat_of_nat)
    then have "sint (word_of_nat fd :: i32) = int fd" using 16 sint_pos [of "word_of_nat fd"] by simp
    then show ?thesis
      using fd 16 l(7) by (auto simp: do_close_def c_assert_def NUM_FDESCS_def upd_fd_def free_fd_def first_idx_Some_iff)
  qed
  have d: "dv ops (upd_fd fd f s1) = dv ops s" for fd f using l(2) by (simp add: upd_fd_def)
  have a: "fdesc_array (upd_fd fd (\<lambda>f. ?f n) s1) = (fdesc_array s)(fd := ?f n)" for fd n using l(7) by (simp add: upd_fd_def)
  show ?thesis
    using s1(2) close d a l(2,7) by (cases r; cases "free_fd s"; simp)
qed

lemma demo_free_fd: "free_fd demo_fs = Some 0"
  by (simp add: free_fd_def first_idx_Some_iff demo_fs_dir_def NUM_FDESCS_def)

lemma demo_root_resolve: "resolve demo_sd demo_fs [46] (wd_inode demo_fs) = Some (Some 0)"
proof -
  have "first_idx (\<lambda>j. dname j demo_dir = Some [46]) 128 = Some 0" using demo_dir_props(2) by (simp add: first_idx_Some_iff)
  then have "dir_lookup [46] demo_dir = Some 0" using demo_dir_props(3) by (simp add: dir_lookup_def)
  then show ?thesis using plain_path [of "[46]" demo_sd demo_fs "wd_inode demo_fs"] demo_wd_view demo_dir_props(1) by simp
qed

theorem open_close_witness:
  "\<exists>s'. do_open demo_sd ([46] @ 0 # []) O_RDWR demo_fs = Some (- 1, s') \<and> fdesc_array s' = fdesc_array demo_fs"
proof -
  have "inodeidx2sector 0 = 290" by (simp add: inodeidx2sector_unat)
  moreover have "\<not> in_run 257 32 (290 :: u32)" using in_run_unat [of 257 32 290] by simp
  ultimately have "disk_inode demo_sd demo_fs 0 = inode_at 0 (inode_bytes demo_root @ replicate 448 0)"
    by (simp add: disk_inode_def inode_of_def demo_dv demo_disk_def inodeidx2offset_eq demo_root_def)
  then have "i_type (disk_inode demo_sd demo_fs 0) = IT_DIR"
    by (simp add: inode_at_def Let_def inode_bytes_def demo_root_def new_inode_def)
  then show ?thesis
    using demo_free_fd open_close [OF demo_fs_ok [of demo_dir] _ _ _ demo_root_resolve, of "[]" O_RDWR] by (auto simp: path_comps_def)
qed

lemma file_life:
  assumes "fs_ok ops s" "wd_ok ops s" "0 \<notin> set x" "47 \<notin> set x" "x \<noteq> []" "length x < 27"
    "dir_lookup x (wd_view ops s) = None" "free_inode_no ops s = Some i" "i < 4040" "free_entry (wd_view ops s) = Some j"
    "free_fd s = Some fd" "\<exists>q < 131003. \<not> bit_at (bmap_view ops s) q"
    "0 < length buff" "length buff \<le> 512"
  shows "\<exists>s1 s2 s3 s4. do_touch ops (x @ 0 # t) s = Some (0, s1) \<and> do_open ops (x @ 0 # t) O_RDWR s1 = Some (int fd, s2) \<and>
    do_write ops (word_of_nat fd) buff (word_of_nat (length buff)) s2 = Some (int (length buff), s3) \<and>
    do_read ops (word_of_nat fd) (word_of_nat (length buff)) s3 = Some (int (length buff), buff, s4)"
proof -
  let ?n = "word_of_nat i :: u32" and ?D = "wd_view ops s"
  have c: "cstr (x @ 0 # t) = Some x" using assms(3) by simp
  obtain s1 B where s1: "do_touch ops (x @ 0 # t) s = Some (0, s1)" "fs_ok ops s1" "wd_ok ops s1" "wd_view ops s1 = B"
    "wd_inode s1 = grown (wd_inode s) (tick s 1)" "dir_ok B" "dv ops s1 (i_blocks (wd_inode s) ! 0 + 7) = take 512 B"
    "\<forall>k < 128. dname k B = (if k = j then Some x else dname k ?D)"
    "\<forall>k < 128. dentry_ino k B = (if k = j then ?n else dentry_ino k ?D)"
    "16 \<le> j \<longrightarrow> take 512 B = take 512 ?D"
    "\<forall>k. bit_at (dv ops s1 289) k \<longleftrightarrow> k = i \<or> bit_at (dv ops s 289) k"
    "\<forall>n. unat n < 4096 \<longrightarrow> disk_inode ops s1 n = (if n = i_ino (wd_inode s) then grown (wd_inode s) (tick s 1)
       else if n = ?n then new_inode n IT_FILE 0 (tick s 0) 0 else disk_inode ops s n)"
    "fdesc_array s1 = fdesc_array s" "bmap_view ops s1 = bmap_view ops s"
    using touch_disk [OF assms(1,2) c assms(6-8,10)] .
  have j: "j < 128" "dname j ?D = Some []" using assms(10) by (auto simp: free_entry_def first_idx_Some_iff)
  have r: "resolve ops s1 x (wd_inode s1) = Some (Some ?n)"
    using plain_path [OF assms(4), of ops s1 "wd_inode s1"] s1(4,6) dir_lookup_filled(1) [OF s1(8,9) j assms(7)] by simp
  have un: "unat ?n = i" using assms(9) by (simp add: unat_of_nat)
  have nw: "?n \<noteq> i_ino (wd_inode s)"
    using assms(2,8) un by (auto simp: wd_ok_def free_inode_no_def first_idx_Some_iff)
  then have di: "disk_inode ops s1 ?n = new_inode ?n IT_FILE 0 (tick s 0) 0" using s1(12) un assms(9) by simp
  have pc: "\<forall>y \<in> set (path_comps x). length y < 27" using assms(4,6) by (simp add: path_comps_def split_path_plain)
  obtain s2 where s2: "looked_up ops s1 s2"
    "do_open ops (x @ 0 # t) O_RDWR s1 = Some (case Some ?n of None \<Rightarrow> (- 1, s2) | Some n \<Rightarrow>
      if i_type (disk_inode ops s1 n) = IT_DIR then (- 1, s2) else
      (case free_fd s1 of None \<Rightarrow> (- 1, s2) | Some fd \<Rightarrow> (int fd, upd_fd fd (\<lambda>f. \<lparr>fd_mode = ucast O_RDWR, fd_valid = 1,
         fd_ino = i_ino (disk_inode ops s1 n), read_pos = 0, write_pos = 0\<rparr>) s2)))"
    using do_open_spec [OF s1(2) assms(5,3) pc r] .
  note l = looked_upD [OF s2(1)]
  let ?s2 = "upd_fd fd (\<lambda>f. \<lparr>fd_mode = ucast O_RDWR, fd_valid = 1, fd_ino = ?n, read_pos = 0, write_pos = 0\<rparr>) s2"
  have "free_fd s1 = Some fd" using assms(11) s1(13) by (simp add: free_fd_def)
  then have o: "do_open ops (x @ 0 # t) O_RDWR s1 = Some (int fd, ?s2)"
    using s2(2) by (simp add: di new_inode_def IT_DIR_def IT_FILE_def)
  have fd: "fd < NUM_FDESCS" using assms(11) by (simp add: free_fd_def first_idx_Some_iff)
  then have "unat (word_of_nat fd :: i32) = fd" by (simp add: unat_of_nat NUM_FDESCS_def)
  then have sfd: "sint (word_of_nat fd :: i32) = int fd" using fd sint_pos [of "word_of_nat fd"] by (simp add: NUM_FDESCS_def)
  have "unat (word_of_nat (length buff) :: i32) = length buff" using assms(14) by (simp add: unat_of_nat)
  then have sl: "sint (word_of_nat (length buff) :: i32) = int (length buff)"
    using assms(14) sint_pos [of "word_of_nat (length buff)"] by simp
  have f2: "fdesc_array ?s2 fd = \<lparr>fd_mode = ucast O_RDWR, fd_valid = 1, fd_ino = ?n, read_pos = 0, write_pos = 0\<rparr>" by (simp add: upd_fd_def)
  have d2: "disk_inode ops ?s2 ?n = new_inode ?n IT_FILE 0 (tick s 0) 0" using l(2) di by (simp add: upd_fd_def disk_inode_def)
  have "bmap_view ops ?s2 = bmap_view ops s" using l(2,8) s1(14) by (simp add: upd_fd_def bmap_view_def)
  then have fb: "first_block_ok ops (disk_inode ops ?s2 ?n) ?s2" using assms(12) by (simp add: first_block_ok_def d2 new_inode_def)
  have "fs_ok ops ?s2" using l(1) by (simp add: upd_fd_def)
  then have "\<exists>s3 s4. do_write ops (word_of_nat fd) buff (word_of_nat (length buff)) ?s2 = Some (sint (word_of_nat (length buff) :: i32), s3) \<and>
      do_read ops (word_of_nat fd) (word_of_nat (length buff)) s3 = Some (sint (word_of_nat (length buff) :: i32), buff, s4)"
    using write_read_back [OF _ sfd fd, of ops ?s2 buff "word_of_nat (length buff)"] fb sl assms(9,13,14) un
    unfolding f2 by (auto simp: O_RDWR_def O_WRONLY_def)
  then show ?thesis using s1(1) o sl by auto
qed

text \<open>
  C21: the life of a file. Creating a file in the working directory, opening it, writing up to 512
  bytes and reading them back all succeed, and the bytes read are the bytes written, when the name
  is new, and an inode, an entry of the directory's sector, a data block and a descriptor are free.
\<close>

theorem create_write_read:
  assumes "fs_ok ops s" "wd_ok ops s" "0 \<notin> set x" "47 \<notin> set x" "x \<noteq> []" "length x < 27"
    "dir_lookup x (wd_view ops s) = None" "free_inode_no ops s = Some i" "i < 4040" "free_entry (wd_view ops s) = Some j"
    "free_fd s = Some fd" "\<exists>q < 131003. \<not> bit_at (bmap_view ops s) q"
    "0 < length buff" "length buff \<le> 512"
  shows "\<exists>s1 s2 s3 s4. do_touch ops (x @ 0 # t) s = Some (0, s1) \<and> do_open ops (x @ 0 # t) O_RDWR s1 = Some (int fd, s2) \<and>
    do_write ops (word_of_nat fd) buff (word_of_nat (length buff)) s2 = Some (int (length buff), s3) \<and>
    do_read ops (word_of_nat fd) (word_of_nat (length buff)) s3 = Some (int (length buff), buff, s4)"
  using assms by (rule file_life)

theorem create_write_read_witness:
  "\<exists>s1 s2 s3 s4. do_touch demo_sd ([97] @ 0 # []) demo_fs = Some (0, s1) \<and> do_open demo_sd ([97] @ 0 # []) O_RDWR s1 = Some (int 0, s2) \<and>
    do_write demo_sd (word_of_nat 0) [1, 2] (word_of_nat (length [1 :: u8, 2])) s2 = Some (int (length [1 :: u8, 2]), s3) \<and>
    do_read demo_sd (word_of_nat 0) (word_of_nat (length [1 :: u8, 2])) s3 = Some (int (length [1 :: u8, 2]), [1, 2], s4)"
proof (rule create_write_read [OF demo_fs_ok demo_wd_ok, where i = 1 and j = 2])
  have "block_map demo_fs = block_map demo_file" "dv demo_sd demo_fs = dv demo_sd demo_file" by (simp_all add: demo_file_ok)
  then have "bmap_view demo_sd demo_fs = bmap_view demo_sd demo_file" by (simp add: bmap_view_def)
  then show "\<exists>q < 131003. \<not> bit_at (bmap_view demo_sd demo_fs) q"
    using demo_bits [of 1 16383] by (intro exI [of _ 1]) (simp add: demo_bmap)
qed (use demo_lookup(1) demo_free_inode demo_free_entry demo_free_fd in \<open>simp_all add: demo_wd_view\<close>)

end
