(* ===== verification/FsInv.thy ===== *)
theory FsInv
  imports FsFile
begin

text \<open>
  The file system's state stays well formed: no routine of src/kernel/fs/fs.c that returns changes the
  size of a static buffer or breaks the cache. Proved routine by routine with a small calculus: \<open>keeps\<close>
  says of the outcome of a routine that, if it returns, its final state is well formed.
\<close>

section \<open>The calculus\<close>

definition keeps :: "('x \<Rightarrow> 'd fsst) \<Rightarrow> 'd sd_ops \<Rightarrow> 'x option \<Rightarrow> bool" where
  "keeps pr ops m \<longleftrightarrow> (\<forall>x. m = Some x \<longrightarrow> fs_ok ops (pr x))"

named_theorems keeps_intros \<open>rules of the calculus and routines that keep the state well formed\<close>

lemma keeps_ret [keeps_intros]: "fs_ok ops (pr x) \<Longrightarrow> keeps pr ops (Some x)"
  by (simp add: keeps_def)

lemma keeps_Some: "keeps pr ops (Some x) \<longleftrightarrow> fs_ok ops (pr x)"
  by (simp add: keeps_def)

lemma keeps_None [keeps_intros]: "keeps pr ops None"
  by (simp add: keeps_def)

lemma keeps_bind_state [keeps_intros]:
  "keeps id ops m \<Longrightarrow> (\<And>s'. fs_ok ops s' \<Longrightarrow> keeps pr ops (f s')) \<Longrightarrow> keeps pr ops (Option.bind m f)"
  by (cases m) (auto simp: keeps_def)

lemma keeps_bind_val [keeps_intros]:
  "keeps snd ops m \<Longrightarrow> (\<And>r s'. fs_ok ops s' \<Longrightarrow> keeps pr ops (f (r, s'))) \<Longrightarrow> keeps pr ops (Option.bind m f)"
  by (cases m) (auto simp: keeps_def)

lemma keeps_pure: "(\<And>x. m = Some x \<Longrightarrow> keeps pr ops (f x)) \<Longrightarrow> keeps pr ops (Option.bind m f)"
  by (cases m) (auto simp: keeps_def)

lemmas keeps_pures [keeps_intros] =
  keeps_pure [where 'a = bytes] keeps_pure [where 'a = int] keeps_pure [where 'a = nat] keeps_pure [where 'a = unit]
  keeps_pure [where 'a = "nat option"] keeps_pure [where 'a = bool] keeps_pure [where 'a = iptr]

lemma keeps_triple [keeps_intros]:
  fixes m :: "(bytes \<times> bytes \<times> bytes) option"
  shows "(\<And>x y z. keeps pr ops (f (x, y, z))) \<Longrightarrow> keeps pr ops (Option.bind m f)"
  by (cases m) (auto simp: keeps_def)

lemma keeps_if [keeps_intros]:
  "(b \<Longrightarrow> keeps pr ops x) \<Longrightarrow> (\<not> b \<Longrightarrow> keeps pr ops y) \<Longrightarrow> keeps pr ops (if b then x else y)"
  by simp

lemma keeps_option [keeps_intros]:
  "(z = None \<Longrightarrow> keeps pr ops x) \<Longrightarrow> (\<And>y. z = Some y \<Longrightarrow> keeps pr ops (f y)) \<Longrightarrow> keeps pr ops (case z of None \<Rightarrow> x | Some y \<Rightarrow> f y)"
  by (cases z) auto

section \<open>Lengths\<close>

lemma len_bzero: "bzero b n = Some z \<Longrightarrow> length z = length b"
proof -
  have "memset b v n = Some z \<Longrightarrow> length z = length b" for v by (induction b v n arbitrary: z rule: memset.induct) auto
  then show "bzero b n = Some z \<Longrightarrow> length z = length b" by (simp add: bzero_def)
qed

lemma len_mark: "mark_page_allocated i b = Some z \<Longrightarrow> length z = length b" "unmark_page_free i b = Some z \<Longrightarrow> length z = length b"
  by (auto simp: mark_page_allocated_def unmark_page_free_def split: if_splits)

lemma len_set_dentry:
  assumes "set_dentry j nm ino ty b = Some z" "32 * j + 32 \<le> length b"
  shows "length z = length b"
proof -
  obtain y where "strcpy (dentry_name j b) nm = Some y" "z = (put_u32 (32 * j + 28) ino (take (32 * j) b @ y))[32 * j + 27 := ty]"
    using assms(1) by (auto simp: set_dentry_def split: bind_splits)
  then show ?thesis using length_strcpy [of "dentry_name j b" nm y] assms(2) by (simp add: dentry_name_def)
qed

lemma len_clear_dentry [simp]: "32 * j + 32 \<le> length b \<Longrightarrow> length (clear_dentry j b) = length b"
  by (simp add: clear_dentry_def)

lemma first_idx_less: "first_idx P n = Some i \<Longrightarrow> i < n"
  by (simp add: first_idx_Some_iff)

section \<open>Transfers and allocation\<close>

lemma keeps_rd [keeps_intros]:
  assumes "fs_ok ops s"
  shows "keeps id ops (rd_inode ops a s)" "keeps id ops (rd_dentry ops a s)" "0 < n \<Longrightarrow> keeps id ops (rd_rdata ops n a s)"
    "keeps id ops (rd_wdata ops a s)" "keeps id ops (rd_imap ops s)" "keeps id ops (rd_bmap ops s)"
  using assms dv_length [OF assms] fs_okD [OF assms] by (simp_all add: keeps_def rd_eqs)

lemma keeps_wr [keeps_intros]:
  assumes "fs_ok ops s"
  shows "n < 2 ^ 32 \<Longrightarrow> keeps id ops (wr_inode ops n a s)" "keeps id ops (wr_dentry ops a s)" "keeps id ops (wr_rdata ops a s)"
    "keeps id ops (wr_wdata ops a s)" "keeps id ops (wr_imap ops s)" "keeps id ops (wr_bmap ops s)"
  using assms fs_okD [OF assms] by (simp_all add: keeps_def wr_eqs)

lemma keeps_find_free_inode [keeps_intros]: "fs_ok ops s \<Longrightarrow> keeps snd ops (find_free_inode ops s)"
  unfolding find_free_inode_def by (intro keeps_intros) (auto dest!: len_mark simp: fs_okD)

lemma keeps_find_free_block [keeps_intros]: "fs_ok ops s \<Longrightarrow> keeps snd ops (find_free_block ops s)"
  unfolding find_free_block_def Let_def by (intro keeps_intros) (auto dest!: len_mark len_bzero simp: fs_okD)

lemma keeps_free_block [keeps_intros]: "fs_ok ops s \<Longrightarrow> keeps id ops (free_block ops a s)"
  unfolding free_block_def Let_def by (intro keeps_intros) (auto dest!: len_mark simp: fs_okD)

lemma keeps_free_nonzero [keeps_intros]:
  "fs_ok ops s \<Longrightarrow> keeps id ops (free_nonzero ops a s)" "fs_ok ops s \<Longrightarrow> keeps id ops (free_if ops b a s)"
  unfolding free_nonzero_def free_if_def by (intro keeps_intros; simp)+

lemma keeps_free_step: "fs_ok ops s \<Longrightarrow> keeps snd ops (free_step ops inode i s)"
  unfolding free_step_def Let_def BLOCK_SECTORS_8 by (intro keeps_intros; simp split: prod.split; (intro keeps_intros)?; simp?)

lemma keeps_free_blocks [keeps_intros]: "fs_ok ops s \<Longrightarrow> keeps id ops (free_blocks ops inode n s)"
proof (induction ops inode n s rule: free_blocks.induct)
  case (2 ops inode i s)
  show ?case using 2(1) keeps_free_step [OF 2(2), of inode i]
    by (auto simp: keeps_def split: option.split)
qed (simp add: keeps_ret)

text \<open>Restoring the bound of an inode slot and of an entry.\<close>

lemma slot_bounds: "64 * inodeidx2offset n + 64 \<le> 512" "j < DENTRIES \<Longrightarrow> 32 * j + 32 \<le> 4096"
  using offset_less [of n] by simp_all

lemma slot_split: "64 * inodeidx2offset n + (512 - 64 * inodeidx2offset n) = 512"
  using slot_bounds(1) [of n] by linarith

lemma keeps_free_inode [keeps_intros]: "fs_ok ops s \<Longrightarrow> keeps id ops (free_inode ops n s)"
  unfolding free_inode_def Let_def
  by (rule keeps_intros | simp add: fs_okD len_mark len_bzero min_absorb2 slot_split)+

lemma keeps_blockid2sector [keeps_intros]: "fs_ok ops s \<Longrightarrow> keeps snd ops (blockid2sector ops i inode s)"
  unfolding blockid2sector_def Let_def BLOCK_SECTORS_8 by (rule keeps_intros | simp)+

lemma fs_ok_set_block [simp]:
  "fs_ok ops s \<Longrightarrow> k < 8 \<Longrightarrow> j < 10 \<Longrightarrow> fs_ok ops (set_block k j v s)"
  "fs_ok ops s \<Longrightarrow> j < 1024 \<Longrightarrow> fs_ok ops (set_rdata32 j v s)"
  by (simp_all add: set_block_def set_rdata32_def fs_okD)

lemma keeps_ensure [keeps_intros]:
  "fs_ok ops s \<Longrightarrow> k < 8 \<Longrightarrow> j < 10 \<Longrightarrow> keeps id ops (ensure_root ops k j s)"
  "fs_ok ops s \<Longrightarrow> i < 1024 \<Longrightarrow> keeps snd ops (ensure_entry ops a i s)"
  "fs_ok ops s \<Longrightarrow> i < 1024 \<Longrightarrow> keeps id ops (add_entry ops a i s)"
  unfolding ensure_root_def ensure_entry_def add_entry_def BLOCK_SECTORS_8 by (rule keeps_intros | simp)+

lemma block_consts: "DIRECT_BLOCK_NUM = 7" "NBLOCK_LV1 = 1024" "NBLOCK_LV2 = 1048576" "NBLOCK_LV3 = 1073741824"
  by (simp_all add: DIRECT_BLOCK_NUM_def NBLOCK_LV1_def NBLOCK_LV2_def NBLOCK_LV3_def)

lemma keeps_alloc_inode_block [keeps_intros]: "fs_ok ops s \<Longrightarrow> k < 8 \<Longrightarrow> keeps snd ops (alloc_inode_block ops i k s)"
  unfolding alloc_inode_block_def Let_def BLOCK_SECTORS_8 block_consts
  by (rule keeps_intros | simp add: div_less_iff_less_mult | linarith)+

section \<open>Lookup and directories\<close>

lemma keeps_find_level [keeps_intros]: "fs_ok ops s \<Longrightarrow> keeps snd ops (find_level ops nm d s)"
  unfolding find_level_def Let_def by (rule keeps_intros | simp)+

lemma keeps_find_inode [keeps_intros]: "fs_ok ops s \<Longrightarrow> keeps snd ops (find_inode ops p i s)"
proof (cases p)
  case (Cons c cs)
  assume ok: "fs_ok ops s"
  show ?thesis unfolding find_inode_def Cons list.case by (rule keeps_intros ok | simp only: prod.case | simp)+
qed (simp add: find_inode_def keeps_None)

lemma deref_blocks [simp]: "fs_ok ops s \<Longrightarrow> length (i_blocks (deref p (wd_inode s) s)) = 10"
  by (simp add: deref_def fs_okD split: iptr.split)

lemma keeps_do_cd: "fs_ok ops s \<Longrightarrow> keeps snd ops (do_cd ops p s)"
  unfolding do_cd_def Let_def by (rule keeps_intros | simp)+

lemma keeps_store_inode [keeps_intros]:
  "fs_ok ops s \<Longrightarrow> length (i_blocks i) = 10 \<Longrightarrow> keeps id ops (store_inode ops n i s)"
  unfolding store_inode_def by (rule keeps_intros | simp add: fs_okD)+

lemma fs_timer_ok [simp]: "fs_ok ops s \<Longrightarrow> fs_ok ops (snd (fs_timer s))" "wd_inode (snd (fs_timer s)) = wd_inode s"
  "inode_buffer (snd (fs_timer s)) = inode_buffer s"
  by (simp_all add: fs_timer_def)

lemma len_dot_entries: "dot_entries a b x = Some z \<Longrightarrow> length x = 4096 \<Longrightarrow> length z = 4096"
  by (auto simp: dot_entries_def split: bind_splits dest!: len_bzero len_set_dentry)

lemma keeps_do_mkdir [keeps_intros]: "fs_ok ops s \<Longrightarrow> keeps snd ops (do_mkdir ops p s)"
  unfolding do_mkdir_def Let_def split_def
  by (rule keeps_intros | simp add: fs_okD len_dot_entries len_set_dentry slot_bounds first_idx_less)+

lemma keeps_nest_rmdir [keeps_intros]:
  assumes "fs_ok ops s"
  shows "keeps id ops (nest_rmdir ops d j s)"
proof -
  have "fs_ok ops s \<longrightarrow> fs_ok ops s'" if "nest_rmdir ops d j s = Some s'" for s'
  proof (rule nest_rmdir.raw_induct [where P = "\<lambda>ops d j s s'. fs_ok ops s \<longrightarrow> fs_ok ops s'", OF _ that], goal_cases)
    case (1 rec ops d j s s')
    have rec [keeps_intros]: "fs_ok ops s \<Longrightarrow> keeps id ops (rec ops d j s)" for ops :: "'a sd_ops" and d j s
      using 1(1) by (auto simp: keeps_def)
    have "fs_ok ops s \<Longrightarrow> keeps id ops (Some s')"
      by (subst 1(2) [symmetric]) (rule keeps_intros rec | simp only: Let_def | simp)+
    then show ?case by (simp add: keeps_def)
  qed
  then show ?thesis using assms by (simp add: keeps_def)
qed

lemma keeps_do_rmdir: "fs_ok ops s \<Longrightarrow> keeps snd ops (do_rmdir ops p s)"
  unfolding do_rmdir_def Let_def split_def
  by (rule keeps_intros | simp add: fs_okD slot_bounds first_idx_less)+

section \<open>Files\<close>

lemma fs_ok_out [simp]: "fs_ok ops (out x s) = fs_ok ops s" and fs_ok_upd_fd [simp]: "fs_ok ops (upd_fd d f s) = fs_ok ops s"
  by (simp_all add: out_def upd_fd_def)

lemma keeps_ls [keeps_intros]:
  "fs_ok ops s \<Longrightarrow> keeps id ops (ls_names js s)" "fs_ok ops s \<Longrightarrow> keeps id ops (ls_stats ops d js s)"
proof (induction js arbitrary: s)
  case (Cons j js)
  { case 1 note ok = this
    show ?case unfolding ls_names.simps by (rule keeps_intros Cons.IH ok | simp)+
  next
    case 2 note ok = this
    show ?case unfolding ls_stats.simps by (rule keeps_intros Cons.IH ok | simp only: prod.case | simp)+ }
qed (simp_all add: keeps_ret)

lemma keeps_do_ls: "fs_ok ops s \<Longrightarrow> keeps snd ops (do_ls ops p o' s)"
  unfolding do_ls_def Let_def by (rule keeps_intros | simp only: prod.case | simp)+

lemma keeps_nest_pwd [keeps_intros]:
  assumes "fs_ok ops s"
  shows "keeps id ops (nest_pwd ops d s)"
proof -
  have "fs_ok ops s \<longrightarrow> fs_ok ops s'" if "nest_pwd ops d s = Some s'" for s'
  proof (rule nest_pwd.raw_induct [where P = "\<lambda>ops d s s'. fs_ok ops s \<longrightarrow> fs_ok ops s'", OF _ that], goal_cases)
    case (1 rec ops d s s')
    have rec: "fs_ok ops s \<Longrightarrow> keeps id ops (rec ops d s)" for ops :: "'a sd_ops" and d s
      using 1(1) by (auto simp: keeps_def)
    have "fs_ok ops s \<Longrightarrow> keeps id ops (Some s')"
      by (subst 1(2) [symmetric]) (rule keeps_intros rec | simp only: Let_def | simp)+
    then show ?case by (simp add: keeps_def)
  qed
  then show ?thesis using assms by (simp add: keeps_def)
qed

lemma keeps_do_pwd: "fs_ok ops s \<Longrightarrow> keeps snd ops (do_pwd ops s)"
  unfolding do_pwd_def by (rule keeps_intros | simp)+

lemma keeps_do_open [keeps_intros]: "fs_ok ops s \<Longrightarrow> keeps snd ops (do_open ops p m s)"
  unfolding do_open_def by (rule keeps_intros | simp only: prod.case | simp)+

lemma keeps_read_loop [keeps_intros]: "fs_ok ops s \<Longrightarrow> keeps snd ops (read_loop ops fd i n s)"
proof (induction n arbitrary: s)
  case (Suc n)
  show ?case unfolding read_loop.simps Let_def BLOCK_SECTORS_8
    by (rule keeps_intros Suc.IH Suc.prems | simp only: prod.case | simp)+
qed (simp add: keeps_ret)

lemma keeps_do_read: "fs_ok ops s \<Longrightarrow> keeps (\<lambda>x. snd (snd x)) ops (do_read ops fd len s)"
  unfolding do_read_def Let_def split_def by (rule keeps_intros | simp add: fs_okD)+

lemma keeps_block_for_write [keeps_intros]: "fs_ok ops s \<Longrightarrow> k < 8 \<Longrightarrow> keeps snd ops (block_for_write ops i k s)"
  unfolding block_for_write_def by (rule keeps_intros | simp only: prod.case | simp)+

lemma keeps_write_loop [keeps_intros]: "fs_ok ops s \<Longrightarrow> k < 8 \<Longrightarrow> keeps id ops (write_loop ops fd k cs s)"
proof (induction cs arbitrary: s)
  case (Cons c cs)
  show ?case unfolding write_loop.simps Let_def
    by (rule keeps_intros Cons.IH Cons.prems | simp only: prod.case | simp add: fs_okD)+
qed (simp add: keeps_ret)

lemma keeps_do_write [keeps_intros]: "fs_ok ops s \<Longrightarrow> keeps snd ops (do_write ops fd b len s)"
  unfolding do_write_def Let_def split_def BLOCK_SECTORS_8 by (rule keeps_intros offset_less | simp add: fs_okD)+

lemma keeps_do_close [keeps_intros]: "fs_ok ops s \<Longrightarrow> keeps snd ops (do_close fd s)"
  unfolding do_close_def by (rule keeps_intros | simp)+

lemma keeps_put_file_dentry [keeps_intros]: "fs_ok ops s \<Longrightarrow> keeps id ops (put_file_dentry ops nm n d s)"
  unfolding put_file_dentry_def by (rule keeps_intros | simp add: fs_okD len_set_dentry slot_bounds first_idx_less)+

lemma keeps_down_dir [keeps_intros]: "fs_ok ops s \<Longrightarrow> keeps snd ops (down_dir ops nm d s)"
  unfolding down_dir_def Let_def by (rule keeps_intros | simp)+

lemma keeps_add_file_dentry [keeps_intros]: "fs_ok ops s \<Longrightarrow> keeps id ops (add_file_dentry ops d p n s)"
  unfolding add_file_dentry_def by (rule keeps_intros | simp only: prod.case | simp)+

lemma keeps_do_ln: "fs_ok ops s \<Longrightarrow> keeps snd ops (do_ln ops a b s)"
  unfolding do_ln_def Let_def by (rule keeps_intros | simp only: prod.case | simp add: fs_okD)+

lemma keeps_do_rm: "fs_ok ops s \<Longrightarrow> keeps snd ops (do_rm ops p s)"
  unfolding do_rm_def Let_def split_def by (rule keeps_intros | simp add: fs_okD slot_bounds first_idx_less)+

lemma keeps_do_lseek: "fs_ok ops s \<Longrightarrow> keeps snd ops (do_lseek ops fd o' w s)"
  unfolding do_lseek_def Let_def by (rule keeps_intros | simp)+

lemma keeps_do_touch [keeps_intros]: "fs_ok ops s \<Longrightarrow> keeps snd ops (do_touch ops p s)"
  unfolding do_touch_def Let_def split_def
  by (rule keeps_intros | simp add: fs_okD len_set_dentry slot_bounds first_idx_less)+

lemma keeps_do_cat: "fs_ok ops s \<Longrightarrow> keeps snd ops (do_cat ops p s)"
proof -
  have loop: "fs_ok ops s \<Longrightarrow> keeps id ops (cat_loop ops q js s)" for q js s
  proof (induction js arbitrary: s)
    case (Cons j js)
    show ?case unfolding cat_loop.simps BLOCK_SECTORS_8 by (rule keeps_intros Cons.IH Cons.prems | simp only: prod.case | simp)+
  qed (simp add: keeps_ret)
  assume ok: "fs_ok ops s"
  show ?thesis unfolding do_cat_def Let_def by (rule keeps_intros ok loop | simp only: prod.case | simp)+
qed

section \<open>Making and mounting\<close>

lemma bc_ok_sd: "bc_ok ops c \<Longrightarrow> sd_ok ops"
  by (simp add: bc_ok_def)

lemma fs_ok_init_bcache: "fs_ok ops s \<Longrightarrow> fs_ok ops (s\<lparr>bc := init_bcache (bc s)\<rparr>)"
  using init_bcache_spec(1) [OF bc_ok_sd, of ops "bc s" "bc s"] by (simp add: fs_ok_def)

lemma bc_ok_policy: "bc_ok ops (c\<lparr>page_cache_policy := p\<rparr>) = bc_ok ops c"
  by (simp add: bc_ok_def bc_inv_def)

lemma fs_ok_set_policy [simp]: "fs_ok ops (set_policy p s) = fs_ok ops s"
  by (simp add: set_policy_def fs_ok_def bc_ok_policy)

lemma fs_ok_bflush: "bflush ops (bc s) = Some c \<Longrightarrow> fs_ok ops s \<Longrightarrow> fs_ok ops (s\<lparr>bc := c\<rparr>)"
  using bflush_spec [of ops "bc s"] fs_okD(1) [of ops s] fs_ok_bc [of ops s c] by (metis option.sel)

lemma fs_ok_super:
  "bread ops (superblock_buffer s) 1 a (bc s) = Some (b, c) \<Longrightarrow> fs_ok ops s \<Longrightarrow> fs_ok ops (s\<lparr>superblock_buffer := b, bc := c\<rparr>)"
  "bwrite ops (superblock_buffer s) 1 a (bc s) = Some c \<Longrightarrow> fs_ok ops s \<Longrightarrow> fs_ok ops (s\<lparr>bc := c\<rparr>)"
  using bread_eq [of ops "bc s" "superblock_buffer s" 1 a] bwrite_eq [of ops "bc s" "superblock_buffer s" 1 a]
    bc_view_length [of ops "bc s"]
  by (auto simp: fs_ok_def SECTOR_SIZE_def simp del: bread.simps bwrite.simps One_nat_def)

lemmas keeps_pure_bc = keeps_pure [where 'a = "'d bcache"] keeps_pure [where 'a = "bytes \<times> 'd bcache"]
  keeps_pure [where 'a = "i32 option + i32 \<times> i32"]

lemma keeps_do_vmflush [keeps_intros]: "fs_ok ops s \<Longrightarrow> keeps snd ops (do_vmflush ops s)"
  unfolding do_vmflush_def Let_def split_def
  by (rule keeps_intros keeps_pure_bc | simp add: fs_ok_bflush keeps_Some split: sum.split option.split)+

lemma keeps_init_bcache_policy [keeps_intros]: "fs_ok ops s \<Longrightarrow> keeps id ops (init_bcache_policy ops s)"
  unfolding init_bcache_policy_def by (rule keeps_intros keeps_do_cd | simp only: prod.case | simp)+

lemma length_superblock_words: "length superblock_words = 13"
  by (simp add: superblock_words_def)

lemma keeps_do_mkfs [keeps_intros]:
  assumes "fs_ok ops s"
  shows "keeps snd ops (do_mkfs ops s)"
proof -
  define s1 where "s1 = s\<lparr>bc := init_bcache (bc s),
    superblock_buffer := bput 0 (concat (map u32_bytes superblock_words)) (superblock_buffer s)\<rparr>"
  have ok: "fs_ok ops s1"
    using fs_ok_init_bcache [OF assms] fs_okD(2) [OF assms] by (simp add: s1_def length_superblock_words fs_ok_def)
  show ?thesis unfolding do_mkfs_def Let_def split_def s1_def [symmetric]
  proof (rule keeps_pure, goal_cases)
    case (1 c)
    have ok1: "fs_ok ops (s1\<lparr>bc := c\<rparr>)" by (rule fs_ok_super(2) [OF 1 ok])
    show ?case
      by (rule keeps_intros | simp add: fs_okD len_bzero len_dot_entries ok ok1 fs_ok_bufs [OF ok1] fs_okD(4) [OF ok])+
  qed
qed

lemma keeps_init_fs: "fs_ok ops s \<Longrightarrow> keeps id ops (init_fs ops s)"
proof -
  assume ok: "fs_ok ops s"
  define s1 where "s1 = s\<lparr>bc := init_bcache (bc s)\<rparr>"
  have ok1: "fs_ok ops s1" using fs_ok_init_bcache [OF ok] by (simp add: s1_def)
  show ?thesis unfolding init_fs_def Let_def split_def s1_def [symmetric]
  proof (rule keeps_pure, goal_cases)
    case (1 x)
    have ok2: "fs_ok ops (s1\<lparr>superblock_buffer := fst x, bc := snd x\<rparr>)" using fs_ok_super(1) [of ops s1] 1 ok1 by (cases x) simp
    show ?case by (rule keeps_intros ok2 | simp)+
  qed
qed

lemma keeps_do_statfs: "fs_ok ops s \<Longrightarrow> keeps snd ops (do_statfs ops s)"
proof -
  assume ok: "fs_ok ops s"
  show ?thesis unfolding do_statfs_def Let_def split_def
  proof (rule keeps_pure, goal_cases)
    case (1 x)
    have ok2: "fs_ok ops (s\<lparr>superblock_buffer := fst x, bc := snd x\<rparr>)" using fs_ok_super(1) [of ops s] 1 ok by (cases x) simp
    show ?case by (rule keeps_intros ok2 | simp)+
  qed
qed

section \<open>Histories\<close>

text \<open>One file system call that returns, whatever its arguments and its result, and sequences of such calls.\<close>

inductive fs_call :: "'d sd_ops \<Rightarrow> 'd fsst \<Rightarrow> 'd fsst \<Rightarrow> bool" for ops where
  call_mkfs: "do_mkfs ops s = Some (r, s') \<Longrightarrow> fs_call ops s s'"
| call_init: "init_fs ops s = Some s' \<Longrightarrow> fs_call ops s s'"
| call_statfs: "do_statfs ops s = Some (r, s') \<Longrightarrow> fs_call ops s s'"
| call_cd: "do_cd ops p s = Some (r, s') \<Longrightarrow> fs_call ops s s'"
| call_mkdir: "do_mkdir ops p s = Some (r, s') \<Longrightarrow> fs_call ops s s'"
| call_rmdir: "do_rmdir ops p s = Some (r, s') \<Longrightarrow> fs_call ops s s'"
| call_ls: "do_ls ops p opt s = Some (r, s') \<Longrightarrow> fs_call ops s s'"
| call_pwd: "do_pwd ops s = Some (r, s') \<Longrightarrow> fs_call ops s s'"
| call_open: "do_open ops p m s = Some (r, s') \<Longrightarrow> fs_call ops s s'"
| call_read: "do_read ops fd len s = Some (r, b, s') \<Longrightarrow> fs_call ops s s'"
| call_write: "do_write ops fd b len s = Some (r, s') \<Longrightarrow> fs_call ops s s'"
| call_close: "do_close fd s = Some (r, s') \<Longrightarrow> fs_call ops s s'"
| call_ln: "do_ln ops p q s = Some (r, s') \<Longrightarrow> fs_call ops s s'"
| call_rm: "do_rm ops p s = Some (r, s') \<Longrightarrow> fs_call ops s s'"
| call_lseek: "do_lseek ops fd off w s = Some (r, s') \<Longrightarrow> fs_call ops s s'"
| call_touch: "do_touch ops p s = Some (r, s') \<Longrightarrow> fs_call ops s s'"
| call_cat: "do_cat ops p s = Some (r, s') \<Longrightarrow> fs_call ops s s'"
| call_vmflush: "do_vmflush ops s = Some (r, s') \<Longrightarrow> fs_call ops s s'"

lemma keepsD: "keeps pr ops m \<Longrightarrow> m = Some x \<Longrightarrow> fs_ok ops (pr x)"
  by (simp add: keeps_def)

lemma fs_call_ok:
  assumes "fs_call ops s s'" "fs_ok ops s"
  shows "fs_ok ops s'"
  using assms(1)
proof cases
  case call_read
  then show ?thesis using keepsD [OF keeps_do_read [OF assms(2)]] by fastforce
qed (drule keepsD [OF keeps_do_mkfs [OF assms(2)]] keepsD [OF keeps_init_fs [OF assms(2)]] keepsD [OF keeps_do_statfs [OF assms(2)]]
    keepsD [OF keeps_do_cd [OF assms(2)]] keepsD [OF keeps_do_mkdir [OF assms(2)]] keepsD [OF keeps_do_rmdir [OF assms(2)]]
    keepsD [OF keeps_do_ls [OF assms(2)]] keepsD [OF keeps_do_pwd [OF assms(2)]] keepsD [OF keeps_do_open [OF assms(2)]]
    keepsD [OF keeps_do_write [OF assms(2)]] keepsD [OF keeps_do_close [OF assms(2)]] keepsD [OF keeps_do_ln [OF assms(2)]]
    keepsD [OF keeps_do_rm [OF assms(2)]] keepsD [OF keeps_do_lseek [OF assms(2)]] keepsD [OF keeps_do_touch [OF assms(2)]]
    keepsD [OF keeps_do_cat [OF assms(2)]] keepsD [OF keeps_do_vmflush [OF assms(2)]], simp)+



end
