(* ===== verification/FsBlocks.thy ===== *)
theory FsBlocks
  imports FsFile
begin

text \<open>
  Data blocks of src/kernel/fs/fs.c: allocation and release in the block bitmap, the indirect blocks of
  a file, and the statistics of \<^verbatim>\<open>do_statfs\<close>.
\<close>

section \<open>Allocation and release\<close>

lemma bmap_after_alloc:
  assumes "i < 131003" "length m = 16384"
    "\<forall>b. bc_view ops c b = (if in_run (data_sec i) 8 b then x else if in_run 257 32 b then take 512 m else d b)"
  shows "bmap_view ops (s\<lparr>bc := c, block_map := m, rdata_buffer := z\<rparr>) = m"
proof -
  have "\<not> in_run (data_sec i) 8 288" using data_sec_run [OF assms(1), of 288] by simp
  moreover have "in_run 257 32 288" using in_run_unat [of 257 32 288] by simp
  ultimately have "bc_view ops c 288 = take 512 m" using assms(3) by simp
  then show ?thesis using assms(2) by (simp add: bmap_view_def bput_def)
qed

lemma data_sec_index: "i < 131003 \<Longrightarrow> unat (SECTOR2BLOCK (data_sec i - DATA_OFFSET - FS_START_SECTOR)) = i"
proof -
  assume i: "i < 131003"
  have e: "data_sec i - DATA_OFFSET - FS_START_SECTOR = data_sec i - 802"
    using layout_simps(3) by (metis diff_diff_eq)
  have "unat (data_sec i - 802) = 8 * i"
    using unat_data_sec [OF i] by (subst unat_sub) (simp_all add: word_le_nat_alt)
  then show ?thesis unfolding e SECTOR2BLOCK_def by (simp add: unat_div)
qed

lemma free_block_spec:
  assumes ok: "fs_ok ops s" and i: "i < 131003"
  obtains c m where "free_block ops (data_sec i) s = Some (s\<lparr>bc := c, block_map := m\<rparr>)" "bc_ok ops c" "length m = 16384"
    "\<forall>j. bit_at m j \<longleftrightarrow> j \<noteq> i \<and> bit_at (bmap_view ops s) j"
    "\<forall>b. bc_view ops c b = (if in_run 257 32 b then take 512 m else dv ops s b)"
proof -
  let ?B = "bmap_view ops s"
  let ?s1 = "(rd_st ops 32 257 s)\<lparr>block_map := ?B\<rparr>"
  obtain m where m: "unmark_page_free i ?B = Some m" using pages.unmark_ok [of i ?B] ok i by auto
  have lm: "length m = 16384" using unmark_bit_at(1) [OF m] ok by simp
  let ?s2 = "wr_st ops m 32 257 (?s1\<lparr>block_map := m\<rparr>)"
  have ok1: "fs_ok ops (?s1\<lparr>block_map := m\<rparr>)" using ok lm by simp
  have rd: "rd_bmap ops s = Some ?s1" using rd_eqs(6) [OF ok] by (simp add: bmap_view_def)
  have wr: "wr_bmap ops (?s1\<lparr>block_map := m\<rparr>) = Some ?s2" using wr_eqs(6) [OF ok1] by simp
  have ge: "data_sec i \<ge> DATA_OFFSET + FS_START_SECTOR" using unat_data_sec [OF i] by (simp add: word_le_nat_alt)
  have "free_block ops (data_sec i) s = Some ?s2"
    using rd wr m ge data_sec_index [OF i] by (simp add: free_block_def Let_def)
  moreover have "?s2 = s\<lparr>bc := bc ?s2, block_map := m\<rparr>" by (simp add: wr_st_def rd_st_def)
  moreover have "bc_ok ops (bc ?s2)" using wr_st_ok [OF ok1, of m 32 257] lm by (simp add: fs_ok_def)
  moreover have "dv ops ?s2 b = (if in_run 257 32 b then take 512 m else dv ops s b)" for b using ok ok1 lm by simp
  ultimately show ?thesis using that [of m "bc ?s2"] lm unmark_bit_at(2) [OF m] by (simp add: dv_def)
qed

text \<open>
  block allocation. \<^verbatim>\<open>find_free_block\<close> hands out the sector of the least free data block, marks it
  used, clears it and changes nothing else on the disk but the bitmap's sectors; \<^verbatim>\<open>free_block\<close> on that
  sector restores the bitmap. Without a free block the result is -1.
\<close>

theorem block_alloc_free:
  assumes "fs_ok ops s"
  shows "case first_idx (\<lambda>i. \<not> bit_at (bmap_view ops s) i) 131003 of
      None \<Rightarrow> \<exists>s'. find_free_block ops s = Some (- 1, s') \<and> dv ops s' = dv ops s
    | Some i \<Rightarrow> \<exists>s1 s2. find_free_block ops s = Some (data_sec i, s1) \<and>
        (\<forall>j. bit_at (bmap_view ops s1) j \<longleftrightarrow> j = i \<or> bit_at (bmap_view ops s) j) \<and>
        (\<forall>b. in_run (data_sec i) 8 b \<longrightarrow> dv ops s1 b = replicate 512 0) \<and>
        (\<forall>b. \<not> in_run (data_sec i) 8 b \<and> \<not> in_run 257 32 b \<longrightarrow> dv ops s1 b = dv ops s b) \<and>
        free_block ops (data_sec i) s1 = Some s2 \<and> (\<forall>j. bit_at (bmap_view ops s2) j \<longleftrightarrow> bit_at (bmap_view ops s) j)"
proof (cases "first_idx (\<lambda>i. \<not> bit_at (bmap_view ops s) i) 131003")
  case None
  let ?s1 = "(rd_st ops 32 257 s)\<lparr>block_map := bmap_view ops s\<rparr>"
  have rd: "rd_bmap ops s = Some ?s1" using rd_eqs(6) [OF assms] by (simp add: bmap_view_def)
  then have "find_free_block ops s = Some (- 1, ?s1)"
    using None assms by (simp add: find_free_block_def bytes_loop_upto Let_def)
  then show ?thesis using None assms by simp
next
  case (Some i)
  then have i: "i < 131003" "\<not> bit_at (bmap_view ops s) i" by (auto simp: first_idx_Some_iff)
  obtain c m where c: "find_free_block ops s = Some (data_sec i, s\<lparr>bc := c, block_map := m, rdata_buffer := replicate 4096 0\<rparr>)" "bc_ok ops c"
    "length m = 16384" "\<forall>j. bit_at m j \<longleftrightarrow> j = i \<or> bit_at (bmap_view ops s) j"
    "\<forall>b. bc_view ops c b = (if in_run (data_sec i) 8 b then replicate 512 0 else if in_run 257 32 b then take 512 m else dv ops s b)"
    using find_free_block_spec [OF assms Some] .
  let ?s1 = "s\<lparr>bc := c, block_map := m, rdata_buffer := replicate 4096 0\<rparr>"
  have v1: "bmap_view ops ?s1 = m" by (rule bmap_after_alloc [OF i(1) c(3,5)])
  have ok1: "fs_ok ops ?s1" using assms c(2,3) by (simp add: fs_ok_def)
  obtain c' m' where c': "free_block ops (data_sec i) ?s1 = Some (?s1\<lparr>bc := c', block_map := m'\<rparr>)" "bc_ok ops c'" "length m' = 16384"
    "\<forall>j. bit_at m' j \<longleftrightarrow> j \<noteq> i \<and> bit_at (bmap_view ops ?s1) j"
    "\<forall>b. bc_view ops c' b = (if in_run 257 32 b then take 512 m' else dv ops ?s1 b)"
    using free_block_spec [OF ok1 i(1)] .
  have "in_run 257 32 288" using in_run_unat [of 257 32 288] by simp
  then have v2: "bmap_view ops (?s1\<lparr>bc := c', block_map := m'\<rparr>) = m'" using c'(3,5) by (simp add: bmap_view_def bput_def)
  have "\<forall>j. bit_at (bmap_view ops (?s1\<lparr>bc := c', block_map := m'\<rparr>)) j \<longleftrightarrow> bit_at (bmap_view ops s) j"
    unfolding v2 using c'(4) v1 c(4) i(2) by auto
  moreover have "\<forall>j. bit_at (bmap_view ops ?s1) j \<longleftrightarrow> j = i \<or> bit_at (bmap_view ops s) j" unfolding v1 by (rule c(4))
  ultimately show ?thesis using Some c(1,5) c'(1) by (auto intro!: exI [of _ ?s1] exI [of _ "?s1\<lparr>bc := c', block_map := m'\<rparr>"])
qed

lemma demo_free_block: "first_idx (\<lambda>i. \<not> bit_at (bmap_view demo_sd demo_file) i) 131003 = Some 1"
  using demo_bits [of 0 16383] demo_bits [of 1 16383] by (simp add: first_idx_Some_iff demo_bmap)

theorem block_alloc_free_witness:
  "\<exists>s1 s2. find_free_block demo_sd demo_file = Some (data_sec 1, s1) \<and> free_block demo_sd (data_sec 1) s1 = Some s2 \<and>
     (\<forall>j. bit_at (bmap_view demo_sd s2) j \<longleftrightarrow> bit_at (bmap_view demo_sd demo_file) j)"
  using block_alloc_free [OF demo_file_ok(1)] unfolding demo_free_block by auto

section \<open>Indirect blocks\<close>

text \<open>A new data block as an entry of the indirect block in data block \<open>r\<close>.\<close>

lemma add_entry_spec:
  assumes ok: "fs_ok ops s" and i: "first_idx (\<lambda>i. \<not> bit_at (bmap_view ops s) i) 131003 = Some i"
    and r: "r < 131003" "r \<noteq> i" and j: "j < 1024"
  obtains s' where "add_entry ops (data_sec r) j s = Some s'" "fs_ok ops s'" "inode_buffer s' = inode_buffer s"
    "rdata_buffer s' = put_u32 (4 * j) (data_sec i) (dv ops s (data_sec r + 7) @ replicate 3584 0)"
    "\<forall>b. in_run (data_sec r) 8 b \<longrightarrow> dv ops s' b = take 512 (rdata_buffer s')"
    "\<forall>k. bit_at (bmap_view ops s') k \<longleftrightarrow> k = i \<or> bit_at (bmap_view ops s) k"
proof -
  have i': "i < 131003" using i by (simp add: first_idx_Some_iff)
  obtain c m where c: "find_free_block ops s = Some (data_sec i, s\<lparr>bc := c, block_map := m, rdata_buffer := replicate 4096 0\<rparr>)" "bc_ok ops c"
    "length m = 16384" "\<forall>j. bit_at m j \<longleftrightarrow> j = i \<or> bit_at (bmap_view ops s) j"
    "\<forall>b. bc_view ops c b = (if in_run (data_sec i) 8 b then replicate 512 0 else if in_run 257 32 b then take 512 m else dv ops s b)"
    using find_free_block_spec [OF ok i] .
  let ?s1 = "s\<lparr>bc := c, block_map := m, rdata_buffer := replicate 4096 0\<rparr>"
  have ok1: "fs_ok ops ?s1" using ok c(2,3) by (simp add: fs_ok_def)
  have run: "in_run (data_sec r) 8 b \<Longrightarrow> \<not> in_run (data_sec i) 8 b \<and> \<not> in_run 257 32 b" for b
    using data_sec_run [OF r(1), of b] data_sec_run [OF i', of b] in_run_unat [of 257 32 b] r(2) by auto
  have old: "dv ops ?s1 (data_sec r + 7) = dv ops s (data_sec r + 7)" using run [of "data_sec r + 7"] c(5) by simp
  have eight: "(0 :: nat) < 8" by simp
  obtain c2 where c2: "rd_rdata ops 8 (data_sec r) ?s1 =
      Some (?s1\<lparr>bc := c2, rdata_buffer := dv ops ?s1 (data_sec r + word_of_nat (8 - 1)) @ drop 512 (rdata_buffer ?s1)\<rparr>)"
    "bc_ok ops c2" "bc_view ops c2 = dv ops ?s1" using rd_rdata_spec [OF ok1 eight] .
  let ?R = "dv ops s (data_sec r + 7) @ replicate 3584 0"
  let ?s2 = "?s1\<lparr>bc := c2, rdata_buffer := put_u32 (4 * j) (data_sec i) ?R\<rparr>"
  have l: "length ?R = 4096" using dv_length [OF ok] by simp
  have ok2: "fs_ok ops ?s2" using ok1 c2(2) l j by (simp add: fs_ok_def)
  obtain c3 where c3: "wr_rdata ops (data_sec r) ?s2 = Some (?s2\<lparr>bc := c3\<rparr>)" "bc_ok ops c3"
    "bc_view ops c3 = put_run (data_sec r) 8 (take 512 (rdata_buffer ?s2)) (dv ops ?s2)" using wr_rdata_spec [OF ok2] .
  let ?s' = "?s2\<lparr>bc := c3\<rparr>"
  have "add_entry ops (data_sec r) j s = Some ?s'"
    using c(1) c2(1) c3(1) old by (simp add: add_entry_def set_rdata32_def)
  moreover have "fs_ok ops ?s'" using ok2 c3(2) by (simp add: fs_ok_def)
  moreover have "bmap_view ops ?s' = m"
  proof -
    have "\<not> in_run (data_sec r) 8 288" "\<not> in_run (data_sec i) 8 288" "in_run 257 32 288"
      using data_sec_run [OF r(1), of 288] data_sec_run [OF i', of 288] in_run_unat [of 257 32 288] by simp_all
    then show ?thesis using c3(3) c2(3) c(5,3) by (simp add: bmap_view_def put_run_simps bput_def)
  qed
  ultimately show ?thesis using that [of ?s'] c3(3) c(4) by (simp add: put_run_simps)
qed

text \<open>
  blocks of a file beyond the direct ones. For a file with an indirect block, allocating file block
  7 to 134 stores a new data block in the indirect block on the disk, where a lookup with any
  contents of the buffer finds it; the sector handed out was free before.
\<close>

theorem indirect_block_roundtrip:
  assumes "fs_ok ops s" "k < 8" "7 \<le> b" "b < 135" "ino_block k 7 s = data_sec r" "r < 131003"
    "bit_at (bmap_view ops s) r" "first_idx (\<lambda>i. \<not> bit_at (bmap_view ops s) i) 131003 = Some i"
  shows "\<exists>s'. alloc_inode_block ops b k s = Some (0, s') \<and> fs_ok ops s' \<and>
    (\<forall>z. length z = 4096 \<longrightarrow> (\<exists>s''. blockid2sector ops b (inode_at k (inode_buffer s')) (s'\<lparr>rdata_buffer := z\<rparr>) = Some (data_sec i, s'')))"
proof -
  have i: "i < 131003" "\<not> bit_at (bmap_view ops s) i" using assms(8) by (auto simp: first_idx_Some_iff)
  have ri: "r \<noteq> i" using assms(7) i by auto
  have j: "b - 7 < 1024" using assms(4) by simp
  have nz: "data_sec r \<noteq> 0" by (rule data_sec_nonzero [OF assms(6)])
  obtain s' where s': "add_entry ops (data_sec r) (b - 7) s = Some s'" "fs_ok ops s'" "inode_buffer s' = inode_buffer s"
    "rdata_buffer s' = put_u32 (4 * (b - 7)) (data_sec i) (dv ops s (data_sec r + 7) @ replicate 3584 0)"
    "\<forall>a. in_run (data_sec r) 8 a \<longrightarrow> dv ops s' a = take 512 (rdata_buffer s')"
    "\<forall>k. bit_at (bmap_view ops s') k \<longleftrightarrow> k = i \<or> bit_at (bmap_view ops s) k"
    using add_entry_spec [OF assms(1,8,6) ri j] .
  have a: "alloc_inode_block ops b k s = Some (0, s')"
    using s'(1) nz assms(3-5) by (simp add: alloc_inode_block_def DIRECT_BLOCK_NUM_def NBLOCK_LV1_def ensure_root_def)
  have blk: "i_blocks (inode_at k (inode_buffer s')) ! 7 = data_sec r" using s'(3) assms(5) ino_block_eq [of 7 k s] by simp
  have "\<exists>s''. blockid2sector ops b (inode_at k (inode_buffer s')) (s'\<lparr>rdata_buffer := z\<rparr>) = Some (data_sec i, s'')"
    if z: "length z = 4096" for z
  proof -
    let ?s = "s'\<lparr>rdata_buffer := z\<rparr>"
    have ok: "fs_ok ops ?s" using s'(2) z by simp
    have eight: "(0 :: nat) < 8" by simp
    obtain c where c: "rd_rdata ops 8 (data_sec r) ?s =
        Some (?s\<lparr>bc := c, rdata_buffer := dv ops ?s (data_sec r + word_of_nat (8 - 1)) @ drop 512 (rdata_buffer ?s)\<rparr>)"
      "bc_ok ops c" "bc_view ops c = dv ops ?s" using rd_rdata_spec [OF ok eight] .
    have "bget (4 * (b - 7)) 4 (take 512 (rdata_buffer s') @ drop 512 z) = bget (4 * (b - 7)) 4 (rdata_buffer s')"
      using assms(4) fs_okD(7) [OF s'(2)] by (intro bget_prefix) auto
    then have "get_u32 (4 * (b - 7)) (take 512 (rdata_buffer s') @ drop 512 z) = data_sec i"
      using assms(4) dv_length [OF assms(1)] by (simp add: get_u32_def s'(4) put_u32_def bget_bput_same)
    then show ?thesis
      using c(1) blk nz assms(3,4) s'(5) by (simp add: blockid2sector_def DIRECT_BLOCK_NUM_def NBLOCK_LV1_def rdata32_def)
  qed
  then show ?thesis using a s'(2) by blast
qed

text \<open>
  An indirect block keeps 128 of its 1024 entries. Allocating one of the file blocks 135 to 1030
  returns 0, but the sectors of the indirect block on the disk hold what they held: a lookup with a
  cleared buffer finds no block there.
\<close>

theorem indirect_entry_not_stored:
  assumes "fs_ok ops s" "k < 8" "135 \<le> b" "b < 1031" "ino_block k 7 s = data_sec r" "r < 131003"
    "bit_at (bmap_view ops s) r" "first_idx (\<lambda>i. \<not> bit_at (bmap_view ops s) i) 131003 = Some i"
  shows "\<exists>s'. alloc_inode_block ops b k s = Some (0, s') \<and> dv ops s' (data_sec r + 7) = dv ops s (data_sec r + 7) \<and>
    (\<exists>s''. blockid2sector ops b (inode_at k (inode_buffer s')) (s'\<lparr>rdata_buffer := replicate 4096 0\<rparr>) = Some (0, s''))"
proof -
  have i: "i < 131003" "\<not> bit_at (bmap_view ops s) i" using assms(8) by (auto simp: first_idx_Some_iff)
  have ri: "r \<noteq> i" using assms(7) i by auto
  have j: "b - 7 < 1024" using assms(4) by simp
  have nz: "data_sec r \<noteq> 0" by (rule data_sec_nonzero [OF assms(6)])
  let ?R = "dv ops s (data_sec r + 7) @ replicate 3584 0"
  obtain s' where s': "add_entry ops (data_sec r) (b - 7) s = Some s'" "fs_ok ops s'" "inode_buffer s' = inode_buffer s"
    "rdata_buffer s' = put_u32 (4 * (b - 7)) (data_sec i) ?R"
    "\<forall>a. in_run (data_sec r) 8 a \<longrightarrow> dv ops s' a = take 512 (rdata_buffer s')"
    "\<forall>k. bit_at (bmap_view ops s') k \<longleftrightarrow> k = i \<or> bit_at (bmap_view ops s) k"
    using add_entry_spec [OF assms(1,8,6) ri j] .
  have a: "alloc_inode_block ops b k s = Some (0, s')"
    using s'(1) nz assms(3-5) by (simp add: alloc_inode_block_def DIRECT_BLOCK_NUM_def NBLOCK_LV1_def ensure_root_def)
  have blk: "i_blocks (inode_at k (inode_buffer s')) ! 7 = data_sec r" using s'(3) assms(5) ino_block_eq [of 7 k s] by simp
  have l: "length (dv ops s (data_sec r + 7)) = 512" by (rule dv_length [OF assms(1)])
  have "take 512 (rdata_buffer s') = dv ops s (data_sec r + 7)"
    using assms(3) l by (simp add: s'(4) put_u32_def bput_def)
  then have same: "dv ops s' (data_sec r + 7) = dv ops s (data_sec r + 7)" using s'(5) by simp
  let ?s = "s'\<lparr>rdata_buffer := replicate 4096 0\<rparr>"
  have ok: "fs_ok ops ?s" using s'(2) by simp
  have eight: "(0 :: nat) < 8" by simp
  obtain c where c: "rd_rdata ops 8 (data_sec r) ?s =
      Some (?s\<lparr>bc := c, rdata_buffer := dv ops ?s (data_sec r + word_of_nat (8 - 1)) @ drop 512 (rdata_buffer ?s)\<rparr>)"
    "bc_ok ops c" "bc_view ops c = dv ops ?s" using rd_rdata_spec [OF ok eight] .
  have "bget (4 * (b - 7)) 4 ?R = replicate 4 0" using assms(3,4) l by (simp add: bget_def min_def)
  then have "get_u32 (4 * (b - 7)) ?R = 0" by (simp add: get_u32_def numeral_eq_Suc)
  then have "\<exists>s''. blockid2sector ops b (inode_at k (inode_buffer s')) ?s = Some (0, s'')"
    using c(1) blk nz assms(3,4) same by (simp add: blockid2sector_def DIRECT_BLOCK_NUM_def NBLOCK_LV1_def rdata32_def)
  then show ?thesis using a same by blast
qed

text \<open>An inode in the buffer whose indirect block is data block 0.\<close>

definition demo_ind :: "(u32 \<Rightarrow> bytes) fsst" where
  "demo_ind = set_block 0 7 (data_sec 0) demo_file"

lemma demo_ind_facts:
  "fs_ok demo_sd demo_ind" "ino_block 0 7 demo_ind = data_sec 0" "bit_at (bmap_view demo_sd demo_ind) 0"
  "first_idx (\<lambda>i. \<not> bit_at (bmap_view demo_sd demo_ind) i) 131003 = Some 1"
proof -
  have l: "length (inode_buffer demo_file) = 512" using fs_okD(5) [OF demo_file_ok(1)] .
  then show "fs_ok demo_sd demo_ind" using demo_file_ok(1) by (simp add: demo_ind_def set_block_def)
  show "ino_block 0 7 demo_ind = data_sec 0" using l by (simp add: demo_ind_def set_block_def ino_block_def get_put_u32)
  have b: "bmap_view demo_sd demo_ind = bmap_view demo_sd demo_file" by (simp add: demo_ind_def set_block_def bmap_view_def)
  show "bit_at (bmap_view demo_sd demo_ind) 0" unfolding b using demo_bits [of 0 16383] by (simp add: demo_bmap)
  show "first_idx (\<lambda>i. \<not> bit_at (bmap_view demo_sd demo_ind) i) 131003 = Some 1" unfolding b by (rule demo_free_block)
qed

theorem indirect_block_roundtrip_witness:
  "\<exists>s' s''. alloc_inode_block demo_sd 7 0 demo_ind = Some (0, s') \<and>
     blockid2sector demo_sd 7 (inode_at 0 (inode_buffer s')) (s'\<lparr>rdata_buffer := replicate 4096 0\<rparr>) = Some (data_sec 1, s'')"
proof -
  have n: "(0 :: nat) < 8" "(7 :: nat) \<le> 7" "(7 :: nat) < 135" "(0 :: nat) < 131003" by simp_all
  have l: "length (replicate 4096 (0 :: u8)) = 4096" by simp
  from indirect_block_roundtrip [OF demo_ind_facts(1) n(1-3) demo_ind_facts(2) n(4) demo_ind_facts(3,4)] l show ?thesis by blast
qed

theorem indirect_entry_not_stored_witness:
  "\<exists>s' s''. alloc_inode_block demo_sd 200 0 demo_ind = Some (0, s') \<and>
     blockid2sector demo_sd 200 (inode_at 0 (inode_buffer s')) (s'\<lparr>rdata_buffer := replicate 4096 0\<rparr>) = Some (0, s'')"
proof -
  have "(0 :: nat) < 8" "(135 :: nat) \<le> 200" "(200 :: nat) < 1031" "(0 :: nat) < 131003" by simp_all
  from indirect_entry_not_stored [OF demo_ind_facts(1) this(1-3) demo_ind_facts(2) this(4) demo_ind_facts(3,4)] show ?thesis by blast
qed

section \<open>Statistics\<close>

lemma count_byte_card:
  assumes "k \<le> 8"
  shows "count_byte n b base [k..<8] = card {i. base + k \<le> i \<and> i < base + 8 \<and> i < n \<and> bit b (i - base)}"
  using assms
proof (induction "8 - k" arbitrary: k)
  case 0
  then have "k = 8" by simp
  then have "{i. base + k \<le> i \<and> i < base + 8 \<and> i < n \<and> bit b (i - base)} = {}" by auto
  then show ?case using \<open>k = 8\<close> by simp
next
  case (Suc m)
  then have k: "k < 8" by simp
  let ?A = "\<lambda>k. {i. base + k \<le> i \<and> i < base + 8 \<and> i < n \<and> bit b (i - base)}"
  have l: "[k..<8] = k # [Suc k..<8]" using k by (simp add: upt_conv_Cons)
  have IH: "count_byte n b base [Suc k..<8] = card (?A (Suc k))" using Suc k by (intro Suc.hyps(1)) simp_all
  have fin: "finite (?A (Suc k))" by (rule finite_subset [of _ "{..<n}"]) auto
  show ?case
  proof (cases "base + k < n")
    case False
    then have "?A k = {}" by auto
    then show ?thesis using False by (simp only: l count_byte.simps card.empty) simp
  next
    case True
    have "?A k = (if bit b k then insert (base + k) (?A (Suc k)) else ?A (Suc k))"
      using True k by (auto simp: le_less Suc_le_eq)
    then show ?thesis using True IH fin by (simp add: l and_exp_eq_0_iff_not_bit push_bit_eq_mult)
  qed
qed

lemma count_bytes_card: "count_bytes n bm base = card {i. base \<le> i \<and> i < base + 8 * length bm \<and> i < n \<and> bit_at bm (i - base)}"
proof (induction bm arbitrary: base)
  case (Cons b bm)
  let ?S = "{i. base \<le> i \<and> i < base + 8 * length (b # bm) \<and> i < n \<and> bit_at (b # bm) (i - base)}"
  let ?A = "{i. base + 0 \<le> i \<and> i < base + 8 \<and> i < n \<and> bit b (i - base)}"
  let ?B = "{i. base + 8 \<le> i \<and> i < base + 8 + 8 * length bm \<and> i < n \<and> bit_at bm (i - (base + 8))}"
  have a: "bit_at (b # bm) (i - base) = bit b (i - base)" if "i < base + 8" for i using that by (simp add: bit_at_def)
  have c: "bit_at (b # bm) (i - base) = bit_at bm (i - (base + 8))" if ge: "base + 8 \<le> i" for i
  proof -
    obtain j where "i = base + 8 + j" using le_Suc_ex [OF ge] by blast
    moreover have "(8 + j) div 8 = Suc (j div 8)" by presburger
    ultimately show ?thesis by (simp add: bit_at_def)
  qed
  have "?S = ?A \<union> ?B"
  proof (intro set_eqI)
    fix i show "i \<in> ?S \<longleftrightarrow> i \<in> ?A \<union> ?B" using a [of i] c [of i] by (cases "i < base + 8") auto
  qed
  moreover have "card (?A \<union> ?B) = card ?A + card ?B"
    by (rule card_Un_disjoint) (auto intro: finite_subset [of _ "{..<n}"])
  moreover have "?A = {}" if "b = 0" using that by auto
  then have "(if b \<noteq> 0 then count_byte n b base [0..<8] else 0) = card ?A"
    using count_byte_card [of 0 n b base] by (metis (no_types, lifting) card.empty zero_le)
  ultimately show ?case using Cons.IH [of "base + 8"] by simp
qed simp

text \<open>
  The statistics of \<^verbatim>\<open>do_statfs\<close> are right: on a disk with the magic number the call returns 0 and
  reports the number of inodes and of data blocks whose bit is set.
\<close>

theorem statfs_counts:
  assumes "fs_ok ops s" "get_u32 0 (dv ops s FS_START_SECTOR) = SUPERBLOCK_MAGIC"
  shows "\<exists>s'. do_statfs ops s = Some (0, s') \<and> dv ops s' = dv ops s \<and>
    last (fs_con s') = OutStatfs (take 52 (dv ops s FS_START_SECTOR)) (card {i. i < 4096 \<and> bit_at (dv ops s 289) i})
      (card {i. i < 131003 \<and> bit_at (bmap_view ops s) i})"
proof -
  let ?b = "dv ops s FS_START_SECTOR"
  have l: "length (superblock_buffer s) = 512" "length ?b = 512" using fs_okD(2) [OF assms(1)] dv_length [OF assms(1)] by simp_all
  obtain c where c: "bread ops (superblock_buffer s) 1 FS_START_SECTOR (bc s) = Some (?b, c)" "bc_ok ops c" "bc_view ops c = dv ops s"
    using bread_eq [of ops "bc s" "superblock_buffer s" 1 FS_START_SECTOR] fs_okD(1) [OF assms(1)] l
    by (simp add: SECTOR_SIZE_def bput_0_full dv_def del: bread.simps One_nat_def)
  let ?s1 = "s\<lparr>superblock_buffer := ?b, bc := c\<rparr>"
  have ok1: "fs_ok ops ?s1" using assms(1) c(2) l by (simp add: fs_ok_def)
  have dv1: "dv ops ?s1 = dv ops s" using c(3) by simp
  let ?s2 = "(rd_st ops 32 257 ?s1)\<lparr>block_map := bmap_view ops s\<rparr>"
  have rb: "rd_bmap ops ?s1 = Some ?s2" using rd_eqs(6) [OF ok1] dv1 by (simp add: bmap_view_def)
  have ok2: "fs_ok ops ?s2" using ok1 assms(1) by simp
  have dv2: "dv ops ?s2 = dv ops s" using ok1 dv1 by simp
  let ?s3 = "(rd_st ops 1 289 ?s2)\<lparr>inode_map := dv ops s 289\<rparr>"
  have ri: "rd_imap ops ?s2 = Some ?s3" using rd_eqs(5) [OF ok2] unfolding dv2 .
  let ?n = "count_bytes 131003 (bmap_view ops s) 0" and ?m = "count_bytes (8 * length (dv ops s 289)) (dv ops s 289) 0"
  have "do_statfs ops s = Some (0, out (OutStatfs (take 52 ?b) ?m ?n) ?s3)"
    using c(1) assms(2) rb ri by (simp add: do_statfs_def Let_def del: bread.simps One_nat_def)
  moreover have "?n = card {i. i < 131003 \<and> bit_at (bmap_view ops s) i}"
    using assms(1) by (simp add: count_bytes_card) (rule arg_cong [of _ _ card], auto)
  moreover have "?m = card {i. i < 4096 \<and> bit_at (dv ops s 289) i}"
    using dv_length [OF assms(1)] by (simp add: count_bytes_card)
  moreover have "dv ops (out x ?s3) = dv ops s" for x using ok2 dv2 by (simp add: out_def)
  ultimately show ?thesis by (simp add: out_def)
qed

theorem statfs_counts_witness:
  "\<exists>s'. do_statfs demo_sd demo_fs = Some (0, s') \<and> last (fs_con s') =
     OutStatfs (take 52 (dv demo_sd demo_fs FS_START_SECTOR)) 1 1"
proof -
  have "\<not> in_run 257 32 FS_START_SECTOR" "\<not> in_run (data_sec 0) 8 FS_START_SECTOR"
    using in_run_unat [of 257 32 FS_START_SECTOR] data_sec_run [of 0 FS_START_SECTOR] by (simp_all add: FS_START_SECTOR_def)
  then have "dv demo_sd demo_fs FS_START_SECTOR = concat (map u32_bytes superblock_words) @ replicate 460 0"
    by (simp add: demo_dv demo_disk_def FS_START_SECTOR_def superblock_words_def)
  then have "get_u32 0 (dv demo_sd demo_fs FS_START_SECTOR) = SUPERBLOCK_MAGIC"
    by (simp add: superblock_words_def get_u32_here)
  moreover have "{i. i < 4096 \<and> bit_at (dv demo_sd demo_fs 289) i} = {0}" using demo_bits [of _ 511] by (auto simp: demo_imap)
  moreover have "bmap_view demo_sd demo_fs = 1 # replicate 16383 0" using demo_bmap by (simp add: bmap_view_def demo_file_ok)
  then have "{i. i < 131003 \<and> bit_at (bmap_view demo_sd demo_fs) i} = {0}" using demo_bits [of _ 16383] by auto
  ultimately show ?thesis using statfs_counts [OF demo_fs_ok [of demo_dir]] by auto
qed

end
