(* ===== verification/Printk.thy ===== *)
theory Printk
  imports CString "HOL-Library.Signed_Division"
begin

text \<open>
  Formatted output: \<^verbatim>\<open>mini_itoa\<close>, \<^verbatim>\<open>_putc\<close>, \<^verbatim>\<open>_puts\<close> and \<^verbatim>\<open>mini_vsnprintf\<close> of src/libs/printk.c, the
  differing routines of the user library's copy src/tiny_libc/printf.c, and the number parser
  \<^verbatim>\<open>atol\<close> of src/tiny_libc/atoi.c that reads such numbers back.

  A number is built in the local array \<^verbatim>\<open>bf[24]\<close>; a store behind it is a fault (\<open>None\<close>). The output
  buffer only grows at its end, so \<open>mini_buff\<close> holds what has been written and the buffer's length.
  A variadic argument is a register value or a pointer to a string.
\<close>

section \<open>Numbers\<close>

definition BF_SIZE :: nat where "BF_SIZE = 24"

text \<open>\<^verbatim>\<open>digit < 10 ? '0' + digit : (uppercase ? 'A' : 'a') + digit - 10\<close>, stored in a \<^verbatim>\<open>char\<close>.\<close>

definition digit_char :: "bool \<Rightarrow> int \<Rightarrow> u8" where
  "digit_char uppercase digit =
     word_of_int (if digit < 10 then 48 + digit else (if uppercase then 65 else 97) + digit - 10)"

text \<open>The digit loop, back to front; \<open>buf\<close> is what has been stored so far.\<close>

partial_function (option) itoa_digits :: "u64 \<Rightarrow> u32 \<Rightarrow> bool \<Rightarrow> bool \<Rightarrow> bytes \<Rightarrow> bytes option" where
  "itoa_digits v radix uppercase unsig buf =
     (if radix = 0 \<or> length buf \<ge> BF_SIZE then None
      else let digit = (if unsig then uint v mod uint radix else sint v smod uint radix);
               buf' = buf @ [digit_char uppercase digit];
               v' = (if unsig then v div ucast radix else word_of_int (sint v sdiv uint radix))
           in if v' \<noteq> 0 then itoa_digits v' radix uppercase unsig buf' else Some buf')"

text \<open>\<^verbatim>\<open>for (i = 0; i < len / 2; i++)\<close>: exchange positions \<open>i\<close> and \<open>len - i - 1\<close>.\<close>

definition swap_ends :: "bytes \<Rightarrow> nat \<Rightarrow> bytes" where
  "swap_ends b i = b[i := b ! (length b - i - 1), length b - i - 1 := b ! i]"

definition itoa_reverse :: "bytes \<Rightarrow> bytes" where
  "itoa_reverse b = foldl swap_ends b [0..<length b div 2]"

definition mini_itoa :: "u64 \<Rightarrow> u32 \<Rightarrow> bool \<Rightarrow> bool \<Rightarrow> u32 \<Rightarrow> u8 \<Rightarrow> bytes option" where
  "mini_itoa v radix uppercase unsig n_pad cpad =
     (if radix > 16 then Some [] else do {
        let negative = (sint v < 0 \<and> \<not> unsig);
        ds \<leftarrow> itoa_digits (if negative then - v else v) radix uppercase unsig [];
        let ds1 = ds @ replicate (unat n_pad - length ds) cpad;
        let ds2 = ds1 @ (if negative then [45] else []);
        c_assert (length ds2 < BF_SIZE);
        Some (itoa_reverse ds2) })"

section \<open>The output buffer\<close>

record mini_buff =
  out :: bytes
  buffer_len :: u32

definition mini_full :: "mini_buff \<Rightarrow> bool" where
  "mini_full b \<longleftrightarrow> (word_of_nat (length (out b) + 1) :: u32) \<ge> buffer_len b"

definition put_ch :: "u8 \<Rightarrow> mini_buff \<Rightarrow> mini_buff" where
  "put_ch ch b = (if mini_full b then b else b\<lparr>out := out b @ [ch]\<rparr>)"

text \<open>\<^verbatim>\<open>_puts\<close>; the source string \<open>None\<close> is NULL, which stands for spaces.\<close>

definition put_len :: "u32 \<Rightarrow> mini_buff \<Rightarrow> u32" where
  "put_len len b = (let room = uint (buffer_len b) - int (length (out b)) - 1 in
     if room < uint len then word_of_int room else len)"

definition put_str :: "bytes option \<Rightarrow> u32 \<Rightarrow> mini_buff \<Rightarrow> mini_buff option" where
  "put_str s len b = (let n = unat (put_len len b) in case s of
       None \<Rightarrow> Some (b\<lparr>out := out b @ replicate n 32\<rparr>)
     | Some t \<Rightarrow> if n \<le> length t then Some (b\<lparr>out := out b @ take n t\<rparr>) else None)"

section \<open>Format strings\<close>

datatype va_item = VaReg u64 | VaStr bytes

fun va_reg :: "va_item list \<Rightarrow> (u64 \<times> va_item list) option" where
  "va_reg (VaReg w # va) = Some (w, va)"
| "va_reg _ = None"

fun va_str :: "va_item list \<Rightarrow> (bytes \<times> va_item list) option" where
  "va_str (VaStr t # va) = Some (t, va)"
| "va_str _ = None"

text \<open>\<^verbatim>\<open>va_arg(va, unsigned int)\<close> and \<^verbatim>\<open>va_arg(va, int)\<close> widened to \<^verbatim>\<open>long\<close>; with the flag \<^verbatim>\<open>l\<close> the whole register.\<close>

definition arg_unsigned :: "bool \<Rightarrow> u64 \<Rightarrow> u64" where
  "arg_unsigned long w = (if long then w else ucast (ucast w :: u32))"

definition arg_signed :: "bool \<Rightarrow> u64 \<Rightarrow> u64" where
  "arg_signed long w = (if long then w else scast (ucast w :: i32))"

definition is_digit :: "u8 \<Rightarrow> bool" where "is_digit c \<longleftrightarrow> 48 \<le> c \<and> c \<le> 57"

text \<open>The width: the first character that is no digit (possibly the terminator), the number and the rest.\<close>

fun scan_pad :: "bytes \<Rightarrow> u32 \<Rightarrow> (u8 \<times> u32 \<times> bytes) option" where
  "scan_pad [] n = None"
| "scan_pad (c # cs) n = (if is_digit c then scan_pad cs (n * 10 + ucast c - 48) else Some (c, n, cs))"

text \<open>
  A conversion specification behind a percent sign: the conversion character, padding width and
  character, the long flag and the rest of the format.
\<close>

definition scan_spec :: "bytes \<Rightarrow> (u8 \<times> u32 \<times> u8 \<times> bool \<times> bytes) option" where
  "scan_spec fmt = (case fmt of [] \<Rightarrow> None | c # cs \<Rightarrow> do {
     (ch, n_pad, rest) \<leftarrow> (if is_digit c then scan_pad fmt 0 else Some (c, 0, cs));
     let c_pad = (if c = 48 then 48 else 32);
     if ch = 108 then (case rest of [] \<Rightarrow> None | ch' # rest' \<Rightarrow> Some (ch', n_pad, c_pad, True, rest'))
     else Some (ch, n_pad, c_pad, False, rest) })"

text \<open>The \<^verbatim>\<open>switch\<close>: \<^verbatim>\<open>l\<close> 108, \<^verbatim>\<open>u\<close> 117, \<^verbatim>\<open>d\<close> 100, \<^verbatim>\<open>x\<close> 120, \<^verbatim>\<open>X\<close> 88, \<^verbatim>\<open>c\<close> 99, \<^verbatim>\<open>s\<close> 115.\<close>

definition put_number ::
  "(bool \<Rightarrow> u64 \<Rightarrow> u64) \<Rightarrow> u32 \<Rightarrow> bool \<Rightarrow> bool \<Rightarrow> bool \<Rightarrow> u32 \<Rightarrow> u8 \<Rightarrow> va_item list \<Rightarrow> mini_buff \<Rightarrow>
   (va_item list \<times> mini_buff) option" where
  "put_number arg radix uppercase unsig long n_pad c_pad va b = do {
     (w, va') \<leftarrow> va_reg va;
     bf \<leftarrow> mini_itoa (arg long w) radix uppercase unsig n_pad c_pad;
     b' \<leftarrow> put_str (Some bf) (word_of_nat (length bf)) b;
     Some (va', b') }"

definition convert ::
  "u8 \<Rightarrow> u32 \<Rightarrow> u8 \<Rightarrow> bool \<Rightarrow> va_item list \<Rightarrow> mini_buff \<Rightarrow> (va_item list \<times> mini_buff) option" where
  "convert ch n_pad c_pad long va b =
     (if ch = 108 then Some (va, b)
      else if ch = 117 then put_number arg_unsigned 10 False True long n_pad c_pad va b
      else if ch = 100 then put_number arg_signed 10 False False long n_pad c_pad va b
      else if ch = 120 \<or> ch = 88 then put_number arg_unsigned 16 (ch = 88) True long n_pad c_pad va b
      else if ch = 99 then do { (w, va') \<leftarrow> va_reg va; Some (va', put_ch (ucast w) b) }
      else if ch = 115 then do {
        (t, va') \<leftarrow> va_str va;
        len \<leftarrow> strlen t;
        b1 \<leftarrow> put_str (Some t) (word_of_nat len) b;
        b2 \<leftarrow> (if (word_of_nat len :: u32) < n_pad then put_str None (n_pad - word_of_nat len) b1 else Some b1);
        Some (va', b2) }
      else Some (va, put_ch ch b))"

lemma scan_pad_shorter: "scan_pad fmt n = Some (c, m, rest) \<Longrightarrow> length rest < length fmt"
proof (induction fmt n rule: scan_pad.induct)
  case (2 c cs n)
  then show ?case by (auto split: if_splits)
qed simp

lemma scan_spec_shorter:
  assumes "scan_spec fmt = Some (c, n, p, l, rest)"
  shows "length rest < length fmt"
proof (cases fmt)
  case Nil
  then show ?thesis using assms by (simp add: scan_spec_def)
next
  case (Cons d cs)
  define first where "first = (if is_digit d then scan_pad fmt 0 else Some (d, 0, cs))"
  obtain ch m r where f: "first = Some (ch, m, r)"
    using assms Cons by (cases first) (auto simp: scan_spec_def first_def)
  then have "length r < length fmt"
    using scan_pad_shorter Cons by (fastforce simp: first_def split: if_splits)
  moreover have "rest = r \<or> r = c # rest"
    using assms Cons f by (auto simp: scan_spec_def first_def Let_def split: if_splits list.splits)
  ultimately show ?thesis by auto
qed

text \<open>The main loop. The end of the format, a terminator behind a percent sign or a full buffer end it.\<close>

function mini_loop :: "bytes \<Rightarrow> va_item list \<Rightarrow> mini_buff \<Rightarrow> mini_buff option" where
  "mini_loop fmt va b = (case fmt of [] \<Rightarrow> None | ch # rest \<Rightarrow>
     if ch = 0 then Some b
     else if mini_full b then Some b
     else if ch \<noteq> 37 then mini_loop rest va (put_ch ch b)
     else (case scan_spec rest of None \<Rightarrow> None | Some (ch', n_pad, c_pad, long, rest') \<Rightarrow>
       if ch' = 0 then Some b
       else (case convert ch' n_pad c_pad long va b of None \<Rightarrow> None
         | Some (va', b') \<Rightarrow> mini_loop rest' va' b')))"
  by pat_completeness auto

termination by (relation "measure (\<lambda>(fmt, _). length fmt)") (auto dest!: scan_spec_shorter)

declare mini_loop.simps [simp del]

definition mini_vsnprintf :: "u32 \<Rightarrow> bytes \<Rightarrow> va_item list \<Rightarrow> bytes option" where
  "mini_vsnprintf n fmt va = map_option out (mini_loop fmt va \<lparr>out = [], buffer_len = n\<rparr>)"

text \<open>\<^verbatim>\<open>_vprint\<close>: the string handed to the output function.\<close>

definition PRINT_SIZE :: nat where "PRINT_SIZE = 256"

definition vprint :: "bytes \<Rightarrow> va_item list \<Rightarrow> bytes option" where
  "vprint fmt va = do {
     s \<leftarrow> mini_vsnprintf (word_of_nat PRINT_SIZE) fmt va;
     c_assert (length s < PRINT_SIZE);
     Some s }"

section \<open>Numbers are printed by their digits\<close>

text \<open>The digits of a number, least significant first.\<close>

function digs :: "nat \<Rightarrow> nat \<Rightarrow> nat list" where
  "digs r n = (if r < 2 \<or> n < r then [n] else n mod r # digs r (n div r))"
  by pat_completeness auto

termination by (relation "measure snd") (auto simp: div_less_dividend)

declare digs.simps [simp del]

lemma length_digs: "2 \<le> r \<Longrightarrow> n < r ^ k \<Longrightarrow> 0 < k \<Longrightarrow> length (digs r n) \<le> k"
proof (induction r n arbitrary: k rule: digs.induct)
  case (1 r n)
  show ?case
  proof (cases "n < r")
    case False
    then have "k \<noteq> 1" using 1 by auto
    then obtain k' where k: "k = Suc k'" "0 < k'" using 1(4) by (cases k) auto
    have "n div r < r ^ k'" using 1(2,3) k by (simp add: less_mult_imp_div_less mult.commute)
    then show ?thesis using 1(1) [of k'] False 1(2) k by (simp add: digs.simps [of r n])
  qed (use 1 in \<open>simp add: digs.simps [of r n]\<close>)
qed

lemma digs_less: "2 \<le> r \<Longrightarrow> d \<in> set (digs r n) \<Longrightarrow> d < r"
proof (induction r n rule: digs.induct)
  case (1 r n)
  then show ?case by (cases "n < r") (auto simp: digs.simps [of r n])
qed

lemma digs_ne: "digs r n \<noteq> []"
  by (subst digs.simps) simp

text \<open>Their value, most significant first, as a reader of numbers accumulates it.\<close>

definition of_digs :: "nat \<Rightarrow> nat \<Rightarrow> nat list \<Rightarrow> nat" where
  "of_digs r = foldl (\<lambda>acc d. acc * r + d)"

lemma of_digs_simps [simp]: "of_digs r a [] = a" "of_digs r a (d # ds) = of_digs r (a * r + d) ds"
  "of_digs r a (ds @ es) = of_digs r (of_digs r a ds) es"
  by (simp_all add: of_digs_def)

lemma of_digs_rev: "of_digs r 0 (rev (digs r n)) = n"
proof (induction r n rule: digs.induct)
  case (1 r n)
  then show ?case
    by (cases "r < 2 \<or> n < r") (simp_all add: digs.simps [of r n] mult.commute)
qed

text \<open>The value of a \<^verbatim>\<open>long\<close> that the digit loop handles exactly.\<close>

definition plain :: "bool \<Rightarrow> u64 \<Rightarrow> bool" where
  "plain unsig v \<longleftrightarrow> unsig \<or> unat v < 9223372036854775808"

lemma sdiv_pos: "0 \<le> a \<Longrightarrow> 0 < b \<Longrightarrow> a sdiv b = a div b" "0 \<le> a \<Longrightarrow> 0 < b \<Longrightarrow> a smod b = a mod b" for a b :: int
  by (auto simp: signed_divide_int_def signed_modulo_int_def sgn_if)

lemma sint_plain:
  fixes v :: u64
  assumes "unat v < 9223372036854775808"
  shows "sint v = int (unat v)"
proof -
  have "signed_take_bit 63 (int n) = int n" if "n < 9223372036854775808" for n
    by (rule signed_take_bit_int_eq_self) (use that in simp_all)
  from this [OF assms] show ?thesis by (simp add: sint_uint)
qed

lemma radix_val: "r \<le> 16 \<Longrightarrow> uint (word_of_nat r :: u32) = int r" "r \<le> 16 \<Longrightarrow> unat (word_of_nat r :: u32) = r"
  by (simp_all add: unsigned_of_nat take_bit_nat_eq_self take_bit_int_eq_self)

lemma radix_cast: "r \<le> 16 \<Longrightarrow> (ucast (word_of_nat r :: u32) :: u64) = word_of_nat r"
  using radix_val(2) [of r] by (metis of_nat_unat word_of_int_uint of_int_of_nat_eq unsigned_ucast_eq)

lemma digit_value:
  assumes "plain unsig v" "2 \<le> r" "r \<le> 16"
  shows "(if unsig then uint v mod uint (word_of_nat r :: u32) else sint v smod uint (word_of_nat r :: u32)) = int (unat v mod r)"
  using assms sint_plain [of v] by (auto simp: plain_def radix_val sdiv_pos zmod_int)

lemma digit_rest:
  assumes "plain unsig v" "2 \<le> r" "r \<le> 16"
  shows "(if unsig then v div ucast (word_of_nat r :: u32) else word_of_int (sint v sdiv uint (word_of_nat r :: u32))) =
      (word_of_nat (unat v div r) :: u64)"
proof -
  have d: "v div word_of_nat r = word_of_nat (unat v div r)"
    using assms(3) by (simp add: word_arith_nat_div unsigned_of_nat take_bit_nat_eq_self)
  have "\<not> unsig \<Longrightarrow> sint v sdiv uint (word_of_nat r :: u32) = int (unat v div r)"
    using assms sint_plain [of v] by (simp add: plain_def radix_val sdiv_pos zdiv_int)
  then show ?thesis using d assms(3) by (simp add: radix_cast)
qed

text \<open>The digit loop computes the digits, as long as they fit in the local array.\<close>

lemma itoa_digits_eq:
  assumes r: "2 \<le> r" "r \<le> 16"
  shows "plain unsig v \<Longrightarrow> length buf + length (digs r (unat v)) \<le> BF_SIZE \<Longrightarrow>
    itoa_digits v (word_of_nat r) uppercase unsig buf =
      Some (buf @ map (\<lambda>d. digit_char uppercase (int d)) (digs r (unat v)))"
proof (induction "unat v" arbitrary: v buf rule: less_induct)
  case less
  let ?v = "word_of_nat (unat v div r) :: u64"
  have "unat v div r < 2 ^ 64"
    using unsigned_less [of v, where 'a = nat] by (simp add: order.strict_trans1 [OF div_le_dividend])
  then have v': "unat ?v = unat v div r" by (simp add: unsigned_of_nat take_bit_nat_eq_self)
  have r0: "word_of_nat r \<noteq> (0 :: u32)" using r radix_val(2) [of r] by auto
  have full: "\<not> length buf \<ge> BF_SIZE"
    using less(3) digs_ne [of r "unat v"] by (cases "digs r (unat v)") auto
  let ?b = "buf @ [digit_char uppercase (int (unat v mod r))]"
  have step: "itoa_digits v (word_of_nat r) uppercase unsig buf =
      (if ?v \<noteq> 0 then itoa_digits ?v (word_of_nat r) uppercase unsig ?b else Some ?b)"
    by (subst itoa_digits.simps)
      (simp only: digit_value [OF less(2) r] digit_rest [OF less(2) r] Let_def if_not_P [OF full] r0 simp_thms full if_False)
  have z: "?v = 0 \<longleftrightarrow> unat v < r" using v' r(1) by (metis unat_eq_0 div_eq_0_iff not_numeral_le_zero)
  show ?case
  proof (cases "unat v < r")
    case True
    then show ?thesis using step z r(1) by (simp add: digs.simps [of r "unat v"])
  next
    case False
    have "unat ?v < unat v" "plain unsig ?v"
      using False r(1) v' less(2) by (auto simp: plain_def intro: order.strict_trans1 [OF div_le_dividend])
    moreover have "digs r (unat v) = unat v mod r # digs r (unat ?v)"
      using False r(1) v' by (simp add: digs.simps [of r "unat v"])
    ultimately show ?thesis using step z False less(1) [of ?v ?b] less(3) by simp
  qed
qed

lemma length_swap_ends [simp]: "length (swap_ends b i) = length b"
  by (simp add: swap_ends_def)

lemma swap_ends_nth:
  assumes "i < length b div 2" "j < length b"
  shows "swap_ends b i ! j = (if j = i \<or> j = length b - i - 1 then b ! (length b - 1 - j) else b ! j)"
  using assms by (auto simp: swap_ends_def nth_list_update)

lemma itoa_reverse_eq: "itoa_reverse b = rev b"
proof -
  have "length (foldl swap_ends b [0..<k]) = length b \<and> (\<forall>j < length b. foldl swap_ends b [0..<k] ! j =
      (if j < k \<or> length b - k \<le> j then b ! (length b - 1 - j) else b ! j))" if "k \<le> length b div 2" for k
    using that
  proof (induction k)
    case (Suc k)
    define c where "c = foldl swap_ends b [0..<k]"
    have c: "length c = length b" "\<And>j. j < length b \<Longrightarrow> c ! j =
      (if j < k \<or> length b - k \<le> j then b ! (length b - 1 - j) else b ! j)" using Suc by (auto simp: c_def)
    have k: "k < length c div 2" using Suc(2) c(1) by simp
    have "foldl swap_ends b [0..<Suc k] = swap_ends c k" by (simp add: c_def)
    then show ?case using c k swap_ends_nth [OF k] by auto
  qed auto
  from this [of "length b div 2"] show ?thesis
    unfolding itoa_reverse_def
  proof (intro nth_equalityI, goal_cases)
    case (2 i)
    then have "i = length b - Suc i" if "\<not> i < length b div 2" "\<not> length b - length b div 2 \<le> i"
      using that by linarith
    then show ?case using 2 by (auto simp: rev_nth)
  qed auto
qed


text \<open>
  What \<^verbatim>\<open>mini_itoa\<close> prints: the sign, the padding and the digits. The number is the absolute value
  of a signed, the value itself of an unsigned argument.
\<close>

definition magnitude :: "bool \<Rightarrow> u64 \<Rightarrow> nat" where
  "magnitude unsig v = (if unsig then unat v else nat \<bar>sint v\<bar>)"

definition numeral_text :: "nat \<Rightarrow> bool \<Rightarrow> bool \<Rightarrow> nat \<Rightarrow> u8 \<Rightarrow> u64 \<Rightarrow> bytes" where
  "numeral_text r uppercase unsig w pad v =
     (let ds = rev (map (\<lambda>d. digit_char uppercase (int d)) (digs r (magnitude unsig v))) in
      (if \<not> unsig \<and> sint v < 0 then [45] else []) @ replicate (w - length ds) pad @ ds)"

lemma sint_range64: "- 9223372036854775808 \<le> sint (v :: u64)" "sint (v :: u64) < 9223372036854775808"
  using sint_ge [of v] sint_lt [of v] by simp_all

lemma uint_of_int64: "0 \<le> k \<Longrightarrow> k < 18446744073709551616 \<Longrightarrow> uint (word_of_int k :: u64) = k"
  by (simp add: unsigned_of_int take_bit_int_eq_self)

lemma of_sint: "word_of_int (sint v) = (v :: u64)" "word_of_int (- sint v) = (- v :: u64)"
  by simp_all

lemma negated_value:
  fixes v :: u64
  assumes "sint v < 0" "sint v \<noteq> - 9223372036854775808"
  shows "int (unat (- v)) = - sint v" "plain False (- v)"
proof -
  have "uint (- v) = - sint v"
    using uint_of_int64 [of "- sint v"] assms(1) sint_range64 [of v] unfolding of_sint by simp
  then show u: "int (unat (- v)) = - sint v" by simp
  show "plain False (- v)"
    using u assms sint_range64 [of v] unfolding plain_def by linarith
qed

lemma nonneg_value:
  fixes v :: u64
  assumes "0 \<le> sint v"
  shows "int (unat v) = sint v" "plain False v"
proof -
  have "uint v = sint v"
    using uint_of_int64 [of "sint v"] assms sint_range64 [of v] unfolding of_sint by simp
  then show u: "int (unat v) = sint v" by simp
  show "plain False v"
    using u assms sint_range64 [of v] unfolding plain_def by linarith
qed

lemma itoa_value:
  assumes "unsig \<or> sint v \<noteq> - 9223372036854775808"
  defines "v' \<equiv> (if sint v < 0 \<and> \<not> unsig then - v else v)"
  shows "unat v' = magnitude unsig v" "plain unsig v'"
proof -
  consider "unsig" | "\<not> unsig" "sint v < 0" | "\<not> unsig" "0 \<le> sint v" by linarith
  then have "unat v' = magnitude unsig v \<and> plain unsig v'"
  proof cases
    case 1
    then show ?thesis by (simp add: v'_def magnitude_def plain_def)
  next
    case 2
    have "unat (- v) = nat (- sint v)" using negated_value(1) [of v] 2 assms(1) by linarith
    then show ?thesis using negated_value(2) [of v] 2 assms(1) by (simp add: v'_def magnitude_def)
  next
    case 3
    have "unat v = nat (sint v)" using nonneg_value(1) [of v] 3 by linarith
    then show ?thesis using nonneg_value(2) [of v] 3 by (simp add: v'_def magnitude_def)
  qed
  then show "unat v' = magnitude unsig v" "plain unsig v'" by simp_all
qed

lemma digs64:
  assumes "10 \<le> r"
  shows "length (digs r (unat (v :: u64))) \<le> 20"
proof (rule length_digs)
  have "unat v < 2 ^ 64" using unsigned_less [of v, where 'a = nat] by simp
  also have "\<dots> < (10 :: nat) ^ 20" by simp
  also have "\<dots> \<le> r ^ 20" using assms by (rule power_mono) simp
  finally show "unat v < r ^ 20" .
qed (use assms in simp_all)

lemma mini_itoa_eq:
  assumes "10 \<le> r" "r \<le> 16" "unsig \<or> sint v \<noteq> - 9223372036854775808"
  shows "mini_itoa v (word_of_nat r) uppercase unsig n_pad pad =
    (let t = numeral_text r uppercase unsig (unat n_pad) pad v in if length t < BF_SIZE then Some t else None)"
proof -
  define v' where "v' = (if sint v < 0 \<and> \<not> unsig then - v else v)"
  have v': "unat v' = magnitude unsig v" "plain unsig v'"
    unfolding v'_def by (rule itoa_value [OF assms(3)])+
  have len: "length (digs r (unat v')) \<le> BF_SIZE"
    using digs64 [OF assms(1), of v'] unfolding BF_SIZE_def by linarith
  have ds: "itoa_digits v' (word_of_nat r) uppercase unsig [] =
      Some (map (\<lambda>d. digit_char uppercase (int d)) (digs r (magnitude unsig v)))"
    using itoa_digits_eq [of r unsig v' "[]" uppercase] assms(1,2) v' len by simp
  have "\<not> word_of_nat r > (16 :: u32)"
    using radix_val(2) [OF assms(2)] assms(2) by (simp add: word_less_nat_alt)
  then show ?thesis
    using ds by (auto simp: mini_itoa_def Let_def numeral_text_def itoa_reverse_eq v'_def c_assert_def)
qed

text \<open>
  C39: For the radixes in use, \<^verbatim>\<open>mini_itoa\<close> stores exactly the text of the number (sign, padding, digits)
  when the text and its terminator fit in the 24 bytes of \<^verbatim>\<open>bf\<close>, and otherwise runs over the end of
  \<^verbatim>\<open>bf\<close>: a field width of 24 or more is enough for that. The value must have an absolute value.
\<close>

theorem mini_itoa_text:
  assumes "10 \<le> r" "r \<le> 16" "unsig \<or> sint v \<noteq> - 9223372036854775808"
  shows "mini_itoa v (word_of_nat r) uppercase unsig n_pad pad =
    (let t = numeral_text r uppercase unsig (unat n_pad) pad v in if length t < BF_SIZE then Some t else None)"
  using assms by (rule mini_itoa_eq)

section \<open>Output never leaves its buffer\<close>

definition within :: "mini_buff \<Rightarrow> bool" where
  "within b \<longleftrightarrow> length (out b) < unat (buffer_len b)"

lemma unat_of_nat32: "n < 4294967296 \<Longrightarrow> unat (word_of_nat n :: u32) = n"
  by (simp add: unsigned_of_nat take_bit_nat_eq_self)

lemma put_ch_within: "within b \<Longrightarrow> within (put_ch ch b) \<and> buffer_len (put_ch ch b) = buffer_len b"
proof -
  assume w: "within b"
  have "length (out b) + 1 < unat (buffer_len b)" if "\<not> mini_full b"
  proof -
    have "length (out b) + 1 < 4294967296"
      using w unat_bounds(3) [of "buffer_len b"] unfolding within_def by linarith
    from unat_of_nat32 [OF this] show ?thesis
      using that unfolding mini_full_def word_le_nat_alt by linarith
  qed
  then show ?thesis using w by (auto simp: put_ch_def within_def)
qed

lemma put_len_within:
  assumes "within b"
  shows "length (out b) + unat (put_len len b) < unat (buffer_len b)"
proof -
  obtain k where k: "unat (buffer_len b) = length (out b) + k + 1"
    using assms less_iff_Suc_add [of "length (out b)" "unat (buffer_len b)"] by (auto simp: within_def)
  have "uint (buffer_len b) = int (unat (buffer_len b))" "uint len = int (unat len)" by simp_all
  then have room: "uint (buffer_len b) - int (length (out b)) - 1 = int k" "uint len = int (unat len)" using k by simp_all
  have "unat (word_of_nat k :: u32) = k"
    using unat_bounds(3) [of "buffer_len b"] k by (intro unat_of_nat32) linarith
  moreover have "unat len \<le> k" if "\<not> int k < uint len" using that room(2) by linarith
  ultimately have "unat (put_len len b) \<le> k" unfolding put_len_def Let_def room(1) by auto
  then show ?thesis using k by simp
qed

lemma put_str_fits:
  assumes "length (out b) + length t < unat (buffer_len b)"
  shows "put_str (Some t) (word_of_nat (length t)) b = Some (b\<lparr>out := out b @ t\<rparr>)"
proof -
  have "length t < 4294967296" using assms unat_bounds(3) [of "buffer_len b"] by linarith
  note t = unat_of_nat32 [OF this]
  have "uint (buffer_len b) = int (unat (buffer_len b))" "uint (word_of_nat (length t) :: u32) = int (unat (word_of_nat (length t) :: u32))"
    by simp_all
  then have "put_len (word_of_nat (length t)) b = word_of_nat (length t)"
    using assms t unfolding put_len_def Let_def by (intro if_not_P) linarith
  then show ?thesis using t by (simp add: put_str_def)
qed

lemma put_str_within: "within b \<Longrightarrow> put_str s len b = Some b' \<Longrightarrow> within b' \<and> buffer_len b' = buffer_len b"
  using put_len_within [of b len] by (auto simp: put_str_def within_def Let_def split: option.splits if_splits)

lemma put_number_within:
  "within b \<Longrightarrow> put_number arg r u g l n p va b = Some (va', b') \<Longrightarrow> within b' \<and> buffer_len b' = buffer_len b"
  using put_str_within by (fastforce simp: put_number_def bind_eq_Some_conv)

lemma convert_string_within:
  assumes "within b" "put_str (Some t) n b = Some b1"
    "(if c then put_str None m b1 else Some b1) = Some b2"
  shows "within b2 \<and> buffer_len b2 = buffer_len b"
  using put_str_within [OF assms(1,2)] assms(3) put_str_within [of b1 None m b2] by (cases c) auto

lemma convert_within:
  assumes "within b" "convert ch n p l va b = Some (va', b')"
  shows "within b' \<and> buffer_len b' = buffer_len b"
proof -
  note w = put_number_within [OF assms(1)] put_ch_within [OF assms(1)]
  consider "ch = 115" | "ch \<noteq> 115" by blast
  then show ?thesis
  proof cases
    case 1
    then obtain t n1 b1 c m where "put_str (Some t) n1 b = Some b1" "(if c then put_str None m b1 else Some b1) = Some b'"
      using assms(2) by (auto simp: convert_def bind_eq_Some_conv)
    then show ?thesis using convert_string_within [OF assms(1)] by blast
  next
    case 2
    then show ?thesis using assms w
      by (auto simp: convert_def bind_eq_Some_conv split: if_splits)
  qed
qed

lemma mini_loop_within:
  "within b \<Longrightarrow> mini_loop fmt va b = Some b' \<Longrightarrow> within b' \<and> buffer_len b' = buffer_len b"
proof (induction fmt va b arbitrary: b' rule: mini_loop.induct)
  case (1 fmt va b)
  from 1(4) show ?case
    by (subst (asm) mini_loop.simps)
      (use 1(1-3) put_ch_within [OF 1(3)] convert_within [OF 1(3)] in
        \<open>fastforce split: list.splits if_splits option.splits prod.splits\<close>)
qed

lemma mini_vsnprintf_within:
  assumes "mini_vsnprintf n fmt va = Some s" "0 < n"
  shows "length s < unat n"
proof -
  obtain b where b: "mini_loop fmt va \<lparr>out = [], buffer_len = n\<rparr> = Some b" "s = out b"
    using assms(1) by (auto simp: mini_vsnprintf_def)
  have "within \<lparr>out = [], buffer_len = n\<rparr>" using assms(2) by (simp add: within_def unat_gt_0)
  from mini_loop_within [OF this b(1)] show ?thesis using b(2) by (auto simp: within_def)
qed

text \<open>
  C40: Whatever the format and the arguments, the text that \<^verbatim>\<open>mini_vsnprintf\<close> leaves in a buffer is
  shorter than the buffer, so that the terminator \<^verbatim>\<open>_vprint\<close> stores behind it is inside its 256 bytes:
  \<^verbatim>\<open>_vprint\<close> fails only where \<^verbatim>\<open>mini_vsnprintf\<close> itself does.
\<close>

theorem vprint_in_bounds:
  shows "vprint fmt va = mini_vsnprintf (word_of_nat PRINT_SIZE) fmt va \<and>
    length (case vprint fmt va of Some s \<Rightarrow> s | None \<Rightarrow> []) < PRINT_SIZE"
proof -
  have "length s < PRINT_SIZE" if "mini_vsnprintf (word_of_nat PRINT_SIZE) fmt va = Some s" for s
    using mini_vsnprintf_within [OF that] by (simp add: PRINT_SIZE_def)
  then show ?thesis
    by (cases "mini_vsnprintf (word_of_nat PRINT_SIZE) fmt va") (auto simp: vprint_def PRINT_SIZE_def)
qed

theorem mini_itoa_text_witness:
  "mini_itoa (- 42) (word_of_nat 10) False False 5 48 = Some [45, 48, 48, 48, 52, 50] \<and>
   mini_itoa 7 (word_of_nat 10) False False 24 32 = None"
proof -
  have a: "sint (- 42 :: u64) = - 42" "sint (7 :: u64) = 7" by simp_all
  have d: "digs 10 42 = [2, 4]" "digs 10 7 = [7]" by (simp_all add: digs.simps)
  have r: "replicate 3 (48 :: u8) = [48, 48, 48]" by (simp add: numeral_eq_Suc)
  show ?thesis
    using mini_itoa_text [of 10 False "- 42" False 5 48] mini_itoa_text [of 10 False 7 False 24 32]
    by (simp add: numeral_text_def magnitude_def a d r digit_char_def BF_SIZE_def)
qed

end
