(* ===== verification/Screen.thy ===== *)
theory Screen
  imports Sync Printk
begin

text \<open>
  The screen driver src/drivers/screen.c, without \<^verbatim>\<open>screen_move_cursor\<close> (theory \<open>Sched\<close>), and the output
  functions of src/libs/printk.c on top of it. The state adds the two screen buffers. The control
  sequences that the driver prints through the BIOS are the constructors of \<open>tty_out\<close>; that the
  format strings give these sequences is shown below. A store behind a screen buffer is a fault.
\<close>

section \<open>State and operations\<close>

record 'd scst = "'d lkst" +
  new_screen :: bytes
  old_screen :: bytes

definition SCREEN_LOC :: "int \<Rightarrow> int \<Rightarrow> int" where
  "SCREEN_LOC x y = y * SCREEN_WIDTH + x"

definition SCREEN_CELLS :: nat where "SCREEN_CELLS = nat (SCREEN_HEIGHT * SCREEN_WIDTH)"

definition vt100_move_cursor :: "int \<Rightarrow> int \<Rightarrow> 'a kst_scheme \<Rightarrow> 'a kst_scheme" where
  "vt100_move_cursor x y s = s\<lparr>tty := tty s @ [VtMove x y]\<rparr>"

definition vt100_clear :: "'a kst_scheme \<Rightarrow> 'a kst_scheme" where
  "vt100_clear s = s\<lparr>tty := tty s @ [VtClear]\<rparr>"

definition vt100_hidden_cursor :: "'a kst_scheme \<Rightarrow> 'a kst_scheme" where
  "vt100_hidden_cursor s = s\<lparr>tty := tty s @ [VtHide]\<rparr>"

text \<open>\<^verbatim>\<open>new_screen[SCREEN_LOC(cursor_x, cursor_y)] = ch\<close>.\<close>

definition put_cell :: "u8 \<Rightarrow> ('d, 'a) scst_scheme \<Rightarrow> ('d, 'a) scst_scheme option" where
  "put_cell ch s = (let b = pcbs s (current_running s); l = SCREEN_LOC (sint (cursor_x b)) (sint (cursor_y b)) in
     if 0 \<le> l \<and> l < int (length (new_screen s)) then Some (s\<lparr>new_screen := (new_screen s)[nat l := ch]\<rparr>) else None)"

definition set_cursor :: "i32 \<Rightarrow> i32 \<Rightarrow> ('d, 'a) scst_scheme \<Rightarrow> ('d, 'a) scst_scheme" where
  "set_cursor x y s = upd_pcb (current_running s) (\<lambda>b. b\<lparr>cursor_x := x, cursor_y := y\<rparr>) s"

text \<open>\<^verbatim>\<open>if (cursor_y < SCREEN_HEIGHT) cursor_y++\<close>\<close>

definition down :: "i32 \<Rightarrow> i32" where
  "down y = (if sint y < SCREEN_HEIGHT then y + 1 else y)"

definition screen_write_ch :: "u8 \<Rightarrow> ('d, 'a) scst_scheme \<Rightarrow> ('d, 'a) scst_scheme option" where
  "screen_write_ch ch s = (let b = pcbs s (current_running s); x = cursor_x b; y = cursor_y b in
     if ch = 10 then Some (set_cursor 0 (down y) s)
     else if ch = 8 \<or> ch = 127 then
       put_cell 32 (if sint x > 0 then set_cursor (x - 1) y s
         else if sint y > 0 then set_cursor (word_of_int (SCREEN_WIDTH - 1)) (y - 1) s else s)
     else do {
       s1 \<leftarrow> put_cell ch s;
       Some (if sint (x + 1) \<ge> SCREEN_WIDTH then set_cursor 0 (down y) s1 else set_cursor (x + 1) y s1) })"

fun write_chars :: "bytes \<Rightarrow> ('d, 'a) scst_scheme \<Rightarrow> ('d, 'a) scst_scheme option" where
  "write_chars [] s = Some s"
| "write_chars (c # cs) s = do { s1 \<leftarrow> screen_write_ch c s; write_chars cs s1 }"

definition screen_write :: "bytes \<Rightarrow> ('d, 'a) scst_scheme \<Rightarrow> ('d, 'a) scst_scheme option" where
  "screen_write buff s = do { l \<leftarrow> strlen buff; write_chars (take l buff) s }"

text \<open>One cell of \<^verbatim>\<open>screen_reflush\<close>: row \<open>i\<close>, column \<open>j\<close>.\<close>

definition reflush_cell :: "('d, 'a) scst_scheme \<Rightarrow> nat \<times> nat \<Rightarrow> ('d, 'a) scst_scheme" where
  "reflush_cell s ij = (case ij of (i, j) \<Rightarrow> let l = nat (SCREEN_LOC (int j) (int i)) in
     if new_screen s ! l \<noteq> old_screen s ! l
     then (vt100_move_cursor (int j + 1) (int i + 1) s)
       \<lparr>tty := tty (vt100_move_cursor (int j + 1) (int i + 1) s) @ [TtyPut (new_screen s ! l)],
        old_screen := (old_screen s)[l := new_screen s ! l]\<rparr>
     else s)"

definition screen_reflush :: "('d, 'a) scst_scheme \<Rightarrow> ('d, 'a) scst_scheme" where
  "screen_reflush s = (let
       s1 = foldl reflush_cell s (List.product [0..<nat SCREEN_HEIGHT] [0..<nat SCREEN_WIDTH]);
       b = pcbs s1 (current_running s1)
     in vt100_move_cursor (sint (cursor_x b + 1)) (sint (cursor_y b + 1)) s1)"

definition screen_clear :: "('d, 'a) scst_scheme \<Rightarrow> ('d, 'a) scst_scheme" where
  "screen_clear s = screen_reflush (set_cursor 0 0 ((vt100_clear s)
     \<lparr>new_screen := replicate SCREEN_CELLS 32, old_screen := replicate SCREEN_CELLS 32\<rparr>))"

definition init_screen :: "('d, 'a) scst_scheme \<Rightarrow> ('d, 'a) scst_scheme" where
  "init_screen s = screen_clear (vt100_clear (vt100_hidden_cursor s))"

text \<open>\<^verbatim>\<open>printk\<close>; \<^verbatim>\<open>_vprint\<close> with \<^verbatim>\<open>_output_wrapper\<close>. The result is the length printed.\<close>

definition output_wrapper :: "bytes \<Rightarrow> ('d, 'a) scst_scheme \<Rightarrow> ('d, 'a) scst_scheme option" where
  "output_wrapper buff s = map_option screen_reflush (screen_write buff s)"

definition printk :: "bytes \<Rightarrow> va_item list \<Rightarrow> ('d, 'a) scst_scheme \<Rightarrow> (int \<times> ('d, 'a) scst_scheme) option" where
  "printk fmt va s = do {
     t \<leftarrow> vprint fmt va;
     s1 \<leftarrow> output_wrapper (t @ [0]) s;
     Some (int (length t), s1) }"

section \<open>The cursor sequence\<close>

text \<open>
  The text that \<^verbatim>\<open>printv("%c[%d;%dH", 27, y, x)\<close> hands to the BIOS, which \<open>VtMove x y\<close> stands for:
  escape, bracket, the decimal row and column separated by a semicolon, and H.
\<close>

definition decimal :: "nat \<Rightarrow> bytes" where
  "decimal n = rev (map (\<lambda>d. digit_char False (int d)) (digs 10 n))"

lemma length_decimal: "n < 10000 \<Longrightarrow> length (decimal n) \<le> 4"
  using length_digs [of 10 n 4] by (simp add: decimal_def)

lemma small_arg:
  assumes "n < 10000"
  shows "arg_signed False (word_of_nat n) = word_of_nat n" "sint (word_of_nat n :: u64) = int n"
proof -
  have u: "unat (word_of_nat n :: u64) = n" "unat (word_of_nat n :: i32) = n"
    using assms by (simp_all add: unsigned_of_nat take_bit_nat_eq_self)
  show "sint (word_of_nat n :: u64) = int n" using sint_plain [of "word_of_nat n"] u(1) assms by simp
  have "ucast (word_of_nat n :: u64) = (word_of_nat n :: i32)"
    using u(1) by (metis of_nat_unat)
  moreover have "sint (word_of_nat n :: i32) = int n" using sint_pos [of "word_of_nat n"] u(2) assms by simp
  ultimately show "arg_signed False (word_of_nat n) = word_of_nat n" by (simp add: arg_signed_def scast_eq)
qed

lemma put_decimal:
  assumes "n < 10000" "length (out b) + 4 < unat (buffer_len b)"
  shows "put_number arg_signed 10 False False False 0 32 (VaReg (word_of_nat n) # va) b =
    Some (va, b\<lparr>out := out b @ decimal n\<rparr>)"
proof -
  have t: "numeral_text 10 False False 0 32 (word_of_nat n) = decimal n"
    using small_arg(2) [OF assms(1)] by (simp add: numeral_text_def magnitude_def decimal_def)
  have "mini_itoa (word_of_nat n) 10 False False 0 32 = Some (decimal n)"
    using mini_itoa_eq [of 10 False "word_of_nat n" False 0 32] small_arg(2) [OF assms(1)] length_decimal [OF assms(1)] t
    by (simp add: BF_SIZE_def)
  moreover have "put_str (Some (decimal n)) (word_of_nat (length (decimal n))) b = Some (b\<lparr>out := out b @ decimal n\<rparr>)"
    using length_decimal [OF assms(1)] assms(2) by (intro put_str_fits) linarith
  ultimately show ?thesis by (simp add: put_number_def small_arg(1) [OF assms(1)])
qed

lemma put_ch_room: "length (out b) + 1 < unat (buffer_len b) \<Longrightarrow> \<not> mini_full b"
  using unat_bounds(3) [of "buffer_len b"] unat_of_nat32 [of "length (out b) + 1"]
  unfolding mini_full_def word_le_nat_alt by linarith

lemma vt_sequence:
  assumes "x < 10000" "y < 10000"
  shows "vprint [37, 99, 91, 37, 100, 59, 37, 100, 72, 0] [VaReg 27, VaReg (word_of_nat y), VaReg (word_of_nat x)] =
    Some ([27, 91] @ decimal y @ [59] @ decimal x @ [72])"
proof -
  note len = length_decimal [OF assms(1)] length_decimal [OF assms(2)]
  let ?b = "\<lambda>t. \<lparr>out = t, buffer_len = 256\<rparr> :: mini_buff"
  have room: "\<not> mini_full (?b t)" if "length t < 255" for t using put_ch_room [of "?b t"] that by simp
  have pc: "put_ch c (?b t) = ?b (t @ [c])" if "length t < 255" for c t using room [OF that] by (simp add: put_ch_def)
  have y: "convert 100 0 32 False (VaReg (word_of_nat y) # va) (?b [27, 91]) = Some (va, ?b ([27, 91] @ decimal y))" for va
    using put_decimal [OF assms(2), of "?b [27, 91]" va] by (simp add: convert_def)
  have x: "convert 100 0 32 False [VaReg (word_of_nat x)] (?b ([27, 91] @ decimal y @ [59])) =
      Some ([], ?b ([27, 91] @ decimal y @ [59] @ decimal x))"
    using put_decimal [OF assms(1), of "?b ([27, 91] @ decimal y @ [59])" "[]"] len by (simp add: convert_def)
  have c: "convert 99 0 32 False (VaReg 27 # va) (?b []) = Some (va, ?b [27])" for va
    using pc [of "[]" 27] by (simp add: convert_def)
  have sp: "scan_spec (ch # r) = Some (ch, 0, 32, False, r)" if "ch = 99 \<or> ch = 100" for ch r
    using that by (auto simp: scan_spec_def is_digit_def)
  have "mini_loop [37, 99, 91, 37, 100, 59, 37, 100, 72, 0] [VaReg 27, VaReg (word_of_nat y), VaReg (word_of_nat x)] (?b []) =
      Some (?b ([27, 91] @ decimal y @ [59] @ decimal x @ [72]))"
    using len x y by (simp add: mini_loop.simps room pc c sp)
  then show ?thesis using len by (simp add: vprint_def mini_vsnprintf_def PRINT_SIZE_def)
qed

section \<open>The terminal\<close>

text \<open>
  What a terminal of the screen's size does with the output: it shows a character at the cursor and
  moves on, and obeys the control sequences. Characters that are not printable show nothing.
\<close>

record terminal =
  grid :: "int \<Rightarrow> int \<Rightarrow> u8"
  at :: "int \<times> int"

definition printable :: "u8 \<Rightarrow> bool" where
  "printable c \<longleftrightarrow> 32 \<le> c \<and> c < 127"

fun term_out :: "terminal \<Rightarrow> tty_out \<Rightarrow> terminal" where
  "term_out t (VtMove x y) = t\<lparr>at := (x, y)\<rparr>"
| "term_out t VtClear = t\<lparr>grid := \<lambda>_ _. 32\<rparr>"
| "term_out t VtHide = t"
| "term_out t (TtyPut c) = (if printable c
     then t\<lparr>grid := (grid t)(fst (at t) := (grid t (fst (at t)))(snd (at t) := c)), at := (fst (at t) + 1, snd (at t))\<rparr> else t)"

definition terminal_after :: "tty_out list \<Rightarrow> terminal" where
  "terminal_after os = foldl term_out \<lparr>grid = \<lambda>_ _. 32, at = (1, 1)\<rparr> os"

text \<open>The terminal shows a buffer: the cell in column \<open>j\<close> of row \<open>i\<close> (both from 0) at \<open>(j + 1, i + 1)\<close>.\<close>

definition shows_buffer :: "bytes \<Rightarrow> terminal \<Rightarrow> bool" where
  "shows_buffer b t \<longleftrightarrow> length b = SCREEN_CELLS \<and>
     (\<forall>i < 50. \<forall>j < 80. grid t (int j + 1) (int i + 1) = b ! (i * 80 + j))"

lemma terminal_after_append [simp]: "terminal_after (os @ ps) = foldl term_out (terminal_after os) ps"
  by (simp add: terminal_after_def)

lemma screen_loc: "nat (SCREEN_LOC (int j) (int i)) = i * 80 + j"
  by (simp add: SCREEN_LOC_def SCREEN_WIDTH_def nat_add_distrib nat_mult_distrib)

lemma SCREEN_CELLS_val: "SCREEN_CELLS = 4000" "nat SCREEN_HEIGHT = 50" "nat SCREEN_WIDTH = 80"
  by (simp_all add: SCREEN_CELLS_def SCREEN_HEIGHT_def SCREEN_WIDTH_def)

lemma cell_eq:
  assumes "j < 80" "j' < 80"
  shows "i * 80 + j = i' * 80 + j' \<longleftrightarrow> i = i' \<and> j = (j' :: nat)"
proof -
  have "i = i'" if "i * 80 + j = i' * 80 + j'"
    using arg_cong [OF that, of "\<lambda>k. k div 80"] assms by simp
  then show ?thesis by auto
qed

definition screen_ok :: "('d, 'a) scst_scheme \<Rightarrow> bool" where
  "screen_ok s \<longleftrightarrow> length (new_screen s) = SCREEN_CELLS \<and> (\<forall>c \<in> set (new_screen s). printable c) \<and>
     shows_buffer (old_screen s) (terminal_after (tty s))"

lemma reflush_cell_ok:
  assumes "screen_ok s" "i < 50" "j < 80"
  shows "screen_ok (reflush_cell s (i, j))" "new_screen (reflush_cell s (i, j)) = new_screen s"
    "old_screen (reflush_cell s (i, j)) = (old_screen s)[i * 80 + j := new_screen s ! (i * 80 + j)]"
    "pcbs (reflush_cell s (i, j)) = pcbs s" "current_running (reflush_cell s (i, j)) = current_running s"
proof -
  let ?l = "i * 80 + j"
  have l: "?l < length (new_screen s)" "?l < length (old_screen s)"
    using assms by (simp_all add: screen_ok_def shows_buffer_def SCREEN_CELLS_val)
  then have p: "printable (new_screen s ! ?l)" using assms(1) by (simp add: screen_ok_def)
  show "new_screen (reflush_cell s (i, j)) = new_screen s" "pcbs (reflush_cell s (i, j)) = pcbs s"
    "old_screen (reflush_cell s (i, j)) = (old_screen s)[?l := new_screen s ! ?l]"
    "current_running (reflush_cell s (i, j)) = current_running s"
    using l(2) by (simp_all add: reflush_cell_def Let_def vt100_move_cursor_def screen_loc current_running_def)
  then show "screen_ok (reflush_cell s (i, j))"
    using assms p l(2) unfolding screen_ok_def shows_buffer_def
    by (auto simp: reflush_cell_def Let_def vt100_move_cursor_def screen_loc nth_list_update cell_eq)
qed

lemma reflush_cells_ok:
  "screen_ok s \<Longrightarrow> set ijs \<subseteq> {..<50} \<times> {..<80} \<Longrightarrow>
   screen_ok (foldl reflush_cell s ijs) \<and> new_screen (foldl reflush_cell s ijs) = new_screen s \<and>
   pcbs (foldl reflush_cell s ijs) = pcbs s \<and> current_running (foldl reflush_cell s ijs) = current_running s \<and>
   (\<forall>i < 50. \<forall>j < 80. old_screen (foldl reflush_cell s ijs) ! (i * 80 + j) =
     (if (i, j) \<in> set ijs then new_screen s else old_screen s) ! (i * 80 + j))"
proof (induction ijs arbitrary: s)
  case (Cons ij ijs)
  obtain i j where ij: "ij = (i, j)" "i < 50" "j < 80" using Cons(3) by auto
  note c = reflush_cell_ok [OF Cons(2) ij(2,3)]
  have "length (old_screen s) = SCREEN_CELLS" using Cons(2) by (simp add: screen_ok_def shows_buffer_def)
  then have "old_screen (reflush_cell s ij) ! (i' * 80 + j') =
      (if (i', j') = ij then new_screen s else old_screen s) ! (i' * 80 + j')" if "i' < 50" "j' < 80" for i' j'
    using that c(3) ij cell_eq [of j j' i i'] by (auto simp: nth_list_update SCREEN_CELLS_val)
  then show ?case using Cons(1) [OF c(1)] Cons(3) c(2,4,5) ij by auto
qed simp

text \<open>
  When the terminal shows the old screen buffer and the new one holds printable characters only,
  \<^verbatim>\<open>screen_reflush\<close> makes it show the new buffer, although it prints the changed cells only; both
  buffers are then equal, and the terminal's cursor is at the current process's cursor.
\<close>

lemma reflush_shows:
  assumes "length (new_screen s) = SCREEN_CELLS" "\<forall>c \<in> set (new_screen s). printable c"
    and "shows_buffer (old_screen s) (terminal_after (tty s))"
  shows "shows_buffer (new_screen s) (terminal_after (tty (screen_reflush s))) \<and>
    old_screen (screen_reflush s) = new_screen s \<and> new_screen (screen_reflush s) = new_screen s \<and>
    pcbs (screen_reflush s) = pcbs s \<and> current_running (screen_reflush s) = current_running s \<and>
    at (terminal_after (tty (screen_reflush s))) =
      (sint (cursor_x (pcbs s (current_running s)) + 1), sint (cursor_y (pcbs s (current_running s)) + 1))"
proof -
  let ?ijs = "List.product [0..<nat SCREEN_HEIGHT] [0..<nat SCREEN_WIDTH]"
  define s1 where "s1 = foldl reflush_cell s ?ijs"
  have ok: "screen_ok s" using assms by (simp add: screen_ok_def)
  have f: "screen_ok s1" "new_screen s1 = new_screen s" "pcbs s1 = pcbs s" "current_running s1 = current_running s"
    "\<And>i j. i < 50 \<Longrightarrow> j < 80 \<Longrightarrow> old_screen s1 ! (i * 80 + j) = new_screen s ! (i * 80 + j)"
    using reflush_cells_ok [OF ok, of ?ijs] by (auto simp: s1_def SCREEN_CELLS_val subset_iff)
  have len: "length (old_screen s1) = 4000"
    using f(1) by (simp add: screen_ok_def shows_buffer_def SCREEN_CELLS_val)
  have eq: "old_screen s1 = new_screen s"
  proof (rule nth_equalityI)
    show "length (old_screen s1) = length (new_screen s)" using len assms(1) by (simp add: SCREEN_CELLS_val)
    fix k assume "k < length (old_screen s1)"
    then show "old_screen s1 ! k = new_screen s ! k"
      using f(5) [of "k div 80" "k mod 80"] len by (simp add: div_mult_mod_eq)
  qed
  have r: "screen_reflush s = vt100_move_cursor (sint (cursor_x (pcbs s (current_running s)) + 1))
      (sint (cursor_y (pcbs s (current_running s)) + 1)) s1"
    using f(3,4) by (simp add: screen_reflush_def Let_def s1_def)
  then show ?thesis
    using f eq by (simp add: vt100_move_cursor_def screen_ok_def shows_buffer_def current_running_def)
qed

section \<open>Writing text\<close>

lemma set_cursor_simps [simp]:
  "new_screen (set_cursor x y s) = new_screen s" "old_screen (set_cursor x y s) = old_screen s" "tty (set_cursor x y s) = tty s"
  "current_running (set_cursor x y s) = current_running s"
  "cursor_x (pcbs (set_cursor x y s) (current_running s)) = x" "cursor_y (pcbs (set_cursor x y s) (current_running s)) = y"
  by (simp_all add: set_cursor_def upd_pcb_def current_running_def)

text \<open>The cursor position of the current process.\<close>

definition cursor_at :: "int \<Rightarrow> int \<Rightarrow> ('d, 'a) scst_scheme \<Rightarrow> bool" where
  "cursor_at x y s \<longleftrightarrow> sint (cursor_x (pcbs s (current_running s))) = x \<and> sint (cursor_y (pcbs s (current_running s))) = y"

lemma sint_add1: "0 \<le> sint w \<Longrightarrow> sint w < 100 \<Longrightarrow> sint (w + 1 :: i32) = sint w + 1"
  by (simp add: sint_word_ariths signed_take_bit_int_eq_self)

lemma write_ch_plain:
  assumes "printable ch" "cursor_at x y s" "0 \<le> x" "x < 80" "0 \<le> y" "y < 50" "length (new_screen s) = SCREEN_CELLS"
  obtains s' where "screen_write_ch ch s = Some s'" "new_screen s' = (new_screen s)[nat (y * 80 + x) := ch]"
    "old_screen s' = old_screen s" "tty s' = tty s" "current_running s' = current_running s"
    "cursor_at (if x + 1 = 80 then 0 else x + 1) (if x + 1 = 80 then y + 1 else y) s'"
proof -
  let ?b = "pcbs s (current_running s)"
  let ?s1 = "s\<lparr>new_screen := (new_screen s)[nat (y * 80 + x) := ch]\<rparr>"
  have c: "sint (cursor_x ?b) = x" "sint (cursor_y ?b) = y" using assms(2) by (simp_all add: cursor_at_def)
  have n: "ch \<noteq> 10 \<and> ch \<noteq> 8 \<and> ch \<noteq> 127" using assms(1) by (auto simp: printable_def)
  have p: "put_cell ch s = Some ?s1"
    using assms c by (simp add: put_cell_def Let_def SCREEN_LOC_def SCREEN_WIDTH_def SCREEN_CELLS_val)
  have cr: "current_running ?s1 = current_running s" "pcbs ?s1 = pcbs s" by (simp_all add: current_running_def)
  have x1: "sint (cursor_x ?b + 1) = x + 1" using sint_add1 [of "cursor_x ?b"] c assms by simp
  have y1: "sint (cursor_y ?b + 1) = y + 1" using sint_add1 [of "cursor_y ?b"] c assms by simp
  have w: "screen_write_ch ch s = Some (if x + 1 \<ge> 80 then set_cursor 0 (cursor_y ?b + 1) ?s1 else set_cursor (cursor_x ?b + 1) (cursor_y ?b) ?s1)"
    using n p x1 c(2) assms(6) by (simp add: screen_write_ch_def Let_def SCREEN_WIDTH_def SCREEN_HEIGHT_def down_def)
  show thesis
  proof (rule that [OF w])
    show "cursor_at (if x + 1 = 80 then 0 else x + 1) (if x + 1 = 80 then y + 1 else y)
      (if x + 1 \<ge> 80 then set_cursor 0 (cursor_y ?b + 1) ?s1 else set_cursor (cursor_x ?b + 1) (cursor_y ?b) ?s1)"
      using x1 y1 c(2) assms(4) set_cursor_simps(5,6) [of _ _ ?s1] cr by (auto simp: cursor_at_def)
  qed (simp_all add: cr)
qed

text \<open>A text that stays in its row.\<close>

lemma bput_step:
  assumes "n + length t < length b"
  shows "bput (Suc n) t (b[n := c]) = bput n (c # t) b"
  using assms by (intro nth_equalityI) (auto simp: nth_bput nth_list_update nth_Cons')

lemma write_chars_row:
  "\<forall>c \<in> set t. printable c \<Longrightarrow> cursor_at x y s \<Longrightarrow> 0 \<le> x \<Longrightarrow> x + int (length t) < 80 \<Longrightarrow> 0 \<le> y \<Longrightarrow> y < 50 \<Longrightarrow>
   length (new_screen s) = SCREEN_CELLS \<Longrightarrow>
   \<exists>s'. write_chars t s = Some s' \<and> new_screen s' = bput (nat (y * 80 + x)) t (new_screen s) \<and>
     old_screen s' = old_screen s \<and> tty s' = tty s \<and> cursor_at (x + int (length t)) y s' \<and> current_running s' = current_running s"
proof (induction t arbitrary: x s)
  case Nil
  then show ?case by (simp add: bput_def)
next
  case (Cons c t)
  obtain s1 where s1: "screen_write_ch c s = Some s1" "new_screen s1 = (new_screen s)[nat (y * 80 + x) := c]"
    "old_screen s1 = old_screen s" "tty s1 = tty s" "current_running s1 = current_running s" "cursor_at (x + 1) y s1"
    using write_ch_plain [of c x y s] Cons.prems by auto
  have "\<exists>s'. write_chars t s1 = Some s' \<and> new_screen s' = bput (nat (y * 80 + (x + 1))) t (new_screen s1) \<and>
     old_screen s' = old_screen s1 \<and> tty s' = tty s1 \<and> cursor_at (x + 1 + int (length t)) y s' \<and> current_running s' = current_running s1"
    using Cons.prems s1 by (intro Cons.IH) auto
  moreover have "nat (y * 80 + (x + 1)) = Suc (nat (y * 80 + x))" using Cons.prems by simp
  moreover have "nat (y * 80 + x) + length t < length (new_screen s)"
    using Cons.prems by (simp add: SCREEN_CELLS_val)
  ultimately show ?case using s1 bput_step by (auto simp: add.assoc)
qed

text \<open>
  C37: \<^verbatim>\<open>printk\<close> of a format whose text is printable and stays in the row of the cursor returns the
  text's length, and afterwards the terminal shows the old contents of the screen buffer with the
  text at the position of the cursor, which has moved behind it.
\<close>

theorem printk_shows:
  assumes "vprint fmt va = Some t" "\<forall>c \<in> set t. printable c" "cursor_at x y s" "0 \<le> x" "x + int (length t) < 80"
    and "0 \<le> y" "y < 50" "length (new_screen s) = SCREEN_CELLS" "\<forall>c \<in> set (new_screen s). printable c"
    and "shows_buffer (old_screen s) (terminal_after (tty s))"
  shows "\<exists>s'. printk fmt va s = Some (int (length t), s') \<and> cursor_at (x + int (length t)) y s' \<and>
    shows_buffer (bput (nat (y * 80 + x)) t (new_screen s)) (terminal_after (tty s')) \<and>
    at (terminal_after (tty s')) = (x + int (length t) + 1, y + 1)"
proof -
  obtain s1 where s1: "write_chars t s = Some s1" "new_screen s1 = bput (nat (y * 80 + x)) t (new_screen s)"
    "old_screen s1 = old_screen s" "tty s1 = tty s" "cursor_at (x + int (length t)) y s1"
    using write_chars_row [OF assms(2-8)] by blast
  have "0 \<notin> set t" using assms(2) by (auto simp: printable_def)
  then have "strlen (t @ [0]) = Some (length t)" by (simp add: strlen_cstr)
  then have pk: "printk fmt va s = Some (int (length t), screen_reflush s1)"
    using assms(1) s1(1) by (simp add: printk_def output_wrapper_def screen_write_def)
  have fit: "nat (y * 80 + x) + length t \<le> length (new_screen s)" using assms by (simp add: SCREEN_CELLS_val)
  then have "length (new_screen s1) = SCREEN_CELLS" "\<forall>c \<in> set (new_screen s1). printable c"
    using assms(2,8,9) s1(2) by (auto simp: bput_def dest: in_set_takeD in_set_dropD)
  note r = reflush_shows [OF this]
  let ?b = "pcbs s1 (current_running s1)"
  have c: "sint (cursor_x ?b) = x + int (length t)" "sint (cursor_y ?b) = y" using s1(5) by (simp_all add: cursor_at_def)
  then have "sint (cursor_x ?b + 1) = x + int (length t) + 1" "sint (cursor_y ?b + 1) = y + 1"
    using sint_add1 [of "cursor_x ?b"] sint_add1 [of "cursor_y ?b"] assms(4-7) by simp_all
  then show ?thesis using pk r c assms(10) s1 by (auto simp: cursor_at_def)
qed

lemma write_chars_append: "write_chars (cs @ ds) s = Option.bind (write_chars cs s) (write_chars ds)"
proof (induction cs arbitrary: s)
  case (Cons c cs)
  then show ?case by (cases "screen_write_ch c s") simp_all
qed simp

lemma write_newlines:
  "cursor_at 0 y s \<Longrightarrow> 0 \<le> y \<Longrightarrow> y + int n \<le> 50 \<Longrightarrow>
   \<exists>s'. write_chars (replicate n 10) s = Some s' \<and> cursor_at 0 (y + int n) s' \<and> new_screen s' = new_screen s"
proof (induction n arbitrary: y s)
  case (Suc n)
  let ?y = "cursor_y (pcbs s (current_running s))"
  let ?s = "set_cursor 0 (?y + 1) s"
  have y: "sint ?y = y" using Suc.prems(1) by (simp add: cursor_at_def)
  then have "screen_write_ch 10 s = Some ?s" using Suc.prems by (simp add: screen_write_ch_def down_def SCREEN_HEIGHT_def)
  moreover have "cursor_at 0 (y + 1) ?s"
    using sint_add1 [of ?y] y Suc.prems by (simp add: cursor_at_def)
  ultimately show ?case using Suc.IH [of "y + 1" ?s] Suc.prems by (auto simp: algebra_simps)
qed simp

text \<open>
  The cursor can move to the line below the last one, where the next character is stored behind
  the screen buffer: 50 line feeds from the top followed by any printable character are such an
  output.
\<close>

theorem screen_write_overruns:
  assumes "cursor_at 0 0 s" "length (new_screen s) = SCREEN_CELLS" "printable ch"
  shows "write_chars (replicate 50 10) s \<noteq> None \<and> write_chars (replicate 50 10 @ [ch]) s = None"
proof -
  obtain s' where s': "write_chars (replicate 50 10) s = Some s'" "cursor_at 0 50 s'" "new_screen s' = new_screen s"
    using write_newlines [OF assms(1), of 50] by auto
  have "put_cell ch s' = None"
    using s'(2,3) assms(2)
    by (simp add: put_cell_def Let_def cursor_at_def SCREEN_LOC_def SCREEN_WIDTH_def SCREEN_CELLS_val)
  moreover have "ch \<noteq> 10 \<and> ch \<noteq> 8 \<and> ch \<noteq> 127" using assms(3) by (auto simp: printable_def)
  ultimately have "screen_write_ch ch s' = None" by (simp add: screen_write_ch_def Let_def)
  then show ?thesis using s'(1) by (simp add: write_chars_append)
qed

section \<open>A concrete screen\<close>

definition demo_sc :: "(u32 \<Rightarrow> u64 list) scst" where
  "demo_sc = lkst.extend demo_lk (scst.fields (replicate SCREEN_CELLS 32) (replicate SCREEN_CELLS 32))"

lemma demo_sc_simps:
  "new_screen demo_sc = replicate SCREEN_CELLS 32" "old_screen demo_sc = replicate SCREEN_CELLS 32"
  "tty demo_sc = []" "current_running demo_sc = Pcb 0" "pcbs demo_sc = pcbs demo_lk"
  by (simp_all add: demo_sc_def demo_lk_def lkst.defs scst.defs current_running_def)

lemma demo_sc_cursor: "cursor_at 0 0 demo_sc"
  by (simp add: cursor_at_def demo_sc_simps demo_lk_def demo_pcbs_def demo_pcb_def)

lemma demo_sc_shows: "shows_buffer (old_screen demo_sc) (terminal_after (tty demo_sc))"
  by (simp add: shows_buffer_def demo_sc_simps terminal_after_def SCREEN_CELLS_val)

text \<open>Printing the character A.\<close>

lemma vprint_A: "vprint [65, 0] [] = Some [65]"
  by (simp add: vprint_def mini_vsnprintf_def mini_loop.simps mini_full_def put_ch_def PRINT_SIZE_def word_le_nat_alt)

theorem printk_shows_witness:
  "\<exists>s'. printk [65, 0] [] demo_sc = Some (1, s') \<and> cursor_at 1 0 s' \<and>
    grid (terminal_after (tty s')) 1 1 = 65 \<and> grid (terminal_after (tty s')) 2 1 = 32"
proof -
  obtain s' where s': "printk [65, 0] [] demo_sc = Some (1, s')" "cursor_at 1 0 s'"
    "shows_buffer (bput 0 [65] (replicate SCREEN_CELLS 32)) (terminal_after (tty s'))"
    using printk_shows [OF vprint_A _ demo_sc_cursor _ _ _ _ _ _ demo_sc_shows]
    by (auto simp: printable_def demo_sc_simps)
  have "grid (terminal_after (tty s')) (int j + 1) (int 0 + 1) = bput 0 [65] (replicate SCREEN_CELLS 32) ! (0 * 80 + j)" if "j < 80" for j
    using s'(3) that unfolding shows_buffer_def by (metis zero_less_numeral)
  from this [of 0] this [of 1] show ?thesis using s'(1,2) by (simp add: nth_bput SCREEN_CELLS_val)
qed

theorem screen_write_overruns_witness: "write_chars (replicate 50 10 @ [65]) demo_sc = None"
  using screen_write_overruns [OF demo_sc_cursor, of 65] by (simp add: demo_sc_simps printable_def)

end
