(* ===== verification/Libc.thy ===== *)
theory Libc
  imports Printk
begin

text \<open>
  The user library src/tiny_libc: formatted output where it differs from the kernel's copy
  (printf.c), number parsing and printing (atoi.c, itoa.c), pseudo-random numbers (rand.c) and the
  checksum and random strings of mailbox.c. System calls are not modelled here: \<open>u_vprintf\<close> is the
  text handed to \<^verbatim>\<open>sys_screen_write\<close>.
\<close>

section \<open>printf\<close>

text \<open>The digit loop of this copy divides as signed \<^verbatim>\<open>long\<close> throughout and stops when the value is not positive.\<close>

partial_function (option) u_itoa_digits :: "u64 \<Rightarrow> u32 \<Rightarrow> bool \<Rightarrow> bytes \<Rightarrow> bytes option" where
  "u_itoa_digits v radix uppercase buf =
     (if radix = 0 \<or> length buf \<ge> BF_SIZE then None
      else let buf' = buf @ [digit_char uppercase (sint v smod uint radix)];
               v' = word_of_int (sint v sdiv uint radix) :: u64
           in if sint v' > 0 then u_itoa_digits v' radix uppercase buf' else Some buf')"

definition u_mini_itoa :: "u64 \<Rightarrow> u32 \<Rightarrow> bool \<Rightarrow> bool \<Rightarrow> u32 \<Rightarrow> bytes option" where
  "u_mini_itoa v radix uppercase unsig zero_pad =
     (if radix > 16 then Some [] else do {
        let negative = (sint v < 0 \<and> \<not> unsig);
        ds \<leftarrow> u_itoa_digits (if negative then - v else v) radix uppercase [];
        let ds1 = ds @ replicate (unat zero_pad - length ds) 48;
        let ds2 = ds1 @ (if negative then [45] else []);
        c_assert (length ds2 < BF_SIZE);
        Some (itoa_reverse ds2) })"

text \<open>The width is a \<^verbatim>\<open>char\<close>.\<close>

fun u_scan_pad :: "bytes \<Rightarrow> u8 \<Rightarrow> (u8 \<times> u8 \<times> bytes) option" where
  "u_scan_pad [] n = None"
| "u_scan_pad (c # cs) n = (if is_digit c then u_scan_pad cs (n * 10 + c - 48) else Some (c, n, cs))"

definition u_scan_spec :: "bytes \<Rightarrow> (u8 \<times> u8 \<times> bool \<times> bytes) option" where
  "u_scan_spec fmt = (case fmt of [] \<Rightarrow> None | c # cs \<Rightarrow> do {
     (ch, zero_pad, rest) \<leftarrow> (if c = 48 then u_scan_pad cs 0 else Some (c, 0, cs));
     if ch = 108 then (case rest of [] \<Rightarrow> None | ch' # rest' \<Rightarrow> Some (ch', zero_pad, True, rest'))
     else Some (ch, zero_pad, False, rest) })"

definition u_put_number ::
  "(bool \<Rightarrow> u64 \<Rightarrow> u64) \<Rightarrow> u32 \<Rightarrow> bool \<Rightarrow> bool \<Rightarrow> bool \<Rightarrow> u8 \<Rightarrow> va_item list \<Rightarrow> mini_buff \<Rightarrow>
   (va_item list \<times> mini_buff) option" where
  "u_put_number arg radix uppercase unsig long zero_pad va b = do {
     (w, va') \<leftarrow> va_reg va;
     bf \<leftarrow> u_mini_itoa (arg long w) radix uppercase unsig (ucast zero_pad);
     b' \<leftarrow> put_str (Some bf) (word_of_nat (length bf)) b;
     Some (va', b') }"

definition u_convert ::
  "u8 \<Rightarrow> u8 \<Rightarrow> bool \<Rightarrow> va_item list \<Rightarrow> mini_buff \<Rightarrow> (va_item list \<times> mini_buff) option" where
  "u_convert ch zero_pad long va b =
     (if ch = 108 then Some (va, b)
      else if ch = 117 then u_put_number arg_unsigned 10 False True long zero_pad va b
      else if ch = 100 then u_put_number arg_signed 10 False False long zero_pad va b
      else if ch = 120 \<or> ch = 88 then u_put_number arg_unsigned 16 (ch = 88) True long zero_pad va b
      else if ch = 99 then do { (w, va') \<leftarrow> va_reg va; Some (va', put_ch (ucast w) b) }
      else if ch = 115 then do {
        (t, va') \<leftarrow> va_str va;
        len \<leftarrow> strlen t;
        b1 \<leftarrow> put_str (Some t) (word_of_nat len) b;
        Some (va', b1) }
      else Some (va, put_ch ch b))"

lemma u_scan_pad_shorter: "u_scan_pad fmt n = Some (c, m, rest) \<Longrightarrow> length rest < length fmt"
proof (induction fmt n rule: u_scan_pad.induct)
  case (2 c cs n)
  then show ?case by (auto split: if_splits)
qed simp

lemma u_scan_spec_shorter:
  assumes "u_scan_spec fmt = Some (c, n, l, rest)"
  shows "length rest < length fmt"
proof (cases fmt)
  case Nil
  then show ?thesis using assms by (simp add: u_scan_spec_def)
next
  case (Cons d cs)
  define first where "first = (if d = 48 then u_scan_pad cs 0 else Some (d, 0, cs))"
  obtain ch m r where f: "first = Some (ch, m, r)"
    using assms Cons by (cases first) (auto simp: u_scan_spec_def first_def)
  then have "length r < length fmt"
    using u_scan_pad_shorter Cons by (fastforce simp: first_def split: if_splits)
  moreover have "rest = r \<or> r = c # rest"
    using assms Cons f by (auto simp: u_scan_spec_def first_def split: if_splits list.splits)
  ultimately show ?thesis by auto
qed

function u_mini_loop :: "bytes \<Rightarrow> va_item list \<Rightarrow> mini_buff \<Rightarrow> mini_buff option" where
  "u_mini_loop fmt va b = (case fmt of [] \<Rightarrow> None | ch # rest \<Rightarrow>
     if ch = 0 then Some b
     else if mini_full b then Some b
     else if ch \<noteq> 37 then u_mini_loop rest va (put_ch ch b)
     else (case u_scan_spec rest of None \<Rightarrow> None | Some (ch', zero_pad, long, rest') \<Rightarrow>
       if ch' = 0 then Some b
       else (case u_convert ch' zero_pad long va b of None \<Rightarrow> None
         | Some (va', b') \<Rightarrow> u_mini_loop rest' va' b')))"
  by pat_completeness auto

termination by (relation "measure (\<lambda>(fmt, _). length fmt)") (auto dest!: u_scan_spec_shorter)

declare u_mini_loop.simps [simp del]

definition u_mini_vsnprintf :: "u32 \<Rightarrow> bytes \<Rightarrow> va_item list \<Rightarrow> bytes option" where
  "u_mini_vsnprintf n fmt va = map_option out (u_mini_loop fmt va \<lparr>out = [], buffer_len = n\<rparr>)"

definition u_vprintf :: "bytes \<Rightarrow> va_item list \<Rightarrow> bytes option" where
  "u_vprintf fmt va = do {
     s \<leftarrow> u_mini_vsnprintf (word_of_nat PRINT_SIZE) fmt va;
     c_assert (length s < PRINT_SIZE);
     Some s }"

section \<open>atol and itoa\<close>

definition isspace :: "u8 \<Rightarrow> bool" where
  "isspace c \<longleftrightarrow> c = 32 \<or> c = 9 \<or> c = 10 \<or> c = 11 \<or> c = 12 \<or> c = 13"

text \<open>The value of a digit in the given base; \<open>None\<close> makes \<^verbatim>\<open>atol\<close> return 0.\<close>

definition digit_val :: "u64 \<Rightarrow> u8 \<Rightarrow> u64 option" where
  "digit_val base c =
     (if is_digit c then Some (ucast c - 48)
      else if base = 16 then
        (if 97 \<le> c \<and> c \<le> 102 then Some (ucast c - 97 + 10)
         else if 65 \<le> c \<and> c \<le> 70 then Some (ucast c - 65 + 10) else None)
      else None)"

text \<open>The conversion loop: \<open>Some None\<close> is the early \<^verbatim>\<open>return 0\<close>.\<close>

fun atol_loop :: "u64 \<Rightarrow> bytes \<Rightarrow> u64 \<Rightarrow> u64 option option" where
  "atol_loop base [] ret = None"
| "atol_loop base (c # cs) ret = (if c = 0 then Some (Some ret) else (case digit_val base c of
       None \<Rightarrow> Some None
     | Some d \<Rightarrow> atol_loop base cs (ret * base + d)))"

definition atol_digits :: "bool \<Rightarrow> bytes \<Rightarrow> u64 option" where
  "atol_digits negative str = (case str of [] \<Rightarrow> None | a # rest \<Rightarrow> do {
     (base, digits) \<leftarrow> (if a = 48 then (case rest of [] \<Rightarrow> None | b # rest' \<Rightarrow>
         Some (if b = 120 \<or> b = 88 then (16, rest') else (10, str)))
       else Some (10, str));
     r \<leftarrow> atol_loop base digits 0;
     Some (case r of None \<Rightarrow> 0 | Some ret \<Rightarrow> if negative then - ret else ret) })"

text \<open>\<^verbatim>\<open>atol\<close>. The loop that should skip blanks does not advance: a leading blank never returns.\<close>

definition atol :: "bytes \<Rightarrow> u64 option" where
  "atol str = (case str of [] \<Rightarrow> None | c # rest \<Rightarrow>
     if isspace c then None
     else if c = 43 then atol_digits False rest
     else if c = 45 then atol_digits True rest
     else if is_digit c then atol_digits False str
     else Some 0)"

definition atoi :: "bytes \<Rightarrow> i32 option" where
  "atoi str = map_option ucast (atol str)"

text \<open>\<^verbatim>\<open>itoa\<close>: the digit loop over the caller's array, then the result code and the array.\<close>

partial_function (option) itoa_loop ::
  "i32 \<Rightarrow> i32 \<Rightarrow> i32 \<Rightarrow> i32 \<Rightarrow> bytes \<Rightarrow> (i32 \<times> i32 \<times> bytes) option" where
  "itoa_loop acc i len base str =
     (if base = 0 \<or> sint i < 0 \<or> sint i \<ge> int (length str) then None
      else let digit = sint acc smod sint base;
               str' = str[nat (sint i) := word_of_int (if digit < 10 then 48 + digit else 65 + digit - 10)];
               acc' = word_of_int (sint acc sdiv sint base);
               i' = i + 1
           in if acc' \<noteq> 0 \<and> sint i' < sint (len - 1) then itoa_loop acc' i' len base str' else Some (acc', i', str'))"

definition itoa :: "i32 \<Rightarrow> bytes \<Rightarrow> i32 \<Rightarrow> i32 \<Rightarrow> (i32 \<times> bytes) option" where
  "itoa num str len base =
     (if len = 0 then Some (- 1, str) else do {
        (acc, i, str1) \<leftarrow> itoa_loop num 0 len base str;
        if i = len - 1 \<and> acc \<noteq> 0 then Some (- 1, str1)
        else do {
          c_assert (sint i < int (length str1));
          str2 \<leftarrow> strrev (str1[nat (sint i) := 0]);
          Some (0, str2) } })"

section \<open>Pseudo-random numbers and checksums\<close>

text \<open>The static variable \<^verbatim>\<open>x\<close> of rand.c is the state.\<close>

definition srand :: "u32 \<Rightarrow> i32 \<Rightarrow> i32" where "srand seed x = seed"

definition rand :: "i32 \<Rightarrow> i32 \<times> i32" where
  "rand x = (let tmp = 0x5deece66d * scast x + 0xb :: u64; x' = ucast (tmp AND 0x7fffffff) in (x', x'))"

definition MOD_ADLER :: u32 where "MOD_ADLER = 65521"

fun adler_loop :: "bytes \<Rightarrow> u32 \<Rightarrow> u32 \<Rightarrow> u32 \<times> u32" where
  "adler_loop [] a b = (a, b)"
| "adler_loop (d # data) a b =
     (let a' = (a + ucast d) mod MOD_ADLER; b' = (b + a') mod MOD_ADLER in adler_loop data a' b')"

definition adler32 :: "bytes \<Rightarrow> nat \<Rightarrow> u32 option" where
  "adler32 data len = (if len \<le> length data
     then let (a, b) = adler_loop (take len data) 1 0 in Some (push_bit 16 b OR a) else None)"

text \<open>\<^verbatim>\<open>generateRandomString\<close>: \<open>alpha\<close> is the array of characters with its terminator.\<close>

fun random_chars :: "bytes \<Rightarrow> nat \<Rightarrow> bytes \<Rightarrow> i32 \<Rightarrow> bytes \<times> i32" where
  "random_chars alpha 0 buf x = (buf, x)"
| "random_chars alpha (Suc i) buf x =
     (let (r, x') = rand x in random_chars alpha i (buf[i := alpha ! (unat r mod length alpha)]) x')"

definition generateRandomString :: "bytes \<Rightarrow> bytes \<Rightarrow> i32 \<Rightarrow> i32 \<Rightarrow> (bytes \<times> i32) option" where
  "generateRandomString alpha buf len x =
     (if sint len < 1 \<or> sint len > int (length buf) then None
      else Some (random_chars alpha (nat (sint len - 1)) (buf[nat (sint len) - 1 := 0]) x))"

section \<open>Printing and parsing are inverse\<close>

lemmas signed_digit = digit_value [of False, unfolded if_False] digit_rest [of False, unfolded if_False]

lemma u_itoa_digits_eq:
  assumes r: "2 \<le> r" "r \<le> 16"
  shows "plain False v \<Longrightarrow> length buf + length (digs r (unat v)) \<le> BF_SIZE \<Longrightarrow>
    u_itoa_digits v (word_of_nat r) uppercase buf =
      Some (buf @ map (\<lambda>d. digit_char uppercase (int d)) (digs r (unat v)))"
proof (induction "unat v" arbitrary: v buf rule: less_induct)
  case less
  let ?v = "word_of_nat (unat v div r) :: u64"
  have "unat v div r < 9223372036854775808"
    using less(2) by (simp add: plain_def order.strict_trans1 [OF div_le_dividend])
  then have v': "unat ?v = unat v div r" "plain False ?v" "sint ?v = int (unat v div r)"
    using sint_plain [of ?v] by (simp_all add: plain_def unsigned_of_nat take_bit_nat_eq_self)
  have r0: "word_of_nat r \<noteq> (0 :: u32)" using r radix_val(2) [of r] by auto
  have full: "\<not> length buf \<ge> BF_SIZE"
    using less(3) digs_ne [of r "unat v"] by (cases "digs r (unat v)") auto
  let ?b = "buf @ [digit_char uppercase (int (unat v mod r))]"
  have step: "u_itoa_digits v (word_of_nat r) uppercase buf =
      (if sint ?v > 0 then u_itoa_digits ?v (word_of_nat r) uppercase ?b else Some ?b)"
    by (subst u_itoa_digits.simps)
      (simp only: signed_digit [OF less(2) r] Let_def r0 simp_thms full if_False)
  have z: "sint ?v > 0 \<longleftrightarrow> \<not> unat v < r" using v'(3) r(1) by (simp add: div_greater_zero_iff not_less)
  show ?case
  proof (cases "unat v < r")
    case True
    then show ?thesis using step z r(1) by (simp add: digs.simps [of r "unat v"])
  next
    case False
    have "unat ?v < unat v" using False r(1) v'(1) by simp
    moreover have "digs r (unat v) = unat v mod r # digs r (unat ?v)"
      using False r(1) v'(1) by (simp add: digs.simps [of r "unat v"])
    ultimately show ?thesis using step z False less(1) [of ?v ?b] less(3) v'(2) by simp
  qed
qed

lemma u_mini_itoa_text:
  assumes "sint v \<noteq> - 9223372036854775808"
  shows "u_mini_itoa v 10 False False 0 = Some (numeral_text 10 False False 0 48 v)"
    and "length (numeral_text 10 False False 0 48 v) < BF_SIZE"
proof -
  define v' where "v' = (if sint v < 0 \<and> \<not> False then - v else v)"
  have v': "unat v' = magnitude False v" "plain False v'"
    unfolding v'_def by (rule itoa_value; simp add: assms)+
  have len: "length (digs 10 (magnitude False v)) \<le> 20"
    using digs64 [of 10 v'] v'(1) by simp
  then have ds: "u_itoa_digits v' 10 False [] = Some (map (\<lambda>d. digit_char False (int d)) (digs 10 (magnitude False v)))"
    using u_itoa_digits_eq [of 10 v' "[]" False] v' by (simp add: BF_SIZE_def)
  show "length (numeral_text 10 False False 0 48 v) < BF_SIZE"
    using len by (auto simp: numeral_text_def BF_SIZE_def)
  then show "u_mini_itoa v 10 False False 0 = Some (numeral_text 10 False False 0 48 v)"
    using ds by (auto simp: u_mini_itoa_def numeral_text_def itoa_reverse_eq v'_def)
qed

lemma printf_ld:
  assumes "sint v \<noteq> - 9223372036854775808"
  shows "u_vprintf [37, 108, 100, 0] [VaReg v] = Some (numeral_text 10 False False 0 48 v)"
proof -
  let ?t = "numeral_text 10 False False 0 48 v"
  let ?b = "\<lparr>out = [], buffer_len = word_of_nat PRINT_SIZE\<rparr> :: mini_buff"
  have len: "length ?t < BF_SIZE" by (rule u_mini_itoa_text(2) [OF assms])
  then have "put_str (Some ?t) (word_of_nat (length ?t)) ?b = Some (?b\<lparr>out := ?t\<rparr>)"
    using put_str_fits [of ?b ?t] by (simp add: PRINT_SIZE_def BF_SIZE_def)
  then have c: "u_convert 100 0 True [VaReg v] ?b = Some ([], ?b\<lparr>out := ?t\<rparr>)"
    using u_mini_itoa_text(1) [OF assms] by (simp add: u_convert_def u_put_number_def arg_signed_def)
  have f: "\<not> mini_full ?b" by (simp add: mini_full_def PRINT_SIZE_def word_le_nat_alt)
  have "u_mini_loop [37, 108, 100, 0] [VaReg v] ?b = Some (?b\<lparr>out := ?t\<rparr>)"
    using c f by (simp add: u_mini_loop.simps u_scan_spec_def)
  then show ?thesis using len by (simp add: u_vprintf_def u_mini_vsnprintf_def PRINT_SIZE_def BF_SIZE_def)
qed

lemma digit_char_val:
  assumes "d < 10"
  shows "digit_val 10 (digit_char False (int d)) = Some (word_of_nat d)"
    "is_digit (digit_char False (int d))"
proof -
  have "d = 0 \<or> d = 1 \<or> d = 2 \<or> d = 3 \<or> d = 4 \<or> d = 5 \<or> d = 6 \<or> d = 7 \<or> d = 8 \<or> d = 9"
    using assms by arith
  then show "digit_val 10 (digit_char False (int d)) = Some (word_of_nat d)" "is_digit (digit_char False (int d))"
    by (elim disjE; simp add: digit_val_def is_digit_def digit_char_def)+
qed

lemma is_digit_range: "is_digit c \<Longrightarrow> c \<noteq> 0 \<and> c \<noteq> 120 \<and> c \<noteq> 88 \<and> c \<noteq> 43 \<and> c \<noteq> 45 \<and> \<not> isspace c"
  by (auto simp: is_digit_def isspace_def)

lemma atol_loop_digits:
  "\<forall>d \<in> set ds. d < 10 \<Longrightarrow>
   atol_loop 10 (map (\<lambda>d. digit_char False (int d)) ds @ [0]) (word_of_nat a) = Some (Some (word_of_nat (of_digs 10 a ds)))"
proof (induction ds arbitrary: a)
  case (Cons d ds)
  have "atol_loop 10 (map (\<lambda>d. digit_char False (int d)) ds @ [0]) (word_of_nat (a * 10 + d)) =
      Some (Some (word_of_nat (of_digs 10 (a * 10 + d) ds)))"
    using Cons.IH [of "a * 10 + d"] Cons.prems by (meson list.set_intros(2))
  then show ?case using Cons.prems digit_char_val [of d] is_digit_range by auto
qed simp

lemma atol_digits_text:
  assumes "\<forall>d \<in> set ds. d < 10" "ds \<noteq> []"
  shows "atol_digits negative (map (\<lambda>d. digit_char False (int d)) ds @ [0]) =
    Some (if negative then - word_of_nat (of_digs 10 0 ds) else word_of_nat (of_digs 10 0 ds))"
proof -
  let ?m = "map (\<lambda>d. digit_char False (int d))"
  obtain e es where ds: "ds = e # es" using assms(2) by (cases ds) auto
  have x: "b \<noteq> 120 \<and> b \<noteq> 88" if "?m es @ [0] = b # rest" for b rest
  proof (cases es)
    case (Cons f fs)
    then show ?thesis using that assms(1) ds digit_char_val(2) [of f] is_digit_range by auto
  qed (use that in simp)
  obtain b rest where es: "?m es @ [0] = b # rest" by (cases "?m es @ [0]") auto
  have l: "atol_loop 10 (?m ds @ [0]) 0 = Some (Some (word_of_nat (of_digs 10 0 ds)))"
    using atol_loop_digits [OF assms(1), of 0] by simp
  show ?thesis
    using l x [OF es] es unfolding atol_digits_def ds by auto
qed

text \<open>
  C38: A \<^verbatim>\<open>long\<close> other than the smallest one, printed by \<^verbatim>\<open>printf\<close> with the conversion \<^verbatim>\<open>%ld\<close> and read
  back by \<^verbatim>\<open>atol\<close>, is the same number: both calls return, the printed text has at most 23 characters.
\<close>

theorem printf_atol_roundtrip:
  assumes "sint v \<noteq> - 9223372036854775808"
  shows "\<exists>t. u_vprintf [37, 108, 100, 0] [VaReg v] = Some t \<and> length t \<le> 23 \<and> atol (t @ [0]) = Some v"
proof -
  define ds where "ds = rev (digs 10 (magnitude False v))"
  let ?m = "map (\<lambda>d. digit_char False (int d))"
  have ds: "\<forall>d \<in> set ds. d < 10" "ds \<noteq> []" using digs_less [of 10] digs_ne by (auto simp: ds_def)
  have val: "of_digs 10 0 ds = magnitude False v" by (simp add: ds_def of_digs_rev)
  have t: "numeral_text 10 False False 0 48 v = (if sint v < 0 then [45] else []) @ ?m ds"
    by (simp add: numeral_text_def ds_def rev_map)
  have d: "is_digit (hd (?m ds @ [0]))" using ds digit_char_val(2) by (cases ds) auto
  have "word_of_nat (magnitude False v) = (if sint v < 0 then - v else v)"
    unfolding itoa_value(1) [of False v, OF disjI2 [OF assms], symmetric] by simp
  then have "atol (numeral_text 10 False False 0 48 v @ [0]) = Some v"
    using atol_digits_text [OF ds] d is_digit_range [OF d] val unfolding t atol_def
    by (cases ds) (auto simp: isspace_def)
  then show ?thesis using printf_ld [OF assms] u_mini_itoa_text(2) [OF assms] by (auto simp: BF_SIZE_def)
qed

theorem printf_atol_roundtrip_witness:
  "sint (- 1 :: u64) = - 1 \<and> (\<exists>t. u_vprintf [37, 108, 100, 0] [VaReg (- 1)] = Some t \<and> length t \<le> 23 \<and> atol (t @ [0]) = Some (- 1))"
  using printf_atol_roundtrip [of "- 1"] by simp

section \<open>The checksum\<close>

definition wsum :: "nat list \<Rightarrow> nat" where
  "wsum ds = (\<Sum>i < length ds. (length ds - i) * ds ! i)"

lemma wsum_simps: "wsum [] = 0" "wsum (d # ds) = Suc (length ds) * d + wsum ds"
  by (simp_all add: wsum_def sum.lessThan_Suc_shift del: sum.lessThan_Suc)

lemma unat_mod_adler:
  assumes "x < 4294967296"
  shows "(word_of_nat x :: u32) mod MOD_ADLER = word_of_nat (x mod 65521)"
  using unat_of_nat32 [OF assms] by (simp add: MOD_ADLER_def word_arith_nat_mod)

lemma adler_step:
  assumes "a < 65521" "b < 65521"
  shows "adler_loop (d # ds) (word_of_nat a) (word_of_nat b) =
    adler_loop ds (word_of_nat ((a + unat d) mod 65521)) (word_of_nat ((b + (a + unat d)) mod 65521))"
proof -
  let ?a = "(a + unat d) mod 65521"
  have a: "word_of_nat a + ucast d = (word_of_nat (a + unat d) :: u32)" by simp
  have 1: "(word_of_nat a + ucast d) mod MOD_ADLER = (word_of_nat ?a :: u32)"
    unfolding a using assms(1) unat_bounds(1) [of d] by (intro unat_mod_adler) linarith
  have b: "word_of_nat b + word_of_nat ?a = (word_of_nat (b + ?a) :: u32)" by (simp only: of_nat_add)
  have "?a < 65521" by simp
  then have 2: "(word_of_nat b + word_of_nat ?a) mod MOD_ADLER = (word_of_nat ((b + ?a) mod 65521) :: u32)"
    unfolding b using assms(2) by (intro unat_mod_adler) linarith
  show ?thesis by (simp only: adler_loop.simps Let_def 1 2 mod_add_right_eq)
qed

lemma adler_loop_sums:
  "a < 65521 \<Longrightarrow> b < 65521 \<Longrightarrow> adler_loop ds (word_of_nat a) (word_of_nat b) =
   (word_of_nat ((a + sum_list (map unat ds)) mod 65521),
    word_of_nat ((b + length ds * a + wsum (map unat ds)) mod 65521))"
proof (induction ds arbitrary: a b)
  case Nil
  then show ?case by (simp add: wsum_simps)
next
  case (Cons d ds)
  let ?a = "(a + unat d) mod 65521" and ?b = "(b + (a + unat d)) mod 65521"
  have "(?a + sum_list (map unat ds)) mod 65521 = (a + sum_list (map unat (d # ds))) mod 65521"
    by (simp add: mod_add_left_eq add.assoc)
  moreover have "(?b + length ds * ?a + wsum (map unat ds)) mod 65521 =
      ((b + (a + unat d)) + length ds * (a + unat d) + wsum (map unat ds)) mod 65521"
    by (intro mod_add_cong mod_mult_cong) simp_all
  moreover have "(b + (a + unat d)) + length ds * (a + unat d) + wsum (map unat ds) =
      b + length (d # ds) * a + wsum (map unat (d # ds))"
    by (simp add: wsum_simps algebra_simps)
  ultimately show ?case
    using adler_step [OF Cons.prems] Cons.IH [of ?a ?b] by simp
qed

lemma join_halves:
  assumes "a < 65536"
  shows "push_bit 16 (word_of_nat b :: u32) OR word_of_nat a = word_of_nat (65536 * b + a)"
proof -
  have "take_bit 16 (word_of_nat a :: u32) = word_of_nat a"
    using assms by (simp add: take_bit_of_nat take_bit_nat_eq_self)
  then have "bit (word_of_nat a :: u32) n \<Longrightarrow> n < 16" for n by (metis bit_take_bit_iff)
  then have "push_bit 16 (word_of_nat b :: u32) OR word_of_nat a = push_bit 16 (word_of_nat b) + word_of_nat a"
    by (intro disjunctive_add_eq_or [symmetric] bit_eqI) (fastforce simp: bit_and_iff bit_push_bit_iff)
  then show ?thesis by (simp add: push_bit_eq_mult)
qed

text \<open>
  \<^verbatim>\<open>adler32\<close> computes, modulo 65521 and without losing anything to the 32-bit arithmetic, one plus
  the sum of the bytes in its lower half and the sum of all prefixes of that in its upper half.
\<close>

lemma adler32_sums:
  assumes "n \<le> length data"
  shows "adler32 data n = Some (word_of_nat
    (65536 * ((n + (\<Sum>i < n. (n - i) * unat (data ! i))) mod 65521) + (1 + (\<Sum>i < n. unat (data ! i))) mod 65521))"
proof -
  let ?ds = "take n data"
  have len: "length ?ds = n" using assms by simp
  have s: "sum_list (map unat ?ds) = (\<Sum>i < n. unat (data ! i))"
    using len by (simp add: sum_list_sum_nth atLeast0LessThan)
  have w: "wsum (map unat ?ds) = (\<Sum>i < n. (n - i) * unat (data ! i))"
    using len by (simp add: wsum_def)
  have "adler_loop ?ds 1 0 = (word_of_nat ((1 + (\<Sum>i < n. unat (data ! i))) mod 65521),
      word_of_nat ((n + (\<Sum>i < n. (n - i) * unat (data ! i))) mod 65521))"
    using adler_loop_sums [of 1 0 ?ds] unfolding s w len by simp
  moreover have "(1 + (\<Sum>i < n. unat (data ! i))) mod 65521 < 65536"
    by (rule order.strict_trans [OF mod_less_divisor]) simp_all
  ultimately show ?thesis using assms by (simp add: adler32_def join_halves)
qed

lemma adler32_example: "adler32 [87, 105, 107, 105] 4 = Some 0x03DA0195"
  using adler32_sums [of 4 "[87, 105, 107, 105]"] by (simp add: lessThan_nat_numeral lessThan_Suc)

end
