(* ===== verification/Process.thy ===== *)
theory Process
  imports Screen Paging Mailbox
begin

text \<open>
  Processes and threads: the rest of src/kernel/sched/sched.c (\<^verbatim>\<open>do_exec\<close>, \<^verbatim>\<open>do_kill\<close>, \<^verbatim>\<open>do_exit\<close>,
  \<^verbatim>\<open>do_waitpid\<close>, \<^verbatim>\<open>do_taskset\<close>, the threads), the loader src/kernel/loader/loader.c and the page fault
  handler of src/kernel/mm/mm.c, with the task table of src/include/os/task.h.

  A user string or pointer argument is given by its address and the bytes there (the address only
  matters for \<^verbatim>\<open>check_uva_mem\<close>). Addresses that the linker chooses are the parameter \<open>kaddr\<close>. A call
  that gives up the processor is modelled up to the switch. The MMU's own updates of the accessed
  and dirty bits are not modelled; a fault inside the kernel is \<open>None\<close>.
\<close>

section \<open>State\<close>

definition TASK_MAXNUM :: nat where "TASK_MAXNUM = 16"

record task_info_t =
  ti_name :: bytes
  ti_entrypoint :: u64
  ti_sector_num :: u32
  ti_firstsector :: u32
  ti_offset :: u32
  ti_memsize :: u32

record 'd prst = "'d scst" +
  process_id :: i32
  tasks :: "nat \<Rightarrow> task_info_t"
  tasknum :: "16 word"

text \<open>\<^verbatim>\<open>(reg_t) pcb\<close> and \<^verbatim>\<open>(reg_t) ret_from_exception\<close>.\<close>

record kaddr =
  pcb_addr :: "pcbref \<Rightarrow> u64"
  ret_from_exception :: u64

text \<open>C string literals.\<close>

definition lit :: "string \<Rightarrow> bytes" where
  "lit t = map of_char t @ [0]"

section \<open>Bytes of memory\<close>

text \<open>Memory is kept in cells of eight bytes at aligned addresses, least significant byte first.\<close>

definition cell_of :: "u64 \<Rightarrow> u64" where "cell_of a = a AND NOT 7"
definition byte_shift :: "u64 \<Rightarrow> nat" where "byte_shift a = 8 * unat (a AND 7)"

definition get_byte :: "(u64 \<Rightarrow> u64) \<Rightarrow> u64 \<Rightarrow> u8" where
  "get_byte m a = ucast (drop_bit (byte_shift a) (m (cell_of a)))"

definition put_byte :: "u64 \<Rightarrow> u8 \<Rightarrow> (u64 \<Rightarrow> u64) \<Rightarrow> (u64 \<Rightarrow> u64)" where
  "put_byte a v m = m(cell_of a :=
     (m (cell_of a) AND NOT (push_bit (byte_shift a) 0xFF)) OR push_bit (byte_shift a) (ucast v))"

fun put_bytes :: "u64 \<Rightarrow> bytes \<Rightarrow> (u64 \<Rightarrow> u64) \<Rightarrow> (u64 \<Rightarrow> u64)" where
  "put_bytes a [] m = m"
| "put_bytes a (v # vs) m = put_bytes (a + 1) vs (put_byte a v m)"

text \<open>The kernel address behind a user address, through the page table \<open>pd\<close>; \<open>None\<close> faults.\<close>

definition user_addr :: "(u64 \<Rightarrow> u64) \<Rightarrow> u64 \<Rightarrow> u64 \<Rightarrow> u64 option" where
  "user_addr m pd uva = do {
     a \<leftarrow> uva2pte m uva pd;
     if get_attribute (m a) PAGE_PRESENT = 0 then None
     else Some (pa2kva (get_pa (m a)) + (uva AND (PAGE_SIZE - 1))) }"

section \<open>The loader\<close>

text \<open>\<^verbatim>\<open>my_memcpy\<close> in the address space of \<open>pd\<close>.\<close>

fun my_memcpy :: "'d swap_ops \<Rightarrow> nat \<Rightarrow> u64 \<Rightarrow> u64 \<Rightarrow> u64 \<Rightarrow> pcbref \<Rightarrow> ('d, 'a) mmst_scheme \<Rightarrow> ('d, 'a) mmst_scheme option" where
  "my_memcpy ops 0 dest src pd p s = Some s"
| "my_memcpy ops (Suc n) dest src pd p s = do {
     s1 \<leftarrow> check_uva_mem ops dest 1 p s;
     s2 \<leftarrow> check_uva_mem ops src 1 p s1;
     d \<leftarrow> user_addr (mem s2) pd dest;
     a \<leftarrow> user_addr (mem s2) pd src;
     my_memcpy ops n (dest + 1) (src + 1) pd p (s2\<lparr>mem := put_byte d (get_byte (mem s2) a) (mem s2)\<rparr>) }"

text \<open>
  The page loop of \<^verbatim>\<open>load_task_img\<close>: whole pages first, then the rest of the sectors, then blank pages.
  The statement \<^verbatim>\<open>sector_pointer += sector_num\<close> comes after \<^verbatim>\<open>sector_num\<close> was set to 0.
\<close>

fun load_pages ::
  "'d swap_ops \<Rightarrow> nat \<Rightarrow> u64 \<Rightarrow> u32 \<Rightarrow> u32 \<Rightarrow> pcbref \<Rightarrow> ('d, 'a) mmst_scheme \<Rightarrow> ('d, 'a) mmst_scheme option" where
  "load_pages ops 0 uva sector_num sector_pointer p s = Some s"
| "load_pages ops (Suc n) uva sector_num sector_pointer p s = do {
     (kva, s1) \<leftarrow> alloc_page_helper ops uva (pgdir (pcbs s p)) p s;
     if sector_num * 512 \<ge> 4096 then
       load_pages ops n (uva + 0x1000) (sector_num - 8) (sector_pointer + 8) p
         (s1\<lparr>mem := store_cells kva (dsk_rd ops 8 sector_pointer (swapdev s1)) (mem s1)\<rparr>)
     else if sector_num > 0 then
       load_pages ops n (uva + 0x1000) 0 sector_pointer p
         (s1\<lparr>mem := store_cells kva (dsk_rd ops (unat sector_num) sector_pointer (swapdev s1)) (mem s1)\<rparr>)
     else load_pages ops n (uva + 0x1000) sector_num sector_pointer p s1 }"

definition load_task_img :: "'d swap_ops \<Rightarrow> pcbref \<Rightarrow> task_info_t \<Rightarrow> ('d, 'a) mmst_scheme \<Rightarrow> ('d, 'a) mmst_scheme option" where
  "load_task_img ops p t s = do {
     let m = ti_memsize t + 512;
     let pagenum = m div 4096 + (if m mod 4096 \<noteq> 0 then 1 else 0);
     s1 \<leftarrow> load_pages ops (unat pagenum) (ti_entrypoint t) (ti_sector_num t) (ti_firstsector t) p s;
     my_memcpy ops (unat (512 * ti_sector_num t - ti_offset t)) (ti_entrypoint t)
       (ti_entrypoint t + ucast (ti_offset t)) (pgdir (pcbs s1 p)) p s1 }"

section \<open>Starting a process\<close>

fun task_search :: "bytes \<Rightarrow> nat list \<Rightarrow> ('d, 'a) prst_scheme \<Rightarrow> nat option option" where
  "task_search name [] s = Some None"
| "task_search name (i # is) s = do {
     r \<leftarrow> strcmp name (ti_name (tasks s i));
     if r = 0 then Some (Some i) else task_search name is s }"

definition taskname_to_taskid :: "bytes \<Rightarrow> ('d, 'a) prst_scheme \<Rightarrow> nat option option" where
  "taskname_to_taskid name s = task_search name [0..<nat (sint (tasknum s))] s"

definition setup_process_pcb ::
  "'d swap_ops \<Rightarrow> pcbref \<Rightarrow> task_info_t \<Rightarrow> ('d, 'a) prst_scheme \<Rightarrow> ('d, 'a) prst_scheme option" where
  "setup_process_pcb ops p t s = do {
     let s1 = s\<lparr>process_id := process_id s + 1\<rparr>;
     let s2 = upd_pcb p (\<lambda>b. b\<lparr>pid := process_id s1\<rparr>) s1;
     (k, s3) \<leftarrow> alloc_kernel_page ops s2;
     let s4 = upd_pcb p (\<lambda>b. b\<lparr>kernel_sp := k + PAGE_SIZE\<rparr>) s3;
     s5 \<leftarrow> create_PageNode (kernel_sp (pcbs s4 p) - PAGE_SIZE) (kernel_sp (pcbs s4 p) - PAGE_SIZE) PGDIR_VA p s4;
     name \<leftarrow> strcpy (taskname (pcbs s5 p)) (ti_name t);
     let s6 = upd_pcb p (\<lambda>b. b\<lparr>kernel_stack_base := kernel_sp b, user_sp := USER_STACK_ADDR,
       user_stack_base := USER_STACK_ADDR, entry_point := ti_entrypoint t,
       cpu_mask := cpu_mask (pcbs s5 (current_running s5)), taskname := name,
       thread_type := MTHREAD, pthread_id := 0\<rparr>) s5;
     Some (s6\<lparr>qlinks := init_queue (PcbBlockQ p) (qlinks s6)\<rparr>) }"

definition SR_SPIE :: u64 where "SR_SPIE = 0x20"
definition SR_SUM :: u64 where "SR_SUM = 0x40000"

text \<open>
  The context frames on the kernel stack, from which \<^verbatim>\<open>switch_to\<close> and \<^verbatim>\<open>ret_from_exception\<close> will load:
  \<open>regs_context_t\<close> has 36 cells (\<open>regs\<close>, then \<^verbatim>\<open>sstatus\<close> and \<^verbatim>\<open>sepc\<close>; the last two are not set), below it
  \<open>switchto_context_t\<close> with 14.
\<close>

definition store_context :: "kaddr \<Rightarrow> (nat \<Rightarrow> u64) \<Rightarrow> pcbref \<Rightarrow> ('d, 'a) mmst_scheme \<Rightarrow> ('d, 'a) mmst_scheme" where
  "store_context ka regs p s = (let
       s1 = upd_pcb p (\<lambda>b. b\<lparr>kernel_sp := kernel_sp b - 288 - 112\<rparr>) s;
       ksp = kernel_sp (pcbs s1 p);
       m1 = store_cells (ksp + 112) (map regs [0..<32] @ [SR_SPIE OR SR_SUM, entry_point (pcbs s1 p)]) (mem s1)
     in s1\<lparr>mem := store_cells ksp
       (map (\<lambda>i. if i = 0 then ret_from_exception ka else if i = 1 then ksp else 0) [0..<14]) m1\<rparr>)"

text \<open>The argument strings, each an address and the bytes there; \<open>slot\<close> is \<^verbatim>\<open>&my_argv[i]\<close>.\<close>

fun push_args ::
  "'d swap_ops \<Rightarrow> u64 \<Rightarrow> u64 \<Rightarrow> (u64 \<times> bytes) list \<Rightarrow> u64 \<Rightarrow> ('d, 'a) mmst_scheme \<Rightarrow> (u64 \<times> ('d, 'a) mmst_scheme) option" where
  "push_args ops off slot [] sp s = Some (sp, s)"
| "push_args ops off slot ((ua, str) # args) sp s = do {
     s1 \<leftarrow> check_uva_mem ops ua 64 (current_running s) s;
     n \<leftarrow> strlen str;
     let sp' = sp - word_of_nat (n + 1);
     let m1 = (mem s1)(slot := sp' - off);
     push_args ops off (slot + 8) args sp' (s1\<lparr>mem := put_bytes sp' (take (n + 1) str) m1\<rparr>) }"

definition setup_process_stack ::
  "'d swap_ops \<Rightarrow> kaddr \<Rightarrow> pcbref \<Rightarrow> i32 \<Rightarrow> u64 \<Rightarrow> (u64 \<times> bytes) list \<Rightarrow> ('d, 'a) mmst_scheme \<Rightarrow> ('d, 'a) mmst_scheme option" where
  "setup_process_stack ops ka p argc argv args s = do {
     (kva, s1) \<leftarrow> alloc_page_helper ops (USER_STACK_ADDR - PAGE_SIZE) (pgdir (pcbs s p)) p s;
     let off = kva + PAGE_SIZE - USER_STACK_ADDR;
     let sp1 = kva + PAGE_SIZE - 8;
     let s2 = s1\<lparr>mem := (mem s1)(sp1 := scast argc)\<rparr>;
     s3 \<leftarrow> check_uva_mem ops argv (8 * scast argc) (current_running s2) s2;
     let sp2 = sp1 - 8 * scast argc;
     let argv_base = sp2 - off;
     c_assert (nat (sint argc) \<le> length args);
     (sp3, s4) \<leftarrow> push_args ops off sp2 (take (nat (sint argc)) args) sp2 s3;
     let s5 = upd_pcb p (\<lambda>b. b\<lparr>user_sp := sp3 - off\<rparr>) s4;
     let s6 = upd_pcb p (\<lambda>b. b\<lparr>user_sp := ROUNDDOWN (user_sp b) 16\<rparr>) s5;
     Some (store_context ka (\<lambda>i. if i = 1 then entry_point (pcbs s6 p) else if i = 2 then user_sp (pcbs s6 p)
       else if i = 4 then pcb_addr ka p else if i = 10 then scast argc
       else if i = 11 then argv_base else 0) p s6) }"

definition do_exec ::
  "'d swap_ops \<Rightarrow> kaddr \<Rightarrow> u64 \<Rightarrow> bytes \<Rightarrow> i32 \<Rightarrow> u64 \<Rightarrow> (u64 \<times> bytes) list \<Rightarrow> ('d, 'a) prst_scheme \<Rightarrow>
   (i32 \<times> ('d, 'a) prst_scheme) option" where
  "do_exec ops ka name_uva name argc argv args s0 = do {
     s \<leftarrow> check_uva_mem ops name_uva 32 (current_running s0) s0;
     t \<leftarrow> taskname_to_taskid name s;
     (case t of None \<Rightarrow> Some (- 1, s) | Some taskid \<Rightarrow>
      (case get_free_pcb s of None \<Rightarrow> Some (- 1, s) | Some i \<Rightarrow> do {
        s1 \<leftarrow> setup_process_pcb ops (Pcb i) (tasks s taskid) s;
        (pd, s2) \<leftarrow> alloc_kernel_page ops s1;
        let s3 = upd_pcb (Pcb i) (\<lambda>b. b\<lparr>pgdir := pd\<rparr>) s2;
        s4 \<leftarrow> create_PageNode pd pd PGDIR_VA (Pcb i) s3;
        let s5 = share_pgtable pd PGDIR_VA (s4\<lparr>mem := clear_pgdir pd (mem s4)\<rparr>);
        s6 \<leftarrow> load_task_img ops (Pcb i) (tasks s5 taskid) s5;
        s7 \<leftarrow> setup_process_stack ops ka (Pcb i) argc argv args s6;
        s8 \<leftarrow> add_readyqueue (Pcb i) s7;
        Some (pid (pcbs s8 (Pcb i)), s8) })) }"

section \<open>Ending a process\<close>

text \<open>The steps that \<^verbatim>\<open>do_exit\<close> and \<^verbatim>\<open>do_kill\<close> share: wake the waiters, release the locks and the pages.\<close>

definition release_process :: "pcbref \<Rightarrow> i32 \<Rightarrow> ('d, 'a) lkst_scheme \<Rightarrow> ('d, 'a) lkst_scheme option" where
  "release_process p k s = do {
     s1 \<leftarrow> unblock_all (PcbBlockQ p) s;
     s2 \<leftarrow> release_process_mutex k s1;
     s3 \<leftarrow> (if pthread_id (pcbs s2 p) = 0 then release_process_page p s2 else Some s2);
     Some (upd_pcb p (\<lambda>b. b\<lparr>status := TASK_EXITED\<rparr>) s3) }"

definition do_exit :: "('d, 'a) lkst_scheme \<Rightarrow> ('d, 'a) lkst_scheme option" where
  "do_exit s = do {
     s1 \<leftarrow> release_process (current_running s) (pid (pcbs s (current_running s))) s;
     do_scheduler s1 }"

text \<open>\<^verbatim>\<open>do_kill\<close>: \<open>None\<close> as result when the caller itself has exited, so that the call does not come back.\<close>

partial_function (option) do_kill :: "i32 \<Rightarrow> ('d, 'a) lkst_scheme \<Rightarrow> (i32 option \<times> ('d, 'a) lkst_scheme) option" where
  "do_kill k s = (case pid_to_pcb_id k s of None \<Rightarrow> Some (Some 1, s)
     | Some i \<Rightarrow>
       if Pcb i = current_running s then Option.bind (do_exit s) (\<lambda>s'. Some (None, s'))
       else Option.bind (release_process (Pcb i) k s) (\<lambda>s1.
         Option.bind (remove_pcb_queue (Pcb i) s1) (\<lambda>s2. do_kill k s2)))"

definition do_waitpid :: "i32 \<Rightarrow> 'a kst_scheme \<Rightarrow> (int \<times> 'a kst_scheme) option" where
  "do_waitpid k s = (case first_idx (\<lambda>i. pid (pcbs s (Pcb i)) = k \<and> status (pcbs s (Pcb i)) \<noteq> TASK_EXITED) NUM_MAX_TASK of
       None \<Rightarrow> Some (0, s)
     | Some i \<Rightarrow> do {
         s1 \<leftarrow> do_block (PcbNode (current_running s)) (PcbBlockQ (Pcb i)) s;
         s2 \<leftarrow> do_scheduler s1;
         Some (int i, s2) })"

text \<open>
  \<^verbatim>\<open>do_taskset\<close>. With \<^verbatim>\<open>mod\<close> 0 it starts the task; \<open>argv\<close> is then the address of its local array. When
  the search for the new process fails it would store behind the process table: a fault.
\<close>

definition do_taskset ::
  "'d swap_ops \<Rightarrow> kaddr \<Rightarrow> u64 \<Rightarrow> u64 \<Rightarrow> bytes \<Rightarrow> i32 \<Rightarrow> u64 \<Rightarrow> i32 \<Rightarrow> ('d, 'a) prst_scheme \<Rightarrow> (i32 \<times> ('d, 'a) prst_scheme) option" where
  "do_taskset ops ka argv name_uva name k msk how s =
     (if how = 0 then do {
        (r, s1) \<leftarrow> do_exec ops ka name_uva name 1 argv [(name_uva, name)] s;
        if r = - 1 then Some (- 1, s1)
        else do {
          i \<leftarrow> pid_to_pcb_id r s1;
          Some (0, upd_pcb (Pcb i) (\<lambda>b. b\<lparr>cpu_mask := msk\<rparr>) s1) } }
      else (case pid_to_pcb_id k s of None \<Rightarrow> Some (- 1, s)
        | Some i \<Rightarrow> Some (0, upd_pcb (Pcb i) (\<lambda>b. b\<lparr>cpu_mask := msk\<rparr>) s)))"

section \<open>Threads\<close>

definition init_pthread_pcb ::
  "'d swap_ops \<Rightarrow> pcbref \<Rightarrow> i32 \<Rightarrow> u64 \<Rightarrow> ('d, 'a) mmst_scheme \<Rightarrow> ('d, 'a) mmst_scheme option" where
  "init_pthread_pcb ops p thread start_routine s = do {
     let s2 = upd_pcb p (\<lambda>b. b\<lparr>pid := pid (pcbs s (current_running s))\<rparr>) s;
     (k, s3) \<leftarrow> alloc_kernel_page ops s2;
     let s4 = upd_pcb p (\<lambda>b. b\<lparr>kernel_sp := k + PAGE_SIZE\<rparr>) s3;
     s5 \<leftarrow> create_PageNode (kernel_sp (pcbs s4 p) - PAGE_SIZE) (kernel_sp (pcbs s4 p) - PAGE_SIZE) PGDIR_VA p s4;
     let c = pcbs s5 (current_running s5);
     name \<leftarrow> strcpy (taskname (pcbs s5 p)) (taskname c);
     let s6 = upd_pcb p (\<lambda>b. b\<lparr>kernel_stack_base := kernel_sp b,
       user_sp := user_stack_base c + scast (4096 * thread),
       user_stack_base := user_stack_base c + scast (4096 * thread),
       entry_point := start_routine, cpu_mask := cpu_mask c, taskname := name,
       thread_type := PTHREAD, pthread_id := thread, brk := brk c\<rparr>) s5;
     Some (s6\<lparr>qlinks := init_queue (PcbBlockQ p) (qlinks s6)\<rparr>) }"

definition setup_pthread_stack ::
  "'d swap_ops \<Rightarrow> kaddr \<Rightarrow> pcbref \<Rightarrow> u64 \<Rightarrow> u64 \<Rightarrow> ('d, 'a) mmst_scheme \<Rightarrow> ('d, 'a) mmst_scheme option" where
  "setup_pthread_stack ops ka p arg exit_funt s = do {
     (kva, s1) \<leftarrow> alloc_page_helper ops (user_stack_base (pcbs s p) - PAGE_SIZE) (pgdir (pcbs s p)) p s;
     Some (store_context ka (\<lambda>i. if i = 1 then exit_funt else if i = 2 then user_sp (pcbs s1 p)
       else if i = 4 then pcb_addr ka p else if i = 10 then arg else 0) p s1) }"

definition do_pthread_create ::
  "'d swap_ops \<Rightarrow> kaddr \<Rightarrow> i32 \<Rightarrow> u64 \<Rightarrow> u64 \<Rightarrow> u64 \<Rightarrow> ('d, 'a) mmst_scheme \<Rightarrow> ('d, 'a) mmst_scheme option" where
  "do_pthread_create ops ka thread start_routine arg exit_funt s =
     (case get_free_pcb s of None \<Rightarrow> Some s | Some i \<Rightarrow> do {
        s1 \<leftarrow> init_pthread_pcb ops (Pcb i) thread start_routine s;
        let s2 = upd_pcb (Pcb i) (\<lambda>b. b\<lparr>pgdir := pgdir (pcbs s1 (current_running s1))\<rparr>) s1;
        s3 \<leftarrow> setup_pthread_stack ops ka (Pcb i) arg exit_funt s2;
        add_readyqueue (Pcb i) s3 })"

definition do_pthread_join :: "i32 \<Rightarrow> 'a kst_scheme \<Rightarrow> 'a kst_scheme option" where
  "do_pthread_join thread s =
     (case search_pthread_pcb (pid (pcbs s (current_running s))) thread s of None \<Rightarrow> Some s
      | Some i \<Rightarrow> do {
          s1 \<leftarrow> do_block (PcbNode (current_running s)) (PcbBlockQ (Pcb i)) s;
          do_scheduler s1 })"

section \<open>The process table\<close>

text \<open>A sequence of \<^verbatim>\<open>printk\<close> calls whose results are not used.\<close>

fun printks :: "(string \<times> va_item list) list \<Rightarrow> ('d, 'a) scst_scheme \<Rightarrow> ('d, 'a) scst_scheme option" where
  "printks [] s = Some s"
| "printks ((fmt, va) # ps) s = do { (n, s1) \<leftarrow> printk (lit fmt) va s; printks ps s1 }"

definition tab :: string where "tab = [CHR 0x09]"
definition newline :: string where "newline = [CHR 0x0A]"

definition status_line :: "pcb_t \<Rightarrow> (string \<times> va_item list) list" where
  "status_line b = (case status b of
       TASK_BLOCKED \<Rightarrow> [(''BLOCKED'' @ tab, []), (''mask: %d'' @ tab, [VaReg (cpu_mask b)])]
     | TASK_RUNNING \<Rightarrow> [(''RUNNING'' @ tab, []), (''mask: %d'' @ tab, [VaReg (cpu_mask b)]),
         (''Running on core %d'' @ tab, [VaReg (current_cpu_id b)])]
     | TASK_READY \<Rightarrow> [(''READY'' @ tab, []), (''mask: %d'' @ tab, [VaReg (cpu_mask b)])]
     | TASK_EXITED \<Rightarrow> [(''ERROR'' @ tab, [])])"

fun show_pcbs :: "nat list \<Rightarrow> ('d, 'a) scst_scheme \<Rightarrow> ('d, 'a) scst_scheme option" where
  "show_pcbs [] s = Some s"
| "show_pcbs (i # is) s = (let b = pcbs s (Pcb i) in
     if status b = TASK_EXITED then show_pcbs is s
     else do {
       s1 \<leftarrow> printks ((''[%d] PID : %d   STATUS :'', [VaReg (word_of_nat i), VaReg (scast (pid b))]) #
         status_line b @ [(newline, [])]) s;
       show_pcbs is s1 })"

definition do_process_show :: "('d, 'a) scst_scheme \<Rightarrow> ('d, 'a) scst_scheme option" where
  "do_process_show s = do {
     s1 \<leftarrow> printks [(''[Process Table]'' @ newline, [])] s;
     show_pcbs [0..<NUM_MAX_TASK] s1 }"

section \<open>Page faults\<close>

definition SCAUSE_EXC_CODE :: u64 where "SCAUSE_EXC_CODE = NOT (push_bit 63 1)"
definition EXCC_INST_PAGE_FAULT :: u64 where "EXCC_INST_PAGE_FAULT = 12"
definition EXCC_LOAD_PAGE_FAULT :: u64 where "EXCC_LOAD_PAGE_FAULT = 13"
definition EXCC_STORE_PAGE_FAULT :: u64 where "EXCC_STORE_PAGE_FAULT = 15"

text \<open>The message for an access that the entry forbids.\<close>

definition mprotect_error :: "u64 \<Rightarrow> u64 \<Rightarrow> string option" where
  "mprotect_error scause e = (let c = scause AND SCAUSE_EXC_CODE in
     if c = EXCC_INST_PAGE_FAULT \<and> get_attribute e PAGE_EXEC = 0 then Some ''ERROR: mprotect: addr = 0x%lx, cannot exe''
     else if c = EXCC_LOAD_PAGE_FAULT \<and> get_attribute e PAGE_READ = 0 then Some ''ERROR: mprotect: addr = 0x%lx, cannot read''
     else if c = EXCC_STORE_PAGE_FAULT \<and> get_attribute e PAGE_WRITE = 0 then Some ''ERROR: mprotect: addr = 0x%lx, cannot write''
     else None)"

text \<open>The result is \<open>True\<close> when the process was ended.\<close>

definition check_mprotect :: "u64 \<Rightarrow> u64 \<Rightarrow> ('d, 'a) scst_scheme \<Rightarrow> (bool \<times> ('d, 'a) scst_scheme) option" where
  "check_mprotect stval scause s =
     (case uva2pte (mem s) stval (pgdir (pcbs s (current_running s))) of None \<Rightarrow> Some (False, s)
      | Some pte \<Rightarrow> (case mprotect_error scause (mem s pte) of None \<Rightarrow> Some (False, s)
        | Some msg \<Rightarrow> do {
            (n, s1) \<leftarrow> printk (lit msg) [VaReg stval] s;
            s2 \<leftarrow> do_exit s1;
            Some (True, s2) }))"

definition check_brk :: "u64 \<Rightarrow> ('d, 'a) scst_scheme \<Rightarrow> (bool \<times> ('d, 'a) scst_scheme) option" where
  "check_brk vpn s =
     (if vpn > brk (pcbs s (current_running s)) \<and> vpn < USER_STACK_END then do {
        (n, s1) \<leftarrow> printk (lit ''ERROR: segment fault'') [] s;
        s2 \<leftarrow> do_exit s1;
        Some (True, s2) }
      else Some (False, s))"

definition handle_page_fault :: "'d swap_ops \<Rightarrow> u64 \<Rightarrow> u64 \<Rightarrow> ('d, 'a) scst_scheme \<Rightarrow> ('d, 'a) scst_scheme option" where
  "handle_page_fault ops stval scause s = do {
     c_assert (stval \<noteq> 0);
     let vpn = stval AND NOT (PAGE_SIZE - 1);
     (ended, s1) \<leftarrow> check_mprotect stval scause s;
     if ended then Some s1 else do {
       r \<leftarrow> search_list_node UMemHead vpn (current_running s1) s1;
       (case r of
          Some i \<Rightarrow> do {
            pte \<leftarrow> pte_entry (pn s1 i);
            Some (upd_pte pte (\<lambda>e. set_attribute e (PAGE_ACCESSED OR PAGE_DIRTY)) s1) }
        | None \<Rightarrow> do {
            r' \<leftarrow> search_list_node USdHead vpn (current_running s1) s1;
            (case r' of
               Some i \<Rightarrow> do { c_assert (pn_uva (pn s1 i) \<noteq> 0); swap_page_in ops i s1 }
             | None \<Rightarrow> do {
                 (ended', s2) \<leftarrow> check_brk vpn s1;
                 if ended' then Some s2
                 else do {
                   (kva, s3) \<leftarrow> alloc_page_helper ops vpn (pgdir (pcbs s2 (current_running s2))) (current_running s2) s2;
                   Some s3 } }) }) } }"

end
