(* ===== verification/Exit.thy ===== *)
theory Exit
  imports Process
begin

text \<open>
  What the end of a process does: \<^verbatim>\<open>release_process_page\<close> removes exactly the page nodes of the process
  and frees their pages, \<^verbatim>\<open>release_process_mutex\<close> frees its locks and wakes their waiters, \<^verbatim>\<open>do_exit\<close> and
  \<^verbatim>\<open>do_kill\<close> do both and return, and a process waiting in \<^verbatim>\<open>do_waitpid\<close> is woken.
\<close>

section \<open>Releasing pages\<close>

text \<open>The bits of a node's page in the user and in the kernel bitmap.\<close>

definition uidx :: "PageNode_t \<Rightarrow> nat" where
  "uidx b = unat ((pn_addr b - USER_MEM_BASE) div PAGE_SIZE)"

definition kidx :: "PageNode_t \<Rightarrow> nat" where
  "kidx b = unat ((pn_addr b - INIT_KERNEL_STACK) div PAGE_SIZE)"

definition in_pool :: "('d, 'a) mmst_scheme \<Rightarrow> nat \<Rightarrow> bool" where
  "in_pool s i \<longleftrightarrow> (if pn_uva (pn s i) \<noteq> pn_addr (pn s i)
     then uidx (pn s i) < 8 * length (user_bitmap s) else kidx (pn s i) < 8 * length (kernel_bitmap s))"

text \<open>The nodes of process \<open>k\<close> among \<open>is\<close>, and the bits of their pages that go free.\<close>

definition owned :: "i32 \<Rightarrow> ('d, 'a) mmst_scheme \<Rightarrow> nat list \<Rightarrow> nat set" where
  "owned k s is = {i \<in> set is. pn_pid (pn s i) = k}"

definition freed_u :: "(nat \<Rightarrow> PageNode_t) \<Rightarrow> nat set \<Rightarrow> nat set" where
  "freed_u ns I = uidx ` ns ` {i \<in> I. pn_uva (ns i) \<noteq> pn_addr (ns i)}"

definition freed_k :: "(nat \<Rightarrow> PageNode_t) \<Rightarrow> nat set \<Rightarrow> nat set" where
  "freed_k ns I = kidx ` ns ` {i \<in> I. pn_uva (ns i) = pn_addr (ns i)}"

text \<open>The state after the nodes \<open>I\<close> were recycled, in memory (\<open>m\<close>) or on the card.\<close>

definition recycled :: "bool \<Rightarrow> nat set \<Rightarrow> ('d, 'a) mmst_scheme \<Rightarrow> ('d, 'a) mmst_scheme \<Rightarrow> bool" where
  "recycled m I s s' \<longleftrightarrow> (\<exists>lk ub kb.
     s' = s\<lparr>pn := (\<lambda>i. if i \<in> I then (pn s i)\<lparr>pn_status := PN_INACTIVE\<rparr> else pn s i), plinks := lk,
            user_bitmap := ub, kernel_bitmap := kb\<rparr> \<and>
     length ub = length (user_bitmap s) \<and> length kb = length (kernel_bitmap s) \<and>
     (\<forall>j. bit_at ub j \<longleftrightarrow> bit_at (user_bitmap s) j \<and> \<not> (m \<and> j \<in> freed_u (pn s) I)) \<and>
     (\<forall>j. bit_at kb j \<longleftrightarrow> bit_at (kernel_bitmap s) j \<and> \<not> (m \<and> j \<in> freed_k (pn s) I)))"

lemma recycled_none: "recycled m {} s s"
  unfolding recycled_def freed_u_def freed_k_def
  by (intro exI [of _ "plinks s"] exI [of _ "user_bitmap s"] exI [of _ "kernel_bitmap s"]) simp

lemma recycled_trans:
  assumes "recycled m I s s1" "recycled m J s1 s2"
  shows "recycled m (I \<union> J) s s2"
proof -
  obtain lk1 ub1 kb1 where 1: "s1 = s\<lparr>pn := (\<lambda>i. if i \<in> I then (pn s i)\<lparr>pn_status := PN_INACTIVE\<rparr> else pn s i), plinks := lk1,
            user_bitmap := ub1, kernel_bitmap := kb1\<rparr>"
    "length ub1 = length (user_bitmap s)" "length kb1 = length (kernel_bitmap s)"
    "\<And>j. bit_at ub1 j \<longleftrightarrow> bit_at (user_bitmap s) j \<and> \<not> (m \<and> j \<in> freed_u (pn s) I)"
    "\<And>j. bit_at kb1 j \<longleftrightarrow> bit_at (kernel_bitmap s) j \<and> \<not> (m \<and> j \<in> freed_k (pn s) I)"
    using assms(1) unfolding recycled_def by blast
  obtain lk2 ub2 kb2 where 2: "s2 = s1\<lparr>pn := (\<lambda>i. if i \<in> J then (pn s1 i)\<lparr>pn_status := PN_INACTIVE\<rparr> else pn s1 i), plinks := lk2,
            user_bitmap := ub2, kernel_bitmap := kb2\<rparr>"
    "length ub2 = length (user_bitmap s1)" "length kb2 = length (kernel_bitmap s1)"
    "\<And>j. bit_at ub2 j \<longleftrightarrow> bit_at (user_bitmap s1) j \<and> \<not> (m \<and> j \<in> freed_u (pn s1) J)"
    "\<And>j. bit_at kb2 j \<longleftrightarrow> bit_at (kernel_bitmap s1) j \<and> \<not> (m \<and> j \<in> freed_k (pn s1) J)"
    using assms(2) unfolding recycled_def by blast
  have f: "freed_u (pn s) (I \<union> J) = freed_u (pn s) I \<union> freed_u (pn s1) J"
    "freed_k (pn s) (I \<union> J) = freed_k (pn s) I \<union> freed_k (pn s1) J"
    unfolding freed_u_def freed_k_def 1(1) by (force simp: uidx_def kidx_def)+
  show ?thesis
    unfolding recycled_def
    by (intro exI [of _ lk2] exI [of _ ub2] exI [of _ kb2])
      (use 1 2 f in \<open>auto simp: fun_eq_iff\<close>)
qed

lemma recycled_fields:
  assumes "recycled m I s s'"
  shows "pn_pid (pn s' i) = pn_pid (pn s i)" "pn_uva (pn s' i) = pn_uva (pn s i)" "pn_addr (pn s' i) = pn_addr (pn s i)"
    "in_pool s' i = in_pool s i" "pcbs s' = pcbs s" "qlinks s' = qlinks s" "cur s' = cur s" "hart s' = hart s"
    "mem s' = mem s"
  using assms unfolding recycled_def by (cases "i \<in> I"; auto simp: in_pool_def uidx_def kidx_def)+

lemma recycle_loop_skip:
  assumes "nxt (plinks s) (PN i) = Some p'" "PN i \<noteq> h" "pn_pid (pn s i) \<noteq> k"
  shows "recycle_loop k h m (PN i) s = recycle_loop k h m p' s"
  using assms by (subst recycle_loop.simps) simp

lemma recycle_loop_take:
  assumes "nxt (plinks s) (PN i) = Some p'" "PN i \<noteq> h" "pn_pid (pn s i) = k" "m \<Longrightarrow> in_pool s i"
    and del: "delete_list_node (PN i) (plinks s) = Some lk"
  obtains s1 where "recycle_loop k h m (PN i) s = recycle_loop k h m p' s1" "recycled m {i} s s1" "plinks s1 = lk"
proof -
  let ?u = "pn_uva (pn s i) \<noteq> pn_addr (pn s i)"
  let ?n = "(pn s)(i := (pn s i)\<lparr>pn_status := PN_INACTIVE\<rparr>)"
  have n: "?n = (\<lambda>j. if j \<in> {i} then (pn s j)\<lparr>pn_status := PN_INACTIVE\<rparr> else pn s j)" by auto
  have f: "freed_u (pn s) {i} = (if ?u then {uidx (pn s i)} else {})" "freed_k (pn s) {i} = (if ?u then {} else {kidx (pn s i)})"
    by (auto simp: freed_u_def freed_k_def)
  have unf: "recycle_loop k h m (PN i) s = recycle_loop k h m p' (s\<lparr>pn := ?n, user_bitmap := ub, kernel_bitmap := kb, plinks := lk\<rparr>)"
    if "\<not> m \<and> ub = user_bitmap s \<and> kb = kernel_bitmap s \<or>
      m \<and> ?u \<and> unmark_page_free (uidx (pn s i)) (user_bitmap s) = Some ub \<and> kb = kernel_bitmap s \<or>
      m \<and> \<not> ?u \<and> ub = user_bitmap s \<and> unmark_page_free (kidx (pn s i)) (kernel_bitmap s) = Some kb" for ub kb
    using that assms(1-3) del
    by (subst recycle_loop.simps) (auto simp: upd_pn_def uidx_def kidx_def)
  have "\<exists>ub kb. (\<not> m \<and> ub = user_bitmap s \<and> kb = kernel_bitmap s \<or>
      m \<and> ?u \<and> unmark_page_free (uidx (pn s i)) (user_bitmap s) = Some ub \<and> kb = kernel_bitmap s \<or>
      m \<and> \<not> ?u \<and> ub = user_bitmap s \<and> unmark_page_free (kidx (pn s i)) (kernel_bitmap s) = Some kb) \<and>
      length ub = length (user_bitmap s) \<and> length kb = length (kernel_bitmap s) \<and>
      (\<forall>j. bit_at ub j \<longleftrightarrow> bit_at (user_bitmap s) j \<and> \<not> (m \<and> j \<in> freed_u (pn s) {i})) \<and>
      (\<forall>j. bit_at kb j \<longleftrightarrow> bit_at (kernel_bitmap s) j \<and> \<not> (m \<and> j \<in> freed_k (pn s) {i}))"
    using assms(4) pages.unmark_ok [of "uidx (pn s i)" "user_bitmap s"] pages.unmark_ok [of "kidx (pn s i)" "kernel_bitmap s"]
    unfolding f in_pool_def by (cases m; cases ?u; auto)
  then obtain ub kb where c: "\<not> m \<and> ub = user_bitmap s \<and> kb = kernel_bitmap s \<or>
      m \<and> ?u \<and> unmark_page_free (uidx (pn s i)) (user_bitmap s) = Some ub \<and> kb = kernel_bitmap s \<or>
      m \<and> \<not> ?u \<and> ub = user_bitmap s \<and> unmark_page_free (kidx (pn s i)) (kernel_bitmap s) = Some kb"
    and l: "length ub = length (user_bitmap s)" "length kb = length (kernel_bitmap s)"
    and b: "\<forall>j. bit_at ub j \<longleftrightarrow> bit_at (user_bitmap s) j \<and> \<not> (m \<and> j \<in> freed_u (pn s) {i})"
      "\<forall>j. bit_at kb j \<longleftrightarrow> bit_at (kernel_bitmap s) j \<and> \<not> (m \<and> j \<in> freed_k (pn s) {i})" by blast
  let ?s1 = "s\<lparr>pn := ?n, user_bitmap := ub, kernel_bitmap := kb, plinks := lk\<rparr>"
  have "recycled m {i} s ?s1"
    unfolding recycled_def n [symmetric]
    by (intro exI [of _ lk] exI [of _ ub] exI [of _ kb]) (use l b in simp)
  then show thesis using that [OF unf [OF c]] by simp
qed

lemma recycle_loop_spec:
  "queues page_heads Q (plinks s) \<Longrightarrow> h \<in> page_heads \<Longrightarrow> Q h = js @ map PN is \<Longrightarrow> \<forall>i \<in> set is. m \<longrightarrow> in_pool s i \<Longrightarrow>
   \<exists>s'. recycle_loop k h m (hd (map PN is @ [h])) s = Some s' \<and> recycled m (owned k s is) s s' \<and>
     queues page_heads (Q(h := js @ map PN (filter (\<lambda>i. pn_pid (pn s i) \<noteq> k) is))) (plinks s')"
proof (induction "is" arbitrary: Q s js)
  case Nil
  then show ?case by (subst recycle_loop.simps) (simp add: owned_def recycled_none fun_upd_idem)
next
  case (Cons i "is")
  have d: "dll (plinks s) h (js @ PN i # map PN is)" using queues_dll [OF Cons.prems(1,2)] Cons.prems(3) by simp
  have nx: "nxt (plinks s) (PN i) = Some (hd (map PN is @ [h]))" using dll_next_mem [OF d] by simp
  have ih: "PN i \<noteq> h" using d by (auto simp: dll_def)
  show ?case
  proof (cases "pn_pid (pn s i) = k")
    case False
    have "\<exists>s'. recycle_loop k h m (hd (map PN is @ [h])) s = Some s' \<and> recycled m (owned k s is) s s' \<and>
     queues page_heads (Q(h := (js @ [PN i]) @ map PN (filter (\<lambda>i. pn_pid (pn s i) \<noteq> k) is))) (plinks s')"
      using Cons.prems by (intro Cons.IH) auto
    moreover have "owned k s (i # is) = owned k s is" using False by (auto simp: owned_def)
    moreover have "js @ map PN (filter (\<lambda>i. pn_pid (pn s i) \<noteq> k) (i # is)) =
        (js @ [PN i]) @ map PN (filter (\<lambda>i. pn_pid (pn s i) \<noteq> k) is)" using False by simp
    ultimately show ?thesis using recycle_loop_skip [OF nx ih False, of m] by (simp only: list.simps append_Cons list.sel)
  next
    case True
    have notin: "PN i \<notin> set js" using d by (auto simp: dll_def)
    obtain lk where lk: "delete_list_node (PN i) (plinks s) = Some lk" "queues page_heads (Q(h := js @ map PN is)) lk"
      using pq.queues_deq [OF Cons.prems(1,2), of "PN i"] Cons.prems(3) notin by (auto simp: remove1_append)
    have "m \<Longrightarrow> in_pool s i" using Cons.prems(4) by simp
    from recycle_loop_take [OF nx ih True this lk(1)] obtain s1
      where s1: "recycle_loop k h m (PN i) s = recycle_loop k h m (hd (map PN is @ [h])) s1" "recycled m {i} s s1" "plinks s1 = lk" .
    note fl = recycled_fields [OF s1(2)]
    have "\<exists>s'. recycle_loop k h m (hd (map PN is @ [h])) s1 = Some s' \<and> recycled m (owned k s1 is) s1 s' \<and>
     queues page_heads ((Q(h := js @ map PN is))(h := js @ map PN (filter (\<lambda>i. pn_pid (pn s1 i) \<noteq> k) is))) (plinks s')"
      by (rule Cons.IH [of "Q(h := js @ map PN is)" s1 js]) (use Cons.prems lk(2) s1(3) fl in \<open>auto simp: fun_upd_def\<close>)
    moreover have "owned k s (i # is) = {i} \<union> owned k s1 is" using True fl(1) by (auto simp: owned_def)
    ultimately show ?thesis using s1(1) recycled_trans [OF s1(2)] True fl(1) by (auto simp: fun_upd_def cong: if_cong)
  qed
qed

text \<open>
  The page lists hold nodes, and the pages in memory lie in their pools. (When the kernel pool is
  empty, \<^verbatim>\<open>alloc_kernel_page\<close> hands out a user page, which breaks this.)
\<close>

definition pages_ok :: "(pnode \<Rightarrow> nat list) \<Rightarrow> ('d, 'a) mmst_scheme \<Rightarrow> bool" where
  "pages_ok P s \<longleftrightarrow> queues page_heads (\<lambda>h. map PN (P h)) (plinks s) \<and>
     (\<forall>i \<in> set (P KPageHead) \<union> set (P UMemHead). in_pool s i)"

text \<open>The lists without the nodes of process \<open>k\<close>.\<close>

definition without :: "i32 \<Rightarrow> ('d, 'a) mmst_scheme \<Rightarrow> (pnode \<Rightarrow> nat list) \<Rightarrow> (pnode \<Rightarrow> nat list)" where
  "without k s P h = filter (\<lambda>i. pn_pid (pn s i) \<noteq> k) (P h)"

text \<open>The effect of \<^verbatim>\<open>release_process_page\<close>.\<close>

definition pages_released :: "i32 \<Rightarrow> (pnode \<Rightarrow> nat list) \<Rightarrow> ('d, 'a) mmst_scheme \<Rightarrow> ('d, 'a) mmst_scheme \<Rightarrow> bool" where
  "pages_released k P s s' \<longleftrightarrow> pages_ok (without k s P) s' \<and>
     (\<forall>h \<in> page_heads. \<forall>i \<in> set (P h). pn_pid (pn s i) = k \<longrightarrow> pn_status (pn s' i) = PN_INACTIVE) \<and>
     (\<forall>j. bit_at (user_bitmap s') j \<longleftrightarrow> bit_at (user_bitmap s) j \<and> j \<notin> freed_u (pn s) (owned k s (P KPageHead @ P UMemHead))) \<and>
     (\<forall>j. bit_at (kernel_bitmap s') j \<longleftrightarrow> bit_at (kernel_bitmap s) j \<and> j \<notin> freed_k (pn s) (owned k s (P KPageHead @ P UMemHead)))"

lemma recycle_list:
  assumes "queues page_heads (\<lambda>h. map PN (P h)) (plinks s)" "h \<in> page_heads" "m \<Longrightarrow> \<forall>i \<in> set (P h). in_pool s i"
  obtains s' where "recycle_node_from_list p h m s = Some s'" "recycled m (owned (pid (pcbs s p)) s (P h)) s s'"
    "queues page_heads (\<lambda>g. map PN ((P(h := filter (\<lambda>i. pn_pid (pn s i) \<noteq> pid (pcbs s p)) (P h))) g)) (plinks s')"
proof -
  have "nxt (plinks s) h = Some (hd (map PN (P h) @ [h]))"
    using dll_first [OF queues_dll [OF assms(1,2)]] by simp
  moreover obtain s' where "recycle_loop (pid (pcbs s p)) h m (hd (map PN (P h) @ [h])) s = Some s'"
    "recycled m (owned (pid (pcbs s p)) s (P h)) s s'"
    "queues page_heads ((\<lambda>h. map PN (P h))(h := map PN (filter (\<lambda>i. pn_pid (pn s i) \<noteq> pid (pcbs s p)) (P h)))) (plinks s')"
    using recycle_loop_spec [OF assms(1,2), of "[]" "P h" m "pid (pcbs s p)"] assms(3) by auto
  moreover have "(\<lambda>h. map PN (P h))(h := map PN xs) = (\<lambda>g. map PN ((P(h := xs)) g))" for xs by auto
  ultimately show thesis using that [of s'] by (simp add: recycle_node_from_list_def)
qed

lemma owned_append: "owned k s (is @ js) = owned k s is \<union> owned k s js"
  by (auto simp: owned_def)

lemma recycled_status: "recycled m I s s' \<Longrightarrow> i \<in> I \<or> pn_status (pn s i) = PN_INACTIVE \<Longrightarrow> pn_status (pn s' i) = PN_INACTIVE"
  unfolding recycled_def by auto

lemma recycled_bits:
  assumes "recycled m I s s'"
  shows "bit_at (user_bitmap s') j \<longleftrightarrow> bit_at (user_bitmap s) j \<and> \<not> (m \<and> j \<in> freed_u (pn s) I)"
    "bit_at (kernel_bitmap s') j \<longleftrightarrow> bit_at (kernel_bitmap s) j \<and> \<not> (m \<and> j \<in> freed_k (pn s) I)"
  using assms unfolding recycled_def by auto

lemma recycled_lk:
  fixes s s' :: "('d, 'a) lkst_scheme"
  assumes "recycled m I s s'"
  shows "mlocks s' = mlocks s" "last_lockid s' = last_lockid s"
  using assms unfolding recycled_def by auto

lemma release_process_page_spec:
  fixes s :: "('d, 'a) lkst_scheme"
  assumes ok: "pages_ok P s" and k: "k = pid (pcbs s p)"
  obtains s' where "release_process_page p s = Some s'" "pages_released k P s s'"
    "pcbs s' = pcbs s" "qlinks s' = qlinks s" "cur s' = cur s" "hart s' = hart s"
    "mlocks s' = mlocks s" "last_lockid s' = last_lockid s"
proof -
  let ?f = "\<lambda>h. filter (\<lambda>i. pn_pid (pn s i) \<noteq> k) (P h)"
  have H: "KPageHead \<in> page_heads" "UMemHead \<in> page_heads" "USdHead \<in> page_heads" by (simp_all add: page_heads_def)
  have q: "queues page_heads (\<lambda>h. map PN (P h)) (plinks s)" "\<forall>i \<in> set (P KPageHead) \<union> set (P UMemHead). in_pool s i"
    using ok by (simp_all add: pages_ok_def)
  define P1 where "P1 = P(KPageHead := ?f KPageHead)"
  define P2 where "P2 = P1(UMemHead := ?f UMemHead)"
  define P3 where "P3 = P2(USdHead := ?f USdHead)"
  have P: "P1 UMemHead = P UMemHead" "P2 USdHead = P USdHead" by (simp_all add: P1_def P2_def)
  obtain s1 where s1: "recycle_node_from_list p KPageHead True s = Some s1" "recycled True (owned k s (P KPageHead)) s s1"
    "queues page_heads (\<lambda>g. map PN (P1 g)) (plinks s1)"
    using recycle_list [OF q(1) H(1), of True p] q(2) unfolding P1_def k by blast
  note f1 = recycled_fields [OF s1(2)]
  have k1: "pid (pcbs s1 p) = k" "(\<lambda>i. pn_pid (pn s1 i) \<noteq> k) = (\<lambda>i. pn_pid (pn s i) \<noteq> k)" using f1 k by simp_all
  obtain s2 where s2: "recycle_node_from_list p UMemHead True s1 = Some s2" "recycled True (owned k s1 (P UMemHead)) s1 s2"
    "queues page_heads (\<lambda>g. map PN (P2 g)) (plinks s2)"
  proof -
    have "\<forall>i \<in> set (P1 UMemHead). in_pool s1 i" using q(2) f1 P by simp
    then show ?thesis using recycle_list [OF s1(3) H(2), of True p] that unfolding k1 P P2_def by blast
  qed
  note f2 = recycled_fields [OF s2(2)]
  have k2: "pid (pcbs s2 p) = k" "(\<lambda>i. pn_pid (pn s2 i) \<noteq> k) = (\<lambda>i. pn_pid (pn s i) \<noteq> k)" using f1 f2 k by simp_all
  obtain s3 where s3: "recycle_node_from_list p USdHead False s2 = Some s3" "recycled False (owned k s2 (P USdHead)) s2 s3"
    "queues page_heads (\<lambda>g. map PN (P3 g)) (plinks s3)"
    using recycle_list [OF s2(3) H(3), of False p] unfolding k2 P P3_def by blast
  note f3 = recycled_fields [OF s3(2)]
  have o: "owned k s1 is = owned k s is" "owned k s2 is = owned k s is" for "is" using f1 f2 by (simp_all add: owned_def)
  have s12: "recycled True (owned k s (P KPageHead @ P UMemHead)) s s2"
    using recycled_trans [OF s1(2) s2(2)] unfolding o owned_append .
  have "queues page_heads (\<lambda>h. map PN (without k s P h)) (plinks s3)"
  proof -
    have "map PN (P3 g) = map PN (without k s P g)" if "g \<in> page_heads" for g
      using that by (auto simp: page_heads_def without_def P1_def P2_def P3_def)
    then show ?thesis using s3(3) unfolding queues_def by auto
  qed
  moreover have "in_pool s3 i = in_pool s i" for i using f1 f2 f3 by simp
  ultimately have ok': "pages_ok (without k s P) s3" using q(2) unfolding pages_ok_def by (auto simp: without_def)
  have st: "pn_status (pn s3 i) = PN_INACTIVE" if "h \<in> page_heads" "i \<in> set (P h)" "pn_pid (pn s i) = k" for h i
  proof (rule recycled_status [OF s3(2)])
    show "i \<in> owned k s2 (P USdHead) \<or> pn_status (pn s2 i) = PN_INACTIVE"
      using that recycled_status [OF s12, of i] unfolding o by (auto simp: owned_def page_heads_def)
  qed
  have "pages_released k P s s3"
    using ok' st recycled_bits [OF s12] recycled_bits [OF s3(2)] by (auto simp: pages_released_def)
  moreover have "release_process_page p s = Some s3" using s1(1) s2(1) s3(1) by (simp add: release_process_page_def)
  ultimately show thesis
    using that f1 f2 f3 recycled_lk [OF s1(2)] recycled_lk [OF s2(2)] recycled_lk [OF s3(2)] by simp
qed

section \<open>Releasing locks\<close>

text \<open>Nothing changed but that some blocked processes became ready.\<close>

definition woke :: "'a kst_scheme \<Rightarrow> 'a kst_scheme \<Rightarrow> bool" where
  "woke s s' \<longleftrightarrow> cur s' = cur s \<and> hart s' = hart s \<and> (\<forall>p. pcbs s' p = pcbs s p \<or>
     status (pcbs s p) = TASK_BLOCKED \<and> pcbs s' p = (pcbs s p)\<lparr>status := TASK_READY\<rparr>)"

lemma woke_trans: "woke s s1 \<Longrightarrow> woke s1 s2 \<Longrightarrow> woke s s2"
  unfolding woke_def by (metis pcb_t.surjective pcb_t.update_convs(6) pcb_t.select_convs(6) task_status_t.distinct(3))

lemma woke_same: "pcbs s' = pcbs s \<Longrightarrow> cur s' = cur s \<Longrightarrow> hart s' = hart s \<Longrightarrow> woke s s'"
  by (simp add: woke_def)

lemma wokeD:
  assumes "woke s s'"
  shows "cur s' = cur s" "hart s' = hart s" "current_running s' = current_running s"
    "pid (pcbs s' p) = pid (pcbs s p)" "pthread_id (pcbs s' p) = pthread_id (pcbs s p)"
    "status (pcbs s' p) = TASK_EXITED \<longleftrightarrow> status (pcbs s p) = TASK_EXITED"
    "status (pcbs s' p) = TASK_RUNNING \<longleftrightarrow> status (pcbs s p) = TASK_RUNNING"
proof -
  show "cur s' = cur s" "hart s' = hart s" "current_running s' = current_running s"
    using assms by (simp_all add: woke_def current_running_def)
  have "pcbs s' p = pcbs s p \<or> status (pcbs s p) = TASK_BLOCKED \<and> pcbs s' p = (pcbs s p)\<lparr>status := TASK_READY\<rparr>"
    using assms by (simp add: woke_def)
  then show "pid (pcbs s' p) = pid (pcbs s p)" "pthread_id (pcbs s' p) = pthread_id (pcbs s p)"
    "status (pcbs s' p) = TASK_EXITED \<longleftrightarrow> status (pcbs s p) = TASK_EXITED"
    "status (pcbs s' p) = TASK_RUNNING \<longleftrightarrow> status (pcbs s p) = TASK_RUNNING" by auto
qed

text \<open>A process in no queue keeps its list pointers.\<close>

definition keeps_idle :: "node set \<Rightarrow> (node \<Rightarrow> node list) \<Rightarrow> 'a kst_scheme \<Rightarrow> 'a kst_scheme \<Rightarrow> bool" where
  "keeps_idle H Q s s' \<longleftrightarrow> (\<forall>x. unqueued H Q x \<longrightarrow> nxt (qlinks s') x = nxt (qlinks s) x)"

lemma do_unblock_idle:
  assumes rel: "sched_rel H Q s" and h: "h \<in> H" "h \<noteq> ReadyQ" and n: "n \<in> set (Q h)" and s': "do_unblock n s = Some s'"
  shows "keeps_idle H Q s s'"
  unfolding keeps_idle_def
proof (intro allI impI)
  fix x assume x: "unqueued H Q x"
  note qs = sched_relD(1) [OF rel] and R = sched_relD(2) [OF rel]
  let ?Q = "Q(h := remove1 n (Q h))"
  obtain lk1 where lk1: "deq_node n (qlinks s) = Some lk1" "queues H ?Q lk1" "unqueued H ?Q n"
    using sq.queues_deq [OF qs h(1) n] .
  obtain p where p: "n = PcbNode p" using node_okD [OF sched_relD(5) [OF rel h(1) n]] by blast
  obtain lk2 where lk2: "enq_tail n ReadyQ lk1 = Some lk2" "qlinks s' = lk2"
    using s' lk1(1) p by (auto simp: do_unblock_def add_readyqueue_def Let_def bind_eq_Some_conv)
  have x': "unqueued H ?Q x" "x \<noteq> n" using x h n unqueued_remove [OF qs h(1) n] by (auto simp: unqueued_def)
  show "nxt (qlinks s') x = nxt (qlinks s) x"
    using sq.deq_other [OF qs h(1) n lk1(1) x] sq.enq_other [OF lk1(2) R lk1(3) lk2(1) x'] lk2(2) by simp
qed

lemma unblock_all_idle:
  assumes "sched_rel H Q s" "h \<in> H" "h \<noteq> ReadyQ" "unblock_all h s = Some s'"
  shows "keeps_idle H Q s s'"
  using assms
proof (induction "Q h" arbitrary: Q s)
  case Nil
  then have "nxt (qlinks s) h = Some h"
    using dll_first [OF queues_dll [OF sched_relD(1)]] by fastforce
  then show ?case using Nil by (simp add: unblock_all.simps keeps_idle_def)
next
  case (Cons n ns)
  have d: "dll (qlinks s) h (n # ns)"
    using queues_dll [OF sched_relD(1) [OF Cons.prems(1)] Cons.prems(2)] Cons.hyps(2) by simp
  then have nx: "nxt (qlinks s) h = Some n" "n \<noteq> h" using dll_first [OF d] by (auto simp: dll_def)
  have n: "n \<in> set (Q h)" "remove1 n (Q h) = ns" by (simp_all flip: Cons.hyps(2))
  let ?Q = "Q(h := remove1 n (Q h), ReadyQ := Q ReadyQ @ [n])"
  obtain lk where lk: "do_unblock n s = Some ((wake [n] s)\<lparr>qlinks := lk\<rparr>)" "sched_rel H ?Q ((wake [n] s)\<lparr>qlinks := lk\<rparr>)"
    using do_unblock_spec [OF Cons.prems(1-3) n(1)] .
  let ?s = "(wake [n] s)\<lparr>qlinks := lk\<rparr>"
  have "unblock_all h ?s = Some s'" using Cons.prems(4) nx lk(1) by (simp add: unblock_all.simps [of h s])
  then have "keeps_idle H ?Q ?s s'" using Cons.hyps(1) [of ?Q ?s] lk(2) n(2) Cons.prems(2,3) by simp
  moreover have "unqueued H Q x \<Longrightarrow> unqueued H ?Q x" for x
    using n(1) Cons.prems(2) notin_set_remove1 [of _ "Q h" n] by (auto simp: unqueued_def)
  ultimately show ?case using do_unblock_idle [OF Cons.prems(1-3) n(1) lk(1)] by (simp add: keeps_idle_def)
qed

lemma wake_all:
  assumes "at_rest H Q s" "q \<in> H" "q \<noteq> ReadyQ"
  obtains s' where "unblock_all q s = Some s'" "at_rest H (Q(q := [], ReadyQ := Q ReadyQ @ Q q)) s'"
    "woke s s'" "kst.more s' = kst.more s" "keeps_idle H Q s s'"
proof -
  have rel: "sched_rel H Q s" using assms(1) by (simp add: at_rest_def)
  obtain lk where lk: "unblock_all q s = Some ((wake (Q q) s)\<lparr>qlinks := lk\<rparr>)"
    using unblock_all_spec [OF rel assms(2,3)] by blast
  obtain s' where s': "unblock_all q s = Some s'" "at_rest H (Q(q := [], ReadyQ := Q ReadyQ @ Q q)) s'"
    using wake_queues [OF assms] by blast
  have "status (pcbs s p) = TASK_BLOCKED" if "PcbNode p \<in> set (Q q)" for p
    using queued_status [OF rel assms(2) that] assms(3) by simp
  then have "woke s s'" using lk s'(1) by (auto simp: woke_def)
  then show thesis using that s' lk unblock_all_idle [OF rel assms(2,3) s'(1)] by auto
qed

definition held :: "i32 \<Rightarrow> ('d, 'a) lkst_scheme \<Rightarrow> nat \<Rightarrow> bool" where
  "held k s l \<longleftrightarrow> ml_lock (mlocks s l) = LOCKED \<and> ml_pid (mlocks s l) = k"

text \<open>The queues after the locks \<open>ls\<close> of process \<open>k\<close> were released.\<close>

definition released_q :: "i32 \<Rightarrow> ('d, 'a) lkst_scheme \<Rightarrow> nat list \<Rightarrow> (node \<Rightarrow> node list) \<Rightarrow> (node \<Rightarrow> node list)" where
  "released_q k s ls Q = (\<lambda>q. if q = ReadyQ then Q ReadyQ @ concat (map (\<lambda>l. Q (MutexQ l)) (filter (held k s) ls))
     else if q \<in> MutexQ ` {l \<in> set ls. held k s l} then [] else Q q)"

definition released_locks :: "i32 \<Rightarrow> ('d, 'a) lkst_scheme \<Rightarrow> nat list \<Rightarrow> (nat \<Rightarrow> mutex_lock_t)" where
  "released_locks k s ls = (\<lambda>l. if l \<in> set ls \<and> held k s l then (mlocks s l)\<lparr>ml_lock := UNLOCKED, ml_pid := 0\<rparr> else mlocks s l)"

text \<open>The memory part of the state.\<close>

definition same_mm :: "('d, 'a) mmst_scheme \<Rightarrow> ('d, 'a) mmst_scheme \<Rightarrow> bool" where
  "same_mm s s' \<longleftrightarrow> pn s' = pn s \<and> plinks s' = plinks s \<and> user_bitmap s' = user_bitmap s \<and> kernel_bitmap s' = kernel_bitmap s"

lemma more_mm:
  fixes s s' :: "('d, 'a) mmst_scheme"
  assumes "kst.more s' = kst.more s"
  shows "same_mm s s'"
  using assms by (cases s, cases s') (simp add: same_mm_def)

lemma same_mm_trans: "same_mm s s1 \<Longrightarrow> same_mm s1 s2 \<Longrightarrow> same_mm s s2"
  by (simp add: same_mm_def)

lemma same_mm_mlock: "same_mm s (upd_mlock l f s)"
  by (simp add: same_mm_def upd_mlock_def)

lemma release_loop_spec:
  "at_rest H Q s \<Longrightarrow> distinct ls \<Longrightarrow> \<forall>l \<in> set ls. MutexQ l \<in> H \<Longrightarrow>
   \<exists>s'. release_loop k ls s = Some s' \<and> at_rest H (released_q k s ls Q) s' \<and> woke s s' \<and> same_mm s s' \<and>
     mlocks s' = released_locks k s ls \<and> last_lockid s' = last_lockid s \<and> keeps_idle H Q s s'"
proof (induction ls arbitrary: Q s)
  case Nil
  have "released_q k s [] Q = Q" by (auto simp: released_q_def)
  with Nil show ?case by (simp add: released_locks_def woke_def same_mm_def keeps_idle_def)
next
  case (Cons l ls)
  show ?case
  proof (cases "held k s l")
    case False
    then have "released_q k s (l # ls) Q = released_q k s ls Q" "released_locks k s (l # ls) = released_locks k s ls"
      by (auto simp: released_q_def released_locks_def fun_eq_iff)
    moreover have "release_loop k (l # ls) s = release_loop k ls s"
      using False unfolding held_def by auto
    ultimately show ?thesis using Cons.IH [OF Cons.prems(1)] Cons.prems(2,3) by simp
  next
    case True
    let ?s0 = "upd_mlock l (\<lambda>b. b\<lparr>ml_lock := UNLOCKED, ml_pid := 0\<rparr>) s"
    let ?Q1 = "Q(MutexQ l := [], ReadyQ := Q ReadyQ @ Q (MutexQ l))"
    have "at_rest H Q ?s0" by (rule at_rest_cong [OF Cons.prems(1)]) simp_all
    then obtain s1 where s1: "unblock_all (MutexQ l) ?s0 = Some s1" "at_rest H ?Q1 s1" "woke ?s0 s1" "kst.more s1 = kst.more ?s0"
      "keeps_idle H Q ?s0 s1"
      using wake_all [of H Q ?s0 "MutexQ l"] Cons.prems(3) by auto
    have m1: "mlocks s1 = (mlocks s)(l := (mlocks s l)\<lparr>ml_lock := UNLOCKED, ml_pid := 0\<rparr>)" "last_lockid s1 = last_lockid s"
      using more_fields(1,2) [OF s1(4)] by (simp_all add: upd_mlock_def)
    have h: "held k s1 j = held k s j" if "j \<in> set ls" for j
      using that Cons.prems(2) m1 by (auto simp: held_def)
    have w: "woke s s1" using s1(3) by (simp add: woke_def)
    have mm: "same_mm s s1" using same_mm_trans [OF same_mm_mlock more_mm [OF s1(4)]] .
    obtain s' where s': "release_loop k ls s1 = Some s'" "at_rest H (released_q k s1 ls ?Q1) s'" "woke s1 s'" "same_mm s1 s'"
      "mlocks s' = released_locks k s1 ls" "last_lockid s' = last_lockid s1" "keeps_idle H ?Q1 s1 s'"
    proof -
      have "distinct ls" "\<forall>l \<in> set ls. MutexQ l \<in> H" using Cons.prems(2,3) by simp_all
      from Cons.IH [OF s1(2) this] show ?thesis using that by blast
    qed
    have f: "filter (held k s1) ls = filter (held k s) ls" using h by (intro filter_cong) auto
    have l: "l \<notin> set ls" using Cons.prems(2) by simp
    have "concat (map (\<lambda>m. if m = l then [] else Q (MutexQ m)) (filter (held k s) ls)) = concat (map (\<lambda>l. Q (MutexQ l)) (filter (held k s) ls))"
      using l by (intro arg_cong [where f = concat] map_cong) auto
    then have "released_q k s1 ls ?Q1 = released_q k s (l # ls) Q"
      using True l h unfolding released_q_def f by (auto simp: fun_eq_iff)
    moreover have "released_locks k s1 ls = released_locks k s (l # ls)"
      using True l h m1 by (auto simp: released_locks_def fun_eq_iff)
    moreover have "keeps_idle H Q s s'"
      using s1(5) s'(7) Cons.prems(3) by (auto simp: keeps_idle_def unqueued_def)
    ultimately show ?thesis
      using True s1(1) s' w woke_trans same_mm_trans [OF mm] m1 by (auto simp: held_def)
  qed
qed

section \<open>Releasing a process\<close>

lemma pages_ok_cong: "same_mm s s' \<Longrightarrow> pages_ok P s' = pages_ok P s"
  by (simp add: same_mm_def pages_ok_def in_pool_def)

lemma pages_released_cong:
  assumes "same_mm s s1" "pages_released k P s1 s'"
  shows "pages_released k P s s'"
proof -
  have "without k s1 P = without k s P" "owned k s1 = owned k s"
    using assms(1) by (auto simp: same_mm_def without_def owned_def fun_eq_iff)
  then show ?thesis using assms by (simp add: pages_released_def same_mm_def)
qed

text \<open>The queues after process \<open>p\<close> with id \<open>k\<close> has let go of everything.\<close>

definition freed_q :: "i32 \<Rightarrow> pcbref \<Rightarrow> ('d, 'a) lkst_scheme \<Rightarrow> (node \<Rightarrow> node list) \<Rightarrow> (node \<Rightarrow> node list)" where
  "freed_q k p s Q = released_q k s [0..<last_lockid s] (Q(PcbBlockQ p := [], ReadyQ := Q ReadyQ @ Q (PcbBlockQ p)))"

lemma freed_q_simps:
  "freed_q k p s Q (PcbBlockQ p) = []"
  "set (freed_q k p s Q ReadyQ) = set (Q ReadyQ) \<union> set (Q (PcbBlockQ p)) \<union> (\<Union>l \<in> {l. l < last_lockid s \<and> held k s l}. set (Q (MutexQ l)))"
  by (auto simp: freed_q_def released_q_def)

lemma freed_q_unqueued:
  assumes "ReadyQ \<in> H" "PcbBlockQ p \<in> H" "\<forall>l < last_lockid s. MutexQ l \<in> H"
  shows "unqueued H (freed_q k p s Q) x \<longleftrightarrow> unqueued H Q x"
proof -
  have "(\<exists>q \<in> H. x \<in> set (freed_q k p s Q q)) \<longleftrightarrow> (\<exists>q \<in> H. x \<in> set (Q q))" (is "?l = ?r")
  proof
    assume ?l
    then obtain q where q: "q \<in> H" "x \<in> set (freed_q k p s Q q)" by blast
    show ?r
    proof (cases "q = ReadyQ")
      case True
      then show ?thesis using q(2) assms by (auto simp: freed_q_simps)
    next
      case False
      then have "x \<in> set (Q q)" using q(2) by (auto simp: freed_q_def released_q_def split: if_splits)
      then show ?thesis using q(1) by blast
    qed
  next
    assume ?r
    then obtain q where q: "q \<in> H" "x \<in> set (Q q)" by blast
    then have "x \<in> set (freed_q k p s Q ReadyQ) \<or> x \<in> set (freed_q k p s Q q)"
      by (auto simp: freed_q_def released_q_def)
    then show ?l using q(1) assms(1) by blast
  qed
  then show ?thesis by (auto simp: unqueued_def)
qed

lemma release_process_spec:
  fixes s :: "('d, 'a) lkst_scheme"
  assumes rest: "at_rest H Q s" and H: "PcbBlockQ p \<in> H" "\<forall>l < last_lockid s. MutexQ l \<in> H"
    and ok: "pages_ok P s" and k: "k = pid (pcbs s p)"
  obtains s' where "release_process p k s = Some (upd_pcb p (\<lambda>b. b\<lparr>status := TASK_EXITED\<rparr>) s')"
    "at_rest H (freed_q k p s Q) s'" "woke s s'" "mlocks s' = released_locks k s [0..<last_lockid s]"
    "last_lockid s' = last_lockid s" "keeps_idle H Q s s'"
    "if pthread_id (pcbs s p) = 0 then pages_released k P s s' else same_mm s s'"
proof -
  let ?Q1 = "Q(PcbBlockQ p := [], ReadyQ := Q ReadyQ @ Q (PcbBlockQ p))"
  obtain s1 where s1: "unblock_all (PcbBlockQ p) s = Some s1" "at_rest H ?Q1 s1" "woke s s1" "kst.more s1 = kst.more s"
    "keeps_idle H Q s s1"
    using wake_all [OF rest H(1)] by auto
  have m1: "mlocks s1 = mlocks s" "last_lockid s1 = last_lockid s" using more_fields(1,2) [OF s1(4)] by simp_all
  then have h: "held k s1 = held k s" by (simp add: held_def fun_eq_iff)
  obtain s2 where s2: "release_process_mutex k s1 = Some s2" "at_rest H (freed_q k p s Q) s2" "woke s1 s2" "same_mm s1 s2"
    "mlocks s2 = released_locks k s [0..<last_lockid s]" "last_lockid s2 = last_lockid s" "keeps_idle H ?Q1 s1 s2"
  proof -
    have e: "released_q k s1 ls = released_q k s ls" "released_locks k s1 ls = released_locks k s ls" for ls
      by (rule ext, simp add: released_q_def released_locks_def h m1(1))+
    have "distinct [0..<last_lockid s]" "\<forall>l \<in> set [0..<last_lockid s]. MutexQ l \<in> H" using H(2) by simp_all
    from release_loop_spec [OF s1(2) this, of k] obtain s2 where
      r: "release_loop k [0..<last_lockid s] s1 = Some s2" "at_rest H (released_q k s1 [0..<last_lockid s] ?Q1) s2"
      "woke s1 s2" "same_mm s1 s2" "mlocks s2 = released_locks k s1 [0..<last_lockid s]" "last_lockid s2 = last_lockid s1"
      "keeps_idle H ?Q1 s1 s2" by blast
    show ?thesis by (rule that [of s2]) (use r in \<open>simp_all only: e release_process_mutex_def freed_q_def m1\<close>)
  qed
  have mm: "same_mm s s2" using same_mm_trans [OF more_mm [OF s1(4)] s2(4)] .
  have w: "woke s s2" using woke_trans [OF s1(3) s2(3)] .
  have i2: "keeps_idle H Q s s2" using s1(5) s2(7) H(1) by (auto simp: keeps_idle_def unqueued_def)
  show thesis
  proof (cases "pthread_id (pcbs s p) = 0")
    case False
    then have "release_process p k s = Some (upd_pcb p (\<lambda>b. b\<lparr>status := TASK_EXITED\<rparr>) s2)"
      using s1(1) s2(1) wokeD(5) [OF w] by (simp add: release_process_def)
    then show ?thesis using that [of s2] s2 w i2 mm False by simp
  next
    case True
    have "pages_ok P s2" using pages_ok_cong [OF mm] ok by simp
    then obtain s3 where s3: "release_process_page p s2 = Some s3" "pages_released k P s2 s3"
      "pcbs s3 = pcbs s2" "qlinks s3 = qlinks s2" "cur s3 = cur s2" "hart s3 = hart s2"
      "mlocks s3 = mlocks s2" "last_lockid s3 = last_lockid s2"
      using release_process_page_spec [of P s2 k p] k wokeD(4) [OF w] by auto
    have "release_process p k s = Some (upd_pcb p (\<lambda>b. b\<lparr>status := TASK_EXITED\<rparr>) s3)"
      using True s1(1) s2(1) s3(1) wokeD(5) [OF w] by (simp add: release_process_def)
    moreover have "at_rest H (freed_q k p s Q) s3" using at_rest_cong [OF s2(2) s3(4,5,6,3)] .
    moreover have "woke s s3" "keeps_idle H Q s s3" using w i2 s3 by (simp_all add: woke_def keeps_idle_def)
    ultimately show ?thesis using that [of s3] s2 s3 True pages_released_cong [OF mm s3(2)] by simp
  qed
qed

section \<open>Exit\<close>

lemma at_rest_exited:
  assumes "at_rest H Q s" "unqueued H Q (PcbNode p)"
  shows "at_rest H Q (upd_pcb p (\<lambda>b. b\<lparr>status := TASK_EXITED\<rparr>) s)"
proof -
  let ?s = "upd_pcb p (\<lambda>b. b\<lparr>status := TASK_EXITED\<rparr>) s"
  have rel: "sched_rel H Q s" using assms(1) by (simp add: at_rest_def)
  have "sched_rel H Q ?s"
  proof (rule sched_relI [OF rel])
    fix h n assume h: "h \<in> H" "n \<in> set (Q h)"
    then have "n \<noteq> PcbNode p" using assms(2) by (auto simp: unqueued_def)
    then show "node_ok (\<lambda>p. status (pcbs ?s p)) h n"
      by (intro node_ok_cong [OF sched_relD(5) [OF rel h]]) auto
  qed (use rel sched_relD [OF rel] in \<open>auto simp: unqueued_def\<close>)
  then show ?thesis using assms(1) by (auto simp: at_rest_def run_ok_def)
qed

text \<open>A process in the ready queue is ready or running after a scheduling decision.\<close>

lemma sched_post_ready:
  assumes "sched_rel H Q s" "sched_post H Q s s'" "PcbNode p \<in> set (Q ReadyQ)" "\<forall>i. current_running s = Pcb i \<longrightarrow> i < NUM_MAX_TASK"
  shows "status (pcbs s' p) = TASK_READY \<or> status (pcbs s' p) = TASK_RUNNING"
proof -
  have R: "ReadyQ \<in> H" by (rule sched_relD(2) [OF assms(1)])
  have m: "PcbNode p \<in> set (run_list Q s)" using assms(3) by (simp add: run_list_def)
  show ?thesis
  proof (cases rule: find_ready_cases [OF run_list_nodes [OF assms(1,4)], of "elig s"])
    case 1
    then have "sched_rel H (Q(SleepQ := still_asleep Q s, ReadyQ := run_list Q s)) s'" using assms(2) by (simp add: sched_post_def)
    from queued_status [OF this R, of p] m show ?thesis by simp
  next
    case (2 j)
    then have r: "sched_rel H (Q(SleepQ := still_asleep Q s, ReadyQ := remove1 (PcbNode (Pcb j)) (run_list Q s))) s'"
      "status (pcbs s' (Pcb j)) = TASK_RUNNING" using assms(2) by (simp_all add: sched_post_def)
    show ?thesis
    proof (cases "p = Pcb j")
      case False
      then have "PcbNode p \<in> set (remove1 (PcbNode (Pcb j)) (run_list Q s))" using m by simp
      with queued_status [OF r(1) R, of p] show ?thesis by simp
    qed (use r in simp)
  qed
qed

lemma exit_releases:
  fixes s :: "('d, 'a) lkst_scheme"
  assumes rest: "at_rest H Q s" and i: "current_running s = Pcb i" and H: "PcbBlockQ (Pcb i) \<in> H" "\<forall>l < last_lockid s. MutexQ l \<in> H"
    and ok: "pages_ok P s" and k: "k = pid (pcbs s (Pcb i))"
  shows "\<exists>s' Q'. do_exit s = Some s' \<and> at_rest H Q' s' \<and>
    status (pcbs s' (Pcb i)) = TASK_EXITED \<and> unqueued H Q' (PcbNode (Pcb i)) \<and> Q' (PcbBlockQ (Pcb i)) = [] \<and>
    (\<forall>p. PcbNode p \<in> set (Q (PcbBlockQ (Pcb i))) \<union> (\<Union>l \<in> {l. l < last_lockid s \<and> held k s l}. set (Q (MutexQ l))) \<longrightarrow>
      status (pcbs s' p) = TASK_READY \<or> status (pcbs s' p) = TASK_RUNNING) \<and>
    mlocks s' = released_locks k s [0..<last_lockid s] \<and> (\<forall>l < last_lockid s. \<not> held k s' l) \<and>
    (if pthread_id (pcbs s (Pcb i)) = 0 then pages_released k P s s' else same_mm s s')"
proof -
  obtain s1 where s1: "release_process (Pcb i) k s = Some (upd_pcb (Pcb i) (\<lambda>b. b\<lparr>status := TASK_EXITED\<rparr>) s1)"
    "at_rest H (freed_q k (Pcb i) s Q) s1" "woke s s1" "mlocks s1 = released_locks k s [0..<last_lockid s]"
    "last_lockid s1 = last_lockid s" "keeps_idle H Q s s1"
    "if pthread_id (pcbs s (Pcb i)) = 0 then pages_released k P s s1 else same_mm s s1"
    using release_process_spec [OF rest H ok k] .
  let ?s1 = "upd_pcb (Pcb i) (\<lambda>b. b\<lparr>status := TASK_EXITED\<rparr>) s1" and ?Q = "freed_q k (Pcb i) s Q"
  have R: "ReadyQ \<in> H" using rest sched_relD(2) by (auto simp: at_rest_def)
  have "unqueued H Q (PcbNode (Pcb i))" using rest i by (simp add: at_rest_def)
  then have u: "unqueued H ?Q (PcbNode (Pcb i))" using freed_q_unqueued [OF R H] by simp
  have rest1: "at_rest H ?Q ?s1" by (rule at_rest_exited [OF s1(2) u])
  then have r1: "sched_rel H ?Q ?s1" "run_ok H ?Q ?s1" by (simp_all add: at_rest_def)
  obtain s' where s': "do_scheduler ?s1 = Some s'" "sched_post H ?Q ?s1 s'" "rest_inv H s'"
    using sched_post_exists [OF r1] .
  obtain Q' where Q': "at_rest H Q' s'" "other_queues ?Q Q'" "same_procs ?s1 s'"
    using sched_post_queues [OF s'(2,3)] .
  have st: "status (pcbs s' (Pcb i)) = TASK_EXITED" using s'(2) by (simp add: sched_post_def status_step_def)
  have uq: "unqueued H Q' (PcbNode (Pcb i))"
  proof -
    have rel: "sched_rel H Q' s'" using Q'(1) by (simp add: at_rest_def)
    have "PcbNode (Pcb i) \<notin> set (Q' h)" if "h \<in> H" for h
      using queued_status [OF rel that, of "Pcb i"] st by (auto split: if_splits)
    then show ?thesis using sched_relD(4) [OF rel] by (simp add: unqueued_def)
  qed
  have "Q' (PcbBlockQ (Pcb i)) = []" using Q'(2) freed_q_simps(1) [of k "Pcb i" s Q] by (simp add: other_queues_def)
  moreover have "status (pcbs s' p) = TASK_READY \<or> status (pcbs s' p) = TASK_RUNNING"
    if "PcbNode p \<in> set (Q (PcbBlockQ (Pcb i))) \<union> (\<Union>l \<in> {l. l < last_lockid s \<and> held k s l}. set (Q (MutexQ l)))" for p
    by (rule sched_post_ready [OF r1(1) s'(2)]) (use that r1(2) in \<open>auto simp: freed_q_simps run_ok_def current_running_def\<close>)
  moreover have m: "mlocks s' = released_locks k s [0..<last_lockid s]" "same_mm s1 s'"
    using s1(4) more_fields(1) [of s' ?s1] more_mm [of s' ?s1] Q'(3) by (simp_all add: same_procs_def same_mm_def upd_pcb_def)
  moreover have "\<not> held k s' l" if "l < last_lockid s" for l
    using that m(1) by (auto simp: held_def released_locks_def split: if_splits)
  moreover have "if pthread_id (pcbs s (Pcb i)) = 0 then pages_released k P s s' else same_mm s s'"
    using s1(7) m(2) pages_ok_cong [OF m(2)] same_mm_trans [of s s1 s'] by (auto simp: pages_released_def same_mm_def split: if_splits)
  moreover have "do_exit s = Some s'" using s1(1) s'(1) i k by (simp add: do_exit_def)
  ultimately show ?thesis using Q'(1) st uq by blast
qed


section \<open>Kill\<close>

text \<open>A process in no queue has a NULL list pointer: the test of \<^verbatim>\<open>remove_pcb_queue\<close> is right.\<close>

definition idle_null :: "node set \<Rightarrow> (node \<Rightarrow> node list) \<Rightarrow> 'a kst_scheme \<Rightarrow> bool" where
  "idle_null H Q s \<longleftrightarrow> (\<forall>p. unqueued H Q (PcbNode p) \<longrightarrow> nxt (qlinks s) (PcbNode p) = None)"

lemma remove_exited:
  assumes rest: "at_rest H Q s" and null: "idle_null H Q s" and p: "p \<noteq> current_running s"
  obtains s' Q' where "remove_pcb_queue p (upd_pcb p (\<lambda>b. b\<lparr>status := TASK_EXITED\<rparr>) s) = Some s'" "at_rest H Q' s'" "idle_null H Q' s'"
    "unqueued H Q' (PcbNode p)" "\<And>x. unqueued H Q x \<Longrightarrow> unqueued H Q' x"
    "pcbs s' = (pcbs s)(p := (pcbs s p)\<lparr>status := TASK_EXITED\<rparr>)" "cur s' = cur s" "hart s' = hart s" "kst.more s' = kst.more s"
proof (cases "unqueued H Q (PcbNode p)")
  case True
  let ?s1 = "upd_pcb p (\<lambda>b. b\<lparr>status := TASK_EXITED\<rparr>) s"
  have "remove_pcb_queue p ?s1 = Some ?s1" using True null by (simp add: remove_pcb_queue_def idle_null_def)
  moreover have "idle_null H Q ?s1" using null by (simp add: idle_null_def)
  ultimately show thesis
    using that [of ?s1 Q] at_rest_exited [OF rest True] True by (simp add: upd_pcb_def)
next
  case False
  let ?n = "PcbNode p" and ?s1 = "upd_pcb p (\<lambda>b. b\<lparr>status := TASK_EXITED\<rparr>) s"
  have rel: "sched_rel H Q s" using rest by (simp add: at_rest_def)
  note qs = sched_relD(1) [OF rel]
  obtain h where h: "h \<in> H" "?n \<in> set (Q h)" using False sched_relD(4) [OF rel] by (auto simp: unqueued_def)
  let ?Q = "Q(h := remove1 ?n (Q h))"
  obtain lk where lk: "deq_node ?n (qlinks s) = Some lk" "queues H ?Q lk" "unqueued H ?Q ?n" "nxt lk ?n = None"
    using sq.queues_deq [OF qs h] by blast
  note uq = unqueued_remove [OF qs h]
  have "dll (qlinks s) h (Q h)" using queues_dll [OF qs h(1)] .
  moreover obtain xs ys where "Q h = xs @ ?n # ys" using split_list [OF h(2)] by blast
  ultimately have "nxt (qlinks s) ?n \<noteq> None" using dll_next_mem by fastforce
  then have r: "remove_pcb_queue p ?s1 = Some (?s1\<lparr>qlinks := lk\<rparr>)" using lk(1) by (auto simp: remove_pcb_queue_def)
  have "sched_rel H ?Q (?s1\<lparr>qlinks := lk\<rparr>)"
  proof (rule sched_relI [OF rel])
    fix g n assume g: "g \<in> H" "n \<in> set (?Q g)"
    then have "n \<noteq> ?n" using lk(3) by (auto simp: unqueued_def)
    moreover have "n \<in> set (Q g)" using g set_remove1_subset [of ?n "Q h"] by (auto split: if_splits)
    ultimately show "node_ok (\<lambda>p. status (pcbs (?s1\<lparr>qlinks := lk\<rparr>) p)) g n"
      by (intro node_ok_cong [OF sched_relD(5) [OF rel g(1)]]) auto
  qed (use lk(2) sched_relD [OF rel] uq in auto)
  then have "at_rest H ?Q (?s1\<lparr>qlinks := lk\<rparr>)"
    using rest uq unfolding at_rest_def run_ok_def by (auto simp: current_running_def)
  moreover have "idle_null H ?Q (?s1\<lparr>qlinks := lk\<rparr>)"
    using null uq lk(4) sq.deq_other [OF qs h lk(1)] by (auto simp: idle_null_def)
  ultimately show thesis
    using that [OF r] lk(3) uq by (simp add: upd_pcb_def)
qed

lemma kill_one:
  fixes s :: "('d, 'a) lkst_scheme"
  assumes rest: "at_rest H Q s" and null: "idle_null H Q s" and p: "p \<noteq> current_running s"
    and H: "PcbBlockQ p \<in> H" "\<forall>l < last_lockid s. MutexQ l \<in> H" and ok: "pages_ok P s" and k: "k = pid (pcbs s p)"
  obtains s' Q' P' where "Option.bind (release_process p k s) (remove_pcb_queue p) = Some s'" "at_rest H Q' s'" "idle_null H Q' s'"
    "pages_ok P' s'" "unqueued H Q' (PcbNode p)" "\<And>x. unqueued H Q x \<Longrightarrow> unqueued H Q' x" "last_lockid s' = last_lockid s"
    "mlocks s' = released_locks k s [0..<last_lockid s]" "current_running s' = current_running s"
    "\<And>q. pid (pcbs s' q) = pid (pcbs s q)" "\<And>q. status (pcbs s' q) = TASK_EXITED \<longleftrightarrow> q = p \<or> status (pcbs s q) = TASK_EXITED"
proof -
  obtain s1 where s1: "release_process p k s = Some (upd_pcb p (\<lambda>b. b\<lparr>status := TASK_EXITED\<rparr>) s1)"
    "at_rest H (freed_q k p s Q) s1" "woke s s1" "mlocks s1 = released_locks k s [0..<last_lockid s]"
    "last_lockid s1 = last_lockid s" "keeps_idle H Q s s1"
    "if pthread_id (pcbs s p) = 0 then pages_released k P s s1 else same_mm s s1"
    using release_process_spec [OF rest H ok k] .
  have R: "ReadyQ \<in> H" using rest sched_relD(2) by (auto simp: at_rest_def)
  note uq = freed_q_unqueued [OF R H, of k Q]
  note w = wokeD [OF s1(3)]
  have n1: "idle_null H (freed_q k p s Q) s1" using null s1(6) uq by (simp add: idle_null_def keeps_idle_def)
  have "p \<noteq> current_running s1" using p w(3) by simp
  then obtain s' Q' where s': "remove_pcb_queue p (upd_pcb p (\<lambda>b. b\<lparr>status := TASK_EXITED\<rparr>) s1) = Some s'" "at_rest H Q' s'"
    "idle_null H Q' s'" "unqueued H Q' (PcbNode p)" "\<And>x. unqueued H (freed_q k p s Q) x \<Longrightarrow> unqueued H Q' x"
    "pcbs s' = (pcbs s1)(p := (pcbs s1 p)\<lparr>status := TASK_EXITED\<rparr>)" "cur s' = cur s1" "hart s' = hart s1" "kst.more s' = kst.more s1"
    using remove_exited [OF s1(2) n1] by metis
  obtain P' where "pages_ok P' s1"
    using s1(7) ok pages_ok_cong [of s s1 P] by (auto simp: pages_released_def split: if_splits)
  then have P': "pages_ok P' s'" using pages_ok_cong [OF more_mm [OF s'(9)]] by simp
  show thesis
    by (rule that [OF _ s'(2,3) P' s'(4)])
      (use s1 s' w uq more_fields(1,2) [OF s'(9)] in \<open>auto simp: current_running_def\<close>)
qed

definition live :: "i32 \<Rightarrow> 'a kst_scheme \<Rightarrow> nat set" where
  "live k s = {j. j < NUM_MAX_TASK \<and> pid (pcbs s (Pcb j)) = k \<and> status (pcbs s (Pcb j)) \<noteq> TASK_EXITED}"

lemma finite_live [simp]: "finite (live k s)"
  by (rule finite_subset [of _ "{..<NUM_MAX_TASK}"]) (auto simp: live_def)

lemma pid_to_pcb_id_cases:
  "pid_to_pcb_id k s = None \<longleftrightarrow> live k s = {}" "pid_to_pcb_id k s = Some i \<Longrightarrow> i \<in> live k s"
  by (auto simp: pid_to_pcb_id_def live_def first_idx_None_iff first_idx_Some_iff)

lemma kill_all:
  fixes s :: "('d, 'a) lkst_scheme"
  assumes "at_rest H Q s" "idle_null H Q s" "pid (pcbs s (current_running s)) \<noteq> k"
    and "\<forall>j \<in> live k s. PcbBlockQ (Pcb j) \<in> H" "\<forall>l < last_lockid s. MutexQ l \<in> H" "pages_ok P s"
  shows "\<exists>s' Q'. do_kill k s = Some (Some 1, s') \<and> at_rest H Q' s' \<and> live k s' = {} \<and>
    (\<forall>j \<in> live k s. unqueued H Q' (PcbNode (Pcb j))) \<and> (\<forall>x. unqueued H Q x \<longrightarrow> unqueued H Q' x) \<and>
    (\<forall>q. pid (pcbs s' q) = pid (pcbs s q)) \<and>
    (\<forall>q. status (pcbs s' q) = TASK_EXITED \<longleftrightarrow> status (pcbs s q) = TASK_EXITED \<or> q \<in> Pcb ` live k s) \<and>
    current_running s' = current_running s \<and>
    mlocks s' = (if live k s = {} then mlocks s else released_locks k s [0..<last_lockid s])"
  using assms
proof (induction "card (live k s)" arbitrary: s Q P rule: less_induct)
  case less
  show ?case
  proof (cases "pid_to_pcb_id k s")
    case None
    then have "do_kill k s = Some (Some 1, s)" by (simp add: do_kill.simps)
    then show ?thesis using None less.prems(1) pid_to_pcb_id_cases(1) [of k s] by auto
  next
    case (Some i)
    have i: "i \<in> live k s" by (rule pid_to_pcb_id_cases(2) [OF Some])
    then have k: "k = pid (pcbs s (Pcb i))" by (simp add: live_def)
    then have ne: "Pcb i \<noteq> current_running s" using less.prems(3) by auto
    have hb: "PcbBlockQ (Pcb i) \<in> H" using less.prems(4) i by blast
    obtain s1 Q1 P1 where s1: "Option.bind (release_process (Pcb i) k s) (remove_pcb_queue (Pcb i)) = Some s1" "at_rest H Q1 s1"
      "idle_null H Q1 s1" "pages_ok P1 s1" "unqueued H Q1 (PcbNode (Pcb i))" "\<And>x. unqueued H Q x \<Longrightarrow> unqueued H Q1 x"
      "last_lockid s1 = last_lockid s" "mlocks s1 = released_locks k s [0..<last_lockid s]" "current_running s1 = current_running s"
      "\<And>q. pid (pcbs s1 q) = pid (pcbs s q)" "\<And>q. status (pcbs s1 q) = TASK_EXITED \<longleftrightarrow> q = Pcb i \<or> status (pcbs s q) = TASK_EXITED"
      using kill_one [OF less.prems(1,2) ne hb less.prems(5,6) k] by metis
    have l1: "live k s1 = live k s - {i}" using s1(10,11) by (auto simp: live_def)
    have "card (live k s1) < card (live k s)" unfolding l1 using i by (intro card_Diff1_less) auto
    then obtain s' Q' where s': "do_kill k s1 = Some (Some 1, s')" "at_rest H Q' s'" "live k s' = {}"
      "\<forall>j \<in> live k s1. unqueued H Q' (PcbNode (Pcb j))" "\<forall>x. unqueued H Q1 x \<longrightarrow> unqueued H Q' x"
      "\<forall>q. pid (pcbs s' q) = pid (pcbs s1 q)"
      "\<forall>q. status (pcbs s' q) = TASK_EXITED \<longleftrightarrow> status (pcbs s1 q) = TASK_EXITED \<or> q \<in> Pcb ` live k s1"
      "current_running s' = current_running s1"
      "mlocks s' = (if live k s1 = {} then mlocks s1 else released_locks k s1 [0..<last_lockid s1])"
      using less.hyps [of s1 Q1 P1] s1(2-4,7,9,10) less.prems(3-5) l1 by auto
    have rl: "released_locks k s1 [0..<last_lockid s1] = mlocks s1"
      unfolding released_locks_def by (rule ext) (simp add: s1(7,8) released_locks_def held_def)
    have "do_kill k s = Some (Some 1, s')"
      using Some ne s1(1) s'(1) by (subst do_kill.simps) (auto simp: bind_eq_Some_conv)
    moreover have "mlocks s' = released_locks k s [0..<last_lockid s]" using s'(9) rl s1(8) by simp
    moreover have "\<forall>j \<in> live k s. unqueued H Q' (PcbNode (Pcb j))" using s'(4,5) s1(5) l1 by auto
    ultimately show ?thesis using s'(2,3,5-8) s1(6,9-11) i l1 by (intro exI [of _ s'] exI [of _ Q']) auto
  qed
qed

text \<open>
  C30: Killing a process id other than the caller's ends: \<^verbatim>\<open>do_kill\<close> returns 1 after finitely many rounds,
  every thread of the process is EXITED and in no queue, no other process is ended, the locks of the
  process are free and all others unchanged, and the caller is still the current process.
\<close>

theorem do_kill_ends:
  fixes s :: "('d, 'a) lkst_scheme"
  assumes "at_rest H Q s" "idle_null H Q s" "pid (pcbs s (current_running s)) \<noteq> k"
    and "\<forall>j \<in> live k s. PcbBlockQ (Pcb j) \<in> H" "\<forall>l < last_lockid s. MutexQ l \<in> H" "pages_ok P s"
  shows "\<exists>s' Q'. do_kill k s = Some (Some 1, s') \<and> at_rest H Q' s' \<and> current_running s' = current_running s \<and> live k s' = {} \<and>
    (\<forall>j \<in> live k s. status (pcbs s' (Pcb j)) = TASK_EXITED \<and> unqueued H Q' (PcbNode (Pcb j))) \<and>
    (\<forall>q. pid (pcbs s q) \<noteq> k \<longrightarrow> (status (pcbs s' q) = TASK_EXITED \<longleftrightarrow> status (pcbs s q) = TASK_EXITED)) \<and>
    mlocks s' = (if live k s = {} then mlocks s else released_locks k s [0..<last_lockid s])"
proof -
  obtain s' Q' where s': "do_kill k s = Some (Some 1, s')" "at_rest H Q' s'" "live k s' = {}"
    "\<forall>j \<in> live k s. unqueued H Q' (PcbNode (Pcb j))"
    "\<forall>q. status (pcbs s' q) = TASK_EXITED \<longleftrightarrow> status (pcbs s q) = TASK_EXITED \<or> q \<in> Pcb ` live k s"
    "current_running s' = current_running s"
    "mlocks s' = (if live k s = {} then mlocks s else released_locks k s [0..<last_lockid s])"
    using kill_all [OF assms] by blast
  moreover have "q \<notin> Pcb ` live k s" if "pid (pcbs s q) \<noteq> k" for q using that by (auto simp: live_def)
  ultimately show ?thesis by blast
qed

section \<open>Waiting for a process\<close>

lemma do_waitpid_spec:
  assumes "at_rest H Q s" "current_running s = Pcb w" "pid_to_pcb_id k s = Some i" "PcbBlockQ (Pcb i) \<in> H"
  obtains s' Q' where "do_waitpid k s = Some (int i, s')" "at_rest H Q' s'"
    "Q' (PcbBlockQ (Pcb i)) = Q (PcbBlockQ (Pcb i)) @ [PcbNode (Pcb w)]" "lk_frame s s'"
proof -
  obtain s1 s' Q' where s': "do_block (PcbNode (Pcb w)) (PcbBlockQ (Pcb i)) s = Some s1" "do_scheduler s1 = Some s'"
    "at_rest H Q' s'" "other_queues (Q(PcbBlockQ (Pcb i) := Q (PcbBlockQ (Pcb i)) @ [PcbNode (Pcb w)])) Q'" "lk_frame s s'"
    using wait_queues [OF assms(1,2,4)] by blast
  then have "do_waitpid k s = Some (int i, s')"
    using assms(2,3) by (simp add: do_waitpid_def pid_to_pcb_id_def)
  then show thesis using that s' by (simp add: other_queues_def)
qed


section \<open>The concrete state\<close>

lemma demo_lk_pages: "pages_ok (\<lambda>h. if h = UMemHead then [0] else []) demo_lk"
proof -
  have "(\<lambda>h. map PN (if h = UMemHead then [0] else [])) = demo_PQ" by (auto simp: demo_PQ_def)
  then have "queues page_heads (\<lambda>h. map PN (if h = UMemHead then [0] else [])) (plinks demo_lk)"
    using demo_resident by (simp add: resident_def demo_lk_def)
  moreover have "in_pool demo_lk 0" by (simp add: in_pool_def uidx_def demo_lk_def demo_mm_def USER_MEM_BASE_def)
  ultimately show ?thesis by (auto simp: pages_ok_def)
qed

lemma demo_lk_idle: "idle_null demo_heads demo_Q demo_lk"
proof -
  have "nxt (qlinks demo_lk) (PcbNode p) = None" if "unqueued demo_heads demo_Q (PcbNode p)" for p
    using that by (cases p) (auto simp: demo_unqueued demo_lk_def demo_nxt_def)
  then show ?thesis by (simp add: idle_null_def)
qed

lemma demo_lk_ready: "PcbBlockQ p \<in> demo_heads" "\<forall>l < last_lockid demo_lk. MutexQ l \<in> demo_heads"
  by (auto simp: demo_heads_def)

lemma demo_lk_live: "live 3 demo_lk = {2}" "pid_to_pcb_id 2 demo_lk = Some 1" "pid (pcbs demo_lk (Pcb 0)) = 1"
proof -
  show "live 3 demo_lk = {2}"
    by (auto simp: live_def demo_lk_def demo_pcbs_def demo_pcb_def NUM_MAX_TASK_def)
  show "pid_to_pcb_id 2 demo_lk = Some 1"
    by (auto simp: pid_to_pcb_id_def first_idx_Some_iff demo_lk_def demo_pcbs_def demo_pcb_def NUM_MAX_TASK_def)
qed (simp add: demo_lk_def demo_pcbs_def demo_pcb_def)


theorem do_kill_ends_witness:
  "\<exists>s' Q'. do_kill 3 demo_lk = Some (Some 1, s') \<and> current_running s' = Pcb 0 \<and>
    status (pcbs s' (Pcb 2)) = TASK_EXITED \<and> unqueued demo_heads Q' (PcbNode (Pcb 2))"
proof -
  have "pid (pcbs demo_lk (current_running demo_lk)) \<noteq> 3" using demo_lk_live(3) demo_lk_rest(2) by simp
  from do_kill_ends [OF demo_lk_rest(1) demo_lk_idle this _ demo_lk_ready(2) demo_lk_pages] demo_lk_ready(1) demo_lk_rest(2)
  show ?thesis unfolding demo_lk_live by auto
qed


end
