(* ===== verification/Malloc.thy ===== *)
theory Malloc
  imports Swap
begin

text \<open>
  The user heap: \<^verbatim>\<open>malloc\<close>, \<^verbatim>\<open>free\<close> and \<^verbatim>\<open>morecore\<close> of src/tiny_libc/malloc.c on top of \<^verbatim>\<open>do_sbrk\<close> of
  src/kernel/mm/mm.c. The heap is a typed memory of \<^verbatim>\<open>Header\<close> objects at byte addresses
  (\<^verbatim>\<open>sizeof(Header)\<close> is 16); the linker's address of \<^verbatim>\<open>base\<close> is a parameter.

  The free list is a ring in address order through \<^verbatim>\<open>base\<close>, and neighbouring free blocks are always
  joined (\<open>heap_ok\<close>). Against the set of free bytes, \<^verbatim>\<open>malloc\<close> takes a block out of the set and \<^verbatim>\<open>free\<close>
  puts it back; the blocks a client holds never overlap, whatever it stores in them.
\<close>

section \<open>The program\<close>

record header =
  h_ptr :: u64
  h_size :: u64

record heap =
  hdr :: "u64 \<Rightarrow> header"
  freep :: u64

definition upd_hdr :: "u64 \<Rightarrow> (header \<Rightarrow> header) \<Rightarrow> heap \<Rightarrow> heap" where
  "upd_hdr a f h = h\<lparr>hdr := (hdr h)(a := f (hdr h a))\<rparr>"

text \<open>The search of \<^verbatim>\<open>free\<close> for the list element below \<open>bp\<close>; on a damaged list it may not end.\<close>

partial_function (option) free_search :: "(u64 \<Rightarrow> header) \<Rightarrow> u64 \<Rightarrow> u64 \<Rightarrow> u64 option" where
  "free_search m bp p =
     (if p < bp \<and> bp < h_ptr (m p) then Some p
      else if h_ptr (m p) \<le> p \<and> (p < bp \<or> bp < h_ptr (m p)) then Some p
      else free_search m bp (h_ptr (m p)))"

text \<open>
  \<^verbatim>\<open>free\<close> links twice, the freed block to the list behind it and the element found to the freed block,
  with the same statements: a block that ends where the next one starts takes it in.
\<close>

definition join_next :: "u64 \<Rightarrow> u64 \<Rightarrow> heap \<Rightarrow> heap" where
  "join_next a q h =
     (if a + 16 * h_size (hdr h a) = q
      then upd_hdr a (\<lambda>b. b\<lparr>h_size := h_size b + h_size (hdr h q), h_ptr := h_ptr (hdr h q)\<rparr>) h
      else upd_hdr a (\<lambda>b. b\<lparr>h_ptr := q\<rparr>) h)"

definition free :: "u64 \<Rightarrow> heap \<Rightarrow> heap option" where
  "free ap h = do {
     let bp = ap - 16;
     c_assert (freep h \<noteq> 0);
     p \<leftarrow> free_search (hdr h) bp (freep h);
     Some ((join_next p bp (join_next bp (h_ptr (hdr h p)) h))\<lparr>freep := p\<rparr>) }"

text \<open>The number of units \<^verbatim>\<open>morecore\<close> asks for.\<close>

definition core_units :: "u64 \<Rightarrow> u64" where
  "core_units nu = (if nu < 4096 then 4096 else nu)"

definition morecore :: "u64 \<Rightarrow> heap \<Rightarrow> ('d, 'a) mmst_scheme \<Rightarrow> (u64 \<times> heap \<times> ('d, 'a) mmst_scheme) option" where
  "morecore nu0 h s = (let nu = core_units nu0; (p, s1) = do_sbrk (nu * 16) s in
     if p = - 1 then Some (0, h, s1)
     else do {
       h1 \<leftarrow> free (p + 16) (upd_hdr p (\<lambda>b. b\<lparr>h_size := nu\<rparr>) h);
       Some (freep h1, h1, s1) })"

text \<open>Handing out \<open>nunits\<close> units of the block at \<open>p\<close>: the whole block or its upper end.\<close>

definition take_block :: "u64 \<Rightarrow> u64 \<Rightarrow> u64 \<Rightarrow> heap \<Rightarrow> u64 \<times> heap" where
  "take_block nunits prevp p h =
     (if h_size (hdr h p) = nunits
      then (p + 16, (upd_hdr prevp (\<lambda>b. b\<lparr>h_ptr := h_ptr (hdr h p)\<rparr>) h)\<lparr>freep := prevp\<rparr>)
      else (let h1 = upd_hdr p (\<lambda>b. b\<lparr>h_size := h_size b - nunits\<rparr>) h; p' = p + 16 * h_size (hdr h1 p)
            in (p' + 16, (upd_hdr p' (\<lambda>b. b\<lparr>h_size := nunits\<rparr>) h1)\<lparr>freep := prevp\<rparr>)))"

partial_function (option) malloc_loop ::
  "u64 \<Rightarrow> u64 \<Rightarrow> u64 \<Rightarrow> heap \<Rightarrow> ('d, 'a) mmst_scheme \<Rightarrow> (u64 \<times> heap \<times> ('d, 'a) mmst_scheme) option" where
  "malloc_loop nunits prevp p h s =
     (if nunits \<le> h_size (hdr h p) then (case take_block nunits prevp p h of (r, h') \<Rightarrow> Some (r, h', s))
      else if p = freep h then
        Option.bind (morecore nunits h s) (\<lambda>(p', h', s').
          if p' = 0 then Some (0, h', s') else malloc_loop nunits p' (h_ptr (hdr h' p')) h' s')
      else malloc_loop nunits p (h_ptr (hdr h p)) h s)"

definition nunits_of :: "u64 \<Rightarrow> u64" where
  "nunits_of nbytes = (nbytes + 16 - 1) div 16 + 1"

definition start_list :: "u64 \<Rightarrow> heap \<Rightarrow> heap" where
  "start_list base h = (if freep h = 0 then (upd_hdr base (\<lambda>b. \<lparr>h_ptr = base, h_size = 0\<rparr>) h)\<lparr>freep := base\<rparr> else h)"

definition malloc :: "u64 \<Rightarrow> u64 \<Rightarrow> heap \<Rightarrow> ('d, 'a) mmst_scheme \<Rightarrow> (u64 \<times> heap \<times> ('d, 'a) mmst_scheme) option" where
  "malloc base nbytes h s = (let h1 = start_list base h in
     malloc_loop (nunits_of nbytes) (freep h1) (h_ptr (hdr h1 (freep h1))) h1 s)"

section \<open>The free list\<close>

fun path :: "(u64 \<Rightarrow> header) \<Rightarrow> u64 \<Rightarrow> u64 list \<Rightarrow> u64 \<Rightarrow> bool" where
  "path m p [] q \<longleftrightarrow> p = q"
| "path m p (x # xs) q \<longleftrightarrow> p = x \<and> path m (h_ptr (m x)) xs q"

text \<open>The end of the block at \<open>a\<close>, and blocks in address order, not touching, between \<open>lo\<close> and \<open>hi\<close>.\<close>

definition fin :: "(u64 \<Rightarrow> header) \<Rightarrow> u64 \<Rightarrow> nat" where
  "fin m a = unat a + 16 * unat (h_size (m a))"

fun blocks_ok :: "(u64 \<Rightarrow> header) \<Rightarrow> nat \<Rightarrow> nat \<Rightarrow> u64 list \<Rightarrow> bool" where
  "blocks_ok m lo hi [] \<longleftrightarrow> True"
| "blocks_ok m lo hi (x # xs) \<longleftrightarrow>
     lo \<le> unat x \<and> 0 < h_size (m x) \<and> fin m x \<le> hi \<and> blocks_ok m (Suc (fin m x)) hi xs"

definition span :: "(u64 \<Rightarrow> header) \<Rightarrow> u64 \<Rightarrow> nat set" where
  "span m x = {unat x..<fin m x}"

definition free_bytes :: "(u64 \<Rightarrow> header) \<Rightarrow> u64 list \<Rightarrow> nat set" where
  "free_bytes m xs = (\<Union>x \<in> set xs. span m x)"

definition heap_ok :: "u64 \<Rightarrow> nat \<Rightarrow> heap \<Rightarrow> u64 list \<Rightarrow> bool" where
  "heap_ok base hi h xs \<longleftrightarrow> path (hdr h) base (base # xs) base \<and> h_size (hdr h base) = 0 \<and>
     blocks_ok (hdr h) (unat base + 16) hi xs \<and> hi < 2 ^ 64 \<and> freep h \<in> set (base # xs) \<and> base \<noteq> 0"

lemma path_append [simp]: "path m p (xs @ ys) q \<longleftrightarrow> (\<exists>r. path m p xs r \<and> path m r ys q)"
  by (induction xs arbitrary: p) auto

lemma path_cong: "(\<And>x. x \<in> set xs \<Longrightarrow> h_ptr (m x) = h_ptr (m' x)) \<Longrightarrow> path m p xs q = path m' p xs q"
  by (induction xs arbitrary: p) auto

lemma path_first: "path m p xs q \<Longrightarrow> p = hd (xs @ [q])"
  by (cases xs) auto

lemma path_next: "path m p (xs @ x # ys) q \<Longrightarrow> h_ptr (m x) = hd (ys @ [q])"
  using path_first by fastforce

lemma blocks_ok_cong:
  "(\<And>x. x \<in> set xs \<Longrightarrow> h_size (m x) = h_size (m' x)) \<Longrightarrow> blocks_ok m lo hi xs = blocks_ok m' lo hi xs"
  by (induction xs arbitrary: lo) (auto simp: fin_def)

lemma free_bytes_cong:
  "(\<And>x. x \<in> set xs \<Longrightarrow> h_size (m x) = h_size (m' x)) \<Longrightarrow> free_bytes m xs = free_bytes m' xs"
  by (auto simp: free_bytes_def span_def fin_def)

lemma free_bytes_simps [simp]:
  "free_bytes m [] = {}" "free_bytes m (x # xs) = span m x \<union> free_bytes m xs"
  "free_bytes m (xs @ ys) = free_bytes m xs \<union> free_bytes m ys"
  by (auto simp: free_bytes_def)

text \<open>Where the blocks after the list element \<open>xs\<close> ends may start.\<close>

definition after :: "(u64 \<Rightarrow> header) \<Rightarrow> nat \<Rightarrow> u64 list \<Rightarrow> nat" where
  "after m lo xs = (if xs = [] then lo else Suc (fin m (last xs)))"

lemma blocks_ok_append [simp]:
  "blocks_ok m lo hi (xs @ ys) \<longleftrightarrow> blocks_ok m lo hi xs \<and> blocks_ok m (after m lo xs) hi ys"
  by (induction xs arbitrary: lo) (auto simp: after_def)

lemma blocks_ok_weaken: "blocks_ok m lo hi xs \<Longrightarrow> lo' \<le> lo \<Longrightarrow> hi \<le> hi' \<Longrightarrow> blocks_ok m lo' hi' xs"
  by (induction xs arbitrary: lo lo') auto

lemma blocks_ok_mem:
  assumes "blocks_ok m lo hi xs" "x \<in> set xs"
  shows "lo \<le> unat x" "0 < h_size (m x)" "fin m x \<le> hi"
proof -
  have "lo \<le> unat x \<and> 0 < h_size (m x) \<and> fin m x \<le> hi" using assms
  proof (induction xs arbitrary: lo)
    case (Cons y ys)
    have "unat y \<le> fin m y" by (simp add: fin_def)
    then show ?case using Cons.prems Cons.IH [of "Suc (fin m y)"] by fastforce
  qed simp
  then show "lo \<le> unat x" "0 < h_size (m x)" "fin m x \<le> hi" by auto
qed

lemma blocks_ok_sorted: "blocks_ok m lo hi xs \<Longrightarrow> sorted_wrt (<) xs"
proof (induction xs arbitrary: lo)
  case (Cons y ys)
  have "y < x" if "x \<in> set ys" for x
    using blocks_ok_mem(1) [of m "Suc (fin m y)" hi ys x] Cons.prems that by (auto simp: fin_def word_less_nat_alt)
  then show ?case using Cons by auto
qed simp

lemma heap_okD:
  assumes "heap_ok base hi h xs"
  shows "path (hdr h) base (base # xs) base" "h_size (hdr h base) = 0" "blocks_ok (hdr h) (unat base + 16) hi xs"
    "hi < 2 ^ 64" "freep h \<in> set (base # xs)" "base \<noteq> 0" "sorted_wrt (<) (base # xs)"
proof -
  show b: "blocks_ok (hdr h) (unat base + 16) hi xs" using assms by (simp add: heap_ok_def)
  have "base < x" if "x \<in> set xs" for x using blocks_ok_mem(1) [OF b that] by (simp add: word_less_nat_alt)
  then show "sorted_wrt (<) (base # xs)" using blocks_ok_sorted [OF b] by simp
qed (use assms in \<open>simp_all add: heap_ok_def\<close>)

section \<open>Putting a block back\<close>

text \<open>The search ends at the last list element below \<open>bp\<close>, wherever in the ring it starts.\<close>

lemma free_search_below:
  assumes ring: "path m base (L @ G) base" and L: "\<forall>x \<in> set L. x < bp" and G: "\<forall>x \<in> set G. bp < x"
    and so: "sorted_wrt (<) (L @ G)" and base: "base < bp" and q: "L = L1 @ q # L2"
  shows "free_search m bp q = Some (last L)"
  using q
proof (induction L2 arbitrary: L1 q)
  case Nil
  have nx: "h_ptr (m q) = hd (G @ [base])" using path_next [of m base L1 q G base] ring Nil by simp
  have "base \<in> set L" using path_first [OF ring] Nil by (cases L1) auto
  then have "base \<le> q" using Nil so by (auto simp: sorted_wrt_append)
  then have "free_search m bp q = Some q"
    using Nil L G base nx so by (cases G) (auto simp: free_search.simps [of m bp q])
  then show ?case using Nil by simp
next
  case (Cons r L2)
  have "h_ptr (m q) = r" using path_next [of m base L1 q "r # L2 @ G" base] ring Cons.prems by simp
  moreover have "r < bp" "q < r" using Cons.prems L so by (auto simp: sorted_wrt_append)
  ultimately have "free_search m bp q = free_search m bp r" by (auto simp: free_search.simps [of m bp q])
  then show ?case using Cons.IH [of "L1 @ [q]" r] Cons.prems by simp
qed

lemma free_search_ring:
  assumes ring: "path m base (L @ G) base" and L: "\<forall>x \<in> set L. x < bp" and G: "\<forall>x \<in> set G. bp < x"
    and so: "sorted_wrt (<) (L @ G)" and base: "base < bp" "L = base # L'" and q: "q \<in> set (L @ G)"
  shows "free_search m bp q = Some (last L)"
proof -
  have below: "free_search m bp r = Some (last L)" if "r \<in> set L" for r
    using free_search_below [OF ring L G so base(1)] split_list [OF that] by blast
  have above: "G = G1 @ r # G2 \<Longrightarrow> free_search m bp r = Some (last L)" for G1 r G2
  proof (induction G2 arbitrary: G1 r)
    case Nil
    have "h_ptr (m r) = base" using path_next [of m base "L @ G1" r "[]" base] ring Nil by simp
    moreover have "bp < r" using Nil G by simp
    ultimately have "free_search m bp r = free_search m bp base"
      using base(1) by (auto simp: free_search.simps [of m bp r])
    then show ?case using below base(2) by simp
  next
    case (Cons r' G2)
    have "h_ptr (m r) = r'" using path_next [of m base "L @ G1" r "r' # G2" base] ring Cons.prems by simp
    moreover have "bp < r" "r < r'" using Cons.prems G so by (auto simp: sorted_wrt_append)
    ultimately have "free_search m bp r = free_search m bp r'" by (auto simp: free_search.simps [of m bp r])
    then show ?case using Cons.IH [of "G1 @ [r]" r'] Cons.prems by simp
  qed
  show ?thesis using q below above split_list [of q G] by auto
qed

lemma word_units:
  fixes a c :: u64
  shows "unat a + 16 * unat c < 2 ^ 64 \<Longrightarrow> unat (a + 16 * c) = unat a + 16 * unat c"
  by (simp add: unat_word_ariths)

lemma word_end: "fin m a < 2 ^ 64 \<Longrightarrow> unat (a + 16 * h_size (m a)) = fin m a"
  unfolding fin_def by (rule word_units)

lemma word_size_add:
  fixes a b :: u64
  shows "16 * (unat a + unat b) < 2 ^ 64 \<Longrightarrow> unat (a + b) = unat a + unat b"
  by (simp add: unat_word_ariths)

text \<open>A block \<open>a\<close> that is not in the list, joined with the blocks \<open>zs\<close> above it.\<close>

lemma join_next_spec:
  assumes zs: "path (hdr h) q zs base" "blocks_ok (hdr h) (fin (hdr h) a) hi zs"
    and hi: "hi < 2 ^ 64" and a: "0 < h_size (hdr h a)" "fin (hdr h) a \<le> hi" "base < a" "a \<notin> set zs"
  obtains zs' where "path (hdr (join_next a q h)) a (a # zs') base" "blocks_ok (hdr (join_next a q h)) (unat a) hi (a # zs')"
    "free_bytes (hdr (join_next a q h)) (a # zs') = span (hdr h) a \<union> free_bytes (hdr h) zs" "set zs' \<subseteq> set zs"
    "\<And>b. b \<noteq> a \<Longrightarrow> hdr (join_next a q h) b = hdr h b"
proof -
  let ?m = "hdr h" and ?m1 = "hdr (join_next a q h)"
  have q: "q = hd (zs @ [base])" using path_first [OF zs(1)] .
  have e: "unat (a + 16 * h_size (?m a)) = fin ?m a" using word_end a(2) hi by simp
  have keep: "?m1 b = ?m b" if "b \<noteq> a" for b using that by (simp add: join_next_def upd_hdr_def)
  have keep_zs: "path ?m1 r ys base = path ?m r ys base" "blocks_ok ?m1 lo hi ys = blocks_ok ?m lo hi ys"
    "free_bytes ?m1 ys = free_bytes ?m ys" if "set ys \<subseteq> set zs" for r ys lo
  proof -
    have "?m1 x = ?m x" if "x \<in> set ys" for x using keep [of x] that \<open>set ys \<subseteq> set zs\<close> a(4) by blast
    then show "path ?m1 r ys base = path ?m r ys base" "blocks_ok ?m1 lo hi ys = blocks_ok ?m lo hi ys"
      "free_bytes ?m1 ys = free_bytes ?m ys" by (simp_all cong: path_cong blocks_ok_cong free_bytes_cong)
  qed
  show thesis
  proof (cases "a + 16 * h_size (?m a) = q")
    case False
    then have m1: "?m1 a = (?m a)\<lparr>h_ptr := q\<rparr>" by (simp add: join_next_def upd_hdr_def)
    have "blocks_ok ?m (Suc (fin ?m a)) hi zs"
    proof (cases zs)
      case (Cons z zs1)
      have "z = q" using Cons q by simp
      then have "fin ?m a \<noteq> unat z" using False e by (auto simp: word_unat_eq_iff)
      then show ?thesis using zs(2) Cons by auto
    qed simp
    then show thesis
      using m1 zs(1) a keep_zs [OF subset_refl] by (intro that [of zs] keep) (simp_all add: fin_def span_def)
  next
    case True
    have "zs \<noteq> []"
    proof
      assume "zs = []"
      then have "unat base = fin ?m a" using q True e by simp
      then show False using a(3) by (simp add: fin_def word_less_nat_alt)
    qed
    then obtain z zs1 where z: "zs = z # zs1" "z = q" using q by (cases zs) auto
    then have m1: "?m1 a = (?m a)\<lparr>h_size := h_size (?m a) + h_size (?m z), h_ptr := h_ptr (?m z)\<rparr>"
      using True by (simp add: join_next_def upd_hdr_def)
    have zb: "fin ?m a = unat z" "fin ?m z \<le> hi" "blocks_ok ?m (Suc (fin ?m z)) hi zs1"
      using zs(2) e True z by auto
    have "16 * (unat (h_size (?m a)) + unat (h_size (?m z))) < 2 ^ 64" using zb(1,2) hi by (simp add: fin_def)
    note sz = word_size_add [OF this]
    then have fin: "fin ?m1 a = fin ?m z" using zb(1) m1 by (simp add: fin_def)
    moreover have "0 < h_size (?m1 a)" using sz a(1) m1 by (simp add: word_less_nat_alt)
    moreover have "span ?m1 a = span ?m a \<union> span ?m z" using fin zb(1) unfolding span_def fin_def by auto
    moreover have "set zs1 \<subseteq> set zs" using z by auto
    ultimately show thesis
      using zb z m1 zs(1) keep_zs [of zs1] by (intro that [of zs1] keep) (simp_all add: Un_assoc)
  qed
qed

text \<open>Where a block that overlaps no free block lies in the list.\<close>

lemma blocks_ok_from:
  "blocks_ok m lo hi zs \<Longrightarrow> (\<And>z. z \<in> set zs \<Longrightarrow> lo' \<le> unat z) \<Longrightarrow> blocks_ok m lo' hi zs"
  by (cases zs) auto

lemma apart_above: "a < z \<Longrightarrow> 0 < h_size (m z) \<Longrightarrow> span m a \<inter> span m z = {} \<Longrightarrow> fin m a \<le> unat z"
  by (auto simp: span_def fin_def word_less_nat_alt disjoint_iff)

lemma list_position:
  assumes ok: "heap_ok base hi h xs" and bp: "0 < h_size (hdr h bp)" "unat base + 16 \<le> unat bp"
    "span (hdr h) bp \<inter> free_bytes (hdr h) xs = {}"
  obtains ys p zs where "base # xs = ys @ p # zs" "free_search (hdr h) bp (freep h) = Some p" "p < bp"
    "blocks_ok (hdr h) (fin (hdr h) bp) hi zs" "bp \<notin> set (base # xs)" "p \<noteq> base \<longrightarrow> fin (hdr h) p \<le> unat bp"
proof -
  let ?m = "hdr h"
  note d = heap_okD [OF ok]
  define R where "R = base # xs"
  define L where "L = takeWhile (\<lambda>x. x < bp) R"
  define G where "G = dropWhile (\<lambda>x. x < bp) R"
  have LG: "R = L @ G" by (simp add: L_def G_def)
  have base: "base < bp" using bp(2) by (simp add: word_less_nat_alt)
  have apart: "span ?m bp \<inter> span ?m x = {}" if "x \<in> set xs" for x using that bp(3) by (auto simp: free_bytes_def)
  have "bp \<notin> set xs" using apart [of bp] bp(1) by (auto simp: span_def fin_def word_less_nat_alt)
  then have nin: "bp \<notin> set R" using base by (auto simp: R_def)
  have so: "sorted_wrt (<) (L @ G)" using d(7) LG R_def by metis
  have ring: "path ?m base (L @ G) base" using d(1) LG R_def by metis
  have L: "\<forall>x \<in> set L. x < bp" using set_takeWhileD unfolding L_def by metis
  have L0: "L = base # takeWhile (\<lambda>x. x < bp) xs" using base by (simp add: L_def R_def)
  have G0: "G = dropWhile (\<lambda>x. x < bp) xs" using base by (simp add: G_def R_def)
  have G: "\<forall>x \<in> set G. bp < x"
  proof (cases G)
    case (Cons g gs)
    have "\<not> g < bp" using hd_dropWhile [of "\<lambda>x. x < bp" R] Cons unfolding G_def by (metis list.distinct(1) list.sel(1))
    moreover have "g \<in> set R" using Cons LG by simp
    ultimately have "bp < g" using nin by (metis linorder_neqE)
    moreover have "\<forall>x \<in> set gs. g < x" using so unfolding Cons sorted_wrt_append by simp
    ultimately show ?thesis using Cons by auto
  qed simp
  have q: "freep h \<in> set (L @ G)" using d(5) LG R_def by metis
  have s: "free_search ?m bp (freep h) = Some (last L)" using free_search_ring [OF ring L G so base L0 q] .
  have R: "base # xs = butlast L @ last L # G" 
  proof -
    have "L = butlast L @ [last L]" using L0 by simp
    then show ?thesis using LG R_def by (metis append.assoc append_Cons append_Nil)
  qed
  have sub: "set G \<subseteq> set xs" using set_dropWhileD unfolding G0 by fast
  have "blocks_ok ?m (unat base + 16) hi (takeWhile (\<lambda>x. x < bp) xs @ G)" using d(3) unfolding G0 takeWhile_dropWhile_id .
  moreover have "fin ?m bp \<le> unat z" if "z \<in> set G" for z
    using that G sub apart_above [OF _ _ apart] blocks_ok_mem(2) [OF d(3)] by blast
  ultimately have z: "blocks_ok ?m (fin ?m bp) hi G" using blocks_ok_from by auto
  have l: "last L < bp" using L L0 by (metis last_in_set list.distinct(1))
  have "fin ?m (last L) \<le> unat bp" if "last L \<noteq> base"
  proof -
    have "last L \<in> set (base # xs)" unfolding R by simp
    then have "last L \<in> set xs" using that by simp
    then show ?thesis using apart [of "last L"] l bp(1) apart_above [of "last L" bp ?m] by (simp add: Int_commute)
  qed
  then show thesis using that [OF R s l z] nin R_def by metis
qed

lemma heap_okI:
  assumes "path (hdr h) base (base # xs) base" "h_size (hdr h base) = 0" "blocks_ok (hdr h) (unat base + 16) hi xs"
    "hi < 2 ^ 64" "freep h \<in> set (base # xs)" "base \<noteq> 0"
  shows "heap_ok base hi h xs"
  using assms by (simp add: heap_ok_def)

lemma free_spec:
  assumes ok: "heap_ok base hi h xs" and bp: "0 < h_size (hdr h bp)" "unat base + 16 \<le> unat bp" "fin (hdr h) bp \<le> hi"
    "span (hdr h) bp \<inter> free_bytes (hdr h) xs = {}"
  obtains h' xs' where "free (bp + 16) h = Some h'" "heap_ok base hi h' xs'"
    "free_bytes (hdr h') xs' = free_bytes (hdr h) xs \<union> span (hdr h) bp" "\<And>a. a \<noteq> bp \<Longrightarrow> a \<notin> set (base # xs) \<Longrightarrow> hdr h' a = hdr h a"
proof -
  let ?m = "hdr h"
  note d = heap_okD [OF ok]
  obtain ys p zs where p: "base # xs = ys @ p # zs" "free_search ?m bp (freep h) = Some p" "p < bp"
    "blocks_ok ?m (fin ?m bp) hi zs" "bp \<notin> set (base # xs)" "p \<noteq> base \<longrightarrow> fin ?m p \<le> unat bp"
    using list_position [OF ok bp(1,2,4)] .
  have base: "base < bp" using bp(2) by (simp add: word_less_nat_alt)
  have dis: "distinct (ys @ p # zs)" using d(7) unfolding p(1) by (metis strict_sorted_iff)
  have ring: "path ?m base (ys @ p # zs) base" using d(1) p(1) by metis
  then have zs: "path ?m (h_ptr (?m p)) zs base" by auto
  have nz: "bp \<notin> set zs" using p(1,5) by (metis Un_iff list.set_intros(2) set_append)
  define h1 where "h1 = join_next bp (h_ptr (?m p)) h"
  obtain zs' where zs': "path (hdr h1) bp (bp # zs') base" "blocks_ok (hdr h1) (unat bp) hi (bp # zs')"
    "free_bytes (hdr h1) (bp # zs') = span ?m bp \<union> free_bytes ?m zs" "set zs' \<subseteq> set zs"
    "\<And>b. b \<noteq> bp \<Longrightarrow> hdr h1 b = ?m b"
    using join_next_spec [OF zs p(4) d(4) bp(1,3) base nz] unfolding h1_def by blast
  define h2 where "h2 = (join_next p bp h1)\<lparr>freep := p\<rparr>"
  have f0: "freep h \<noteq> 0" using d(5,6,7) by (auto simp: word_greater_zero_iff dest: order.strict_trans2)
  have r: "free (bp + 16) h = Some h2" using p(2) f0 by (simp add: free_def h1_def h2_def)
  have pb: "p \<noteq> bp" using p(3) by simp
  show thesis
  proof (cases "p = base")
    case True
    then have ys: "ys = []" "zs = xs" using p(1) dis by (cases ys; auto)+
    have "p + 16 * h_size (hdr h1 p) \<noteq> bp" using True zs'(5) [OF pb] d(2) pb by simp
    then have m2: "hdr h2 = (hdr h1)(p := (hdr h1 p)\<lparr>h_ptr := bp\<rparr>)" "freep h2 = p" by (simp_all add: h2_def join_next_def upd_hdr_def)
    have pz: "p \<notin> set (bp # zs')" using pb zs'(4) dis by auto
    then have k: "hdr h2 x = hdr h1 x" if "x \<in> set (bp # zs')" for x using that m2 by auto
    have "heap_ok base hi h2 (bp # zs')"
    proof (rule heap_okI)
      have "path (hdr h2) bp (bp # zs') base" using path_cong [of "bp # zs'" "hdr h2" "hdr h1"] k zs'(1) by metis
      moreover have "h_ptr (hdr h2 base) = bp" using m2 True by simp
      ultimately show "path (hdr h2) base (base # bp # zs') base" by simp
      show "blocks_ok (hdr h2) (unat base + 16) hi (bp # zs')"
        using blocks_ok_cong [of "bp # zs'" "hdr h2" "hdr h1"] k blocks_ok_weaken [OF zs'(2) bp(2) order_refl] by metis
    qed (use m2 True zs'(5) [OF pb] d in auto)
    moreover have "free_bytes (hdr h2) (bp # zs') = free_bytes ?m xs \<union> span ?m bp"
      using free_bytes_cong [of "bp # zs'" "hdr h2" "hdr h1"] k zs'(3) ys by auto
    ultimately show thesis using that [OF r] zs'(5) m2 True by simp
  next
    case False
    then obtain ys1 where ys: "ys = base # ys1" "xs = ys1 @ p # zs" using p(1) by (cases ys) auto
    have pk: "0 < h_size (hdr h1 p)" "fin (hdr h1) p \<le> unat bp" "span (hdr h1) p = span ?m p" "base < p"
      using blocks_ok_mem(2) [OF d(3), of p] p(6) False zs'(5) [OF pb] d(7) ys by (auto simp: fin_def span_def)
    have pz: "p \<notin> set (bp # zs')" using pb zs'(4) dis by auto
    have bz: "blocks_ok (hdr h1) (fin (hdr h1) p) hi (bp # zs')" using blocks_ok_weaken [OF zs'(2) pk(2) order_refl] .
    have ph: "fin (hdr h1) p \<le> hi" using blocks_ok_mem(3) [OF d(3), of p] ys zs'(5) [OF pb] by (simp add: fin_def)
    obtain ws where ws: "path (hdr h2) p (p # ws) base" "blocks_ok (hdr h2) (unat p) hi (p # ws)"
      "free_bytes (hdr h2) (p # ws) = span ?m p \<union> free_bytes (hdr h1) (bp # zs')" "set ws \<subseteq> set (bp # zs')"
      "\<And>b. b \<noteq> p \<Longrightarrow> hdr h2 b = hdr h1 b"
      using join_next_spec [OF zs'(1) bz d(4) pk(1) ph pk(4) pz] pk(3) unfolding h2_def by auto
    have k: "hdr h2 x = ?m x" if "x \<in> set (base # ys1)" for x
    proof -
      have "x \<noteq> p" "x \<noteq> bp" using that dis ys p(5) by auto
      then show ?thesis using ws(5) zs'(5) by simp
    qed
    have "heap_ok base hi h2 (ys1 @ p # ws)"
    proof (rule heap_okI)
      have "path ?m base (base # ys1) p" using ring ys by auto
      then have "path (hdr h2) base (base # ys1) p" using path_cong [of "base # ys1" "hdr h2" ?m] k by metis
      then have "path (hdr h2) base ((base # ys1) @ p # ws) base" using ws(1) path_append by blast
      then show "path (hdr h2) base (base # ys1 @ p # ws) base" by simp
      have b: "blocks_ok ?m (unat base + 16) hi ys1" "after ?m (unat base + 16) ys1 \<le> unat p" using d(3) ys by auto
      have "blocks_ok (hdr h2) (unat base + 16) hi ys1" using b(1) blocks_ok_cong [of ys1 "hdr h2" ?m] k by simp
      moreover have "after (hdr h2) (unat base + 16) ys1 \<le> unat p" using b(2) k by (auto simp: after_def fin_def)
      ultimately show "blocks_ok (hdr h2) (unat base + 16) hi (ys1 @ p # ws)" using ws(2) by simp
    qed (use k [of base] d in \<open>auto simp: h2_def\<close>)
    moreover have "free_bytes (hdr h2) (ys1 @ p # ws) = free_bytes ?m xs \<union> span ?m bp"
      using free_bytes_cong [of ys1 "hdr h2" ?m] k ws(3) zs'(3) ys by auto
    moreover have "hdr h2 a = ?m a" if "a \<noteq> bp" "a \<notin> set (base # xs)" for a
      using that ws(5) [of a] zs'(5) [of a] ys by auto
    ultimately show thesis using that [OF r] by blast
  qed
qed

section \<open>Taking a block out\<close>

lemma blocks_ok_disjoint:
  assumes "blocks_ok m lo hi (ps @ v # bs)"
  shows "span m v \<inter> free_bytes m ps = {}" "span m v \<inter> free_bytes m bs = {}"
proof -
  have "fin m x < unat v" if x: "x \<in> set ps" for x
  proof -
    obtain as cs where "ps = as @ x # cs" using split_list [OF x] by blast
    then have "blocks_ok m (Suc (fin m x)) hi (cs @ v # bs)" using assms by auto
    then show ?thesis using blocks_ok_mem(1) [of m _ hi "cs @ v # bs" v] by fastforce
  qed
  moreover have "fin m v < unat x" if "x \<in> set bs" for x
    using that assms blocks_ok_mem(1) [of m "Suc (fin m v)" hi bs x] by simp
  ultimately show "span m v \<inter> free_bytes m ps = {}" "span m v \<inter> free_bytes m bs = {}"
    by (fastforce simp: free_bytes_def span_def)+
qed

lemma path_upd_last:
  assumes "path m p (us @ [q]) v" "q \<notin> set us"
  shows "path (m(q := (m q)\<lparr>h_ptr := w\<rparr>)) p (us @ [q]) w"
proof -
  have "path m p us q = path (m(q := (m q)\<lparr>h_ptr := w\<rparr>)) p us q" using assms(2) by (intro path_cong) auto
  then show ?thesis using assms(1) by auto
qed

lemma take_whole:
  assumes ok: "heap_ok base hi h xs" and R: "base # xs = as @ q # v # bs" and n: "h_size (hdr h v) = n"
  obtains h' xs' where "take_block n q v h = (v + 16, h')" "heap_ok base hi h' xs'" "hdr h' v = hdr h v"
    "free_bytes (hdr h') xs' = free_bytes (hdr h) xs - span (hdr h) v" "\<And>a. a \<notin> set (base # xs) \<Longrightarrow> hdr h' a = hdr h a"
proof -
  let ?m = "hdr h"
  note d = heap_okD [OF ok]
  define h' where "h' = (upd_hdr q (\<lambda>b. b\<lparr>h_ptr := h_ptr (?m v)\<rparr>) h)\<lparr>freep := q\<rparr>"
  have m': "hdr h' = ?m(q := (?m q)\<lparr>h_ptr := h_ptr (?m v)\<rparr>)" "freep h' = q" by (simp_all add: h'_def upd_hdr_def)
  obtain ps where ps: "as @ [q] = base # ps" "xs = ps @ v # bs" using R by (cases as) auto
  have dis: "distinct (base # xs)" using d(7) by (metis strict_sorted_iff)
  then have q: "q \<notin> set as" "q \<noteq> v" "q \<notin> set bs" unfolding R by auto
  have sz: "h_size (hdr h' x) = h_size (?m x)" for x using m' by simp
  have p1: "path ?m base (as @ [q]) v" "path ?m (h_ptr (?m v)) bs base" using d(1) unfolding R by auto
  have p2: "path (hdr h') base (as @ [q]) (h_ptr (?m v))" using path_upd_last [OF p1(1) q(1)] m' by simp
  have "path (hdr h') (h_ptr (?m v)) bs base" using p1(2) q(3) path_cong [of bs "hdr h'" ?m] m' by (metis fun_upd_other)
  then have "path (hdr h') base ((as @ [q]) @ bs) base" using p2 path_append by blast
  then have "path (hdr h') base (base # ps @ bs) base" using ps(1) by simp
  moreover have "blocks_ok ?m (unat base + 16) hi (ps @ bs)"
  proof -
    have "after ?m (unat base + 16) ps \<le> Suc (fin ?m v)" using d(3) ps(2) by (auto simp: fin_def)
    then show ?thesis using d(3) ps(2) blocks_ok_weaken [of ?m "Suc (fin ?m v)" hi bs] by auto
  qed
  then have "blocks_ok (hdr h') (unat base + 16) hi (ps @ bs)" using blocks_ok_cong [of "ps @ bs" "hdr h'" ?m] sz by metis
  moreover have "q \<in> set (base # ps @ bs)" using ps(1) by (metis UnI1 append_Cons in_set_conv_decomp set_append)
  ultimately have "heap_ok base hi h' (ps @ bs)" using d sz m'(2) by (intro heap_okI) simp_all
  moreover have "free_bytes (hdr h') (ps @ bs) = free_bytes ?m xs - span ?m v"
    using free_bytes_cong [of "ps @ bs" "hdr h'" ?m] sz blocks_ok_disjoint [OF d(3) [unfolded ps(2)]] ps(2) by auto
  moreover have "hdr h' a = ?m a" if "a \<notin> set (base # xs)" for a using that m' unfolding R by auto
  moreover have "take_block n q v h = (v + 16, h')" using n by (simp add: take_block_def h'_def)
  ultimately show thesis using that m' q(2) by simp
qed

lemma take_part:
  assumes ok: "heap_ok base hi h xs" and R: "base # xs = as @ q # v # bs" and n: "n < h_size (hdr h v)" "0 < n"
  obtains r h' xs' where "take_block n q v h = (r + 16, h')" "heap_ok base hi h' xs'" "h_size (hdr h' r) = n"
    "span (hdr h') r \<subseteq> free_bytes (hdr h) xs" "free_bytes (hdr h') xs' = free_bytes (hdr h) xs - span (hdr h') r"
    "\<And>a. a \<noteq> r \<Longrightarrow> a \<notin> set (base # xs) \<Longrightarrow> hdr h' a = hdr h a"
proof -
  let ?m = "hdr h"
  note d = heap_okD [OF ok]
  define r where "r = v + 16 * (h_size (?m v) - n)"
  define h' where "h' = (upd_hdr r (\<lambda>b. b\<lparr>h_size := n\<rparr>) (upd_hdr v (\<lambda>b. b\<lparr>h_size := h_size b - n\<rparr>) h))\<lparr>freep := q\<rparr>"
  obtain ps where ps: "as @ [q] = base # ps" "xs = ps @ v # bs" using R by (cases as) auto
  have dis: "distinct (base # xs)" using d(7) by (metis strict_sorted_iff)
  have hi: "fin ?m v \<le> hi" using blocks_ok_mem(3) [OF d(3), of v] ps(2) by simp
  have k: "unat (h_size (?m v) - n) = unat (h_size (?m v)) - unat n" using n(1) by (intro unat_sub) simp
  have n': "0 < unat n" "unat n < unat (h_size (?m v))" using n by (simp_all add: word_less_nat_alt)
  have ur: "unat r = unat v + 16 * (unat (h_size (?m v)) - unat n)"
  proof -
    have "unat v + 16 * (unat (h_size (?m v)) - unat n) < 2 ^ 64" using hi d(4) n' unfolding fin_def by linarith
    then show ?thesis unfolding r_def using word_units [of v "h_size (?m v) - n"] k by simp
  qed
  have rv: "unat v < unat r" "unat r + 16 * unat n = fin ?m v" using n' ur by (auto simp: fin_def)
  have "r \<notin> set xs"
  proof
    assume x: "r \<in> set xs"
    have "unat r \<in> span ?m v" using rv n' by (simp add: span_def)
    moreover have "unat r \<in> span ?m r" using blocks_ok_mem(2) [OF d(3) x] by (simp add: span_def fin_def word_less_nat_alt)
    moreover have "r \<noteq> v" using rv by auto
    ultimately show False using x blocks_ok_disjoint [OF d(3) [unfolded ps(2)]] ps(2) by (auto simp: free_bytes_def)
  qed
  moreover have "base < v" using d(7) ps(2) by simp
  then have "r \<noteq> base" using rv by (auto simp: word_less_nat_alt)
  ultimately have r: "r \<notin> set (base # xs)" "r \<noteq> v" using rv by auto
  have m': "hdr h' = (?m(v := (?m v)\<lparr>h_size := h_size (?m v) - n\<rparr>))(r := (?m r)\<lparr>h_size := n\<rparr>)" "freep h' = q"
    using r(2) by (simp_all add: h'_def upd_hdr_def)
  have keep: "hdr h' x = ?m x" if "x \<noteq> v" "x \<noteq> r" for x using that m' by simp
  have sz: "h_size (hdr h' x) = h_size (?m x)" if "x \<in> set ps \<union> set bs \<union> {base}" for x
  proof -
    have "x \<noteq> v" "x \<noteq> r" using that dis ps(2) r(1) by auto
    then show ?thesis using keep by simp
  qed
  have fv: "fin (hdr h') v = unat r" "0 < h_size (hdr h' v)" using m' r(2) ur k n' by (simp_all add: fin_def word_less_nat_alt)
  have "path (hdr h') base (base # xs) base"
  proof -
    have "h_ptr (hdr h' x) = h_ptr (?m x)" for x using m' by simp
    then show ?thesis using d(1) path_cong [of "base # xs" "hdr h'" ?m] by metis
  qed
  moreover have "blocks_ok (hdr h') (unat base + 16) hi (ps @ v # bs)"
  proof -
    have b: "blocks_ok ?m (unat base + 16) hi ps" "after ?m (unat base + 16) ps \<le> unat v" "blocks_ok ?m (Suc (fin ?m v)) hi bs"
      using d(3) ps(2) by auto
    have "blocks_ok (hdr h') (unat base + 16) hi ps" using b(1) sz blocks_ok_cong [of ps "hdr h'" ?m] by auto
    moreover have "after (hdr h') (unat base + 16) ps \<le> unat v" using b(2) sz by (auto simp: after_def fin_def)
    moreover have "blocks_ok (hdr h') (Suc (fin ?m v)) hi bs" using b(3) sz blocks_ok_cong [of bs "hdr h'" ?m] by auto
    moreover have "unat r \<le> fin ?m v" using rv by simp
    ultimately show ?thesis using fv hi blocks_ok_weaken [of "hdr h'" "Suc (fin ?m v)" hi bs "Suc (unat r)" hi] by simp
  qed
  moreover have "q \<in> set (base # xs)" unfolding R by simp
  ultimately have ok': "heap_ok base hi h' xs" using d sz [of base] m'(2) ps(2) by (intro heap_okI) simp_all
  have nr: "h_size (hdr h' r) = n" using m' by simp
  then have sr: "span (hdr h') r = {unat r..<fin ?m v}" using rv(2) by (simp add: span_def fin_def)
  have sv: "span ?m v = span (hdr h') v \<union> span (hdr h') r" "span (hdr h') v \<inter> span (hdr h') r = {}"
    using sr fv rv by (auto simp: span_def fin_def)
  have fb: "free_bytes (hdr h') xs = free_bytes ?m ps \<union> span (hdr h') v \<union> free_bytes ?m bs"
    using ps(2) sz free_bytes_cong [of ps "hdr h'" ?m] free_bytes_cong [of bs "hdr h'" ?m] by auto
  have tb: "take_block n q v h = (r + 16, h')"
    using n(1) by (auto simp: take_block_def h'_def r_def upd_hdr_def Let_def)
  have f0: "free_bytes ?m xs = free_bytes ?m ps \<union> span ?m v \<union> free_bytes ?m bs" using ps(2) by auto
  show thesis
  proof (rule that [OF tb ok' nr])
    show "span (hdr h') r \<subseteq> free_bytes ?m xs" using f0 sv by auto
    show "free_bytes (hdr h') xs = free_bytes ?m xs - span (hdr h') r"
      unfolding fb f0 using sv blocks_ok_disjoint [OF d(3) [unfolded ps(2)]] by auto
    show "hdr h' a = ?m a" if "a \<noteq> r" "a \<notin> set (base # xs)" for a using that keep ps(2) by auto
  qed
qed

text \<open>Either way, a block of \<open>n\<close> units leaves the set of free bytes.\<close>

lemma take_block_spec:
  assumes ok: "heap_ok base hi h xs" and R: "base # xs = as @ q # v # bs" and n: "n \<le> h_size (hdr h v)" "0 < n"
  obtains r h' xs' where "take_block n q v h = (r + 16, h')" "heap_ok base hi h' xs'" "h_size (hdr h' r) = n"
    "span (hdr h') r \<subseteq> free_bytes (hdr h) xs" "free_bytes (hdr h') xs' = free_bytes (hdr h) xs - span (hdr h') r"
    "\<And>a. a \<noteq> r \<Longrightarrow> a \<notin> set (base # xs) \<Longrightarrow> hdr h' a = hdr h a"
proof (cases "h_size (hdr h v) = n")
  case True
  have v: "v \<in> set xs" using R by (cases as) auto
  obtain h' xs' where h': "take_block n q v h = (v + 16, h')" "heap_ok base hi h' xs'" "hdr h' v = hdr h v"
    "free_bytes (hdr h') xs' = free_bytes (hdr h) xs - span (hdr h) v" "\<And>a. a \<notin> set (base # xs) \<Longrightarrow> hdr h' a = hdr h a"
    using take_whole [OF ok R True] by blast
  have s: "span (hdr h') v = span (hdr h) v" using h'(3) by (simp add: span_def fin_def)
  show thesis by (rule that [OF h'(1,2)]) (use h' s v True in \<open>auto simp: free_bytes_def\<close>)
next
  case False
  then have "n < h_size (hdr h v)" using n(1) by simp
  then show thesis using take_part [OF ok R _ n(2)] that by blast
qed

section \<open>The search for a block\<close>

lemma malloc_walk:
  "path (hdr h) p us v \<Longrightarrow> \<forall>u \<in> set us. \<not> n \<le> h_size (hdr h u) \<and> u \<noteq> freep h \<Longrightarrow>
    malloc_loop n prevp p h s = malloc_loop n (last (prevp # us)) v h s"
proof (induction us arbitrary: prevp p)
  case (Cons u us)
  then have "malloc_loop n prevp p h s = malloc_loop n u (h_ptr (hdr h u)) h s"
    by (subst malloc_loop.simps) simp
  then show ?case using Cons.IH [of "h_ptr (hdr h u)" u] Cons.prems by simp
qed simp

lemma path_last: "path m (h_ptr (m f)) us v \<Longrightarrow> h_ptr (m (last (f # us))) = v"
  by (induction us arbitrary: f) auto

text \<open>The ring cut open behind \<^verbatim>\<open>freep\<close>, where the search starts.\<close>

lemma ring_from_freep:
  assumes "heap_ok base hi h xs"
  obtains us where "path (hdr h) (h_ptr (hdr h (freep h))) us (freep h)" "set (freep h # us) = set (base # xs)" "freep h \<notin> set us"
proof -
  note d = heap_okD [OF assms]
  obtain ys zs where R: "base # xs = ys @ freep h # zs" using split_list [OF d(5)] by blast
  have dis: "distinct (base # xs)" using d(7) by (metis strict_sorted_iff)
  have "path (hdr h) base (ys @ freep h # zs) base" using d(1) R by metis
  then have "path (hdr h) (h_ptr (hdr h (freep h))) (zs @ ys) (freep h)" by auto
  then show thesis by (rule that) (use dis in \<open>unfold R, auto\<close>)
qed

lemma malloc_loop_fit:
  assumes ok: "heap_ok base hi h xs" and n: "0 < n" "x \<in> set xs" "n \<le> h_size (hdr h x)"
  obtains as q v bs where "base # xs = as @ q # v # bs" "n \<le> h_size (hdr h v)"
    "malloc_loop n (freep h) (h_ptr (hdr h (freep h))) h s = (case take_block n q v h of (r, h') \<Rightarrow> Some (r, h', s))"
proof -
  let ?m = "hdr h" and ?f = "freep h"
  note d = heap_okD [OF ok]
  obtain us where us: "path ?m (h_ptr (?m ?f)) us ?f" "set (?f # us) = set (base # xs)" "?f \<notin> set us"
    using ring_from_freep [OF ok] .
  have "\<exists>u \<in> set (us @ [?f]). n \<le> h_size (?m u)" using n us(2) by auto
  then obtain ws v rest where v: "us @ [?f] = ws @ v # rest" "n \<le> h_size (?m v)" "\<forall>u \<in> set ws. \<not> n \<le> h_size (?m u)"
    using split_list_first_prop [of "us @ [?f]" "\<lambda>u. n \<le> h_size (?m u)"] by blast
  have wu: "set ws \<subseteq> set us" using v(1) by (cases rest rule: rev_cases) auto
  have "path ?m (h_ptr (?m ?f)) (us @ [?f]) (h_ptr (?m ?f))" using us(1) by auto
  then have p: "path ?m (h_ptr (?m ?f)) ws v" unfolding v(1) by auto
  define q where "q = last (?f # ws)"
  have "malloc_loop n ?f (h_ptr (?m ?f)) h s = malloc_loop n q v h s"
    unfolding q_def using malloc_walk [OF p] v(3) wu us(3) by blast
  also have "\<dots> = (case take_block n q v h of (r, h') \<Rightarrow> Some (r, h', s))"
    using v(2) by (subst malloc_loop.simps) simp
  finally have r: "malloc_loop n ?f (h_ptr (?m ?f)) h s = (case take_block n q v h of (r, h') \<Rightarrow> Some (r, h', s))" .
  have "q \<in> set (?f # ws)" unfolding q_def by simp
  then have "q \<in> set (base # xs)" using wu us(2) by auto
  then obtain as cs where R: "base # xs = as @ q # cs" using split_list by metis
  have "path ?m base (as @ q # cs) base" using d(1) R by metis
  then have "hd (cs @ [base]) = v" using path_next path_last [OF p] unfolding q_def by metis
  moreover have "v \<noteq> base" using v(2) n(1) d(2) by auto
  ultimately obtain bs where "cs = v # bs" by (cases cs) auto
  then show thesis using that [of as q v bs] R v(2) r by simp
qed

lemma malloc_loop_more:
  assumes ok: "heap_ok base hi h xs" and n: "0 < n" "\<forall>x \<in> set xs. \<not> n \<le> h_size (hdr h x)"
  shows "malloc_loop n (freep h) (h_ptr (hdr h (freep h))) h s = Option.bind (morecore n h s) (\<lambda>(p', h', s').
     if p' = 0 then Some (0, h', s') else malloc_loop n p' (h_ptr (hdr h' p')) h' s')"
proof -
  let ?m = "hdr h" and ?f = "freep h"
  note d = heap_okD [OF ok]
  obtain us where us: "path ?m (h_ptr (?m ?f)) us ?f" "set (?f # us) = set (base # xs)" "?f \<notin> set us"
    using ring_from_freep [OF ok] .
  have small: "\<not> n \<le> h_size (?m u)" if "u \<in> set (?f # us)" for u using that n d(2) unfolding us(2) by auto
  have "malloc_loop n ?f (h_ptr (?m ?f)) h s = malloc_loop n (last (?f # us)) ?f h s"
    using malloc_walk [OF us(1)] small us(3) by (metis list.set_intros(2))
  then show ?thesis using small [of ?f] by (subst (asm) (2) malloc_loop.simps) simp
qed

section \<open>Growing the heap\<close>

abbreviation cur_brk :: "('d, 'a) mmst_scheme \<Rightarrow> nat" where
  "cur_brk s \<equiv> unat (brk (pcbs s (current_running s)))"

lemma round_page:
  assumes "unat a + 4096 \<le> 2 ^ 64"
  shows "unat a \<le> unat (ROUND a PAGE_SIZE)" "unat (ROUND a PAGE_SIZE) \<le> unat a + 4095"
proof -
  have "ROUND a PAGE_SIZE = (a + 4095) AND NOT (mask 12)" by (simp add: ROUND_def PAGE_SIZE_def mask_eq_exp_minus_1 add.commute)
  moreover have "unat (a + 4095) = unat a + 4095" using assms by (simp add: unat_word_ariths)
  ultimately have r: "unat (ROUND a PAGE_SIZE) = (unat a + 4095) div 4096 * 4096" using unat_and_not_mask [of "a + 4095" 12] by simp
  have "(unat a + 4095) mod 4096 < 4096" by simp
  then show "unat a \<le> unat (ROUND a PAGE_SIZE)" "unat (ROUND a PAGE_SIZE) \<le> unat a + 4095"
    unfolding r using div_mult_mod_eq [of "unat a + 4095" 4096] by linarith+
qed

lemma stack_end: "unat USER_STACK_END = 64424554496"
  by (simp add: USER_STACK_END_def USER_STACK_ADDR_def PAGE_SIZE_def)

lemma do_sbrk_spec:
  assumes brk: "cur_brk s < unat USER_STACK_END" and inc: "unat inc \<le> 2 ^ 63 + 65536"
  obtains "do_sbrk inc s = (- 1, s)"
  | s' where "do_sbrk inc s = (brk (pcbs s (current_running s)), s')" "cur_brk s + unat inc \<le> cur_brk s'"
    "cur_brk s' < unat USER_STACK_END"
proof -
  let ?b = "brk (pcbs s (current_running s))" and ?i = "ROUND inc PAGE_SIZE"
  define s' where "s' = upd_pcb (current_running s) (\<lambda>b. b\<lparr>brk := brk b + ?i\<rparr>) s"
  have r: "unat inc \<le> unat ?i" "unat ?i \<le> unat inc + 4095" using round_page [of inc] inc by auto
  have "unat ?b + unat ?i < 2 ^ 64" using r(2) inc brk stack_end by simp
  then have u: "unat (?b + ?i) = unat ?b + unat ?i" by (simp add: unat_word_ariths)
  have c: "cur_brk s' = unat (?b + ?i)" by (simp add: s'_def upd_pcb_def current_running_def)
  show thesis
  proof (cases "?b + ?i < USER_STACK_END")
    case True
    have "do_sbrk inc s = (?b, s')" using True by (simp add: do_sbrk_def s'_def Let_def)
    then show thesis by (rule that(2)) (use r u c True in \<open>simp_all add: word_less_nat_alt\<close>)
  qed (use that(1) in \<open>simp add: do_sbrk_def Let_def\<close>)
qed

text \<open>Blocks do not touch, so bytes that are free in a row are in one block.\<close>

lemma row_in_block:
  assumes ok: "blocks_ok m lo hi xs" and row: "{b..<b + 16 * k} \<subseteq> free_bytes m xs" "0 < k"
  shows "\<exists>x \<in> set xs. k \<le> unat (h_size (m x))"
proof -
  have "b \<in> free_bytes m xs" using row by auto
  then obtain x where x: "x \<in> set xs" "b \<in> span m x" by (auto simp: free_bytes_def)
  obtain ps bs where xs: "xs = ps @ x # bs" using split_list [OF x(1)] by blast
  have "fin m x \<notin> span m y" if "y \<in> set xs" for y
  proof -
    consider "y = x" | "y \<in> set ps" | "y \<in> set bs" using \<open>y \<in> set xs\<close> xs by auto
    then show ?thesis
    proof cases
      case 2
      then have "span m x \<inter> span m y = {}" using blocks_ok_disjoint(1) [OF ok [unfolded xs]] by (auto simp: free_bytes_def)
      obtain as cs where "ps = as @ y # cs" using split_list [OF 2] by blast
      then have "blocks_ok m (Suc (fin m y)) hi (cs @ x # bs)" using ok xs by auto
      then show ?thesis using blocks_ok_mem(1) [of m _ hi "cs @ x # bs" x] by (fastforce simp: span_def fin_def)
    next
      case 3
      then show ?thesis using ok xs blocks_ok_mem(1) [of m "Suc (fin m x)" hi bs y] by (auto simp: span_def)
    qed (simp add: span_def)
  qed
  then have "fin m x \<notin> {b..<b + 16 * k}" using row(1) by (auto simp: free_bytes_def)
  then have "b + 16 * k \<le> fin m x" "unat x \<le> b" using x(2) by (auto simp: span_def)
  then have "16 * k \<le> 16 * unat (h_size (m x))" by (simp add: fin_def)
  then show ?thesis using x(1) by auto
qed

lemma heap_ok_weaken: "heap_ok base hi h xs \<Longrightarrow> hi \<le> hi' \<Longrightarrow> hi' < 2 ^ 64 \<Longrightarrow> heap_ok base hi' h xs"
  using blocks_ok_weaken [OF _ order_refl] by (auto simp: heap_ok_def)

lemma morecore_spec:
  assumes ok: "heap_ok base (cur_brk s) h xs" and brk: "unat base + 16 \<le> cur_brk s" "cur_brk s < unat USER_STACK_END"
    and n: "unat n \<le> 2 ^ 59 + 1"
  obtains "morecore n h s = Some (0, h, s)" "fst (do_sbrk (core_units n * 16) s) = - 1"
  | h' s' xs' nu where "morecore n h s = Some (freep h', h', s')" "heap_ok base (cur_brk s') h' xs'"
    "cur_brk s + 16 * nu \<le> cur_brk s'" "cur_brk s' < unat USER_STACK_END" "unat n \<le> nu"
    "free_bytes (hdr h') xs' = free_bytes (hdr h) xs \<union> {cur_brk s..<cur_brk s + 16 * nu}"
    "\<And>a. unat a < cur_brk s \<Longrightarrow> a \<notin> set (base # xs) \<Longrightarrow> hdr h' a = hdr h a"
proof -
  define nu where "nu = core_units n"
  let ?bp = "brk (pcbs s (current_running s))"
  have nu: "unat nu \<le> 2 ^ 59 + 1" "unat n \<le> unat nu" "0 < nu" using n by (auto simp: nu_def core_units_def word_less_nat_alt)
  have "16 * unat nu < 2 ^ 64" using nu(1) by simp
  then have inc: "unat (nu * 16) = 16 * unat nu" by (simp add: unat_word_ariths mult.commute)
  then have i: "unat (nu * 16) \<le> 2 ^ 63 + 65536" using nu(1) by simp
  show thesis
  proof (cases rule: do_sbrk_spec [OF brk(2) i])
    case 1
    then show thesis using that(1) by (simp add: morecore_def nu_def Let_def)
  next
    case (2 s')
    define h1 where "h1 = upd_hdr ?bp (\<lambda>b. b\<lparr>h_size := nu\<rparr>) h"
    have h1: "hdr h1 = (hdr h)(?bp := (hdr h ?bp)\<lparr>h_size := nu\<rparr>)" "freep h1 = freep h" by (simp_all add: h1_def upd_hdr_def)
    note d = heap_okD [OF ok]
    have hi: "cur_brk s' < 2 ^ 64" using 2(3) stack_end by simp
    have "?bp \<noteq> x" if "x \<in> set (base # xs)" for x
      using that brk(1) blocks_ok_mem(2,3) [OF d(3), of x] by (auto simp: fin_def word_less_nat_alt)
    then have k: "hdr h1 x = hdr h x" if "x \<in> set (base # xs)" for x using that h1(1) by auto
    have "heap_ok base (cur_brk s) h1 xs"
    proof (rule heap_okI)
      show "path (hdr h1) base (base # xs) base" using d(1) path_cong [of "base # xs" "hdr h1" "hdr h"] k by metis
      show "blocks_ok (hdr h1) (unat base + 16) (cur_brk s) xs" using d(3) blocks_ok_cong [of xs "hdr h1" "hdr h"] k by simp
    qed (use d k [of base] h1(2) in auto)
    then have ok1: "heap_ok base (cur_brk s') h1 xs" using heap_ok_weaken 2(2) hi by auto
    have f1: "fin (hdr h1) ?bp = cur_brk s + 16 * unat nu" by (simp add: h1(1) fin_def)
    have fb: "free_bytes (hdr h1) xs = free_bytes (hdr h) xs" using free_bytes_cong [of xs "hdr h1" "hdr h"] k by simp
    have "free_bytes (hdr h) xs \<subseteq> {..<cur_brk s}" using blocks_ok_mem(3) [OF d(3)] by (fastforce simp: free_bytes_def span_def)
    then have dj: "span (hdr h1) ?bp \<inter> free_bytes (hdr h1) xs = {}" unfolding fb by (auto simp: span_def)
    have "0 < h_size (hdr h1 ?bp)" "fin (hdr h1) ?bp \<le> cur_brk s'" using h1(1) nu(3) f1 2(2) inc by simp_all
    then obtain h' xs' where h': "free (?bp + 16) h1 = Some h'" "heap_ok base (cur_brk s') h' xs'"
      "free_bytes (hdr h') xs' = free_bytes (hdr h1) xs \<union> span (hdr h1) ?bp"
      "\<And>a. a \<noteq> ?bp \<Longrightarrow> a \<notin> set (base # xs) \<Longrightarrow> hdr h' a = hdr h1 a"
      using free_spec [OF ok1 _ brk(1) _ dj] by blast
    have "unat (- 1 :: u64) = 2 ^ 64 - 1" by (simp add: unsigned_minus_1_eq_mask mask_eq_exp_minus_1)
    then have "?bp \<noteq> - 1" using brk(2) stack_end by fastforce
    then have "morecore n h s = Some (freep h', h', s')"
      using 2(1) h'(1) by (simp add: morecore_def nu_def h1_def Let_def)
    moreover have "hdr h' a = hdr h a" if a: "unat a < cur_brk s" "a \<notin> set (base # xs)" for a
    proof -
      have "a \<noteq> ?bp" using a(1) by auto
      then show ?thesis using h'(4) [OF _ a(2)] h1(1) by simp
    qed
    moreover have "free_bytes (hdr h') xs' = free_bytes (hdr h) xs \<union> {cur_brk s..<cur_brk s + 16 * unat nu}"
      using h'(3) fb f1 by (simp add: span_def)
    ultimately show thesis using that(2) [of h' s' xs' "unat nu"] h'(2) 2(2,3) inc nu(2) by simp
  qed
qed

section \<open>\<^verbatim>\<open>malloc\<close>\<close>

definition heap_inv :: "u64 \<Rightarrow> heap \<Rightarrow> ('d, 'a) mmst_scheme \<Rightarrow> u64 list \<Rightarrow> bool" where
  "heap_inv base h s xs \<longleftrightarrow> heap_ok base (cur_brk s) (start_list base h) xs \<and>
     unat base + 16 \<le> cur_brk s \<and> cur_brk s < unat USER_STACK_END"

text \<open>The size is not checked: the largest request wraps around to a single unit.\<close>

lemma nunits_of_wraps: "nunits_of (- 1) = 1"
  by (simp add: nunits_of_def)

lemma nunits_of_val:
  assumes "nbytes < 2 ^ 63"
  shows "unat (nunits_of nbytes) \<le> 2 ^ 59 + 1" "unat nbytes + 16 \<le> 16 * unat (nunits_of nbytes)" "0 < nunits_of nbytes"
proof -
  have b: "unat nbytes < 2 ^ 63" using assms by (simp add: word_less_nat_alt)
  then have "unat (nbytes + 15) = unat nbytes + 15" by (simp add: unat_word_ariths)
  then have "unat ((nbytes + 15) div 16) = (unat nbytes + 15) div 16" by (simp add: unat_div)
  then have u: "unat (nunits_of nbytes) = (unat nbytes + 15) div 16 + 1" using b by (simp add: nunits_of_def unat_word_ariths)
  show "unat (nunits_of nbytes) \<le> 2 ^ 59 + 1" unfolding u using b by simp
  have "k + 16 \<le> 16 * ((k + 15) div 16 + 1)" for k :: nat by presburger
  then show "unat nbytes + 16 \<le> 16 * unat (nunits_of nbytes)" unfolding u .
  show "0 < nunits_of nbytes" using u by (simp add: word_less_nat_alt)
qed

lemma start_list_id: "freep h \<noteq> 0 \<Longrightarrow> start_list base h = h"
  by (simp add: start_list_def)

lemma heap_ok_freep: "heap_ok base hi h xs \<Longrightarrow> freep h \<noteq> 0"
  using heap_okD(5,6,7) by (fastforce simp: word_greater_zero_iff dest: order.strict_trans2)

text \<open>A block of the right size, out of the bytes \<open>F\<close> that were free.\<close>

lemma take_from:
  assumes ok: "heap_ok base (cur_brk s) h xs" and n: "0 < n" "x \<in> set xs" "n \<le> h_size (hdr h x)"
  obtains r h' xs' where "malloc_loop n (freep h) (h_ptr (hdr h (freep h))) h s = Some (r + 16, h', s)"
    "heap_ok base (cur_brk s) h' xs'" "h_size (hdr h' r) = n" "span (hdr h') r \<subseteq> free_bytes (hdr h) xs"
    "free_bytes (hdr h') xs' = free_bytes (hdr h) xs - span (hdr h') r"
    "\<And>a. a \<noteq> r \<Longrightarrow> a \<notin> set (base # xs) \<Longrightarrow> hdr h' a = hdr h a"
proof -
  obtain as q v bs where q: "base # xs = as @ q # v # bs" "n \<le> h_size (hdr h v)"
    "malloc_loop n (freep h) (h_ptr (hdr h (freep h))) h s = (case take_block n q v h of (r, h') \<Rightarrow> Some (r, h', s))"
    using malloc_loop_fit [OF ok n] by blast
  obtain r h' xs' where r: "take_block n q v h = (r + 16, h')" "heap_ok base (cur_brk s) h' xs'" "h_size (hdr h' r) = n"
    "span (hdr h') r \<subseteq> free_bytes (hdr h) xs" "free_bytes (hdr h') xs' = free_bytes (hdr h) xs - span (hdr h') r"
    "\<And>a. a \<noteq> r \<Longrightarrow> a \<notin> set (base # xs) \<Longrightarrow> hdr h' a = hdr h a"
    using take_block_spec [OF ok q(1,2) n(1)] by blast
  show thesis using that [OF _ r(2-6)] q(3) r(1) by simp
qed

lemma sub_bounds:
  assumes ok: "heap_ok base hi h xs" and r: "span m r \<subseteq> free_bytes (hdr h) xs" "0 < h_size (m r)"
  shows "unat base + 16 \<le> unat r" "fin m r \<le> hi" "unat (r + 16) = unat r + 16"
proof -
  note d = heap_okD [OF ok]
  have f: "free_bytes (hdr h) xs \<subseteq> {unat base + 16..<hi}"
    using blocks_ok_mem(1,3) [OF d(3)] by (fastforce simp: free_bytes_def span_def)
  have "unat r \<in> span m r" "fin m r - 1 \<in> span m r" using r(2) by (auto simp: span_def fin_def word_less_nat_alt)
  then have "unat r \<in> {unat base + 16..<hi}" "fin m r - 1 \<in> {unat base + 16..<hi}" using r(1) f by blast+
  then show "unat base + 16 \<le> unat r" "fin m r \<le> hi" by auto
  then have "unat r + 16 < 2 ^ 64" using r(2) d(4) by (simp add: fin_def word_less_nat_alt)
  then show "unat (r + 16) = unat r + 16" by (simp add: unat_word_ariths)
qed

lemma malloc_spec:
  assumes inv: "heap_inv base h s xs" and nb: "nbytes < 2 ^ 63"
  obtains "malloc base nbytes h s = Some (0, start_list base h, s)" "\<forall>x \<in> set xs. \<not> nunits_of nbytes \<le> h_size (hdr h x)"
    "fst (do_sbrk (core_units (nunits_of nbytes) * 16) s) = - 1"
  | r h' s' xs' F where "malloc base nbytes h s = Some (r + 16, h', s')" "heap_inv base h' s' xs'" "freep h' \<noteq> 0" "h_size (hdr h' r) = nunits_of nbytes"
    "unat base + 16 \<le> unat r" "fin (hdr h') r \<le> cur_brk s'" "unat (r + 16) = unat r + 16"
    "F \<subseteq> {cur_brk s..<cur_brk s'}" "cur_brk s \<le> cur_brk s'" "span (hdr h') r \<subseteq> free_bytes (hdr (start_list base h)) xs \<union> F"
    "free_bytes (hdr h') xs' = free_bytes (hdr (start_list base h)) xs \<union> F - span (hdr h') r"
    "\<And>a. a \<noteq> r \<Longrightarrow> unat a < cur_brk s \<Longrightarrow> unat a \<notin> insert (unat base) (free_bytes (hdr (start_list base h)) xs) \<Longrightarrow> hdr h' a = hdr h a"
proof -
  define h1 where "h1 = start_list base h"
  have ok: "heap_ok base (cur_brk s) h1 xs" and brk: "unat base + 16 \<le> cur_brk s" "cur_brk s < unat USER_STACK_END"
    using inv by (simp_all add: heap_inv_def h1_def)
  let ?n = "nunits_of nbytes"
  note n = nunits_of_val [OF nb]
  have r0: "malloc base nbytes h s = malloc_loop ?n (freep h1) (h_ptr (hdr h1 (freep h1))) h1 s" by (simp add: malloc_def h1_def Let_def)
  have b: "hdr h1 a = hdr h a" if "a \<noteq> base" for a using that by (simp add: h1_def start_list_def upd_hdr_def)
  have low: "x \<noteq> a" if "x \<in> set (base # ys)" "unat a \<notin> insert (unat base) (free_bytes (hdr g) ys)" "heap_ok base k g ys" for x a g ys k
    using that heap_okD(3) [OF that(3)] blocks_ok_mem(2) by (fastforce simp: free_bytes_def span_def fin_def word_less_nat_alt)
  show thesis
  proof (cases "\<exists>x \<in> set xs. ?n \<le> h_size (hdr h1 x)")
    case True
    then obtain r h' xs' where r: "malloc base nbytes h s = Some (r + 16, h', s)"
      "heap_ok base (cur_brk s) h' xs'" "h_size (hdr h' r) = ?n" "span (hdr h') r \<subseteq> free_bytes (hdr h1) xs"
      "free_bytes (hdr h') xs' = free_bytes (hdr h1) xs - span (hdr h') r"
      "\<And>a. a \<noteq> r \<Longrightarrow> a \<notin> set (base # xs) \<Longrightarrow> hdr h' a = hdr h1 a"
      using take_from [OF ok n(3)] r0 by metis
    have "heap_inv base h' s xs'" using r(2) brk start_list_id [OF heap_ok_freep [OF r(2)]] by (simp add: heap_inv_def)
    moreover have "hdr h' a = hdr h a" if "a \<noteq> r" "unat a \<notin> insert (unat base) (free_bytes (hdr h1) xs)" for a
    proof -
      have "a \<notin> set (base # xs)" using low [OF _ that(2) ok] by blast
      then show ?thesis using r(6) [OF that(1)] b by simp
    qed
    moreover have "0 < h_size (hdr h' r)" using r(3) n(3) by simp
    note sub_bounds [OF ok r(4) this]
    ultimately show thesis using that(2) [OF r(1) _ heap_ok_freep [OF r(2)] r(3), of xs' "{}"] r(4,5) by (simp add: h1_def)
  next
    case False
    then have none: "\<forall>x \<in> set xs. \<not> ?n \<le> h_size (hdr h1 x)" by blast
    note more = malloc_loop_more [OF ok n(3) none, of s]
    show thesis
    proof (cases rule: morecore_spec [OF ok brk n(1)])
      case 1
      then have "malloc base nbytes h s = Some (0, h1, s)" using r0 more by simp
      moreover have "x \<noteq> base" if "x \<in> set xs" for x using that heap_okD(7) [OF ok] by auto
      ultimately show thesis using that(1) none b h1_def 1(2) by auto
    next
      case (2 h2 s2 xs2 nu)
      have "\<exists>x \<in> set xs2. nu \<le> unat (h_size (hdr h2 x))"
        using row_in_block [OF heap_okD(3) [OF 2(2)], of "cur_brk s" nu] 2(6) 2(5) n(3) by (auto simp: word_less_nat_alt)
      then obtain x where x: "x \<in> set xs2" "?n \<le> h_size (hdr h2 x)" using 2(5) by (auto simp: word_le_nat_alt)
      obtain r h' xs' where r: "malloc_loop ?n (freep h2) (h_ptr (hdr h2 (freep h2))) h2 s2 = Some (r + 16, h', s2)"
        "heap_ok base (cur_brk s2) h' xs'" "h_size (hdr h' r) = ?n" "span (hdr h') r \<subseteq> free_bytes (hdr h2) xs2"
        "free_bytes (hdr h') xs' = free_bytes (hdr h2) xs2 - span (hdr h') r"
        "\<And>a. a \<noteq> r \<Longrightarrow> a \<notin> set (base # xs2) \<Longrightarrow> hdr h' a = hdr h2 a"
        using take_from [OF 2(2) n(3) x] by blast
      have f2: "freep h2 \<noteq> 0" using heap_ok_freep [OF 2(2)] .
      have m: "malloc base nbytes h s = Some (r + 16, h', s2)" using r0 more 2(1) f2 r(1) by simp
      have "heap_inv base h' s2 xs'"
        using r(2) brk 2(3,4) start_list_id [OF heap_ok_freep [OF r(2)]] by (simp add: heap_inv_def)
      moreover have "hdr h' a = hdr h a"
        if a: "a \<noteq> r" "unat a < cur_brk s" "unat a \<notin> insert (unat base) (free_bytes (hdr h1) xs)" for a
      proof -
        have "a \<notin> set (base # xs)" using low [OF _ a(3) ok] by blast
        moreover have "unat a \<notin> insert (unat base) (free_bytes (hdr h2) xs2)" using a 2(6) by auto
        then have "a \<notin> set (base # xs2)" using low [OF _ _ 2(2)] by blast
        ultimately show ?thesis using r(6) [OF a(1)] 2(7) [OF a(2)] b by simp
      qed
      moreover have "0 < h_size (hdr h' r)" using r(3) n(3) by simp
      note sub_bounds [OF 2(2) r(4) this]
      moreover have "{cur_brk s..<cur_brk s + 16 * nu} \<subseteq> {cur_brk s..<cur_brk s2}" using 2(3) by auto
      ultimately show thesis
        using that(2) [OF m _ heap_ok_freep [OF r(2)] r(3), of xs' "{cur_brk s..<cur_brk s + 16 * nu}"] r(4,5) 2(3,6) by (simp add: h1_def)
    qed
  qed
qed

section \<open>A client of the heap\<close>

text \<open>
  The blocks \<open>A\<close> a program holds, by the address of their headers. Between the calls it stores what it
  likes into its blocks behind their headers, and the kernel does anything that leaves its break.
\<close>

inductive heap_step ::
  "u64 \<Rightarrow> heap \<times> ('d, 'a) mmst_scheme \<times> u64 set \<Rightarrow> heap \<times> ('d, 'a) mmst_scheme \<times> u64 set \<Rightarrow> bool" for base where
  got: "malloc base nbytes h s = Some (p, h', s') \<Longrightarrow> p \<noteq> 0 \<Longrightarrow> nbytes < 2 ^ 63 \<Longrightarrow>
    heap_step base (h, s, A) (h', s', insert (p - 16) A)"
| failed: "malloc base nbytes h s = Some (0, h', s') \<Longrightarrow> nbytes < 2 ^ 63 \<Longrightarrow> heap_step base (h, s, A) (h', s', A)"
| freed: "r \<in> A \<Longrightarrow> free (r + 16) h = Some h' \<Longrightarrow> heap_step base (h, s, A) (h', s, A - {r})"
| stored: "\<forall>a. (\<forall>r \<in> A. \<not> (unat r < unat a \<and> unat a < fin (hdr h) r)) \<longrightarrow> hdr h' a = hdr h a \<Longrightarrow> freep h' = freep h \<Longrightarrow>
    heap_step base (h, s, A) (h', s, A)"
| kernel: "cur_brk s' = cur_brk s \<Longrightarrow> heap_step base (h, s, A) (h, s', A)"

definition held_ok :: "u64 \<Rightarrow> nat \<Rightarrow> (u64 \<Rightarrow> header) \<Rightarrow> nat set \<Rightarrow> u64 set \<Rightarrow> bool" where
  "held_ok base b m F A \<longleftrightarrow> (\<forall>r \<in> A. 0 < h_size (m r) \<and> unat base + 16 \<le> unat r \<and> fin m r \<le> b \<and> span m r \<inter> F = {}) \<and>
     (\<forall>r \<in> A. \<forall>r' \<in> A. r \<noteq> r' \<longrightarrow> span m r \<inter> span m r' = {})"

definition alloc_inv :: "u64 \<Rightarrow> heap \<times> ('d, 'a) mmst_scheme \<times> u64 set \<Rightarrow> bool" where
  "alloc_inv base = (\<lambda>(h, s, A). \<exists>xs. heap_inv base h s xs \<and> (A \<noteq> {} \<longrightarrow> freep h \<noteq> 0) \<and>
     held_ok base (cur_brk s) (hdr h) (free_bytes (hdr (start_list base h)) xs) A)"

lemma held_ok_cong:
  assumes "held_ok base b m F A" "\<And>r. r \<in> A \<Longrightarrow> h_size (m' r) = h_size (m r)" "b \<le> b'" "\<And>r. r \<in> A \<Longrightarrow> span m r \<inter> F' = {}"
  shows "held_ok base b' m' F' A"
proof -
  have "fin m' r = fin m r" "span m' r = span m r" if "r \<in> A" for r using assms(2) [OF that] by (simp_all add: fin_def span_def)
  then show ?thesis using assms unfolding held_ok_def by (auto intro: order_trans)
qed

lemma held_okD:
  assumes "held_ok base b m F A" "r \<in> A"
  shows "0 < h_size (m r)" "unat base + 16 \<le> unat r" "fin m r \<le> b" "span m r \<inter> F = {}" "unat r \<in> span m r" "r \<noteq> base"
  using assms by (auto simp: held_ok_def span_def fin_def word_less_nat_alt)

lemma got_inv:
  assumes inv: "alloc_inv base (h, s, A)" and m: "malloc base nbytes h s = Some (p, h', s')" "p \<noteq> 0" "nbytes < 2 ^ 63"
  shows "alloc_inv base (h', s', insert (p - 16) A)" "p - 16 \<notin> A" "h_size (hdr h' (p - 16)) = nunits_of nbytes"
proof -
  obtain xs where xs: "heap_inv base h s xs" "A \<noteq> {} \<longrightarrow> freep h \<noteq> 0"
    and A: "held_ok base (cur_brk s) (hdr h) (free_bytes (hdr (start_list base h)) xs) A"
    using inv by (auto simp: alloc_inv_def)
  define F0 where "F0 = free_bytes (hdr (start_list base h)) xs"
  obtain r xs' F where r: "p = r + 16" "heap_inv base h' s' xs'" "freep h' \<noteq> 0" "h_size (hdr h' r) = nunits_of nbytes"
    and rb: "unat base + 16 \<le> unat r" "fin (hdr h') r \<le> cur_brk s'"
    and F: "F \<subseteq> {cur_brk s..<cur_brk s'}" "cur_brk s \<le> cur_brk s'" "span (hdr h') r \<subseteq> F0 \<union> F"
    "free_bytes (hdr h') xs' = F0 \<union> F - span (hdr h') r"
    "\<And>a. a \<noteq> r \<Longrightarrow> unat a < cur_brk s \<Longrightarrow> unat a \<notin> insert (unat base) F0 \<Longrightarrow> hdr h' a = hdr h a"
    unfolding F0_def by (rule malloc_spec [OF xs(1) m(3)]) (use m(1,2) in auto)
  note n = nunits_of_val [OF m(3)]
  have "unat r \<in> span (hdr h') r" using r(4) n(3) by (auto simp: span_def fin_def word_less_nat_alt)
  then have ur: "unat r \<in> F0 \<union> F" using F(3) by blast
  note D = held_okD [OF A [folded F0_def]]
  have ne: "unat r' < cur_brk s" "unat r' \<notin> insert (unat base) F0" "r' \<noteq> r" if "r' \<in> A" for r'
  proof -
    show l: "unat r' < cur_brk s" using D(3,5) [OF that] by (auto simp: span_def)
    show f: "unat r' \<notin> insert (unat base) F0" using D(2,4,5) [OF that] by auto
    show "r' \<noteq> r" using ur l f F(1) by auto
  qed
  show "p - 16 \<notin> A" using ne(3) r(1) by auto
  show "h_size (hdr h' (p - 16)) = nunits_of nbytes" using r(1,4) by simp
  have keep: "hdr h' r' = hdr h r'" if "r' \<in> A" for r' using F(5) ne that by blast
  have sub: "span (hdr h) r' \<inter> (F0 \<union> F) = {}" if "r' \<in> A" for r' using D(3,4) [OF that] F(1) by (fastforce simp: span_def)
  have "held_ok base (cur_brk s') (hdr h') (F0 \<union> F) A"
    using held_ok_cong [OF A, of "hdr h'" "cur_brk s'" "F0 \<union> F"] keep F(2) sub by simp
  moreover have "span (hdr h') r' \<inter> span (hdr h') r = {}" if "r' \<in> A" for r'
  proof -
    have "span (hdr h') r' = span (hdr h) r'" using keep [OF that] by (simp add: span_def fin_def)
    then show ?thesis using sub [OF that] F(3) by blast
  qed
  ultimately have "held_ok base (cur_brk s') (hdr h') (free_bytes (hdr h') xs') (insert r A)"
    unfolding held_ok_def using rb r(4) F(4) n(3) by auto
  then show "alloc_inv base (h', s', insert (p - 16) A)"
    using r(1,2,3) start_list_id [OF r(3)] by (auto simp: alloc_inv_def)
qed

lemma freed_inv:
  assumes inv: "alloc_inv base (h, s, A)" and r: "r \<in> A"
  obtains h' where "free (r + 16) h = Some h'" "alloc_inv base (h', s, A - {r})"
proof -
  obtain xs where xs: "heap_inv base h s xs" "freep h \<noteq> 0"
    and A: "held_ok base (cur_brk s) (hdr h) (free_bytes (hdr (start_list base h)) xs) A"
    using inv r by (auto simp: alloc_inv_def)
  note sl = start_list_id [OF xs(2), of base]
  have ok: "heap_ok base (cur_brk s) h xs" using xs(1) by (simp add: heap_inv_def sl)
  note D = held_okD [OF A [unfolded sl]]
  obtain h' xs' where h': "free (r + 16) h = Some h'" "heap_ok base (cur_brk s) h' xs'"
    "free_bytes (hdr h') xs' = free_bytes (hdr h) xs \<union> span (hdr h) r"
    "\<And>a. a \<noteq> r \<Longrightarrow> a \<notin> set (base # xs) \<Longrightarrow> hdr h' a = hdr h a"
    using free_spec [OF ok D(1,2,3,4) [OF r]] by blast
  have "r' \<notin> set xs" if "r' \<in> A" for r' using D(4,5) [OF that] by (auto simp: free_bytes_def)
  then have keep: "hdr h' r' = hdr h r'" if "r' \<in> A - {r}" for r' using that h'(4) [of r'] D(6) [of r'] by auto
  have sub: "span (hdr h) r' \<inter> (free_bytes (hdr h) xs \<union> span (hdr h) r) = {}" if "r' \<in> A - {r}" for r'
  proof -
    have "span (hdr h) r' \<inter> span (hdr h) r = {}" using A that r unfolding held_ok_def by blast
    then show ?thesis using D(4) [of r'] that by auto
  qed
  have "held_ok base (cur_brk s) (hdr h) (free_bytes (hdr h) xs) (A - {r})" using A unfolding sl held_ok_def by auto
  then have "held_ok base (cur_brk s) (hdr h') (free_bytes (hdr h') xs') (A - {r})"
    by (rule held_ok_cong) (use keep sub h'(3) in auto)
  then have "alloc_inv base (h', s, A - {r})"
    using h'(2) xs(1) start_list_id [OF heap_ok_freep [OF h'(2)], of base] heap_ok_freep [OF h'(2)]
    by (auto simp: alloc_inv_def heap_inv_def)
  then show thesis using that h'(1) by blast
qed

lemma stored_inv:
  assumes inv: "alloc_inv base (h, s, A)" and f: "freep h' = freep h"
    and st: "\<forall>a. (\<forall>r \<in> A. \<not> (unat r < unat a \<and> unat a < fin (hdr h) r)) \<longrightarrow> hdr h' a = hdr h a"
  shows "alloc_inv base (h', s, A)"
proof (cases "freep h = 0")
  case True
  then have "A = {}" using inv by (auto simp: alloc_inv_def)
  then have "hdr h' = hdr h" using st by auto
  then have "h' = h" using f by (cases h; cases h') simp
  then show ?thesis using inv by simp
next
  case False
  obtain xs where xs: "heap_inv base h s xs"
    and A: "held_ok base (cur_brk s) (hdr h) (free_bytes (hdr (start_list base h)) xs) A"
    using inv by (auto simp: alloc_inv_def)
  note sl = start_list_id [OF False, of base]
  have ok: "heap_ok base (cur_brk s) h xs" using xs by (simp add: heap_inv_def sl)
  note d = heap_okD [OF ok]
  note D = held_okD [OF A [unfolded sl]]
  have kx: "hdr h' x = hdr h x" if x: "x \<in> set xs" for x
  proof -
    have "unat x \<in> free_bytes (hdr h) xs" using x blocks_ok_mem(2) [OF d(3) x]
      by (auto simp: free_bytes_def span_def fin_def word_less_nat_alt)
    then have "unat x \<notin> span (hdr h) r" if "r \<in> A" for r using D(4) [OF that] by auto
    then show ?thesis using st by (auto simp: span_def)
  qed
  have "\<not> unat r < unat base" if "r \<in> A" for r using D(2) [OF that] by simp
  then have "hdr h' base = hdr h base" using st by blast
  then have kb: "hdr h' x = hdr h x" if "x \<in> set (base # xs)" for x using that kx by auto
  have kA: "hdr h' r = hdr h r" if r: "r \<in> A" for r
  proof -
    have "\<not> (unat r' < unat r \<and> unat r < fin (hdr h) r')" if r': "r' \<in> A" for r'
    proof (cases "r' = r")
      case False
      then have "span (hdr h) r \<inter> span (hdr h) r' = {}" using A r r' by (auto simp: held_ok_def)
      then show ?thesis using D(5) [OF r] by (auto simp: span_def)
    qed simp
    then show ?thesis using st by blast
  qed
  have "heap_ok base (cur_brk s) h' xs"
  proof (rule heap_okI)
    show "path (hdr h') base (base # xs) base" using d(1) path_cong [of "base # xs" "hdr h'" "hdr h"] kb by metis
    show "blocks_ok (hdr h') (unat base + 16) (cur_brk s) xs" using d(3) blocks_ok_cong [of xs "hdr h'" "hdr h"] kx by simp
  qed (use d kb f in auto)
  moreover have "free_bytes (hdr h') xs = free_bytes (hdr h) xs" using free_bytes_cong [of xs "hdr h'" "hdr h"] kx by simp
  moreover have "held_ok base (cur_brk s) (hdr h') (free_bytes (hdr h) xs) A"
    using held_ok_cong [OF A [unfolded sl]] kA D(4) by simp
  ultimately show ?thesis
    using xs False f start_list_id [of h' base] by (auto simp: alloc_inv_def heap_inv_def)
qed

lemma heap_step_inv: "heap_step base c c' \<Longrightarrow> alloc_inv base c \<Longrightarrow> alloc_inv base c'"
proof (induction rule: heap_step.induct)
  case (got nbytes h s p h' s' A)
  then show ?case using got_inv(1) by blast
next
  case (failed nbytes h s h' s' A)
  then obtain xs where xs: "heap_inv base h s xs" by (auto simp: alloc_inv_def)
  have "h' = start_list base h \<and> s' = s"
    by (rule malloc_spec [OF xs failed.hyps(2)]) (use failed.hyps(1) in auto)
  moreover have "freep (start_list base h) \<noteq> 0" using xs heap_ok_freep by (auto simp: heap_inv_def)
  then have "start_list base (start_list base h) = start_list base h" by (rule start_list_id)
  moreover have "A = {}" if "start_list base h \<noteq> h" using that failed.prems start_list_id by (auto simp: alloc_inv_def)
  ultimately show ?case
    using failed.prems xs by (cases "start_list base h = h") (auto simp: alloc_inv_def heap_inv_def held_ok_def)
next
  case (freed r A h h' s)
  then show ?case using freed_inv [OF freed.prems freed.hyps(1)] by force
next
  case (stored A h h' s)
  then show ?case using stored_inv by blast
next
  case (kernel s' s h A)
  then show ?case by (simp add: alloc_inv_def heap_inv_def)
qed

text \<open>
  C22: The user heap is safe: starting from an empty heap, after any sequence of \<^verbatim>\<open>malloc\<close> and \<^verbatim>\<open>free\<close> calls,
  stores into the blocks behind their headers and work of the kernel, the blocks a program holds are
  in its heap and do not overlap. \<^verbatim>\<open>free\<close> of each of them returns, and \<^verbatim>\<open>malloc\<close> returns for every request
  below 2^63 bytes: NULL only if the kernel refuses to move the break, and otherwise bytes of the heap
  that are in no block held.
\<close>

theorem malloc_safe:
  fixes s0 :: "('d, 'a) mmst_scheme"
  assumes start: "freep h0 = 0" "base \<noteq> 0" "unat base + 16 \<le> cur_brk s0" "cur_brk s0 < unat USER_STACK_END"
    and steps: "(heap_step base)\<^sup>*\<^sup>* (h0, s0, {}) (h, s, A)"
  shows "(\<forall>r \<in> A. unat base + 16 \<le> unat r \<and> fin (hdr h) r \<le> cur_brk s) \<and>
    (\<forall>r \<in> A. \<forall>r' \<in> A. r \<noteq> r' \<longrightarrow> span (hdr h) r \<inter> span (hdr h) r' = {}) \<and>
    (\<forall>r \<in> A. \<exists>h'. free (r + 16) h = Some h') \<and>
    (\<forall>nbytes < 2 ^ 63. \<exists>p h' s'. malloc base nbytes h s = Some (p, h', s') \<and>
      (p = 0 \<longrightarrow> fst (do_sbrk (core_units (nunits_of nbytes) * 16) s) = - 1) \<and> (p \<noteq> 0 \<longrightarrow>
      (\<forall>b \<in> {unat p..<unat p + unat nbytes}. unat base + 16 \<le> b \<and> b < cur_brk s' \<and> b \<notin> (\<Union>r \<in> A. span (hdr h) r))))"
proof -
  have "heap_ok base (cur_brk s0) (start_list base h0) []"
    using start stack_end by (simp add: heap_ok_def start_list_def upd_hdr_def)
  then have "alloc_inv base (h0, s0, {})" using start by (auto simp: alloc_inv_def heap_inv_def held_ok_def)
  with steps have inv: "alloc_inv base (h, s, A)" by (induction rule: rtranclp_induct) (auto dest: heap_step_inv)
  then obtain xs where xs: "heap_inv base h s xs"
    and A: "held_ok base (cur_brk s) (hdr h) (free_bytes (hdr (start_list base h)) xs) A" by (auto simp: alloc_inv_def)
  have "\<exists>p h' s'. malloc base nbytes h s = Some (p, h', s') \<and>
      (p = 0 \<longrightarrow> fst (do_sbrk (core_units (nunits_of nbytes) * 16) s) = - 1) \<and> (p \<noteq> 0 \<longrightarrow>
      (\<forall>b \<in> {unat p..<unat p + unat nbytes}. unat base + 16 \<le> b \<and> b < cur_brk s' \<and> b \<notin> (\<Union>r \<in> A. span (hdr h) r)))"
    if nb: "nbytes < 2 ^ 63" for nbytes
  proof (cases rule: malloc_spec [OF xs nb])
    case (2 r h' s' xs' F)
    have sp: "{unat (r + 16)..<unat (r + 16) + unat nbytes} \<subseteq> span (hdr h') r"
      using nunits_of_val(2) [OF nb] 2(4,7) by (auto simp: span_def fin_def)
    have "span (hdr h') r \<inter> span (hdr h) r' = {}" if "r' \<in> A" for r'
      using 2(8,10) held_okD(3,4) [OF A that] by (fastforce simp: span_def)
    then have "\<forall>b \<in> {unat (r + 16)..<unat (r + 16) + unat nbytes}. unat base + 16 \<le> b \<and> b < cur_brk s' \<and> b \<notin> (\<Union>r \<in> A. span (hdr h) r)"
      using 2(5,6) sp by (fastforce simp: span_def)
    moreover have "r + 16 \<noteq> 0" using 2(7) by auto
    ultimately show ?thesis using 2(1) by blast
  qed auto
  moreover have "\<forall>r \<in> A. \<exists>h'. free (r + 16) h = Some h'" using freed_inv [OF inv] by blast
  ultimately show ?thesis using A by (auto simp: held_ok_def)
qed

section \<open>Taking and putting back\<close>

text \<open>The joined list is determined by the set of free bytes.\<close>

lemma blocks_first:
  assumes "blocks_ok m lo hi (x # xs)"
  shows "unat x \<in> free_bytes m (x # xs)" "\<forall>b \<in> free_bytes m (x # xs). unat x \<le> b"
    "fin m x \<notin> free_bytes m (x # xs)" "{unat x..<fin m x} \<subseteq> free_bytes m (x # xs)" "unat x < fin m x"
    "free_bytes m xs = free_bytes m (x # xs) - {..<fin m x}"
proof -
  have x: "unat x < fin m x" using assms by (simp add: fin_def word_less_nat_alt)
  have r: "fin m x < b" if "b \<in> free_bytes m xs" for b
    using that blocks_ok_mem(1) [of m "Suc (fin m x)" hi xs] assms by (fastforce simp: free_bytes_def span_def)
  show "unat x \<in> free_bytes m (x # xs)" "{unat x..<fin m x} \<subseteq> free_bytes m (x # xs)" "unat x < fin m x"
    using x by (auto simp: span_def)
  show "fin m x \<notin> free_bytes m (x # xs)" using r by (auto simp: span_def)
  show "\<forall>b \<in> free_bytes m (x # xs). unat x \<le> b" using r x by (fastforce simp: span_def)
  show "free_bytes m xs = free_bytes m (x # xs) - {..<fin m x}" using r by (fastforce simp: span_def)
qed

lemma blocks_unique:
  "blocks_ok m lo hi xs \<Longrightarrow> blocks_ok m' lo' hi' ys \<Longrightarrow> free_bytes m xs = free_bytes m' ys \<Longrightarrow>
    xs = ys \<and> (\<forall>x \<in> set xs. h_size (m x) = h_size (m' x))"
proof (induction xs arbitrary: ys lo lo')
  case Nil
  then show ?case using blocks_first(1) [of m' lo' hi'] by (cases ys) auto
next
  case (Cons x xs)
  then obtain y ys1 where ys: "ys = y # ys1" using blocks_first(1) [OF Cons.prems(1)] by (cases ys) auto
  note X = blocks_first [OF Cons.prems(1)] and Y = blocks_first [OF Cons.prems(2) [unfolded ys]]
  have eq: "free_bytes m (x # xs) = free_bytes m' (y # ys1)" using Cons.prems(3) ys by simp
  have xy: "unat x = unat y" using X(1,2) Y(1,2) unfolding eq by (meson antisym)
  have "fin m x \<notin> {unat y..<fin m' y}" using X(3) Y(4) unfolding eq by blast
  moreover have "fin m' y \<notin> {unat x..<fin m x}" using Y(3) X(4) unfolding eq by blast
  ultimately have f: "fin m x = fin m' y" using X(5) Y(5) xy by auto
  have "x = y" using xy by (simp add: word_unat_eq_iff)
  moreover have "h_size (m x) = h_size (m' y)" using f xy by (simp add: fin_def word_unat_eq_iff)
  moreover have "free_bytes m xs = free_bytes m' ys1" unfolding X(6) Y(6) eq f ..
  moreover have "blocks_ok m (Suc (fin m x)) hi xs" "blocks_ok m' (Suc (fin m' y)) hi' ys1" using Cons.prems(1,2) ys by auto
  ultimately show ?case using Cons.IH ys by auto
qed

text \<open>
  C32: A block that \<^verbatim>\<open>malloc\<close> cuts from the free list and that is freed again leaves the heap as it was: the
  same blocks with the same sizes are in the free list, whether the block was the whole or a part of
  a free block.
\<close>

theorem malloc_free_roundtrip:
  assumes inv: "heap_inv base h s xs" and nb: "nbytes < 2 ^ 63" "\<exists>x \<in> set xs. nunits_of nbytes \<le> h_size (hdr h x)"
  shows "\<exists>p h1 h2. malloc base nbytes h s = Some (p, h1, s) \<and> free p h1 = Some h2 \<and> heap_inv base h2 s xs \<and>
    (\<forall>x \<in> set xs. h_size (hdr h2 x) = h_size (hdr h x))"
proof -
  note n = nunits_of_val [OF nb(1)]
  have xs: "xs \<noteq> []" using nb(2) by auto
  have "freep h \<noteq> 0"
  proof
    assume "freep h = 0"
    then have "h_ptr (hdr (start_list base h) base) = base" by (simp add: start_list_def upd_hdr_def)
    then have "path (hdr (start_list base h)) base xs base" using inv by (simp add: heap_inv_def heap_ok_def)
    moreover have "base \<notin> set xs" using inv heap_okD(7) by (fastforce simp: heap_inv_def)
    ultimately show False using xs by (cases xs) auto
  qed
  note sl = start_list_id [OF this, of base]
  have ok: "heap_ok base (cur_brk s) h xs" "unat base + 16 \<le> cur_brk s" "cur_brk s < unat USER_STACK_END"
    using inv by (simp_all add: heap_inv_def sl)
  obtain x where x: "x \<in> set xs" "nunits_of nbytes \<le> h_size (hdr h x)" using nb(2) by blast
  have m: "malloc base nbytes h s = malloc_loop (nunits_of nbytes) (freep h) (h_ptr (hdr h (freep h))) h s"
    by (simp add: malloc_def sl Let_def)
  obtain r h1 xs1 where r: "malloc base nbytes h s = Some (r + 16, h1, s)"
    "heap_ok base (cur_brk s) h1 xs1" "h_size (hdr h1 r) = nunits_of nbytes" "span (hdr h1) r \<subseteq> free_bytes (hdr h) xs"
    "free_bytes (hdr h1) xs1 = free_bytes (hdr h) xs - span (hdr h1) r"
    unfolding m by (rule take_from [OF ok(1) n(3) x]) blast
  have z: "0 < h_size (hdr h1 r)" using r(3) n(3) by simp
  note b = sub_bounds [OF ok(1) r(4) z]
  have dj: "span (hdr h1) r \<inter> free_bytes (hdr h1) xs1 = {}" using r(5) by auto
  obtain h2 xs2 where h2: "free (r + 16) h1 = Some h2" "heap_ok base (cur_brk s) h2 xs2"
    "free_bytes (hdr h2) xs2 = free_bytes (hdr h1) xs1 \<union> span (hdr h1) r"
    by (rule free_spec [OF r(2) z b(1,2) dj]) blast
  have "free_bytes (hdr h) xs = free_bytes (hdr h2) xs2" using h2(3) r(4,5) by auto
  then have "xs = xs2 \<and> (\<forall>x \<in> set xs. h_size (hdr h x) = h_size (hdr h2 x))"
    by (rule blocks_unique [OF heap_okD(3) [OF ok(1)] heap_okD(3) [OF h2(2)]])
  then show ?thesis
    using r(1) h2(1,2) ok(2,3) start_list_id [OF heap_ok_freep [OF h2(2)], of base] by (auto simp: heap_inv_def)
qed

section \<open>A concrete heap\<close>

text \<open>A program whose \<^verbatim>\<open>base\<close> is at 0x10000 and whose static data ends at 0x1f000.\<close>

definition demo_heap :: heap where
  "demo_heap = \<lparr>hdr = (\<lambda>_. \<lparr>h_ptr = 0, h_size = 0\<rparr>), freep = 0\<rparr>"

definition demo_user :: "(u32 \<Rightarrow> u64 list) mmst" where
  "demo_user = do_getbrk 0x1f000 demo_mm"

lemma demo_user_brk: "brk (pcbs demo_user (current_running demo_user)) = 0x20000"
  by (simp add: demo_user_def do_getbrk_def upd_pcb_def current_running_def demo_mm_def ROUNDDOWN_def PAGE_SIZE_def)

lemma demo_grows: "fst (do_sbrk (core_units (nunits_of 100) * 16) demo_user) = 0x20000"
  by (simp add: do_sbrk_def Let_def demo_user_brk core_units_def nunits_of_def ROUND_def PAGE_SIZE_def
    USER_STACK_END_def USER_STACK_ADDR_def)

theorem malloc_safe_witness:
  "\<exists>p h s h'. malloc 0x10000 100 demo_heap demo_user = Some (p, h, s) \<and> p \<noteq> 0 \<and> unat p + 100 \<le> cur_brk s \<and> free p h = Some h'"
proof -
  have st: "freep demo_heap = 0" "(0x10000 :: u64) \<noteq> 0" "unat (0x10000 :: u64) + 16 \<le> cur_brk demo_user"
    "cur_brk demo_user < unat USER_STACK_END"
    by (simp_all add: demo_heap_def demo_user_brk stack_end)
  have nb: "(100 :: u64) < 2 ^ 63" by simp
  obtain p h s where m: "malloc 0x10000 100 demo_heap demo_user = Some (p, h, s)"
    "p = 0 \<longrightarrow> fst (do_sbrk (core_units (nunits_of 100) * 16) demo_user) = - 1"
    "p \<noteq> 0 \<longrightarrow> (\<forall>b \<in> {unat p..<unat p + unat (100 :: u64)}. b < cur_brk s)"
    using malloc_safe [OF st rtranclp.rtrancl_refl] nb by meson
  have p: "p \<noteq> 0" using m(2) demo_grows by auto
  then have "heap_step 0x10000 (demo_heap, demo_user, {}) (h, s, insert (p - 16) {})" by (intro heap_step.got [OF m(1) _ nb])
  from malloc_safe [OF st r_into_rtranclp [of "heap_step 0x10000", OF this]]
  have "\<exists>h'. free (p - 16 + 16) h = Some h'" by blast
  moreover have "unat p + 99 < cur_brk s" using m(3) p by (auto dest: bspec [of _ _ "unat p + 99"])
  ultimately show ?thesis using m(1) p by auto
qed

text \<open>The heap after the first 64 KB came from the kernel.\<close>

definition demo_heap1 :: heap where
  "demo_heap1 = \<lparr>hdr = (\<lambda>a. if a = 0x10000 then \<lparr>h_ptr = 0x20000, h_size = 0\<rparr> else \<lparr>h_ptr = 0x10000, h_size = 4096\<rparr>),
     freep = 0x10000\<rparr>"

theorem malloc_free_roundtrip_witness:
  "\<exists>p h1 h2. malloc 0x10000 100 demo_heap1 (do_getbrk 0x2f000 demo_mm) = Some (p, h1, do_getbrk 0x2f000 demo_mm) \<and>
    free p h1 = Some h2 \<and> h_size (hdr h2 0x20000) = 4096"
proof -
  have b: "cur_brk (do_getbrk 0x2f000 demo_mm) = 0x30000"
    by (simp add: do_getbrk_def upd_pcb_def current_running_def demo_mm_def ROUNDDOWN_def PAGE_SIZE_def)
  have "heap_inv 0x10000 demo_heap1 (do_getbrk 0x2f000 demo_mm) [0x20000]"
    by (simp add: heap_inv_def b heap_ok_def start_list_def demo_heap1_def fin_def stack_end)
  from malloc_free_roundtrip [OF this, of 100] show ?thesis
    by (auto simp: demo_heap1_def nunits_of_def)
qed

end
