(* ===== verification/Net.thy ===== *)
theory Net
  imports Process
begin

text \<open>
  The network driver: src/drivers/e1000.c, src/kernel/net/net.c and the parts of src/drivers/e1000.h
  they use, with \<^verbatim>\<open>latency\<close> of src/kernel/sched/time.c.

  The adapter is a parameter: reading and writing one of its registers are functions on its state.
  Its work on the descriptor rings (filling receive buffers, marking descriptors done) happens
  between the calls below, on the fields of the state. The linker's addresses of the rings and packet
  buffers are the parameter \<open>nbufs\<close>. The packet buffers are flat byte arrays, as the two dimensional
  arrays of the source are in memory. The cache flushes have no effect here.

  A call that waits for a descriptor stops with what it needs to go on.
\<close>

section \<open>Registers and descriptors\<close>

definition TXDESCS :: nat where "TXDESCS = 64"
definition RXDESCS :: nat where "RXDESCS = 64"
definition TX_PKT_SIZE :: nat where "TX_PKT_SIZE = 2048"
definition RX_PKT_SIZE :: nat where "RX_PKT_SIZE = 2048"

definition E1000_ICR :: u32 where "E1000_ICR = 0xC0"
definition E1000_IMS :: u32 where "E1000_IMS = 0xD0"
definition E1000_IMC :: u32 where "E1000_IMC = 0xD8"
definition E1000_RCTL :: u32 where "E1000_RCTL = 0x100"
definition E1000_TCTL :: u32 where "E1000_TCTL = 0x400"
definition E1000_RDBAL :: u32 where "E1000_RDBAL = 0x2800"
definition E1000_RDBAH :: u32 where "E1000_RDBAH = 0x2804"
definition E1000_RDLEN :: u32 where "E1000_RDLEN = 0x2808"
definition E1000_RDH :: u32 where "E1000_RDH = 0x2810"
definition E1000_RDT :: u32 where "E1000_RDT = 0x2818"
definition E1000_TDBAL :: u32 where "E1000_TDBAL = 0x3800"
definition E1000_TDBAH :: u32 where "E1000_TDBAH = 0x3804"
definition E1000_TDLEN :: u32 where "E1000_TDLEN = 0x3808"
definition E1000_TDH :: u32 where "E1000_TDH = 0x3810"
definition E1000_TDT :: u32 where "E1000_TDT = 0x3818"
definition E1000_RA :: u32 where "E1000_RA = 0x5400"

definition E1000_RXD_STAT_DD :: u8 where "E1000_RXD_STAT_DD = 1"
definition E1000_RXD_STAT_EOP :: u8 where "E1000_RXD_STAT_EOP = 2"
definition E1000_TXD_CMD_EOP :: u8 where "E1000_TXD_CMD_EOP = 1"
definition E1000_TXD_CMD_RS :: u8 where "E1000_TXD_CMD_RS = 8"
definition E1000_TXD_STAT_DD :: u8 where "E1000_TXD_STAT_DD = 1"
definition E1000_RAH_AV :: u32 where "E1000_RAH_AV = 0x80000000"
definition E1000_ICR_TXQE :: u32 where "E1000_ICR_TXQE = 2"
definition E1000_ICR_RXDMT0 :: u32 where "E1000_ICR_RXDMT0 = 0x10"
definition E1000_RCTL_EN :: u32 where "E1000_RCTL_EN = 2"
definition E1000_RCTL_BAM :: u32 where "E1000_RCTL_BAM = 0x8000"
definition E1000_RCTL_SZ_2048 :: u32 where "E1000_RCTL_SZ_2048 = 0"
definition E1000_TCTL_EN :: u32 where "E1000_TCTL_EN = 2"
definition E1000_TCTL_PSP :: u32 where "E1000_TCTL_PSP = 8"

record e1000_rx_desc =
  rd_addr :: u64
  rd_length :: u16
  rd_csum :: u16
  rd_status :: u8
  rd_errors :: u8
  rd_special :: u16

record e1000_tx_desc =
  td_addr :: u64
  td_length :: u16
  td_cso :: u8
  td_cmd :: u8
  td_status :: u8
  td_css :: u8
  td_special :: u16

record 'n nic =
  nic_rd :: "u32 \<Rightarrow> 'n \<Rightarrow> u32 \<times> 'n"
  nic_wr :: "u32 \<Rightarrow> u32 \<Rightarrow> 'n \<Rightarrow> 'n"

record nbufs =
  tx_desc_va :: u64
  rx_desc_va :: u64
  tx_buf_va :: u64
  rx_buf_va :: u64

record ('d, 'n) netst = "'d prst" +
  tx_desc_array :: "nat \<Rightarrow> e1000_tx_desc"
  rx_desc_array :: "nat \<Rightarrow> e1000_rx_desc"
  tx_pkt_buffer :: bytes
  rx_pkt_buffer :: bytes
  e1000 :: 'n

definition e1000_read_reg :: "'n nic \<Rightarrow> u32 \<Rightarrow> ('d, 'n, 'a) netst_scheme \<Rightarrow> u32 \<times> ('d, 'n, 'a) netst_scheme" where
  "e1000_read_reg nic reg s = (let (v, d) = nic_rd nic reg (e1000 s) in (v, s\<lparr>e1000 := d\<rparr>))"

definition e1000_write_reg :: "'n nic \<Rightarrow> u32 \<Rightarrow> u32 \<Rightarrow> ('d, 'n, 'a) netst_scheme \<Rightarrow> ('d, 'n, 'a) netst_scheme" where
  "e1000_write_reg nic reg v s = s\<lparr>e1000 := nic_wr nic reg v (e1000 s)\<rparr>"

definition e1000_write_reg_array :: "'n nic \<Rightarrow> u32 \<Rightarrow> u32 \<Rightarrow> u32 \<Rightarrow> ('d, 'n, 'a) netst_scheme \<Rightarrow> ('d, 'n, 'a) netst_scheme" where
  "e1000_write_reg_array nic reg offset v s = s\<lparr>e1000 := nic_wr nic (reg + push_bit 2 offset) v (e1000 s)\<rparr>"

definition upd_tx :: "nat \<Rightarrow> (e1000_tx_desc \<Rightarrow> e1000_tx_desc) \<Rightarrow> ('d, 'n, 'a) netst_scheme \<Rightarrow> ('d, 'n, 'a) netst_scheme" where
  "upd_tx i f s = s\<lparr>tx_desc_array := (tx_desc_array s)(i := f (tx_desc_array s i))\<rparr>"

definition upd_rx :: "nat \<Rightarrow> (e1000_rx_desc \<Rightarrow> e1000_rx_desc) \<Rightarrow> ('d, 'n, 'a) netst_scheme \<Rightarrow> ('d, 'n, 'a) netst_scheme" where
  "upd_rx i f s = s\<lparr>rx_desc_array := (rx_desc_array s)(i := f (rx_desc_array s i))\<rparr>"

section \<open>Initialisation\<close>

partial_function (option) latency_loop :: "u64 \<Rightarrow> u64 \<Rightarrow> 'a kst_scheme \<Rightarrow> 'a kst_scheme option" where
  "latency_loop begin_time time s = (case get_timer s of (t, s1) \<Rightarrow>
     if t - begin_time < time then latency_loop begin_time time s1 else Some s1)"

definition latency :: "u64 \<Rightarrow> 'a kst_scheme \<Rightarrow> 'a kst_scheme option" where
  "latency time s = (case get_timer s of (begin_time, s1) \<Rightarrow> latency_loop begin_time time s1)"

partial_function (option) clear_icr :: "'n nic \<Rightarrow> ('d, 'n, 'a) netst_scheme \<Rightarrow> ('d, 'n, 'a) netst_scheme option" where
  "clear_icr nic s = (case e1000_read_reg nic E1000_ICR s of (v, s1) \<Rightarrow> if v \<noteq> 0 then clear_icr nic s1 else Some s1)"

definition e1000_reset :: "'n nic \<Rightarrow> ('d, 'n, 'a) netst_scheme \<Rightarrow> ('d, 'n, 'a) netst_scheme option" where
  "e1000_reset nic s = do {
     let s1 = e1000_write_reg nic E1000_TCTL 0 (e1000_write_reg nic E1000_RCTL 0 s);
     let s2 = e1000_write_reg nic E1000_TDT 0 (e1000_write_reg nic E1000_TDH 0 s1);
     let s3 = e1000_write_reg nic E1000_RDT 0 (e1000_write_reg nic E1000_RDH 0 s2);
     s4 \<leftarrow> latency 1 s3;
     clear_icr nic (e1000_write_reg nic E1000_IMC 0xffffffff s4) }"

definition e1000_configure_tx :: "'n nic \<Rightarrow> nbufs \<Rightarrow> ('d, 'n, 'a) netst_scheme \<Rightarrow> ('d, 'n, 'a) netst_scheme" where
  "e1000_configure_tx nic nb s = (let
       s1 = s\<lparr>tx_desc_array := (\<lambda>i. if i < TXDESCS
         then (tx_desc_array s i)\<lparr>td_addr := kva2pa (tx_buf_va nb + word_of_nat (TX_PKT_SIZE * i)), td_length := 0,
           td_cmd := E1000_TXD_CMD_RS, td_status := E1000_TXD_STAT_DD\<rparr> else tx_desc_array s i)\<rparr>;
       tx_desc_base = kva2pa (tx_desc_va nb);
       s2 = e1000_write_reg nic E1000_TDBAL (ucast (tx_desc_base AND 0xffffffff)) s1;
       s3 = e1000_write_reg nic E1000_TDBAH (ucast (drop_bit 32 tx_desc_base)) s2;
       s4 = e1000_write_reg nic E1000_TDLEN (word_of_nat (TXDESCS * 16)) s3;
       s5 = e1000_write_reg nic E1000_TDT 0 (e1000_write_reg nic E1000_TDH 0 s4)
     in e1000_write_reg nic E1000_TCTL (E1000_TCTL_EN OR E1000_TCTL_PSP OR push_bit 4 0x10 OR push_bit 12 0x40) s5)"

definition e1000_configure_rx :: "'n nic \<Rightarrow> nbufs \<Rightarrow> ('d, 'n, 'a) netst_scheme \<Rightarrow> ('d, 'n, 'a) netst_scheme" where
  "e1000_configure_rx nic nb s = (let
       s0 = e1000_write_reg_array nic E1000_RA 1 (0x531e OR E1000_RAH_AV)
              (e1000_write_reg_array nic E1000_RA 0 0x00350a00 s);
       s1 = s0\<lparr>rx_desc_array := (\<lambda>i. if i < RXDESCS
         then (rx_desc_array s0 i)\<lparr>rd_addr := kva2pa (rx_buf_va nb + word_of_nat (RX_PKT_SIZE * i)), rd_special := 0,
           rd_errors := 0, rd_status := 0, rd_csum := 0, rd_length := 0\<rparr> else rx_desc_array s0 i)\<rparr>;
       rx_desc_base = kva2pa (rx_desc_va nb);
       s2 = e1000_write_reg nic E1000_RDBAL (ucast (rx_desc_base AND 0xffffffff)) s1;
       s3 = e1000_write_reg nic E1000_RDBAH (ucast (drop_bit 32 rx_desc_base)) s2;
       s4 = e1000_write_reg nic E1000_RDLEN (word_of_nat (TXDESCS * 16)) s3;
       s5 = e1000_write_reg nic E1000_RDT (word_of_nat (RXDESCS - 1)) (e1000_write_reg nic E1000_RDH 0 s4);
       s6 = e1000_write_reg nic E1000_RCTL (E1000_RCTL_EN OR E1000_RCTL_BAM OR E1000_RCTL_SZ_2048) s5
     in e1000_write_reg nic E1000_IMS E1000_ICR_RXDMT0 s6)"

definition e1000_init :: "'n nic \<Rightarrow> nbufs \<Rightarrow> ('d, 'n, 'a) netst_scheme \<Rightarrow> ('d, 'n, 'a) netst_scheme option" where
  "e1000_init nic nb s = do {
     s1 \<leftarrow> e1000_reset nic s;
     Some (e1000_configure_rx nic nb (e1000_configure_tx nic nb s1)) }"

section \<open>Sending\<close>

text \<open>
  \<^verbatim>\<open>e1000_transmit\<close> from the test of the descriptor on; \<open>index\<close> was read from the tail register before.
  \<open>txpacket\<close> is the user address and \<open>packet\<close> the bytes there. \<open>Inl\<close> is the number of bytes sent; a wait is
  \<open>Inr index\<close>: the test of that descriptor is repeated when the process runs again.
\<close>

definition transmit_at ::
  "'d swap_ops \<Rightarrow> 'n nic \<Rightarrow> nbufs \<Rightarrow> nat \<Rightarrow> u64 \<Rightarrow> bytes \<Rightarrow> i32 \<Rightarrow> ('d, 'n, 'a) netst_scheme \<Rightarrow>
   ((i32 + nat) \<times> ('d, 'n, 'a) netst_scheme) option" where
  "transmit_at ops nic nb index txpacket packet len s = (if index \<ge> TXDESCS then None
     else if td_status (tx_desc_array s index) AND E1000_TXD_STAT_DD = 0 then do {
       let (ims_val, s1) = e1000_read_reg nic E1000_IMS s;
       let s2 = (if ims_val AND E1000_ICR_TXQE = 0 then e1000_write_reg nic E1000_IMS E1000_ICR_TXQE s1 else s1);
       s3 \<leftarrow> do_block (PcbNode (current_running s2)) SendQ s2;
       s4 \<leftarrow> do_scheduler s3;
       Some (Inr index, s4) }
     else do {
       let transmit_len = (if sint len > int TX_PKT_SIZE then word_of_nat TX_PKT_SIZE else len);
       let cmd = (if sint len > int TX_PKT_SIZE then E1000_TXD_CMD_RS else E1000_TXD_CMD_RS OR E1000_TXD_CMD_EOP);
       let s1 = upd_tx index (\<lambda>d. d\<lparr>td_length := ucast transmit_len, td_cmd := cmd, td_status := 0\<rparr>) s;
       s2 \<leftarrow> check_uva_mem ops txpacket (scast len) (current_running s1) s1;
       let off = unat (pa2kva (td_addr (tx_desc_array s2 index)) - tx_buf_va nb);
       c_assert (off \<le> length (tx_pkt_buffer s2));
       tl \<leftarrow> memcpy (drop off (tx_pkt_buffer s2)) packet (unat transmit_len);
       let s3 = s2\<lparr>tx_pkt_buffer := take off (tx_pkt_buffer s2) @ tl\<rparr>;
       Some (Inl transmit_len, e1000_write_reg nic E1000_TDT (word_of_nat ((index + 1) mod TXDESCS)) s3) })"

definition e1000_transmit ::
  "'d swap_ops \<Rightarrow> 'n nic \<Rightarrow> nbufs \<Rightarrow> u64 \<Rightarrow> bytes \<Rightarrow> i32 \<Rightarrow> ('d, 'n, 'a) netst_scheme \<Rightarrow>
   ((i32 + nat) \<times> ('d, 'n, 'a) netst_scheme) option" where
  "e1000_transmit ops nic nb txpacket packet len s = (case e1000_read_reg nic E1000_TDT s of (index, s1) \<Rightarrow>
     transmit_at ops nic nb (unat index) txpacket packet len s1)"

definition do_net_send ::
  "'d swap_ops \<Rightarrow> 'n nic \<Rightarrow> nbufs \<Rightarrow> u64 \<Rightarrow> bytes \<Rightarrow> i32 \<Rightarrow> ('d, 'n, 'a) netst_scheme \<Rightarrow>
   ((i32 + nat) \<times> ('d, 'n, 'a) netst_scheme) option" where
  "do_net_send ops nic nb txpacket packet len s = e1000_transmit ops nic nb txpacket packet len s"

text \<open>
  The loop of \<^verbatim>\<open>do_net_multisend\<close>; a wait stops it with the descriptor, the packets still to send and the
  bytes sent so far.
\<close>

fun multisend_loop ::
  "'d swap_ops \<Rightarrow> 'n nic \<Rightarrow> nbufs \<Rightarrow> u64 \<Rightarrow> bytes \<Rightarrow> i32 \<Rightarrow> nat \<Rightarrow> i32 \<Rightarrow> ('d, 'n, 'a) netst_scheme \<Rightarrow>
   ((i32 + nat \<times> nat \<times> i32) \<times> ('d, 'n, 'a) netst_scheme) option" where
  "multisend_loop ops nic nb tx packet pkt_len 0 sent s = Some (Inl sent, s)"
| "multisend_loop ops nic nb tx packet pkt_len (Suc n) sent s = do {
     (r, s1) \<leftarrow> e1000_transmit ops nic nb tx packet pkt_len s;
     (case r of Inr index \<Rightarrow> Some (Inr (index, Suc n, sent), s1)
      | Inl trans_len \<Rightarrow> multisend_loop ops nic nb tx packet pkt_len n (sent + trans_len) s1) }"

definition do_net_multisend ::
  "'d swap_ops \<Rightarrow> 'n nic \<Rightarrow> nbufs \<Rightarrow> u64 \<Rightarrow> bytes \<Rightarrow> i32 \<Rightarrow> i32 \<Rightarrow> ('d, 'n, 'a) netst_scheme \<Rightarrow>
   ((i32 + nat \<times> nat \<times> i32) \<times> ('d, 'n, 'a) netst_scheme) option" where
  "do_net_multisend ops nic nb tx packet pkt_num pkt_len s = multisend_loop ops nic nb tx packet pkt_len (nat (sint pkt_num)) 0 s"

section \<open>Receiving\<close>

text \<open>
  \<^verbatim>\<open>mymemcpy\<close> copies eight bytes a round until \<^verbatim>\<open>len\<close> is exactly 0, a 32 bit unsigned count. Leaving one
  of the arrays is \<open>None\<close>.
\<close>

function mymemcpy :: "bytes \<Rightarrow> bytes \<Rightarrow> nat \<Rightarrow> u32 \<Rightarrow> bytes option" where
  "mymemcpy dest src off len = (if len = 0 then Some dest
     else if off + 8 > length src \<or> off + 8 > length dest then None
     else mymemcpy (bput off (bget off 8 src) dest) src (off + 8) (len - 8))"
  by pat_completeness auto
termination by (relation "measure (\<lambda>(dest, src, off, len). length src + 8 - off)") auto

declare mymemcpy.simps [simp del]

definition recycle_rx :: "'n nic \<Rightarrow> nat \<Rightarrow> ('d, 'n, 'a) netst_scheme \<Rightarrow> ('d, 'n, 'a) netst_scheme" where
  "recycle_rx nic index s = e1000_write_reg nic E1000_RDT (word_of_nat index)
     (upd_rx index (\<lambda>d. d\<lparr>rd_special := 0, rd_errors := 0, rd_status := 0, rd_csum := 0, rd_length := 0\<rparr>) s)"

definition next_rx :: "'n nic \<Rightarrow> ('d, 'n, 'a) netst_scheme \<Rightarrow> nat \<times> ('d, 'n, 'a) netst_scheme" where
  "next_rx nic s = (case e1000_read_reg nic E1000_RDT s of (rdt, s1) \<Rightarrow> (unat ((rdt + 1) mod word_of_nat RXDESCS), s1))"

datatype poll_result = Got i32 bytes | Waiting nat i32 bytes

text \<open>
  \<^verbatim>\<open>e1000_poll\<close> from the test of descriptor \<open>index\<close> on, with the length received so far. \<open>buf\<close> is the user
  memory at \<open>rxbuffer\<close>.
\<close>

partial_function (option) poll_at ::
  "'d swap_ops \<Rightarrow> 'n nic \<Rightarrow> u64 \<Rightarrow> nat \<Rightarrow> i32 \<Rightarrow> bytes \<Rightarrow> ('d, 'n, 'a) netst_scheme \<Rightarrow>
   (poll_result \<times> ('d, 'n, 'a) netst_scheme) option" where
  "poll_at ops nic rxbuffer index poll_len buf s =
     (if rd_status (rx_desc_array s index) AND E1000_RXD_STAT_DD = 0 then
        Option.bind (do_block (PcbNode (current_running s)) RecvQ s) (\<lambda>s1.
        Option.bind (do_scheduler s1) (\<lambda>s2. Some (Waiting index poll_len buf, s2)))
      else if rx_pkt_buffer s ! (RX_PKT_SIZE * index + 14) \<noteq> 43 then
        (case next_rx nic (recycle_rx nic index s) of (index', s1) \<Rightarrow> poll_at ops nic rxbuffer index' poll_len buf s1)
      else
        (let len = poll_len + ucast (rd_length (rx_desc_array s index)) in
         Option.bind (check_uva_mem ops rxbuffer (scast len) (current_running s) s) (\<lambda>s1.
         Option.bind (mymemcpy buf (drop (RX_PKT_SIZE * index) (rx_pkt_buffer s1)) 0 len) (\<lambda>buf'.
           if rd_status (rx_desc_array s1 index) AND E1000_RXD_STAT_EOP \<noteq> 0 then Some (Got len buf', recycle_rx nic index s1)
           else (case next_rx nic (recycle_rx nic index s1) of (index', s2) \<Rightarrow> poll_at ops nic rxbuffer index' len buf' s2)))))"

definition e1000_poll ::
  "'d swap_ops \<Rightarrow> 'n nic \<Rightarrow> u64 \<Rightarrow> bytes \<Rightarrow> ('d, 'n, 'a) netst_scheme \<Rightarrow> (poll_result \<times> ('d, 'n, 'a) netst_scheme) option" where
  "e1000_poll ops nic rxbuffer buf s = (case next_rx nic s of (index, s1) \<Rightarrow> poll_at ops nic rxbuffer index 0 buf s1)"

text \<open>
  The loop of \<^verbatim>\<open>do_net_recv\<close>: \<open>n\<close> packets still to receive, the lengths so far (\<^verbatim>\<open>pkt_lens\<close>), their sum and
  the user memory, of which \<open>pos\<close> bytes are before \<^verbatim>\<open>rxbuffer\<close>. A wait keeps all of it.
\<close>

datatype recv_result = Received "i32 list" i32 bytes | RecvWaiting nat "i32 list" i32 nat i32 bytes

fun recv_loop ::
  "'d swap_ops \<Rightarrow> 'n nic \<Rightarrow> u64 \<Rightarrow> nat \<Rightarrow> nat \<Rightarrow> i32 list \<Rightarrow> i32 \<Rightarrow> bytes \<Rightarrow> ('d, 'n, 'a) netst_scheme \<Rightarrow>
   (recv_result \<times> ('d, 'n, 'a) netst_scheme) option" where
  "recv_loop ops nic rxbuffer pos 0 lens recv_len buf s = Some (Received lens recv_len buf, s)"
| "recv_loop ops nic rxbuffer pos (Suc n) lens recv_len buf s = do {
     (r, s1) \<leftarrow> e1000_poll ops nic (rxbuffer + word_of_nat pos) (drop pos buf) s;
     (case r of Waiting index len rest \<Rightarrow> Some (RecvWaiting (Suc n) lens recv_len index len (take pos buf @ rest), s1)
      | Got len rest \<Rightarrow> recv_loop ops nic rxbuffer (pos + unat len) n (lens @ [len]) (recv_len + len) (take pos buf @ rest) s1) }"

definition do_net_recv ::
  "'d swap_ops \<Rightarrow> 'n nic \<Rightarrow> u64 \<Rightarrow> bytes \<Rightarrow> i32 \<Rightarrow> ('d, 'n, 'a) netst_scheme \<Rightarrow>
   (recv_result \<times> ('d, 'n, 'a) netst_scheme) option" where
  "do_net_recv ops nic rxbuffer buf pkt_num s = recv_loop ops nic rxbuffer 0 (nat (sint pkt_num)) [] 0 buf s"

definition net_handle_irq :: "'n nic \<Rightarrow> ('d, 'n, 'a) netst_scheme \<Rightarrow> ('d, 'n, 'a) netst_scheme option" where
  "net_handle_irq nic s = do {
     let (icr_val, s1) = e1000_read_reg nic E1000_ICR s;
     let (ims_val, s2) = e1000_read_reg nic E1000_IMS s1;
     s3 \<leftarrow> (if (icr_val AND E1000_ICR_TXQE) AND (ims_val AND E1000_ICR_TXQE) \<noteq> 0
            then Option.bind (unblock_all SendQ s2) (\<lambda>s'. Some (e1000_write_reg nic E1000_IMC E1000_ICR_TXQE s'))
            else Some s2);
     (if (icr_val AND E1000_ICR_RXDMT0) AND (ims_val AND E1000_ICR_RXDMT0) \<noteq> 0
      then unblock_all RecvQ s3 else Some s3) }"

section \<open>Copying by eight bytes\<close>

lemma len_minus_8: "unat (len - 8 :: u32) mod 8 = unat len mod 8"
proof -
  have "len - 8 = len + 4294967288" by simp
  then have "unat (len - 8 :: u32) mod 8 = (unat len + (2 ^ 32 - 8)) mod 2 ^ 32 mod 8"
    by (simp only: unat_word_ariths) simp
  also have "\<dots> = (unat len + (2 ^ 32 - 8)) mod 8" by (rule mod_mod_cancel) simp
  also have "\<dots> = (unat len + 8 * 536870911) mod 8" by simp
  also have "\<dots> = unat len mod 8" by (rule mod_mult_self2)
  finally show ?thesis .
qed

lemma mymemcpy_odd: "unat len mod 8 \<noteq> 0 \<Longrightarrow> mymemcpy dest src off len = None"
proof (induction dest src off len rule: mymemcpy.induct)
  case (1 dest src off len)
  have "len \<noteq> 0" using 1(2) by auto
  moreover have "unat (len - 8) mod 8 \<noteq> 0" using 1(2) len_minus_8 by simp
  ultimately show ?case using 1(1) by (simp add: mymemcpy.simps [of dest src off len])
qed

lemma bput_append:
  "off + length xs + length ys \<le> length bs \<Longrightarrow> bput (off + length xs) ys (bput off xs bs) = bput off (xs @ ys) bs"
  by (simp add: bput_def ac_simps)

lemma bget_plus: "bget off (m + n) bs = bget off m bs @ bget (off + m) n bs"
  by (simp add: bget_def take_add add.commute)

lemma mymemcpy_even:
  "unat len mod 8 = 0 \<Longrightarrow> off + unat len \<le> length src \<Longrightarrow> off + unat len \<le> length dest \<Longrightarrow>
    mymemcpy dest src off len = Some (bput off (bget off (unat len) src) dest)"
proof (induction dest src off len rule: mymemcpy.induct)
  case (1 dest src off len)
  show ?case
  proof (cases "len = 0")
    case True
    then show ?thesis by (subst mymemcpy.simps) (simp add: bput_def bget_def)
  next
    case False
    then have "unat len \<noteq> 0" by (simp add: unat_eq_0)
    then have "8 \<le> unat len" using 1(2) by (metis dvd_imp_le mod_0_imp_dvd neq0_conv)
    then have u: "unat (len - 8) = unat len - 8" "8 + (unat len - 8) = unat len"
      using unat_sub [of 8 len] by (simp_all add: word_le_nat_alt)
    have "mymemcpy dest src off len = mymemcpy (bput off (bget off 8 src) dest) src (off + 8) (len - 8)"
      using False \<open>8 \<le> unat len\<close> 1(3,4) by (simp add: mymemcpy.simps [of dest src off len])
    also have "\<dots> = Some (bput (off + 8) (bget (off + 8) (unat len - 8) src) (bput off (bget off 8 src) dest))"
      using 1 False u \<open>8 \<le> unat len\<close> len_minus_8 [of len] by auto
    also have "bput (off + 8) (bget (off + 8) (unat len - 8) src) (bput off (bget off 8 src) dest) =
        bput off (bget off (unat len) src) dest"
      using bput_append [of off "bget off 8 src" "bget (off + 8) (unat len - 8) src" dest] bget_plus [of off 8 "unat len - 8" src]
        u(2) 1(3,4) \<open>8 \<le> unat len\<close> by simp
    finally show ?thesis .
  qed
qed

text \<open>
  C36: \<^verbatim>\<open>mymemcpy\<close>, with which received packets are stored, ends exactly for the lengths that are a multiple
  of eight: then it copies the bytes, and for every other length its counter misses 0 and it runs
  out of the buffers.
\<close>

theorem mymemcpy_ends:
  assumes "unat len \<le> length src" "unat len \<le> length dest"
  shows "mymemcpy dest src 0 len = (if unat len mod 8 = 0 then Some (take (unat len) src @ drop (unat len) dest) else None)"
  using mymemcpy_even [of len 0 src dest] mymemcpy_odd [of len dest src 0] assms by (simp add: bput_def bget_def)

theorem mymemcpy_ends_witness:
  "mymemcpy [0, 0, 0, 0, 0, 0, 0, 0, 9] [1, 2, 3, 4, 5, 6, 7, 8] 0 8 = Some [1, 2, 3, 4, 5, 6, 7, 8, 9] \<and>
   mymemcpy [0, 0, 0, 0, 0, 0, 0, 0] [1, 2, 3, 4, 5, 6, 7, 8] 0 7 = None"
  using mymemcpy_ends [of 8 "[1, 2, 3, 4, 5, 6, 7, 8]" "[0, 0, 0, 0, 0, 0, 0, 0, 9]"]
    mymemcpy_ends [of 7 "[1, 2, 3, 4, 5, 6, 7, 8]" "[0, 0, 0, 0, 0, 0, 0, 0]"] by simp

section \<open>The transmit ring\<close>

text \<open>No page is swapped out: user memory can be used as it is.\<close>

definition all_resident :: "('d, 'a) mmst_scheme \<Rightarrow> bool" where
  "all_resident s \<longleftrightarrow> nxt (plinks s) USdHead = Some USdHead"

lemma check_uva_resident:
  assumes "all_resident s" "unat e + 4096 < 2 ^ 64"
  shows "check_uva_loop ops vpn e p s = Some s"
proof (induction "unat e + 4096 - unat vpn" arbitrary: vpn rule: less_induct)
  case less
  have n: "search_list_node USdHead vpn p s = Some None"
    using assms(1) by (simp add: all_resident_def search_list_node_def list_search.simps)
  show ?case
  proof (cases "vpn \<le> e")
    case True
    then have v: "unat vpn \<le> unat e" by (simp add: word_le_nat_alt)
    then have "unat (vpn + PAGE_SIZE) = unat vpn + 4096" using assms(2) by (simp add: PAGE_SIZE_def unat_word_ariths)
    then have "check_uva_loop ops (vpn + PAGE_SIZE) e p s = Some s" using less v by simp
    then show ?thesis using True n by (subst check_uva_loop.simps) simp
  qed (subst check_uva_loop.simps, simp)
qed

text \<open>The tail register holds what was stored there last.\<close>

definition tail_ok :: "'n nic \<Rightarrow> bool" where
  "tail_ok nic \<longleftrightarrow> (\<forall>v d. fst (nic_rd nic E1000_TDT (nic_wr nic E1000_TDT v d)) = v)"

definition tail :: "'n nic \<Rightarrow> ('d, 'n, 'a) netst_scheme \<Rightarrow> nat" where
  "tail nic s = unat (fst (nic_rd nic E1000_TDT (e1000 s)))"

definition tx_ready :: "nbufs \<Rightarrow> ('d, 'n, 'a) netst_scheme \<Rightarrow> bool" where
  "tx_ready nb s \<longleftrightarrow> length (tx_pkt_buffer s) = TXDESCS * TX_PKT_SIZE \<and>
     (\<forall>i < TXDESCS. pa2kva (td_addr (tx_desc_array s i)) = tx_buf_va nb + word_of_nat (TX_PKT_SIZE * i))"

definition slot_free :: "('d, 'n, 'a) netst_scheme \<Rightarrow> nat \<Rightarrow> bool" where
  "slot_free s i \<longleftrightarrow> td_status (tx_desc_array s i) AND E1000_TXD_STAT_DD \<noteq> 0"

text \<open>What the adapter finds in a slot it is to send.\<close>

definition slot_holds :: "('d, 'n, 'a) netst_scheme \<Rightarrow> nat \<Rightarrow> bytes \<Rightarrow> bool" where
  "slot_holds s i packet \<longleftrightarrow> bget (TX_PKT_SIZE * i) (length packet) (tx_pkt_buffer s) = packet \<and>
     td_length (tx_desc_array s i) = word_of_nat (length packet) \<and> td_status (tx_desc_array s i) = 0 \<and>
     td_cmd (tx_desc_array s i) = E1000_TXD_CMD_RS OR E1000_TXD_CMD_EOP"

lemmas net_sizes = TXDESCS_def TX_PKT_SIZE_def RXDESCS_def RX_PKT_SIZE_def

lemma transmit_free:
  fixes s :: "('d, 'n, 'a) netst_scheme"
  assumes nic: "tail_ok nic" and rdy: "tx_ready nb s" and res: "all_resident s" and t: "tail nic s < TXDESCS" "slot_free s (tail nic s)"
    and p: "length packet \<le> TX_PKT_SIZE" "unat ua + length packet + 4096 < 2 ^ 64"
  obtains s' where "e1000_transmit ops nic nb ua packet (word_of_nat (length packet)) s = Some (Inl (word_of_nat (length packet)), s')"
    "tail nic s' = (tail nic s + 1) mod TXDESCS" "tx_ready nb s'" "all_resident s'" "slot_holds s' (tail nic s) packet"
    "\<And>i. i \<noteq> tail nic s \<Longrightarrow> tx_desc_array s' i = tx_desc_array s i"
    "\<And>i. i < TXDESCS \<Longrightarrow> i \<noteq> tail nic s \<Longrightarrow> bget (TX_PKT_SIZE * i) TX_PKT_SIZE (tx_pkt_buffer s') = bget (TX_PKT_SIZE * i) TX_PKT_SIZE (tx_pkt_buffer s)"
proof -
  let ?n = "length packet" and ?i = "tail nic s"
  let ?w = "word_of_nat ?n :: i32"
  have n: "?n \<le> 2048" using p(1) by (simp add: TX_PKT_SIZE_def)
  then have w: "unat ?w = ?n" by (simp add: unat_of_nat)
  then have sw: "sint ?w = int ?n" using sint_pos [of ?w] n by simp
  have i64: "?i < 64" using t(1) by (simp add: TXDESCS_def)
  define s0 where "s0 = s\<lparr>e1000 := snd (nic_rd nic E1000_TDT (e1000 s))\<rparr>"
  define s1 where "s1 = upd_tx ?i (\<lambda>d. d\<lparr>td_length := ucast ?w, td_cmd := E1000_TXD_CMD_RS OR E1000_TXD_CMD_EOP, td_status := 0\<rparr>) s0"
  have rd: "e1000_read_reg nic E1000_TDT s = (fst (nic_rd nic E1000_TDT (e1000 s)), s0)"
    by (simp add: e1000_read_reg_def s0_def case_prod_beta Let_def)
  have r1: "all_resident s1" using res by (simp add: all_resident_def s1_def s0_def upd_tx_def)
  have "unat (ua + word_of_nat ?n) = unat ua + ?n" using p(2) n by (simp add: unat_word_ariths unat_of_nat)
  moreover have "scast ?w = (word_of_nat ?n :: u64)" using of_int_sint [of ?w, where 'a = "64 word"] unfolding sw by simp
  ultimately have uva: "check_uva_mem ops ua (scast ?w) (current_running s1) s1 = Some s1"
    unfolding check_uva_mem_def using p(2) by (intro check_uva_resident [OF r1]) simp
  let ?buf = "tx_pkt_buffer s" and ?o = "2048 * ?i"
  have lb: "length ?buf = 131072" and ad: "pa2kva (td_addr (tx_desc_array s ?i)) - tx_buf_va nb = word_of_nat ?o"
    using rdy t(1) by (simp_all add: tx_ready_def net_sizes)
  have o: "unat (word_of_nat ?o :: u64) = ?o" using i64 by (intro of_nat_inverse [OF refl]) simp
  then have ao: "unat (pa2kva (td_addr (tx_desc_array s ?i)) - tx_buf_va nb) = ?o" unfolding ad .
  have fit: "?o + ?n \<le> length ?buf" using lb i64 n by simp
  define s3 where "s3 = s1\<lparr>tx_pkt_buffer := bput ?o packet ?buf\<rparr>"
  define s' where "s' = e1000_write_reg nic E1000_TDT (word_of_nat ((?i + 1) mod 64)) s3"
  have s1f: "tx_pkt_buffer s1 = ?buf" "td_addr (tx_desc_array s1 ?i) = td_addr (tx_desc_array s ?i)"
    "td_status (tx_desc_array s0 ?i) = td_status (tx_desc_array s ?i)"
    by (simp_all add: s1_def s0_def upd_tx_def)
  have cp: "memcpy (drop ?o ?buf) packet ?n = Some (packet @ drop (?o + ?n) ?buf)"
    using memcpy_eq [of ?n "drop ?o ?buf" packet] fit by (simp add: add.commute)
  have "transmit_at ops nic nb ?i ua packet ?w s0 = Some (Inl ?w, s')"
    using t(2) i64 uva cp fit n
    by (simp add: transmit_at_def slot_free_def s1f ao w sw TXDESCS_def TX_PKT_SIZE_def s'_def s3_def bput_def
        s1_def [symmetric] c_assert_def Let_def)
  then have r: "e1000_transmit ops nic nb ua packet ?w s = Some (Inl ?w, s')"
    using rd by (simp add: e1000_transmit_def tail_def)
  have d': "tx_desc_array s' = (tx_desc_array s)(?i := (tx_desc_array s ?i)
      \<lparr>td_length := ucast ?w, td_cmd := E1000_TXD_CMD_RS OR E1000_TXD_CMD_EOP, td_status := 0\<rparr>)"
    "tx_pkt_buffer s' = bput ?o packet ?buf" "plinks s' = plinks s"
    by (simp_all add: s'_def s3_def s1_def s0_def upd_tx_def e1000_write_reg_def)
  have "(?i + 1) mod 64 < 64" by simp
  then have "unat (word_of_nat ((?i + 1) mod 64) :: u32) = (?i + 1) mod 64" by (simp add: unat_of_nat)
  then have tl: "tail nic s' = (?i + 1) mod TXDESCS"
    using nic by (simp add: tail_ok_def tail_def s'_def e1000_write_reg_def TXDESCS_def)
  have uw: "(ucast ?w :: u16) = word_of_nat ?n" by (metis of_nat_unat w)
  show thesis
  proof (rule that [OF r tl])
    show "tx_ready nb s'" using rdy d' fit by (auto simp: tx_ready_def)
    show "all_resident s'" using res d'(3) by (simp add: all_resident_def)
    show "slot_holds s' ?i packet" using d' uw fit by (simp add: slot_holds_def TX_PKT_SIZE_def slice_simps)
    show "tx_desc_array s' i = tx_desc_array s i" if "i \<noteq> ?i" for i using that d'(1) by simp
    show "bget (TX_PKT_SIZE * i) TX_PKT_SIZE (tx_pkt_buffer s') = bget (TX_PKT_SIZE * i) TX_PKT_SIZE ?buf"
      if "i < TXDESCS" "i \<noteq> ?i" for i
      using that n fit unfolding d'(2) TX_PKT_SIZE_def by (intro bget_bput_other) auto
  qed
qed

text \<open>Sending packets, each given by its user address and bytes, as long as none has to wait.\<close>

fun send_all ::
  "'d swap_ops \<Rightarrow> 'n nic \<Rightarrow> nbufs \<Rightarrow> (u64 \<times> bytes) list \<Rightarrow> ('d, 'n, 'a) netst_scheme \<Rightarrow> ('d, 'n, 'a) netst_scheme option" where
  "send_all ops nic nb [] s = Some s"
| "send_all ops nic nb ((ua, packet) # ps) s =
     (case do_net_send ops nic nb ua packet (word_of_nat (length packet)) s of
        Some (Inl len, s1) \<Rightarrow> send_all ops nic nb ps s1 | _ \<Rightarrow> None)"

text \<open>The packets \<open>ps\<close> lie in the slots from \<open>t\<close> on, round the ring.\<close>

definition ring_holds :: "('d, 'n, 'a) netst_scheme \<Rightarrow> nat \<Rightarrow> bytes list \<Rightarrow> bool" where
  "ring_holds s t ps \<longleftrightarrow> (\<forall>j < length ps. slot_holds s ((t + j) mod TXDESCS) (ps ! j))"

lemma slot_holds_keep:
  assumes "slot_holds s i p" "length p \<le> TX_PKT_SIZE" "tx_desc_array s' i = tx_desc_array s i"
    "bget (TX_PKT_SIZE * i) TX_PKT_SIZE (tx_pkt_buffer s') = bget (TX_PKT_SIZE * i) TX_PKT_SIZE (tx_pkt_buffer s)"
  shows "slot_holds s' i p"
proof -
  have "bget 0 (length p) (bget (TX_PKT_SIZE * i) TX_PKT_SIZE b) = bget (TX_PKT_SIZE * i) (length p) b" for b :: bytes
    using bget_bget [of 0 "length p" TX_PKT_SIZE "TX_PKT_SIZE * i" b] assms(2) by simp
  then have "bget (TX_PKT_SIZE * i) (length p) (tx_pkt_buffer s') = bget (TX_PKT_SIZE * i) (length p) (tx_pkt_buffer s)"
    using assms(4) by metis
  then show ?thesis using assms(1,3) by (simp add: slot_holds_def)
qed

lemma mod_slot_neq:
  assumes "0 < j" "j < TXDESCS"
  shows "(t + j) mod TXDESCS \<noteq> t mod TXDESCS"
proof
  assume "(t + j) mod TXDESCS = t mod TXDESCS"
  then have "TXDESCS dvd j" by (metis add_diff_cancel_left' mod_eq_dvd_iff_nat le_add1)
  then show False using assms by (simp add: nat_dvd_not_less)
qed

lemma send_all_ring:
  fixes s :: "('d, 'n, 'a) netst_scheme"
  assumes "tail_ok nic" "tx_ready nb s" "all_resident s" "tail nic s < TXDESCS"
    "\<forall>j < length ps. slot_free s ((tail nic s + j) mod TXDESCS)" "length ps \<le> TXDESCS"
    "\<forall>(ua, p) \<in> set ps. length p \<le> TX_PKT_SIZE \<and> unat ua + length p + 4096 < 2 ^ 64"
  shows "\<exists>s'. send_all ops nic nb ps s = Some s' \<and> tail nic s' = (tail nic s + length ps) mod TXDESCS \<and>
    ring_holds s' (tail nic s) (map snd ps) \<and>
    (\<forall>i < TXDESCS. (\<forall>j < length ps. i \<noteq> (tail nic s + j) mod TXDESCS) \<longrightarrow> tx_desc_array s' i = tx_desc_array s i \<and>
      bget (TX_PKT_SIZE * i) TX_PKT_SIZE (tx_pkt_buffer s') = bget (TX_PKT_SIZE * i) TX_PKT_SIZE (tx_pkt_buffer s))"
  using assms
proof (induction ps arbitrary: s)
  case Nil
  then show ?case by (simp add: ring_holds_def)
next
  case (Cons up ps)
  obtain ua p where up: "up = (ua, p)" by (cases up)
  let ?t = "tail nic s"
  have t0: "?t mod TXDESCS = ?t" using Cons.prems(4) by simp
  have sl: "slot_free s ?t" using Cons.prems(5) t0 by (metis add.right_neutral length_Cons zero_less_Suc)
  have pl: "length p \<le> TX_PKT_SIZE" "unat ua + length p + 4096 < 2 ^ 64" using Cons.prems(7) up by auto
  obtain s1 where s1: "e1000_transmit ops nic nb ua p (word_of_nat (length p)) s = Some (Inl (word_of_nat (length p)), s1)"
    "tail nic s1 = (?t + 1) mod TXDESCS" "tx_ready nb s1" "all_resident s1" "slot_holds s1 ?t p"
    "\<And>i. i \<noteq> ?t \<Longrightarrow> tx_desc_array s1 i = tx_desc_array s i"
    "\<And>i. i < TXDESCS \<Longrightarrow> i \<noteq> ?t \<Longrightarrow> bget (TX_PKT_SIZE * i) TX_PKT_SIZE (tx_pkt_buffer s1) = bget (TX_PKT_SIZE * i) TX_PKT_SIZE (tx_pkt_buffer s)"
    by (rule transmit_free [OF Cons.prems(1-4) sl pl]) blast
  have nx: "(tail nic s1 + j) mod TXDESCS = (?t + Suc j) mod TXDESCS" for j unfolding s1(2) by (simp add: mod_simps)
  have ne: "(?t + Suc j) mod TXDESCS \<noteq> ?t" if "j < length ps" for j
    using mod_slot_neq [of "Suc j" ?t] that Cons.prems(6) t0 by simp
  have "\<exists>s'. send_all ops nic nb ps s1 = Some s' \<and> tail nic s' = (tail nic s1 + length ps) mod TXDESCS \<and>
    ring_holds s' (tail nic s1) (map snd ps) \<and>
    (\<forall>i < TXDESCS. (\<forall>j < length ps. i \<noteq> (tail nic s1 + j) mod TXDESCS) \<longrightarrow> tx_desc_array s' i = tx_desc_array s1 i \<and>
      bget (TX_PKT_SIZE * i) TX_PKT_SIZE (tx_pkt_buffer s') = bget (TX_PKT_SIZE * i) TX_PKT_SIZE (tx_pkt_buffer s1))"
  proof (rule Cons.IH [OF Cons.prems(1) s1(3,4)])
    show "tail nic s1 < TXDESCS" unfolding s1(2) by (simp add: TXDESCS_def)
    show "\<forall>j < length ps. slot_free s1 ((tail nic s1 + j) mod TXDESCS)"
      using Cons.prems(5) ne s1(6) by (auto simp: nx slot_free_def)
  qed (use Cons.prems(6,7) in auto)
  then obtain s' where s': "send_all ops nic nb ps s1 = Some s'" "tail nic s' = (tail nic s1 + length ps) mod TXDESCS"
    "ring_holds s' (tail nic s1) (map snd ps)"
    "\<forall>i < TXDESCS. (\<forall>j < length ps. i \<noteq> (?t + Suc j) mod TXDESCS) \<longrightarrow> tx_desc_array s' i = tx_desc_array s1 i \<and>
      bget (TX_PKT_SIZE * i) TX_PKT_SIZE (tx_pkt_buffer s') = bget (TX_PKT_SIZE * i) TX_PKT_SIZE (tx_pkt_buffer s1)"
    unfolding nx by blast
  have first: "slot_holds s' ?t p"
    using s'(4) Cons.prems(4) ne slot_holds_keep [OF s1(5) pl(1)] by metis
  have "ring_holds s' ?t (map snd (up # ps))"
  proof -
    have "slot_holds s' ((?t + j) mod TXDESCS) (map snd (up # ps) ! j)" if "j < length (map snd (up # ps))" for j
      using that first s'(3) t0 up by (cases j) (auto simp: ring_holds_def nx)
    then show ?thesis by (simp add: ring_holds_def)
  qed
  moreover have "tx_desc_array s' i = tx_desc_array s i \<and>
      bget (TX_PKT_SIZE * i) TX_PKT_SIZE (tx_pkt_buffer s') = bget (TX_PKT_SIZE * i) TX_PKT_SIZE (tx_pkt_buffer s)"
    if i: "i < TXDESCS" "\<forall>j < length (up # ps). i \<noteq> (?t + j) mod TXDESCS" for i
  proof -
    have "i \<noteq> ?t" using i(2) t0 by (metis add.right_neutral length_Cons zero_less_Suc)
    moreover have "\<forall>j < length ps. i \<noteq> (?t + Suc j) mod TXDESCS" using i(2) by auto
    ultimately show ?thesis using s'(4) i(1) s1(6,7) by metis
  qed
  moreover have "send_all ops nic nb (up # ps) s = Some s'" using s1(1) s'(1) up by (simp add: do_net_send_def)
  moreover have "tail nic s' = (?t + length (up # ps)) mod TXDESCS" using s'(2) nx [of "length ps"] by simp
  ultimately show ?case by blast
qed

text \<open>
  C23: The transmit ring is a queue: up to 64 packets sent into free descriptors go into the slots from the
  tail on, round the ring and in the order sent, each with its bytes, its length and the commands
  for a whole packet, and the tail moves past them.
\<close>

theorem net_send_ring:
  fixes s :: "('d, 'n, 'a) netst_scheme"
  assumes "tail_ok nic" "tx_ready nb s" "all_resident s" "tail nic s < TXDESCS"
    "\<forall>j < length ps. slot_free s ((tail nic s + j) mod TXDESCS)" "length ps \<le> TXDESCS"
    "\<forall>(ua, p) \<in> set ps. length p \<le> TX_PKT_SIZE \<and> unat ua + length p + 4096 < 2 ^ 64"
  shows "\<exists>s'. send_all ops nic nb ps s = Some s' \<and> tail nic s' = (tail nic s + length ps) mod TXDESCS \<and>
    ring_holds s' (tail nic s) (map snd ps)"
  using send_all_ring [OF assms] by blast

section \<open>Waiting for a descriptor\<close>

lemma net_at_rest [simp]:
  "at_rest H Q (s\<lparr>e1000 := d\<rparr>) = at_rest H Q s" "current_running (s\<lparr>e1000 := d\<rparr>) = current_running s"
  using at_rest_cong [of H Q s "s\<lparr>e1000 := d\<rparr>"] at_rest_cong [of H Q "s\<lparr>e1000 := d\<rparr>" s] by (auto simp: current_running_def)

lemma transmit_waits:
  fixes s :: "('d, 'n, 'a) netst_scheme"
  assumes rest: "at_rest H Q s" "current_running s = Pcb i" "SendQ \<in> H" and t: "tail nic s < TXDESCS" "\<not> slot_free s (tail nic s)"
  obtains s' Q' where "e1000_transmit ops nic nb ua packet len s = Some (Inr (tail nic s), s')" "at_rest H Q' s'"
    "Q' SendQ = Q SendQ @ [PcbNode (Pcb i)]"
proof -
  define s0 where "s0 = s\<lparr>e1000 := snd (nic_rd nic E1000_TDT (e1000 s))\<rparr>"
  have rd: "e1000_read_reg nic E1000_TDT s = (fst (nic_rd nic E1000_TDT (e1000 s)), s0)"
    by (simp add: e1000_read_reg_def s0_def case_prod_beta Let_def)
  obtain v s1 where v: "e1000_read_reg nic E1000_IMS s0 = (v, s1)" by fastforce
  define s2 where "s2 = (if v AND E1000_ICR_TXQE = 0 then e1000_write_reg nic E1000_IMS E1000_ICR_TXQE s1 else s1)"
  have "\<exists>d. s2 = s\<lparr>e1000 := d\<rparr>"
    using v by (auto simp: s2_def s0_def e1000_read_reg_def e1000_write_reg_def case_prod_beta Let_def)
  then obtain d where d: "s2 = s\<lparr>e1000 := d\<rparr>" by blast
  then have "at_rest H Q s2" "current_running s2 = Pcb i" using rest(1,2) by simp_all
  then obtain s3 s' Q' where s': "do_block (PcbNode (Pcb i)) SendQ s2 = Some s3" "do_scheduler s3 = Some s'"
    "at_rest H Q' s'" "other_queues (Q(SendQ := Q SendQ @ [PcbNode (Pcb i)])) Q'"
    using wait_queues [of H Q s2 i SendQ] rest(3) by blast
  have "transmit_at ops nic nb (tail nic s) ua packet len s0 = Some (Inr (tail nic s), s')"
    using t v s' \<open>current_running s2 = Pcb i\<close> by (simp add: transmit_at_def slot_free_def s0_def [symmetric] s2_def [symmetric] Let_def)
      (simp add: s0_def)
  then have "e1000_transmit ops nic nb ua packet len s = Some (Inr (tail nic s), s')"
    using rd by (simp add: e1000_transmit_def tail_def)
  then show thesis using that s'(3,4) by (simp add: other_queues_def)
qed

lemma irq_wakes:
  fixes s :: "('d, 'n, 'a) netst_scheme"
  assumes rest: "at_rest H Q s" and H: "SendQ \<in> H" "RecvQ \<in> H" and p: "PcbNode p \<in> set (Q SendQ)"
    and irq: "fst (nic_rd nic E1000_ICR (e1000 s)) AND E1000_ICR_TXQE \<noteq> 0"
      "fst (nic_rd nic E1000_IMS (snd (nic_rd nic E1000_ICR (e1000 s)))) AND E1000_ICR_TXQE \<noteq> 0"
  shows "\<exists>s'. net_handle_irq nic s = Some s' \<and> status (pcbs s' p) = TASK_READY"
proof -
  define s1 where "s1 = s\<lparr>e1000 := snd (nic_rd nic E1000_ICR (e1000 s))\<rparr>"
  define s2 where "s2 = s1\<lparr>e1000 := snd (nic_rd nic E1000_IMS (e1000 s1))\<rparr>"
  let ?icr = "fst (nic_rd nic E1000_ICR (e1000 s))" and ?ims = "fst (nic_rd nic E1000_IMS (e1000 s1))"
  have rd: "e1000_read_reg nic E1000_ICR s = (?icr, s1)" "e1000_read_reg nic E1000_IMS s1 = (?ims, s2)"
    by (simp_all add: e1000_read_reg_def s1_def s2_def case_prod_beta Let_def)
  have two: "x AND 2 = 2" if "x AND 2 \<noteq> 0" for x :: u32
  proof (rule bit_word_eqI)
    fix n
    have "bit x 1" using that by (metis and_exp_eq_0_iff_not_bit power_one_right)
    then show "bit (x AND 2) n = bit (2 :: u32) n" using bit_2_iff [where 'a = "32 word"] by (auto simp: bit_and_iff)
  qed
  have "?icr AND 2 = 2" "?ims AND 2 = 2"
    using two [OF irq(1) [unfolded E1000_ICR_TXQE_def]] two [OF irq(2) [unfolded E1000_ICR_TXQE_def]] by (simp_all add: s1_def)
  then have both: "(?icr AND E1000_ICR_TXQE) AND (?ims AND E1000_ICR_TXQE) \<noteq> 0" unfolding E1000_ICR_TXQE_def by simp
  have "at_rest H Q s2" using rest by (simp add: s1_def s2_def)
  then obtain s3 where s3: "unblock_all SendQ s2 = Some s3" "at_rest H (Q(SendQ := [], ReadyQ := Q ReadyQ @ Q SendQ)) s3"
    using wake_queues [of H Q s2 SendQ] H(1) by blast
  define s4 where "s4 = e1000_write_reg nic E1000_IMC E1000_ICR_TXQE s3"
  define Q4 where "Q4 = Q(SendQ := [], ReadyQ := Q ReadyQ @ Q SendQ)"
  have r4: "at_rest H Q4 s4" using s3(2) by (simp add: s4_def Q4_def e1000_write_reg_def)
  have ready: "status (pcbs t p) = TASK_READY" if "at_rest H Q' t" "PcbNode p \<in> set (Q' ReadyQ)" for t :: "('d, 'n, 'a) netst_scheme" and Q'
  proof -
    have rel: "sched_rel H Q' t" using that(1) by (simp add: at_rest_def)
    show ?thesis using queued_status [OF rel sched_relD(2) [OF rel] that(2)] by simp
  qed
  have p4: "PcbNode p \<in> set (Q4 ReadyQ)" using p by (simp add: Q4_def)
  show ?thesis
  proof (cases "(?icr AND E1000_ICR_RXDMT0) AND (?ims AND E1000_ICR_RXDMT0) \<noteq> 0")
    case False
    then have "net_handle_irq nic s = Some s4" using rd both s3(1) by (simp add: net_handle_irq_def s4_def)
    then show ?thesis using ready [OF r4 p4] by blast
  next
    case True
    obtain s5 where s5: "unblock_all RecvQ s4 = Some s5" "at_rest H (Q4(RecvQ := [], ReadyQ := Q4 ReadyQ @ Q4 RecvQ)) s5"
      using wake_queues [OF r4 H(2)] by blast
    have "net_handle_irq nic s = Some s5" using rd both s3(1) True s5(1) by (simp add: net_handle_irq_def s4_def)
    then show ?thesis using ready [OF s5(2)] p4 by simp
  qed
qed

section \<open>Receiving a packet\<close>

text \<open>
  C33: When the next descriptor holds a whole packet of the kind the driver takes (byte 14 is 43),
  \<^verbatim>\<open>e1000_poll\<close> returns its length, the user buffer starts with the packet and the descriptor goes back to the
  adapter; but only if the length is a multiple of eight, otherwise the call never returns.
\<close>

theorem net_poll_packet:
  fixes s :: "('d, 'n, 'a) netst_scheme"
  assumes i: "i = unat ((fst (nic_rd nic E1000_RDT (e1000 s)) + 1) mod word_of_nat RXDESCS)"
    and d: "rd_status (rx_desc_array s i) AND E1000_RXD_STAT_DD \<noteq> 0" "rd_status (rx_desc_array s i) AND E1000_RXD_STAT_EOP \<noteq> 0"
    and n: "n = unat (rd_length (rx_desc_array s i))" "n \<le> RX_PKT_SIZE" "n \<le> length buf" "unat rxbuffer + n + 4096 < 2 ^ 64"
    and b: "length (rx_pkt_buffer s) = RXDESCS * RX_PKT_SIZE" "rx_pkt_buffer s ! (RX_PKT_SIZE * i + 14) = 43" and res: "all_resident s"
  shows "e1000_poll ops nic rxbuffer buf s = (if n mod 8 = 0 then
      Some (Got (word_of_nat n) (bget (RX_PKT_SIZE * i) n (rx_pkt_buffer s) @ drop n buf),
        recycle_rx nic i (s\<lparr>e1000 := snd (nic_rd nic E1000_RDT (e1000 s))\<rparr>)) else None)"
proof -
  define s0 where "s0 = s\<lparr>e1000 := snd (nic_rd nic E1000_RDT (e1000 s))\<rparr>"
  have rd: "next_rx nic s = (i, s0)" by (simp add: next_rx_def e1000_read_reg_def s0_def i case_prod_beta Let_def)
  have n2: "n \<le> 2048" using n(2) by (simp add: RX_PKT_SIZE_def)
  let ?w = "ucast (rd_length (rx_desc_array s i)) :: i32"
  have w: "unat ?w = n" "?w = word_of_nat n" using n(1) n2 by (simp_all add: unsigned_ucast_eq take_bit_nat_eq_self)
  have "sint ?w = int n" using sint_pos [of ?w] w(1) n2 by simp
  then have "scast ?w = (word_of_nat n :: u64)" using of_int_sint [of ?w, where 'a = "64 word"] by simp
  moreover have "unat (rxbuffer + word_of_nat n) = unat rxbuffer + n" using n(4) n2 by (simp add: unat_word_ariths unat_of_nat)
  moreover have "all_resident s0" using res by (simp add: all_resident_def s0_def)
  ultimately have uva: "check_uva_mem ops rxbuffer (scast ?w) (current_running s0) s0 = Some s0"
    unfolding check_uva_mem_def using n(4) by (intro check_uva_resident) simp_all
  have "(x + 1) mod 64 < (64 :: u32)" for x :: u32 by (simp add: word_mod_less_divisor)
  then have i64: "i < 64" unfolding i RXDESCS_def by (simp add: word_less_nat_alt)
  have len: "unat ?w \<le> length (drop (2048 * i) (rx_pkt_buffer s))" "unat ?w \<le> length buf"
    using b(1) i64 n2 n(3) w(1) by (simp_all add: net_sizes)
  have cp: "mymemcpy buf (drop (2048 * i) (rx_pkt_buffer s)) 0 ?w =
      (if n mod 8 = 0 then Some (take n (drop (2048 * i) (rx_pkt_buffer s)) @ drop n buf) else None)"
    using mymemcpy_even [of ?w 0 "drop (2048 * i) (rx_pkt_buffer s)" buf] mymemcpy_odd [of ?w buf] len w(1)
    by (simp add: bput_def bget_def)
  have f: "rx_desc_array s0 = rx_desc_array s" "rx_pkt_buffer s0 = rx_pkt_buffer s" by (simp_all add: s0_def)
  have "poll_at ops nic rxbuffer i 0 buf s0 = Option.bind (mymemcpy buf (drop (2048 * i) (rx_pkt_buffer s)) 0 ?w)
      (\<lambda>buf'. Some (Got ?w buf', recycle_rx nic i s0))"
    using d b(2) uva by (subst poll_at.simps) (simp add: f Let_def RX_PKT_SIZE_def)
  then show ?thesis using rd cp w(2) by (simp add: e1000_poll_def s0_def bget_def RX_PKT_SIZE_def)
qed

section \<open>A concrete adapter\<close>

text \<open>Registers that keep what is stored, all descriptors free, one packet received in descriptor 0.\<close>

definition demo_nic :: "(u32 \<Rightarrow> u32) nic" where
  "demo_nic = \<lparr>nic_rd = (\<lambda>r d. (d r, d)), nic_wr = (\<lambda>r v d. d(r := v))\<rparr>"

definition demo_nbufs :: nbufs where
  "demo_nbufs = \<lparr>tx_desc_va = 0xffffffc050300000, rx_desc_va = 0xffffffc050301000,
     tx_buf_va = 0xffffffc050310000, rx_buf_va = 0xffffffc050330000\<rparr>"

definition demo_net :: "(u32 \<Rightarrow> u64 list, u32 \<Rightarrow> u32) netst" where
  "demo_net = \<lparr>pcbs = pcbs demo_lk, qlinks = qlinks demo_lk, cur = cur demo_lk, hart = 0, clk = clk demo_lk, clk_reads = 0, tty = [],
     mem = mem demo_lk, user_bitmap = user_bitmap demo_lk, kernel_bitmap = kernel_bitmap demo_lk, pn = pn demo_lk,
     plinks = plinks demo_lk, sd_sector_end = 1000, swapdev = swapdev demo_lk, shm_pages = shm_pages demo_lk,
     userMemCurr = USER_STACK_ADDR, io_base = IO_ADDR_START,
     mlocks = mlocks demo_lk, last_lockid = 0, barrier = barrier demo_lk, condition = condition demo_lk, mailbox = mailbox demo_lk,
     new_screen = [], old_screen = [], process_id = 3, tasks = (\<lambda>_. \<lparr>ti_name = [0], ti_entrypoint = 0, ti_sector_num = 0,
       ti_firstsector = 0, ti_offset = 0, ti_memsize = 0\<rparr>), tasknum = 0,
     tx_desc_array = (\<lambda>i. \<lparr>td_addr = kva2pa (0xffffffc050310000 + word_of_nat (2048 * i)), td_length = 0, td_cso = 0,
       td_cmd = 8, td_status = 1, td_css = 0, td_special = 0\<rparr>),
     rx_desc_array = (\<lambda>i. \<lparr>rd_addr = 0, rd_length = 16, rd_csum = 0, rd_status = 3, rd_errors = 0, rd_special = 0\<rparr>),
     tx_pkt_buffer = replicate 131072 0, rx_pkt_buffer = (replicate 131072 7)[14 := 43], e1000 = (\<lambda>r. if r = E1000_RDT then 63 else
       if r = E1000_ICR \<or> r = E1000_IMS then 2 else 0)\<rparr>"

lemma demo_net_ready: "all_resident demo_net" "tx_ready demo_nbufs demo_net" "tail demo_nic demo_net = 0" "slot_free demo_net i"
  "tail_ok demo_nic"
  by (simp_all add: all_resident_def demo_net_def demo_lk_def demo_mm_def demo_plinks_def Let_def tx_ready_def demo_nbufs_def
    net_sizes tail_def demo_nic_def E1000_RDT_def E1000_TDT_def E1000_ICR_def E1000_IMS_def slot_free_def E1000_TXD_STAT_DD_def tail_ok_def)

lemma demo_net_rest: "at_rest demo_heads demo_Q demo_net" "current_running demo_net = Pcb 0"
  using at_rest_cong [OF demo_lk_rest(1), of demo_net] demo_lk_rest(2)
  by (simp_all add: demo_net_def current_running_def demo_lk_def)

theorem net_send_ring_witness:
  "\<exists>s'. send_all demo_dsk demo_nic demo_nbufs [(0x10000, [1, 2, 3]), (0x10000, [4, 5])] demo_net = Some s' \<and>
    tail demo_nic s' = Suc (Suc 0) \<and> ring_holds s' 0 [[1, 2, 3], [4, 5]]"
  using net_send_ring [OF demo_net_ready(5,2,1), of "[(0x10000, [1, 2, 3]), (0x10000, [4, 5])]" demo_dsk]
  by (simp add: demo_net_ready net_sizes)

theorem net_poll_packet_witness:
  "\<exists>s'. e1000_poll demo_dsk demo_nic 0x10000 (replicate 16 0) demo_net = Some (Got 16 (bget 0 16 ((replicate 131072 7)[14 := 43])), s')"
proof -
  have "0 = unat ((fst (nic_rd demo_nic E1000_RDT (e1000 demo_net)) + 1) mod word_of_nat RXDESCS)"
    by (simp add: demo_nic_def demo_net_def net_sizes)
  from net_poll_packet [OF this, where n = 16 and buf = "replicate 16 0" and rxbuffer = "0x10000" and ops = demo_dsk] demo_net_ready(1) show ?thesis
    by (simp add: demo_net_def net_sizes E1000_RXD_STAT_DD_def E1000_RXD_STAT_EOP_def)
qed

end
