(* ===== verification/Syscall.thy ===== *)
theory Syscall
  imports OS_Prelude
begin

text \<open>
  The system call interface: the numbers of \<^verbatim>\<open>asm/unistd.h\<close> as the kernel has them and as the user library has
  them, the table that \<^verbatim>\<open>init_syscall\<close> of \<^verbatim>\<open>init/main.c\<close> fills, and the wrappers of
  \<^verbatim>\<open>tiny_libc/syscall.c\<close>. A wrapper is the trap it causes, the call number in register a7 and the values of
  a0 to a4; \<^verbatim>\<open>kernel_call\<close> is the kernel function that the table gives for a trap, with its arguments. The
  result below composes the two sides.
\<close>

unbundle bit_operations_syntax

section \<open>Numbers and the table\<close>

datatype (plugins only: code) sysno =
  N_EXEC | N_EXIT | N_SLEEP | N_KILL | N_WAITPID | N_PS | N_GETPID | N_YIELD | N_WRITE | N_READCH
  | N_CURSOR | N_REFLUSH | N_CLEAR | N_GET_TIMEBASE | N_GET_TICK | N_TASKSET | N_SEMA_INIT | N_SEMA_UP
  | N_SEMA_DOWN | N_SEMA_DESTROY | N_LOCK_INIT | N_LOCK_ACQ | N_LOCK_RELEASE | N_SET_SCHE_WORKLOAD
  | N_SHOW_TASK | N_BARR_INIT | N_BARR_WAIT | N_BARR_DESTROY | N_COND_INIT | N_COND_WAIT | N_COND_SIGNAL
  | N_COND_BROADCAST | N_COND_DESTROY | N_MBOX_OPEN | N_MBOX_CLOSE | N_MBOX_SEND | N_MBOX_RECV
  | N_SHM_GET | N_SHM_DT | N_PTHREAD_CREATE | N_PTHREAD_JOIN | N_MPTOTECT | N_GET_BRK | N_BRK | N_SBRK
  | N_NET_SEND | N_NET_RECV | N_NET_MULISND | N_FS_MKFS | N_FS_STATFS | N_FS_CD | N_FS_MKDIR
  | N_FS_RMDIR | N_FS_LS | N_FS_TOUCH | N_FS_CAT | N_FS_OPEN | N_FS_READ | N_FS_WRITE | N_FS_CLOSE
  | N_FS_LN | N_FS_RM | N_FS_LSEEK | N_FS_PWD | N_VMFLUSH | N_INIT_BCACHE | N_BFLUSH

text \<open>The system call numbers of the kernel and of the user library.\<close>

primrec unistd_no :: "sysno \<Rightarrow> u64" where
  "unistd_no N_EXEC = 0"
| "unistd_no N_EXIT = 1"
| "unistd_no N_SLEEP = 2"
| "unistd_no N_KILL = 3"
| "unistd_no N_WAITPID = 4"
| "unistd_no N_PS = 5"
| "unistd_no N_GETPID = 6"
| "unistd_no N_YIELD = 7"
| "unistd_no N_WRITE = 20"
| "unistd_no N_READCH = 21"
| "unistd_no N_CURSOR = 22"
| "unistd_no N_REFLUSH = 23"
| "unistd_no N_CLEAR = 24"
| "unistd_no N_GET_TIMEBASE = 30"
| "unistd_no N_GET_TICK = 31"
| "unistd_no N_TASKSET = 32"
| "unistd_no N_SEMA_INIT = 36"
| "unistd_no N_SEMA_UP = 37"
| "unistd_no N_SEMA_DOWN = 38"
| "unistd_no N_SEMA_DESTROY = 39"
| "unistd_no N_LOCK_INIT = 40"
| "unistd_no N_LOCK_ACQ = 41"
| "unistd_no N_LOCK_RELEASE = 42"
| "unistd_no N_SET_SCHE_WORKLOAD = 35"
| "unistd_no N_SHOW_TASK = 43"
| "unistd_no N_BARR_INIT = 44"
| "unistd_no N_BARR_WAIT = 45"
| "unistd_no N_BARR_DESTROY = 46"
| "unistd_no N_COND_INIT = 47"
| "unistd_no N_COND_WAIT = 48"
| "unistd_no N_COND_SIGNAL = 49"
| "unistd_no N_COND_BROADCAST = 50"
| "unistd_no N_COND_DESTROY = 51"
| "unistd_no N_MBOX_OPEN = 52"
| "unistd_no N_MBOX_CLOSE = 53"
| "unistd_no N_MBOX_SEND = 54"
| "unistd_no N_MBOX_RECV = 55"
| "unistd_no N_SHM_GET = 56"
| "unistd_no N_SHM_DT = 57"
| "unistd_no N_PTHREAD_CREATE = 58"
| "unistd_no N_PTHREAD_JOIN = 59"
| "unistd_no N_MPTOTECT = 60"
| "unistd_no N_GET_BRK = 61"
| "unistd_no N_BRK = 62"
| "unistd_no N_SBRK = 63"
| "unistd_no N_NET_SEND = 64"
| "unistd_no N_NET_RECV = 65"
| "unistd_no N_NET_MULISND = 66"
| "unistd_no N_FS_MKFS = 80"
| "unistd_no N_FS_STATFS = 81"
| "unistd_no N_FS_CD = 67"
| "unistd_no N_FS_MKDIR = 68"
| "unistd_no N_FS_RMDIR = 69"
| "unistd_no N_FS_LS = 70"
| "unistd_no N_FS_TOUCH = 71"
| "unistd_no N_FS_CAT = 72"
| "unistd_no N_FS_OPEN = 73"
| "unistd_no N_FS_READ = 74"
| "unistd_no N_FS_WRITE = 75"
| "unistd_no N_FS_CLOSE = 76"
| "unistd_no N_FS_LN = 77"
| "unistd_no N_FS_RM = 78"
| "unistd_no N_FS_LSEEK = 79"
| "unistd_no N_FS_PWD = 82"
| "unistd_no N_VMFLUSH = 83"
| "unistd_no N_INIT_BCACHE = 84"
| "unistd_no N_BFLUSH = 85"

primrec libc_no :: "sysno \<Rightarrow> u64" where
  "libc_no N_EXEC = 0"
| "libc_no N_EXIT = 1"
| "libc_no N_SLEEP = 2"
| "libc_no N_KILL = 3"
| "libc_no N_WAITPID = 4"
| "libc_no N_PS = 5"
| "libc_no N_GETPID = 6"
| "libc_no N_YIELD = 7"
| "libc_no N_WRITE = 20"
| "libc_no N_READCH = 21"
| "libc_no N_CURSOR = 22"
| "libc_no N_REFLUSH = 23"
| "libc_no N_CLEAR = 24"
| "libc_no N_GET_TIMEBASE = 30"
| "libc_no N_GET_TICK = 31"
| "libc_no N_TASKSET = 32"
| "libc_no N_SEMA_INIT = 36"
| "libc_no N_SEMA_UP = 37"
| "libc_no N_SEMA_DOWN = 38"
| "libc_no N_SEMA_DESTROY = 39"
| "libc_no N_LOCK_INIT = 40"
| "libc_no N_LOCK_ACQ = 41"
| "libc_no N_LOCK_RELEASE = 42"
| "libc_no N_SET_SCHE_WORKLOAD = 35"
| "libc_no N_SHOW_TASK = 43"
| "libc_no N_BARR_INIT = 44"
| "libc_no N_BARR_WAIT = 45"
| "libc_no N_BARR_DESTROY = 46"
| "libc_no N_COND_INIT = 47"
| "libc_no N_COND_WAIT = 48"
| "libc_no N_COND_SIGNAL = 49"
| "libc_no N_COND_BROADCAST = 50"
| "libc_no N_COND_DESTROY = 51"
| "libc_no N_MBOX_OPEN = 52"
| "libc_no N_MBOX_CLOSE = 53"
| "libc_no N_MBOX_SEND = 54"
| "libc_no N_MBOX_RECV = 55"
| "libc_no N_SHM_GET = 56"
| "libc_no N_SHM_DT = 57"
| "libc_no N_PTHREAD_CREATE = 58"
| "libc_no N_PTHREAD_JOIN = 59"
| "libc_no N_MPTOTECT = 60"
| "libc_no N_GET_BRK = 61"
| "libc_no N_BRK = 62"
| "libc_no N_SBRK = 63"
| "libc_no N_NET_SEND = 64"
| "libc_no N_NET_RECV = 65"
| "libc_no N_NET_MULISND = 66"
| "libc_no N_FS_MKFS = 80"
| "libc_no N_FS_STATFS = 81"
| "libc_no N_FS_CD = 67"
| "libc_no N_FS_MKDIR = 68"
| "libc_no N_FS_RMDIR = 69"
| "libc_no N_FS_LS = 70"
| "libc_no N_FS_TOUCH = 71"
| "libc_no N_FS_CAT = 72"
| "libc_no N_FS_OPEN = 73"
| "libc_no N_FS_READ = 74"
| "libc_no N_FS_WRITE = 75"
| "libc_no N_FS_CLOSE = 76"
| "libc_no N_FS_LN = 77"
| "libc_no N_FS_RM = 78"
| "libc_no N_FS_LSEEK = 79"
| "libc_no N_FS_PWD = 82"
| "libc_no N_VMFLUSH = 83"
| "libc_no N_INIT_BCACHE = 84"
| "libc_no N_BFLUSH = 85"

text \<open>A call of a kernel function, with its arguments at their C types (pointers as addresses).\<close>

datatype (plugins only: code) kcall =
  K_do_sleep u32 | K_do_scheduler | K_screen_write u64 | K_screen_move_cursor i32 i32 | K_screen_reflush
  | K_get_time_base | K_get_ticks | K_do_mutex_lock_init i32 | K_do_mutex_lock_acquire i32
  | K_do_mutex_lock_release i32 | K_set_sche_workload i32 | K_bios_getchar | K_do_process_show
  | K_screen_clear | K_do_exec u64 i32 u64 | K_do_exit | K_do_kill i32 | K_do_waitpid i32 | K_do_getpid
  | K_do_barrier_init i32 i32 | K_do_barrier_wait i32 | K_do_barrier_destroy i32
  | K_do_condition_init i32 | K_do_condition_wait i32 i32 | K_do_condition_signal i32
  | K_do_condition_broadcast i32 | K_do_condition_destroy i32 | K_do_mbox_open u64 | K_do_mbox_close i32
  | K_do_mbox_send i32 u64 i32 | K_do_mbox_recv i32 u64 i32 | K_do_taskset u64 i32 u64 i32
  | K_do_pthread_create i32 u64 u64 u64 | K_do_pthread_join i32 | K_shm_page_get i32 | K_shm_page_dt u64
  | K_do_mprotect u64 u64 i32 | K_do_getbrk u64 | K_do_brk u64 | K_do_sbrk u64 | K_do_net_send u64 i32
  | K_do_net_recv u64 i32 u64 | K_do_net_multisend u64 i32 i32 | K_do_mkfs | K_do_statfs | K_do_cd u64
  | K_do_mkdir u64 | K_do_rmdir u64 | K_do_ls u64 i32 | K_do_touch u64 | K_do_cat u64
  | K_do_open u64 i32 | K_do_read i32 u64 i32 | K_do_write i32 u64 i32 | K_do_close i32
  | K_do_ln u64 u64 | K_do_rm u64 | K_do_lseek i32 i32 i32 | K_do_pwd | K_do_vmflush | K_init_bcache
  | K_bflush

text \<open>
  The assignments of \<^verbatim>\<open>init_syscall\<close>. The functions are called with five \<^verbatim>\<open>long\<close> values and use as much of
  them as their parameters take.
\<close>

definition syscall_entries :: "(sysno \<times> (u64 list \<Rightarrow> kcall)) list" where
  "syscall_entries = [
     (N_SLEEP, \<lambda>a. K_do_sleep (ucast (a ! 0))),
     (N_YIELD, \<lambda>a. K_do_scheduler),
     (N_WRITE, \<lambda>a. K_screen_write (a ! 0)),
     (N_CURSOR, \<lambda>a. K_screen_move_cursor (ucast (a ! 0)) (ucast (a ! 1))),
     (N_REFLUSH, \<lambda>a. K_screen_reflush),
     (N_GET_TIMEBASE, \<lambda>a. K_get_time_base),
     (N_GET_TICK, \<lambda>a. K_get_ticks),
     (N_LOCK_INIT, \<lambda>a. K_do_mutex_lock_init (ucast (a ! 0))),
     (N_LOCK_ACQ, \<lambda>a. K_do_mutex_lock_acquire (ucast (a ! 0))),
     (N_LOCK_RELEASE, \<lambda>a. K_do_mutex_lock_release (ucast (a ! 0))),
     (N_SET_SCHE_WORKLOAD, \<lambda>a. K_set_sche_workload (ucast (a ! 0))),
     (N_READCH, \<lambda>a. K_bios_getchar),
     (N_PS, \<lambda>a. K_do_process_show),
     (N_CLEAR, \<lambda>a. K_screen_clear),
     (N_EXEC, \<lambda>a. K_do_exec (a ! 0) (ucast (a ! 1)) (a ! 2)),
     (N_EXIT, \<lambda>a. K_do_exit),
     (N_KILL, \<lambda>a. K_do_kill (ucast (a ! 0))),
     (N_WAITPID, \<lambda>a. K_do_waitpid (ucast (a ! 0))),
     (N_GETPID, \<lambda>a. K_do_getpid),
     (N_BARR_INIT, \<lambda>a. K_do_barrier_init (ucast (a ! 0)) (ucast (a ! 1))),
     (N_BARR_WAIT, \<lambda>a. K_do_barrier_wait (ucast (a ! 0))),
     (N_BARR_DESTROY, \<lambda>a. K_do_barrier_destroy (ucast (a ! 0))),
     (N_COND_INIT, \<lambda>a. K_do_condition_init (ucast (a ! 0))),
     (N_COND_WAIT, \<lambda>a. K_do_condition_wait (ucast (a ! 0)) (ucast (a ! 1))),
     (N_COND_SIGNAL, \<lambda>a. K_do_condition_signal (ucast (a ! 0))),
     (N_COND_BROADCAST, \<lambda>a. K_do_condition_broadcast (ucast (a ! 0))),
     (N_COND_DESTROY, \<lambda>a. K_do_condition_destroy (ucast (a ! 0))),
     (N_MBOX_OPEN, \<lambda>a. K_do_mbox_open (a ! 0)),
     (N_MBOX_CLOSE, \<lambda>a. K_do_mbox_close (ucast (a ! 0))),
     (N_MBOX_SEND, \<lambda>a. K_do_mbox_send (ucast (a ! 0)) (a ! 1) (ucast (a ! 2))),
     (N_MBOX_RECV, \<lambda>a. K_do_mbox_recv (ucast (a ! 0)) (a ! 1) (ucast (a ! 2))),
     (N_TASKSET, \<lambda>a. K_do_taskset (a ! 0) (ucast (a ! 1)) (a ! 2) (ucast (a ! 3))),
     (N_PTHREAD_CREATE, \<lambda>a. K_do_pthread_create (ucast (a ! 0)) (a ! 1) (a ! 2) (a ! 3)),
     (N_PTHREAD_JOIN, \<lambda>a. K_do_pthread_join (ucast (a ! 0))),
     (N_SHM_GET, \<lambda>a. K_shm_page_get (ucast (a ! 0))),
     (N_SHM_DT, \<lambda>a. K_shm_page_dt (a ! 0)),
     (N_MPTOTECT, \<lambda>a. K_do_mprotect (a ! 0) (a ! 1) (ucast (a ! 2))),
     (N_GET_BRK, \<lambda>a. K_do_getbrk (a ! 0)),
     (N_BRK, \<lambda>a. K_do_brk (a ! 0)),
     (N_SBRK, \<lambda>a. K_do_sbrk (a ! 0)),
     (N_NET_SEND, \<lambda>a. K_do_net_send (a ! 0) (ucast (a ! 1))),
     (N_NET_RECV, \<lambda>a. K_do_net_recv (a ! 0) (ucast (a ! 1)) (a ! 2)),
     (N_NET_MULISND, \<lambda>a. K_do_net_multisend (a ! 0) (ucast (a ! 1)) (ucast (a ! 2))),
     (N_FS_MKFS, \<lambda>a. K_do_mkfs),
     (N_FS_STATFS, \<lambda>a. K_do_statfs),
     (N_FS_CD, \<lambda>a. K_do_cd (a ! 0)),
     (N_FS_MKDIR, \<lambda>a. K_do_mkdir (a ! 0)),
     (N_FS_RMDIR, \<lambda>a. K_do_rmdir (a ! 0)),
     (N_FS_LS, \<lambda>a. K_do_ls (a ! 0) (ucast (a ! 1))),
     (N_FS_TOUCH, \<lambda>a. K_do_touch (a ! 0)),
     (N_FS_CAT, \<lambda>a. K_do_cat (a ! 0)),
     (N_FS_OPEN, \<lambda>a. K_do_open (a ! 0) (ucast (a ! 1))),
     (N_FS_READ, \<lambda>a. K_do_read (ucast (a ! 0)) (a ! 1) (ucast (a ! 2))),
     (N_FS_WRITE, \<lambda>a. K_do_write (ucast (a ! 0)) (a ! 1) (ucast (a ! 2))),
     (N_FS_CLOSE, \<lambda>a. K_do_close (ucast (a ! 0))),
     (N_FS_LN, \<lambda>a. K_do_ln (a ! 0) (a ! 1)),
     (N_FS_RM, \<lambda>a. K_do_rm (a ! 0)),
     (N_FS_LSEEK, \<lambda>a. K_do_lseek (ucast (a ! 0)) (ucast (a ! 1)) (ucast (a ! 2))),
     (N_FS_PWD, \<lambda>a. K_do_pwd),
     (N_VMFLUSH, \<lambda>a. K_do_vmflush),
     (N_INIT_BCACHE, \<lambda>a. K_init_bcache),
     (N_BFLUSH, \<lambda>a. K_bflush)]"

definition NUM_SYSCALLS :: nat where "NUM_SYSCALLS = 96"

definition init_syscall :: "u64 \<rightharpoonup> (u64 list \<Rightarrow> kcall)" where
  "init_syscall = foldl (\<lambda>t (nm, h). t(unistd_no nm \<mapsto> h)) Map.empty syscall_entries"

text \<open>
  \<^verbatim>\<open>syscall[regs[a7]](regs[a0], ..., regs[a4])\<close>: None when the number is not below \<^verbatim>\<open>NUM_SYSCALLS\<close> or its
  entry is a null pointer, which the code does not check.
\<close>

type_synonym trap = "u64 \<times> u64 list"

definition kernel_call :: "trap \<Rightarrow> kcall option" where
  "kernel_call tr = map_option (\<lambda>h. h (snd tr)) (init_syscall (fst tr))"

section \<open>The wrappers of the user library\<close>

definition IGNORE :: u64 where "IGNORE = 0"

definition invoke_syscall :: "sysno \<Rightarrow> u64 \<Rightarrow> u64 \<Rightarrow> u64 \<Rightarrow> u64 \<Rightarrow> u64 \<Rightarrow> trap" where
  "invoke_syscall nm arg0 arg1 arg2 arg3 arg4 = (libc_no nm, [arg0, arg1, arg2, arg3, arg4])"

definition sys_yield :: "trap" where
  "sys_yield = invoke_syscall N_YIELD IGNORE IGNORE IGNORE IGNORE IGNORE"

definition sys_move_cursor :: "i32 \<Rightarrow> i32 \<Rightarrow> trap" where
  "sys_move_cursor x y = invoke_syscall N_CURSOR (scast x) (scast y) IGNORE IGNORE IGNORE"

definition sys_screen_write :: "u64 \<Rightarrow> trap" where
  "sys_screen_write buff = invoke_syscall N_WRITE buff IGNORE IGNORE IGNORE IGNORE"

definition sys_reflush :: "trap" where
  "sys_reflush = invoke_syscall N_REFLUSH IGNORE IGNORE IGNORE IGNORE IGNORE"

definition sys_mutex_init :: "i32 \<Rightarrow> trap" where
  "sys_mutex_init key = invoke_syscall N_LOCK_INIT (scast key) IGNORE IGNORE IGNORE IGNORE"

definition sys_mutex_acquire :: "i32 \<Rightarrow> trap" where
  "sys_mutex_acquire mutex_idx = invoke_syscall N_LOCK_ACQ (scast mutex_idx) IGNORE IGNORE IGNORE IGNORE"

definition sys_mutex_release :: "i32 \<Rightarrow> trap" where
  "sys_mutex_release mutex_idx = invoke_syscall N_LOCK_RELEASE (scast mutex_idx) IGNORE IGNORE IGNORE IGNORE"

definition sys_get_timebase :: "trap" where
  "sys_get_timebase = invoke_syscall N_GET_TIMEBASE IGNORE IGNORE IGNORE IGNORE IGNORE"

definition sys_get_tick :: "trap" where
  "sys_get_tick = invoke_syscall N_GET_TICK IGNORE IGNORE IGNORE IGNORE IGNORE"

definition sys_sleep :: "u32 \<Rightarrow> trap" where
  "sys_sleep time = invoke_syscall N_SLEEP (ucast time) IGNORE IGNORE IGNORE IGNORE"

definition sys_set_sche_workload :: "i32 \<Rightarrow> trap" where
  "sys_set_sche_workload remain_length = invoke_syscall N_SET_SCHE_WORKLOAD (scast remain_length) IGNORE IGNORE IGNORE IGNORE"

definition sys_exec :: "u64 \<Rightarrow> i32 \<Rightarrow> u64 \<Rightarrow> trap" where
  "sys_exec name argc argv = invoke_syscall N_EXEC name (scast argc) argv IGNORE IGNORE"

definition sys_exit :: "trap" where
  "sys_exit = invoke_syscall N_EXIT IGNORE IGNORE IGNORE IGNORE IGNORE"

definition sys_kill :: "i32 \<Rightarrow> trap" where
  "sys_kill pid = invoke_syscall N_KILL (scast pid) IGNORE IGNORE IGNORE IGNORE"

definition sys_waitpid :: "i32 \<Rightarrow> trap" where
  "sys_waitpid pid = invoke_syscall N_WAITPID (scast pid) IGNORE IGNORE IGNORE IGNORE"

definition sys_ps :: "trap" where
  "sys_ps = invoke_syscall N_PS IGNORE IGNORE IGNORE IGNORE IGNORE"

definition sys_screen_clear :: "trap" where
  "sys_screen_clear = invoke_syscall N_CLEAR IGNORE IGNORE IGNORE IGNORE IGNORE"

definition sys_getpid :: "trap" where
  "sys_getpid = invoke_syscall N_GETPID IGNORE IGNORE IGNORE IGNORE IGNORE"

definition sys_getchar :: "trap" where
  "sys_getchar = invoke_syscall N_READCH IGNORE IGNORE IGNORE IGNORE IGNORE"

definition sys_barrier_init :: "i32 \<Rightarrow> i32 \<Rightarrow> trap" where
  "sys_barrier_init key goal = invoke_syscall N_BARR_INIT (scast key) (scast goal) IGNORE IGNORE IGNORE"

definition sys_barrier_wait :: "i32 \<Rightarrow> trap" where
  "sys_barrier_wait bar_idx = invoke_syscall N_BARR_WAIT (scast bar_idx) IGNORE IGNORE IGNORE IGNORE"

definition sys_barrier_destroy :: "i32 \<Rightarrow> trap" where
  "sys_barrier_destroy bar_idx = invoke_syscall N_BARR_DESTROY (scast bar_idx) IGNORE IGNORE IGNORE IGNORE"

definition sys_condition_init :: "i32 \<Rightarrow> trap" where
  "sys_condition_init key = invoke_syscall N_COND_INIT (scast key) IGNORE IGNORE IGNORE IGNORE"

definition sys_condition_wait :: "i32 \<Rightarrow> i32 \<Rightarrow> trap" where
  "sys_condition_wait cond_idx mutex_idx = invoke_syscall N_COND_WAIT (scast cond_idx) (scast mutex_idx) IGNORE IGNORE IGNORE"

definition sys_condition_signal :: "i32 \<Rightarrow> trap" where
  "sys_condition_signal cond_idx = invoke_syscall N_COND_SIGNAL (scast cond_idx) IGNORE IGNORE IGNORE IGNORE"

definition sys_condition_broadcast :: "i32 \<Rightarrow> trap" where
  "sys_condition_broadcast cond_idx = invoke_syscall N_COND_BROADCAST (scast cond_idx) IGNORE IGNORE IGNORE IGNORE"

definition sys_condition_destroy :: "i32 \<Rightarrow> trap" where
  "sys_condition_destroy cond_idx = invoke_syscall N_COND_DESTROY (scast cond_idx) IGNORE IGNORE IGNORE IGNORE"

definition sys_mbox_open :: "u64 \<Rightarrow> trap" where
  "sys_mbox_open name = invoke_syscall N_MBOX_OPEN name IGNORE IGNORE IGNORE IGNORE"

definition sys_mbox_close :: "i32 \<Rightarrow> trap" where
  "sys_mbox_close mbox_id = invoke_syscall N_MBOX_CLOSE (scast mbox_id) IGNORE IGNORE IGNORE IGNORE"

definition sys_mbox_send :: "i32 \<Rightarrow> u64 \<Rightarrow> i32 \<Rightarrow> trap" where
  "sys_mbox_send mbox_idx msg msg_length = invoke_syscall N_MBOX_SEND (scast mbox_idx) msg (scast msg_length) IGNORE IGNORE"

definition sys_mbox_recv :: "i32 \<Rightarrow> u64 \<Rightarrow> i32 \<Rightarrow> trap" where
  "sys_mbox_recv mbox_idx msg msg_length = invoke_syscall N_MBOX_RECV (scast mbox_idx) msg (scast msg_length) IGNORE IGNORE"

definition sys_taskset :: "u64 \<Rightarrow> i32 \<Rightarrow> u64 \<Rightarrow> i32 \<Rightarrow> trap" where
  "sys_taskset name pid msk mode = invoke_syscall N_TASKSET name (scast pid) msk (scast mode) IGNORE"

definition sys_shmpageget :: "i32 \<Rightarrow> trap" where
  "sys_shmpageget key = invoke_syscall N_SHM_GET (scast key) IGNORE IGNORE IGNORE IGNORE"

definition sys_shmpagedt :: "u64 \<Rightarrow> trap" where
  "sys_shmpagedt addr = invoke_syscall N_SHM_DT addr IGNORE IGNORE IGNORE IGNORE"

definition sys_pthread_create :: "i32 \<Rightarrow> u64 \<Rightarrow> u64 \<Rightarrow> u64 \<Rightarrow> trap" where
  "sys_pthread_create thread start_routine arg exit_funct = invoke_syscall N_PTHREAD_CREATE (scast thread) start_routine arg exit_funct IGNORE"

definition sys_pthread_join :: "i32 \<Rightarrow> trap" where
  "sys_pthread_join thread = invoke_syscall N_PTHREAD_JOIN (scast thread) IGNORE IGNORE IGNORE IGNORE"

definition sys_mprotect :: "u64 \<Rightarrow> u64 \<Rightarrow> i32 \<Rightarrow> trap" where
  "sys_mprotect addr len prot = invoke_syscall N_MPTOTECT addr len (scast prot) IGNORE IGNORE"

definition sys_getbrk :: "u64 \<Rightarrow> trap" where
  "sys_getbrk bss_end = invoke_syscall N_GET_BRK bss_end IGNORE IGNORE IGNORE IGNORE"

definition u_brk :: "u64 \<Rightarrow> trap" where
  "u_brk addr = invoke_syscall N_BRK addr IGNORE IGNORE IGNORE IGNORE"

definition u_sbrk :: "u64 \<Rightarrow> trap" where
  "u_sbrk increment = invoke_syscall N_SBRK increment IGNORE IGNORE IGNORE IGNORE"

definition sys_net_send :: "u64 \<Rightarrow> i32 \<Rightarrow> trap" where
  "sys_net_send txpacket len = invoke_syscall N_NET_SEND txpacket (scast len) IGNORE IGNORE IGNORE"

definition sys_net_multisend :: "u64 \<Rightarrow> i32 \<Rightarrow> i32 \<Rightarrow> trap" where
  "sys_net_multisend txpacket pkt_num pkt_len = invoke_syscall N_NET_MULISND txpacket (scast pkt_num) (scast pkt_len) IGNORE IGNORE"

definition sys_net_recv :: "u64 \<Rightarrow> i32 \<Rightarrow> u64 \<Rightarrow> trap" where
  "sys_net_recv rxbuffer pkt_num pkt_lens = invoke_syscall N_NET_RECV rxbuffer (scast pkt_num) pkt_lens IGNORE IGNORE"

definition sys_mkfs :: "trap" where
  "sys_mkfs = invoke_syscall N_FS_MKFS IGNORE IGNORE IGNORE IGNORE IGNORE"

definition sys_statfs :: "trap" where
  "sys_statfs = invoke_syscall N_FS_STATFS IGNORE IGNORE IGNORE IGNORE IGNORE"

definition sys_cd :: "u64 \<Rightarrow> trap" where
  "sys_cd path = invoke_syscall N_FS_CD path IGNORE IGNORE IGNORE IGNORE"

definition sys_mkdir :: "u64 \<Rightarrow> trap" where
  "sys_mkdir path = invoke_syscall N_FS_MKDIR path IGNORE IGNORE IGNORE IGNORE"

definition sys_rmdir :: "u64 \<Rightarrow> trap" where
  "sys_rmdir path = invoke_syscall N_FS_RMDIR path IGNORE IGNORE IGNORE IGNORE"

definition sys_ls :: "u64 \<Rightarrow> i32 \<Rightarrow> trap" where
  "sys_ls path option = invoke_syscall N_FS_LS path (scast option) IGNORE IGNORE IGNORE"

definition sys_open :: "u64 \<Rightarrow> i32 \<Rightarrow> trap" where
  "sys_open path mode = invoke_syscall N_FS_OPEN path (scast mode) IGNORE IGNORE IGNORE"

definition sys_read :: "i32 \<Rightarrow> u64 \<Rightarrow> i32 \<Rightarrow> trap" where
  "sys_read fd buff len = invoke_syscall N_FS_READ (scast fd) buff (scast len) IGNORE IGNORE"

definition sys_write :: "i32 \<Rightarrow> u64 \<Rightarrow> i32 \<Rightarrow> trap" where
  "sys_write fd buff len = invoke_syscall N_FS_WRITE (scast fd) buff (scast len) IGNORE IGNORE"

definition sys_close :: "i32 \<Rightarrow> trap" where
  "sys_close fd = invoke_syscall N_FS_CLOSE (scast fd) IGNORE IGNORE IGNORE IGNORE"

definition sys_ln :: "u64 \<Rightarrow> u64 \<Rightarrow> trap" where
  "sys_ln src_path dst_path = invoke_syscall N_FS_LN src_path dst_path IGNORE IGNORE IGNORE"

definition sys_rm :: "u64 \<Rightarrow> trap" where
  "sys_rm path = invoke_syscall N_FS_RM path IGNORE IGNORE IGNORE IGNORE"

definition sys_lseek :: "i32 \<Rightarrow> i32 \<Rightarrow> i32 \<Rightarrow> trap" where
  "sys_lseek fd offset whence = invoke_syscall N_FS_LSEEK (scast fd) (scast offset) (scast whence) IGNORE IGNORE"

definition sys_pwd :: "trap" where
  "sys_pwd = invoke_syscall N_FS_PWD IGNORE IGNORE IGNORE IGNORE IGNORE"

definition sys_cat :: "u64 \<Rightarrow> trap" where
  "sys_cat path = invoke_syscall N_FS_CAT path IGNORE IGNORE IGNORE IGNORE"

definition sys_touch :: "u64 \<Rightarrow> trap" where
  "sys_touch path = invoke_syscall N_FS_TOUCH path IGNORE IGNORE IGNORE IGNORE"

definition sys_vmflush :: "trap" where
  "sys_vmflush = invoke_syscall N_VMFLUSH IGNORE IGNORE IGNORE IGNORE IGNORE"

definition sys_init_bcache :: "trap" where
  "sys_init_bcache = invoke_syscall N_INIT_BCACHE IGNORE IGNORE IGNORE IGNORE IGNORE"

definition sys_bflush :: "trap" where
  "sys_bflush = invoke_syscall N_BFLUSH IGNORE IGNORE IGNORE IGNORE IGNORE"
section \<open>The two sides agree\<close>

lemma ucast_scast_i32 [simp]: "ucast (scast (x :: i32) :: u64) = x"
  by transfer (simp add: take_bit_signed_take_bit)

lemma ucast_ucast_u32 [simp]: "ucast (ucast (x :: u32) :: u64) = x"
  by transfer simp

lemmas wrapper_defs =
  sys_yield_def sys_move_cursor_def sys_screen_write_def sys_reflush_def
  sys_mutex_init_def sys_mutex_acquire_def sys_mutex_release_def sys_get_timebase_def
  sys_get_tick_def sys_sleep_def sys_set_sche_workload_def sys_exec_def
  sys_exit_def sys_kill_def sys_waitpid_def sys_ps_def
  sys_screen_clear_def sys_getpid_def sys_getchar_def sys_barrier_init_def
  sys_barrier_wait_def sys_barrier_destroy_def sys_condition_init_def sys_condition_wait_def
  sys_condition_signal_def sys_condition_broadcast_def sys_condition_destroy_def sys_mbox_open_def
  sys_mbox_close_def sys_mbox_send_def sys_mbox_recv_def sys_taskset_def
  sys_shmpageget_def sys_shmpagedt_def sys_pthread_create_def sys_pthread_join_def
  sys_mprotect_def sys_getbrk_def u_brk_def u_sbrk_def
  sys_net_send_def sys_net_multisend_def sys_net_recv_def sys_mkfs_def
  sys_statfs_def sys_cd_def sys_mkdir_def sys_rmdir_def
  sys_ls_def sys_open_def sys_read_def sys_write_def
  sys_close_def sys_ln_def sys_rm_def sys_lseek_def
  sys_pwd_def sys_cat_def sys_touch_def sys_vmflush_def
  sys_init_bcache_def sys_bflush_def

lemma foldl_upd_map_of:
  "distinct (map (unistd_no \<circ> fst) es) \<Longrightarrow>
   foldl (\<lambda>t (nm, h). t(unistd_no nm \<mapsto> h)) m es = m ++ map_of (map (\<lambda>(nm, h). (unistd_no nm, h)) es)"
proof (induction es arbitrary: m)
  case (Cons e es)
  obtain nm h where e: "e = (nm, h)" by force
  have "unistd_no nm \<notin> dom (map_of (map (\<lambda>(nm, h). (unistd_no nm, h)) es))"
    using Cons.prems by (auto simp: e dom_map_of_conv_image_fst image_iff)
  then show ?case using Cons by (auto simp: e fun_eq_iff map_add_def domIff split: option.splits)
qed simp

lemma distinct_entries: "distinct (map (unistd_no \<circ> fst) syscall_entries)"
  by (simp add: syscall_entries_def)

lemma init_syscall_eq: "init_syscall = map_of (map (\<lambda>(nm, h). (unistd_no nm, h)) syscall_entries)"
  using foldl_upd_map_of [OF distinct_entries] by (simp add: init_syscall_def)

lemma libc_no_eq: "libc_no nm = unistd_no nm"
  by (cases nm) simp_all

lemma entry_lookup: "(nm, h) \<in> set syscall_entries \<Longrightarrow> init_syscall (unistd_no nm) = Some h"
  using distinct_entries by (auto simp: init_syscall_eq comp_def case_prod_beta intro!: map_of_is_SomeI rev_image_eqI)

lemma all_lookups: "list_all (\<lambda>(nm, h). init_syscall (unistd_no nm) = Some h) syscall_entries"
  by (auto simp: list_all_iff intro: entry_lookup)

lemmas lookups = all_lookups [unfolded syscall_entries_def list.pred_inject prod.case]

lemma kernel_call_eq: "kernel_call (invoke_syscall nm a0 a1 a2 a3 a4) =
    map_option (\<lambda>h. h [a0, a1, a2, a3, a4]) (init_syscall (libc_no nm))"
  by (simp add: kernel_call_def invoke_syscall_def)

lemma length_trap: "length (snd (invoke_syscall nm a0 a1 a2 a3 a4)) = 5"
  by (simp add: invoke_syscall_def)

lemma file_calls:
  "length (snd (sys_touch p)) = 5" "length (snd (sys_open p x)) = 5" "length (snd (sys_write x p y)) = 5"
  "length (snd (sys_read x p y)) = 5"
  "kernel_call (sys_touch p) = Some (K_do_touch p)" "kernel_call (sys_open p x) = Some (K_do_open p x)"
  "kernel_call (sys_write x p y) = Some (K_do_write x p y)" "kernel_call (sys_read x p y) = Some (K_do_read x p y)"
  using lookups by (simp_all add: wrapper_defs kernel_call_eq libc_no_eq length_trap del: unistd_no.simps)


end
