(* ===== verification/Plic.thy ===== *)
theory Plic
  imports OS_Prelude
begin

text \<open>
  The interrupt controller driver src/drivers/plic.c over the 32 bit accesses of
  src/arch/riscv/include/io.h. The controller itself is hardware: its registers are a parameter with a read and a
  write function on a device state.
\<close>

unbundle bit_operations_syntax

section \<open>The driver\<close>

record 'p mmio =
  mm_rd :: "u64 \<Rightarrow> 'p \<Rightarrow> u32 \<times> 'p"
  mm_wr :: "u64 \<Rightarrow> u32 \<Rightarrow> 'p \<Rightarrow> 'p"

text \<open>\<^verbatim>\<open>plic_regs\<close> and \<^verbatim>\<open>plic_handlers\<close>, with the device.\<close>

record 'p plicst =
  plic_regs :: u64
  present :: bool
  hart_base :: u64
  enable_base :: u64
  pdev :: 'p

definition PLIC_E1000_PYNQ_IRQ :: u32 where "PLIC_E1000_PYNQ_IRQ = 3"
definition PLIC_E1000_QEMU_IRQ :: u32 where "PLIC_E1000_QEMU_IRQ = 33"
definition PRIORITY_BASE :: u64 where "PRIORITY_BASE = 0"
definition PRIORITY_PER_ID :: u64 where "PRIORITY_PER_ID = 4"
definition ENABLE_BASE :: u64 where "ENABLE_BASE = 0x2000"
definition CONTEXT_BASE :: u64 where "CONTEXT_BASE = 0x200000"
definition CONTEXT_THRESHOLD :: u64 where "CONTEXT_THRESHOLD = 0"
definition CONTEXT_CLAIM :: u64 where "CONTEXT_CLAIM = 4"

definition readl :: "'p mmio \<Rightarrow> u64 \<Rightarrow> ('p, 'a) plicst_scheme \<Rightarrow> u32 \<times> ('p, 'a) plicst_scheme" where
  "readl io addr s = (let (v, d) = mm_rd io addr (pdev s) in (v, s\<lparr>pdev := d\<rparr>))"

definition writel :: "'p mmio \<Rightarrow> u32 \<Rightarrow> u64 \<Rightarrow> ('p, 'a) plicst_scheme \<Rightarrow> ('p, 'a) plicst_scheme" where
  "writel io val addr s = s\<lparr>pdev := mm_wr io addr val (pdev s)\<rparr>"

text \<open>The interrupt numbers here are not negative, so \<^verbatim>\<open>/\<close> and \<^verbatim>\<open>%\<close> are those of natural numbers.\<close>

definition plic_toggle :: "'p mmio \<Rightarrow> nat \<Rightarrow> bool \<Rightarrow> ('p, 'a) plicst_scheme \<Rightarrow> ('p, 'a) plicst_scheme" where
  "plic_toggle io hwirq enable s = (let
       reg = enable_base s + word_of_nat (hwirq div 32) * 4;
       hwirq_mask = push_bit (hwirq mod 32) 1;
       (v, s1) = readl io reg s
     in writel io (if enable then v OR hwirq_mask else v AND NOT hwirq_mask) reg s1)"

definition plic_irq_unmask :: "'p mmio \<Rightarrow> nat \<Rightarrow> ('p, 'a) plicst_scheme \<Rightarrow> ('p, 'a) plicst_scheme" where
  "plic_irq_unmask io hwirq s = (let
       s1 = writel io 1 (plic_regs s + PRIORITY_BASE + word_of_nat hwirq * PRIORITY_PER_ID) s
     in if present s1 then plic_toggle io hwirq True s1 else s1)"

definition plic_claim :: "'p mmio \<Rightarrow> ('p, 'a) plicst_scheme \<Rightarrow> u32 \<times> ('p, 'a) plicst_scheme" where
  "plic_claim io s = readl io (hart_base s + CONTEXT_CLAIM) s"

definition plic_complete :: "'p mmio \<Rightarrow> u32 \<Rightarrow> ('p, 'a) plicst_scheme \<Rightarrow> ('p, 'a) plicst_scheme" where
  "plic_complete io hwirq s = writel io hwirq (hart_base s + CONTEXT_CLAIM) s"

text \<open>
  \<^verbatim>\<open>plic_init\<close>. The loop variable is a signed integer compared as unsigned, so that the loop ends for every
  \<^verbatim>\<open>nr_irqs\<close> below the largest; afterwards it is \<^verbatim>\<open>nr_irqs + 1\<close> (or 1 when \<^verbatim>\<open>nr_irqs\<close> is 0), compared as signed
  with 33. Only counts below \<open>2\<^sup>3\<^sup>1 - 1\<close> are modelled; the device tree has at most 1023. The message
  about a handler that is already present is left out.
\<close>

definition plic_init :: "'p mmio \<Rightarrow> u64 \<Rightarrow> u32 \<Rightarrow> ('p, 'a) plicst_scheme \<Rightarrow> ('p, 'a) plicst_scheme option" where
  "plic_init io addr nr_irqs s = (if unat nr_irqs \<ge> 2 ^ 31 - 1 then None else let
       s1 = s\<lparr>plic_regs := addr\<rparr>;
       (threshold, s2) = (if present s1 then (0xffffffff, s1)
         else (0, s1\<lparr>present := True, hart_base := plic_regs s1 + CONTEXT_BASE, enable_base := plic_regs s1 + ENABLE_BASE\<rparr>));
       s3 = writel io threshold (hart_base s2 + CONTEXT_THRESHOLD) s2;
       s4 = foldl (\<lambda>t hwirq. plic_toggle io hwirq False t) s3 [1..<Suc (unat nr_irqs)]
     in Some (if unat nr_irqs + 1 > unat PLIC_E1000_QEMU_IRQ then plic_irq_unmask io (unat PLIC_E1000_QEMU_IRQ) s4
       else plic_irq_unmask io (unat PLIC_E1000_PYNQ_IRQ) s4))"

section \<open>The state after initialisation\<close>

text \<open>Registers that keep what is written to them.\<close>

definition reg_file :: "(u64 \<Rightarrow> u32) mmio" where
  "reg_file = \<lparr>mm_rd = (\<lambda>a d. (d a, d)), mm_wr = (\<lambda>a v d. d(a := v))\<rparr>"

lemma reg_file_readl [simp]: "readl reg_file a s = (pdev s a, s)"
  by (simp add: readl_def reg_file_def)

lemma reg_file_writel [simp]: "writel reg_file v a s = s\<lparr>pdev := (pdev s)(a := v)\<rparr>"
  by (simp add: writel_def reg_file_def)

lemma reg_offset_eq: "i < 2 ^ 32 \<Longrightarrow> j < 2 ^ 32 \<Longrightarrow> (b :: u64) + word_of_nat i = b + word_of_nat j \<longleftrightarrow> i = j"
  by (auto simp: word_of_nat_eq_iff take_bit_nat_eq_self)

lemma reg_offsets:
  "addr + ENABLE_BASE + word_of_nat j = addr + word_of_nat (8192 + j)"
  "addr + CONTEXT_BASE + CONTEXT_THRESHOLD = addr + word_of_nat 2097152"
  "addr + PRIORITY_BASE + word_of_nat i * PRIORITY_PER_ID = addr + word_of_nat (i * 4)"
  by (simp_all add: ENABLE_BASE_def CONTEXT_BASE_def CONTEXT_THRESHOLD_def PRIORITY_BASE_def PRIORITY_PER_ID_def)

text \<open>The word of enable bits for the interrupts from \<open>32 k\<close> on.\<close>

definition enable_word :: "(u64 \<Rightarrow> u32, 'a) plicst_scheme \<Rightarrow> nat \<Rightarrow> u32" where
  "enable_word s k = pdev s (enable_base s + word_of_nat (k * 4))"

definition irq_enabled :: "(u64 \<Rightarrow> u32, 'a) plicst_scheme \<Rightarrow> nat \<Rightarrow> bool" where
  "irq_enabled s h \<longleftrightarrow> bit (enable_word s (h div 32)) (h mod 32)"

lemma toggle_fields [simp]:
  "enable_base (plic_toggle reg_file h b s) = enable_base s"
  "hart_base (plic_toggle reg_file h b s) = hart_base s"
  "plic_regs (plic_toggle reg_file h b s) = plic_regs s"
  "present (plic_toggle reg_file h b s) = present s"
  by (simp_all add: plic_toggle_def Let_def)

lemma toggle_pdev: "pdev (plic_toggle reg_file h b s) a =
  (if a = enable_base s + word_of_nat (h div 32 * 4)
   then (if b then pdev s a OR push_bit (h mod 32) 1 else pdev s a AND NOT (push_bit (h mod 32) 1)) else pdev s a)"
  by (simp add: plic_toggle_def Let_def)

lemma toggle_enabled:
  assumes "h < 1024" "h' < 1024"
  shows "irq_enabled (plic_toggle reg_file h b s) h' \<longleftrightarrow> (if h' = h then b else irq_enabled s h')"
proof -
  have k: "h div 32 * 4 < 2 ^ 32" "h' div 32 * 4 < 2 ^ 32" using assms by simp_all
  show ?thesis
  proof (cases "h' div 32 = h div 32")
    case True
    then have "h' = h \<longleftrightarrow> h' mod 32 = h mod 32" by (metis div_mult_mod_eq)
    then show ?thesis using True
      by (auto simp: irq_enabled_def enable_word_def toggle_pdev bit_or_iff bit_and_iff bit_not_iff bit_push_bit_iff
          bit_1_iff bit_exp_iff)
  next
    case False
    then show ?thesis using reg_offset_eq [OF k]
      by (auto simp: irq_enabled_def enable_word_def toggle_pdev)
  qed
qed

lemma toggle_pdev_other:
  "h < 1024 \<Longrightarrow> \<forall>k<32. a \<noteq> enable_base s + word_of_nat (k * 4) \<Longrightarrow> pdev (plic_toggle reg_file h b s) a = pdev s a"
proof -
  assume "h < 1024" and a: "\<forall>k<32. a \<noteq> enable_base s + word_of_nat (k * 4)"
  then have "h div 32 < 32" by simp
  then show ?thesis using a unfolding toggle_pdev by metis
qed

lemma toggles_off:
  assumes "\<forall>h\<in>set hs. h < 1024"
  defines "t s \<equiv> foldl (\<lambda>t h. plic_toggle reg_file h False t) s hs"
  shows "enable_base (t s) = enable_base s" "hart_base (t s) = hart_base s" "plic_regs (t s) = plic_regs s"
    "present (t s) = present s"
    "h' < 1024 \<Longrightarrow> irq_enabled (t s) h' \<longleftrightarrow> irq_enabled s h' \<and> h' \<notin> set hs"
    "\<forall>k<32. a \<noteq> enable_base s + word_of_nat (k * 4) \<Longrightarrow> pdev (t s) a = pdev s a"
  using assms(1) unfolding t_def
  by (induction hs arbitrary: s) (auto simp: toggle_enabled toggle_pdev_other)

text \<open>
  The interrupt controller after \<^verbatim>\<open>plic_init\<close>, on registers that keep what is written: of the interrupts
  up to \<^verbatim>\<open>nr_irqs\<close> exactly that of the network adapter is enabled (33 on QEMU, 3 on the board), it has priority
  1, and the threshold that it must exceed is 0.
\<close>

theorem plic_init_enables:
  fixes s :: "(u64 \<Rightarrow> u32, 'a) plicst_scheme"
  assumes "\<not> present s" and n: "unat nr_irqs < 1024"
  defines "irq \<equiv> if unat nr_irqs \<ge> 33 then 33 else 3"
  shows "\<exists>s'. plic_init reg_file addr nr_irqs s = Some s' \<and> present s' \<and>
    pdev s' (addr + CONTEXT_BASE + CONTEXT_THRESHOLD) = 0 \<and>
    pdev s' (addr + PRIORITY_BASE + word_of_nat irq * PRIORITY_PER_ID) = 1 \<and>
    irq_enabled s' irq \<and> (\<forall>h. 1 \<le> h \<and> h \<le> unat nr_irqs \<and> h \<noteq> irq \<longrightarrow> \<not> irq_enabled s' h)"
proof -
  define s2 where "s2 = s\<lparr>plic_regs := addr, present := True, hart_base := addr + CONTEXT_BASE, enable_base := addr + ENABLE_BASE,
    pdev := (pdev s)(addr + CONTEXT_BASE + CONTEXT_THRESHOLD := 0)\<rparr>"
  define s4 where "s4 = foldl (\<lambda>t h. plic_toggle reg_file h False t) s2 [1..<Suc (unat nr_irqs)]"
  have hs: "\<forall>h\<in>set [1..<Suc (unat nr_irqs)]. h < 1024" using n by auto
  note off = toggles_off [OF hs, where s = s2, folded s4_def]
  have f: "enable_base s4 = addr + ENABLE_BASE" "hart_base s4 = addr + CONTEXT_BASE" "plic_regs s4 = addr" "present s4"
    using off(1-4) by (simp_all add: s2_def)
  have run: "plic_init reg_file addr nr_irqs s = Some (plic_irq_unmask reg_file irq s4)"
    using assms(1) n unfolding s4_def s2_def irq_def
    by (simp add: plic_init_def Let_def PLIC_E1000_QEMU_IRQ_def PLIC_E1000_PYNQ_IRQ_def)
  define s5 where "s5 = s4\<lparr>pdev := (pdev s4)(addr + PRIORITY_BASE + word_of_nat irq * PRIORITY_PER_ID := 1)\<rparr>"
  have run': "plic_irq_unmask reg_file irq s4 = plic_toggle reg_file irq True s5"
    using f by (simp add: plic_irq_unmask_def s5_def Let_def)
  have irq: "irq < 1024" by (simp add: irq_def)
  have en5: "irq_enabled s5 h = irq_enabled s4 h" if "h < 1024" for h
  proof -
    have "h div 32 * 4 < 128" using that by auto
    then have "addr + word_of_nat (8192 + h div 32 * 4) \<noteq> addr + word_of_nat (irq * 4)"
      using irq by (subst reg_offset_eq) (auto simp: irq_def)
    then show ?thesis
      by (simp add: irq_enabled_def enable_word_def s5_def f ENABLE_BASE_def PRIORITY_BASE_def PRIORITY_PER_ID_def add.assoc)
  qed
  have en: "irq_enabled (plic_toggle reg_file irq True s5) h \<longleftrightarrow> h = irq \<or> irq_enabled s4 h" if "h < 1024" for h
    using toggle_enabled [OF irq that, where s = s5] en5 [OF that] by auto
  have disj: "\<forall>k<32. addr + word_of_nat n \<noteq> enable_base s5 + word_of_nat (k * 4)"
    "\<forall>k<32. addr + word_of_nat n \<noteq> enable_base s2 + word_of_nat (k * 4)"
    if "n = 2097152 \<or> n = irq * 4" for n
  proof -
    have "addr + word_of_nat n \<noteq> addr + ENABLE_BASE + word_of_nat (k * 4)" if "k < 32" for k
      unfolding reg_offsets(1) using \<open>n = 2097152 \<or> n = irq * 4\<close> that irq
      by (subst reg_offset_eq) (auto simp: irq_def)
    then show "\<forall>k<32. addr + word_of_nat n \<noteq> enable_base s5 + word_of_nat (k * 4)"
      "\<forall>k<32. addr + word_of_nat n \<noteq> enable_base s2 + word_of_nat (k * 4)"
      using f(1) by (simp_all add: s5_def s2_def)
  qed
  have t: "pdev (plic_toggle reg_file irq True s5) (addr + word_of_nat n) = pdev s5 (addr + word_of_nat n)"
    if "n = 2097152 \<or> n = irq * 4" for n
    using toggle_pdev_other [OF irq disj(1) [OF that]] .
  have p1: "pdev s5 (addr + word_of_nat (irq * 4)) = 1"
    by (simp add: s5_def PRIORITY_BASE_def PRIORITY_PER_ID_def)
  have "addr + word_of_nat 2097152 \<noteq> addr + word_of_nat (irq * 4)"
    using irq by (subst reg_offset_eq) auto
  then have "pdev s5 (addr + word_of_nat 2097152) = pdev s4 (addr + word_of_nat 2097152)"
    by (simp only: s5_def reg_offsets plicst.simps) simp
  also have "\<dots> = pdev s2 (addr + word_of_nat 2097152)" by (rule off(6) [OF disj(2)]) simp
  also have "\<dots> = 0" by (simp add: s2_def CONTEXT_BASE_def CONTEXT_THRESHOLD_def)
  finally have p0: "pdev s5 (addr + word_of_nat 2097152) = 0" .
  have none: "\<not> irq_enabled (plic_toggle reg_file irq True s5) h" if "1 \<le> h" "h \<le> unat nr_irqs" "h \<noteq> irq" for h
    using en off(5) that n by auto
  have "present (plic_toggle reg_file irq True s5)" using f(4) by (simp add: s5_def)
  then show ?thesis
    unfolding run run' reg_offsets
    using t [of 2097152] t [of "irq * 4"] p0 p1 en [OF irq] none by simp
qed

theorem plic_init_enables_witness:
  "\<exists>s'. plic_init reg_file 0xC000000 53 \<lparr>plic_regs = 0, present = False, hart_base = 0, enable_base = 0, pdev = (\<lambda>a. 0xFFFFFFFF)\<rparr> = Some s' \<and>
     irq_enabled s' 33 \<and> \<not> irq_enabled s' 10"
  using plic_init_enables [of "\<lparr>plic_regs = 0, present = False, hart_base = 0, enable_base = 0, pdev = (\<lambda>a. 0xFFFFFFFF)\<rparr>" 53 "0xC000000"]
  by auto

end
