(* ===== verification/Kernel.thy ===== *)
theory Kernel
  imports Net FsInv Syscall Plic
begin

text \<open>
  The kernel as one machine: the dispatch of exceptions and interrupts of src/kernel/irq/irq.c, the system
  call handler of src/kernel/syscall/syscall.c, and behind it every kernel function of the system call table
  on one state. The state puts together the process side (theories \<open>Sched\<close> to \<open>Net\<close>), the file system side
  (theories \<open>Bcache\<close> to \<open>FsInv\<close>) and the interrupt controller; the SD card is one device in the code and
  two here, the swap area and the file system, whose sectors are apart.

  Inputs of a trap that the code reads from outside are the record \<open>uin\<close>: the bytes at a user address, the
  argument vector of \<^verbatim>\<open>do_exec\<close>, the clock, the keyboard, and the value that register a0 happens to have after
  a function without result.
\<close>

section \<open>State and parameters\<close>

record ('d, 'n, 'c, 'p) sys =
  kern :: "('d, 'n) netst"
  fsys :: "'c fsst"
  plic :: "'p plicst"
  time_base :: u64
  timer_cnt :: i32
  next_timer :: u64

record ('d, 'n, 'c, 'p) env =
  e_swap :: "'d swap_ops"
  e_ka :: kaddr
  e_nic :: "'n nic"
  e_nb :: nbufs
  e_sd :: "'c sd_ops"
  e_plic :: "'p mmio"

record uin =
  ui_bytes :: "u64 \<Rightarrow> bytes"
  ui_args :: "u64 \<Rightarrow> (u64 \<times> bytes) list"
  ui_local :: u64
  ui_ticks :: u64
  ui_char :: i32
  ui_a0 :: u64

section \<open>System calls\<close>

text \<open>
  The end of a kernel function: it returns, with its result (\<open>None\<close> for \<^verbatim>\<open>void\<close>) and what it stored at user
  addresses; it has blocked the process inside a loop that goes on when the process runs again; or the
  process has ended. A function that returns after a switch to another process returns when its process
  runs again.
\<close>

datatype reply = Ret "u64 option" "(u64 \<times> bytes) list" | Suspended | Ended

type_synonym ('d, 'n, 'c, 'p) effect = "('d, 'n, 'c, 'p) sys \<Rightarrow> (reply \<times> ('d, 'n, 'c, 'p) sys) option"

definition kvoid :: "(('d, 'n) netst \<Rightarrow> ('d, 'n) netst option) \<Rightarrow> ('d, 'n, 'c, 'p) effect" where
  "kvoid f s = do { k \<leftarrow> f (kern s); Some (Ret None [], s\<lparr>kern := k\<rparr>) }"

definition kval :: "('r \<Rightarrow> u64) \<Rightarrow> (('d, 'n) netst \<Rightarrow> ('r \<times> ('d, 'n) netst) option) \<Rightarrow> ('d, 'n, 'c, 'p) effect" where
  "kval c f s = do { (r, k) \<leftarrow> f (kern s); Some (Ret (Some (c r)) [], s\<lparr>kern := k\<rparr>) }"

definition kloop :: "('r \<Rightarrow> reply) \<Rightarrow> (('d, 'n) netst \<Rightarrow> ('r outcome \<times> ('d, 'n) netst) option) \<Rightarrow> ('d, 'n, 'c, 'p) effect" where
  "kloop c f s = do { (r, k) \<leftarrow> f (kern s);
     Some (case r of Done x \<Rightarrow> c x | Again \<Rightarrow> Suspended, s\<lparr>kern := k\<rparr>) }"

definition fval :: "('c fsst \<Rightarrow> (int \<times> 'c fsst) option) \<Rightarrow> ('d, 'n, 'c, 'p) effect" where
  "fval f s = do { (r, g) \<leftarrow> f (fsys s); Some (Ret (Some (word_of_int r)) [], s\<lparr>fsys := g\<rparr>) }"

definition fcache :: "('c bcache \<Rightarrow> 'c bcache option) \<Rightarrow> ('d, 'n, 'c, 'p) effect" where
  "fcache f s = do { c \<leftarrow> f (bc (fsys s)); Some (Ret None [], s\<lparr>fsys := (fsys s)\<lparr>bc := c\<rparr>\<rparr>) }"

text \<open>An index into one of the kernel's arrays; a negative one is outside.\<close>

definition index :: "i32 \<Rightarrow> (nat \<Rightarrow> 'r option) \<Rightarrow> 'r option" where
  "index x f = (if sint x < 0 then None else f (nat (sint x)))"

primrec exec_kcall :: "kcall \<Rightarrow> ('d, 'n, 'c, 'p) env \<Rightarrow> uin \<Rightarrow> ('d, 'n, 'c, 'p) effect" where
  "exec_kcall (K_do_sleep t) e u = kvoid (do_sleep t)"
| "exec_kcall K_do_scheduler e u = kvoid do_scheduler"
| "exec_kcall (K_screen_write b) e u = kvoid (screen_write (ui_bytes u b))"
| "exec_kcall (K_screen_move_cursor x y) e u = kvoid (\<lambda>k. Some (screen_move_cursor x y k))"
| "exec_kcall K_screen_reflush e u = kvoid (\<lambda>k. Some (screen_reflush k))"
| "exec_kcall K_get_time_base e u = (\<lambda>s. Some (Ret (Some (time_base s)) [], s))"
| "exec_kcall K_get_ticks e u = (\<lambda>s. Some (Ret (Some (ui_ticks u)) [], s))"
| "exec_kcall (K_do_mutex_lock_init key) e u = kval word_of_int (\<lambda>k. Some (do_mutex_lock_init key k))"
| "exec_kcall (K_do_mutex_lock_acquire l) e u = kloop (\<lambda>_. Ret None []) (\<lambda>k. index l (\<lambda>i. do_mutex_lock_acquire i k))"
| "exec_kcall (K_do_mutex_lock_release l) e u = kvoid (\<lambda>k. index l (\<lambda>i. do_mutex_lock_release i k))"
| "exec_kcall (K_set_sche_workload n) e u = kvoid (\<lambda>k. Some (set_sche_workload n k))"
| "exec_kcall K_bios_getchar e u = (\<lambda>s. Some (Ret (Some (scast (ui_char u))) [], s))"
| "exec_kcall K_do_process_show e u = kvoid do_process_show"
| "exec_kcall K_screen_clear e u = kvoid (\<lambda>k. Some (screen_clear k))"
| "exec_kcall (K_do_exec name argc argv) e u =
     kval scast (do_exec (e_swap e) (e_ka e) name (ui_bytes u name) argc argv (ui_args u argv))"
| "exec_kcall K_do_exit e u = (\<lambda>s. do { k \<leftarrow> do_exit (kern s); Some (Ended, s\<lparr>kern := k\<rparr>) })"
| "exec_kcall (K_do_kill p) e u = (\<lambda>s. do { (r, k) \<leftarrow> do_kill p (kern s);
     Some (case r of Some v \<Rightarrow> Ret (Some (scast v)) [] | None \<Rightarrow> Ended, s\<lparr>kern := k\<rparr>) })"
| "exec_kcall (K_do_waitpid p) e u = kval word_of_int (do_waitpid p)"
| "exec_kcall K_do_getpid e u = kval scast (\<lambda>k. Some (do_getpid k, k))"
| "exec_kcall (K_do_barrier_init key goal) e u = kval word_of_int (\<lambda>k. Some (do_barrier_init key goal k))"
| "exec_kcall (K_do_barrier_wait b) e u = kvoid (\<lambda>k. index b (\<lambda>i. do_barrier_wait i k))"
| "exec_kcall (K_do_barrier_destroy b) e u = kvoid (\<lambda>k. index b (\<lambda>i. do_barrier_destroy i k))"
| "exec_kcall (K_do_condition_init key) e u = kval word_of_int (\<lambda>k. Some (do_condition_init key k))"
| "exec_kcall (K_do_condition_wait c l) e u =
     kvoid (\<lambda>k. index c (\<lambda>i. index l (\<lambda>j. do_condition_wait i j k)))"
| "exec_kcall (K_do_condition_signal c) e u = kvoid (\<lambda>k. index c (\<lambda>i. do_condition_signal i k))"
| "exec_kcall (K_do_condition_broadcast c) e u = kvoid (\<lambda>k. index c (\<lambda>i. do_condition_broadcast i k))"
| "exec_kcall (K_do_condition_destroy c) e u = kvoid (\<lambda>k. index c (\<lambda>i. do_condition_destroy i k))"
| "exec_kcall (K_do_mbox_open name) e u = kval word_of_int (do_mbox_open (e_swap e) name (ui_bytes u name))"
| "exec_kcall (K_do_mbox_close m) e u = kvoid (\<lambda>k. index m (\<lambda>i. do_mbox_close i k))"
| "exec_kcall (K_do_mbox_send m msg len) e u =
     kloop (\<lambda>_. Ret (Some 0) []) (\<lambda>k. index m (\<lambda>i. do_mbox_send (e_swap e) i msg (ui_bytes u msg) len k))"
| "exec_kcall (K_do_mbox_recv m msg len) e u =
     kloop (\<lambda>b. Ret (Some 0) [(msg, b)]) (\<lambda>k. index m (\<lambda>i. do_mbox_recv (e_swap e) i msg len k))"
| "exec_kcall (K_do_taskset name p msk how) e u =
     kval scast (do_taskset (e_swap e) (e_ka e) (ui_local u) name (ui_bytes u name) p msk how)"
| "exec_kcall (K_do_pthread_create t start arg fin) e u =
     kvoid (do_pthread_create (e_swap e) (e_ka e) t start arg fin)"
| "exec_kcall (K_do_pthread_join t) e u = kvoid (do_pthread_join t)"
| "exec_kcall (K_shm_page_get key) e u = kval id (shm_page_get (e_swap e) key)"
| "exec_kcall (K_shm_page_dt a) e u = kvoid (shm_page_dt a)"
| "exec_kcall (K_do_mprotect a len prot) e u = kval scast (do_mprotect a len prot)"
| "exec_kcall (K_do_getbrk b) e u = kvoid (\<lambda>k. Some (do_getbrk b k))"
| "exec_kcall (K_do_brk a) e u = kval scast (\<lambda>k. Some (do_brk a k))"
| "exec_kcall (K_do_sbrk n) e u = kval id (\<lambda>k. Some (do_sbrk n k))"
| "exec_kcall (K_do_net_send p len) e u = (\<lambda>s. do {
     (r, k) \<leftarrow> do_net_send (e_swap e) (e_nic e) (e_nb e) p (ui_bytes u p) len (kern s);
     Some (case r of Inl n \<Rightarrow> Ret (Some (scast n)) [] | Inr _ \<Rightarrow> Suspended, s\<lparr>kern := k\<rparr>) })"
| "exec_kcall (K_do_net_recv p num lens) e u = (\<lambda>s. do {
     (r, k) \<leftarrow> do_net_recv (e_swap e) (e_nic e) p (ui_bytes u p) num (kern s);
     Some (case r of Received ls n b \<Rightarrow> Ret (Some (scast n)) [(p, b), (lens, concat (map u32_bytes ls))]
       | RecvWaiting _ _ _ _ _ _ \<Rightarrow> Suspended, s\<lparr>kern := k\<rparr>) })"
| "exec_kcall (K_do_net_multisend p num len) e u = (\<lambda>s. do {
     (r, k) \<leftarrow> do_net_multisend (e_swap e) (e_nic e) (e_nb e) p (ui_bytes u p) num len (kern s);
     Some (case r of Inl n \<Rightarrow> Ret (Some (scast n)) [] | Inr _ \<Rightarrow> Suspended, s\<lparr>kern := k\<rparr>) })"
| "exec_kcall K_do_mkfs e u = fval (do_mkfs (e_sd e))"
| "exec_kcall K_do_statfs e u = fval (do_statfs (e_sd e))"
| "exec_kcall (K_do_cd p) e u = fval (do_cd (e_sd e) (ui_bytes u p))"
| "exec_kcall (K_do_mkdir p) e u = fval (do_mkdir (e_sd e) (ui_bytes u p))"
| "exec_kcall (K_do_rmdir p) e u = fval (do_rmdir (e_sd e) (ui_bytes u p))"
| "exec_kcall (K_do_ls p opt) e u = fval (do_ls (e_sd e) (ui_bytes u p) opt)"
| "exec_kcall (K_do_touch p) e u = fval (do_touch (e_sd e) (ui_bytes u p))"
| "exec_kcall (K_do_cat p) e u = fval (do_cat (e_sd e) (ui_bytes u p))"
| "exec_kcall (K_do_open p mode) e u = fval (do_open (e_sd e) (ui_bytes u p) mode)"
| "exec_kcall (K_do_read fd p len) e u = (\<lambda>s. do { (r, b, g) \<leftarrow> do_read (e_sd e) fd len (fsys s);
     Some (Ret (Some (word_of_int r)) [(p, b)], s\<lparr>fsys := g\<rparr>) })"
| "exec_kcall (K_do_write fd p len) e u = fval (do_write (e_sd e) fd (ui_bytes u p) len)"
| "exec_kcall (K_do_close fd) e u = fval (do_close fd)"
| "exec_kcall (K_do_ln p q) e u = fval (do_ln (e_sd e) (ui_bytes u p) (ui_bytes u q))"
| "exec_kcall (K_do_rm p) e u = fval (do_rm (e_sd e) (ui_bytes u p))"
| "exec_kcall (K_do_lseek fd off wh) e u = fval (do_lseek (e_sd e) fd off wh)"
| "exec_kcall K_do_pwd e u = fval (do_pwd (e_sd e))"
| "exec_kcall K_do_vmflush e u = fval (do_vmflush (e_sd e))"
| "exec_kcall K_init_bcache e u = fcache (\<lambda>c. Some (init_bcache c))"
| "exec_kcall K_bflush e u = fcache (bflush (e_sd e))"

text \<open>The saved registers of a trap, \<^verbatim>\<open>regs_context_t\<close>.\<close>

record regs_context_t =
  rregs :: "nat \<Rightarrow> u64"
  rsstatus :: u64
  rsepc :: u64
  rsbadaddr :: u64
  rscause :: u64

definition NO_REG_A0 :: nat where "NO_REG_A0 = 10"
definition NO_REG_A7 :: nat where "NO_REG_A7 = 17"

text \<open>
  What a trap leaves: the registers with which the process will go on, and what was stored in its memory;
  a process that waits inside the kernel; or none, when it has ended.
\<close>

datatype trap_end = Resume regs_context_t "(u64 \<times> bytes) list" | Waits | Gone

definition finish :: "uin \<Rightarrow> regs_context_t \<Rightarrow> reply \<Rightarrow> trap_end" where
  "finish u r rep = (case rep of
       Ret v st \<Rightarrow> Resume (r\<lparr>rsepc := rsepc r + 4,
         rregs := (rregs r)(NO_REG_A0 := (case v of Some x \<Rightarrow> x | None \<Rightarrow> ui_a0 u))\<rparr>) st
     | Suspended \<Rightarrow> Waits
     | Ended \<Rightarrow> Gone)"

definition handle_syscall ::
  "('d, 'n, 'c, 'p) env \<Rightarrow> uin \<Rightarrow> regs_context_t \<Rightarrow> ('d, 'n, 'c, 'p) sys \<Rightarrow> (trap_end \<times> ('d, 'n, 'c, 'p) sys) option" where
  "handle_syscall e u r s = do {
     f \<leftarrow> kernel_call (rregs r NO_REG_A7, map (\<lambda>i. rregs r (NO_REG_A0 + i)) [0..<5]);
     (rep, s1) \<leftarrow> exec_kcall f e u s;
     Some (finish u r rep, s1) }"

section \<open>Interrupts\<close>

definition get_ticks :: "uin \<Rightarrow> u64" where
  "get_ticks u = ui_ticks u"

definition bios_set_timer :: "u64 \<Rightarrow> ('d, 'n, 'c, 'p) sys \<Rightarrow> ('d, 'n, 'c, 'p) sys" where
  "bios_set_timer t s = s\<lparr>next_timer := t\<rparr>"

text \<open>
  \<^verbatim>\<open>handle_irq_timer\<close>. The C remainder truncates; a frequency of 0 leaves the counter as the remainder, as
  the RISC-V instruction does. The log message is left out.
\<close>

definition handle_irq_timer ::
  "('d, 'n, 'c, 'p) env \<Rightarrow> uin \<Rightarrow> ('d, 'n, 'c, 'p) sys \<Rightarrow> ('d, 'n, 'c, 'p) sys option" where
  "handle_irq_timer e u s = do {
     let s1 = bios_set_timer (time_base s div 100 + get_ticks u) s;
     let s2 = s1\<lparr>timer_cnt := timer_cnt s1 + 1\<rparr>;
     s3 \<leftarrow> (if sint (timer_cnt s2) smod sint (write_back_freq (fsys s2) * 100) = 0
            then do { c \<leftarrow> bflush (e_sd e) (bc (fsys s2));
                      Some (s2\<lparr>fsys := (fsys s2)\<lparr>bc := c\<rparr>, timer_cnt := 0\<rparr>) }
            else Some s2);
     k \<leftarrow> do_scheduler (kern s3);
     Some (s3\<lparr>kern := k\<rparr>) }"

definition handle_irq_ext ::
  "('d, 'n, 'c, 'p) env \<Rightarrow> ('d, 'n, 'c, 'p) sys \<Rightarrow> ('d, 'n, 'c, 'p) sys option" where
  "handle_irq_ext e s = do {
     let (irq, p) = plic_claim (e_plic e) (plic s);
     let s1 = s\<lparr>plic := p\<rparr>;
     if irq = PLIC_E1000_QEMU_IRQ \<or> irq = PLIC_E1000_PYNQ_IRQ then do {
       k \<leftarrow> net_handle_irq (e_nic e) (kern s1);
       Some (s1\<lparr>kern := k, plic := plic_complete (e_plic e) irq (plic s1)\<rparr>) }
     else Some s1 }"

definition reg_name :: "string list" where
  "reg_name = [''zero '', '' ra  '', '' sp  '', '' gp  '', '' tp  '', '' t0  '', '' t1  '', '' t2  '', ''s0/fp'',
     '' s1  '', '' a0  '', '' a1  '', '' a2  '', '' a3  '', '' a4  '', '' a5  '', '' a6  '', '' a7  '', '' s2  '',
     '' s3  '', '' s4  '', '' s5  '', '' s6  '', '' s7  '', '' s8  '', '' s9  '', '' s10 '', '' s11 '', '' t3  '',
     '' t4  '', '' t5  '', '' t6  '']"

definition dump_regs :: "regs_context_t \<Rightarrow> u64 \<Rightarrow> u64 \<Rightarrow> (string \<times> va_item list) list" where
  "dump_regs r stval scause =
     concat (map (\<lambda>i. (if i mod 3 = 0 \<and> i > 0 then [(newline @ [CHR 0x0D], [])] else []) @
       [(''%s : %016lx '', [VaStr (lit (reg_name ! i)), VaReg (rregs r i)])]) [0..<32]) @
     [(newline @ [CHR 0x0D], []),
      (''sstatus: 0x%lx sbadaddr: 0x%lx scause: %lu'' @ newline @ [CHR 0x0D],
        [VaReg (rsstatus r), VaReg (rsbadaddr r), VaReg (rscause r)]),
      (''sepc: 0x%lx'' @ newline @ [CHR 0x0D], [VaReg (rsepc r)]),
      (''tval: 0x%lx cause: 0x%lx'' @ newline, [VaReg stval, VaReg scause])]"

text \<open>\<^verbatim>\<open>handle_other\<close> prints the registers and fails an assertion, which never returns.\<close>

definition handle_other ::
  "regs_context_t \<Rightarrow> u64 \<Rightarrow> u64 \<Rightarrow> ('d, 'n, 'c, 'p) sys \<Rightarrow> ('d, 'n, 'c, 'p) sys option" where
  "handle_other r stval scause s = do {
     k \<leftarrow> printks (dump_regs r stval scause) (kern s);
     c_assert False;
     Some (s\<lparr>kern := k\<rparr>) }"

text \<open>The tables that \<^verbatim>\<open>init_exception\<close> fills; the handlers by name.\<close>

datatype handler = H_syscall | H_page_fault | H_irq_timer | H_irq_ext | H_s_soft | H_other

definition exc_table :: "u64 \<rightharpoonup> handler" where
  "exc_table = map_of [(8, H_syscall), (0, H_other), (1, H_other), (3, H_other), (5, H_other), (7, H_other),
     (EXCC_INST_PAGE_FAULT, H_page_fault), (EXCC_LOAD_PAGE_FAULT, H_page_fault), (EXCC_STORE_PAGE_FAULT, H_page_fault)]"

definition irq_table :: "u64 \<rightharpoonup> handler" where
  "irq_table = map_of [(5, H_irq_timer), (0, H_other), (1, H_s_soft), (3, H_other), (4, H_other), (7, H_other),
     (8, H_other), (9, H_irq_ext), (11, H_other)]"

definition SCAUSE_IRQ_FLAG :: u64 where "SCAUSE_IRQ_FLAG = push_bit 63 1"

definition run_handler ::
  "handler \<Rightarrow> ('d, 'n, 'c, 'p) env \<Rightarrow> uin \<Rightarrow> regs_context_t \<Rightarrow> u64 \<Rightarrow> u64 \<Rightarrow> ('d, 'n, 'c, 'p) sys \<Rightarrow>
   (trap_end \<times> ('d, 'n, 'c, 'p) sys) option" where
  "run_handler h e u r stval scause s = (case h of
       H_syscall \<Rightarrow> handle_syscall e u r s
     | H_page_fault \<Rightarrow> do { k \<leftarrow> handle_page_fault (e_swap e) stval scause (kern s);
         Some (if status (pcbs k (current_running (kern s))) = TASK_EXITED then Gone else Resume r [], s\<lparr>kern := k\<rparr>) }
     | H_irq_timer \<Rightarrow> do { s1 \<leftarrow> handle_irq_timer e u s; Some (Resume r [], s1) }
     | H_irq_ext \<Rightarrow> do { s1 \<leftarrow> handle_irq_ext e s; Some (Resume r [], s1) }
     | H_s_soft \<Rightarrow> Some (Resume r [], s)
     | H_other \<Rightarrow> do { s1 \<leftarrow> handle_other r stval scause s; Some (Resume r [], s1) })"

text \<open>
  \<^verbatim>\<open>interrupt_helper\<close>. A process that was ended by the other core is switched away from for good. A cause
  without an entry is a call through a null pointer or behind the table.
\<close>

definition interrupt_helper ::
  "('d, 'n, 'c, 'p) env \<Rightarrow> uin \<Rightarrow> regs_context_t \<Rightarrow> u64 \<Rightarrow> u64 \<Rightarrow> ('d, 'n, 'c, 'p) sys \<Rightarrow>
   (trap_end \<times> ('d, 'n, 'c, 'p) sys) option" where
  "interrupt_helper e u r stval scause s =
     (if status (pcbs (kern s) (current_running (kern s))) = TASK_EXITED
      then do { k \<leftarrow> do_scheduler (kern s); Some (Gone, s\<lparr>kern := k\<rparr>) }
      else do {
        h \<leftarrow> (if scause AND SCAUSE_IRQ_FLAG \<noteq> 0 then irq_table else exc_table) (scause AND SCAUSE_EXC_CODE);
        run_handler h e u r stval scause s })"

section \<open>The timer writes the cache back\<close>

text \<open>
  The machine at work: \<open>n\<close> timer interrupts, and in between file system calls that leave the flush frequency
  alone and moves of the scheduler (entries of the other core, waits, wake-ups).
\<close>

inductive busy :: "('d, 'n, 'c, 'p) env \<Rightarrow> node set \<Rightarrow> ('d, 'n, 'c, 'p) sys \<Rightarrow> nat \<Rightarrow> ('d, 'n, 'c, 'p) sys \<Rightarrow> bool"
  for e H s where
  start: "busy e H s 0 s"
| tick: "busy e H s n s1 \<Longrightarrow> handle_irq_timer e u s1 = Some s2 \<Longrightarrow> busy e H s (Suc n) s2"
| call: "busy e H s n s1 \<Longrightarrow> fs_call (e_sd e) (fsys s1) g \<Longrightarrow> write_back_freq g = write_back_freq (fsys s1) \<Longrightarrow>
    busy e H s n (s1\<lparr>fsys := g\<rparr>)"
| sched: "busy e H s n s1 \<Longrightarrow> sched_step H (kern s1) k \<Longrightarrow> busy e H s n (s1\<lparr>kern := k\<rparr>)"

definition period :: "i32 \<Rightarrow> nat" where
  "period f = nat (sint f) * 100"

definition working :: "('d, 'n, 'c, 'p) env \<Rightarrow> node set \<Rightarrow> i32 \<Rightarrow> nat \<Rightarrow> ('d, 'n, 'c, 'p) sys \<Rightarrow> bool" where
  "working e H f n s \<longleftrightarrow> fs_ok (e_sd e) (fsys s) \<and> rest_inv H (kern s) \<and> write_back_freq (fsys s) = f \<and>
     timer_cnt s = word_of_nat (n mod period f)"

text \<open>The frequency is positive and the counter cannot overflow.\<close>

definition freq_ok :: "i32 \<Rightarrow> bool" where
  "freq_ok f \<longleftrightarrow> 0 < sint f \<and> sint f < 2 ^ 31 div 100"

lemma period_pos: "freq_ok f \<Longrightarrow> 0 < period f \<and> period f < 2 ^ 31"
  by (auto simp: freq_ok_def period_def nat_less_iff)

lemma sint_of_small: "k < 2 ^ 31 \<Longrightarrow> sint (word_of_nat k :: i32) = int k"
  using sint_pos [of "word_of_nat k"] by (simp add: unsigned_of_nat take_bit_nat_eq_self)

lemma sint_period: "freq_ok f \<Longrightarrow> sint (f * 100) = int (period f)"
proof -
  assume f: "freq_ok f"
  have "f * 100 = word_of_int (sint f * 100)" by simp
  also have "sint f * 100 = int (period f)" using f by (simp add: period_def freq_ok_def)
  finally show ?thesis using period_pos [OF f] sint_of_small [of "period f"] by simp
qed

lemma smod_nat: "int a smod int b = int (a mod b)"
  by (cases "a = 0") (simp_all add: signed_modulo_int_def zmod_int)

lemma due_iff:
  assumes f: "freq_ok f"
  shows "sint (word_of_nat (Suc (n mod period f)) :: i32) smod sint (f * 100) = 0 \<longleftrightarrow> Suc n mod period f = 0"
proof -
  have p: "0 < period f" "period f < 2 ^ 31" using period_pos [OF f] by auto
  have "n mod period f < period f" using p by simp
  then have lt: "Suc (n mod period f) \<le> period f" by simp
  have "sint (word_of_nat (Suc (n mod period f)) :: i32) = int (Suc (n mod period f))"
    by (rule sint_of_small) (use lt p(2) in simp)
  then have "sint (word_of_nat (Suc (n mod period f)) :: i32) smod sint (f * 100) = int (Suc (n mod period f) mod period f)"
    using smod_nat [of "Suc (n mod period f)" "period f"] sint_period [OF f] by (simp only:)
  then show ?thesis by (simp add: mod_Suc_eq)
qed

lemma do_scheduler_rest:
  assumes "rest_inv H k"
  obtains k' where "do_scheduler k = Some k'" "rest_inv H k'"
proof -
  obtain Q where "sched_rel H Q k" "run_ok H Q k" using assms by (auto simp: rest_inv_def)
  then show thesis using sched_post_exists that by blast
qed

text \<open>One tick: the scheduler always returns, and when it is due the cache is written to the card.\<close>

lemma tick_step:
  assumes f: "freq_ok f" and w: "working e H f n s"
  obtains s' where "handle_irq_timer e u s = Some s'" "working e H f (Suc n) s'"
    "bc_view (e_sd e) (bc (fsys s')) = bc_view (e_sd e) (bc (fsys s))"
    "Suc n mod period f = 0 \<longrightarrow> (\<forall>a. sd_rd (e_sd e) a (sd (bc (fsys s'))) = bc_view (e_sd e) (bc (fsys s)) a)"
proof -
  have w': "fs_ok (e_sd e) (fsys s)" "rest_inv H (kern s)" "write_back_freq (fsys s) = f"
    "timer_cnt s = word_of_nat (n mod period f)" using w by (simp_all add: working_def)
  obtain k where k: "do_scheduler (kern s) = Some k" "rest_inv H k"
    by (rule do_scheduler_rest [OF w'(2)])
  obtain c where c: "bflush (e_sd e) (bc (fsys s)) = Some c" "bc_ok (e_sd e) c" "bc_view (e_sd e) c = bc_view (e_sd e) (bc (fsys s))"
    "\<forall>a. sd_rd (e_sd e) a (sd c) = bc_view (e_sd e) (bc (fsys s)) a"
    by (rule bflush_spec [OF fs_okD(1) [OF w'(1)]])
  have cnt: "timer_cnt s + 1 = word_of_nat (Suc (n mod period f))" using w'(4) by simp
  define s1 where "s1 = s\<lparr>next_timer := time_base s div 100 + ui_ticks u\<rparr>"
  show thesis
  proof (cases "Suc n mod period f = 0")
    case True
    let ?s = "s1\<lparr>fsys := (fsys s)\<lparr>bc := c\<rparr>, timer_cnt := 0, kern := k\<rparr>"
    have due: "sint (timer_cnt s + 1) smod sint (write_back_freq (fsys s) * 100) = 0"
      unfolding w'(3) cnt using due_iff [OF f] True by simp
    have "handle_irq_timer e u s = Some ?s"
      using due c(1) k(1) by (simp add: handle_irq_timer_def bios_set_timer_def get_ticks_def s1_def)
    moreover have "working e H f (Suc n) ?s"
      using True c(2) w' k(2) by (simp add: working_def s1_def fs_ok_def)
    ultimately show ?thesis using c(3,4) that [of ?s] by simp
  next
    case False
    let ?s = "s1\<lparr>timer_cnt := timer_cnt s + 1, kern := k\<rparr>"
    have due: "sint (timer_cnt s + 1) smod sint (write_back_freq (fsys s) * 100) \<noteq> 0"
      unfolding w'(3) cnt using due_iff [OF f] False by simp
    have "handle_irq_timer e u s = Some ?s"
      using due k(1) by (simp add: handle_irq_timer_def bios_set_timer_def get_ticks_def s1_def)
    moreover have "Suc n mod period f = Suc (n mod period f)" using False by (simp add: mod_Suc split: if_splits)
    then have "working e H f (Suc n) ?s"
      using cnt w' k(2) by (simp add: working_def s1_def)
    ultimately show ?thesis using False that [of ?s] by (simp add: s1_def)
  qed
qed

lemma busy_working:
  assumes "busy e H s n s'" "freq_ok f" "working e H f 0 s"
  shows "working e H f n s'"
  using assms(1)
proof induction
  case start
  show ?case by (rule assms(3))
next
  case (tick n s1 u s2)
  then show ?case using tick_step [OF assms(2) tick.IH, of u] by (metis option.inject)
next
  case (call n s1 g)
  then show ?case using fs_call_ok [OF call.hyps(2)] by (simp add: working_def)
next
  case (sched n s1 k)
  then show ?case using sched_step_rest by (auto simp: working_def)
qed


lemma busy_ticks:
  assumes "freq_ok f" "working e H f 0 s"
  shows "\<exists>s'. busy e H s n s'"
proof (induction n)
  case (Suc n)
  then obtain s1 where s1: "busy e H s n s1" by blast
  obtain s2 where "handle_irq_timer e (undefined :: uin) s1 = Some s2"
    by (rule tick_step [OF assms(1) busy_working [OF s1 assms]])
  then show ?case using busy.tick [OF s1] by blast
qed (auto intro: busy.start)

section \<open>System calls seen from the user\<close>

text \<open>The registers at an \<^verbatim>\<open>ecall\<close> of the user library, and the effect of a call that returns \<open>v\<close>.\<close>

definition load_trap :: "trap \<Rightarrow> regs_context_t \<Rightarrow> regs_context_t" where
  "load_trap tr r = r\<lparr>rregs := (\<lambda>i. if i = NO_REG_A7 then fst tr
     else if NO_REG_A0 \<le> i \<and> i < NO_REG_A0 + 5 then snd tr ! (i - NO_REG_A0) else rregs r i)\<rparr>"

definition returned :: "u64 \<Rightarrow> regs_context_t \<Rightarrow> regs_context_t" where
  "returned v r = r\<lparr>rsepc := rsepc r + 4, rregs := (rregs r)(NO_REG_A0 := v)\<rparr>"

definition EXCC_SYSCALL :: u64 where "EXCC_SYSCALL = 8"

definition ecall ::
  "('d, 'n, 'c, 'p) env \<Rightarrow> uin \<Rightarrow> regs_context_t \<Rightarrow> trap \<Rightarrow> ('d, 'n, 'c, 'p) sys \<Rightarrow> (trap_end \<times> ('d, 'n, 'c, 'p) sys) option" where
  "ecall e u r tr s = interrupt_helper e u (load_trap tr r) 0 EXCC_SYSCALL s"

definition live :: "('d, 'n, 'c, 'p) sys \<Rightarrow> bool" where
  "live s \<longleftrightarrow> status (pcbs (kern s) (current_running (kern s))) \<noteq> TASK_EXITED"

lemma loaded_args: "length (snd tr) = 5 \<Longrightarrow> map (\<lambda>i. rregs (load_trap tr r) (NO_REG_A0 + i)) [0..<5] = snd tr"
  by (auto simp: load_trap_def NO_REG_A0_def NO_REG_A7_def intro!: nth_equalityI)

lemma exc_syscall: "(if EXCC_SYSCALL AND SCAUSE_IRQ_FLAG \<noteq> 0 then irq_table else exc_table) (EXCC_SYSCALL AND SCAUSE_EXC_CODE) = Some H_syscall"
  by (simp add: EXCC_SYSCALL_def SCAUSE_IRQ_FLAG_def SCAUSE_EXC_CODE_def exc_table_def)

lemma ecall_eq:
  assumes "live s" "length (snd tr) = 5" "kernel_call tr = Some f"
  shows "ecall e u r tr s = Option.bind (exec_kcall f e u s) (\<lambda>(rep, s1). Some (finish u (load_trap tr r) rep, s1))"
proof -
  have "rregs (load_trap tr r) NO_REG_A7 = fst tr" by (simp add: load_trap_def)
  then show ?thesis using assms exc_syscall loaded_args [OF assms(2), of r]
    by (simp add: ecall_def interrupt_helper_def live_def run_handler_def handle_syscall_def)
qed

lemma finish_value: "finish u r (Ret (Some v) st) = Resume (returned v r) st"
  by (simp add: finish_def returned_def)

lemma live_fsys [simp]: "live (s\<lparr>fsys := g\<rparr>) = live s"
  by (simp add: live_def)


section \<open>Page faults\<close>

definition fault_cause :: "u64 \<Rightarrow> bool" where
  "fault_cause c \<longleftrightarrow> c = EXCC_INST_PAGE_FAULT \<or> c = EXCC_LOAD_PAGE_FAULT \<or> c = EXCC_STORE_PAGE_FAULT"

lemma fault_dispatch:
  "fault_cause c \<Longrightarrow> (if c AND SCAUSE_IRQ_FLAG \<noteq> 0 then irq_table else exc_table) (c AND SCAUSE_EXC_CODE) = Some H_page_fault"
  by (auto simp: fault_cause_def SCAUSE_IRQ_FLAG_def SCAUSE_EXC_CODE_def exc_table_def EXCC_INST_PAGE_FAULT_def
      EXCC_LOAD_PAGE_FAULT_def EXCC_STORE_PAGE_FAULT_def)


text \<open>
  In a region that has a page table already, the entry of an untouched page is 0 and therefore forbids
  everything: there the check for \<^verbatim>\<open>mprotect\<close> takes the first touch for a forbidden access and ends the process.
\<close>

lemma later_touch_exits:
  assumes "fault_cause scause" "stval \<noteq> 0" "uva2pte (mem k) stval (pgdir (pcbs k (current_running k))) = Some a" "mem k a = 0"
  shows "\<exists>msg. handle_page_fault ops stval scause k =
    Option.bind (printk (lit msg) [VaReg stval] k) (\<lambda>(n, k1). do_exit k1)"
proof -
  have "\<exists>msg. mprotect_error scause 0 = Some msg"
    using assms(1) by (auto simp: mprotect_error_def fault_cause_def SCAUSE_EXC_CODE_def get_attribute_def Let_def
        EXCC_INST_PAGE_FAULT_def EXCC_LOAD_PAGE_FAULT_def EXCC_STORE_PAGE_FAULT_def)
  then obtain msg where "mprotect_error scause 0 = Some msg" by blast
  then have "handle_page_fault ops stval scause k = Option.bind (printk (lit msg) [VaReg stval] k) (\<lambda>(n, k1). do_exit k1)"
    using assms(2-4) by (simp add: handle_page_fault_def check_mprotect_def Let_def split_def)
  then show ?thesis by blast
qed

section \<open>A blocked sender\<close>

lemma send_call: "length (snd (sys_net_send p x)) = 5" "kernel_call (sys_net_send p x) = Some (K_do_net_send p x)"
  using lookups by (simp_all add: sys_net_send_def kernel_call_eq libc_no_eq length_trap del: unistd_no.simps)

definition IRQC_S_EXT :: u64 where "IRQC_S_EXT = 9"

lemma ext_irq: "(SCAUSE_IRQ_FLAG OR IRQC_S_EXT) AND SCAUSE_IRQ_FLAG \<noteq> 0"
  "irq_table ((SCAUSE_IRQ_FLAG OR IRQC_S_EXT) AND SCAUSE_EXC_CODE) = Some H_irq_ext"
  by (simp_all add: IRQC_S_EXT_def SCAUSE_IRQ_FLAG_def SCAUSE_EXC_CODE_def irq_table_def)

lemma ext_irq_wakes:
  assumes "live s" "at_rest H Q (kern s)" "SendQ \<in> H" "RecvQ \<in> H" "PcbNode p \<in> set (Q SendQ)"
    and "fst (nic_rd (e_nic e) E1000_ICR (e1000 (kern s))) AND E1000_ICR_TXQE \<noteq> 0"
      "fst (nic_rd (e_nic e) E1000_IMS (snd (nic_rd (e_nic e) E1000_ICR (e1000 (kern s))))) AND E1000_ICR_TXQE \<noteq> 0"
    and c: "plic_claim (e_plic e) (plic s) = (irq, pl)" "irq = PLIC_E1000_QEMU_IRQ \<or> irq = PLIC_E1000_PYNQ_IRQ"
  shows "\<exists>s'. interrupt_helper e u r stval (SCAUSE_IRQ_FLAG OR IRQC_S_EXT) s = Some (Resume r [], s') \<and>
    status (pcbs (kern s') p) = TASK_READY \<and> plic s' = plic_complete (e_plic e) irq pl"
proof -
  obtain k where k: "net_handle_irq (e_nic e) (kern s) = Some k" "status (pcbs k p) = TASK_READY"
    using irq_wakes [OF assms(2-7)] by blast
  let ?s = "s\<lparr>plic := plic_complete (e_plic e) irq pl, kern := k\<rparr>"
  have "handle_irq_ext e s = Some ?s" using k(1) c by (auto simp: handle_irq_ext_def)
  then have "interrupt_helper e u r stval (SCAUSE_IRQ_FLAG OR IRQC_S_EXT) s = Some (Resume r [], ?s)"
    using assms(1) ext_irq by (simp add: interrupt_helper_def live_def run_handler_def)
  then show ?thesis using k(2) by auto
qed


section \<open>A concrete machine\<close>

definition demo_env :: "(u32 \<Rightarrow> u64 list, u32 \<Rightarrow> u32, u32 \<Rightarrow> bytes, u64 \<Rightarrow> u32) env" where
  "demo_env = \<lparr>e_swap = demo_dsk, e_ka = \<lparr>pcb_addr = (\<lambda>_. 0xffffffc050400000), ret_from_exception = 0xffffffc050201000\<rparr>,
     e_nic = demo_nic, e_nb = demo_nbufs, e_sd = demo_sd, e_plic = reg_file\<rparr>"

definition demo_sys :: "(u32 \<Rightarrow> u64 list, u32 \<Rightarrow> u32, u32 \<Rightarrow> bytes, u64 \<Rightarrow> u32) sys" where
  "demo_sys = \<lparr>kern = demo_net, fsys = demo_fs,
     plic = \<lparr>plic_regs = 0, present = True, hart_base = 0x200000, enable_base = 0x2000, pdev = (\<lambda>_. 33)\<rparr>,
     time_base = 10000000, timer_cnt = 0, next_timer = 0\<rparr>"

definition demo_uin :: uin where
  "demo_uin = \<lparr>ui_bytes = (\<lambda>_. []), ui_args = (\<lambda>_. []), ui_local = 0, ui_ticks = 0, ui_char = - 1, ui_a0 = 0\<rparr>"

definition demo_regs :: regs_context_t where
  "demo_regs = \<lparr>rregs = (\<lambda>_. 0), rsstatus = 0, rsepc = 0x10000, rsbadaddr = 0, rscause = 8\<rparr>"

lemma demo_net_inv: "rest_inv demo_heads demo_net"
  using demo_net_rest by (auto simp: rest_inv_def at_rest_def)

lemma demo_sys_working: "working demo_env demo_heads 30 0 demo_sys" "freq_ok 30" "period 30 = 3000"
  using demo_net_inv demo_fs_ok
  by (simp_all add: working_def demo_sys_def demo_env_def freq_ok_def period_def demo_fs_dir_def)

lemma demo_live: "live demo_sys"
  by (simp add: live_def demo_sys_def current_running_def demo_net_def demo_lk_def demo_defs)




text \<open>The machine while process 0 waits for a descriptor and both cores are idle.\<close>

lemma demo_waiting:
  obtains lk where "at_rest demo_heads (demo_Q(SendQ := [PcbNode (Pcb 0)]))
    (demo_net\<lparr>pcbs := (pcbs demo_net)(Pcb 0 := (pcbs demo_net (Pcb 0))\<lparr>status := TASK_BLOCKED\<rparr>), qlinks := lk,
      cur := (\<lambda>h. if h = 0 then MasterPid0 else SlavePid0)\<rparr>)"
proof -
  have r: "sched_rel demo_heads demo_Q demo_net" "unqueued demo_heads demo_Q (PcbNode (Pcb 0))"
    using demo_net_rest by (simp_all add: at_rest_def)
  have H: "SendQ \<in> demo_heads" by (auto simp: demo_heads_def)
  have b: "SendQ \<noteq> ReadyQ" "0 < NUM_MAX_TASK" "demo_Q SendQ = []" by (simp_all add: NUM_MAX_TASK_def demo_Q_def)
  obtain lk where lk: "sched_rel demo_heads (demo_Q(SendQ := demo_Q SendQ @ [PcbNode (Pcb 0)]))
      ((upd_pcb (Pcb 0) (\<lambda>b. b\<lparr>status := TASK_BLOCKED\<rparr>) demo_net)\<lparr>qlinks := lk\<rparr>)"
    by (rule do_block_spec [OF r(1) H b(1,2) r(2)])
  let ?s = "demo_net\<lparr>pcbs := (pcbs demo_net)(Pcb 0 := (pcbs demo_net (Pcb 0))\<lparr>status := TASK_BLOCKED\<rparr>), qlinks := lk,
    cur := (\<lambda>h. if h = 0 then MasterPid0 else SlavePid0)\<rparr>"
  have rel: "sched_rel demo_heads (demo_Q(SendQ := [PcbNode (Pcb 0)])) ?s"
    using sched_rel_cong [OF lk, of ?s] by (simp add: b upd_pcb_def)
  have "status (pcbs ?s p) \<noteq> TASK_RUNNING" for p
    by (cases p) (auto simp: demo_net_def demo_lk_def demo_defs)
  then have "run_ok demo_heads (demo_Q(SendQ := [PcbNode (Pcb 0)])) ?s" by (auto simp: run_ok_def)
  then show thesis using rel that [of lk] by (simp add: at_rest_def current_running_def)
qed


end
