(* ===== verification/Boot.thy ===== *)
theory Boot
  imports Pgtable
begin

text \<open>
  The page tables of the boot stage: src/arch/riscv/kernel/boot.c, and \<^verbatim>\<open>cancel_temp_pgdir\<close> of src/init/main.c,
  which removes the temporary mapping. Before paging is on, memory is addressed physically; \<^verbatim>\<open>pg_base\<close>, the
  static variable of \<^verbatim>\<open>alloc_page\<close>, is the second component of the state. What the tables mean is the
  translation of the hardware, \<open>mmu_walk\<close>, for the large pages used here.
\<close>

unbundle bit_operations_syntax

section \<open>The boot stage\<close>

type_synonym boot = "(u64 \<Rightarrow> u64) \<times> u64"

definition PGDIR_PA :: u64 where "PGDIR_PA = 0x51000000"
definition SATP_MODE_SV39 :: u64 where "SATP_MODE_SV39 = 8"
definition SATP_ASID_SHIFT :: nat where "SATP_ASID_SHIFT = 44"
definition SATP_MODE_SHIFT :: nat where "SATP_MODE_SHIFT = 60"

definition alloc_page :: "u64 \<Rightarrow> u64 \<times> u64" where
  "alloc_page pg_base = (let b = pg_base + 0x1000 in (b, b))"

definition KERNEL_BITS :: u64 where
  "KERNEL_BITS = PAGE_PRESENT OR PAGE_READ OR PAGE_WRITE OR PAGE_EXEC OR PAGE_ACCESSED OR PAGE_DIRTY"

text \<open>The branch of \<^verbatim>\<open>map_page\<close> that adds a second-level table.\<close>

definition new_table :: "u64 \<Rightarrow> u64 \<Rightarrow> boot \<Rightarrow> boot" where
  "new_table pgdir i2 st = (case st of (m, b) \<Rightarrow> let
       (pg, b') = alloc_page b;
       a = pte_addr pgdir i2;
       m1 = m(a := set_pfn (m a) (drop_bit NORMAL_PAGE_SHIFT pg));
       m2 = m1(a := set_attribute (m1 a) PAGE_PRESENT)
     in (clear_pgdir (get_pa (m2 a)) m2, b'))"

definition map_page :: "u64 \<Rightarrow> u64 \<Rightarrow> u64 \<Rightarrow> boot \<Rightarrow> boot" where
  "map_page va0 pa pgdir st = (let
       va = va0 AND VA_MASK;
       i2 = vpn2 va;
       i1 = vpn1 va;
       (m, b) = (if fst st (pte_addr pgdir i2) = 0 then new_table pgdir i2 st else st);
       pmd = get_pa (m (pte_addr pgdir i2));
       a = pte_addr pmd i1;
       m1 = m(a := set_pfn (m a) (drop_bit NORMAL_PAGE_SHIFT pa))
     in (m1(a := set_attribute (m1 a) KERNEL_BITS), b))"

text \<open>The value that \<^verbatim>\<open>set_satp\<close> writes, and \<^verbatim>\<open>enable_vm\<close>.\<close>

definition set_satp :: "u64 \<Rightarrow> u64 \<Rightarrow> u64 \<Rightarrow> u64" where
  "set_satp mode asid ppn = push_bit SATP_MODE_SHIFT mode OR push_bit SATP_ASID_SHIFT asid OR ppn"

definition enable_vm :: u64 where
  "enable_vm = set_satp SATP_MODE_SV39 0 (drop_bit NORMAL_PAGE_SHIFT PGDIR_PA)"

text \<open>The loop \<^verbatim>\<open>for (va = lo; va < hi; va += 0x200000)\<close>: how often its body runs, and that many rounds of it.\<close>

definition rounds :: "u64 \<Rightarrow> u64 \<Rightarrow> nat" where
  "rounds lo hi = (unat hi - unat lo + 0x1FFFFF) div 0x200000"

definition map_range :: "u64 \<Rightarrow> (u64 \<Rightarrow> u64) \<Rightarrow> nat \<Rightarrow> boot \<Rightarrow> boot" where
  "map_range lo f n st = foldl (\<lambda>t i. map_page (lo + 0x200000 * word_of_nat i) (f (lo + 0x200000 * word_of_nat i)) PGDIR_PA t) st [0..<n]"

definition setup_vm :: "boot \<Rightarrow> boot" where
  "setup_vm st = (let
       st1 = (clear_pgdir PGDIR_PA (fst st), snd st);
       st2 = map_range 0xffffffc050000000 kva2pa (rounds 0xffffffc050000000 0xffffffc060000000) st1
     in map_range 0x50000000 id (rounds 0x50000000 0x51000000) st2)"

text \<open>The result of \<^verbatim>\<open>boot_kernel\<close>: the memory, the register satp, and the address that is jumped to.\<close>

definition boot_kernel :: "u64 \<Rightarrow> u64 \<Rightarrow> boot \<Rightarrow> boot \<times> u64 \<times> u64" where
  "boot_kernel mhartid start st = (if mhartid = 0 then setup_vm st else st, enable_vm, pa2kva start)"

text \<open>\<^verbatim>\<open>cancel_temp_pgdir\<close>, on memory as the kernel sees it, at its virtual addresses.\<close>

definition cancel_temp_pgdir :: "(u64 \<Rightarrow> u64) \<Rightarrow> (u64 \<Rightarrow> u64)" where
  "cancel_temp_pgdir m = (let
       a = pte_addr PGDIR_VA (vpn2 0x50000000);
       m1 = clear_pgdir (pa2kva (get_pa (m a))) m
     in m1(a := 0))"

section \<open>Address translation\<close>

definition LEAF_BITS :: u64 where
  "LEAF_BITS = PAGE_READ OR PAGE_WRITE OR PAGE_EXEC"

text \<open>An entry with a permission is a leaf: the entry of the directory must not be one, that of the second level must.\<close>

definition mmu_walk :: "(u64 \<Rightarrow> u64) \<Rightarrow> u64 \<Rightarrow> u64 option" where
  "mmu_walk m va = (let
       e2 = m (pte_addr PGDIR_PA (vpn2 (va AND VA_MASK)));
       e1 = m (pte_addr (get_pa e2) (vpn1 (va AND VA_MASK)))
     in if get_attribute e2 PAGE_PRESENT = 0 \<or> get_attribute e2 LEAF_BITS \<noteq> 0 \<or>
           get_attribute e1 PAGE_PRESENT = 0 \<or> get_attribute e1 LEAF_BITS = 0 then None
        else Some (get_pa e1 + (va AND 0x1FFFFF)))"

section \<open>The tables\<close>

definition tab :: "nat \<Rightarrow> u64" where
  "tab k = PGDIR_PA + 0x1000 * word_of_nat (Suc k)"

definition dir_entry :: "u64 \<Rightarrow> u64" where
  "dir_entry t = set_attribute (set_pfn 0 (drop_bit NORMAL_PAGE_SHIFT t)) PAGE_PRESENT"

definition leaf_entry :: "u64 \<Rightarrow> u64" where
  "leaf_entry pa = set_attribute (set_pfn 0 (drop_bit NORMAL_PAGE_SHIFT pa)) KERNEL_BITS"

text \<open>The directory has a table for each index of \<open>ts\<close>, in the order of allocation; \<open>L\<close> is what they map.\<close>

definition boot_inv :: "u64 list \<Rightarrow> (u64 \<Rightarrow> u64 \<Rightarrow> u64 option) \<Rightarrow> boot \<Rightarrow> bool" where
  "boot_inv ts L st \<longleftrightarrow> (case st of (m, b) \<Rightarrow> distinct ts \<and> length ts < 16 \<and> (\<forall>i \<in> set ts. unat i < 512) \<and>
     b = PGDIR_PA + 0x1000 * word_of_nat (length ts) \<and>
     (\<forall>k < length ts. m (pte_addr PGDIR_PA (ts ! k)) = dir_entry (tab k)) \<and>
     (\<forall>i. unat i < 512 \<longrightarrow> i \<notin> set ts \<longrightarrow> m (pte_addr PGDIR_PA i) = 0 \<and> L i = Map.empty) \<and>
     (\<forall>k < length ts. \<forall>j. unat j < 512 \<longrightarrow>
        m (pte_addr (tab k) j) = (case L (ts ! k) j of None \<Rightarrow> 0 | Some pa \<Rightarrow> leaf_entry pa)))"

lemma unat_tab: "k < 16 \<Longrightarrow> unat (tab k) = 0x51000000 + 4096 * Suc k"
proof -
  assume k: "k < 16"
  have "tab k = word_of_nat (0x51000000 + 4096 * Suc k)" by (simp add: tab_def PGDIR_PA_def)
  then show ?thesis using k by (simp only: unat_of_nat) simp
qed

lemma tab_props:
  assumes "k < 16"
  shows "aligned (tab k)" "page_pa (tab k)" "tab k \<noteq> PGDIR_PA" "j < 16 \<Longrightarrow> tab j = tab k \<Longrightarrow> j = k"
proof -
  note u = unat_tab [OF assms]
  show "aligned (tab k)" using u by (intro alignedI) simp
  show "page_pa (tab k)" using u assms by (intro page_paI) simp_all
  show "tab k \<noteq> PGDIR_PA" using u by (auto simp: PGDIR_PA_def)
  show "j < 16 \<Longrightarrow> tab j = tab k \<Longrightarrow> j = k" using u unat_tab [of j] by simp
qed

lemma pgdir_aligned: "aligned PGDIR_PA"
  by (simp add: aligned_def PGDIR_PA_def)

lemma bits_low: "take_bit 10 PAGE_PRESENT = PAGE_PRESENT" "take_bit 10 KERNEL_BITS = KERNEL_BITS"
  by (simp_all add: KERNEL_BITS_def page_bits)

lemma entry_props:
  assumes "page_pa x"
  shows "get_pa (dir_entry x) = x" "get_pa (leaf_entry x) = x"
    "get_attribute (dir_entry x) PAGE_PRESENT \<noteq> 0" "get_attribute (leaf_entry x) PAGE_PRESENT \<noteq> 0"
proof -
  show "get_pa (dir_entry x) = x" "get_pa (leaf_entry x) = x"
    using assms by (simp_all add: dir_entry_def leaf_entry_def get_pa_attr bits_low get_pa_set_pfn)
  show "get_attribute (dir_entry x) PAGE_PRESENT \<noteq> 0" "get_attribute (leaf_entry x) PAGE_PRESENT \<noteq> 0"
    by (auto simp: dir_entry_def leaf_entry_def get_attribute_def set_attribute_def KERNEL_BITS_def page_bits bit_eq_iff bit_simps
        intro!: exI [of _ 0])
qed

lemma leaf_bits: "bit LEAF_BITS n \<longleftrightarrow> n = 1 \<or> n = 2 \<or> n = 3"
  unfolding LEAF_BITS_def page_bits bit_or_iff bit_push_bit_iff bit_1_iff by auto

lemma entry_leaf: "get_attribute (dir_entry x) LEAF_BITS = 0" "get_attribute (leaf_entry x) LEAF_BITS \<noteq> 0"
proof -
  show "get_attribute (dir_entry x) LEAF_BITS = 0"
    by (rule bit_eqI)
      (auto simp: dir_entry_def get_attribute_def set_attribute_def bit_and_iff bit_or_iff leaf_bits set_pfn_bits PAGE_PRESENT_def bit_1_iff)
  show "get_attribute (leaf_entry x) LEAF_BITS \<noteq> 0"
    by (auto simp: leaf_entry_def get_attribute_def set_attribute_def KERNEL_BITS_def LEAF_BITS_def page_bits bit_eq_iff bit_simps
        intro!: exI [of _ 1])
qed

lemma entry_nonzero: "dir_entry x \<noteq> 0" "leaf_entry x \<noteq> 0"
  by (auto simp: dir_entry_def leaf_entry_def set_attribute_def KERNEL_BITS_def page_bits bit_eq_iff bit_simps intro!: exI [of _ 0])

lemma other_page:
  assumes "aligned a" "aligned b" "a \<noteq> b" "unat i < 512" "unat j < 512"
  shows "pte_addr a i \<noteq> pte_addr b j"
  using aligned_pages_disjoint [OF assms(1,2)] pte_addr_in_page assms(3-5) by metis

lemma boot_invD:
  assumes "boot_inv ts L (m, b)"
  shows "distinct ts" "length ts < 16" "i \<in> set ts \<Longrightarrow> unat i < 512" "b = PGDIR_PA + 0x1000 * word_of_nat (length ts)"
    "k < length ts \<Longrightarrow> m (pte_addr PGDIR_PA (ts ! k)) = dir_entry (tab k)"
    "unat i < 512 \<Longrightarrow> i \<notin> set ts \<Longrightarrow> m (pte_addr PGDIR_PA i) = 0" "unat i < 512 \<Longrightarrow> i \<notin> set ts \<Longrightarrow> L i = Map.empty"
    "k < length ts \<Longrightarrow> unat j < 512 \<Longrightarrow> m (pte_addr (tab k) j) = (case L (ts ! k) j of None \<Rightarrow> 0 | Some pa \<Rightarrow> leaf_entry pa)"
  using assms by (auto simp: boot_inv_def)

lemma clear_page:
  assumes "aligned a" "aligned b" "unat i < 512"
  shows "clear_pgdir a m (pte_addr b i) = (if a = b then 0 else m (pte_addr b i))"
proof (cases "a = b")
  case True
  then show ?thesis using pte_addr_in_page [OF assms(3), of b] by (auto simp: clear_pgdir_apply in_page_def)
next
  case False
  then have "\<not> in_page a (pte_addr b i)"
    using aligned_pages_disjoint [OF assms(1,2)] pte_addr_in_page [OF assms(3)] by blast
  then show ?thesis using False by (auto simp: clear_pgdir_apply in_page_def)
qed

text \<open>A new table.\<close>

lemma new_table_inv:
  assumes inv: "boot_inv ts L (m, b)" and i: "i \<notin> set ts" "unat i < 512" and n: "Suc (length ts) < 16"
  shows "boot_inv (ts @ [i]) L (new_table PGDIR_PA i (m, b))"
proof -
  let ?n = "length ts" and ?t = "tab (length ts)" and ?a = "pte_addr PGDIR_PA i"
  note D = boot_invD [OF inv]
  have t: "aligned ?t" "page_pa ?t" "?t \<noteq> PGDIR_PA" using tab_props [of ?n] n by simp_all
  have b: "b + 0x1000 = ?t" using D(4) by (simp add: tab_def algebra_simps)
  have z: "m ?a = 0" using D(6) i by simp
  define m2 where "m2 = m(?a := dir_entry ?t)"
  have run: "new_table PGDIR_PA i (m, b) = (clear_pgdir ?t m2, ?t)"
    using entry_props(1) [OF t(2)] by (simp add: new_table_def alloc_page_def Let_def b z dir_entry_def [symmetric] m2_def)
  have root: "clear_pgdir ?t m2 (pte_addr PGDIR_PA j) = (if j = i then dir_entry ?t else m (pte_addr PGDIR_PA j))" if "unat j < 512" for j
    using clear_page [OF t(1) pgdir_aligned that] t(3) pte_addr_inj [OF that i(2), of PGDIR_PA] by (auto simp: m2_def)
  have tabs: "clear_pgdir ?t m2 (pte_addr (tab k) j) = (if k = ?n then 0 else m (pte_addr (tab k) j))" if "k \<le> ?n" "unat j < 512" for k j
  proof -
    have k: "k < 16" using that(1) n by simp
    have "pte_addr (tab k) j \<noteq> ?a" using other_page [OF tab_props(1) [OF k] pgdir_aligned tab_props(3) [OF k] that(2) i(2)] .
    then show ?thesis using clear_page [OF t(1) tab_props(1) [OF k] that(2)] tab_props(4) [OF k, of ?n] n by (auto simp: m2_def)
  qed
  have "L i = Map.empty" using D(7) i by simp
  then show ?thesis unfolding run boot_inv_def prod.case
    using D(1-3) n i root tabs D(5-8) by (auto simp: nth_append tab_def algebra_simps less_Suc_eq)
qed

text \<open>A new entry in a table.\<close>

lemma leaf_inv:
  assumes inv: "boot_inv ts L (m, b)" and k: "k < length ts" "unat j < 512" and new: "L (ts ! k) j = None"
  shows "boot_inv ts (L(ts ! k := (L (ts ! k))(j \<mapsto> pa))) (m(pte_addr (tab k) j := leaf_entry pa), b)"
proof -
  note D = boot_invD [OF inv]
  have k16: "k' < 16" if "k' < length ts" for k' using that D(2) by simp
  have root: "pte_addr PGDIR_PA i \<noteq> pte_addr (tab k) j" if "unat i < 512" for i
    using other_page [OF pgdir_aligned tab_props(1) [OF k16 [OF k(1)]] tab_props(3) [OF k16 [OF k(1)], symmetric] that k(2)] .
  have tabs: "pte_addr (tab k') j' = pte_addr (tab k) j \<longleftrightarrow> k' = k \<and> j' = j" if "k' < length ts" "unat j' < 512" for k' j'
    using other_page [OF tab_props(1) [OF k16 [OF that(1)]] tab_props(1) [OF k16 [OF k(1)]] _ that(2) k(2)]
      tab_props(4) [OF k16 [OF k(1)] k16 [OF that(1)]] pte_addr_inj [OF that(2) k(2)] by metis
  have idx: "ts ! k' = ts ! k \<longleftrightarrow> k' = k" if "k' < length ts" for k'
    using D(1) that k(1) nth_eq_iff_index_eq by blast
  have "i \<noteq> ts ! k" if "i \<notin> set ts" for i using that k(1) by auto
  then show ?thesis unfolding boot_inv_def prod.case
    using D root tabs idx by auto
qed

text \<open>One call of \<^verbatim>\<open>map_page\<close>.\<close>

lemma map_page_inv:
  assumes inv: "boot_inv ts L st" and n: "Suc (length ts) < 16"
    and i: "i2 = vpn2 (va AND VA_MASK)" "i1 = vpn1 (va AND VA_MASK)" and new: "L i2 i1 = None"
  shows "\<exists>ts'. boot_inv ts' (L(i2 := (L i2)(i1 \<mapsto> pa))) (map_page va pa PGDIR_PA st) \<and> set ts' = insert i2 (set ts)"
proof -
  obtain m b where st: "st = (m, b)" by fastforce
  note inv' = inv [unfolded st]
  have u: "unat i2 < 512" "unat i1 < 512" using vpn_small i by simp_all
  define st1 where "st1 = (if m (pte_addr PGDIR_PA i2) = 0 then new_table PGDIR_PA i2 (m, b) else (m, b))"
  obtain ts1 where ts1: "boot_inv ts1 L st1" "i2 \<in> set ts1" "set ts1 = insert i2 (set ts)"
  proof (cases "i2 \<in> set ts")
    case True
    then obtain k where "k < length ts" "ts ! k = i2" by (auto simp: in_set_conv_nth)
    then have "m (pte_addr PGDIR_PA i2) \<noteq> 0" using boot_invD(5) [OF inv', of k] entry_nonzero by simp
    then show ?thesis using that [of ts] inv' True by (auto simp: st1_def)
  next
    case False
    then have "m (pte_addr PGDIR_PA i2) = 0" using boot_invD(6) [OF inv' u(1)] by simp
    then show ?thesis using that [of "ts @ [i2]"] new_table_inv [OF inv' False u(1) n] by (auto simp: st1_def)
  qed
  obtain m1 b1 where st1: "st1 = (m1, b1)" by fastforce
  obtain k where k: "k < length ts1" "ts1 ! k = i2" using ts1(2) by (auto simp: in_set_conv_nth)
  note D = boot_invD [OF ts1(1) [unfolded st1]]
  have "page_pa (tab k)" using tab_props(2) k(1) D(2) by simp
  then have pmd: "get_pa (m1 (pte_addr PGDIR_PA i2)) = tab k" using D(5) [OF k(1)] k(2) entry_props(1) by simp
  have "m1 (pte_addr (tab k) i1) = 0" using D(8) [OF k(1) u(2)] k(2) new by simp
  moreover have "(if m (pte_addr PGDIR_PA i2) = 0 then new_table PGDIR_PA i2 (m, b) else (m, b)) = (m1, b1)"
    using st1 by (simp add: st1_def)
  ultimately have "map_page va pa PGDIR_PA st = (m1(pte_addr (tab k) i1 := leaf_entry pa), b1)"
    by (simp only: map_page_def Let_def st i [symmetric] fst_conv prod.case pmd) (simp add: leaf_entry_def)
  then show ?thesis using leaf_inv [OF ts1(1) [unfolded st1] k(1) u(2), of pa] k(2) new ts1(3) by auto
qed

section \<open>The two loops\<close>

lemma unat_vpn:
  "unat (vpn2 (va AND VA_MASK)) = unat va div 2 ^ 30 mod 512" "unat (vpn1 (va AND VA_MASK)) = unat va div 2 ^ 21 mod 512"
proof -
  have u: "unat (take_bit 9 (drop_bit n va)) = unat va div 2 ^ n mod 512" for n
  proof -
    have "unat va mod 2 ^ 64 = unat va" using unsigned_less [of va, where 'a = nat] by simp
    then show ?thesis unfolding unsigned_take_bit_eq unsigned_drop_bit_eq by (simp add: drop_bit_eq_div take_bit_eq_mod)
  qed
  have "vpn2 (va AND VA_MASK) = take_bit 9 (drop_bit 30 va)" "vpn1 (va AND VA_MASK) = take_bit 9 (drop_bit 21 va)"
    by (auto simp: bit_eq_iff vpn_bits mask_eqs bit_simps add.commute)
  then show "unat (vpn2 (va AND VA_MASK)) = unat va div 2 ^ 30 mod 512" "unat (vpn1 (va AND VA_MASK)) = unat va div 2 ^ 21 mod 512"
    using u by simp_all
qed

text \<open>\<open>n\<close> large pages from \<open>lo\<close> on, all behind directory entry \<open>d\<close> and from entry \<open>c\<close> of its table on.\<close>

definition range_map :: "u64 \<Rightarrow> (u64 \<Rightarrow> u64) \<Rightarrow> nat \<Rightarrow> nat \<Rightarrow> u64 \<Rightarrow> u64 option" where
  "range_map lo f c n j = (if c \<le> unat j \<and> unat j < c + n then Some (f (lo + 0x200000 * word_of_nat (unat j - c))) else None)"

lemma map_range_inv:
  assumes inv: "boot_inv ts L st" and n: "c + n \<le> 512" "length ts < 14"
    and L: "L d = Map.empty" and d: "d \<notin> set ts"
    and idx: "\<And>i. i < n \<Longrightarrow> vpn2 ((lo + 0x200000 * word_of_nat i) AND VA_MASK) = d"
      "\<And>i. i < n \<Longrightarrow> vpn1 ((lo + 0x200000 * word_of_nat i) AND VA_MASK) = word_of_nat (c + i)"
    and k: "k \<le> n"
  shows "\<exists>ts'. boot_inv ts' (L(d := range_map lo f c k)) (map_range lo f k st) \<and> set ts' \<subseteq> insert d (set ts)"
  using k
proof (induction k)
  case 0
  have "range_map lo f c 0 = Map.empty" by (auto simp: range_map_def)
  then have "L(d := range_map lo f c 0) = L" using L by (simp only: fun_upd_idem)
  moreover have "map_range lo f 0 st = st" by (simp add: map_range_def)
  ultimately show ?case using inv by (metis subset_insertI)
next
  case (Suc k)
  then obtain ts' where ts': "boot_inv ts' (L(d := range_map lo f c k)) (map_range lo f k st)" "set ts' \<subseteq> insert d (set ts)"
    using Suc_leD by blast
  let ?va = "lo + 0x200000 * word_of_nat k"
  have "distinct ts'" "distinct ts"
    using ts'(1) inv by (simp_all add: boot_inv_def case_prod_beta)
  then have len: "Suc (length ts') < 16"
    using card_mono [OF _ ts'(2)] n(2) by (simp add: distinct_card [symmetric] card_insert_if d)
  have u: "unat (word_of_nat (c + k) :: u64) = c + k"
    unfolding unat_of_nat using Suc.prems n(1) by simp
  have "range_map lo f c k (word_of_nat (c + k)) = None" unfolding range_map_def u by simp
  then have new: "(L(d := range_map lo f c k)) d (word_of_nat (c + k)) = None" by simp
  have "range_map lo f c (Suc k) = (range_map lo f c k)(word_of_nat (c + k) \<mapsto> f ?va)"
  proof
    fix j :: u64
    have "j = word_of_nat (c + k) \<longleftrightarrow> unat j = unat (word_of_nat (c + k) :: u64)" by (rule word_unat_eq_iff)
    then have "j = word_of_nat (c + k) \<longleftrightarrow> unat j = c + k" by (simp only: u)
    then show "range_map lo f c (Suc k) j = ((range_map lo f c k)(word_of_nat (c + k) \<mapsto> f ?va)) j"
      by (auto simp: range_map_def)
  qed
  then have L': "(L(d := range_map lo f c k))(d := ((L(d := range_map lo f c k)) d)(word_of_nat (c + k) \<mapsto> f ?va)) =
      L(d := range_map lo f c (Suc k))"
    by simp
  have run: "map_range lo f (Suc k) st = map_page ?va (f ?va) PGDIR_PA (map_range lo f k st)"
    by (simp add: map_range_def)
  have k: "k < n" using Suc.prems by simp
  obtain ts'' where "boot_inv ts'' (L(d := range_map lo f c (Suc k))) (map_range lo f (Suc k) st)" "set ts'' = insert d (set ts')"
    using map_page_inv [OF ts'(1) len idx(1) [OF k, symmetric] idx(2) [OF k, symmetric] new, of "f ?va"] unfolding L' run by blast
  then show ?case using ts'(2) by blast
qed


lemma large_index:
  fixes lo :: u64
  assumes lo: "unat lo + 0x200000 * n \<le> 2 ^ 64" and i: "i < n"
  shows "unat (lo + 0x200000 * word_of_nat i) = unat lo + 0x200000 * i"
proof -
  have "lo + 0x200000 * word_of_nat i = word_of_nat (unat lo + 0x200000 * i)" by simp
  moreover have "unat lo + 0x200000 * i < 2 ^ 64" using lo(1) i by linarith
  ultimately show ?thesis by (simp only: unat_of_nat) simp
qed

lemma vpn_range:
  assumes i: "i < n" and n: "unat lo + 0x200000 * n \<le> 2 ^ 64"
    and lo: "unat lo mod 2 ^ 30 = 0x200000 * c" "c + n \<le> 512"
  shows "unat (vpn2 ((lo + 0x200000 * word_of_nat i) AND VA_MASK)) = unat lo div 2 ^ 30 mod 512"
    "unat (vpn1 ((lo + 0x200000 * word_of_nat i) AND VA_MASK)) = c + i"
proof -
  have m: "unat lo = 2 ^ 30 * (unat lo div 2 ^ 30) + 0x200000 * c" using lo(1) by (metis mult_div_mod_eq)
  have u: "unat (lo + 0x200000 * word_of_nat i) = unat lo + 0x200000 * i" using large_index n i by blast
  have "(unat lo + 0x200000 * i) div 2 ^ 30 = unat lo div 2 ^ 30"
    using lo i by (subst m) simp
  then show "unat (vpn2 ((lo + 0x200000 * word_of_nat i) AND VA_MASK)) = unat lo div 2 ^ 30 mod 512"
    by (simp only: unat_vpn u)
  have "(unat lo + 0x200000 * i) div 2 ^ 21 = 512 * (unat lo div 2 ^ 30) + (c + i)"
    by (subst m) simp
  then have "(unat lo + 0x200000 * i) div 2 ^ 21 mod 512 = c + i"
    using lo(2) i by (simp only: mod_mult_self4) simp
  then show "unat (vpn1 ((lo + 0x200000 * word_of_nat i) AND VA_MASK)) = c + i"
    by (simp only: unat_vpn u)
qed


section \<open>What the tables map\<close>

lemma boot_base: "boot_inv [] (\<lambda>_. Map.empty) (clear_pgdir PGDIR_PA m, PGDIR_PA)"
  by (auto simp: boot_inv_def clear_page pgdir_aligned)

lemma rounds_eqs: "rounds 0xffffffc050000000 0xffffffc060000000 = 128" "rounds 0x50000000 0x51000000 = 8"
  by (simp_all add: rounds_def)

lemma range_indices:
  fixes lo d :: u64
  assumes i: "i < n" and n: "unat lo + 0x200000 * n \<le> 2 ^ 64"
    and lo: "unat lo mod 2 ^ 30 = 0x200000 * c" "c + n \<le> 512" and d: "unat lo div 2 ^ 30 mod 512 = unat d"
  shows "vpn2 ((lo + 0x200000 * word_of_nat i) AND VA_MASK) = d"
    "vpn1 ((lo + 0x200000 * word_of_nat i) AND VA_MASK) = word_of_nat (c + i)"
proof -
  note v = vpn_range [OF i n lo]
  show "vpn2 ((lo + 0x200000 * word_of_nat i) AND VA_MASK) = d" using v(1) d by (simp only: word_unat_eq_iff)
  have "unat (word_of_nat (c + i) :: u64) = c + i" unfolding unat_of_nat using i lo(2) by simp
  then show "vpn1 ((lo + 0x200000 * word_of_nat i) AND VA_MASK) = word_of_nat (c + i)" using v(2) by (simp only: word_unat_eq_iff)
qed

definition boot_map :: "u64 \<Rightarrow> u64 \<Rightarrow> u64 option" where
  "boot_map = ((\<lambda>_. Map.empty)(257 := range_map 0xffffffc050000000 kva2pa 128 128))(1 := range_map 0x50000000 id 128 8)"

lemma kernel_range:
  "\<exists>ts. boot_inv ts ((\<lambda>_. Map.empty)(257 := range_map 0xffffffc050000000 kva2pa 128 128))
     (map_range 0xffffffc050000000 kva2pa 128 (clear_pgdir PGDIR_PA m, PGDIR_PA)) \<and> set ts \<subseteq> {257}"
  using map_range_inv [OF boot_base, where lo = "0xffffffc050000000" and f = kva2pa and c = 128 and n = 128 and d = 257 and k = 128 and m1 = m]
    range_indices [where lo = "0xffffffc050000000" and n = 128 and c = 128 and d = 257] by simp

lemma setup_vm_inv: "\<exists>ts. boot_inv ts boot_map (setup_vm (m, PGDIR_PA)) \<and> set ts \<subseteq> {257, 1}"
proof -
  let ?L = "(\<lambda>_. Map.empty)(257 := range_map 0xffffffc050000000 kva2pa 128 128) :: u64 \<Rightarrow> u64 \<Rightarrow> u64 option"
  obtain ts where ts: "boot_inv ts ?L (map_range 0xffffffc050000000 kva2pa 128 (clear_pgdir PGDIR_PA m, PGDIR_PA))" "set ts \<subseteq> {257}"
    using kernel_range by blast
  have "distinct ts" using ts(1) by (simp add: boot_inv_def case_prod_beta)
  then have "length ts \<le> 1" using card_mono [OF _ ts(2)] by (simp add: distinct_card)
  moreover have "(1 :: u64) \<notin> set ts" using ts(2) by auto
  ultimately have "\<exists>ts'. boot_inv ts' (?L(1 := range_map 0x50000000 id 128 8))
      (map_range 0x50000000 id 8 (map_range 0xffffffc050000000 kva2pa 128 (clear_pgdir PGDIR_PA m, PGDIR_PA))) \<and> set ts' \<subseteq> insert 1 (set ts)"
    using range_indices [where lo = "0x50000000" and n = 8 and c = 128 and d = 1]
    by (intro map_range_inv [OF ts(1), where n = 8]) simp_all
  then show ?thesis using ts(2) unfolding setup_vm_def Let_def rounds_eqs boot_map_def by auto
qed

text \<open>The walk reads what the tables map.\<close>

lemma walk_inv:
  assumes inv: "boot_inv ts L (m, b)" and va: "i2 = vpn2 (va AND VA_MASK)" "i1 = vpn1 (va AND VA_MASK)"
    and pa: "\<And>pa. L i2 i1 = Some pa \<Longrightarrow> page_pa pa"
  shows "mmu_walk m va = map_option (\<lambda>pa. pa + (va AND 0x1FFFFF)) (L i2 i1)"
proof -
  note D = boot_invD [OF inv]
  have u: "unat i2 < 512" "unat i1 < 512" using vpn_small va by simp_all
  show ?thesis
  proof (cases "i2 \<in> set ts")
    case False
    then show ?thesis using D(6,7) [OF u(1)] by (simp add: mmu_walk_def va [symmetric] get_attribute_def)
  next
    case True
    then obtain k where k: "k < length ts" "ts ! k = i2" by (auto simp: in_set_conv_nth)
    have "page_pa (tab k)" using tab_props(2) k(1) D(2) by simp
    then have e2: "m (pte_addr PGDIR_PA i2) = dir_entry (tab k)" "get_pa (dir_entry (tab k)) = tab k"
        "get_attribute (dir_entry (tab k)) PAGE_PRESENT \<noteq> 0"
      using D(5) [OF k(1)] k(2) entry_props(1,3) by simp_all
    show ?thesis
      using D(8) [OF k(1) u(2)] k(2) e2 pa entry_props entry_leaf
      by (auto simp: mmu_walk_def va [symmetric] Let_def get_attribute_def split: option.splits)
  qed
qed

text \<open>The addresses that have a translation; an address of Sv39 repeats bit 38 in the bits above it.\<close>

definition canonical :: "u64 \<Rightarrow> bool" where
  "canonical va \<longleftrightarrow> va < 0x4000000000 \<or> 0xffffffc000000000 \<le> va"

definition kernel_va :: "u64 \<Rightarrow> bool" where
  "kernel_va va \<longleftrightarrow> 0xffffffc050000000 \<le> va \<and> va < 0xffffffc060000000"

definition boot_va :: "u64 \<Rightarrow> bool" where
  "boot_va va \<longleftrightarrow> 0x50000000 \<le> va \<and> va < 0x51000000"

lemma unat_low: "unat (va AND 0x1FFFFF :: u64) = unat va mod 2 ^ 21"
proof -
  have "(va AND 0x1FFFFF) = take_bit 21 va" by (simp add: take_bit_eq_mask mask_eq_exp_minus_1)
  then have "unat (va AND 0x1FFFFF) = take_bit 21 (unat va)" by (simp only: unsigned_take_bit_eq)
  then show ?thesis by (simp add: take_bit_eq_mod)
qed

lemma join_digits:
  "u = 2 ^ 21 * a + r \<Longrightarrow> a = 512 * b + x \<Longrightarrow> b = 512 * c + y \<Longrightarrow> u = 2 ^ 39 * c + 2 ^ 30 * y + 2 ^ 21 * x + (r :: nat)"
  by simp

lemma va_split:
  "\<exists>p q j r. unat va = 2 ^ 39 * p + 2 ^ 30 * q + 2 ^ 21 * j + r \<and> r < 2 ^ 21 \<and> q < 512 \<and> j < 512 \<and>
     q = unat (vpn2 (va AND VA_MASK)) \<and> j = unat (vpn1 (va AND VA_MASK)) \<and> r = unat (va AND 0x1FFFFF)"
proof -
  let ?u = "unat va"
  have d: "?u div 2 ^ 21 div 512 = ?u div 2 ^ 30" "?u div 2 ^ 30 div 512 = ?u div 2 ^ 39" by (simp_all add: div_mult2_eq [symmetric])
  have "?u = 2 ^ 21 * (?u div 2 ^ 21) + ?u mod 2 ^ 21" "?u div 2 ^ 21 = 512 * (?u div 2 ^ 30) + ?u div 2 ^ 21 mod 512"
      "?u div 2 ^ 30 = 512 * (?u div 2 ^ 39) + ?u div 2 ^ 30 mod 512"
    unfolding d [symmetric] by (simp_all only: mult_div_mod_eq)
  then have "?u = 2 ^ 39 * (?u div 2 ^ 39) + 2 ^ 30 * (?u div 2 ^ 30 mod 512) + 2 ^ 21 * (?u div 2 ^ 21 mod 512) + ?u mod 2 ^ 21"
    by (rule join_digits)
  moreover have "?u mod 2 ^ 21 < 2 ^ 21" "?u div 2 ^ 30 mod 512 < 512" "?u div 2 ^ 21 mod 512 < 512" by simp_all
  ultimately show ?thesis unfolding unat_vpn unat_low by blast
qed

lemma canonical_split:
  assumes "canonical va"
  shows "\<exists>p q j r. unat va = 2 ^ 39 * p + 2 ^ 30 * q + 2 ^ 21 * j + r \<and> r < 2 ^ 21 \<and> q < 512 \<and> j < 512 \<and>
     q = unat (vpn2 (va AND VA_MASK)) \<and> j = unat (vpn1 (va AND VA_MASK)) \<and> r = unat (va AND 0x1FFFFF) \<and>
     (p = 0 \<and> q < 256 \<or> p = 0x1FFFFFF \<and> 256 \<le> q)"
proof -
  obtain p q j r where s: "unat va = 2 ^ 39 * p + 2 ^ 30 * q + 2 ^ 21 * j + r" "r < 2 ^ 21" "q < 512" "j < 512"
    "q = unat (vpn2 (va AND VA_MASK))" "j = unat (vpn1 (va AND VA_MASK))" "r = unat (va AND 0x1FFFFF)" using va_split by metis
  have b: "unat va < 2 ^ 64" using unsigned_less [of va, where 'a = nat] by simp
  consider "unat va < 0x4000000000" | "0xffffffc000000000 \<le> unat va"
    using assms by (auto simp: canonical_def word_less_nat_alt word_le_nat_alt)
  then have "p = 0 \<and> q < 256 \<or> p = 0x1FFFFFF \<and> 256 \<le> q"
  proof cases
    case 1
    then have "p = 0 \<and> q < 256" using s(1) by simp
    then show ?thesis ..
  next
    case 2
    then have "p = 0x1FFFFFF" using s(1-4) b by simp
    moreover have "256 \<le> q" using 2 s(1-4) \<open>p = 0x1FFFFFF\<close> by simp
    ultimately show ?thesis by simp
  qed
  then show ?thesis using s by metis
qed

lemma slot_iff:
  fixes q j r n :: nat
  assumes "r < 2 ^ 21" "j < 512" "n \<le> 384"
  shows "q = Q \<and> 128 \<le> j \<and> j < 128 + n \<longleftrightarrow>
    2 ^ 30 * Q + 2 ^ 28 \<le> 2 ^ 30 * q + 2 ^ 21 * j + r \<and> 2 ^ 30 * q + 2 ^ 21 * j + r < 2 ^ 30 * Q + 2 ^ 28 + 2 ^ 21 * n"
proof -
  consider "q < Q" | "q = Q" | "Q < q" by linarith
  then show ?thesis
  proof cases
    case 2
    then show ?thesis using assms by (intro iffI; simp)
  qed (use assms in simp_all)
qed

lemma kernel_indices:
  assumes "canonical va"
  shows "vpn2 (va AND VA_MASK) = 257 \<and> 128 \<le> unat (vpn1 (va AND VA_MASK)) \<and> unat (vpn1 (va AND VA_MASK)) < 128 + 128 \<longleftrightarrow> kernel_va va"
proof -
  obtain p q j r where s: "unat va = 2 ^ 39 * p + 2 ^ 30 * q + 2 ^ 21 * j + r" "r < 2 ^ 21" "q < 512" "j < 512"
    "q = unat (vpn2 (va AND VA_MASK))" "j = unat (vpn1 (va AND VA_MASK))" "p = 0 \<and> q < 256 \<or> p = 0x1FFFFFF \<and> 256 \<le> q"
    using canonical_split [OF assms] by metis
  have "vpn2 (va AND VA_MASK) = 257 \<longleftrightarrow> q = 257" unfolding word_unat_eq_iff s(5) by simp
  moreover have "kernel_va va \<longleftrightarrow> 0xffffffc050000000 \<le> unat va \<and> unat va < 0xffffffc060000000"
    by (simp add: kernel_va_def word_less_nat_alt word_le_nat_alt)
  moreover have "q = 257 \<and> 128 \<le> j \<and> j < 256 \<longleftrightarrow> 0xffffffc050000000 \<le> unat va \<and> unat va < 0xffffffc060000000"
    using s(7)
  proof
    assume "p = 0 \<and> q < 256"
    then show ?thesis using s(1-4) by simp
  next
    assume "p = 0x1FFFFFF \<and> 256 \<le> q"
    then show ?thesis using s(1) slot_iff [OF s(2,4), of 128 q 257] by (simp add: add.assoc)
  qed
  ultimately show ?thesis unfolding s(6) [symmetric] by simp
qed

lemma boot_indices:
  assumes "canonical va"
  shows "vpn2 (va AND VA_MASK) = 1 \<and> 128 \<le> unat (vpn1 (va AND VA_MASK)) \<and> unat (vpn1 (va AND VA_MASK)) < 128 + 8 \<longleftrightarrow> boot_va va"
proof -
  obtain p q j r where s: "unat va = 2 ^ 39 * p + 2 ^ 30 * q + 2 ^ 21 * j + r" "r < 2 ^ 21" "q < 512" "j < 512"
    "q = unat (vpn2 (va AND VA_MASK))" "j = unat (vpn1 (va AND VA_MASK))" "p = 0 \<and> q < 256 \<or> p = 0x1FFFFFF \<and> 256 \<le> q"
    using canonical_split [OF assms] by metis
  have "vpn2 (va AND VA_MASK) = 1 \<longleftrightarrow> q = 1" unfolding word_unat_eq_iff s(5) by simp
  moreover have "boot_va va \<longleftrightarrow> 0x50000000 \<le> unat va \<and> unat va < 0x51000000"
    by (simp add: boot_va_def word_less_nat_alt word_le_nat_alt)
  moreover have "q = 1 \<and> 128 \<le> j \<and> j < 136 \<longleftrightarrow> 0x50000000 \<le> unat va \<and> unat va < 0x51000000"
    using s(7)
  proof
    assume "p = 0 \<and> q < 256"
    then show ?thesis using s(1) slot_iff [OF s(2,4), of 8 q 1] by (simp add: add.assoc)
  next
    assume "p = 0x1FFFFFF \<and> 256 \<le> q"
    then show ?thesis using s(1-4) by simp
  qed
  ultimately show ?thesis unfolding s(6) [symmetric] by simp
qed

lemma range_value:
  fixes va lo :: u64
  assumes "vpn2 (va AND VA_MASK) = d" "c \<le> unat (vpn1 (va AND VA_MASK))"
    and lo: "unat lo = 2 ^ 39 * p + 2 ^ 30 * unat d + 2 ^ 21 * c"
    and va: "unat va = 2 ^ 39 * p + 2 ^ 30 * unat d + 2 ^ 21 * unat (vpn1 (va AND VA_MASK)) + unat (va AND 0x1FFFFF)"
  shows "lo + 0x200000 * word_of_nat (unat (vpn1 (va AND VA_MASK)) - c) + (va AND 0x1FFFFF) = va"
proof -
  let ?j = "unat (vpn1 (va AND VA_MASK))"
  have "unat va = unat lo + 0x200000 * (?j - c) + unat (va AND 0x1FFFFF)"
    using assms(2) lo va by simp
  then have "word_of_nat (unat va) = (word_of_nat (unat lo + 0x200000 * (?j - c) + unat (va AND 0x1FFFFF)) :: u64)" by simp
  then show ?thesis by simp
qed

lemma boot_map_value:
  assumes "canonical va"
  shows "map_option (\<lambda>pa. pa + (va AND 0x1FFFFF)) (boot_map (vpn2 (va AND VA_MASK)) (vpn1 (va AND VA_MASK))) =
     (if kernel_va va then Some (kva2pa va) else if boot_va va then Some va else None)"
proof -
  let ?q = "vpn2 (va AND VA_MASK)" and ?j = "vpn1 (va AND VA_MASK)"
  obtain p where s: "unat va = 2 ^ 39 * p + 2 ^ 30 * unat ?q + 2 ^ 21 * unat ?j + unat (va AND 0x1FFFFF)"
      "p = 0 \<and> unat ?q < 256 \<or> p = 0x1FFFFFF \<and> 256 \<le> unat ?q"
    using canonical_split [OF assms] by metis
  note ki = kernel_indices [OF assms] and bi = boot_indices [OF assms]
  show ?thesis
  proof (cases "kernel_va va")
    case True
    then have k: "?q = 257" "128 \<le> unat ?j" "unat ?j < 256" using ki by auto
    then have "p = 0x1FFFFFF" using s(2) by simp
    then have "0xffffffc050000000 + 0x200000 * word_of_nat (unat ?j - 128) + (va AND 0x1FFFFF) = va"
      using s(1) k by (intro range_value [where p = p and d = 257]) simp_all
    then have "kva2pa (0xffffffc050000000 + 0x200000 * word_of_nat (unat ?j - 128)) + (va AND 0x1FFFFF) = kva2pa va"
      by (simp only: kva2pa_def) (simp add: algebra_simps)
    then show ?thesis using k True by (simp add: boot_map_def range_map_def)
  next
    case nk: False
    show ?thesis
    proof (cases "boot_va va")
      case True
      then have k: "?q = 1" "128 \<le> unat ?j" "unat ?j < 136" using bi by auto
      then have "p = 0" using s(2) by simp
      then have "0x50000000 + 0x200000 * word_of_nat (unat ?j - 128) + (va AND 0x1FFFFF) = va"
        using s(1) k by (intro range_value [where p = p and d = 1]) simp_all
      then show ?thesis using k True nk by (simp add: boot_map_def range_map_def)
    next
      case False
      then show ?thesis using nk ki bi by (auto simp: boot_map_def range_map_def)
    qed
  qed
qed

section \<open>Removing the temporary mapping\<close>

lemma pa2kva_pte: "pte_addr (pa2kva t) i = pa2kva (pte_addr t i)"
  by (simp add: pte_addr_def pa2kva_def)

lemma clear_view: "clear_pgdir (pa2kva t) (\<lambda>a. m (kva2pa a)) = (\<lambda>a. clear_pgdir t m (kva2pa a))"
proof
  fix a
  have "a = pa2kva t + 8 * word_of_nat k \<longleftrightarrow> kva2pa a = t + 8 * word_of_nat k" for k
    by (auto simp: pa2kva_def kva2pa_def algebra_simps)
  then show "clear_pgdir (pa2kva t) (\<lambda>a. m (kva2pa a)) a = clear_pgdir t m (kva2pa a)"
    by (simp add: clear_pgdir_apply)
qed

lemma cancel_view:
  "(\<lambda>a. cancel_temp_pgdir (\<lambda>a. m (kva2pa a)) (pa2kva a)) = (clear_pgdir (get_pa (m (pte_addr PGDIR_PA 1))) m)(pte_addr PGDIR_PA 1 := 0)"
proof -
  have v: "vpn2 0x50000000 = 1" by (simp add: vpn2_def shift_defs)
  have "PGDIR_VA = pa2kva PGDIR_PA" by (simp add: PGDIR_VA_def PGDIR_PA_def pa2kva_def)
  then have a: "pte_addr PGDIR_VA (vpn2 0x50000000) = pa2kva (pte_addr PGDIR_PA 1)" by (simp only: v pa2kva_pte [symmetric])
  have inj: "pa2kva x = pa2kva y \<longleftrightarrow> x = y" for x y by (simp add: pa2kva_def)
  show ?thesis
    by (rule ext) (simp only: cancel_temp_pgdir_def Let_def a kva_pa clear_view fun_upd_apply inj)
qed

lemma cancel_inv:
  assumes inv: "boot_inv ts L (m, b)" and va: "i2 = vpn2 (va AND VA_MASK)" and t: "1 \<in> set ts"
  shows "mmu_walk (\<lambda>a. cancel_temp_pgdir (\<lambda>a. m (kva2pa a)) (pa2kva a)) va = (if i2 = 1 then None else mmu_walk m va)"
proof -
  note D = boot_invD [OF inv]
  obtain k where k: "k < length ts" "ts ! k = 1" using t by (auto simp: in_set_conv_nth)
  have k16: "j < 16" if "j < length ts" for j using that D(2) by simp
  have tab: "get_pa (m (pte_addr PGDIR_PA 1)) = tab k" using D(5) [OF k(1)] k(2) entry_props(1) tab_props(2) [OF k16 [OF k(1)]] by simp
  define m' where "m' = (clear_pgdir (tab k) m)(pte_addr PGDIR_PA 1 := 0)"
  have u: "unat i2 < 512" "unat (vpn1 (va AND VA_MASK)) < 512" using vpn_small va by simp_all
  have root: "m' (pte_addr PGDIR_PA i2) = (if i2 = 1 then 0 else m (pte_addr PGDIR_PA i2))"
    using clear_page [OF tab_props(1) [OF k16 [OF k(1)]] pgdir_aligned u(1)] tab_props(3) [OF k16 [OF k(1)]]
      pte_addr_inj [OF u(1), of 1 PGDIR_PA] by (auto simp: m'_def)
  have other: "m' (pte_addr (tab l) j) = m (pte_addr (tab l) j)" if "l < length ts" "l \<noteq> k" "unat j < 512" for l j
    using clear_page [OF tab_props(1) [OF k16 [OF k(1)]] tab_props(1) [OF k16 [OF that(1)]] that(3)]
      tab_props(4) [OF k16 [OF k(1)] k16 [OF that(1)]] that(2)
      other_page [OF tab_props(1) [OF k16 [OF that(1)]] pgdir_aligned tab_props(3) [OF k16 [OF that(1)]] that(3), of 1] by (auto simp: m'_def)
  have "mmu_walk m' va = (if i2 = 1 then None else mmu_walk m va)"
  proof (cases "i2 = 1 \<or> i2 \<notin> set ts")
    case True
    then show ?thesis using root D(6) [OF u(1)] by (auto simp: mmu_walk_def Let_def va [symmetric] get_attribute_def)
  next
    case False
    then obtain l where l: "l < length ts" "ts ! l = i2" by (auto simp: in_set_conv_nth)
    then have "l \<noteq> k" using False k(2) by auto
    moreover have "get_pa (m (pte_addr PGDIR_PA i2)) = tab l" using D(5) [OF l(1)] l(2) entry_props(1) tab_props(2) [OF k16 [OF l(1)]] by simp
    ultimately show ?thesis using other [OF l(1) _ u(2)] root False by (simp add: mmu_walk_def Let_def va [symmetric])
  qed
  then show ?thesis unfolding cancel_view tab m'_def .
qed

lemma range_map_Some:
  assumes "range_map lo f c n j = Some pa"
  shows "\<exists>k < n. pa = f (lo + 0x200000 * word_of_nat k)"
proof -
  have c: "c \<le> unat j" "unat j < c + n" using assms unfolding range_map_def by (metis option.discI)+
  then have "pa = f (lo + 0x200000 * word_of_nat (unat j - c))" using assms by (simp only: range_map_def if_True simp_thms option.inject)
  moreover have "unat j - c < n" using c by linarith
  ultimately show ?thesis by blast
qed

lemma boot_page:
  assumes "boot_map i j = Some pa"
  shows "page_pa pa"
proof -
  consider "range_map 0x50000000 id 128 8 j = Some pa" | "range_map 0xffffffc050000000 kva2pa 128 128 j = Some pa"
  proof (cases "i = 1")
    case True
    then show ?thesis using assms that(1) by (simp only: boot_map_def fun_upd_same)
  next
    case False
    then have e: "((\<lambda>_. Map.empty)(257 := range_map 0xffffffc050000000 kva2pa 128 128)) i j = Some pa"
      using assms by (simp only: boot_map_def fun_upd_other not_False_eq_True)
    show ?thesis
    proof (cases "i = 257")
      case True
      then show ?thesis using e that(2) by (simp only: fun_upd_same)
    next
      case False
      then show ?thesis using e by (simp only: fun_upd_other not_False_eq_True option.distinct)
    qed
  qed
  then obtain k where k: "k < 128" "pa = 0x50000000 + 0x200000 * word_of_nat k"
  proof cases
    case 1
    then obtain k where "k < 8" "pa = id (0x50000000 + 0x200000 * word_of_nat k)" using range_map_Some by blast
    then show ?thesis using that [of k] by simp
  next
    case 2
    then obtain k where "k < 128" "pa = kva2pa (0xffffffc050000000 + 0x200000 * word_of_nat k)" using range_map_Some by blast
    then show ?thesis using that [of k] by (simp add: kva2pa_def)
  qed
  have "pa = word_of_nat (4096 * (0x50000 + 0x200 * k))" using k(2) by simp
  then have "unat pa = 4096 * (0x50000 + 0x200 * k)" using k(1) by (simp only: unat_of_nat) simp
  then show ?thesis using k(1) by (intro page_paI) simp_all
qed

section \<open>The properties\<close>

text \<open>C11: The page tables that the boot stage builds translate exactly what the kernel relies on: an address of the
  kernel's window to the physical address \<^verbatim>\<open>kva2pa\<close> computes for it, an address of the boot code to itself, and no other
  address. After \<^verbatim>\<open>cancel_temp_pgdir\<close>, which works on the tables through the kernel's window, the window is as before and
  the boot code is no longer mapped.\<close>

theorem boot_maps:
  assumes "canonical va" "setup_vm (m, PGDIR_PA) = (m', b)"
  shows "mmu_walk m' va = (if kernel_va va then Some (kva2pa va) else if boot_va va then Some va else None) \<and>
    mmu_walk (\<lambda>a. cancel_temp_pgdir (\<lambda>a. m' (kva2pa a)) (pa2kva a)) va = (if kernel_va va then Some (kva2pa va) else None)"
proof -
  obtain ts where ts: "boot_inv ts boot_map (m', b)" using setup_vm_inv [of m] unfolding assms(2) by blast
  have w: "mmu_walk m' va = (if kernel_va va then Some (kva2pa va) else if boot_va va then Some va else None)"
    using walk_inv [OF ts refl refl, of va] boot_page boot_map_value [OF assms(1)] by metis
  have "boot_map 1 128 \<noteq> None" by (simp add: boot_map_def range_map_def)
  then have "boot_map 1 \<noteq> Map.empty" by metis
  then have "1 \<in> set ts" using boot_invD(7) [OF ts, of 1] by fastforce
  note c = cancel_inv [OF ts refl this, of va]
  show ?thesis
  proof (cases "kernel_va va")
    case True
    then have "vpn2 (va AND VA_MASK) \<noteq> 1" using kernel_indices [OF assms(1)] by auto
    then show ?thesis using w c True by simp
  next
    case False
    show ?thesis
    proof (cases "boot_va va")
      case True
      then have "vpn2 (va AND VA_MASK) = 1" using boot_indices [OF assms(1)] by auto
      then show ?thesis using w c True False by simp
    qed (use w c False in simp)
  qed
qed

theorem boot_maps_witness:
  "mmu_walk (fst (setup_vm (\<lambda>_. 0, PGDIR_PA))) 0xffffffc052001234 = Some 0x52001234 \<and>
   mmu_walk (fst (setup_vm (\<lambda>_. 0, PGDIR_PA))) 0x60000000 = None"
  using boot_maps [of "0xffffffc052001234" "\<lambda>_. 0", OF _ prod.collapse [symmetric]]
    boot_maps [of "0x60000000" "\<lambda>_. 0", OF _ prod.collapse [symmetric]]
  by (simp add: canonical_def kernel_va_def boot_va_def kva2pa_def)

end
