(* ===== verification/Image.thy ===== *)
theory Image
  imports Process FsInit
begin

text \<open>
  The image builder: src/tools/createimage.c, which joins the boot block, the kernel and the programs to one image
  and leaves in it the table from which the kernel (\<^verbatim>\<open>init_task_info\<close>, \<^verbatim>\<open>load_task_img\<close>) finds them.
  The files are byte lists, given by a function from their names; \<^verbatim>\<open><elf.h>\<close> fixes the layout of the headers. The
  image is the list of the bytes written so far. \<open>None\<close> is a failed assertion, an exit through \<^verbatim>\<open>error\<close>, or a store
  outside of \<^verbatim>\<open>taskinfo\<close>. The counters of type \<^verbatim>\<open>int\<close> are natural numbers: the image is far below \<open>2^31\<close> bytes.
\<close>

unbundle bit_operations_syntax

section \<open>Files\<close>

record elf_ehdr =
  e_entry :: u64
  e_phoff :: u64
  e_phentsize :: u16
  e_phnum :: u16

record elf_phdr =
  p_type :: u32
  p_offset :: u64
  p_filesz :: u64
  p_memsz :: u64

record cfile =
  fc :: bytes
  fpos :: nat

definition PT_LOAD :: u32 where "PT_LOAD = 1"

definition get_u64 :: "nat \<Rightarrow> bytes \<Rightarrow> u64" where
  "get_u64 off bs = word_of_nat (le_val (bget off 8 bs))"

definition ehdr_of :: "bytes \<Rightarrow> elf_ehdr" where
  "ehdr_of h = \<lparr>e_entry = get_u64 24 h, e_phoff = get_u64 32 h, e_phentsize = get_u16 54 h, e_phnum = get_u16 56 h\<rparr>"

definition phdr_of :: "bytes \<Rightarrow> elf_phdr" where
  "phdr_of h = \<lparr>p_type = get_u32 0 h, p_offset = get_u64 8 h, p_filesz = get_u64 32 h, p_memsz = get_u64 40 h\<rparr>"

text \<open>\<^verbatim>\<open>fread\<close> of one object of \<open>n\<close> bytes, and \<^verbatim>\<open>fseek\<close>, which refuses a negative offset.\<close>

definition fread1 :: "nat \<Rightarrow> cfile \<Rightarrow> (bytes \<times> cfile) option" where
  "fread1 n f = (if fpos f + n \<le> length (fc f) then Some (bget (fpos f) n (fc f), f\<lparr>fpos := fpos f + n\<rparr>) else None)"

definition fseek_set :: "u64 \<Rightarrow> cfile \<Rightarrow> cfile" where
  "fseek_set off f = (if unat off < 2 ^ 63 then f\<lparr>fpos := unat off\<rparr> else f)"

definition read_ehdr :: "cfile \<Rightarrow> (elf_ehdr \<times> cfile) option" where
  "read_ehdr f = do {
     (h, f1) \<leftarrow> fread1 64 f;
     c_assert (h ! 1 = 0x45);
     c_assert (h ! 2 = 0x4C);
     c_assert (h ! 3 = 0x46);
     Some (ehdr_of h, f1) }"

definition read_phdr :: "cfile \<Rightarrow> nat \<Rightarrow> elf_ehdr \<Rightarrow> (elf_phdr \<times> cfile) option" where
  "read_phdr f ph eh = do {
     (h, f1) \<leftarrow> fread1 56 (fseek_set (e_phoff eh + word_of_nat (ph * unat (e_phentsize eh))) f);
     Some (phdr_of h, f1) }"

definition get_entrypoint :: "elf_ehdr \<Rightarrow> u64" where "get_entrypoint eh = e_entry eh"
definition get_filesz :: "elf_phdr \<Rightarrow> u32" where "get_filesz ph = ucast (p_filesz ph)"
definition get_memsz :: "elf_phdr \<Rightarrow> u32" where "get_memsz ph = ucast (p_memsz ph)"

section \<open>Writing the image\<close>

text \<open>The loop of \<^verbatim>\<open>write_segment\<close>; behind the end of the file \<^verbatim>\<open>fgetc\<close> gives EOF, which is written as 255.\<close>

fun copy_bytes :: "nat \<Rightarrow> cfile \<Rightarrow> bytes \<Rightarrow> cfile \<times> bytes" where
  "copy_bytes 0 f img = (f, img)"
| "copy_bytes (Suc n) f img =
     (if fpos f < length (fc f) then copy_bytes n (f\<lparr>fpos := Suc (fpos f)\<rparr>) (img @ [fc f ! fpos f])
      else copy_bytes n f (img @ [255]))"

definition write_segment :: "elf_phdr \<Rightarrow> cfile \<Rightarrow> bytes \<Rightarrow> nat \<Rightarrow> cfile \<times> bytes \<times> nat" where
  "write_segment ph f img phyaddr =
     (if p_memsz ph \<noteq> 0 \<and> p_type ph = PT_LOAD then
        (case copy_bytes (unat (p_filesz ph)) (fseek_set (p_offset ph) f) img of
           (f1, img1) \<Rightarrow> (f1, img1, phyaddr + unat (p_filesz ph)))
      else (f, img, phyaddr))"

function write_padding :: "bytes \<Rightarrow> nat \<Rightarrow> nat \<Rightarrow> bytes \<times> nat" where
  "write_padding img phyaddr new = (if phyaddr < new then write_padding (img @ [0]) (phyaddr + 1) new else (img, phyaddr))"
  by pat_completeness auto

termination write_padding
  by (relation "measure (\<lambda>(_, p, n). n - p)") auto

record imgst =
  im_img :: bytes
  im_phyaddr :: nat
  im_kernel :: nat
  im_image :: nat
  im_tasks :: "nat \<Rightarrow> task_info_t"

definition NBYTES2SEC :: "nat \<Rightarrow> nat" where
  "NBYTES2SEC n = n div 512 + (if n mod 512 \<noteq> 0 then 1 else 0)"

definition TASK_INFO_SIZE :: nat where "TASK_INFO_SIZE = 88"

text \<open>The bytes of a \<^verbatim>\<open>task_info_t\<close>.\<close>

definition task_bytes :: "task_info_t \<Rightarrow> bytes" where
  "task_bytes t = ti_name t @ le_bytes 8 (unat (ti_entrypoint t)) @ u32_bytes (ti_sector_num t) @ u32_bytes (ti_firstsector t) @
     u32_bytes (ti_offset t) @ u32_bytes (ti_memsize t)"

text \<open>\<^verbatim>\<open>fseek\<close> and \<^verbatim>\<open>fwrite\<close> on the image; a gap is filled with zeros.\<close>

definition fwrite_at :: "nat \<Rightarrow> bytes \<Rightarrow> bytes \<Rightarrow> bytes" where
  "fwrite_at off xs bs = bput off xs (bs @ replicate (off + length xs - length bs) 0)"

definition OS_SIZE_LOC :: nat where "OS_SIZE_LOC = 0x1fc"
definition TASKNUM_LOC :: nat where "TASKNUM_LOC = 0x1f6"
definition SLAVE_HART_LOC :: nat where "SLAVE_HART_LOC = 0x1f4"
definition IMAGE_SIZE_LOC :: nat where "IMAGE_SIZE_LOC = 0x1f2"

definition write_img_info :: "nat \<Rightarrow> nat \<Rightarrow> (nat \<Rightarrow> task_info_t) \<Rightarrow> nat \<Rightarrow> bytes \<Rightarrow> bytes" where
  "write_img_info nbytes_kernel nbytes_image ti ntasks img = (let
     img1 = fwrite_at (nbytes_kernel + 512) (concat (map (\<lambda>i. task_bytes (ti i)) [0..<ntasks])) img;
     img2 = fwrite_at OS_SIZE_LOC (le_bytes 2 (NBYTES2SEC (nbytes_kernel + TASK_INFO_SIZE * ntasks))) img1;
     img3 = fwrite_at TASKNUM_LOC (le_bytes 2 ntasks @ le_bytes 4 nbytes_kernel) img2;
     img4 = fwrite_at SLAVE_HART_LOC (le_bytes 2 0) img3
   in fwrite_at IMAGE_SIZE_LOC (le_bytes 2 (NBYTES2SEC nbytes_image)) img4)"

text \<open>The loop over the program headers, from number \<open>i\<close> on; \<open>tsize\<close> is \<^verbatim>\<open>taskinfo_size\<close>, \<open>ms\<close> is \<^verbatim>\<open>memsize\<close>.\<close>

fun seg_loop :: "nat \<Rightarrow> nat \<Rightarrow> elf_ehdr \<Rightarrow> bytes \<Rightarrow> nat \<Rightarrow> cfile \<Rightarrow> nat \<Rightarrow> imgst \<Rightarrow> (nat \<times> imgst) option" where
  "seg_loop 0 i eh name tsize f ms s = Some (ms, s)"
| "seg_loop (Suc n) i eh name tsize f ms s = do {
     (ph, f1) \<leftarrow> read_phdr f i eh;
     if p_type ph \<noteq> PT_LOAD then seg_loop n (Suc i) eh name tsize f1 ms s
     else do {
       let (f2, img, pa) = write_segment ph f1 (im_img s) (im_phyaddr s);
       let s1 = s\<lparr>im_img := img, im_phyaddr := pa\<rparr>;
       k \<leftarrow> strcmp name (c_lit ''main'');
       s2 \<leftarrow> (if k = 0 then Some (s1\<lparr>im_kernel := im_kernel s1 + unat (get_filesz ph),
                  im_image := im_image s1 + (unat (get_filesz ph) + tsize)\<rparr>)
              else do {
                b \<leftarrow> strcmp name (c_lit ''bootblock'');
                Some (if b = 0 then s1\<lparr>im_image := im_image s1 + 512\<rparr>
                      else s1\<lparr>im_image := im_image s1 + unat (get_filesz ph)\<rparr>) });
       seg_loop n (Suc i) eh name tsize f2 (ms + unat (get_memsz ph)) s2 } }"

definition pad_file :: "bytes \<Rightarrow> nat \<Rightarrow> imgst \<Rightarrow> imgst option" where
  "pad_file name tsize s = do {
     b \<leftarrow> strcmp name (c_lit ''bootblock'');
     if b = 0 then Some (case write_padding (im_img s) (im_phyaddr s) 512 of (img, pa) \<Rightarrow> s\<lparr>im_img := img, im_phyaddr := pa\<rparr>)
     else do {
       k \<leftarrow> strcmp name (c_lit ''main'');
       if k = 0 then Some (case write_padding (im_img s) (im_phyaddr s) (im_phyaddr s + tsize) of
         (img, pa) \<Rightarrow> s\<lparr>im_img := img, im_phyaddr := pa\<rparr>)
       else Some s } }"

definition task_entry :: "bytes \<Rightarrow> nat \<Rightarrow> nat \<Rightarrow> elf_ehdr \<Rightarrow> nat \<Rightarrow> task_info_t" where
  "task_entry name start phyaddr eh memsize = \<lparr>ti_name = name,
     ti_entrypoint = get_entrypoint eh,
     ti_sector_num = ucast ((ROUND (word_of_nat phyaddr) 512 - ROUNDDOWN (word_of_nat start) 512) div 512),
     ti_firstsector = word_of_nat (start div 512),
     ti_offset = word_of_nat (start mod 512),
     ti_memsize = word_of_nat memsize\<rparr>"

text \<open>The body of the loop over the files, for file number \<open>fidx\<close>.\<close>

definition image_file :: "(bytes \<Rightarrow> bytes option) \<Rightarrow> nat \<Rightarrow> nat \<Rightarrow> bytes \<Rightarrow> imgst \<Rightarrow> imgst option" where
  "image_file fopen tsize fidx name s = do {
     c \<leftarrow> fopen name;
     (eh, f) \<leftarrow> read_ehdr \<lparr>fc = c, fpos = 0\<rparr>;
     (memsize, s1) \<leftarrow> seg_loop (unat (e_phnum eh)) 0 eh name tsize f 0 s;
     s2 \<leftarrow> pad_file name tsize s1;
     if fidx \<ge> 2 then do {
       let i = fidx - 2;
       c_assert (i < TASK_MAXNUM);
       nm \<leftarrow> strcpy (ti_name (im_tasks s2 i)) name;
       Some (s2\<lparr>im_tasks := (im_tasks s2)(i := task_entry nm (im_phyaddr s) (im_phyaddr s2) eh memsize)\<rparr>) }
     else Some s2 }"

fun image_files :: "(bytes \<Rightarrow> bytes option) \<Rightarrow> nat \<Rightarrow> nat \<Rightarrow> bytes list \<Rightarrow> imgst \<Rightarrow> imgst option" where
  "image_files fopen tsize fidx [] s = Some s"
| "image_files fopen tsize fidx (name # names) s = do {
     s1 \<leftarrow> image_file fopen tsize fidx name s;
     image_files fopen tsize (Suc fidx) names s1 }"

text \<open>\<^verbatim>\<open>taskinfo\<close> is a static array.\<close>

definition no_task :: task_info_t where
  "no_task = \<lparr>ti_name = replicate 64 0, ti_entrypoint = 0, ti_sector_num = 0, ti_firstsector = 0, ti_offset = 0, ti_memsize = 0\<rparr>"

definition create_image :: "(bytes \<Rightarrow> bytes option) \<Rightarrow> bytes list \<Rightarrow> bytes option" where
  "create_image fopen files = do {
     let ntasks = length files - 2;
     s \<leftarrow> image_files fopen (ntasks * TASK_INFO_SIZE) 0 files
            \<lparr>im_img = [], im_phyaddr = 0, im_kernel = 0, im_image = 0, im_tasks = \<lambda>_. no_task\<rparr>;
     Some (write_img_info (im_kernel s) (im_image s) (im_tasks s) ntasks (im_img s)) }"

text \<open>\<^verbatim>\<open>main\<close>: the options, then the files; \<open>args\<close> are the arguments behind the name of the program.\<close>

fun image_options :: "bytes list \<Rightarrow> bool \<Rightarrow> bool \<Rightarrow> (bool \<times> bool \<times> bytes list) option" where
  "image_options [] vm ext = Some (vm, ext, [])"
| "image_options (a # as) vm ext = (if take 2 a = [45, 45] then do {
       v \<leftarrow> strcmp (drop 2 a) (c_lit ''vm'');
       if v = 0 then image_options as True ext else do {
         e \<leftarrow> strcmp (drop 2 a) (c_lit ''extended'');
         if e = 0 then image_options as vm True else None } }
     else Some (vm, ext, a # as))"

definition createimage_main :: "(bytes \<Rightarrow> bytes option) \<Rightarrow> bytes list \<Rightarrow> bytes option" where
  "createimage_main fopen args = do {
     (vm, ext, files) \<leftarrow> image_options args False False;
     if vm \<or> length files < 2 then None else create_image fopen files }"

section \<open>What a program file contributes\<close>

text \<open>The headers of a well-formed file, its entry, and the bytes of its loadable segments.\<close>

definition elf_ehdr_at :: "bytes \<Rightarrow> elf_ehdr" where
  "elf_ehdr_at c = ehdr_of (bget 0 64 c)"

definition phdr_off :: "bytes \<Rightarrow> nat \<Rightarrow> nat" where
  "phdr_off c i = unat (e_phoff (elf_ehdr_at c)) + i * unat (e_phentsize (elf_ehdr_at c))"

definition phdr_at :: "bytes \<Rightarrow> nat \<Rightarrow> elf_phdr" where
  "phdr_at c i = phdr_of (bget (phdr_off c i) 56 c)"

definition nphdrs :: "bytes \<Rightarrow> nat" where
  "nphdrs c = unat (e_phnum (elf_ehdr_at c))"

definition elf_ok :: "bytes \<Rightarrow> bool" where
  "elf_ok c \<longleftrightarrow> 64 \<le> length c \<and> length c < 2 ^ 32 \<and> c ! 1 = 0x45 \<and> c ! 2 = 0x4C \<and> c ! 3 = 0x46 \<and>
     (\<forall>i < nphdrs c. phdr_off c i + 56 \<le> length c \<and> (p_type (phdr_at c i) = PT_LOAD \<longrightarrow>
        p_memsz (phdr_at c i) \<noteq> 0 \<and> unat (p_offset (phdr_at c i)) + unat (p_filesz (phdr_at c i)) \<le> length c))"

definition seg_bytes :: "bytes \<Rightarrow> elf_phdr \<Rightarrow> bytes" where
  "seg_bytes c ph = (if p_type ph = PT_LOAD then bget (unat (p_offset ph)) (unat (p_filesz ph)) c else [])"

definition segs_from :: "bytes \<Rightarrow> nat \<Rightarrow> bytes" where
  "segs_from c i = concat (map (\<lambda>j. seg_bytes c (phdr_at c j)) [i..<nphdrs c])"

definition mem_from :: "bytes \<Rightarrow> nat \<Rightarrow> nat" where
  "mem_from c i = sum_list (map (\<lambda>j. if p_type (phdr_at c j) = PT_LOAD then unat (get_memsz (phdr_at c j)) else 0) [i..<nphdrs c])"

definition load_bytes :: "bytes \<Rightarrow> bytes" where
  "load_bytes c = segs_from c 0"

section \<open>The loops\<close>

lemma copy_bytes_eq:
  "fpos f + n \<le> length (fc f) \<Longrightarrow> copy_bytes n f img = (f\<lparr>fpos := fpos f + n\<rparr>, img @ bget (fpos f) n (fc f))"
proof (induction n arbitrary: f img)
  case 0
  show ?case by (simp add: bget_def)
next
  case (Suc n)
  have "bget (fpos f) (Suc n) (fc f) = fc f ! fpos f # bget (Suc (fpos f)) n (fc f)"
    using Suc.prems by (simp add: bget_def Cons_nth_drop_Suc [symmetric])
  then show ?case using Suc by simp
qed

lemma write_padding_eq: "write_padding img p n = (img @ replicate (n - p) 0, max p n)"
proof (induction img p n rule: write_padding.induct)
  case (1 img p n)
  show ?case
  proof (cases "p < n")
    case True
    then have "n - p = Suc (n - Suc p)" by simp
    then show ?thesis using 1 True by (subst write_padding.simps) simp
  qed (subst write_padding.simps, simp)
qed

declare write_padding.simps [simp del]

lemma read_ehdr_ok: "elf_ok c \<Longrightarrow> read_ehdr \<lparr>fc = c, fpos = 0\<rparr> = Some (elf_ehdr_at c, \<lparr>fc = c, fpos = 64\<rparr>)"
  by (simp add: read_ehdr_def fread1_def elf_ok_def elf_ehdr_at_def nth_bget numeral_2_eq_2)

lemma read_phdr_ok:
  assumes "elf_ok c" "i < nphdrs c" "fc f = c"
  shows "read_phdr f i (elf_ehdr_at c) = Some (phdr_at c i, f\<lparr>fpos := phdr_off c i + 56\<rparr>)"
proof -
  have le: "phdr_off c i + 56 \<le> length c" "length c < 2 ^ 32" using assms(1,2) by (simp_all add: elf_ok_def)
  let ?o = "e_phoff (elf_ehdr_at c) + word_of_nat (i * unat (e_phentsize (elf_ehdr_at c)))"
  have "?o = word_of_nat (phdr_off c i)" by (simp add: phdr_off_def)
  then have "unat ?o = phdr_off c i" using le by (simp only: unat_of_nat) simp
  then show ?thesis using le assms(3) by (simp add: read_phdr_def fseek_set_def fread1_def phdr_at_def)
qed

lemma write_segment_ok:
  assumes "elf_ok c" "i < nphdrs c" "fc f = c" "p_type (phdr_at c i) = PT_LOAD"
  shows "\<exists>f'. fc f' = c \<and> write_segment (phdr_at c i) f img p =
    (f', img @ seg_bytes c (phdr_at c i), p + length (seg_bytes c (phdr_at c i)))" "unat (get_filesz (phdr_at c i)) = length (seg_bytes c (phdr_at c i))"
proof -
  let ?h = "phdr_at c i"
  have le: "unat (p_offset ?h) + unat (p_filesz ?h) \<le> length c" "length c < 2 ^ 32" "p_memsz ?h \<noteq> 0"
    using assms(1,2,4) by (simp_all add: elf_ok_def)
  have len: "length (seg_bytes c ?h) = unat (p_filesz ?h)" using le(1) assms(4) by (simp add: seg_bytes_def)
  have "copy_bytes (unat (p_filesz ?h)) (fseek_set (p_offset ?h) f) img =
      (f\<lparr>fpos := unat (p_offset ?h) + unat (p_filesz ?h)\<rparr>, img @ bget (unat (p_offset ?h)) (unat (p_filesz ?h)) c)"
    using le assms(3) by (subst copy_bytes_eq) (simp_all add: fseek_set_def)
  then show "\<exists>f'. fc f' = c \<and> write_segment ?h f img p = (f', img @ seg_bytes c ?h, p + length (seg_bytes c ?h))"
    using le assms(3,4) len by (simp add: write_segment_def seg_bytes_def)
  have "take_bit 32 (unat (p_filesz ?h)) = unat (p_filesz ?h)" using le by (intro take_bit_nat_eq_self) simp
  then show "unat (get_filesz ?h) = length (seg_bytes c ?h)" using len by (simp add: get_filesz_def unsigned_ucast_eq)
qed

lemma from_Suc:
  assumes "i < nphdrs c"
  shows "segs_from c i = seg_bytes c (phdr_at c i) @ segs_from c (Suc i)"
    "mem_from c i = (if p_type (phdr_at c i) = PT_LOAD then unat (get_memsz (phdr_at c i)) else 0) + mem_from c (Suc i)"
proof -
  have "[i..<nphdrs c] = i # [Suc i..<nphdrs c]" using assms by (rule upt_conv_Cons)
  then show "segs_from c i = seg_bytes c (phdr_at c i) @ segs_from c (Suc i)"
    "mem_from c i = (if p_type (phdr_at c i) = PT_LOAD then unat (get_memsz (phdr_at c i)) else 0) + mem_from c (Suc i)"
    by (simp_all add: segs_from_def mem_from_def)
qed

lemma from_end: "segs_from c (nphdrs c) = []" "mem_from c (nphdrs c) = 0"
  by (simp_all add: segs_from_def mem_from_def)

lemma seg_loop_ok:
  assumes "elf_ok c" and nm: "strcmp name (c_lit ''main'') = Some km" "strcmp name (c_lit ''bootblock'') = Some kb"
    and "i + n = nphdrs c" "fc f = c"
  shows "\<exists>im. seg_loop n i (elf_ehdr_at c) name tsize f ms s = Some (ms + mem_from c i,
    s\<lparr>im_img := im_img s @ segs_from c i, im_phyaddr := im_phyaddr s + length (segs_from c i),
      im_kernel := im_kernel s + (if km = 0 then length (segs_from c i) else 0), im_image := im\<rparr>)"
  using assms(4,5)
proof (induction n arbitrary: i f ms s)
  case 0
  then show ?case using from_end by (intro exI [of _ "im_image s"]) simp
next
  case (Suc n)
  have i: "i < nphdrs c" using Suc.prems(1) by simp
  note F = from_Suc [OF i] and R = read_phdr_ok [OF assms(1) i Suc.prems(2)]
  let ?f1 = "f\<lparr>fpos := phdr_off c i + 56\<rparr>" and ?h = "phdr_at c i"
  have f1: "fc ?f1 = c" using Suc.prems(2) by simp
  show ?case
  proof (cases "p_type ?h = PT_LOAD")
    case False
    obtain im where "seg_loop n (Suc i) (elf_ehdr_at c) name tsize ?f1 ms s = Some (ms + mem_from c (Suc i),
        s\<lparr>im_img := im_img s @ segs_from c (Suc i), im_phyaddr := im_phyaddr s + length (segs_from c (Suc i)),
          im_kernel := im_kernel s + (if km = 0 then length (segs_from c (Suc i)) else 0), im_image := im\<rparr>)"
      using Suc.IH [of "Suc i" ?f1 ms s] Suc.prems(1) f1 by auto
    then show ?thesis using R False F by (intro exI [of _ im]) (simp add: seg_bytes_def)
  next
    case True
    let ?b = "seg_bytes c ?h"
    obtain f2 where f2: "fc f2 = c" "write_segment ?h ?f1 (im_img s) (im_phyaddr s) = (f2, im_img s @ ?b, im_phyaddr s + length ?b)"
      using write_segment_ok(1) [OF assms(1) i f1 True] by blast
    note sz = write_segment_ok(2) [OF assms(1) i f1 True]
    define im0 where "im0 = im_image s + (if km = 0 then length ?b + tsize else if kb = 0 then 512 else length ?b)"
    let ?s2 = "s\<lparr>im_img := im_img s @ ?b, im_phyaddr := im_phyaddr s + length ?b,
        im_kernel := im_kernel s + (if km = 0 then length ?b else 0), im_image := im0\<rparr>"
    obtain im where IH: "seg_loop n (Suc i) (elf_ehdr_at c) name tsize f2 (ms + unat (get_memsz ?h)) ?s2 = Some (ms + unat (get_memsz ?h) + mem_from c (Suc i),
        ?s2\<lparr>im_img := im_img ?s2 @ segs_from c (Suc i), im_phyaddr := im_phyaddr ?s2 + length (segs_from c (Suc i)),
          im_kernel := im_kernel ?s2 + (if km = 0 then length (segs_from c (Suc i)) else 0), im_image := im\<rparr>)"
      using Suc.IH [of "Suc i" f2 "ms + unat (get_memsz ?h)" ?s2] Suc.prems(1) f2(1) by auto
    have "seg_loop (Suc n) i (elf_ehdr_at c) name tsize f ms s = seg_loop n (Suc i) (elf_ehdr_at c) name tsize f2 (ms + unat (get_memsz ?h)) ?s2"
      using R True f2(2) nm sz by (simp add: im0_def)
    then show ?thesis using IH F True by (intro exI [of _ im]) simp
  qed
qed

section \<open>One file\<close>

lemma strcmp_ne:
  assumes "cstr as = Some x" "cstr bs = Some y" "x \<noteq> y"
  shows "\<exists>r. strcmp as bs = Some r \<and> r \<noteq> 0"
proof -
  have "strcmp as bs = Some (lex3 x y)" using strcmp_lex3 assms(1,2) by blast
  then show ?thesis using strcmp_eq_0 [OF assms(1,2)] assms(3) by auto
qed

lemma lit_names: "cstr (c_lit ''main'') = Some [109, 97, 105, 110]" "cstr (c_lit ''bootblock'') = Some [98, 111, 111, 116, 98, 108, 111, 99, 107]"
  by (simp_all add: c_lit_def)

lemma lit_cmp:
  "strcmp (c_lit ''main'') (c_lit ''main'') = Some 0" "strcmp (c_lit ''bootblock'') (c_lit ''bootblock'') = Some 0"
  "\<exists>r. strcmp (c_lit ''main'') (c_lit ''bootblock'') = Some r \<and> r \<noteq> 0" "\<exists>r. strcmp (c_lit ''bootblock'') (c_lit ''main'') = Some r \<and> r \<noteq> 0"
  using strcmp_eq_0 [OF lit_names(1,1)] strcmp_eq_0 [OF lit_names(2,2)] strcmp_ne [OF lit_names(1,2)] strcmp_ne [OF lit_names(2,1)] by simp_all

lemma image_boot:
  assumes "fopen (c_lit ''bootblock'') = Some c" "elf_ok c"
  shows "\<exists>im. image_file fopen tsize 0 (c_lit ''bootblock'') s = Some (s\<lparr>
    im_img := im_img s @ load_bytes c @ replicate (512 - (im_phyaddr s + length (load_bytes c))) 0,
    im_phyaddr := max (im_phyaddr s + length (load_bytes c)) 512, im_image := im\<rparr>)"
proof -
  obtain km where km: "strcmp (c_lit ''bootblock'') (c_lit ''main'') = Some km" "km \<noteq> 0" using lit_cmp(4) by blast
  obtain im where "seg_loop (nphdrs c) 0 (elf_ehdr_at c) (c_lit ''bootblock'') tsize \<lparr>fc = c, fpos = 64\<rparr> 0 s = Some (0 + mem_from c 0,
      s\<lparr>im_img := im_img s @ segs_from c 0, im_phyaddr := im_phyaddr s + length (segs_from c 0),
        im_kernel := im_kernel s + (if km = 0 then length (segs_from c 0) else 0), im_image := im\<rparr>)"
    using seg_loop_ok [OF assms(2) km(1) lit_cmp(2), of 0 "nphdrs c" "\<lparr>fc = c, fpos = 64\<rparr>" tsize 0 s] by auto
  then show ?thesis using assms km lit_cmp(2)
    by (intro exI [of _ im]) (simp add: image_file_def read_ehdr_ok nphdrs_def pad_file_def write_padding_eq load_bytes_def)
qed

lemma image_kernel:
  assumes "fopen (c_lit ''main'') = Some c" "elf_ok c"
  shows "\<exists>im. image_file fopen tsize (Suc 0) (c_lit ''main'') s = Some (s\<lparr>
    im_img := im_img s @ load_bytes c @ replicate tsize 0,
    im_phyaddr := im_phyaddr s + length (load_bytes c) + tsize, im_kernel := im_kernel s + length (load_bytes c), im_image := im\<rparr>)"
proof -
  obtain kb where kb: "strcmp (c_lit ''main'') (c_lit ''bootblock'') = Some kb" "kb \<noteq> 0" using lit_cmp(3) by blast
  obtain im where "seg_loop (nphdrs c) 0 (elf_ehdr_at c) (c_lit ''main'') tsize \<lparr>fc = c, fpos = 64\<rparr> 0 s = Some (0 + mem_from c 0,
      s\<lparr>im_img := im_img s @ segs_from c 0, im_phyaddr := im_phyaddr s + length (segs_from c 0),
        im_kernel := im_kernel s + (if (0 :: int) = 0 then length (segs_from c 0) else 0), im_image := im\<rparr>)"
    using seg_loop_ok [OF assms(2) lit_cmp(1) kb(1), of 0 "nphdrs c" "\<lparr>fc = c, fpos = 64\<rparr>" tsize 0 s] by auto
  then show ?thesis using assms kb lit_cmp(1)
    by (intro exI [of _ im]) (simp add: image_file_def read_ehdr_ok nphdrs_def pad_file_def write_padding_eq load_bytes_def)
qed

definition name_field :: "bytes \<Rightarrow> bytes" where
  "name_field x = x @ replicate (64 - length x) 0"

definition prog_entry :: "nat \<Rightarrow> bytes \<times> bytes \<Rightarrow> task_info_t" where
  "prog_entry start p = task_entry (name_field (the (cstr (fst p)))) start (start + length (load_bytes (snd p)))
     (elf_ehdr_at (snd p)) (mem_from (snd p) 0)"

text \<open>A program: the name and the contents of its file.\<close>

definition prog_ok :: "(bytes \<Rightarrow> bytes option) \<Rightarrow> bytes \<times> bytes \<Rightarrow> bool" where
  "prog_ok fopen p \<longleftrightarrow> fopen (fst p) = Some (snd p) \<and> elf_ok (snd p) \<and>
     (case cstr (fst p) of None \<Rightarrow> False | Some x \<Rightarrow> length x < 64 \<and> cstr (c_lit ''main'') \<noteq> Some x \<and> cstr (c_lit ''bootblock'') \<noteq> Some x)"

lemma image_task:
  assumes p: "prog_ok fopen p" and i: "2 \<le> fidx" "fidx - 2 < 16" "im_tasks s (fidx - 2) = no_task"
  shows "\<exists>im. image_file fopen tsize fidx (fst p) s = Some (s\<lparr>
    im_img := im_img s @ load_bytes (snd p), im_phyaddr := im_phyaddr s + length (load_bytes (snd p)), im_image := im,
    im_tasks := (im_tasks s)(fidx - 2 := prog_entry (im_phyaddr s) p)\<rparr>)"
proof -
  let ?c = "snd p"
  obtain x where x: "cstr (fst p) = Some x" "length x < 64" "[109, 97, 105, 110] \<noteq> x" "[98, 111, 111, 116, 98, 108, 111, 99, 107] \<noteq> x"
    using p lit_names by (auto simp: prog_ok_def split: option.splits)
  obtain km kb where k: "strcmp (fst p) (c_lit ''main'') = Some km" "km \<noteq> 0" "strcmp (fst p) (c_lit ''bootblock'') = Some kb" "kb \<noteq> 0"
    using strcmp_ne [OF x(1) lit_names(1)] strcmp_ne [OF x(1) lit_names(2)] x(3,4) by metis
  have c: "fopen (fst p) = Some ?c" "elf_ok ?c" using p by (simp_all add: prog_ok_def)
  obtain im where loop: "seg_loop (nphdrs ?c) 0 (elf_ehdr_at ?c) (fst p) tsize \<lparr>fc = ?c, fpos = 64\<rparr> 0 s = Some (0 + mem_from ?c 0,
      s\<lparr>im_img := im_img s @ segs_from ?c 0, im_phyaddr := im_phyaddr s + length (segs_from ?c 0),
        im_kernel := im_kernel s + (if km = 0 then length (segs_from ?c 0) else 0), im_image := im\<rparr>)"
    using seg_loop_ok [OF c(2) k(1,3), of 0 "nphdrs ?c" "\<lparr>fc = ?c, fpos = 64\<rparr>" tsize 0 s] by auto
  have nm: "strcpy (ti_name no_task) (fst p) = Some (name_field x)"
  proof -
    have "64 - length x = Suc (63 - length x)" using x(2) by simp
    then have "name_field x = x @ 0 # drop (Suc (length x)) (replicate 64 0)" by (simp add: name_field_def)
    then show ?thesis using strcpy_eq [OF x(1), of "replicate 64 0"] x(2) by (simp add: no_task_def)
  qed
  show ?thesis using c k loop nm i x(1)
    by (intro exI [of _ im]) (simp add: image_file_def read_ehdr_ok nphdrs_def [symmetric] pad_file_def load_bytes_def prog_entry_def TASK_MAXNUM_def)
qed

section \<open>All files\<close>

definition progs_bytes :: "(bytes \<times> bytes) list \<Rightarrow> bytes" where
  "progs_bytes ps = concat (map (\<lambda>p. load_bytes (snd p)) ps)"

definition prog_start :: "nat \<Rightarrow> (bytes \<times> bytes) list \<Rightarrow> nat \<Rightarrow> nat" where
  "prog_start base ps k = base + length (progs_bytes (take k ps))"

lemma progs_simps [simp]:
  "progs_bytes [] = []" "progs_bytes (p # ps) = load_bytes (snd p) @ progs_bytes ps"
  by (simp_all add: progs_bytes_def)

lemma image_tasks:
  assumes "\<forall>p \<in> set ps. prog_ok fopen p" "2 \<le> fidx" "fidx - 2 + length ps \<le> 16" "\<forall>k \<ge> fidx - 2. im_tasks s k = no_task"
  shows "\<exists>im T. image_files fopen tsize fidx (map fst ps) s = Some (s\<lparr>
    im_img := im_img s @ progs_bytes ps, im_phyaddr := im_phyaddr s + length (progs_bytes ps), im_image := im, im_tasks := T\<rparr>) \<and>
    (\<forall>k < fidx - 2. T k = im_tasks s k) \<and>
    (\<forall>k < length ps. T (fidx - 2 + k) = prog_entry (prog_start (im_phyaddr s) ps k) (ps ! k))"
  using assms
proof (induction ps arbitrary: fidx s)
  case Nil
  show ?case by (intro exI [of _ "im_image s"] exI [of _ "im_tasks s"]) simp
next
  case (Cons p ps)
  let ?T1 = "(im_tasks s)(fidx - 2 := prog_entry (im_phyaddr s) p)"
  obtain im1 where one: "image_file fopen tsize fidx (fst p) s = Some (s\<lparr>im_img := im_img s @ load_bytes (snd p),
      im_phyaddr := im_phyaddr s + length (load_bytes (snd p)), im_image := im1, im_tasks := ?T1\<rparr>)" (is "_ = Some ?s1")
  proof -
    have "prog_ok fopen p" "fidx - 2 < 16" "im_tasks s (fidx - 2) = no_task" using Cons.prems by simp_all
    then show ?thesis using image_task [OF _ Cons.prems(2), of fopen p s tsize] that by blast
  qed
  have "Suc fidx - 2 = Suc (fidx - 2)" using Cons.prems(2) by simp
  then obtain im T where T: "image_files fopen tsize (Suc fidx) (map fst ps) ?s1 = Some (?s1\<lparr>im_img := im_img ?s1 @ progs_bytes ps,
      im_phyaddr := im_phyaddr ?s1 + length (progs_bytes ps), im_image := im, im_tasks := T\<rparr>)"
    "\<forall>k < Suc (fidx - 2). T k = im_tasks ?s1 k"
    "\<forall>k < length ps. T (Suc (fidx - 2) + k) = prog_entry (prog_start (im_phyaddr ?s1) ps k) (ps ! k)"
    using Cons.IH [of "Suc fidx" ?s1] Cons.prems by fastforce
  have "T (fidx - 2 + k) = prog_entry (prog_start (im_phyaddr s) (p # ps) k) ((p # ps) ! k)" if "k < length (p # ps)" for k
  proof (cases k)
    case 0
    then show ?thesis using T(2) by (simp add: prog_start_def)
  next
    case (Suc j)
    then have "T (fidx - 2 + k) = prog_entry (prog_start (im_phyaddr ?s1) ps j) (ps ! j)" using T(3) that by simp
    moreover have "prog_start (im_phyaddr ?s1) ps j = prog_start (im_phyaddr s) (p # ps) k" by (simp add: prog_start_def Suc)
    ultimately show ?thesis using Suc by simp
  qed
  moreover have "\<forall>k < fidx - 2. T k = im_tasks s k" using T(2) by simp
  ultimately show ?case using one T(1) by (intro exI [of _ im] exI [of _ T]) simp
qed

section \<open>The table\<close>

lemma NBYTES2SEC_ge: "n \<le> 512 * NBYTES2SEC n"
proof -
  have "n = 512 * (n div 512) + n mod 512" "n mod 512 < 512" by simp_all
  then show ?thesis by (cases "n mod 512 = 0") (simp_all add: NBYTES2SEC_def)
qed

lemma fwrite_in: "off + length xs \<le> length bs \<Longrightarrow> fwrite_at off xs bs = bput off xs bs"
  by (simp add: fwrite_at_def)

lemma length_task_bytes: "length (ti_name t) = 64 \<Longrightarrow> length (task_bytes t) = 88"
  by (simp add: task_bytes_def)

text \<open>How the start of the kernel reads the table (src/arch/riscv/kernel/head.S, \<^verbatim>\<open>init_task_info\<close>).\<close>

definition task_of_bytes :: "bytes \<Rightarrow> task_info_t" where
  "task_of_bytes h = \<lparr>ti_name = take 64 h, ti_entrypoint = get_u64 64 h, ti_sector_num = get_u32 72 h,
     ti_firstsector = get_u32 76 h, ti_offset = get_u32 80 h, ti_memsize = get_u32 84 h\<rparr>"

definition image_tasknum :: "bytes \<Rightarrow> nat" where
  "image_tasknum img = le_val (bget 0x1f6 2 img)"

definition image_task_at :: "bytes \<Rightarrow> nat \<Rightarrow> task_info_t" where
  "image_task_at img i = task_of_bytes (bget (512 + le_val (bget 0x1f8 4 img) + 88 * i) 88 img)"

definition image_kernel_sectors :: "bytes \<Rightarrow> nat" where
  "image_kernel_sectors img = le_val (bget 0x1fc 2 img)"

lemma bget_app: "length xs = off \<Longrightarrow> length ys = n \<Longrightarrow> bget off n (xs @ ys @ zs) = ys"
  by (simp add: bget_def)

lemma bget_app2: "length xs \<le> off \<Longrightarrow> bget off n (xs @ ys) = bget (off - length xs) n ys"
  by (simp add: bget_def)

lemma get_fields:
  "length xs = off \<Longrightarrow> get_u32 off (xs @ u32_bytes v @ zs) = v"
  "length xs = off \<Longrightarrow> get_u64 off (xs @ le_bytes 8 (unat w) @ zs) = (w :: u64)"
proof -
  have w: "unat w < 256 ^ 8" using unsigned_less [of w, where 'a = nat] by simp
  show "length xs = off \<Longrightarrow> get_u32 off (xs @ u32_bytes v @ zs) = v" by (simp add: get_u32_def bget_app)
  show "length xs = off \<Longrightarrow> get_u64 off (xs @ le_bytes 8 (unat w) @ zs) = w"
    using w by (simp add: get_u64_def bget_app le_val_le_bytes)
qed

lemma task_of_task_bytes:
  assumes "length (ti_name t) = 64"
  shows "task_of_bytes (task_bytes t) = t"
proof -
  let ?e = "le_bytes 8 (unat (ti_entrypoint t))" and ?s = "u32_bytes (ti_sector_num t)" and ?f = "u32_bytes (ti_firstsector t)"
    and ?o = "u32_bytes (ti_offset t)" and ?m = "u32_bytes (ti_memsize t)"
  have "get_u64 64 (task_bytes t) = ti_entrypoint t" unfolding task_bytes_def by (rule get_fields) (use assms in simp)
  moreover have "get_u32 72 ((ti_name t @ ?e) @ ?s @ ?f @ ?o @ ?m) = ti_sector_num t" by (rule get_fields) (use assms in simp)
  moreover have "get_u32 76 ((ti_name t @ ?e @ ?s) @ ?f @ ?o @ ?m) = ti_firstsector t" by (rule get_fields) (use assms in simp)
  moreover have "get_u32 80 ((ti_name t @ ?e @ ?s @ ?f) @ ?o @ ?m) = ti_offset t" by (rule get_fields) (use assms in simp)
  moreover have "get_u32 84 ((ti_name t @ ?e @ ?s @ ?f @ ?o) @ ?m @ []) = ti_memsize t" by (rule get_fields) (use assms in simp)
  moreover have "take 64 (task_bytes t) = ti_name t" using assms by (simp add: task_bytes_def)
  ultimately show ?thesis by (simp add: task_of_bytes_def task_bytes_def)
qed

lemma concat_slots:
  assumes "\<forall>i < n. length (g i) = w"
  shows "length (concat (map g [0..<n])) = w * n \<and> (i < n \<longrightarrow> bget (w * i) w (concat (map g [0..<n])) = g i)"
  using assms
proof (induction n)
  case (Suc n)
  then have IH: "length (concat (map g [0..<n])) = w * n" "i < n \<longrightarrow> bget (w * i) w (concat (map g [0..<n])) = g i" and gn: "length (g n) = w" by simp_all
  have "bget (w * i) w (concat (map g [0..<n]) @ g n) = g i" if "i < Suc n"
  proof (cases "i = n")
    case True
    then show ?thesis using IH(1) gn by (simp add: bget_def)
  next
    case False
    then have i: "i < n" using that by simp
    then have "w * i + w \<le> w * n" using mult_le_mono2 [of "Suc i" n w] by simp
    then show ?thesis using IH i by (simp add: bget_def)
  qed
  then show ?case using IH gn by simp
qed simp

section \<open>The finished image\<close>

lemma unat_small: "n < 2 ^ 64 \<Longrightarrow> unat (word_of_nat n :: u64) = n" "n < 2 ^ 32 \<Longrightarrow> unat (word_of_nat n :: u32) = n"
  by (simp_all only: unat_of_nat) simp_all

lemma round_sectors:
  assumes "n < 2 ^ 24"
  shows "unat (ROUND (word_of_nat n) 512) = (n + 511) div 512 * 512" "unat (ROUNDDOWN (word_of_nat n) 512) = n div 512 * 512"
proof -
  have m: "(512 - 1 :: u64) = mask 9" by (simp add: mask_eq_exp_minus_1)
  have "word_of_nat n + 512 - 1 = (word_of_nat (n + 511) :: u64)" by simp
  moreover have "unat (word_of_nat (n + 511) :: u64) = n + 511" "unat (word_of_nat n :: u64) = n"
    using assms by (intro unat_small; simp)+
  ultimately show "unat (ROUND (word_of_nat n) 512) = (n + 511) div 512 * 512" "unat (ROUNDDOWN (word_of_nat n) 512) = n div 512 * 512"
    unfolding ROUND_def ROUNDDOWN_def m unat_and_not_mask by (simp_all add: add.commute)
qed

lemma entry_sectors:
  assumes "start + n < 2 ^ 24"
  shows "unat (ti_firstsector (task_entry nm start (start + n) eh ms)) = start div 512"
    "unat (ti_offset (task_entry nm start (start + n) eh ms)) = start mod 512"
    "start mod 512 + n \<le> 512 * unat (ti_sector_num (task_entry nm start (start + n) eh ms))"
    "512 * (start div 512 + unat (ti_sector_num (task_entry nm start (start + n) eh ms))) \<le> start + n + 511"
proof -
  show "unat (ti_firstsector (task_entry nm start (start + n) eh ms)) = start div 512"
    "unat (ti_offset (task_entry nm start (start + n) eh ms)) = start mod 512"
    using assms by (simp_all add: task_entry_def unat_small)
  let ?a = "ROUND (word_of_nat (start + n)) 512" and ?b = "ROUNDDOWN (word_of_nat start) 512"
  define q where "q = (start + n + 511) div 512"
  have a: "unat ?a = q * 512" using round_sectors(1) [OF assms] by (simp add: q_def)
  have b: "unat ?b = start div 512 * 512" using round_sectors(2) [of start] assms by simp
  have d: "start = 512 * (start div 512) + start mod 512" by simp
  have q: "start + n \<le> 512 * q" "q < 2 ^ 16" "512 * q \<le> start + n + 511"
  proof -
    have "512 * q + (start + n + 511) mod 512 = start + n + 511" by (simp add: q_def)
    moreover have "(start + n + 511) mod 512 < 512" by simp
    ultimately show "start + n \<le> 512 * q" "q < 2 ^ 16" "512 * q \<le> start + n + 511" using assms by simp_all
  qed
  have le: "start div 512 \<le> q" using d q(1) by linarith
  then have "?b \<le> ?a" unfolding word_le_nat_alt a b by simp
  then have "unat (?a - ?b) = q * 512 - start div 512 * 512" using a b by (simp add: unat_sub)
  then have "unat ((?a - ?b) div 512) = q - start div 512" by (simp add: unat_div diff_mult_distrib [symmetric])
  moreover have "q - start div 512 < 2 ^ 32" using q(2) by simp
  ultimately have sn: "unat (ti_sector_num (task_entry nm start (start + n) eh ms)) = q - start div 512"
    by (simp add: task_entry_def unsigned_ucast_eq take_bit_nat_eq_self)
  then show "start mod 512 + n \<le> 512 * unat (ti_sector_num (task_entry nm start (start + n) eh ms))"
    using d q(1) le unfolding diff_mult_distrib2 by linarith
  show "512 * (start div 512 + unat (ti_sector_num (task_entry nm start (start + n) eh ms))) \<le> start + n + 511"
    unfolding sn using q(3) le by simp
qed

lemma img_info:
  assumes B: "length B = 512" and K: "length K = k" and T: "\<forall>i < n. length (ti_name (T i)) = 64"
    and n: "n \<le> 16" "k < 2 ^ 24" "img = write_img_info k im T n (B @ K @ replicate (88 * n) 0 @ P)"
  shows "take 0x1f2 img = take 0x1f2 B" "bget 512 k img = K" "image_tasknum img = n" "image_kernel_sectors img = NBYTES2SEC (k + 88 * n) mod 65536"
    "i < n \<Longrightarrow> image_task_at img i = T i" "512 + k + 88 * n \<le> o' \<Longrightarrow> bget o' w img = bget o' w (B @ K @ replicate (88 * n) 0 @ P)"
    "length img = 512 + k + 88 * n + length P"
proof -
  define A where "A = B @ K @ replicate (88 * n) 0 @ P"
  let ?T = "concat (map (\<lambda>i. task_bytes (T i)) [0..<n])"
  have slots: "length ?T = 88 * n" "i < n \<longrightarrow> bget (88 * i) 88 ?T = task_bytes (T i)" for i
    using concat_slots [of n "\<lambda>i. task_bytes (T i)" 88 i] T by (simp_all add: length_task_bytes)
  have len: "512 + k + 88 * n \<le> length A" using B K by (simp add: A_def)
  define i1 where "i1 = bput (k + 512) ?T A"
  define i2 where "i2 = bput 0x1fc (le_bytes 2 (NBYTES2SEC (k + 88 * n))) i1"
  define i3 where "i3 = bput 0x1f6 (le_bytes 2 n @ le_bytes 4 k) i2"
  define i4 where "i4 = bput 0x1f4 (le_bytes 2 0) i3"
  have l: "length i1 = length A" "length i2 = length A" "length i3 = length A" "length i4 = length A"
    using len slots(1) by (simp_all add: i1_def i2_def i3_def i4_def)
  have img: "img = bput 0x1f2 (le_bytes 2 (NBYTES2SEC im)) i4"
    unfolding n(3) A_def [symmetric] write_img_info_def Let_def OS_SIZE_LOC_def TASKNUM_LOC_def SLAVE_HART_LOC_def IMAGE_SIZE_LOC_def TASK_INFO_SIZE_def
    using len slots(1) l by (simp add: fwrite_in i1_def [symmetric] i2_def [symmetric] i3_def [symmetric] i4_def [symmetric])
  show "length img = 512 + k + 88 * n + length P" unfolding img using len l B K by (simp add: A_def)
  have hi: "bget o' w img = bget o' w i1" if "512 \<le> o'" for o' w
    unfolding img using that len l by (simp add: bget_bput_other i4_def i3_def i2_def)
  show low: "take 0x1f2 img = take 0x1f2 B"
  proof -
    have "take 0x1f2 img = bget 0 0x1f2 A" unfolding bget_0_take [symmetric] img using len l slots(1)
      by (simp add: bget_bput_other i4_def i3_def i2_def i1_def)
    then show ?thesis using B by (simp add: A_def bget_def)
  qed
  show "bget 512 k img = K" unfolding hi [OF order_refl] using len slots(1) B K
    by (simp add: i1_def bget_bput_other) (simp add: A_def bget_app)
  have f6: "bget 0x1f6 6 img = le_bytes 2 n @ le_bytes 4 k" unfolding img using len l
    by (simp add: bget_bput_other i4_def) (simp add: i3_def bget_bput_same)
  have "bget 0x1f6 2 img = bget 0 2 (bget 0x1f6 6 img)" "bget 0x1f8 4 img = bget 2 4 (bget 0x1f6 6 img)"
    by (simp_all add: bget_bget)
  then have f: "bget 0x1f6 2 img = le_bytes 2 n" "bget 0x1f8 4 img = le_bytes 4 k" unfolding f6 by (simp_all add: bget_def)
  show "image_tasknum img = n" using n(1) by (simp add: image_tasknum_def f le_val_le_bytes)
  have "bget 0x1fc 2 img = le_bytes 2 (NBYTES2SEC (k + 88 * n))" unfolding img using len l
    by (simp add: bget_bput_other i4_def i3_def) (simp add: i2_def bget_bput_same)
  then show "image_kernel_sectors img = NBYTES2SEC (k + 88 * n) mod 65536" by (simp add: image_kernel_sectors_def le_val_le_bytes)
  show "512 + k + 88 * n \<le> o' \<Longrightarrow> bget o' w img = bget o' w (B @ K @ replicate (88 * n) 0 @ P)"
    using hi [of o' w] len slots(1) by (simp add: i1_def bget_bput_other A_def [symmetric])
  show "image_task_at img i = T i" if "i < n"
  proof -
    have "88 * i + 88 \<le> 88 * n" using that by simp
    have "le_val (bget 0x1f8 4 img) = k" using n(2) by (simp add: f le_val_le_bytes)
    then have "image_task_at img i = task_of_bytes (bget (512 + k + 88 * i) 88 i1)" using hi [of "512 + k + 88 * i" 88] by (simp add: image_task_at_def)
    also have "bget (512 + k + 88 * i) 88 i1 = bget (88 * i) 88 (bget (k + 512) (88 * n) i1)"
      using \<open>88 * i + 88 \<le> 88 * n\<close> by (simp add: bget_bget add.commute add.left_commute)
    also have "\<dots> = task_bytes (T i)" using slots that len by (simp add: i1_def bget_bput_same)
    finally show ?thesis using task_of_task_bytes T that by simp
  qed
qed

text \<open>What \<^verbatim>\<open>load_task_img\<close> has at the entry point: the sectors of the program without the offset.\<close>

definition loaded :: "bytes \<Rightarrow> task_info_t \<Rightarrow> bytes" where
  "loaded img t = drop (unat (ti_offset t)) (bget (512 * unat (ti_firstsector t)) (512 * unat (ti_sector_num t)) img)"

lemma loaded_prefix:
  assumes "t = prog_entry start p" "start + length (load_bytes (snd p)) < 2 ^ 24"
    and "bget start (length (load_bytes (snd p))) img = load_bytes (snd p)"
  shows "take (length (load_bytes (snd p))) (loaded img t) = load_bytes (snd p)"
proof -
  let ?n = "length (load_bytes (snd p))"
  note S = entry_sectors [OF assms(2), where nm = "name_field (the (cstr (fst p)))" and eh = "elf_ehdr_at (snd p)" and ms = "mem_from (snd p) 0",
    folded prog_entry_def assms(1)]
  have "take ?n (loaded img t) = bget (start mod 512) ?n (bget (512 * (start div 512)) (512 * unat (ti_sector_num t)) img)"
    by (simp add: loaded_def S(1,2) bget_def)
  also have "\<dots> = bget start ?n img" using S(3) by (simp add: bget_bget)
  finally show ?thesis using assms(3) by simp
qed

lemma bget_progs:
  assumes "k < length ps"
  shows "bget (length (progs_bytes (take k ps))) (length (load_bytes (snd (ps ! k)))) (progs_bytes ps) = load_bytes (snd (ps ! k))"
proof -
  have "ps = take k ps @ ps ! k # drop (Suc k) ps" using assms by (rule id_take_nth_drop)
  then have "progs_bytes ps = progs_bytes (take k ps) @ load_bytes (snd (ps ! k)) @ progs_bytes (drop (Suc k) ps)"
    by (metis concat_append map_append progs_bytes_def progs_simps(2))
  then show ?thesis by (simp add: bget_app)
qed

lemma prog_room:
  assumes "k < length ps"
  shows "length (progs_bytes (take k ps)) + length (load_bytes (snd (ps ! k))) \<le> length (progs_bytes ps)"
proof -
  have "ps = take k ps @ ps ! k # drop (Suc k) ps" using assms by (rule id_take_nth_drop)
  then have "progs_bytes ps = progs_bytes (take k ps) @ load_bytes (snd (ps ! k)) @ progs_bytes (drop (Suc k) ps)"
    by (metis concat_append map_append progs_bytes_def progs_simps(2))
  then show ?thesis by simp
qed

lemma name_field_props: "cstr (fst p) = Some x \<Longrightarrow> length x < 64 \<Longrightarrow> cstr (name_field (the (cstr (fst p)))) = cstr (fst p)"
  "cstr (fst p) = Some x \<Longrightarrow> length x < 64 \<Longrightarrow> length (name_field (the (cstr (fst p)))) = 64"
proof -
  assume x: "cstr (fst p) = Some x" "length x < 64"
  then have "64 - length x = Suc (63 - length x)" by simp
  moreover have "0 \<notin> set x" using cstr_decomp [OF x(1)] by auto
  ultimately show "cstr (name_field (the (cstr (fst p)))) = cstr (fst p)" using x by (simp add: name_field_def)
  show "length (name_field (the (cstr (fst p)))) = 64" using x by (simp add: name_field_def)
qed

lemma no_options: "image_options (c_lit ''bootblock'' # as) False False = Some (False, False, c_lit ''bootblock'' # as)"
  by (simp add: c_lit_def)

lemma image_built:
  assumes boot: "fopen (c_lit ''bootblock'') = Some cb" "elf_ok cb" "length (load_bytes cb) \<le> 512"
    and kernel: "fopen (c_lit ''main'') = Some ck" "elf_ok ck"
    and progs: "\<forall>p \<in> set ps. prog_ok fopen p" "length ps \<le> 16"
  shows "\<exists>im T. createimage_main fopen (c_lit ''bootblock'' # c_lit ''main'' # map fst ps) =
      Some (write_img_info (length (load_bytes ck)) im T (length ps)
        ((load_bytes cb @ replicate (512 - length (load_bytes cb)) 0) @ load_bytes ck @ replicate (88 * length ps) 0 @ progs_bytes ps)) \<and>
    (\<forall>k < length ps. T k = prog_entry (prog_start (512 + length (load_bytes ck) + length ps * 88) ps k) (ps ! k))"
proof -
  let ?n = "length ps" and ?k = "length (load_bytes ck)" and ?fs = "c_lit ''bootblock'' # c_lit ''main'' # map fst ps"
  define s0 where "s0 = \<lparr>im_img = [], im_phyaddr = 0, im_kernel = 0, im_image = 0, im_tasks = \<lambda>_. no_task\<rparr>"
  define B where "B = load_bytes cb @ replicate (512 - length (load_bytes cb)) 0"
  obtain im1 where 1: "image_file fopen (?n * 88) 0 (c_lit ''bootblock'') s0 = Some (s0\<lparr>im_img := B, im_phyaddr := 512, im_image := im1\<rparr>)" (is "_ = Some ?s1")
    using image_boot [where fopen = fopen, OF boot(1,2), of "?n * 88" s0] boot(3) by (auto simp: s0_def B_def max_def)
  obtain im2 where 2: "image_file fopen (?n * 88) (Suc 0) (c_lit ''main'') ?s1 = Some (?s1\<lparr>im_img := B @ load_bytes ck @ replicate (?n * 88) 0,
      im_phyaddr := 512 + ?k + ?n * 88, im_kernel := ?k, im_image := im2\<rparr>)" (is "_ = Some ?s2")
    using image_kernel [where fopen = fopen, OF kernel, of "?n * 88" ?s1] by (auto simp: s0_def)
  have pre: "2 - 2 + length ps \<le> 16" "\<forall>k \<ge> 2 - 2. im_tasks ?s2 k = no_task" using progs(2) by (simp_all add: s0_def)
  obtain im T where 3: "image_files fopen (?n * 88) 2 (map fst ps) ?s2 = Some (?s2\<lparr>im_img := im_img ?s2 @ progs_bytes ps,
      im_phyaddr := im_phyaddr ?s2 + length (progs_bytes ps), im_image := im, im_tasks := T\<rparr>)"
    and T: "\<forall>k < length ps. T k = prog_entry (prog_start (512 + ?k + ?n * 88) ps k) (ps ! k)"
    using image_tasks [OF progs(1) order_refl pre, of "?n * 88"] by auto
  have "image_files fopen (?n * 88) 0 ?fs s0 =
      Some (?s2\<lparr>im_img := im_img ?s2 @ progs_bytes ps, im_phyaddr := im_phyaddr ?s2 + length (progs_bytes ps), im_image := im, im_tasks := T\<rparr>)"
    using 1 2 3 by (simp add: numeral_2_eq_2)
  moreover have "length ?fs - 2 = ?n" by simp
  ultimately have "create_image fopen ?fs = Some (write_img_info ?k im T ?n (B @ load_bytes ck @ replicate (88 * ?n) 0 @ progs_bytes ps))"
    unfolding create_image_def Let_def TASK_INFO_SIZE_def s0_def [symmetric] by (simp add: mult.commute)
  then have "createimage_main fopen ?fs = Some (write_img_info ?k im T ?n (B @ load_bytes ck @ replicate (88 * ?n) 0 @ progs_bytes ps))"
    unfolding createimage_main_def no_options by simp
  then show ?thesis using T unfolding B_def by blast
qed

lemma prog_entry_fields:
  assumes "prog_ok fopen p" "t = prog_entry start p"
  shows "cstr (ti_name t) = cstr (fst p)" "length (ti_name t) = 64" "ti_entrypoint t = e_entry (elf_ehdr_at (snd p))"
    "ti_memsize t = word_of_nat (mem_from (snd p) 0)"
proof -
  obtain x where x: "cstr (fst p) = Some x" "length x < 64" using assms(1) by (auto simp: prog_ok_def split: option.splits)
  have n: "ti_name t = name_field (the (cstr (fst p)))" using assms(2) by (simp add: prog_entry_def task_entry_def)
  show "cstr (ti_name t) = cstr (fst p)" "length (ti_name t) = 64" unfolding n using name_field_props [OF x] by simp_all
  show "ti_entrypoint t = e_entry (elf_ehdr_at (snd p))" "ti_memsize t = word_of_nat (mem_from (snd p) 0)"
    using assms(2) by (simp_all add: prog_entry_def task_entry_def get_entrypoint_def)
qed

lemma image_made:
  assumes boot: "fopen (c_lit ''bootblock'') = Some cb" "elf_ok cb" "length (load_bytes cb) \<le> 0x1f2"
    and kernel: "fopen (c_lit ''main'') = Some ck" "elf_ok ck"
    and progs: "\<forall>p \<in> set ps. prog_ok fopen p" "length ps \<le> 16"
    and small: "512 + length (load_bytes ck) + 88 * length ps + length (progs_bytes ps) < 0xFFFE00"
  obtains img st where "createimage_main fopen (c_lit ''bootblock'' # c_lit ''main'' # map fst ps) = Some img"
    "take (length (load_bytes cb)) img = load_bytes cb" "bget 512 (length (load_bytes ck)) img = load_bytes ck"
    "length (load_bytes ck) + 88 * length ps \<le> 512 * image_kernel_sectors img" "image_tasknum img = length ps" "length img < 0xFFFE00"
    "\<forall>k < length ps. image_task_at img k = prog_entry (st k) (ps ! k) \<and> st k + length (load_bytes (snd (ps ! k))) < 2 ^ 24 \<and>
       st k + length (load_bytes (snd (ps ! k))) \<le> length img \<and>
       bget (st k) (length (load_bytes (snd (ps ! k)))) img = load_bytes (snd (ps ! k))"
proof -
  let ?n = "length ps" and ?k = "length (load_bytes ck)"
  define st where "st = prog_start (512 + ?k + ?n * 88) ps"
  define B where "B = load_bytes cb @ replicate (512 - length (load_bytes cb)) 0"
  have B: "length B = 512" "length (load_bytes cb) \<le> 512" using boot(3) by (simp_all add: B_def)
  obtain im T where run: "createimage_main fopen (c_lit ''bootblock'' # c_lit ''main'' # map fst ps) =
      Some (write_img_info ?k im T ?n (B @ load_bytes ck @ replicate (88 * ?n) 0 @ progs_bytes ps))"
    and T: "\<forall>k < ?n. T k = prog_entry (st k) (ps ! k)"
    using image_built [where fopen = fopen, OF boot(1,2) B(2) kernel progs] unfolding B_def st_def by blast
  define img where "img = write_img_info ?k im T ?n (B @ load_bytes ck @ replicate (88 * ?n) 0 @ progs_bytes ps)"
  have k: "?k < 2 ^ 24" using small by simp
  have names: "\<forall>i < ?n. length (ti_name (T i)) = 64" using prog_entry_fields(2) [of fopen] T progs(1) by (metis nth_mem)
  note I = img_info [OF B(1) refl names progs(2) k img_def]
  have sec: "NBYTES2SEC (?k + 88 * ?n) < 65536" using small by (simp add: NBYTES2SEC_def) linarith
  have entry: "image_task_at img j = prog_entry (st j) (ps ! j) \<and> st j + length (load_bytes (snd (ps ! j))) < 2 ^ 24 \<and>
       st j + length (load_bytes (snd (ps ! j))) \<le> length img \<and>
      bget (st j) (length (load_bytes (snd (ps ! j)))) img = load_bytes (snd (ps ! j))" if j: "j < ?n" for j
  proof -
    let ?len = "length (load_bytes (snd (ps ! j)))"
    have "bget (st j) ?len img = bget (st j) ?len ((B @ load_bytes ck @ replicate (88 * ?n) 0) @ progs_bytes ps)"
      using I(6) [of "st j" ?len] by (simp add: st_def prog_start_def)
    also have "\<dots> = load_bytes (snd (ps ! j))" using bget_progs [OF j] B(1) by (subst bget_app2) (simp_all add: st_def prog_start_def)
    finally show ?thesis using T j I(5) [OF j] I(7) prog_room [OF j] small by (simp add: st_def prog_start_def)
  qed
  show thesis
  proof (rule that)
    show "take (length (load_bytes cb)) img = load_bytes cb"
      using arg_cong [OF I(1), of "take (length (load_bytes cb))"] boot(3) by (simp add: B_def min_absorb1)
    show "length (load_bytes ck) + 88 * ?n \<le> 512 * image_kernel_sectors img"
      using NBYTES2SEC_ge [of "?k + 88 * ?n"] sec I(4) by simp
    show "\<forall>k < ?n. image_task_at img k = prog_entry (st k) (ps ! k) \<and> st k + length (load_bytes (snd (ps ! k))) < 2 ^ 24 \<and>
       st k + length (load_bytes (snd (ps ! k))) \<le> length img \<and>
        bget (st k) (length (load_bytes (snd (ps ! k)))) img = load_bytes (snd (ps ! k))" using entry by blast
    show "length img < 0xFFFE00" using I(7) small by simp
  qed (use run I(2,3) in \<open>simp_all add: img_def\<close>)
qed

text \<open>C13: The image that createimage builds from a boot block, a kernel and up to sixteen programs, as long as it stays
  below 16 MB, is what the boot path and the loader expect: the boot block at its start, the kernel's segments in the
  sectors that follow, whose number at 0x1fc covers the kernel and the table, the number of programs at 0x1f6, and for
  every program an entry with its name, its entry point and its size in memory such that the sectors the entry names,
  without its offset, begin with the program's segments.\<close>

theorem image_layout:
  assumes boot: "fopen (c_lit ''bootblock'') = Some cb" "elf_ok cb" "length (load_bytes cb) \<le> 0x1f2"
    and kernel: "fopen (c_lit ''main'') = Some ck" "elf_ok ck"
    and progs: "\<forall>p \<in> set ps. prog_ok fopen p" "length ps \<le> 16"
    and small: "512 + length (load_bytes ck) + 88 * length ps + length (progs_bytes ps) < 0xFFFE00"
  shows "\<exists>img. createimage_main fopen (c_lit ''bootblock'' # c_lit ''main'' # map fst ps) = Some img \<and>
    take (length (load_bytes cb)) img = load_bytes cb \<and>
    bget 512 (length (load_bytes ck)) img = load_bytes ck \<and>
    length (load_bytes ck) + 88 * length ps \<le> 512 * image_kernel_sectors img \<and>
    image_tasknum img = length ps \<and>
    (\<forall>k < length ps. let t = image_task_at img k; p = ps ! k in
       cstr (ti_name t) = cstr (fst p) \<and> ti_entrypoint t = e_entry (elf_ehdr_at (snd p)) \<and> ti_memsize t = word_of_nat (mem_from (snd p) 0) \<and>
       take (length (load_bytes (snd p))) (loaded img t) = load_bytes (snd p))"
proof -
  obtain img st where img: "createimage_main fopen (c_lit ''bootblock'' # c_lit ''main'' # map fst ps) = Some img"
    "take (length (load_bytes cb)) img = load_bytes cb" "bget 512 (length (load_bytes ck)) img = load_bytes ck"
    "length (load_bytes ck) + 88 * length ps \<le> 512 * image_kernel_sectors img" "image_tasknum img = length ps" "length img < 0xFFFE00"
    and T: "\<forall>k < length ps. image_task_at img k = prog_entry (st k) (ps ! k) \<and> st k + length (load_bytes (snd (ps ! k))) < 2 ^ 24 \<and>
       st k + length (load_bytes (snd (ps ! k))) \<le> length img \<and>
       bget (st k) (length (load_bytes (snd (ps ! k)))) img = load_bytes (snd (ps ! k))"
    using image_made [OF assms] .
  have "let t = image_task_at img k; p = ps ! k in cstr (ti_name t) = cstr (fst p) \<and> ti_entrypoint t = e_entry (elf_ehdr_at (snd p)) \<and>
      ti_memsize t = word_of_nat (mem_from (snd p) 0) \<and> take (length (load_bytes (snd p))) (loaded img t) = load_bytes (snd p)" if k: "k < length ps" for k
    using T k prog_entry_fields [of fopen "ps ! k", OF _ refl, of "st k"] loaded_prefix [OF refl, of "st k" "ps ! k" img] progs(1) by (simp add: Let_def)
  then show ?thesis using img by blast
qed

text \<open>A file with one segment of one byte.\<close>

definition demo_elf :: bytes where
  "demo_elf = [127, 69, 76, 70, 0, 0, 0, 0, 0, 0, 0, 0, 0, 0, 0, 0, 0, 0, 0, 0, 0, 0, 0, 0, 0, 0, 1, 0, 0, 0, 0, 0, 64, 0, 0,
     0, 0, 0, 0, 0, 0, 0, 0, 0, 0, 0, 0, 0, 0, 0, 0, 0, 0, 0, 56, 0, 1, 0, 0, 0, 0, 0, 0, 0, 1, 0, 0, 0, 0, 0, 0,
     0, 120, 0, 0, 0, 0, 0, 0, 0, 0, 0, 0, 0, 0, 0, 0, 0, 0, 0, 0, 0, 0, 0, 0, 0, 1, 0, 0, 0, 0, 0, 0, 0, 1, 0, 0,
     0, 0, 0, 0, 0, 0, 0, 0, 0, 0, 0, 0, 0, 7]"

lemma demo_elf_facts:
  "elf_ok demo_elf" "load_bytes demo_elf = [7]" "e_entry (elf_ehdr_at demo_elf) = 0x10000" "mem_from demo_elf 0 = 1"
  "\<forall>i < nphdrs demo_elf. unat (p_filesz (phdr_at demo_elf i)) \<le> unat (get_memsz (phdr_at demo_elf i))"
proof -
  have e: "elf_ehdr_at demo_elf = \<lparr>e_entry = 0x10000, e_phoff = 64, e_phentsize = 56, e_phnum = 1\<rparr>"
    by (simp add: elf_ehdr_at_def ehdr_of_def demo_elf_def get_u64_def get_u16_def bget_def)
  have o: "phdr_off demo_elf 0 = 64" "nphdrs demo_elf = 1" by (simp_all add: phdr_off_def nphdrs_def e)
  have h: "phdr_at demo_elf 0 = \<lparr>p_type = 1, p_offset = 120, p_filesz = 1, p_memsz = 1\<rparr>"
    unfolding phdr_at_def o(1) by (simp add: phdr_of_def demo_elf_def get_u64_def get_u32_def bget_def)
  have l: "length demo_elf = 121" "demo_elf ! 1 = 0x45" "demo_elf ! 2 = 0x4C" "demo_elf ! 3 = 0x46" "bget 120 1 demo_elf = [7]"
    by (simp_all add: demo_elf_def bget_def)
  show "elf_ok demo_elf" using o h l by (simp add: elf_ok_def PT_LOAD_def)
  show "load_bytes demo_elf = [7]" using l(5) by (simp add: load_bytes_def segs_from_def o h seg_bytes_def PT_LOAD_def)
  show "e_entry (elf_ehdr_at demo_elf) = 0x10000" "mem_from demo_elf 0 = 1"
    "\<forall>i < nphdrs demo_elf. unat (p_filesz (phdr_at demo_elf i)) \<le> unat (get_memsz (phdr_at demo_elf i))"
    using o h by (simp_all add: e mem_from_def get_memsz_def PT_LOAD_def)
qed

lemma demo_app: "prog_ok (\<lambda>_. Some demo_elf) (c_lit ''app'', demo_elf)"
  by (simp add: prog_ok_def demo_elf_facts lit_names) (simp add: c_lit_def)

theorem image_layout_witness:
  "\<exists>img. createimage_main (\<lambda>_. Some demo_elf) [c_lit ''bootblock'', c_lit ''main'', c_lit ''app''] = Some img \<and>
    image_tasknum img = 1 \<and> take 1 (loaded img (image_task_at img 0)) = [7]"
  using image_layout [of "\<lambda>_. Some demo_elf" demo_elf demo_elf "[(c_lit ''app'', demo_elf)]"] demo_app demo_elf_facts
  by (auto simp: Let_def)

end
