(* ===== verification/Load.thy ===== *)
theory Load
  imports Paging Net Image Boot
begin

text \<open>
  Loading a program: \<^verbatim>\<open>load_task_img\<close> of src/kernel/loader/loader.c puts the bytes of the program's sectors, without the
  offset in the first one, at the entry point of its address space. With the layout of the image (theory \<open>Image\<close>) these are the
  bytes of the program's file.
\<close>

unbundle bit_operations_syntax

section \<open>Bytes in cells\<close>

lemma le_bytes_nth: "q < n \<Longrightarrow> le_bytes n v ! q = word_of_nat (v div 256 ^ q mod 256)"
proof (induction n arbitrary: v q)
  case (Suc n)
  show ?case
  proof (cases q)
    case (Suc r)
    then show ?thesis using Suc.IH [of r "v div 256"] Suc.prems by (simp add: div_mult2_eq)
  qed simp
qed simp

lemma byte_of_cell: "q < 8 \<Longrightarrow> (ucast (drop_bit (8 * q) (w :: u64)) :: u8) = le_bytes 8 (unat w) ! q"
proof -
  assume q: "q < 8"
  have w: "unat w < 2 ^ 64" using unsigned_less [of w, where 'a = nat] by simp
  have "unat (drop_bit (8 * q) w) = unat w div 2 ^ (8 * q)"
    using w by (simp only: unsigned_drop_bit_eq) (simp add: drop_bit_eq_div take_bit_nat_eq_self)
  moreover have "(2 :: nat) ^ (8 * q) = 256 ^ q" by (simp add: power_mult)
  ultimately have u: "unat (drop_bit (8 * q) w) = unat w div 256 ^ q" by simp
  have "(ucast (drop_bit (8 * q) w) :: u8) = word_of_nat (unat (drop_bit (8 * q) w))" by simp
  also have "\<dots> = word_of_nat (unat w div 256 ^ q mod 256)" unfolding u
    by (rule word_unat_eq_iff [THEN iffD2]) (simp add: unat_of_nat)
  finally show ?thesis using le_bytes_nth [OF q] by simp
qed

lemma cell_parts: "unat (cell_of a) = unat a div 8 * 8" "byte_shift a = 8 * (unat a mod 8)"
proof -
  have m: "(7 :: u64) = mask 3" by (simp add: mask_eq_exp_minus_1)
  show "unat (cell_of a) = unat a div 8 * 8" unfolding cell_of_def m unat_and_not_mask by simp
  have "a AND 7 = take_bit 3 a" by (simp add: m take_bit_eq_mask)
  then have "unat (a AND 7) = unat a mod 8" by (simp only: unsigned_take_bit_eq) (simp add: take_bit_eq_mod)
  then show "byte_shift a = 8 * (unat a mod 8)" by (simp add: byte_shift_def)
qed

lemma same_byte: "a = b \<longleftrightarrow> cell_of a = cell_of b \<and> byte_shift a = byte_shift b"
proof
  assume *: "cell_of a = cell_of b \<and> byte_shift a = byte_shift b"
  have "unat a div 8 * 8 = unat b div 8 * 8" using cell_parts(1) [of a] cell_parts(1) [of b] * by simp
  moreover have "unat a mod 8 = unat b mod 8" using cell_parts(2) [of a] cell_parts(2) [of b] * by simp
  ultimately have "unat a = unat b" by (metis div_mult_mod_eq)
  then show "a = b" by (rule unsigned_word_eqI)
qed simp

lemma get_put_byte: "get_byte (put_byte a v m) b = (if a = b then v else get_byte m b)"
proof (cases "cell_of a = cell_of b")
  case False
  then show ?thesis by (auto simp: get_byte_def put_byte_def)
next
  case True
  have s: "byte_shift a = 8 * (unat a mod 8)" "byte_shift b = 8 * (unat b mod 8)" by (rule cell_parts(2))+
  have r: "unat a mod 8 < 8" "unat b mod 8 < 8" by simp_all
  define p q where "p = unat a mod 8" and "q = unat b mod 8"
  have ab: "a = b \<longleftrightarrow> p = q" using same_byte [of a b] True s by (simp add: p_def q_def)
  have sh: "byte_shift a = 8 * p" "byte_shift b = 8 * q" "p < 8" "q < 8" using s r by (simp_all add: p_def q_def)
  show ?thesis
  proof (rule bit_word_eqI)
    fix n assume "n < LENGTH(8)"
    then have n: "n < 8" by simp
    have f: "bit (0xFF :: u64) k \<longleftrightarrow> k < 8" for k
    proof -
      have m: "(0xFF :: u64) = mask 8" by (simp add: mask_eq_exp_minus_1)
      show ?thesis unfolding m by (auto simp: bit_mask_iff)
    qed
    show "bit (get_byte (put_byte a v m) b) n = bit (if a = b then v else get_byte m b) n"
    proof (cases "p = q")
      case True
      then show ?thesis using ab \<open>cell_of a = cell_of b\<close> n sh f [of n]
        by (simp add: get_byte_def put_byte_def bit_simps)
    next
      case False
      then have "8 * q + n < 8 * p \<or> 8 * p + 8 \<le> 8 * q + n" using n by linarith
      moreover have "\<not> bit v k" if "8 \<le> k" for k using that bit_imp_le_length [of v k] by auto
      ultimately show ?thesis using ab False \<open>cell_of a = cell_of b\<close> n sh f [of "8 * q + n - 8 * p"]
        by (auto simp: get_byte_def put_byte_def bit_simps)
    qed
  qed
qed

lemma put_byte_other: "cell_of a \<noteq> b \<Longrightarrow> put_byte a v m b = m b"
  by (simp add: put_byte_def)

section \<open>Pages of the user pool\<close>

definition upage :: "nat \<Rightarrow> u64" where
  "upage f = USER_MEM_BASE + PAGE_SIZE * word_of_nat f"

definition upool :: "u64 set" where
  "upool = upage ` {..<FREE_USER_PAGE_NUM}"

lemma unat_upage: "f < FREE_USER_PAGE_NUM \<Longrightarrow> unat (upage f) = 0xffffffc054000000 + 4096 * f"
proof -
  assume f: "f < FREE_USER_PAGE_NUM"
  have "upage f = word_of_nat (0xffffffc054000000 + 4096 * f)" by (simp add: upage_def USER_MEM_BASE_def PAGE_SIZE_def)
  then show ?thesis using f by (simp only: unat_of_nat) (simp add: FREE_USER_PAGE_NUM_def)
qed

lemma upage_props:
  assumes "f < FREE_USER_PAGE_NUM"
  shows "aligned (upage f)" "upage f \<in> upool" "g < FREE_USER_PAGE_NUM \<Longrightarrow> upage f = upage g \<Longrightarrow> f = g"
proof -
  show "aligned (upage f)" using unat_upage [OF assms] by (intro alignedI) simp
  show "upage f \<in> upool" using assms by (simp add: upool_def)
  show "f = g" if g: "g < FREE_USER_PAGE_NUM" "upage f = upage g"
  proof -
    have "0xffffffc054000000 + 4096 * f = 0xffffffc054000000 + 4096 * g" using g(2) unat_upage [OF assms] unat_upage [OF g(1)] by metis
    then show ?thesis by simp
  qed
qed

lemma upool_no_kpage: "no_kpage upool"
  unfolding no_kpage_def
proof (intro allI impI)
  fix f assume f: "f < FREE_KERNEL_PAGE_NUM"
  have "kpage f \<noteq> upage g" if "g < FREE_USER_PAGE_NUM" for g
  proof
    assume "kpage f = upage g"
    then show False using unat_kpage [OF f] unat_upage [OF that] f by (simp add: FREE_KERNEL_PAGE_NUM_def)
  qed
  then show "kpage f \<notin> upool" by (auto simp: upool_def)
qed

lemma unat_upage_off:
  assumes "f < FREE_USER_PAGE_NUM" "i < 4096"
  shows "unat (upage f + word_of_nat i) = 0xffffffc054000000 + 4096 * f + i"
proof -
  have "upage f + word_of_nat i = word_of_nat (0xffffffc054000000 + 4096 * f + i)" by (simp add: upage_def USER_MEM_BASE_def PAGE_SIZE_def)
  then show ?thesis using assms by (simp only: unat_of_nat) (simp add: FREE_USER_PAGE_NUM_def)
qed

lemma upage_off_inj:
  assumes "f < FREE_USER_PAGE_NUM" "g < FREE_USER_PAGE_NUM" "i < 4096" "j < 4096" "upage f + word_of_nat i = upage g + word_of_nat j"
  shows "f = g \<and> i = j"
proof -
  have "4096 * f + i = 4096 * g + j" using unat_upage_off [OF assms(1,3)] unat_upage_off [OF assms(2,4)] assms(5) by simp
  then have "(4096 * f + i) div 4096 = (4096 * g + j) div 4096" "(4096 * f + i) mod 4096 = (4096 * g + j) mod 4096" by simp_all
  then show ?thesis using assms(3,4) by simp
qed

lemma upage_cell:
  assumes "f < FREE_USER_PAGE_NUM" "i < 4096"
  shows "cell_of (upage f + word_of_nat i) = upage f + 8 * word_of_nat (i div 8)" "byte_shift (upage f + word_of_nat i) = 8 * (i mod 8)"
    "in_page (upage f) (cell_of (upage f + word_of_nat i))"
proof -
  note u = unat_upage_off [OF assms]
  define x where "x = 0x1FFFFFF80A800000 + 512 * f"
  have x: "0xffffffc054000000 + 4096 * f = 8 * x" by (simp add: x_def)
  have d: "(0xffffffc054000000 + 4096 * f + i) div 8 * 8 = 0xffffffc054000000 + 4096 * f + i div 8 * 8"
    "(0xffffffc054000000 + 4096 * f + i) mod 8 = i mod 8" unfolding x by simp_all
  have "unat (upage f + 8 * word_of_nat (i div 8)) = 0xffffffc054000000 + 4096 * f + i div 8 * 8"
    using unat_upage_off [OF assms(1), of "8 * (i div 8)"] assms(2) by simp
  then have "unat (cell_of (upage f + word_of_nat i)) = unat (upage f + 8 * word_of_nat (i div 8))"
    unfolding cell_parts(1) u d(1) by simp
  then show c: "cell_of (upage f + word_of_nat i) = upage f + 8 * word_of_nat (i div 8)" by (rule unsigned_word_eqI)
  show "byte_shift (upage f + word_of_nat i) = 8 * (i mod 8)" unfolding cell_parts(2) u d(2) ..
  have "i div 8 < 512" using assms(2) by simp
  then show "in_page (upage f) (cell_of (upage f + word_of_nat i))" unfolding c in_page_def by blast
qed

section \<open>Address spaces and stores to the pool\<close>

definition outside :: "u64 set \<Rightarrow> (u64 \<Rightarrow> u64) \<Rightarrow> (u64 \<Rightarrow> u64) \<Rightarrow> bool" where
  "outside U m m' \<longleftrightarrow> (\<forall>b. (\<forall>x \<in> U. aligned x \<longrightarrow> \<not> in_page x b) \<longrightarrow> m' b = m b)"

lemma table_kept:
  assumes "outside U m m'" "aligned t" "t \<notin> U" "unat k < 512"
  shows "m' (pte_addr t k) = m (pte_addr t k)"
proof -
  have "\<not> in_page x (pte_addr t k)" if "x \<in> U" "aligned x" for x
    using aligned_pages_disjoint [OF that(2) assms(2) _ pte_addr_in_page [OF assms(4)]] that(1) assms(3) by blast
  then show ?thesis using assms(1) unfolding outside_def by blast
qed

lemma tree_kept:
  assumes T: "pt_tree m pd (F \<union> U)" and m': "outside U m m'"
  shows "pt_tree m' pd (F \<union> U)" "user_va va \<Longrightarrow> uva2pte m' va pd = uva2pte m va pd"
    "user_va va \<Longrightarrow> uva2pte m va pd = Some a \<Longrightarrow> m' a = m a"
proof -
  have pd: "sub m' pd i = sub m pd i" if "unat i < 256" for i
    using table_kept [OF m', of pd i] pt_treeD(1,2) [OF T] that by (simp add: sub_def)
  have t: "sub m' t j = sub m t j" if "unat i < 256" "sub m pd i = Some t" "unat j < 512" for i j t
    using table_kept [OF m', of t j] pt_treeD(3) [OF T that(1,2)] that(3) by (simp add: sub_def)
  show "pt_tree m' pd (F \<union> U)" unfolding pt_tree_def
  proof (intro conjI allI impI; (elim conjE)?)
    fix i t :: u64 assume "unat i < 256" "sub m' pd i = Some t"
    then show "aligned t" "t \<notin> F \<union> U" "t \<noteq> pd" using pt_treeD(3) [OF T, of i t] pd by auto
  next
    fix i i' t :: u64 assume "unat i < 256" "unat i' < 256" "sub m' pd i = Some t" "sub m' pd i' = Some t"
    then show "i = i'" using pt_treeD(4) [OF T, of i i' t] pd by simp
  next
    fix i j t u :: u64 assume a: "unat i < 256" "unat j < 512" "sub m' pd i = Some t" "sub m' t j = Some u"
    then have b: "sub m pd i = Some t" "sub m t j = Some u" using pd t by simp_all
    then show "aligned u" "u \<notin> F \<union> U" "u \<noteq> pd" using pt_treeD(5) [OF T a(1,2) b] by blast+
    fix i' :: u64 assume "unat i' < 256"
    then show "sub m' pd i' \<noteq> Some u" using pt_treeD(5) [OF T a(1,2) b] pd by metis
  next
    fix i j t i' j' t' u :: u64
    assume a: "unat i < 256" "unat j < 512" "sub m' pd i = Some t" "sub m' t j = Some u"
      and b: "unat i' < 256" "unat j' < 512" "sub m' pd i' = Some t'" "sub m' t' j' = Some u"
    then have c: "sub m pd i = Some t" "sub m t j = Some u" "sub m pd i' = Some t'" "sub m t' j' = Some u" using pd t by simp_all
    show "i = i'" "j = j'" using pt_treeD(6) [OF T a(1,2) c(1,2) b(1,2) c(3,4)] by blast+
  qed (use pt_treeD(1,2) [OF T] in auto)
  show "uva2pte m' va pd = uva2pte m va pd" if "user_va va"
    using that pd t vpn_small(1) by (cases "sub m pd (vpn2 (va AND VA_MASK))") (simp_all add: uva2pte_sub user_va_def)
  show "m' a = m a" if v: "user_va va" and a: "uva2pte m va pd = Some a"
  proof -
    have k: "unat (vpn2 (va AND VA_MASK)) < 256" using v by (simp add: user_va_def)
    obtain t2 t1 where w: "sub m pd (vpn2 (va AND VA_MASK)) = Some t2" "sub m t2 (vpn1 (va AND VA_MASK)) = Some t1"
      "a = pte_addr t1 (vpn0 (va AND VA_MASK))" using a by (auto simp: uva2pte_Some)
    show ?thesis unfolding w(3)
      using table_kept [OF m', of t1] pt_treeD(5) [OF T k vpn_small(1) w(1,2)] vpn_small(2) by blast
  qed
qed

text \<open>Different pages have different entries.\<close>

lemma entries_differ:
  assumes T: "pt_tree m pd F" and v: "user_va va" "user_va va'" and a: "uva2pte m va pd = Some a" "uva2pte m va' pd = Some a"
  shows "vpn2 (va AND VA_MASK) = vpn2 (va' AND VA_MASK) \<and> vpn1 (va AND VA_MASK) = vpn1 (va' AND VA_MASK) \<and>
    vpn0 (va AND VA_MASK) = vpn0 (va' AND VA_MASK)"
proof -
  have k: "unat (vpn2 (va AND VA_MASK)) < 256" "unat (vpn2 (va' AND VA_MASK)) < 256" using v by (simp_all add: user_va_def)
  obtain t2 t1 where w: "sub m pd (vpn2 (va AND VA_MASK)) = Some t2" "sub m t2 (vpn1 (va AND VA_MASK)) = Some t1"
    "a = pte_addr t1 (vpn0 (va AND VA_MASK))" using a(1) by (auto simp: uva2pte_Some)
  obtain t2' t1' where w': "sub m pd (vpn2 (va' AND VA_MASK)) = Some t2'" "sub m t2' (vpn1 (va' AND VA_MASK)) = Some t1'"
    "a = pte_addr t1' (vpn0 (va' AND VA_MASK))" using a(2) by (auto simp: uva2pte_Some)
  have al: "aligned t1" "aligned t1'" using pt_treeD(5) [OF T k(1) vpn_small(1) w(1,2)] pt_treeD(5) [OF T k(2) vpn_small(1) w'(1,2)] by blast+
  have "in_page t1 a" "in_page t1' a" unfolding w(3) using pte_addr_in_page vpn_small(2) w(3) w'(3) by metis+
  then have t: "t1 = t1'" using aligned_pages_disjoint [OF al] by blast
  then have "vpn0 (va AND VA_MASK) = vpn0 (va' AND VA_MASK)" using pte_addr_inj [OF vpn_small(2,2)] w(3) w'(3) by metis
  moreover have "vpn2 (va AND VA_MASK) = vpn2 (va' AND VA_MASK) \<and> vpn1 (va AND VA_MASK) = vpn1 (va' AND VA_MASK)"
    using pt_treeD(6) [OF T k(1) vpn_small(1) w(1,2) k(2) vpn_small(1) w'(1)] w'(2) t by blast
  ultimately show ?thesis by blast
qed

section \<open>A region of an address space\<close>

lemma same_page:
  assumes "drop_bit 12 va = drop_bit 12 va'"
  shows "uva2pte m va pd = uva2pte m va' pd"
proof -
  have b: "bit va (k + 12) \<longleftrightarrow> bit va' (k + 12)" for k
    using arg_cong [OF assms, of "\<lambda>x. bit x k"] by (simp add: bit_simps add.commute)
  have "bit va (k + 21) \<longleftrightarrow> bit va' (k + 21)" "bit va (k + 30) \<longleftrightarrow> bit va' (k + 30)" for k
    using b [of "k + 9"] b [of "k + 18"] by (simp_all add: add.assoc)
  then have "vpn2 (va AND VA_MASK) = vpn2 (va' AND VA_MASK)" "vpn1 (va AND VA_MASK) = vpn1 (va' AND VA_MASK)"
      "vpn0 (va AND VA_MASK) = vpn0 (va' AND VA_MASK)"
    using b by (auto intro!: bit_eqI simp: vpn_bits bit_and_iff)
  then show ?thesis by (simp add: uva2pte_sub)
qed

text \<open>\<open>N\<close> whole pages in the user half from \<open>e\<close> on.\<close>

definition region :: "u64 \<Rightarrow> nat \<Rightarrow> bool" where
  "region e N \<longleftrightarrow> unat e mod 4096 = 0 \<and> 4096 \<le> unat e \<and> unat e + 4096 * N \<le> 2 ^ 38"

lemma region_va:
  assumes "region e N" "i < 4096 * N"
  shows "unat (e + word_of_nat i) = unat e + i" "user_va (e + word_of_nat i)" "(e + word_of_nat i) AND VA_MASK \<noteq> 0"
    "unat ((e + word_of_nat i) AND VA_MASK) = unat e + i"
proof -
  have b: "unat e + i < 2 ^ 38" "0 < unat e" using assms by (auto simp: region_def)
  have "e + word_of_nat i = word_of_nat (unat e + i)" by simp
  then show u: "unat (e + word_of_nat i) = unat e + i" using b(1) by (simp only: unat_of_nat) simp
  have "unat (vpn2 ((e + word_of_nat i) AND VA_MASK)) = (unat e + i) div 2 ^ 30 mod 512" unfolding unat_vpn(1) u ..
  also have "\<dots> < 256"
  proof -
    have "(unat e + i) div 2 ^ 30 < 256" using b(1) by (simp add: less_mult_imp_div_less)
    then show ?thesis by simp
  qed
  finally show "user_va (e + word_of_nat i)" by (simp add: user_va_def)
  have "(e + word_of_nat i) AND VA_MASK = take_bit 39 (e + word_of_nat i)" by (simp add: mask_eqs take_bit_eq_mask)
  then have "unat ((e + word_of_nat i) AND VA_MASK) = take_bit 39 (unat e + i)" by (simp only: unsigned_take_bit_eq u)
  also have "\<dots> = unat e + i" using b(1) by (intro take_bit_nat_eq_self) simp
  finally show w: "unat ((e + word_of_nat i) AND VA_MASK) = unat e + i" .
  then show "(e + word_of_nat i) AND VA_MASK \<noteq> 0" using b(2) by (metis add_is_0 less_numeral_extra(3) unsigned_0)
qed

lemma drop12: "unat a div 4096 = unat b div 4096 \<Longrightarrow> drop_bit 12 a = drop_bit 12 (b :: u64)"
proof -
  assume *: "unat a div 4096 = unat b div 4096"
  have u: "unat (drop_bit 12 x) = unat x div 4096" for x :: u64
    using unsigned_less [of x, where 'a = nat] by (simp only: unsigned_drop_bit_eq) (simp add: drop_bit_eq_div take_bit_nat_eq_self)
  show ?thesis using * u by (metis unsigned_word_eqI)
qed

lemma region_page:
  assumes "region e N" "i < 4096 * N"
  shows "uva2pte m (e + word_of_nat i) pd = uva2pte m (e + word_of_nat (4096 * (i div 4096))) pd"
    "(e + word_of_nat i) AND (PAGE_SIZE - 1) = word_of_nat (i mod 4096)"
proof -
  have j: "4096 * (i div 4096) < 4096 * N" using assms(2) by simp
  have e: "unat e = 4096 * (unat e div 4096)" using assms(1) by (auto simp: region_def)
  have "(unat e + i) div 4096 = (unat e + 4096 * (i div 4096)) div 4096" by (subst e, subst (2) e) simp
  then show "uva2pte m (e + word_of_nat i) pd = uva2pte m (e + word_of_nat (4096 * (i div 4096))) pd"
    by (intro same_page drop12) (simp only: region_va(1) [OF assms] region_va(1) [OF assms(1) j])
  have "(PAGE_SIZE - 1 :: u64) = mask 12" by (simp add: PAGE_SIZE_def mask_eq_exp_minus_1)
  then have "(e + word_of_nat i) AND (PAGE_SIZE - 1) = take_bit 12 (e + word_of_nat i)" by (simp add: take_bit_eq_mask)
  then have "unat ((e + word_of_nat i) AND (PAGE_SIZE - 1)) = take_bit 12 (unat e + i)" by (simp only: unsigned_take_bit_eq region_va(1) [OF assms])
  also have "\<dots> = i mod 4096" by (subst e) (simp add: take_bit_eq_mod)
  finally have "unat ((e + word_of_nat i) AND (PAGE_SIZE - 1)) = unat (word_of_nat (i mod 4096) :: u64)" by (simp add: unat_of_nat)
  then show "(e + word_of_nat i) AND (PAGE_SIZE - 1) = word_of_nat (i mod 4096)" by (rule unsigned_word_eqI)
qed

text \<open>The region is mapped to the pages \<open>F\<close> of the pool, in this order; \<open>phys F i\<close> is the kernel address of its byte \<open>i\<close>.\<close>

definition maps_to :: "(u64 \<Rightarrow> u64) \<Rightarrow> u64 \<Rightarrow> u64 \<Rightarrow> nat list \<Rightarrow> bool" where
  "maps_to m pd e F \<longleftrightarrow> distinct F \<and> (\<forall>f \<in> set F. f < FREE_USER_PAGE_NUM) \<and>
     (\<forall>j < length F. \<exists>a. uva2pte m (e + word_of_nat (4096 * j)) pd = Some a \<and> get_pa (m a) = kva2pa (upage (F ! j)) \<and>
        get_attribute (m a) PAGE_PRESENT \<noteq> 0)"

definition phys :: "nat list \<Rightarrow> nat \<Rightarrow> u64" where
  "phys F i = upage (F ! (i div 4096)) + word_of_nat (i mod 4096)"

lemma page_index: "i < 4096 * n \<Longrightarrow> i div 4096 < n" for i n :: nat
  by (simp add: less_mult_imp_div_less mult.commute)

lemma phys_inj:
  assumes "distinct F" "\<forall>f \<in> set F. f < FREE_USER_PAGE_NUM" "i < 4096 * length F" "j < 4096 * length F" "phys F i = phys F j"
  shows "i = j"
proof -
  note d = page_index [OF assms(3)] page_index [OF assms(4)]
  have "F ! (i div 4096) = F ! (j div 4096) \<and> i mod 4096 = j mod 4096"
    using assms(2,5) d unfolding phys_def by (intro upage_off_inj) simp_all
  then have "i div 4096 = j div 4096" "i mod 4096 = j mod 4096" using assms(1) d by (simp_all add: nth_eq_iff_index_eq)
  then show ?thesis by (metis mult_div_mod_eq)
qed

lemma maps_user_addr:
  assumes "region e N" "maps_to m pd e F" "length F = N" "i < 4096 * N"
  shows "user_addr m pd (e + word_of_nat i) = Some (phys F i)"
proof -
  have "i div 4096 < length F" using page_index assms(3,4) by simp
  then obtain a where a: "uva2pte m (e + word_of_nat (4096 * (i div 4096))) pd = Some a" "get_pa (m a) = kva2pa (upage (F ! (i div 4096)))"
    "get_attribute (m a) PAGE_PRESENT \<noteq> 0" using assms(2) by (auto simp: maps_to_def)
  then show ?thesis using region_page [OF assms(1,4)] by (simp add: user_addr_def phys_def)
qed

lemma put_outside:
  assumes "\<forall>f \<in> set F. f < FREE_USER_PAGE_NUM" "i < 4096 * length F"
  shows "outside upool m (put_byte (phys F i) v m)"
proof -
  have f: "F ! (i div 4096) < FREE_USER_PAGE_NUM" using assms page_index [OF assms(2)] by simp
  have "in_page (upage (F ! (i div 4096))) (cell_of (phys F i))" unfolding phys_def using upage_cell(3) [OF f] by simp
  then show ?thesis using upage_props [OF f] by (auto simp: outside_def put_byte_def)
qed

lemma outside_trans: "outside U m m' \<Longrightarrow> outside U m' m'' \<Longrightarrow> outside U m m''"
  by (simp add: outside_def)

lemma maps_kept:
  assumes "pt_tree m pd (K \<union> U)" "outside U m m'" "region e N" "length F \<le> N" "maps_to m pd e F"
  shows "maps_to m' pd e F"
  unfolding maps_to_def
proof (intro conjI allI impI)
  fix j assume j: "j < length F"
  then obtain a where a: "uva2pte m (e + word_of_nat (4096 * j)) pd = Some a" "get_pa (m a) = kva2pa (upage (F ! j))"
    "get_attribute (m a) PAGE_PRESENT \<noteq> 0" using assms(5) by (auto simp: maps_to_def)
  have "user_va (e + word_of_nat (4096 * j))" using region_va(2) [OF assms(3), of "4096 * j"] j assms(4) by simp
  then show "\<exists>a. uva2pte m' (e + word_of_nat (4096 * j)) pd = Some a \<and> get_pa (m' a) = kva2pa (upage (F ! j)) \<and> get_attribute (m' a) PAGE_PRESENT \<noteq> 0"
    using tree_kept(2,3) [OF assms(1,2)] a by metis
qed (use assms(5) in \<open>auto simp: maps_to_def\<close>)

section \<open>Moving the bytes\<close>

lemma check_one:
  assumes "all_resident s" "region e N" "i < 4096 * N"
  shows "check_uva_mem ops (e + word_of_nat i) 1 p s = Some s"
proof -
  have "unat (e + word_of_nat i) < 2 ^ 38" using region_va(1) [OF assms(2,3)] assms(2,3) by (simp add: region_def)
  then have "unat (e + word_of_nat i + 1) \<le> 2 ^ 38" by (simp add: unat_word_ariths(1))
  then show ?thesis unfolding check_uva_mem_def by (intro check_uva_resident [OF assms(1)]) simp
qed

lemma my_memcpy_moves:
  assumes "region e N" "pt_tree (mem s) pd (K \<union> upool)" "maps_to (mem s) pd e F" "length F = N" "all_resident s" "d \<le> c" "c + n \<le> 4096 * N"
  shows "\<exists>m'. my_memcpy ops n (e + word_of_nat d) (e + word_of_nat c) pd p s = Some (s\<lparr>mem := m'\<rparr>) \<and> outside upool (mem s) m' \<and>
    (\<forall>i < 4096 * N. get_byte m' (phys F i) =
       get_byte (mem s) (phys F (if d \<le> i \<and> i < d + n then i + (c - d) else i)))"
  using assms(2,3,5-7)
proof (induction n arbitrary: d c s)
  case 0
  show ?case by (intro exI [of _ "mem s"]) (simp add: outside_def)
next
  case (Suc n)
  have F: "distinct F" "\<forall>f \<in> set F. f < FREE_USER_PAGE_NUM" using Suc.prems(2) by (simp_all add: maps_to_def)
  have b: "d < 4096 * N" "c < 4096 * N" "d < 4096 * length F" using Suc.prems(4,5) assms(4) by simp_all
  define m1 where "m1 = put_byte (phys F d) (get_byte (mem s) (phys F c)) (mem s)"
  let ?s1 = "s\<lparr>mem := m1\<rparr>"
  have step: "my_memcpy ops (Suc n) (e + word_of_nat d) (e + word_of_nat c) pd p s =
      my_memcpy ops n (e + word_of_nat (Suc d)) (e + word_of_nat (Suc c)) pd p ?s1"
    using check_one [OF Suc.prems(3) assms(1)] b maps_user_addr [OF assms(1) Suc.prems(2) assms(4)]
    by (simp add: m1_def ac_simps)
  have o: "outside upool (mem s) m1" unfolding m1_def by (rule put_outside [OF F(2) b(3)])
  have T1: "pt_tree (mem ?s1) pd (K \<union> upool)" using tree_kept(1) [OF Suc.prems(1) o] by simp
  have M1: "maps_to (mem ?s1) pd e F" using maps_kept [OF Suc.prems(1) o assms(1) _ Suc.prems(2)] assms(4) by simp
  have R1: "all_resident ?s1" using Suc.prems(3) by (simp add: all_resident_def)
  obtain m' where m': "my_memcpy ops n (e + word_of_nat (Suc d)) (e + word_of_nat (Suc c)) pd p ?s1 = Some (?s1\<lparr>mem := m'\<rparr>)"
    "outside upool m1 m'" "\<forall>i < 4096 * N. get_byte m' (phys F i) = get_byte m1 (phys F (if Suc d \<le> i \<and> i < Suc d + n then i + (Suc c - Suc d) else i))"
    using Suc.IH [OF T1 M1 R1, of "Suc d" "Suc c"] Suc.prems(4,5) by auto
  have g: "get_byte m1 (phys F i) = (if i = d then get_byte (mem s) (phys F c) else get_byte (mem s) (phys F i))" if "i < 4096 * N" for i
    using phys_inj [OF F b(3), of i] that assms(4) by (auto simp: m1_def get_put_byte)
  have "get_byte m' (phys F i) = get_byte (mem s) (phys F (if d \<le> i \<and> i < d + Suc n then i + (c - d) else i))" if i: "i < 4096 * N" for i
  proof -
    define k where "k = (if Suc d \<le> i \<and> i < Suc d + n then i + (c - d) else i)"
    have k: "k < 4096 * N" using i Suc.prems(4,5) by (auto simp: k_def)
    have "get_byte m' (phys F i) = get_byte m1 (phys F k)" using m'(3) i by (simp add: k_def)
    also have "\<dots> = (if k = d then get_byte (mem s) (phys F c) else get_byte (mem s) (phys F k))" by (rule g [OF k])
    finally show ?thesis using Suc.prems(4) by (auto simp: k_def split: if_splits)
  qed
  then show ?case using m' o outside_trans step by (intro exI [of _ m']) auto
qed

section \<open>Filling a page\<close>

definition cells_bytes :: "u64 list \<Rightarrow> bytes" where
  "cells_bytes ws = concat (map (\<lambda>w. le_bytes 8 (unat w)) ws)"

lemma cells_bytes_nth:
  "length (cells_bytes ws) = 8 * length ws"
  "i < 8 * length ws \<Longrightarrow> cells_bytes ws ! i = le_bytes 8 (unat (ws ! (i div 8))) ! (i mod 8)"
proof -
  let ?g = "\<lambda>k. le_bytes 8 (unat (ws ! k))"
  have "map (\<lambda>w. le_bytes 8 (unat w)) ws = map ?g [0..<length ws]" by (rule nth_equalityI) simp_all
  then have e: "cells_bytes ws = concat (map ?g [0..<length ws])" by (simp only: cells_bytes_def)
  note S = concat_slots [of "length ws" ?g 8]
  show l: "length (cells_bytes ws) = 8 * length ws" unfolding e using S [of 0] by (simp only: length_le_bytes simp_thms)
  show "cells_bytes ws ! i = ?g (i div 8) ! (i mod 8)" if i: "i < 8 * length ws"
  proof -
    have k: "i div 8 < length ws" using i by (simp add: less_mult_imp_div_less mult.commute)
    have "bget (8 * (i div 8)) 8 (cells_bytes ws) = ?g (i div 8)" unfolding e using S [of "i div 8"] k by (simp only: length_le_bytes simp_thms)
    moreover have "bget (8 * (i div 8)) 8 (cells_bytes ws) ! (i mod 8) = cells_bytes ws ! (8 * (i div 8) + i mod 8)"
      using i l by (intro nth_bget) simp_all
    moreover have "8 * (i div 8) + i mod 8 = i" by simp
    ultimately show ?thesis by simp
  qed
qed

lemma store_cells_in:
  assumes "k < length ws" "length ws \<le> 512"
  shows "store_cells a ws m (a + 8 * word_of_nat k) = ws ! k"
proof -
  have "first_idx (\<lambda>j. a + 8 * word_of_nat k = a + 8 * word_of_nat j) (length ws) = Some k"
    unfolding first_idx_Some_iff using assms cell_inj [of k _ a] by (metis less_le_trans less_trans nat_neq_iff)
  then show ?thesis using store_cells_apply [OF assms(2)] by (simp only: option.case)
qed

lemma store_cells_out:
  assumes "length ws \<le> 512" "\<not> in_page a b"
  shows "store_cells a ws m b = m b"
proof -
  have "first_idx (\<lambda>k. b = a + 8 * word_of_nat k) (length ws) = None"
    using assms by (auto simp: first_idx_None_iff in_page_def)
  then show ?thesis using store_cells_apply [OF assms(1)] by simp
qed

lemma store_bytes:
  assumes f: "f < FREE_USER_PAGE_NUM" and w: "length ws \<le> 512" and i: "i < 4096"
  shows "i < 8 * length ws \<Longrightarrow> get_byte (store_cells (upage f) ws m) (upage f + word_of_nat i) = cells_bytes ws ! i"
    "g < FREE_USER_PAGE_NUM \<Longrightarrow> g \<noteq> f \<Longrightarrow> get_byte (store_cells (upage f) ws m) (upage g + word_of_nat i) = get_byte m (upage g + word_of_nat i)"
    "outside upool m (store_cells (upage f) ws m)"
proof -
  show "get_byte (store_cells (upage f) ws m) (upage f + word_of_nat i) = cells_bytes ws ! i" if j: "i < 8 * length ws"
  proof -
    have "i div 8 < length ws" using j by (simp add: less_mult_imp_div_less mult.commute)
    then have "store_cells (upage f) ws m (cell_of (upage f + word_of_nat i)) = ws ! (i div 8)"
      unfolding upage_cell(1) [OF f i] using store_cells_in w by blast
    then show ?thesis unfolding get_byte_def upage_cell(2) [OF f i] using byte_of_cell [of "i mod 8"] cells_bytes_nth(2) [OF j] by simp
  qed
  show "get_byte (store_cells (upage f) ws m) (upage g + word_of_nat i) = get_byte m (upage g + word_of_nat i)" if g: "g < FREE_USER_PAGE_NUM" "g \<noteq> f"
  proof -
    have "\<not> in_page (upage f) (cell_of (upage g + word_of_nat i))"
      using aligned_pages_disjoint [OF upage_props(1) [OF f] upage_props(1) [OF g(1)] _ upage_cell(3) [OF g(1) i]] upage_props(3) [OF f g(1)] g(2) by blast
    then show ?thesis by (simp add: get_byte_def store_cells_out [OF w])
  qed
  show "outside upool m (store_cells (upage f) ws m)"
    unfolding outside_def using store_cells_out [OF w] upage_props [OF f] by blast
qed

text \<open>The card holds the bytes \<open>bs\<close> from its first sector on.\<close>

definition card_holds :: "'d swap_ops \<Rightarrow> 'd \<Rightarrow> bytes \<Rightarrow> bool" where
  "card_holds ops dev bs \<longleftrightarrow> (\<forall>n sec. n \<le> 8 \<and> 512 * unat sec + 512 * n \<le> length bs \<longrightarrow>
     cells_bytes (dsk_rd ops n sec dev) = bget (512 * unat sec) (512 * n) bs)"

lemma card_read:
  assumes "card_holds ops dev bs" "n \<le> 8" "512 * unat sec + 512 * n \<le> length bs"
  shows "length (dsk_rd ops n sec dev) = 64 * n" "i < 512 * n \<Longrightarrow> cells_bytes (dsk_rd ops n sec dev) ! i = bs ! (512 * unat sec + i)"
proof -
  have c: "cells_bytes (dsk_rd ops n sec dev) = bget (512 * unat sec) (512 * n) bs" using assms by (auto simp: card_holds_def)
  have "8 * length (dsk_rd ops n sec dev) = length (bget (512 * unat sec) (512 * n) bs)" using cells_bytes_nth(1) c by metis
  then show "length (dsk_rd ops n sec dev) = 64 * n" using assms(3) by simp
  show "i < 512 * n \<Longrightarrow> cells_bytes (dsk_rd ops n sec dev) ! i = bs ! (512 * unat sec + i)" unfolding c using assms(3) by (simp add: nth_bget)
qed

section \<open>The page loop\<close>

text \<open>
  \<open>loading\<close>: \<open>j\<close> of the \<open>N\<close> pages from \<open>e\<close> on are mapped, to the pages \<open>F\<close>, and hold the bytes \<open>bs\<close> of the card from sector \<open>fs\<close> on, as far as
  the \<open>sn\<close> sectors of the program go; \<open>num\<close> and \<open>ptr\<close> are the variables \<^verbatim>\<open>sector_num\<close> and \<^verbatim>\<open>sector_pointer\<close>.
\<close>

definition loading ::
  "'d swap_ops \<Rightarrow> bytes \<Rightarrow> u64 \<Rightarrow> u64 \<Rightarrow> nat \<Rightarrow> nat \<Rightarrow> nat \<Rightarrow> nat \<Rightarrow> u32 \<Rightarrow> u32 \<Rightarrow> nat list \<Rightarrow> pcbref \<Rightarrow> ('d, 'a) mmst_scheme \<Rightarrow> bool" where
  "loading ops bs pd e N sn fs j num ptr F p s \<longleftrightarrow>
     mm_ready (2 * (N - j)) (N - j) (3 * (N - j)) s \<and> pt_tree (mem s) pd (kpage ` free_kpages s \<union> upool) \<and>
     length F = j \<and> maps_to (mem s) pd e F \<and> set F \<inter> free_upages s = {} \<and> all_resident s \<and> pgdir (pcbs s p) = pd \<and>
     card_holds ops (swapdev s) bs \<and> unat num = sn - 8 * j \<and> (8 * j < sn \<longrightarrow> unat ptr = fs + 8 * j) \<and>
     (\<forall>i < 4096 * j. i < 512 * sn \<longrightarrow> get_byte (mem s) (phys F i) = bs ! (512 * fs + i))"

text \<open>A new page.\<close>

lemma maps_to_snoc:
  assumes reg: "region e N" "length F < N" and T: "pt_tree m' pd X" and F: "maps_to m pd e F"
    and f: "f \<notin> set F" "f < FREE_USER_PAGE_NUM"
    and a: "uva2pte m' (e + word_of_nat (4096 * length F)) pd = Some a" "get_pa (m' a) = kva2pa (upage f)" "get_attribute (m' a) PAGE_PRESENT \<noteq> 0"
    and keep: "\<forall>va' b. user_va va' \<and> uva2pte m va' pd = Some b \<longrightarrow> uva2pte m' va' pd = Some b \<and> (b \<noteq> a \<longrightarrow> m' b = m b)"
  shows "maps_to m' pd e (F @ [f])"
  unfolding maps_to_def
proof (intro conjI allI impI)
  fix k assume "k < length (F @ [f])"
  then consider "k = length F" | "k < length F" by fastforce
  then show "\<exists>a. uva2pte m' (e + word_of_nat (4096 * k)) pd = Some a \<and> get_pa (m' a) = kva2pa (upage ((F @ [f]) ! k)) \<and>
      get_attribute (m' a) PAGE_PRESENT \<noteq> 0"
  proof cases
    case 1
    then show ?thesis using a by simp
  next
    case 2
    obtain b where b: "uva2pte m (e + word_of_nat (4096 * k)) pd = Some b" "get_pa (m b) = kva2pa (upage (F ! k))" "get_attribute (m b) PAGE_PRESENT \<noteq> 0"
      using F 2 by (auto simp: maps_to_def)
    have i: "4096 * k < 4096 * N" "4096 * length F < 4096 * N" using 2 reg(2) by simp_all
    note va = region_va [OF reg(1) i(1)] and va' = region_va [OF reg(1) i(2)]
    have w: "uva2pte m' (e + word_of_nat (4096 * k)) pd = Some b" using keep va(2) b(1) by blast
    have "b \<noteq> a"
    proof
      assume "b = a"
      then have "drop_bit 12 ((e + word_of_nat (4096 * k)) AND VA_MASK) = drop_bit 12 ((e + word_of_nat (4096 * length F)) AND VA_MASK)"
        using entries_differ [OF T va(2) va'(2), of a] w a(1) vpn_inj by blast
      then have "drop_bit 12 (unat e + 4096 * k) = drop_bit 12 (unat e + 4096 * length F)"
        using va(4) va'(4) by (metis unat_drop_bit_eq)
      then show False using 2 by (simp add: drop_bit_eq_div)
    qed
    then have "m' b = m b" using keep va(2) b(1) by blast
    then show ?thesis using w b 2 by (simp add: nth_append)
  qed
qed (use F f in \<open>auto simp: maps_to_def\<close>)

lemma user_present: "get_attribute x USER_BITS = USER_BITS \<Longrightarrow> get_attribute x PAGE_PRESENT \<noteq> 0"
proof -
  assume "get_attribute x USER_BITS = USER_BITS"
  then have "bit (x AND USER_BITS) 0 = bit USER_BITS 0" by (simp only: get_attribute_def)
  then have "bit x 0" by (simp add: USER_BITS_def page_bits bit_simps)
  then show ?thesis by (simp add: get_attribute_def page_bits bit_eq_iff bit_simps) (rule exI [of _ 0], simp)
qed

lemma loading_page:
  assumes reg: "region e N" and j: "j < N" and L: "loading ops bs pd e N sn fs j num ptr F p s"
  obtains f s1 where "alloc_page_helper ops (e + word_of_nat (4096 * j)) (pgdir (pcbs s p)) p s = Some (upage f, s1)"
    "f < FREE_USER_PAGE_NUM" "f \<notin> set F" "mm_ready (2 * (N - Suc j)) (N - Suc j) (3 * (N - Suc j)) s1"
    "pt_tree (mem s1) pd (kpage ` free_kpages s1 \<union> upool)" "maps_to (mem s1) pd e (F @ [f])"
    "set (F @ [f]) \<inter> free_upages s1 = {}" "all_resident s1" "pcbs s1 = pcbs s" "swapdev s1 = swapdev s"
    "\<forall>i < 4096 * j. get_byte (mem s1) (phys (F @ [f]) i) = get_byte (mem s) (phys F i)"
proof -
  have i: "4096 * j < 4096 * N" using j by simp
  note va = region_va [OF reg i]
  have n: "2 * (N - j) = Suc (Suc (2 * (N - Suc j)))" "N - j = Suc (N - Suc j)" "3 * (N - j) = Suc (Suc (Suc (3 * (N - Suc j))))" using j by simp_all
  have L1: "mm_ready (2 * (N - j)) (N - j) (3 * (N - j)) s"
    "pt_tree (mem s) pd (kpage ` free_kpages s \<union> upool)" "length F = j" "maps_to (mem s) pd e F" "set F \<inter> free_upages s = {}" "all_resident s" "pgdir (pcbs s p) = pd"
    using L unfolding loading_def by blast+
  note L' = L1(1) [unfolded n(1,3), unfolded n(2)] L1(2-7)
  obtain f s1 a where A: "alloc_page_helper ops (e + word_of_nat (4096 * j)) pd p s = Some (USER_MEM_BASE + PAGE_SIZE * word_of_nat f, s1)"
    "f \<in> free_upages s" "free_upages s1 = free_upages s - {f}" "uva2pte (mem s1) (e + word_of_nat (4096 * j)) pd = Some a"
    "get_pa (mem s1 a) = kva2pa (USER_MEM_BASE + PAGE_SIZE * word_of_nat f)" "get_attribute (mem s1 a) USER_BITS = USER_BITS"
    "\<forall>va' b. user_va va' \<and> uva2pte (mem s) va' pd = Some b \<longrightarrow> uva2pte (mem s1) va' pd = Some b \<and> (b \<noteq> a \<longrightarrow> mem s1 b = mem s b)"
    "pt_tree (mem s1) pd (kpage ` free_kpages s1 \<union> upool)" "quiet upool s s1" "mm_ready (2 * (N - Suc j)) (N - Suc j) (3 * (N - Suc j)) s1"
    using alloc_maps_in [OF L'(1,2) va(2,3) upool_no_kpage, of ops p] by blast
  have f: "f < FREE_USER_PAGE_NUM" "f \<notin> set F" using A(2) L'(5) by (auto simp: free_upages_def)
  have M: "maps_to (mem s1) pd e (F @ [f])"
    by (rule maps_to_snoc [OF reg _ A(8) L'(4) f(2,1) _ _ _ A(7)]) (use L'(3) j A(4,5) user_present [OF A(6)] in \<open>simp_all add: upage_def\<close>)
  have "get_byte (mem s1) (phys (F @ [f]) k) = get_byte (mem s) (phys F k)" if k: "k < 4096 * j" for k
  proof -
    have d: "k div 4096 < length F" using page_index [OF k] L'(3) by simp
    then have g: "F ! (k div 4096) < FREE_USER_PAGE_NUM" using L'(4) by (simp add: maps_to_def)
    have "mem s1 (cell_of (phys F k)) = mem s (cell_of (phys F k))" unfolding phys_def
      using A(9) upage_props [OF g] upage_cell(3) [OF g, of "k mod 4096"] by (simp add: quiet_def)
    then show ?thesis using d by (simp add: phys_def nth_append get_byte_def)
  qed
  moreover have "all_resident s1" "pcbs s1 = pcbs s" "swapdev s1 = swapdev s" using A(9) L'(6) by (simp_all add: quiet_def all_resident_def)
  moreover have "set (F @ [f]) \<inter> free_upages s1 = {}" using A(3) L'(5) by auto
  ultimately show thesis using that [of f s1] A(1,8,10) f M L'(7) by (simp add: upage_def)
qed

lemma loading_store:
  assumes L: "loading ops bs pd e N sn fs j num ptr F p s" and reg: "region e N" "j < N"
    and f: "f < FREE_USER_PAGE_NUM" "f \<notin> set F" "mm_ready (2 * (N - Suc j)) (N - Suc j) (3 * (N - Suc j)) s1"
    "pt_tree (mem s1) pd (kpage ` free_kpages s1 \<union> upool)" "maps_to (mem s1) pd e (F @ [f])"
    "set (F @ [f]) \<inter> free_upages s1 = {}" "all_resident s1" "pcbs s1 = pcbs s" "swapdev s1 = swapdev s"
    "\<forall>i < 4096 * j. get_byte (mem s1) (phys (F @ [f]) i) = get_byte (mem s) (phys F i)"
    and w: "length ws \<le> 512"
    and new: "\<And>i. i < 4096 \<Longrightarrow> 4096 * j + i < 512 * sn \<Longrightarrow> i < 8 * length ws \<and> cells_bytes ws ! i = bs ! (512 * fs + (4096 * j + i))"
    and n: "unat num' = sn - 8 * Suc j" "8 * Suc j < sn \<Longrightarrow> unat ptr' = fs + 8 * Suc j"
  shows "loading ops bs pd e N sn fs (Suc j) num' ptr' (F @ [f]) p (s1\<lparr>mem := store_cells (upage f) ws (mem s1)\<rparr>)"
proof -
  let ?m = "store_cells (upage f) ws (mem s1)"
  have o: "outside upool (mem s1) ?m" by (rule store_bytes(3) [OF f(1) w, of 0]) simp
  have len: "length F = j" using L by (simp add: loading_def)
  have T: "pt_tree ?m pd (kpage ` free_kpages s1 \<union> upool)" by (rule tree_kept(1) [OF f(4) o])
  have M: "maps_to ?m pd e (F @ [f])" using maps_kept [OF f(4) o reg(1) _ f(5)] len reg(2) by simp
  have old: "get_byte ?m (phys (F @ [f]) i) = bs ! (512 * fs + i)" if i: "i < 4096 * j" "i < 512 * sn" for i
  proof -
    have d: "i div 4096 < length F" using page_index [OF i(1)] len by simp
    then have g: "F ! (i div 4096) < FREE_USER_PAGE_NUM" "F ! (i div 4096) \<noteq> f" using f(2,5) by (auto simp: maps_to_def)
    have "get_byte ?m (phys (F @ [f]) i) = get_byte (mem s1) (phys (F @ [f]) i)"
      using store_bytes(2) [OF f(1) w _ g, of "i mod 4096" "mem s1"] d by (simp add: phys_def nth_append)
    then show ?thesis using f(10) i L by (simp add: loading_def)
  qed
  have "get_byte ?m (phys (F @ [f]) i) = bs ! (512 * fs + i)" if i: "i < 4096 * Suc j" "i < 512 * sn" for i
  proof (cases "i < 4096 * j")
    case True
    then show ?thesis using old i(2) by blast
  next
    case False
    define k where "k = i - 4096 * j"
    have k: "i = 4096 * j + k" "k < 4096" using False i(1) by (simp_all add: k_def)
    then have "phys (F @ [f]) i = upage f + word_of_nat k" using len by (simp add: phys_def nth_append)
    then show ?thesis using new [OF k(2)] i(2) k(1) store_bytes(1) [OF f(1) w k(2)] by simp
  qed
  then show ?thesis unfolding loading_def using f(3,6-9) T M len n L by (simp add: loading_def all_resident_def)
qed

lemma loading_step:
  assumes reg: "region e N" "j < N" and L: "loading ops bs pd e N sn fs j num ptr F p s"
    and card: "512 * (fs + sn) \<le> length bs" "sn < 2 ^ 22" "fs + sn < 2 ^ 32"
  shows "\<exists>num' ptr' F' s'. load_pages ops (Suc n) (e + word_of_nat (4096 * j)) num ptr p s =
      load_pages ops n (e + word_of_nat (4096 * Suc j)) num' ptr' p s' \<and> loading ops bs pd e N sn fs (Suc j) num' ptr' F' p s' \<and> pcbs s' = pcbs s"
proof -
  obtain f s1 where f: "alloc_page_helper ops (e + word_of_nat (4096 * j)) (pgdir (pcbs s p)) p s = Some (upage f, s1)"
    "f < FREE_USER_PAGE_NUM" "f \<notin> set F" "mm_ready (2 * (N - Suc j)) (N - Suc j) (3 * (N - Suc j)) s1"
    "pt_tree (mem s1) pd (kpage ` free_kpages s1 \<union> upool)" "maps_to (mem s1) pd e (F @ [f])"
    "set (F @ [f]) \<inter> free_upages s1 = {}" "all_resident s1" "pcbs s1 = pcbs s" "swapdev s1 = swapdev s"
    "\<forall>i < 4096 * j. get_byte (mem s1) (phys (F @ [f]) i) = get_byte (mem s) (phys F i)"
    using loading_page [OF reg L] .
  note store = loading_store [OF L reg f(2-11)]
  have q: "unat num = sn - 8 * j" "8 * j < sn \<Longrightarrow> unat ptr = fs + 8 * j" "card_holds ops (swapdev s1) bs"
    using L f(10) by (simp_all add: loading_def)
  have u: "unat (num * 512) = 512 * unat num" using q(1) card(2) by (simp add: unat_word_ariths(2))
  have next_va: "e + word_of_nat (4096 * j) + 0x1000 = e + word_of_nat (4096 * Suc j)" by (simp add: algebra_simps)
  have test: "num * 512 \<ge> 4096 \<longleftrightarrow> 8 \<le> unat num" by (simp add: word_le_nat_alt u)
  consider (full) "8 \<le> unat num" | (part) "0 < unat num" "unat num < 8" | (none) "unat num = 0" by linarith
  then show ?thesis
  proof cases
    case full
    then have j: "8 * j + 8 \<le> sn" "unat ptr = fs + 8 * j" using q(1,2) by simp_all
    let ?ws = "dsk_rd ops 8 ptr (swapdev s1)"
    note R = card_read [OF q(3), of 8 ptr]
    have r: "512 * unat ptr + 512 * 8 \<le> length bs" using j card(1) by simp
    have n: "unat (num - 8) = sn - 8 * Suc j" using full q(1) by (simp add: unat_sub word_le_nat_alt)
    have pt: "unat (ptr + 8) = fs + 8 * Suc j" using j card(3) by (simp add: unat_word_ariths(1))
    have run: "load_pages ops (Suc n) (e + word_of_nat (4096 * j)) num ptr p s =
        load_pages ops n (e + word_of_nat (4096 * Suc j)) (num - 8) (ptr + 8) p (s1\<lparr>mem := store_cells (upage f) ?ws (mem s1)\<rparr>)"
      using f(1) full test by (simp only: load_pages.simps bind.bind_lunit prod.case if_True next_va)
    have "loading ops bs pd e N sn fs (Suc j) (num - 8) (ptr + 8) (F @ [f]) p (s1\<lparr>mem := store_cells (upage f) ?ws (mem s1)\<rparr>)"
      by (rule store) (use R r n pt j(2) in \<open>simp_all add: algebra_simps\<close>)
    then show ?thesis using run f(9)
      by (intro exI [of _ "num - 8"] exI [of _ "ptr + 8"] exI [of _ "F @ [f]"] exI [of _ "s1\<lparr>mem := store_cells (upage f) ?ws (mem s1)\<rparr>"] conjI) (assumption | simp)+
  next
    case part
    then have j: "8 * j < sn" "unat ptr = fs + 8 * j" using q(1,2) by simp_all
    let ?ws = "dsk_rd ops (unat num) ptr (swapdev s1)"
    note R = card_read [OF q(3), of "unat num" ptr]
    have r: "512 * unat ptr + 512 * unat num \<le> length bs" using j card(1) q(1) by simp
    have run: "load_pages ops (Suc n) (e + word_of_nat (4096 * j)) num ptr p s =
        load_pages ops n (e + word_of_nat (4096 * Suc j)) 0 ptr p (s1\<lparr>mem := store_cells (upage f) ?ws (mem s1)\<rparr>)"
      using f(1) part test by (simp add: word_less_nat_alt ac_simps)
    have "loading ops bs pd e N sn fs (Suc j) 0 ptr (F @ [f]) p (s1\<lparr>mem := store_cells (upage f) ?ws (mem s1)\<rparr>)"
      by (rule store) (use R r part q(1) j in \<open>simp_all add: algebra_simps\<close>)
    then show ?thesis using run f(9)
      by (intro exI [of _ "0"] exI [of _ "ptr"] exI [of _ "F @ [f]"] exI [of _ "s1\<lparr>mem := store_cells (upage f) ?ws (mem s1)\<rparr>"] conjI) (assumption | simp)+
  next
    case none
    have run: "load_pages ops (Suc n) (e + word_of_nat (4096 * j)) num ptr p s =
        load_pages ops n (e + word_of_nat (4096 * Suc j)) num ptr p (s1\<lparr>mem := store_cells (upage f) [] (mem s1)\<rparr>)"
      using f(1) none test by (simp add: word_less_nat_alt ac_simps)
    have "loading ops bs pd e N sn fs (Suc j) num ptr (F @ [f]) p (s1\<lparr>mem := store_cells (upage f) [] (mem s1)\<rparr>)"
      by (rule store) (use none q(1) in simp_all)
    then show ?thesis using run f(9)
      by (intro exI [of _ "num"] exI [of _ "ptr"] exI [of _ "F @ [f]"] exI [of _ "s1\<lparr>mem := store_cells (upage f) [] (mem s1)\<rparr>"] conjI) (assumption | simp)+
  qed
qed

lemma load_pages_ok:
  assumes reg: "region e N" and card: "512 * (fs + sn) \<le> length bs" "sn < 2 ^ 22" "fs + sn < 2 ^ 32"
    and "j + n = N" "loading ops bs pd e N sn fs j num ptr F p s"
  shows "\<exists>num' ptr' F' s'. load_pages ops n (e + word_of_nat (4096 * j)) num ptr p s = Some s' \<and>
    loading ops bs pd e N sn fs N num' ptr' F' p s' \<and> pcbs s' = pcbs s"
  using assms(5,6)
proof (induction n arbitrary: j num ptr F s)
  case 0
  then show ?case by (intro exI [of _ num] exI [of _ ptr] exI [of _ F] exI [of _ s]) simp
next
  case (Suc n)
  have j: "j < N" "Suc j + n = N" using Suc.prems(1) by simp_all
  obtain num' ptr' F' s' where step: "load_pages ops (Suc n) (e + word_of_nat (4096 * j)) num ptr p s =
      load_pages ops n (e + word_of_nat (4096 * Suc j)) num' ptr' p s'"
    "loading ops bs pd e N sn fs (Suc j) num' ptr' F' p s'" "pcbs s' = pcbs s"
    using loading_step [OF reg j(1) Suc.prems(2) card, of n] by blast
  show ?case unfolding step(1) using Suc.IH [OF j(2) step(2)] step(3) by simp
qed

section \<open>The whole program\<close>

definition load_pagenum :: "task_info_t \<Rightarrow> u32" where
  "load_pagenum t = (let m = ti_memsize t + 512 in m div 4096 + (if m mod 4096 \<noteq> 0 then 1 else 0))"

text \<open>The state in which a program can be loaded for \<open>p\<close>: enough free pages and page nodes, page tables that are
  a tree and lie in none of the pages that may be handed out, no page of a process swapped out.\<close>

definition load_ready :: "pcbref \<Rightarrow> nat \<Rightarrow> ('d, 'a) mmst_scheme \<Rightarrow> bool" where
  "load_ready p N s \<longleftrightarrow> mm_ready (2 * N) N (3 * N) s \<and> pt_tree (mem s) (pgdir (pcbs s p)) (kpage ` free_kpages s \<union> upool) \<and> all_resident s"

lemma loaded_nth:
  assumes "512 * (unat (ti_firstsector t) + unat (ti_sector_num t)) \<le> length bs" "i < 512 * unat (ti_sector_num t) - unat (ti_offset t)"
  shows "loaded bs t ! i = bs ! (512 * unat (ti_firstsector t) + unat (ti_offset t) + i)"
  unfolding loaded_def using assms by (simp add: nth_bget add.assoc)

lemma load_task_img_loaded:
  assumes reg: "region (ti_entrypoint t) (unat (load_pagenum t))" and rdy: "load_ready p (unat (load_pagenum t)) s"
    and card: "card_holds ops (swapdev s) bs" "512 * (unat (ti_firstsector t) + unat (ti_sector_num t)) \<le> length bs"
    and sec: "unat (ti_firstsector t) + unat (ti_sector_num t) < 2 ^ 22" "512 * unat (ti_sector_num t) \<le> 4096 * unat (load_pagenum t)"
    and off: "unat (ti_offset t) \<le> 512 * unat (ti_sector_num t)"
  shows "\<exists>s'. load_task_img ops p t s = Some s' \<and> (\<forall>i < 512 * unat (ti_sector_num t) - unat (ti_offset t).
    \<exists>a. user_addr (mem s') (pgdir (pcbs s p)) (ti_entrypoint t + word_of_nat i) = Some a \<and> get_byte (mem s') a = loaded bs t ! i)"
proof -
  define N pd e sn fs c where "N = unat (load_pagenum t)" and "pd = pgdir (pcbs s p)" and "e = ti_entrypoint t"
    and "sn = unat (ti_sector_num t)" and "fs = unat (ti_firstsector t)" and "c = unat (ti_offset t)"
  note defs = N_def [symmetric] pd_def [symmetric] e_def [symmetric] sn_def [symmetric] fs_def [symmetric] c_def [symmetric]
  note A = assms [unfolded defs]
  have "loading ops bs pd e N sn fs 0 (ti_sector_num t) (ti_firstsector t) [] p s"
    using A(2,3) by (simp add: loading_def load_ready_def maps_to_def sn_def fs_def pd_def)
  then obtain num ptr F s1 where s1: "load_pages ops N e (ti_sector_num t) (ti_firstsector t) p s = Some s1"
      "loading ops bs pd e N sn fs N num ptr F p s1" "pcbs s1 = pcbs s"
    using load_pages_ok [OF A(1,4), of 0 N] A(5) by fastforce
  have L: "pt_tree (mem s1) pd (kpage ` free_kpages s1 \<union> upool)" "maps_to (mem s1) pd e F" "length F = N" "all_resident s1"
    "\<forall>i < 4096 * N. i < 512 * sn \<longrightarrow> get_byte (mem s1) (phys F i) = bs ! (512 * fs + i)" using s1(2) by (simp_all add: loading_def)
  define n where "n = 512 * sn - c"
  have n: "c + n \<le> 4096 * N" "n \<le> 4096 * N" using A(6,7) by (simp_all add: n_def)
  obtain m' where m': "my_memcpy ops n (e + word_of_nat 0) (e + word_of_nat c) pd p s1 = Some (s1\<lparr>mem := m'\<rparr>)" "outside upool (mem s1) m'"
    "\<forall>i < 4096 * N. get_byte m' (phys F i) = get_byte (mem s1) (phys F (if 0 \<le> i \<and> i < 0 + n then i + (c - 0) else i))"
    using my_memcpy_moves [OF A(1) L(1-4) le0 n(1), of ops p] by blast
  have M: "maps_to m' pd e F" using maps_kept [OF L(1) m'(2) A(1) _ L(2)] L(3) by simp
  have len: "unat (512 * ti_sector_num t - ti_offset t) = n"
  proof -
    have "unat (512 * ti_sector_num t) = 512 * sn" using A(5) by (simp add: sn_def unat_word_ariths(2))
    then show ?thesis using A(7) by (simp add: n_def c_def unat_sub word_le_nat_alt)
  qed
  have oc: "(ucast (ti_offset t) :: u64) = word_of_nat c" by (simp add: c_def)
  have "load_task_img ops p t s = load_pages ops N e (ti_sector_num t) (ti_firstsector t) p s \<bind>
      (\<lambda>s1. my_memcpy ops (unat (512 * ti_sector_num t - ti_offset t)) e (e + ucast (ti_offset t)) (pgdir (pcbs s1 p)) p s1)"
    unfolding load_task_img_def N_def e_def load_pagenum_def Let_def ..
  then have run: "load_task_img ops p t s = Some (s1\<lparr>mem := m'\<rparr>)" using s1(1,3) m'(1) len oc by (simp add: pd_def)
  have "\<exists>a. user_addr m' pd (e + word_of_nat i) = Some a \<and> get_byte m' a = loaded bs t ! i" if i: "i < n" for i
  proof (intro exI conjI)
    show "user_addr m' pd (e + word_of_nat i) = Some (phys F i)" using maps_user_addr [OF A(1) M L(3)] i n(2) by simp
    have "get_byte m' (phys F i) = get_byte (mem s1) (phys F (i + c))" using m'(3) i n(2) by simp
    also have "\<dots> = bs ! (512 * fs + (i + c))" using L(5) i n(1) by (simp add: n_def)
    also have "\<dots> = loaded bs t ! i" using loaded_nth [OF assms(4), of i] i by (simp add: n_def sn_def fs_def c_def ac_simps)
    finally show "get_byte m' (phys F i) = loaded bs t ! i" .
  qed
  then show ?thesis using run by (intro exI [of _ "s1\<lparr>mem := m'\<rparr>"]) (simp add: defs n_def)
qed

section \<open>From the program file to its address space\<close>

text \<open>A program that the loader can hold: no segment is larger in the file than in memory, and the pages it asks for lie in the
  user half from its entry point on.\<close>

definition prog_fits :: "bytes \<Rightarrow> bool" where
  "prog_fits c \<longleftrightarrow> (\<forall>i < nphdrs c. p_type (phdr_at c i) = PT_LOAD \<longrightarrow> unat (p_filesz (phdr_at c i)) \<le> unat (get_memsz (phdr_at c i))) \<and>
     mem_from c 0 < 2 ^ 31 \<and> region (e_entry (elf_ehdr_at c)) ((mem_from c 0 + 512 + 4095) div 4096)"

lemma load_bytes_fit:
  assumes "prog_fits c"
  shows "length (load_bytes c) \<le> mem_from c 0"
proof -
  have "length (seg_bytes c (phdr_at c i)) \<le> (if p_type (phdr_at c i) = PT_LOAD then unat (get_memsz (phdr_at c i)) else 0)"
    if "i < nphdrs c" for i
  proof (cases "p_type (phdr_at c i) = PT_LOAD")
    case True
    then show ?thesis using assms that by (simp add: prog_fits_def seg_bytes_def min.coboundedI1)
  qed (simp add: seg_bytes_def)
  then have "sum_list (map (\<lambda>i. length (seg_bytes c (phdr_at c i))) [0..<nphdrs c]) \<le> mem_from c 0"
    unfolding mem_from_def by (intro sum_list_mono) simp
  then show ?thesis by (simp add: load_bytes_def segs_from_def length_concat comp_def)
qed

lemma page_ceil:
  "x div 4096 + (if x mod 4096 \<noteq> 0 then 1 else 0) = (x + 4095) div 4096" "x \<le> 4096 * ((x + 4095) div 4096)" for x :: nat
proof -
  define q r where "q = x div 4096" and "r = x mod 4096"
  have x: "x = 4096 * q + r" "r < 4096" unfolding q_def r_def by simp_all
  have "(x + 4095) div 4096 = q + (if r \<noteq> 0 then 1 else 0)" using x by (intro div_nat_eqI) auto
  then show "x div 4096 + (if x mod 4096 \<noteq> 0 then 1 else 0) = (x + 4095) div 4096" unfolding q_def r_def by (rule sym)
  have "4096 * ((x + 4095) div 4096) + (x + 4095) mod 4096 = x + 4095" "(x + 4095) mod 4096 < 4096" by simp_all
  then show "x \<le> 4096 * ((x + 4095) div 4096)" by linarith
qed

lemma unat_load_pagenum:
  assumes "ti_memsize t = word_of_nat n" "n < 2 ^ 31"
  shows "unat (load_pagenum t) = (n + 512 + 4095) div 4096"
proof -
  define m where "m = ti_memsize t + 512"
  have m: "unat m = n + 512" using assms by (simp add: m_def unat_word_ariths(1) unat_of_nat)
  have um: "unat (m mod 4096) = unat m mod 4096" by (simp add: unat_mod)
  have z: "m mod 4096 = 0 \<longleftrightarrow> unat m mod 4096 = 0" unfolding um [symmetric] unat_0_iff ..
  have "unat (load_pagenum t) = unat m div 4096 + (if unat m mod 4096 \<noteq> 0 then 1 else 0)"
  proof (cases "m mod 4096 = 0")
    case True
    then show ?thesis using z by (simp add: load_pagenum_def m_def [symmetric] unat_div)
  next
    case False
    then show ?thesis using z m assms(2) by (simp add: load_pagenum_def m_def [symmetric] unat_word_ariths(1) unat_div)
  qed
  then show ?thesis unfolding m page_ceil(1) .
qed

text \<open>C12: A program reaches its address space as it was built: createimage puts the file of the program into the image, and when
  the kernel loads it with the entry of the image's table, from a card that begins with the image, every byte of the
  file's loadable segments is at its place from the entry point on, read through the page tables of the new process. This holds
  whenever enough pages and page nodes are free, for every position of the program in the image and every number of pages.\<close>

theorem program_loaded:
  assumes boot: "fopen (c_lit ''bootblock'') = Some cb" "elf_ok cb" "length (load_bytes cb) \<le> 0x1f2"
    and kernel: "fopen (c_lit ''main'') = Some ck" "elf_ok ck"
    and progs: "\<forall>p \<in> set ps. prog_ok fopen p" "length ps \<le> 16"
    and small: "512 + length (load_bytes ck) + 88 * length ps + length (progs_bytes ps) < 0xFFFE00"
    and img: "createimage_main fopen (c_lit ''bootblock'' # c_lit ''main'' # map fst ps) = Some img"
    and k: "k < length ps" "prog_fits (snd (ps ! k))" "t = image_task_at img k"
    and card: "card_holds ops (swapdev s) (img @ pad)" "511 \<le> length pad" and rdy: "load_ready p (unat (load_pagenum t)) s"
  shows "\<exists>s'. load_task_img ops p t s = Some s' \<and> (\<forall>i < length (load_bytes (snd (ps ! k))).
    \<exists>a. user_addr (mem s') (pgdir (pcbs s p)) (e_entry (elf_ehdr_at (snd (ps ! k))) + word_of_nat i) = Some a \<and>
      get_byte (mem s') a = load_bytes (snd (ps ! k)) ! i)"
proof -
  let ?c = "snd (ps ! k)"
  let ?n = "length (load_bytes ?c)"
  obtain st where T: "image_task_at img k = prog_entry (st k) (ps ! k)" "st k + ?n < 2 ^ 24" "st k + ?n \<le> length img"
      "bget (st k) ?n img = load_bytes ?c"
  proof -
    obtain img' st where "createimage_main fopen (c_lit ''bootblock'' # c_lit ''main'' # map fst ps) = Some img'"
      "\<forall>k < length ps. image_task_at img' k = prog_entry (st k) (ps ! k) \<and> st k + length (load_bytes (snd (ps ! k))) < 2 ^ 24 \<and>
         st k + length (load_bytes (snd (ps ! k))) \<le> length img' \<and>
         bget (st k) (length (load_bytes (snd (ps ! k)))) img' = load_bytes (snd (ps ! k))"
      using image_made [OF boot kernel progs small] .
    then show thesis using that [of st] img k(1) by simp
  qed
  have t: "t = prog_entry (st k) (ps ! k)" using k(3) T(1) by simp
  note S = entry_sectors [OF T(2), where nm = "name_field (the (cstr (fst (ps ! k))))" and eh = "elf_ehdr_at ?c" and ms = "mem_from ?c 0",
    folded prog_entry_def t]
  note E = prog_entry_fields(3,4) [of fopen "ps ! k", OF _ t]
  have ok: "prog_ok fopen (ps ! k)" using progs(1) k(1) by simp
  have N: "unat (load_pagenum t) = (mem_from ?c 0 + 512 + 4095) div 4096"
    using unat_load_pagenum [OF E(2) [OF ok]] k(2) by (simp add: prog_fits_def)
  have reg: "region (ti_entrypoint t) (unat (load_pagenum t))" unfolding N E(1) [OF ok] using k(2) by (simp add: prog_fits_def)
  have room: "512 * (unat (ti_firstsector t) + unat (ti_sector_num t)) \<le> st k + ?n + 511" using S(1,4) by simp
  have d: "512 * (st k div 512) + st k mod 512 = st k" "st k mod 512 < 512" by simp_all
  have "mem_from ?c 0 + 512 \<le> 4096 * unat (load_pagenum t)" unfolding N by (rule page_ceil(2))
  then have pages: "512 * unat (ti_sector_num t) \<le> 4096 * unat (load_pagenum t)"
    using load_bytes_fit [OF k(2)] room d S(1) by simp
  have off: "?n \<le> 512 * unat (ti_sector_num t) - unat (ti_offset t)" "unat (ti_offset t) \<le> 512 * unat (ti_sector_num t)"
    using S(2,3) by simp_all
  have sec: "512 * (unat (ti_firstsector t) + unat (ti_sector_num t)) \<le> length (img @ pad)"
    "unat (ti_firstsector t) + unat (ti_sector_num t) < 2 ^ 22" using room T(2,3) card(2) by simp_all
  have "bget (st k) ?n (img @ pad) = load_bytes ?c" using T(3,4) by (simp add: bget_def)
  then have pre: "take ?n (loaded (img @ pad) t) = load_bytes ?c" using loaded_prefix [OF t T(2)] by blast
  have "loaded (img @ pad) t ! i = load_bytes ?c ! i" if "i < ?n" for i using nth_take [OF that, of "loaded (img @ pad) t"] pre by simp
  moreover have "i < 512 * unat (ti_sector_num t) - unat (ti_offset t)" if "i < ?n" for i using that off(1) by (rule less_le_trans)
  ultimately show ?thesis
    using load_task_img_loaded [OF reg rdy card(1) sec pages off(2), unfolded E(1) [OF ok]] by fastforce
qed

section \<open>An example\<close>

text \<open>A card with sectors of 64 cells, and the card that holds given bytes.\<close>

definition card_ops :: "(u32 \<Rightarrow> u64 list) swap_ops" where
  "card_ops = \<lparr>dsk_rd = (\<lambda>n a d. concat (map (\<lambda>i. d (a + word_of_nat i)) [0..<n])),
     dsk_wr = (\<lambda>n a x d b. if unat a \<le> unat b \<and> unat b < unat a + n then take 64 (drop (64 * (unat b - unat a)) x) else d b)\<rparr>"

definition card_with :: "bytes \<Rightarrow> u32 \<Rightarrow> u64 list" where
  "card_with bs a = map (\<lambda>j. word_of_nat (le_val (bget (512 * unat a + 8 * j) 8 bs))) [0..<64]"

lemma bget_chunks: "concat (map (\<lambda>j. bget (off + w * j) w bs) [0..<n]) = bget off (w * n) bs"
proof (induction n)
  case (Suc n)
  have "bget off (w * Suc n) bs = bget off (w * n) bs @ bget (off + w * n) w bs" using bget_plus [of off "w * n" w bs] by (simp add: add.commute)
  then show ?case using Suc by simp
qed (simp add: bget_def)

lemma card_with_sector:
  assumes "512 * unat a + 512 \<le> length bs"
  shows "cells_bytes (card_with bs a) = bget (512 * unat a) 512 bs"
proof -
  have b: "le_bytes 8 (unat (word_of_nat (le_val (bget (512 * unat a + 8 * j) 8 bs)) :: u64)) = bget (512 * unat a + 8 * j) 8 bs" if "j < 64" for j
  proof -
    let ?b = "bget (512 * unat a + 8 * j) 8 bs"
    have l: "length ?b = 8" using assms that by simp
    then have "le_val ?b < 2 ^ 64" using le_val_bound [of ?b] by simp
    then have "unat (word_of_nat (le_val ?b) :: u64) = le_val ?b" by (simp add: unat_of_nat)
    then show ?thesis using le_bytes_le_val [of ?b] l by simp
  qed
  have "cells_bytes (card_with bs a) = concat (map (\<lambda>j. bget (512 * unat a + 8 * j) 8 bs) [0..<64])"
    unfolding cells_bytes_def card_with_def map_map comp_def using b by (intro arg_cong [where f = concat] map_cong) simp_all
  then show ?thesis using bget_chunks [of "512 * unat a" 8 bs 64] by simp
qed

lemma card_with_holds:
  assumes "length bs < 2 ^ 32"
  shows "card_holds card_ops (card_with bs) bs"
  unfolding card_holds_def
proof (intro allI impI)
  fix n :: nat and sec :: u32 assume *: "n \<le> 8 \<and> 512 * unat sec + 512 * n \<le> length bs"
  have s: "cells_bytes (card_with bs (sec + word_of_nat i)) = bget (512 * unat sec + 512 * i) 512 bs" if "i < n" for i
  proof -
    have "unat sec + i < 2 ^ 32" using * that assms by simp
    then have u: "unat (sec + word_of_nat i) = unat sec + i" by (simp add: unat_word_ariths(1) unat_of_nat)
    show ?thesis using card_with_sector [of "sec + word_of_nat i" bs] * that unfolding u by (simp add: algebra_simps)
  qed
  have "cells_bytes (concat xss) = concat (map cells_bytes xss)" for xss by (induction xss) (simp_all add: cells_bytes_def)
  then have "cells_bytes (dsk_rd card_ops n sec (card_with bs)) = concat (map (\<lambda>i. bget (512 * unat sec + 512 * i) 512 bs) [0..<n])"
    unfolding card_ops_def using s by (simp add: comp_def) (intro arg_cong [where f = concat] map_cong, simp_all)
  then show "cells_bytes (dsk_rd card_ops n sec (card_with bs)) = bget (512 * unat sec) (512 * n) bs" by (simp only: bget_chunks)
qed

lemma demo_fits: "prog_fits demo_elf"
  using demo_elf_facts(5) by (simp add: prog_fits_def demo_elf_facts(3,4) region_def)

text \<open>A kernel with a new process in slot 0, whose page directory is empty, and the card \<open>d\<close>.\<close>

definition demo_load :: "(u32 \<Rightarrow> u64 list) \<Rightarrow> (u32 \<Rightarrow> u64 list) mmst" where
  "demo_load d = demo_empty\<lparr>swapdev := d, pcbs := (\<lambda>_. (demo_pcbs (Pcb 0))\<lparr>pgdir := PGDIR_VA\<rparr>)\<rparr>"

lemma demo_load_facts: "swapdev (demo_load d) = d" "pgdir (pcbs (demo_load d) (Pcb 0)) = PGDIR_VA"
  by (simp_all add: demo_load_def)

lemma demo_load_ready: "load_ready (Pcb 0) 1 (demo_load d)"
proof -
  let ?s = "demo_load d"
  have f: "free_kpages ?s = free_kpages demo_empty" "free_upages ?s = free_upages demo_empty" "free_nodes ?s = free_nodes demo_empty"
    by (simp_all add: free_kpages_def free_upages_def free_nodes_def demo_load_def)
  have r: "mm_ready (2 * 1) 1 (3 * 1) ?s" using demo_empty_ready f by (simp add: mm_ready_def) (simp add: demo_load_def)
  have "PGDIR_VA \<noteq> upage f" if "f < FREE_USER_PAGE_NUM" for f
  proof
    assume "PGDIR_VA = upage f"
    then have "unat PGDIR_VA = 0xffffffc054000000 + 4096 * f" using unat_upage [OF that] by metis
    then show False by (simp add: PGDIR_VA_def)
  qed
  then have u: "PGDIR_VA \<notin> upool" by (auto simp: upool_def)
  have z: "sub (mem ?s) t i = None" for t i by (simp add: sub_def demo_load_def demo_empty_def)
  have "pt_tree (mem ?s) PGDIR_VA (kpage ` free_kpages ?s \<union> upool)"
    using pt_treeD(1,2) [OF demo_empty_tree] u unfolding pt_tree_def z f by simp
  moreover have "all_resident ?s" by (simp add: all_resident_def demo_load_def demo_empty_def demo_mm_def demo_plinks_def Let_def)
  ultimately show ?thesis using r by (simp add: load_ready_def demo_load_facts)
qed

theorem program_loaded_witness:
  "\<exists>img s'. createimage_main (\<lambda>_. Some demo_elf) [c_lit ''bootblock'', c_lit ''main'', c_lit ''app''] = Some img \<and>
    load_task_img card_ops (Pcb 0) (image_task_at img 0) (demo_load (card_with (img @ replicate 512 0))) = Some s' \<and>
    (\<exists>a. user_addr (mem s') PGDIR_VA 0x10000 = Some a \<and> get_byte (mem s') a = 7)"
proof -
  let ?ps = "[(c_lit ''app'', demo_elf)]"
  note H = demo_elf_facts(1) demo_elf_facts(2) demo_app
  have A: "(\<lambda>_. Some demo_elf) (c_lit ''bootblock'') = Some demo_elf" "length (load_bytes demo_elf) \<le> 0x1f2"
    "(\<lambda>_. Some demo_elf) (c_lit ''main'') = Some demo_elf" "\<forall>p \<in> set ?ps. prog_ok (\<lambda>_. Some demo_elf) p" "length ?ps \<le> 16"
    "512 + length (load_bytes demo_elf) + 88 * length ?ps + length (progs_bytes ?ps) < 0xFFFE00" using H by simp_all
  obtain img st where img: "createimage_main (\<lambda>_. Some demo_elf) (c_lit ''bootblock'' # c_lit ''main'' # map fst ?ps) = Some img" "length img < 0xFFFE00"
    and T: "\<forall>k < length ?ps. image_task_at img k = prog_entry (st k) (?ps ! k) \<and> st k + length (load_bytes (snd (?ps ! k))) < 2 ^ 24 \<and>
       st k + length (load_bytes (snd (?ps ! k))) \<le> length img \<and>
       bget (st k) (length (load_bytes (snd (?ps ! k)))) img = load_bytes (snd (?ps ! k))"
    using image_made [where fopen = "\<lambda>_. Some demo_elf", OF A(1) H(1) A(2,3) H(1) A(4,5,6)] .
  have t0: "image_task_at img 0 = prog_entry (st 0) (c_lit ''app'', demo_elf)" using T by simp
  let ?s = "demo_load (card_with (img @ replicate 512 0))"
  have "ti_memsize (image_task_at img 0) = word_of_nat 1" using prog_entry_fields(4) [OF demo_app t0] demo_elf_facts(4) by simp
  from unat_load_pagenum [OF this] have "unat (load_pagenum (image_task_at img 0)) = 1" by simp
  then have r: "load_ready (Pcb 0) (unat (load_pagenum (image_task_at img 0))) ?s" using demo_load_ready by simp
  have c: "card_holds card_ops (swapdev ?s) (img @ replicate 512 0)" using card_with_holds [of "img @ replicate 512 0"] img(2) by (simp add: demo_load_facts)
  have k: "0 < length ?ps" "prog_fits (snd (?ps ! 0))" "511 \<le> length (replicate 512 (0 :: u8))" using demo_fits by simp_all
  obtain s' where "load_task_img card_ops (Pcb 0) (image_task_at img 0) ?s = Some s'" "\<forall>i < length (load_bytes (snd (?ps ! 0))).
      \<exists>a. user_addr (mem s') (pgdir (pcbs ?s (Pcb 0))) (e_entry (elf_ehdr_at (snd (?ps ! 0))) + word_of_nat i) = Some a \<and>
        get_byte (mem s') a = load_bytes (snd (?ps ! 0)) ! i"
    using program_loaded [where fopen = "\<lambda>_. Some demo_elf", OF A(1) H(1) A(2,3) H(1) A(4,5,6) img(1) k(1,2) refl c k(3) r] by blast
  then show ?thesis using img(1) H(2) demo_elf_facts(3) by (intro exI [of _ img] exI [of _ s']) (auto simp: demo_load_facts)
qed

end
