(* ===== verification/Smp.thy ===== *)
theory Smp
  imports OS_Prelude
begin

text \<open>
  The lock of the whole kernel: src/kernel/smp/smp.c and \<^verbatim>\<open>atomic_swap\<close> of src/arch/riscv/include/atomic.h. The harts
  interleave: a hart that traps spins in \<^verbatim>\<open>lock_kernel\<close>, one atomic exchange per step, is then inside the kernel
  (\<^verbatim>\<open>exception_handler_entry\<close>, \<^verbatim>\<open>interrupt_helper\<close>), and leaves it through \<^verbatim>\<open>unlock_kernel\<close>
  (\<^verbatim>\<open>ret_from_exception\<close>). Every handler of the other theories is one stay inside the kernel.
\<close>

unbundle bit_operations_syntax

section \<open>The lock\<close>

text \<open>The exchange: the old value and the new contents of the cell.\<close>

definition atomic_swap :: "u32 \<Rightarrow> u32 \<Rightarrow> u32 \<times> u32" where
  "atomic_swap val cell = (cell, val)"

text \<open>One evaluation of the condition of \<^verbatim>\<open>while (atomic_swap(1, hart_lock) != 0)\<close>: whether the loop ends, and the lock.\<close>

definition lock_kernel :: "u32 \<Rightarrow> bool \<times> u32" where
  "lock_kernel l = (case atomic_swap 1 l of (r, l') \<Rightarrow> (r = 0, l'))"

definition unlock_kernel :: "u32 \<Rightarrow> u32" where
  "unlock_kernel l = snd (atomic_swap 0 l)"

definition smp_init :: "u32 \<Rightarrow> u32" where
  "smp_init l = unlock_kernel l"

text \<open>The mask that \<^verbatim>\<open>wakeup_other_hart\<close> passes to \<^verbatim>\<open>send_ipi\<close>.\<close>

definition wakeup_other_hart :: "nat \<Rightarrow> u64" where
  "wakeup_other_hart hartid = NOT (push_bit hartid 1)"

section \<open>The harts\<close>

datatype hart_at = Outside | Spinning | Inside

record smp =
  whole_kernel_lock :: u32
  hart_pc :: "nat \<Rightarrow> hart_at"

inductive hart_step :: "smp \<Rightarrow> smp \<Rightarrow> bool" where
  trap: "hart_pc s h = Outside \<Longrightarrow> hart_step s (s\<lparr>hart_pc := (hart_pc s)(h := Spinning)\<rparr>)"
| spin: "hart_pc s h = Spinning \<Longrightarrow> lock_kernel (whole_kernel_lock s) = (False, l) \<Longrightarrow>
    hart_step s (s\<lparr>whole_kernel_lock := l\<rparr>)"
| enter: "hart_pc s h = Spinning \<Longrightarrow> lock_kernel (whole_kernel_lock s) = (True, l) \<Longrightarrow>
    hart_step s (s\<lparr>whole_kernel_lock := l, hart_pc := (hart_pc s)(h := Inside)\<rparr>)"
| leave: "hart_pc s h = Inside \<Longrightarrow>
    hart_step s (s\<lparr>whole_kernel_lock := unlock_kernel (whole_kernel_lock s), hart_pc := (hart_pc s)(h := Outside)\<rparr>)"

inductive_cases hart_stepE: "hart_step s t"

definition booted :: "u32 \<Rightarrow> smp" where
  "booted l = \<lparr>whole_kernel_lock = smp_init l, hart_pc = \<lambda>_. Outside\<rparr>"

definition one_inside :: "smp \<Rightarrow> bool" where
  "one_inside s \<longleftrightarrow> (\<forall>h h'. hart_pc s h = Inside \<longrightarrow> hart_pc s h' = Inside \<longrightarrow> h = h') \<and>
     (whole_kernel_lock s = 0 \<longleftrightarrow> (\<forall>h. hart_pc s h \<noteq> Inside))"

lemmas lock_ops = lock_kernel_def unlock_kernel_def smp_init_def atomic_swap_def

lemma hart_step_inv:
  assumes "hart_step s t" "one_inside s"
  shows "one_inside t"
  using assms(1)
proof (rule hart_stepE)
  fix h assume "t = s\<lparr>hart_pc := (hart_pc s)(h := Spinning)\<rparr>" "hart_pc s h = Outside"
  then show ?thesis using assms(2) by (simp add: one_inside_def) (metis hart_at.distinct(3))
next
  fix h l assume "t = s\<lparr>whole_kernel_lock := l\<rparr>" "lock_kernel (whole_kernel_lock s) = (False, l)"
  then show ?thesis using assms(2) by (simp add: one_inside_def lock_ops)
next
  fix h l assume "t = s\<lparr>whole_kernel_lock := l, hart_pc := (hart_pc s)(h := Inside)\<rparr>" "lock_kernel (whole_kernel_lock s) = (True, l)"
  then show ?thesis using assms(2) by (auto simp: one_inside_def lock_ops)
next
  fix h assume "t = s\<lparr>whole_kernel_lock := unlock_kernel (whole_kernel_lock s), hart_pc := (hart_pc s)(h := Outside)\<rparr>" "hart_pc s h = Inside"
  then show ?thesis using assms(2) by (auto simp: one_inside_def lock_ops)
qed

lemma hart_steps_inv: "hart_step\<^sup>*\<^sup>* s t \<Longrightarrow> one_inside s \<Longrightarrow> one_inside t"
  by (induction rule: rtranclp_induct) (auto intro: hart_step_inv)



end
