(* ===== verification/Bios.thy ===== *)
theory Bios
  imports OS_Prelude
begin

text \<open>
  The way to the firmware: the inline functions of src/include/os/kernel.h call through the jump table that
  \<^verbatim>\<open>init_jmptab\<close> of src/init/main.c fills, its functions are those of src/arch/riscv/bios/common.c, and these call the
  firmware at a fixed address. The firmware itself is not in the repository: here a call is the list of the eight
  registers it is made with, and the theories that use the SD card, the console or the timer take the answer as a parameter.
\<close>

section \<open>The firmware calls\<close>

definition BIOS_SETTIMER :: u64 where "BIOS_SETTIMER = 0"
definition BIOS_PUTCHAR :: u64 where "BIOS_PUTCHAR = 1"
definition BIOS_GETCHAR :: u64 where "BIOS_GETCHAR = 2"
definition BIOS_SEND_IPI :: u64 where "BIOS_SEND_IPI = 4"
definition BIOS_PUTSTR :: u64 where "BIOS_PUTSTR = 9"
definition BIOS_SDWRITE :: u64 where "BIOS_SDWRITE = 10"
definition BIOS_SDREAD :: u64 where "BIOS_SDREAD = 11"
definition BIOS_FDTREAD :: u64 where "BIOS_FDTREAD = 12"
definition BIOS_LOGGING :: u64 where "BIOS_LOGGING = 14"

definition call_bios :: "u64 \<Rightarrow> u64 \<Rightarrow> u64 \<Rightarrow> u64 \<Rightarrow> u64 \<Rightarrow> u64 \<Rightarrow> u64 list" where
  "call_bios which arg0 arg1 arg2 arg3 arg4 = [arg0, arg1, arg2, arg3, arg4, 0, 0, which]"

definition port_write_ch :: "u8 \<Rightarrow> u64 list" where
  "port_write_ch ch = call_bios BIOS_PUTCHAR (ucast ch) 0 0 0 0"

definition port_write :: "u64 \<Rightarrow> u64 list" where
  "port_write str = call_bios BIOS_PUTSTR str 0 0 0 0"

definition port_read_ch :: "u64 list" where
  "port_read_ch = call_bios BIOS_GETCHAR 0 0 0 0 0"

definition sd_read :: "u32 \<Rightarrow> u32 \<Rightarrow> u32 \<Rightarrow> u64 list" where
  "sd_read mem_address num_of_blocks block_id = call_bios BIOS_SDREAD (ucast mem_address) (ucast num_of_blocks) (ucast block_id) 0 0"

definition sd_write :: "u32 \<Rightarrow> u32 \<Rightarrow> u32 \<Rightarrow> u64 list" where
  "sd_write mem_address num_of_blocks block_id = call_bios BIOS_SDWRITE (ucast mem_address) (ucast num_of_blocks) (ucast block_id) 0 0"

definition set_timer :: "u64 \<Rightarrow> u64 list" where
  "set_timer stime_value = call_bios BIOS_SETTIMER stime_value 0 0 0 0"

datatype FDT_TYPE = TIMEBASE | SLCR_BADE_ADDR | ETHERNET_ADDR | PLIC_ADDR | NR_IRQS

definition fdt_type_no :: "FDT_TYPE \<Rightarrow> u32" where
  "fdt_type_no t = (case t of TIMEBASE \<Rightarrow> 0 | SLCR_BADE_ADDR \<Rightarrow> 1 | ETHERNET_ADDR \<Rightarrow> 2 | PLIC_ADDR \<Rightarrow> 3 | NR_IRQS \<Rightarrow> 4)"

definition read_fdt :: "u32 \<Rightarrow> u64 list" where
  "read_fdt type = call_bios BIOS_FDTREAD (ucast type) 0 0 0 0"

definition qemu_logging :: "u64 \<Rightarrow> u64 list" where
  "qemu_logging str = call_bios BIOS_LOGGING str 0 0 0 0"

definition send_ipi :: "u64 \<Rightarrow> u64 list" where
  "send_ipi hart_mask = call_bios BIOS_SEND_IPI hart_mask 0 0 0 0"

section \<open>The jump table\<close>

datatype jmptab_idx_t = CONSOLE_PUTSTR | CONSOLE_PUTCHAR | CONSOLE_GETCHAR | SD_READ | SD_WRITE | QEMU_LOGGING | SET_TIMER | READ_FDT
  | MOVE_CURSOR | PRINT | YIELD | MUTEX_INIT | MUTEX_ACQ | MUTEX_RELEASE | SCREEN_FLUSH | SCREEN_WRITE

primrec jmptab_no :: "jmptab_idx_t \<Rightarrow> nat" where
  "jmptab_no CONSOLE_PUTSTR = 0" | "jmptab_no CONSOLE_PUTCHAR = 1" | "jmptab_no CONSOLE_GETCHAR = 2" | "jmptab_no SD_READ = 3"
| "jmptab_no SD_WRITE = 4" | "jmptab_no QEMU_LOGGING = 5" | "jmptab_no SET_TIMER = 6" | "jmptab_no READ_FDT = 7"
| "jmptab_no MOVE_CURSOR = 8" | "jmptab_no PRINT = 9" | "jmptab_no YIELD = 10" | "jmptab_no MUTEX_INIT = 11"
| "jmptab_no MUTEX_ACQ = 12" | "jmptab_no MUTEX_RELEASE = 13" | "jmptab_no SCREEN_FLUSH = 14" | "jmptab_no SCREEN_WRITE = 15"

text \<open>The functions whose addresses are in the table.\<close>

datatype jfun = J_port_write | J_port_write_ch | J_port_read_ch | J_sd_read | J_sd_write | J_qemu_logging | J_set_timer | J_read_fdt
  | J_screen_move_cursor | J_printk | J_do_scheduler | J_do_mutex_lock_init | J_do_mutex_lock_acquire | J_do_mutex_lock_release
  | J_screen_reflush | J_screen_write

definition jmptab_entries :: "(jmptab_idx_t \<times> jfun) list" where
  "jmptab_entries = [(CONSOLE_PUTSTR, J_port_write), (CONSOLE_PUTCHAR, J_port_write_ch), (CONSOLE_GETCHAR, J_port_read_ch),
     (SD_READ, J_sd_read), (SD_WRITE, J_sd_write), (QEMU_LOGGING, J_qemu_logging), (SET_TIMER, J_set_timer), (READ_FDT, J_read_fdt),
     (MOVE_CURSOR, J_screen_move_cursor), (PRINT, J_printk), (YIELD, J_do_scheduler), (MUTEX_INIT, J_do_mutex_lock_init),
     (MUTEX_ACQ, J_do_mutex_lock_acquire), (MUTEX_RELEASE, J_do_mutex_lock_release), (SCREEN_FLUSH, J_screen_reflush),
     (SCREEN_WRITE, J_screen_write)]"

definition KERNEL_JMPTAB_BASE :: u64 where "KERNEL_JMPTAB_BASE = 0xffffffc051ffff00"

definition jmptab_addr :: "nat \<Rightarrow> u64" where
  "jmptab_addr which = KERNEL_JMPTAB_BASE + 8 * word_of_nat which"

definition init_jmptab :: "(u64 \<rightharpoonup> jfun) \<Rightarrow> (u64 \<rightharpoonup> jfun)" where
  "init_jmptab m = foldl (\<lambda>t (i, f). t(jmptab_addr (jmptab_no i) \<mapsto> f)) m jmptab_entries"

text \<open>
  The call of a function with the five registers that \<^verbatim>\<open>call_jmptab\<close> loads; each takes its parameters at their types.
  \<open>None\<close> stands for the functions of the kernel, which do not call the firmware.
\<close>

fun run_jfun :: "jfun \<Rightarrow> u64 list \<Rightarrow> u64 list option" where
  "run_jfun J_port_write [a, _, _, _, _] = Some (port_write a)"
| "run_jfun J_port_write_ch [a, _, _, _, _] = Some (port_write_ch (ucast a))"
| "run_jfun J_port_read_ch [_, _, _, _, _] = Some port_read_ch"
| "run_jfun J_sd_read [a, b, c, _, _] = Some (sd_read (ucast a) (ucast b) (ucast c))"
| "run_jfun J_sd_write [a, b, c, _, _] = Some (sd_write (ucast a) (ucast b) (ucast c))"
| "run_jfun J_qemu_logging [a, _, _, _, _] = Some (qemu_logging a)"
| "run_jfun J_set_timer [a, _, _, _, _] = Some (set_timer a)"
| "run_jfun J_read_fdt [a, _, _, _, _] = Some (read_fdt (ucast a))"
| "run_jfun _ _ = None"

definition call_jmptab :: "(u64 \<rightharpoonup> jfun) \<Rightarrow> jmptab_idx_t \<Rightarrow> u64 list \<Rightarrow> u64 list option" where
  "call_jmptab m which args = do { f \<leftarrow> m (jmptab_addr (jmptab_no which)); run_jfun f args }"

definition bios_putstr :: "(u64 \<rightharpoonup> jfun) \<Rightarrow> u64 \<Rightarrow> u64 list option" where
  "bios_putstr m str = call_jmptab m CONSOLE_PUTSTR [str, 0, 0, 0, 0]"

definition bios_putchar :: "(u64 \<rightharpoonup> jfun) \<Rightarrow> i32 \<Rightarrow> u64 list option" where
  "bios_putchar m ch = call_jmptab m CONSOLE_PUTCHAR [scast ch, 0, 0, 0, 0]"

definition bios_getchar :: "(u64 \<rightharpoonup> jfun) \<Rightarrow> u64 list option" where
  "bios_getchar m = call_jmptab m CONSOLE_GETCHAR [0, 0, 0, 0, 0]"

definition bios_sd_read :: "(u64 \<rightharpoonup> jfun) \<Rightarrow> u32 \<Rightarrow> u32 \<Rightarrow> u32 \<Rightarrow> u64 list option" where
  "bios_sd_read m mem_address num_of_blocks block_id = call_jmptab m SD_READ [ucast mem_address, ucast num_of_blocks, ucast block_id, 0, 0]"

definition bios_sd_write :: "(u64 \<rightharpoonup> jfun) \<Rightarrow> u32 \<Rightarrow> u32 \<Rightarrow> u32 \<Rightarrow> u64 list option" where
  "bios_sd_write m mem_address num_of_blocks block_id = call_jmptab m SD_WRITE [ucast mem_address, ucast num_of_blocks, ucast block_id, 0, 0]"

definition bios_logging :: "(u64 \<rightharpoonup> jfun) \<Rightarrow> u64 \<Rightarrow> u64 list option" where
  "bios_logging m str = call_jmptab m QEMU_LOGGING [str, 0, 0, 0, 0]"

definition bios_timer :: "(u64 \<rightharpoonup> jfun) \<Rightarrow> u64 \<Rightarrow> u64 list option" where
  "bios_timer m stime_value = call_jmptab m SET_TIMER [stime_value, 0, 0, 0, 0]"

definition bios_read_fdt :: "(u64 \<rightharpoonup> jfun) \<Rightarrow> FDT_TYPE \<Rightarrow> u64 list option" where
  "bios_read_fdt m type = call_jmptab m READ_FDT [ucast (fdt_type_no type), 0, 0, 0, 0]"

section \<open>What reaches the firmware\<close>

text \<open>Different entries are in different cells, so each index finds the function that was stored for it.\<close>

lemma jmptab_lookup: "init_jmptab m (jmptab_addr (jmptab_no i)) = map_of jmptab_entries i"
  by (cases i) (simp_all add: init_jmptab_def jmptab_entries_def jmptab_addr_def KERNEL_JMPTAB_BASE_def)

lemma ucast_back: "ucast (ucast (x :: u32) :: u64) = x" "ucast (scast (y :: i32) :: u64) = (ucast y :: u8)"
proof -
  show "ucast (ucast x :: u64) = x" by (simp add: bit_eq_iff bit_simps)
  show "ucast (scast y :: u64) = (ucast y :: u8)" by (auto simp: bit_eq_iff bit_simps bit_signed_iff)
qed

lemma bios_calls:
  "bios_sd_read (init_jmptab m) a n b = Some [ucast a, ucast n, ucast b, 0, 0, 0, 0, BIOS_SDREAD]"
  "bios_sd_write (init_jmptab m) a n b = Some [ucast a, ucast n, ucast b, 0, 0, 0, 0, BIOS_SDWRITE]"
  "bios_putchar (init_jmptab m) ch = Some [ucast (ucast ch :: u8), 0, 0, 0, 0, 0, 0, BIOS_PUTCHAR]"
  "bios_putstr (init_jmptab m) p = Some [p, 0, 0, 0, 0, 0, 0, BIOS_PUTSTR]"
  "bios_getchar (init_jmptab m) = Some [0, 0, 0, 0, 0, 0, 0, BIOS_GETCHAR]"
  "bios_logging (init_jmptab m) p = Some [p, 0, 0, 0, 0, 0, 0, BIOS_LOGGING]"
  "bios_timer (init_jmptab m) t = Some [t, 0, 0, 0, 0, 0, 0, BIOS_SETTIMER]"
  "bios_read_fdt (init_jmptab m) d = Some [ucast (fdt_type_no d), 0, 0, 0, 0, 0, 0, BIOS_FDTREAD]"
  by (simp_all add: bios_sd_read_def bios_sd_write_def bios_putchar_def bios_putstr_def bios_getchar_def bios_logging_def
      bios_timer_def bios_read_fdt_def call_jmptab_def jmptab_lookup jmptab_entries_def ucast_back call_bios_def
      sd_read_def sd_write_def port_write_ch_def port_write_def port_read_ch_def qemu_logging_def set_timer_def read_fdt_def
      del: jmptab_no.simps)

end
