(* ===== verification/Spec2Isabelle.thy ===== *)
theory Spec2Isabelle
  imports Bcache Paging Mailbox Bitmap FsInv FsBlocks Screen Libc Exit Malloc Net Syscall Plic Kernel Boot Image Load Smp Bios
begin

text \<open>
  A model of a teaching operating system for RISC-V (the kernel under src/kernel, src/drivers, src/init, src/libs and
  src/arch/riscv, the user library src/tiny_libc and the image builder src/tools/createimage.c), with the theorems that
  make its parts correct. This theory collects the others; the definitions are translations of the C functions of the
  same names, and the C file is named at the head of each theory.

  \<^bold>\<open>The program and its parts.\<close> createimage joins boot block, kernel and programs to an image. The boot stage builds page
  tables and jumps to \<^verbatim>\<open>main\<close>, which initialises the parts of the kernel, starts the shell and waits for interrupts. From then
  on the kernel runs only behind traps, one hart at a time under the kernel lock: \<^verbatim>\<open>interrupt_helper\<close> dispatches system calls, page
  faults, timer and external interrupts. The scheduler multiplexes processes; locks, barriers, conditions, mailboxes and the
  network driver block and wake them through its queues; the memory manager gives them pages and swaps; the file system
  works on a sector cache before the SD card, which the timer interrupt flushes.

  \<^bold>\<open>Shared vocabulary.\<close>
  \<^item> \<open>OS_Prelude\<close>: machine integers as words, byte arrays as lists, little-endian fields, options as results, the collections of
    rewrite rules.
  \<^item> \<open>DList\<close>: the circular doubly linked lists (src/include/os/list.h) on explicit pointers, and the locale \<open>dqueue\<close>: what inserting
    and removing promise to every client. It is interpreted by the scheduler's queues (\<open>sq\<close> in \<open>Sched\<close>) and by the page lists (\<open>pq\<close>
    in \<open>Swap\<close>).
  \<^item> \<open>CString\<close>: src/libs/string.c.

  \<^bold>\<open>Processes.\<close>
  \<^item> \<open>Sched\<close> (sched.c, time.c, parts of screen.c): state record \<open>kst\<close>, PCBs and queues. Every reachable state keeps the queues well formed
    and the process states consistent with them, \<^verbatim>\<open>do_scheduler\<close> always returns with the decision stated, a ready process runs
    after boundedly many calls, sleepers are woken exactly when due.
  \<^item> \<open>Mm\<close>, \<open>Bitmap\<close>, \<open>Pgtable\<close> (mm.c, mm.h, ioremap.c, pgtable.h): record \<open>mmst\<close>, which extends \<open>kst\<close>. Locale \<open>bit_allocator\<close>, interpreted
    by the page bitmaps (\<open>pages\<close>). \<open>Swap\<close>: the clock search ends, and a page swapped out and in is the same page. \<open>Paging\<close>:
    \<^verbatim>\<open>alloc_page_helper\<close> maps the page it was asked for and changes no other mapping.
  \<^item> \<open>Lock\<close> (lock.c): record \<open>lkst\<close>. \<open>Sync\<close>: mutual exclusion of mutexes, barrier rounds, conditions. \<open>Mailbox\<close>: a mailbox is a bounded
    queue of bytes. A call that waits gives the outcome \<open>Again\<close> with the state in which the process is blocked, and is made again when
    the process runs again.
  \<^item> \<open>Printk\<close>, \<open>Screen\<close> (printk.c, screen.c): formatting stays in its buffer, and what is printed is what a VT100 terminal shows.
  \<^item> \<open>Process\<close> (sched.c, loader.c, page faults of mm.c): creation and end of processes and threads. \<open>Exit\<close>: the end of a process wakes its
    waiters, frees its locks and pages and dispatches another one; kill ends all threads of a process; a waiter is woken.
  \<^item> \<open>Net\<close> (e1000.c, net.c): the transmit ring is a queue, a received packet is copied and its descriptor given back. \<open>Plic\<close> (plic.c).

  \<^bold>\<open>Files.\<close>
  \<^item> \<open>Bcache\<close> (first part of fs.c): the sector cache refines a plain array of sectors, whatever it evicts, and a flush makes it durable; locale
    \<open>sector_store\<close>, interpreted by the cache's operations (\<open>bc\<close>), from which the file system's transfers follow.
  \<^item> \<open>FsBase\<close>, \<open>FsOps\<close>, \<open>FsInit\<close> (the rest of fs.c): record \<open>fsst\<close> with the static buffers the routines share. \<open>FsSpec\<close>: what each buffer and
    bitmap routine does to the disk. \<open>FsDir\<close>: path lookup is a walk over the directories on the disk, a created file is found. \<open>FsFile\<close>:
    what is written is read back. \<open>FsBlocks\<close>: block allocation. \<open>FsInv\<close>: every routine keeps the state well formed.

  \<^bold>\<open>The kernel as a whole.\<close>
  \<^item> \<open>Syscall\<close> (tiny_libc/syscall.c, unistd.h, \<^verbatim>\<open>init_syscall\<close>): every wrapper reaches its kernel function with its arguments.
  \<^item> \<open>Kernel\<close> (irq.c, syscall.c): the record \<open>sys\<close> puts process side, file side, interrupt controller and timer together; \<open>exec_kcall\<close> runs every
    function of the system call table, \<open>interrupt_helper\<close> every trap. Properties across the parts: four system calls of a user program
    write and read back a file; the timer interrupt flushes the cache in time whatever happens between the ticks; the first touch of a
    heap page maps it; a sender that waits for a descriptor is woken by the adapter's interrupt.
  \<^item> \<open>Smp\<close> (smp.c, atomic.h): the harts as interleaved steps; at most one is inside the kernel.
  \<^item> \<open>Boot\<close> (boot.c, \<^verbatim>\<open>cancel_temp_pgdir\<close>): the boot page tables translate exactly the kernel window and the boot code. \<open>Image\<close> (createimage.c): the
    image has the programs where the kernel looks for them. \<open>Load\<close> (loader.c on top of the paging): the bytes of a program file, taken from the
    image, are at the entry point of the new address space. \<open>Bios\<close> (common.c, kernel.h, \<^verbatim>\<open>init_jmptab\<close>): what reaches the firmware.

  \<^bold>\<open>The user library.\<close> \<open>Libc\<close> (printf.c, atoi.c, itoa.c, rand.c, mailbox.c): a printed number is parsed back. \<open>Malloc\<close> (malloc.c): blocks handed out are
    disjoint, in the heap and large enough, after any sequence of calls; a block that is freed again leaves the heap as it was.

  \<^bold>\<open>Conventions.\<close> A result \<open>None\<close> is a call that does not return: a failed \<^verbatim>\<open>assert\<close> (it loops), an access outside of an array or through a null
  pointer, an endless loop. Loops that may not end are \<open>partial_function (option)\<close>; there is no fuel, and the theorems that a routine returns are
  proved as such. Integers have their width and wrap around; \<^verbatim>\<open>char\<close> is unsigned, as on the target. Pointers into arrays are indices, pointers to list nodes
  are values of a datatype of nodes.

  \<^bold>\<open>Parameters.\<close> The SD card of the file system (\<open>sd_ops\<close>), the swap device (\<open>swap_ops\<close>), the adapter's registers (\<open>nic\<close>), the interrupt controller's
  registers (\<open>mmio\<close>), the addresses at which the linker puts objects (\<open>kaddr\<close>, \<open>nbufs\<close>), the clock, and the files given to createimage. What
  the code relies on (a sector read is the sector written, and the like) is a hypothesis of the theorems, and each has a witness with a concrete function.

  \<^bold>\<open>Not modelled.\<close> The assembly files (register save and restore, \<^verbatim>\<open>switch_to\<close>, the boot block), whose effect is the change of the running
  process and the register frame; the firmware; the TLB and instruction cache; the log output of \<^verbatim>\<open>printl\<close>; the progress output of createimage; the order of
  the calls in \<^verbatim>\<open>main\<close> and its waiting loop; the empty spin lock functions of lock.c; the shell and the test programs. Inside the kernel, one handler
  runs from its entry to its end or to the point where its process blocks, which the kernel lock provides.
\<close>

end
